(* ===== verification/Prelude.thy ===== *)
theory Prelude
  imports Main "HOL-Library.Word"
begin

unbundle bit_operations_syntax

text \<open>
  Shared vocabulary of the development: the machine types of the Rust sources, the
  checked and saturating arithmetic of \<^verbatim>\<open>core\<close>, the slice and iterator operations the
  components use, and the generic lemmas their proofs share.

  Conventions. A \<^verbatim>\<open>usize\<close> that only counts or indexes is a \<^typ>\<open>nat\<close>; where the source
  relies on wrap-around, truncation or bit patterns the value is a word of the source's
  width or the reduction \<open>mod 2 ^ w\<close> is written out. A Rust \<^verbatim>\<open>Result<T, E>\<close> is
  \<open>'e + 't\<close> with \<open>Inl\<close> for \<^verbatim>\<open>Err\<close>, an \<^verbatim>\<open>Option\<close> is \<open>option\<close>, and \<open>&mut self\<close> is the
  state passed in and returned.
\<close>

section \<open>Machine types\<close>

type_synonym u8 = "8 word"
type_synonym u16 = "16 word"
type_synonym u32 = "32 word"
type_synonym u64 = "64 word"

named_theorems rust_defs \<open>definitions of Rust core operations\<close>

section \<open>Arithmetic of core\<close>

definition checked_add :: "'a::len word \<Rightarrow> 'a word \<Rightarrow> 'a word option" where
  [rust_defs]: "checked_add x y = (if unat x + unat y < 2 ^ LENGTH('a) then Some (x + y) else None)"

definition saturating_add :: "'a::len word \<Rightarrow> 'a word \<Rightarrow> 'a word" where
  [rust_defs]: "saturating_add x y = (if unat x + unat y < 2 ^ LENGTH('a) then x + y else - 1)"

definition saturating_sub :: "'a::len word \<Rightarrow> 'a word \<Rightarrow> 'a word" where
  [rust_defs]: "saturating_sub x y = (if x < y then 0 else x - y)"

lemma unat_plus_exact:
  fixes x y :: "'a::len word"
  assumes "unat x + unat y < 2 ^ LENGTH('a)"
  shows "unat (x + y) = unat x + unat y"
  using assms by (simp add: unat_word_ariths)

lemma checked_add_Some:
  "checked_add x y = Some z \<Longrightarrow> unat z = unat x + unat y"
  by (auto simp: checked_add_def unat_plus_exact split: if_splits)

lemma unat_saturating_add:
  fixes x y :: "'a::len word"
  shows "unat (saturating_add x y) = min (unat x + unat y) (2 ^ LENGTH('a) - 1)"
  by (auto simp: saturating_add_def unat_plus_exact unsigned_minus_1_eq_mask mask_eq_exp_minus_1)

lemma unat_saturating_sub [simp]: "unat (saturating_sub x y) = unat x - unat y"
proof (cases "x < y")
  case True
  then show ?thesis by (simp add: saturating_sub_def word_less_nat_alt)
next
  case False
  then have "y \<le> x" by simp
  with False show ?thesis by (simp add: saturating_sub_def unat_sub)
qed

text \<open>The distance from \<open>m\<close> to the next number congruent to \<open>w\<close> modulo \<open>d\<close>.\<close>

lemma mod_next_residue:
  fixes m w d :: nat
  assumes "w < d"
  shows "(m + (w + d - m mod d) mod d) mod d = w"
proof -
  have "m mod d < d" using assms by simp
  moreover have "(m div d + 1) * d = m div d * d + d" by simp
  ultimately have "m + (w + d - m mod d) = w + (m div d + 1) * d"
    using div_mult_mod_eq [of m d] by linarith
  then have "(m + (w + d - m mod d)) mod d = w"
    using assms by (simp only: mod_mult_self1 mod_less)
  then show ?thesis by (simp add: mod_add_right_eq)
qed

section \<open>Slices and iterators\<close>

text \<open>\<^verbatim>\<open>iter().position(p)\<close>: the index of the first element that satisfies \<open>p\<close>.\<close>

fun position :: "('a \<Rightarrow> bool) \<Rightarrow> 'a list \<Rightarrow> nat option" where
  "position p [] = None"
| "position p (x # xs) = (if p x then Some 0 else map_option Suc (position p xs))"

lemma position_Some_iff:
  "position p xs = Some i \<longleftrightarrow> i < length xs \<and> p (xs ! i) \<and> (\<forall>j<i. \<not> p (xs ! j))"
proof (induction xs arbitrary: i)
  case Nil
  then show ?case by simp
next
  case (Cons x xs)
  then show ?case
    by (cases i) (auto simp: less_Suc_eq_0_disj)
qed

lemma position_None_iff: "position p xs = None \<longleftrightarrow> (\<forall>x\<in>set xs. \<not> p x)"
  by (induction xs) auto

lemma position_SomeD:
  assumes "position p xs = Some i"
  shows "i < length xs" "p (xs ! i)" "\<And>j. j < i \<Longrightarrow> \<not> p (xs ! j)"
  using assms by (auto simp: position_Some_iff)

text \<open>\<^verbatim>\<open>slice.get(i)\<close>.\<close>

definition get :: "'a list \<Rightarrow> nat \<Rightarrow> 'a option" where
  "get xs i = (if i < length xs then Some (xs ! i) else None)"

lemma get_Some_iff [simp]: "get xs i = Some x \<longleftrightarrow> i < length xs \<and> xs ! i = x"
  by (simp add: get_def)

lemma get_None_iff [simp]: "get xs i = None \<longleftrightarrow> length xs \<le> i"
  by (auto simp: get_def)

text \<open>\<^verbatim>\<open>iter().find(p)\<close> is \<^const>\<open>List.find\<close>.\<close>

lemma find_map: "List.find p (map f xs) = map_option f (List.find (p \<circ> f) xs)"
  by (induction xs) auto

lemma find_SomeD: "List.find p xs = Some x \<Longrightarrow> x \<in> set xs \<and> p x"
  by (induction xs) (auto split: if_splits)

lemma find_NoneD: "List.find p xs = None \<Longrightarrow> x \<in> set xs \<Longrightarrow> \<not> p x"
  by (induction xs) (auto split: if_splits)

lemma find_upt_Some_iff:
  "List.find p [a..<b] = Some k \<longleftrightarrow> a \<le> k \<and> k < b \<and> p k \<and> (\<forall>j. a \<le> j \<and> j < k \<longrightarrow> \<not> p j)"
proof -
  have "List.find p [a..<b] = Some k \<longleftrightarrow>
      (\<exists>i<b - a. p (a + i) \<and> k = a + i \<and> (\<forall>j<i. \<not> p (a + j)))"
    by (force simp: find_Some_iff)
  also have "\<dots> \<longleftrightarrow> a \<le> k \<and> k < b \<and> p k \<and> (\<forall>j. a \<le> j \<and> j < k \<longrightarrow> \<not> p j)"
  proof
    assume "\<exists>i<b - a. p (a + i) \<and> k = a + i \<and> (\<forall>j<i. \<not> p (a + j))"
    then obtain i where i: "i < b - a" "p (a + i)" "k = a + i" "\<forall>j<i. \<not> p (a + j)" by blast
    have "\<not> p j" if "a \<le> j" "j < k" for j
      using i(3,4) that by (metis le_add_diff_inverse nat_add_left_cancel_less)
    with i show "a \<le> k \<and> k < b \<and> p k \<and> (\<forall>j. a \<le> j \<and> j < k \<longrightarrow> \<not> p j)" by auto
  next
    assume r: "a \<le> k \<and> k < b \<and> p k \<and> (\<forall>j. a \<le> j \<and> j < k \<longrightarrow> \<not> p j)"
    then show "\<exists>i<b - a. p (a + i) \<and> k = a + i \<and> (\<forall>j<i. \<not> p (a + j))"
      by (intro exI [of _ "k - a"]) auto
  qed
  finally show ?thesis .
qed

text \<open>Replacing one element of a list.\<close>

lemma nth_list_update_cases:
  "i < length xs \<Longrightarrow> xs[i := v] ! j = (if j = i then v else xs ! j)"
  by (simp add: nth_list_update)

text \<open>A symmetric relation that holds along a list holds between any two of its elements.\<close>

lemma sorted_wrt_pairwise:
  assumes "sorted_wrt R xs" "\<And>x y. R x y \<Longrightarrow> R y x" "x \<in> set xs" "y \<in> set xs" "x \<noteq> y"
  shows "R x y"
  using assms by (induction xs) auto

end
