(* ===== verification/Affinity.thy ===== *)
theory Affinity
  imports Prelude
begin

unbundle bit_operations_syntax

text \<open>
  \<^verbatim>\<open>crates/abi/src/affinity.rs\<close>: which cores a task may run on, and the two-pass
  round-robin scan every core uses to choose a slot. The scan is parameterised by the
  predicates \<open>pickable\<close> and \<open>sticky\<close> exactly as in the source.
\<close>

section \<open>Masks\<close>

type_synonym mask = u64

definition MASK_ALL :: mask where
  "MASK_ALL = - 1"

definition allows :: "mask \<Rightarrow> nat \<Rightarrow> bool" where
  "allows m cpu \<longleftrightarrow> cpu < 64 \<and> m AND push_bit cpu 1 \<noteq> 0"

definition only :: "nat \<Rightarrow> mask" where
  "only cpu = (if cpu < 64 then push_bit cpu 1 else MASK_ALL)"

definition NO_HOME :: nat where
  "NO_HOME = 2 ^ 64 - 1"

definition homed_here :: "nat \<Rightarrow> nat \<Rightarrow> bool" where
  "homed_here last_cpu cpu \<longleftrightarrow> last_cpu = cpu \<or> last_cpu = NO_HOME"

definition satisfiable :: "mask \<Rightarrow> mask \<Rightarrow> bool" where
  "satisfiable m online \<longleftrightarrow> m AND online \<noteq> 0"

section \<open>The scan\<close>

definition scan_order :: "nat \<Rightarrow> nat \<Rightarrow> nat list" where
  "scan_order n frm = map (\<lambda>off. (frm + off) mod n) [1..<n]"

definition choose_next :: "nat \<Rightarrow> nat \<Rightarrow> (nat \<Rightarrow> bool) \<Rightarrow> (nat \<Rightarrow> bool) \<Rightarrow> nat option" where
  "choose_next n frm pickable sticky =
     (if n = 0 then None
      else case List.find (\<lambda>i. pickable i \<and> sticky i) (scan_order n frm) of
             Some i \<Rightarrow> Some i
           | None \<Rightarrow> List.find pickable (scan_order n frm))"

definition choose_first :: "nat \<Rightarrow> (nat \<Rightarrow> bool) \<Rightarrow> (nat \<Rightarrow> bool) \<Rightarrow> nat option" where
  "choose_first n pickable sticky =
     (case List.find (\<lambda>i. pickable i \<and> sticky i) [0..<n] of
        Some i \<Rightarrow> Some i
      | None \<Rightarrow> List.find pickable [0..<n])"

section \<open>Masks: one bit per core\<close>

lemma allows_bit: "allows m cpu \<longleftrightarrow> cpu < 64 \<and> bit m cpu"
  by (simp add: allows_def and_exp_eq_0_iff_not_bit)

lemma allows_ALL [simp]: "allows MASK_ALL cpu \<longleftrightarrow> cpu < 64"
  by (auto simp: allows_bit MASK_ALL_def)

lemma allows_only: "cpu < 64 \<Longrightarrow> allows (only cpu) c \<longleftrightarrow> c = cpu"
  by (auto simp: allows_bit only_def bit_exp_iff)

lemma satisfiable_iff: "satisfiable m online \<longleftrightarrow> (\<exists>cpu. allows m cpu \<and> allows online cpu)"
  by (auto simp: satisfiable_def allows_bit bit_eq_iff bit_and_iff)

text \<open>
  An accepted affinity mask always leaves a core that may run the task: the test
  \<^verbatim>\<open>SetAffinity\<close> makes before it installs a mask is exactly the existence of an
  online core the mask allows.
\<close>

section \<open>The scan visits every other slot exactly once\<close>

lemma set_scan_order: "set (scan_order n frm) = {i. i < n \<and> i \<noteq> frm mod n}"
proof (cases "n = 0")
  case True
  then show ?thesis by (simp add: scan_order_def)
next
  case False
  have "i \<in> (\<lambda>off. (frm + off) mod n) ` {1..<n}" if "i < n" "i \<noteq> frm mod n" for i
  proof -
    define off where "off = (if frm mod n < i then i - frm mod n else i + n - frm mod n)"
    have "frm mod n < n" using False by simp
    then have "1 \<le> off \<and> off < n" using that unfolding off_def by (simp, linarith)
    then have "off \<in> {1..<n}" by simp
    moreover have "(frm + off) mod n = i"
    proof -
      have "(frm + off) mod n = (frm mod n + off) mod n" by (simp add: mod_add_left_eq)
      also have "frm mod n + off = (if frm mod n < i then i else i + n)"
        using \<open>frm mod n < n\<close> by (simp add: off_def)
      also have "\<dots> mod n = i" using that(1) by simp
      finally show ?thesis .
    qed
    ultimately show ?thesis by force
  qed
  moreover have "(frm + off) mod n \<noteq> frm mod n" if "off \<in> {1..<n}" for off
  proof
    assume "(frm + off) mod n = frm mod n"
    then have "n dvd off" by (metis add_diff_cancel_left' le_add1 mod_eq_dvd_iff_nat)
    with that show False by (auto dest: dvd_imp_le)
  qed
  ultimately show ?thesis
    using False by (auto simp: scan_order_def)
qed

lemma distinct_scan_order: "distinct (scan_order n frm)"
proof -
  have "inj_on (\<lambda>off. (frm + off) mod n) {1..<n}"
  proof (rule inj_onI)
    fix a b assume ab: "a \<in> {1..<n}" "b \<in> {1..<n}" "(frm + a) mod n = (frm + b) mod n"
    show "a = b"
    proof (rule linorder_cases [of a b])
      assume "a < b"
      then have "n dvd (frm + b) - (frm + a)" using ab(3) by (metis mod_eq_dvd_iff_nat add_le_cancel_left less_imp_le)
      then show ?thesis using ab \<open>a < b\<close> by (auto dest!: dvd_imp_le)
    next
      assume "b < a"
      then have "n dvd (frm + a) - (frm + b)" using ab(3) by (metis mod_eq_dvd_iff_nat add_le_cancel_left less_imp_le)
      then show ?thesis using ab \<open>b < a\<close> by (auto dest!: dvd_imp_le)
    qed
  qed
  then show ?thesis by (simp add: scan_order_def distinct_map)
qed

section \<open>The contract of a slot picker\<close>

text \<open>
  What the class scheduler relies on: a picker over a set of candidate slots returns a
  pickable candidate, returns one whenever there is one, and prefers a sticky one.
\<close>

locale slot_picker =
  fixes cands :: "nat set"
    and pick :: "(nat \<Rightarrow> bool) \<Rightarrow> (nat \<Rightarrow> bool) \<Rightarrow> nat option"
  assumes pick_sound: "pick p s = Some i \<Longrightarrow> i \<in> cands \<and> p i"
    and pick_complete: "pick p s = None \<Longrightarrow> j \<in> cands \<Longrightarrow> \<not> p j"
    and pick_prefers: "pick p s = Some i \<Longrightarrow> j \<in> cands \<Longrightarrow> p j \<Longrightarrow> s j \<Longrightarrow> s i"
begin

lemma pick_None_iff: "pick p s = None \<longleftrightarrow> (\<forall>j\<in>cands. \<not> p j)"
  using pick_sound pick_complete by (metis not_None_eq)

lemma pick_ex: "j \<in> cands \<Longrightarrow> p j \<Longrightarrow> \<exists>i\<in>cands. p i \<and> pick p s = Some i"
  using pick_sound pick_complete by (metis not_None_eq)

end

lemma two_pass_find:
  fixes xs :: "nat list" and p s :: "nat \<Rightarrow> bool"
  defines "r \<equiv> case List.find (\<lambda>i. p i \<and> s i) xs of Some i \<Rightarrow> Some i | None \<Rightarrow> List.find p xs"
  shows "r = Some i \<Longrightarrow> i \<in> set xs \<and> p i"
    and "r = None \<Longrightarrow> j \<in> set xs \<Longrightarrow> \<not> p j"
    and "r = Some i \<Longrightarrow> j \<in> set xs \<Longrightarrow> p j \<Longrightarrow> s j \<Longrightarrow> s i"
  unfolding r_def
  by (auto dest: find_SomeD find_NoneD split: option.splits)

interpretation next_picker: slot_picker "{i. i < n \<and> i \<noteq> frm mod n}" "choose_next n frm" for n frm
proof
  fix p s i j
  show "choose_next n frm p s = Some i \<Longrightarrow> i \<in> {i. i < n \<and> i \<noteq> frm mod n} \<and> p i"
    by (auto simp: choose_next_def simp flip: set_scan_order split: if_splits dest: two_pass_find(1))
  show "choose_next n frm p s = None \<Longrightarrow> j \<in> {i. i < n \<and> i \<noteq> frm mod n} \<Longrightarrow> \<not> p j"
    by (cases "n = 0")
      (auto simp: choose_next_def simp flip: set_scan_order dest: two_pass_find(2))
  show "choose_next n frm p s = Some i \<Longrightarrow> j \<in> {i. i < n \<and> i \<noteq> frm mod n} \<Longrightarrow>
      p j \<Longrightarrow> s j \<Longrightarrow> s i"
    by (auto simp: choose_next_def simp flip: set_scan_order split: if_splits dest: two_pass_find(3))
qed

interpretation first_picker: slot_picker "{i. i < n}" "choose_first n" for n
proof
  fix p s i j
  have *: "{i. i < n} = set [0..<n]" by auto
  show "choose_first n p s = Some i \<Longrightarrow> i \<in> {i. i < n} \<and> p i"
    unfolding choose_first_def * by (rule two_pass_find(1))
  show "choose_first n p s = None \<Longrightarrow> j \<in> {i. i < n} \<Longrightarrow> \<not> p j"
    unfolding choose_first_def * by (rule two_pass_find(2))
  show "choose_first n p s = Some i \<Longrightarrow> j \<in> {i. i < n} \<Longrightarrow> p j \<Longrightarrow> s j \<Longrightarrow> s i"
    unfolding choose_first_def * by (rule two_pass_find(3))
qed

end
