(* ===== verification/SchedClass.thy ===== *)
theory SchedClass
  imports Affinity
begin

text \<open>
  \<^verbatim>\<open>crates/abi/src/class.rs\<close>: scheduling classes as strict bands with a bounded escape.
  The band loop of \<^verbatim>\<open>class::choose\<close> and \<^verbatim>\<open>class::choose_first\<close> runs the affinity scan of
  \<^verbatim>\<open>affinity.rs\<close> once per band; its properties are proved once, over the contract
  \<open>slot_picker\<close>, and instantiated for both.
\<close>

section \<open>Classes\<close>

datatype sched_class = Latency | Normal | Bulk

definition QUERY :: u64 where
  "QUERY = 0"

definition class_from_raw :: "u64 \<Rightarrow> sched_class option" where
  "class_from_raw n =
     (if n = 1 then Some Latency
      else if n = 2 then Some Normal
      else if n = 3 then Some Bulk
      else None)"

fun class_as_raw :: "sched_class \<Rightarrow> u64" where
  "class_as_raw Latency = 1"
| "class_as_raw Normal = 2"
| "class_as_raw Bulk = 3"

definition class_index :: "sched_class \<Rightarrow> nat" where
  "class_index c = unat (class_as_raw c) - 1"

text \<open>The derived \<^verbatim>\<open>Ord\<close>: by discriminant, lower is more urgent.\<close>

instantiation sched_class :: linorder
begin

definition less_eq_sched_class :: "sched_class \<Rightarrow> sched_class \<Rightarrow> bool" where
  "less_eq_sched_class a b \<longleftrightarrow> class_as_raw a \<le> class_as_raw b"

definition less_sched_class :: "sched_class \<Rightarrow> sched_class \<Rightarrow> bool" where
  "less_sched_class a b \<longleftrightarrow> class_as_raw a < class_as_raw b"

instance
proof
  fix x y z :: sched_class
  show "x < y \<longleftrightarrow> x \<le> y \<and> \<not> y \<le> x"
    by (auto simp: less_eq_sched_class_def less_sched_class_def)
  show "x \<le> x"
    by (simp add: less_eq_sched_class_def)
  show "x \<le> y \<Longrightarrow> y \<le> z \<Longrightarrow> x \<le> z"
    by (auto simp: less_eq_sched_class_def)
  show "x \<le> y \<Longrightarrow> y \<le> x \<Longrightarrow> x = y"
    by (cases x; cases y) (simp_all add: less_eq_sched_class_def word_le_nat_alt)
  show "x \<le> y \<or> y \<le> x"
    by (auto simp: less_eq_sched_class_def)
qed

end

section \<open>Bands\<close>

definition FAIRNESS_EVERY :: u64 where
  "FAIRNESS_EVERY = 8"

definition is_fair :: "u64 \<Rightarrow> bool" where
  "is_fair picks \<longleftrightarrow> picks mod FAIRNESS_EVERY = FAIRNESS_EVERY - 1"

definition bands :: "u64 \<Rightarrow> sched_class list" where
  "bands picks =
     (if \<not> is_fair picks then [Latency, Normal, Bulk]
      else if (picks div FAIRNESS_EVERY) mod 2 = 0 then [Bulk, Normal, Latency]
      else [Normal, Bulk, Latency])"

text \<open>The \<^verbatim>\<open>for band in bands(picks)\<close> loop with its early return.\<close>

fun scan_bands :: "(sched_class \<Rightarrow> nat option) \<Rightarrow> sched_class list \<Rightarrow> nat option" where
  "scan_bands f [] = None"
| "scan_bands f (b # bs) = (case f b of Some i \<Rightarrow> Some i | None \<Rightarrow> scan_bands f bs)"

definition class_choose ::
  "nat \<Rightarrow> nat \<Rightarrow> u64 \<Rightarrow> (nat \<Rightarrow> bool) \<Rightarrow> (nat \<Rightarrow> bool) \<Rightarrow> (nat \<Rightarrow> sched_class) \<Rightarrow> nat option" where
  "class_choose n frm picks pickable sticky class_of =
     scan_bands (\<lambda>band. choose_next n frm (\<lambda>i. pickable i \<and> class_of i = band) sticky) (bands picks)"

definition class_choose_first ::
  "nat \<Rightarrow> u64 \<Rightarrow> (nat \<Rightarrow> bool) \<Rightarrow> (nat \<Rightarrow> bool) \<Rightarrow> (nat \<Rightarrow> sched_class) \<Rightarrow> nat option" where
  "class_choose_first n picks pickable sticky class_of =
     scan_bands (\<lambda>band. choose_first n (\<lambda>i. pickable i \<and> class_of i = band) sticky) (bands picks)"

definition should_switch :: "sched_class \<Rightarrow> sched_class \<Rightarrow> bool \<Rightarrow> bool" where
  "should_switch running candidate fair \<longleftrightarrow> fair \<or> class_as_raw candidate \<le> class_as_raw running"

definition outranked :: "nat \<Rightarrow> sched_class \<Rightarrow> (nat \<Rightarrow> bool) \<Rightarrow> (nat \<Rightarrow> sched_class) \<Rightarrow> bool" where
  "outranked n chosen pickable class_of \<longleftrightarrow> list_ex (\<lambda>i. class_of i < chosen \<and> pickable i) [0..<n]"

section \<open>Classes and bands\<close>

lemma class_less_simps [simp]:
  "Latency < Normal" "Latency < Bulk" "Normal < Bulk"
  "\<not> Normal < Latency" "\<not> Bulk < Latency" "\<not> Bulk < Normal"
  by (simp_all add: less_sched_class_def)

lemma Latency_le [simp]: "Latency \<le> c"
  by (cases c) (simp_all add: less_eq_sched_class_def)

lemma le_Bulk [simp]: "c \<le> Bulk"
  by (cases c) (simp_all add: less_eq_sched_class_def)

lemma class_from_raw_iff: "class_from_raw n = Some c \<longleftrightarrow> n = class_as_raw c"
  by (cases c) (auto simp: class_from_raw_def)

lemma class_index_less: "class_index c < 3"
  by (cases c) (simp_all add: class_index_def)

lemma set_bands: "set (bands picks) = UNIV"
  using sched_class.exhaust by (auto simp: bands_def)

lemma distinct_bands: "distinct (bands picks)"
  by (simp add: bands_def)

lemma ordered_bands: "\<not> is_fair picks \<Longrightarrow> sorted (bands picks)"
  by (simp add: bands_def less_imp_le)

lemma scan_bands_None_iff: "scan_bands f bs = None \<longleftrightarrow> (\<forall>b\<in>set bs. f b = None)"
  by (induction bs) (auto split: option.splits)

lemma scan_bands_Some:
  "scan_bands f bs = Some i \<Longrightarrow>
     \<exists>pre b post. bs = pre @ b # post \<and> f b = Some i \<and> (\<forall>b'\<in>set pre. f b' = None)"
proof (induction bs)
  case Nil
  then show ?case by simp
next
  case (Cons b bs)
  show ?case
  proof (cases "f b")
    case None
    with Cons obtain pre b' post where
      "bs = pre @ b' # post" "f b' = Some i" "\<forall>x\<in>set pre. f x = None" by auto
    with None show ?thesis by (intro exI [of _ "b # pre"]) auto
  next
    case (Some j)
    with Cons.prems show ?thesis by (intro exI [of _ "[]"]) auto
  qed
qed

lemma scan_bands_hd: "f b = Some i \<Longrightarrow> scan_bands f (b # bs) = Some i"
  by simp

section \<open>The band scan over any slot picker\<close>

context slot_picker
begin

lemma scan_sound:
  assumes "scan_bands (\<lambda>band. pick (\<lambda>i. p i \<and> c i = band) s) bs = Some i"
  shows "i \<in> cands \<and> p i \<and> c i \<in> set bs"
  using scan_bands_Some [OF assms] pick_sound by fastforce

lemma scan_complete:
  "scan_bands (\<lambda>band. pick (\<lambda>i. p i \<and> c i = band) s) (bands k) = None \<longleftrightarrow> (\<forall>j\<in>cands. \<not> p j)"
  by (auto simp: scan_bands_None_iff set_bands pick_None_iff)

text \<open>A slot of an earlier band is never passed over for one of a later band.\<close>

lemma scan_order_respected:
  assumes "scan_bands (\<lambda>band. pick (\<lambda>i. p i \<and> c i = band) s) bs = Some i"
    and "distinct bs" and "j \<in> cands" and "p j" and "bs = xs @ c j # ys"
  shows "c i \<in> set (xs @ [c j])"
proof -
  obtain pre b post where bs: "bs = pre @ b # post"
    and b: "pick (\<lambda>i. p i \<and> c i = b) s = Some i"
    and pre: "\<forall>b'\<in>set pre. pick (\<lambda>i. p i \<and> c i = b') s = None"
    using scan_bands_Some [OF assms(1)] by blast
  have "c i = b" using pick_sound [OF b] by simp
  have "c j \<notin> set pre" using pre assms(3,4) pick_complete by blast
  then show ?thesis
    using bs assms(2,5) \<open>c i = b\<close> by (auto simp: append_eq_append_conv2 Cons_eq_append_conv append_eq_Cons_conv)
qed

lemma scan_ordered:
  assumes "scan_bands (\<lambda>band. pick (\<lambda>i. p i \<and> c i = band) s) (bands k) = Some i"
    and "\<not> is_fair k" and "j \<in> cands" and "p j"
  shows "c i \<le> c j"
proof -
  obtain xs ys where *: "bands k = xs @ c j # ys"
    using set_bands [of k] by (metis UNIV_I split_list)
  then have "c i \<in> set (xs @ [c j])"
    using scan_order_respected [OF assms(1) distinct_bands assms(3,4)] by blast
  with ordered_bands [OF assms(2)] * show ?thesis by (auto simp: sorted_append)
qed

lemma scan_prefers_sticky:
  assumes "scan_bands (\<lambda>band. pick (\<lambda>i. p i \<and> c i = band) s) bs = Some i"
    and "j \<in> cands" and "p j" and "c j = c i" and "s j"
  shows "s i"
proof -
  obtain b where b: "pick (\<lambda>i. p i \<and> c i = b) s = Some i"
    using scan_bands_Some [OF assms(1)] by blast
  then have "c i = b" using pick_sound [OF b] by simp
  then show ?thesis using pick_prefers [OF b assms(2)] assms(3-5) by simp
qed

lemma scan_serves_hd:
  assumes "hd (bands k) = b" and "j \<in> cands" and "p j" and "c j = b"
  shows "\<exists>i\<in>cands. scan_bands (\<lambda>band. pick (\<lambda>i. p i \<and> c i = band) s) (bands k) = Some i \<and> p i \<and> c i = b"
proof -
  obtain bs where bs: "bands k = b # bs" using assms(1) by (cases "bands k") (auto simp: bands_def split: if_splits)
  obtain i where "i \<in> cands" "p i \<and> c i = b" "pick (\<lambda>i. p i \<and> c i = b) s = Some i"
    using pick_ex [of j "\<lambda>i. p i \<and> c i = b"] assms(2-4) by blast
  then show ?thesis by (auto simp: bs)
qed

end

section \<open>The fairness phase\<close>

lemma is_fair_mod: "is_fair picks \<longleftrightarrow> unat picks mod 8 = 7"
  by (simp add: is_fair_def FAIRNESS_EVERY_def word_unat_eq_iff unat_mod)

lemma hd_bands:
  "hd (bands picks) =
     (if unat picks mod 16 = 7 then Bulk else if unat picks mod 16 = 15 then Normal else Latency)"
proof -
  have "(picks div FAIRNESS_EVERY) mod 2 = 0 \<longleftrightarrow> unat picks div 8 mod 2 = 0"
    by (simp add: FAIRNESS_EVERY_def word_unat_eq_iff unat_mod unat_div)
  moreover have "unat picks mod 16 = unat picks mod 8 + 8 * (unat picks div 8 mod 2)"
    using mod_mult2_eq [of "unat picks" 8 2] by simp
  moreover have "unat picks mod 8 < 8" "unat picks div 8 mod 2 < 2" by simp_all
  ultimately show ?thesis
    by (auto simp: bands_def is_fair_mod)
qed

text \<open>The pick counter wraps at \<open>2 ^ 64\<close>, a multiple of the period: the phase does not jump.\<close>

lemma unat_add_mod16:
  fixes picks :: u64
  shows "unat (picks + of_nat k) mod 16 = (unat picks + k) mod 16"
proof -
  have "unat (picks + of_nat k) = (unat picks + k) mod 2 ^ 64"
    by (simp add: unat_word_ariths unat_of_nat mod_simps)
  moreover have "(m mod 2 ^ 64) mod 16 = m mod 16" for m :: nat
    by (rule mod_mod_cancel) simp
  ultimately show ?thesis by simp
qed

lemma band_head_within_16:
  fixes picks :: u64
  shows "\<exists>k<16. hd (bands (picks + of_nat k)) = b"
proof -
  define want :: nat where "want = (case b of Bulk \<Rightarrow> 7 | Normal \<Rightarrow> 15 | Latency \<Rightarrow> 0)"
  define k where "k = (want + 16 - unat picks mod 16) mod 16"
  have "want < 16" by (cases b) (simp_all add: want_def)
  then have "(unat picks + k) mod 16 = want"
    unfolding k_def by (rule mod_next_residue)
  then have "hd (bands (picks + of_nat k)) = b"
    by (cases b) (simp_all add: hd_bands unat_add_mod16 want_def)
  moreover have "k < 16" by (simp add: k_def)
  ultimately show ?thesis by blast
qed

section \<open>Properties\<close>

text \<open>A chosen slot is a runnable slot other than the one being left; on an ordinary
  pick no runnable slot of a more urgent class is passed over; and inside the chosen
  class a slot this core ran before is preferred over one it did not.\<close>

theorem class_choose_correct:
  assumes "class_choose n frm picks pickable sticky class_of = Some i" and "frm < n"
  shows "i < n \<and> i \<noteq> frm \<and> pickable i \<and>
    (\<forall>j<n. j \<noteq> frm \<longrightarrow> pickable j \<longrightarrow>
       (\<not> is_fair picks \<longrightarrow> class_of i \<le> class_of j) \<and>
       (class_of j = class_of i \<longrightarrow> sticky j \<longrightarrow> sticky i))"
  using assms(2) next_picker.scan_sound [OF assms(1) [unfolded class_choose_def]]
    next_picker.scan_ordered [OF assms(1) [unfolded class_choose_def]]
    next_picker.scan_prefers_sticky [OF assms(1) [unfolded class_choose_def]]
  by simp

theorem class_choose_correct_witness:
  "\<exists>i. class_choose 4 0 0 (\<lambda>i. i \<in> {2, 3}) (\<lambda>i. i = 2) (\<lambda>i. if i = 3 then Latency else Normal) = Some i
     \<and> i < 4 \<and> i \<noteq> 0 \<and> i \<in> {2, 3} \<and> \<not> is_fair 0"
proof -
  have *: "class_choose 4 0 0 (\<lambda>i. i \<in> {2, 3}) (\<lambda>i. i = 2) (\<lambda>i. if i = 3 then Latency else Normal) = Some 3"
    by code_simp
  show ?thesis using class_choose_correct [OF *] * by (simp add: is_fair_def FAIRNESS_EVERY_def)
qed

text \<open>The scheduler is work conserving on every pick, fairness picks included: a core
  finds nothing to run exactly when no other slot is runnable.\<close>

theorem class_choose_work_conserving:
  assumes "frm < n"
  shows "class_choose n frm picks pickable sticky class_of = None \<longleftrightarrow>
    (\<forall>j<n. j \<noteq> frm \<longrightarrow> \<not> pickable j)"
  using assms next_picker.scan_complete [of n frm pickable class_of sticky picks]
  by (auto simp: class_choose_def)

theorem class_choose_work_conserving_witness:
  "class_choose 4 2 7 (\<lambda>i. i = 2) (\<lambda>_. True) (\<lambda>_. Normal) = None"
  using class_choose_work_conserving [of 2 4 7 "\<lambda>i. i = 2"] by simp

text \<open>The independent check of the shutdown report agrees with the picker: a pick that
  passes over a runnable slot of a more urgent class is a fairness pick.\<close>

theorem inversion_only_on_fair_pick:
  assumes "class_choose n frm picks pickable sticky class_of = Some i" and "frm < n"
    and "outranked n (class_of i) (\<lambda>j. j \<noteq> frm \<and> pickable j) class_of"
  shows "is_fair picks"
proof (rule ccontr)
  assume "\<not> is_fair picks"
  obtain j where "j < n" "class_of j < class_of i" "j \<noteq> frm" "pickable j"
    using assms(3) by (auto simp: outranked_def list_ex_iff)
  with next_picker.scan_ordered [OF assms(1) [unfolded class_choose_def] \<open>\<not> is_fair picks\<close>, of j]
  show False using assms(2) by auto
qed

theorem inversion_only_on_fair_pick_witness: "is_fair 7"
proof (rule inversion_only_on_fair_pick)
  show "class_choose 3 0 7 (\<lambda>_. True) (\<lambda>_. False) (\<lambda>i. if i = 1 then Latency else Bulk) = Some 2"
    by code_simp
  show "(0::nat) < 3" by simp
  show "outranked 3 (if (2::nat) = 1 then Latency else Bulk) (\<lambda>j. j \<noteq> 0 \<and> True)
      (\<lambda>i. if i = 1 then Latency else Bulk)"
    by code_simp
qed

text \<open>C37. No class starves: while a class has a slot an idle core may run, that core runs
  some slot of the class within sixteen consecutive decisions, whatever else is runnable
  and even across the wrap of its 64-bit decision counter.\<close>

theorem every_class_served_within_16:
  assumes "j < n" and "pickable j"
  shows "\<exists>k<16. \<exists>i. class_choose_first n (picks + of_nat k) pickable sticky class_of = Some i \<and>
    i < n \<and> pickable i \<and> class_of i = class_of j"
proof -
  obtain k where k: "k < 16" "hd (bands (picks + of_nat k)) = class_of j"
    using band_head_within_16 by blast
  from first_picker.scan_serves_hd [OF k(2), of j n pickable class_of sticky] assms k(1)
  show ?thesis unfolding class_choose_first_def by auto
qed

theorem every_class_served_within_16_witness:
  "\<exists>k<16. \<exists>i. class_choose_first 3 (- 2 + of_nat k) (\<lambda>_. True) (\<lambda>_. True)
      (\<lambda>i. [Latency, Normal, Bulk] ! i) = Some i \<and>
    i < 3 \<and> True \<and> [Latency, Normal, Bulk] ! i = [Latency, Normal, Bulk] ! 1"
  by (rule every_class_served_within_16 [of 1 3 "\<lambda>_. True" "- 2" "\<lambda>_. True" "\<lambda>i. [Latency, Normal, Bulk] ! i"])
     simp_all

text \<open>The comment on \<^verbatim>\<open>FAIRNESS_EVERY\<close> promises the bottom band once in every eight
  picks of a core; with all three bands runnable, the eight decisions 8 to 15 of a core
  never take the bottom band.\<close>

theorem bottom_band_missed_for_eight_picks:
  "map (\<lambda>picks. class_choose_first 3 picks (\<lambda>_. True) (\<lambda>_. True)
      (\<lambda>i. if i = 0 then Latency else if i = 1 then Normal else Bulk))
     [8, 9, 10, 11, 12, 13, 14, 15] =
   [Some 0, Some 0, Some 0, Some 0, Some 0, Some 0, Some 0, Some 1]"
  by code_simp

end
