(* ===== verification/Abi.thy ===== *)
theory Abi
  imports Prelude
begin

text \<open>
  \<^verbatim>\<open>crates/abi/src/error.rs\<close>, \<^verbatim>\<open>lib.rs\<close>, \<^verbatim>\<open>syscall.rs\<close> and the message type of
  \<^verbatim>\<open>crates/ipc/src/lib.rs\<close>: the numbers the kernel and user space share. A syscall's
  \<^verbatim>\<open>isize\<close> result is an \<^typ>\<open>int\<close>.
\<close>

section \<open>Errors\<close>

datatype kerror =
    InvalidArgument
  | BadHandle
  | PermissionDenied
  | OutOfResources
  | WouldBlock
  | NoSuchSyscall
  | NotSupported

fun kerror_as_raw :: "kerror \<Rightarrow> int" where
  "kerror_as_raw InvalidArgument = - 1"
| "kerror_as_raw BadHandle = - 2"
| "kerror_as_raw PermissionDenied = - 3"
| "kerror_as_raw OutOfResources = - 4"
| "kerror_as_raw WouldBlock = - 5"
| "kerror_as_raw NoSuchSyscall = - 6"
| "kerror_as_raw NotSupported = - 7"

type_synonym 'a kresult = "kerror + 'a"

lemma kerror_as_raw_neg [simp]: "kerror_as_raw e < 0"
  by (cases e) simp_all

lemma kerror_as_raw_inject [simp]: "kerror_as_raw e = kerror_as_raw e' \<longleftrightarrow> e = e'"
  by (cases e; cases e') simp_all

section \<open>Handles and messages\<close>

type_synonym handle = u32

definition HANDLE_NULL :: handle where
  "HANDLE_NULL = 0"

definition is_null :: "handle \<Rightarrow> bool" where
  "is_null h \<longleftrightarrow> h = HANDLE_NULL"

definition MESSAGE_WORDS :: nat where
  "MESSAGE_WORDS = 4"

record message =
  tag :: u64
  words :: "u64 list"
  cap_handle :: handle

definition message_new :: "u64 \<Rightarrow> message" where
  "message_new t = \<lparr>tag = t, words = replicate MESSAGE_WORDS 0, cap_handle = HANDLE_NULL\<rparr>"

definition transfers_cap :: "message \<Rightarrow> bool" where
  "transfers_cap m \<longleftrightarrow> \<not> is_null (cap_handle m)"

section \<open>Syscall numbers\<close>

datatype syscall =
    Yield | Send | Recv | MapMemory | Exit | DebugPutc | Revoke | IrqRegister | Wait | IrqAck
  | MapAnon | Spawn | GrantDevice | GrantIrq | CreateShared | MapShared | CreateDma | MapDma
  | BindDma | DebugWrite | ClockNow | SleepUntil | NotifyCreate | NotifySignal | WaitAny
  | SpawnThread | SpawnImage | DmaPhys | SharedPages | TaskId | EndpointBind | EndpointPending
  | NotifyOnExit | SendNoWait | Unmap | RecvUntil | CpuId | SetAffinity | SetClass | FbFlip

fun syscall_number :: "syscall \<Rightarrow> nat" where
  "syscall_number Yield = 0"
| "syscall_number Send = 1"
| "syscall_number Recv = 2"
| "syscall_number MapMemory = 3"
| "syscall_number Exit = 4"
| "syscall_number DebugPutc = 5"
| "syscall_number Revoke = 6"
| "syscall_number IrqRegister = 7"
| "syscall_number Wait = 8"
| "syscall_number IrqAck = 9"
| "syscall_number MapAnon = 10"
| "syscall_number Spawn = 11"
| "syscall_number GrantDevice = 12"
| "syscall_number GrantIrq = 13"
| "syscall_number CreateShared = 14"
| "syscall_number MapShared = 15"
| "syscall_number CreateDma = 16"
| "syscall_number MapDma = 17"
| "syscall_number BindDma = 18"
| "syscall_number DebugWrite = 19"
| "syscall_number ClockNow = 20"
| "syscall_number SleepUntil = 21"
| "syscall_number NotifyCreate = 22"
| "syscall_number NotifySignal = 23"
| "syscall_number WaitAny = 24"
| "syscall_number SpawnThread = 25"
| "syscall_number SpawnImage = 26"
| "syscall_number DmaPhys = 27"
| "syscall_number SharedPages = 28"
| "syscall_number TaskId = 29"
| "syscall_number EndpointBind = 30"
| "syscall_number EndpointPending = 31"
| "syscall_number NotifyOnExit = 32"
| "syscall_number SendNoWait = 33"
| "syscall_number Unmap = 34"
| "syscall_number RecvUntil = 35"
| "syscall_number CpuId = 36"
| "syscall_number SetAffinity = 37"
| "syscall_number SetClass = 38"
| "syscall_number FbFlip = 39"

text \<open>The arms of \<^verbatim>\<open>Syscall::from_raw\<close> are the consecutive numbers from 0.\<close>

definition syscall_table :: "syscall list" where
  "syscall_table =
     [Yield, Send, Recv, MapMemory, Exit, DebugPutc, Revoke, IrqRegister, Wait, IrqAck,
      MapAnon, Spawn, GrantDevice, GrantIrq, CreateShared, MapShared, CreateDma, MapDma,
      BindDma, DebugWrite, ClockNow, SleepUntil, NotifyCreate, NotifySignal, WaitAny,
      SpawnThread, SpawnImage, DmaPhys, SharedPages, TaskId, EndpointBind, EndpointPending,
      NotifyOnExit, SendNoWait, Unmap, RecvUntil, CpuId, SetAffinity, SetClass, FbFlip]"

definition syscall_from_raw :: "nat \<Rightarrow> syscall option" where
  "syscall_from_raw n = get syscall_table n"

lemma length_syscall_table: "length syscall_table = 40"
  by (simp add: syscall_table_def)

lemma syscall_table_nth: "syscall_table ! syscall_number c = c"
  by (cases c) (simp_all add: syscall_table_def)

lemma syscall_number_less: "syscall_number c < 40"
  by (cases c) simp_all

lemma syscall_number_nth: "n < 40 \<Longrightarrow> syscall_number (syscall_table ! n) = n"
proof -
  have "list_all (\<lambda>n. syscall_number (syscall_table ! n) = n) [0..<40]"
    by code_simp
  then show "n < 40 \<Longrightarrow> syscall_number (syscall_table ! n) = n"
    by (simp add: list_all_iff)
qed

lemma syscall_from_raw_number [simp]: "syscall_from_raw (syscall_number c) = Some c"
  using syscall_table_nth syscall_number_nth syscall_number_less length_syscall_table
  by (auto simp: syscall_from_raw_def)

text \<open>Decoding inverts encoding and nothing else decodes: a number is a syscall exactly
  when it is that syscall's number, so the dispatcher and the user-space stubs agree.\<close>

theorem syscall_from_raw_iff: "syscall_from_raw n = Some c \<longleftrightarrow> syscall_number c = n"
  using syscall_table_nth syscall_number_nth syscall_number_less length_syscall_table
  by (auto simp: syscall_from_raw_def)

end
