(* ===== verification/Buddy.thy ===== *)
theory Buddy
  imports Abi
begin

text \<open>
  \<^verbatim>\<open>crates/mm/src/lib.rs\<close>: the bump allocator and the buddy frame allocator. The buddy
  tree is the array \<open>longest\<close> of the source, with the loops of \<^verbatim>\<open>alloc_pages\<close> and
  \<^verbatim>\<open>free_pages\<close> over indices; an out-of-range index, which panics in Rust, is \<open>None\<close>.
  The abstraction is a tree of free, used and split blocks.
\<close>

section \<open>The source\<close>

definition PAGE_SIZE :: nat where
  "PAGE_SIZE = 4096"

definition is_page_aligned :: "nat \<Rightarrow> bool" where
  "is_page_aligned a \<longleftrightarrow> a mod PAGE_SIZE = 0"

subsection \<open>Bump allocation\<close>

record bump =
  bump_next :: nat
  bump_end :: nat

definition bump_new :: "nat \<Rightarrow> nat \<Rightarrow> bump kresult" where
  "bump_new start len =
     (if \<not> is_page_aligned start then Inl InvalidArgument
      else Inr \<lparr>bump_next = start, bump_end = start + (len div PAGE_SIZE) * PAGE_SIZE\<rparr>)"

definition bump_allocate :: "bump \<Rightarrow> nat option \<times> bump" where
  "bump_allocate b =
     (if bump_next b \<ge> bump_end b then (None, b)
      else (Some (bump_next b), b\<lparr>bump_next := bump_next b + PAGE_SIZE\<rparr>))"

definition bump_free :: "bump \<Rightarrow> nat \<Rightarrow> bump" where
  "bump_free b frame = b"

subsection \<open>Powers of two\<close>

text \<open>The index of the highest set bit, \<^verbatim>\<open>usize::BITS - 1 - n.leading_zeros()\<close> for \<open>n > 0\<close>.\<close>

fun highest_bit :: "nat \<Rightarrow> nat" where
  "highest_bit n = (if n < 2 then 0 else Suc (highest_bit (n div 2)))"

declare highest_bit.simps [simp del]

definition prev_power_of_two :: "nat \<Rightarrow> nat" where
  "prev_power_of_two n = (if n = 0 then 0 else 2 ^ highest_bit n)"

text \<open>\<^verbatim>\<open>usize::next_power_of_two\<close> and \<^verbatim>\<open>usize::is_power_of_two\<close>.\<close>

definition next_power_of_two :: "nat \<Rightarrow> nat" where
  "next_power_of_two n = (if n \<le> 1 then 1 else 2 ^ Suc (highest_bit (n - 1)))"

definition is_power_of_two :: "nat \<Rightarrow> bool" where
  "is_power_of_two n \<longleftrightarrow> n \<noteq> 0 \<and> prev_power_of_two n = n"

text \<open>The \<^verbatim>\<open>as u32\<close> cast.\<close>

definition as_u32 :: "nat \<Rightarrow> nat" where
  "as_u32 n = n mod 2 ^ 32"

subsection \<open>The buddy allocator\<close>

record buddy =
  base :: nat
  frames :: nat
  longest :: "nat list"

definition metadata_bytes :: "nat \<Rightarrow> nat" where
  "metadata_bytes len =
     (let frames = prev_power_of_two (len div PAGE_SIZE)
      in if frames = 0 then 0 else (2 * frames - 1) * 4)"

text \<open>The loop of \<^verbatim>\<open>new\<close> that fills the tree, from node \<open>i\<close> on.\<close>

function build_longest :: "nat \<Rightarrow> nat \<Rightarrow> nat \<Rightarrow> nat list" where
  "build_longest i nodes node_size =
     (if i < nodes
      then let node_size' = (if is_power_of_two (i + 1) then node_size div 2 else node_size)
           in as_u32 node_size' # build_longest (i + 1) nodes node_size'
      else [])"
  by pat_completeness auto
termination
  by (relation "measure (\<lambda>(i, nodes, _). nodes - i)") auto

declare build_longest.simps [simp del]

text \<open>\<open>reserve n\<close> says whether the kernel heap can hold \<open>n\<close> more tree nodes.\<close>

definition buddy_new :: "(nat \<Rightarrow> bool) \<Rightarrow> nat \<Rightarrow> nat \<Rightarrow> buddy kresult" where
  "buddy_new reserve start len =
     (if \<not> is_page_aligned start then Inl InvalidArgument
      else let frames = prev_power_of_two (len div PAGE_SIZE)
           in if frames = 0 then Inl InvalidArgument
              else let nodes = 2 * frames - 1
                   in if \<not> reserve nodes then Inl OutOfResources
                      else Inr \<lparr>base = start, frames = frames,
                                longest = build_longest 0 nodes (2 * frames)\<rparr>)"

definition contains :: "buddy \<Rightarrow> nat \<Rightarrow> bool" where
  "contains b frame \<longleftrightarrow> base b \<le> frame \<and> frame < base b + frames b * PAGE_SIZE"

definition largest_free_run :: "buddy \<Rightarrow> nat" where
  "largest_free_run b = longest b ! 0"

text \<open>The walk down of \<^verbatim>\<open>alloc_pages\<close>: to a node of exactly \<open>sz\<close> frames.\<close>

function descend :: "nat list \<Rightarrow> nat \<Rightarrow> nat \<Rightarrow> nat \<Rightarrow> (nat \<times> nat) option" where
  "descend lg sz index node_size =
     (if node_size = sz then Some (index, node_size)
      else let left = 2 * index + 1; right = 2 * index + 2
           in if length lg \<le> right then None
              else let lfit = (lg ! left \<ge> sz); rfit = (lg ! right \<ge> sz)
                   in descend lg sz
                        (if lfit \<and> (\<not> rfit \<or> lg ! left \<le> lg ! right) then left else right)
                        (node_size div 2))"
  by pat_completeness auto
termination
  by (relation "measure (\<lambda>(lg, _, index, _). length lg - index)") (auto simp: Let_def)

declare descend.simps [simp del]

text \<open>The walk back up of \<^verbatim>\<open>alloc_pages\<close>.\<close>

fun propagate :: "nat list \<Rightarrow> nat \<Rightarrow> nat list" where
  "propagate lg index =
     (if index > 0
      then let index' = (index - 1) div 2
           in propagate (lg[index' := max (lg ! (2 * index' + 1)) (lg ! (2 * index' + 2))]) index'
      else lg)"

declare propagate.simps [simp del]

definition alloc_pages :: "buddy \<Rightarrow> nat \<Rightarrow> (nat option \<times> buddy) option" where
  "alloc_pages b count =
     (let sz = next_power_of_two (max count 1)
      in if longest b ! 0 < sz then Some (None, b)
         else case descend (longest b) sz 0 (frames b) of
                None \<Rightarrow> None
              | Some (index, node_size) \<Rightarrow>
                  let offset = (index + 1) * node_size - frames b
                  in Some (Some (base b + offset * PAGE_SIZE),
                           b\<lparr>longest := propagate ((longest b)[index := 0]) index\<rparr>))"

text \<open>The climb of \<^verbatim>\<open>free_pages\<close> to the allocated node, and its walk up to the root.\<close>

fun climb :: "nat list \<Rightarrow> nat \<Rightarrow> nat \<Rightarrow> (nat \<times> nat) option" where
  "climb lg index node_size =
     (if lg ! index \<noteq> 0
      then (if index = 0 then None else climb lg ((index - 1) div 2) (2 * node_size))
      else Some (index, node_size))"

declare climb.simps [simp del]

fun merge_up :: "nat list \<Rightarrow> nat \<Rightarrow> nat \<Rightarrow> nat list" where
  "merge_up lg index node_size =
     (if index > 0
      then let index' = (index - 1) div 2; node_size' = 2 * node_size;
               left = lg ! (2 * index' + 1); right = lg ! (2 * index' + 2)
           in merge_up (lg[index' := if left + right = node_size' then as_u32 node_size'
                                     else as_u32 (max left right)]) index' node_size'
      else lg)"

declare merge_up.simps [simp del]

definition free_pages :: "buddy \<Rightarrow> nat \<Rightarrow> buddy" where
  "free_pages b frame =
     (if frame < base b then b
      else let offset = (frame - base b) div PAGE_SIZE
           in if offset \<ge> frames b then b
              else case climb (longest b) (offset + frames b - 1) 1 of
                     None \<Rightarrow> b
                   | Some (index, node_size) \<Rightarrow>
                       b\<lparr>longest := merge_up ((longest b)[index := as_u32 node_size]) index node_size\<rparr>)"

subsection \<open>The \<^verbatim>\<open>FrameAllocator\<close> trait\<close>

definition buddy_allocate :: "buddy \<Rightarrow> (nat option \<times> buddy) option" where
  "buddy_allocate b = alloc_pages b 1"

definition buddy_free :: "buddy \<Rightarrow> nat \<Rightarrow> buddy" where
  "buddy_free b frame = free_pages b frame"

section \<open>The interface the kernel relies on\<close>

text \<open>\<open>out s\<close> is the set of bytes the allocator has handed out in state \<open>s\<close>.\<close>

definition page :: "nat \<Rightarrow> nat set" where
  "page a = {a..<a + PAGE_SIZE}"

fun alloc_many :: "('s \<Rightarrow> (nat option \<times> 's) option) \<Rightarrow> nat \<Rightarrow> 's \<Rightarrow> (nat list \<times> 's) option" where
  "alloc_many allocate 0 s = Some ([], s)"
| "alloc_many allocate (Suc n) s =
     (case allocate s of
        None \<Rightarrow> None
      | Some (None, s') \<Rightarrow> Some ([], s')
      | Some (Some a, s') \<Rightarrow> map_option (\<lambda>(frs, s''). (a # frs, s'')) (alloc_many allocate n s'))"

locale frame_allocator =
  fixes wf :: "'s \<Rightarrow> bool"
    and allocate :: "'s \<Rightarrow> (nat option \<times> 's) option"
    and out :: "'s \<Rightarrow> nat set"
  assumes allocate_total: "wf s \<Longrightarrow> \<exists>r s'. allocate s = Some (r, s') \<and> wf s'"
    and allocate_aligned: "wf s \<Longrightarrow> allocate s = Some (Some a, s') \<Longrightarrow> is_page_aligned a"
    and allocate_fresh: "wf s \<Longrightarrow> allocate s = Some (Some a, s') \<Longrightarrow> page a \<inter> out s = {}"
    and allocate_out: "wf s \<Longrightarrow> allocate s = Some (Some a, s') \<Longrightarrow> out s' = out s \<union> page a"
    and allocate_None: "wf s \<Longrightarrow> allocate s = Some (None, s') \<Longrightarrow> s' = s"
begin

lemma allocate_wf: "wf s \<Longrightarrow> allocate s = Some (r, s') \<Longrightarrow> wf s'"
  using allocate_total by fastforce

lemma alloc_many_spec:
  "wf s \<Longrightarrow> \<exists>frs s'. alloc_many allocate n s = Some (frs, s') \<and> wf s' \<and> length frs \<le> n
     \<and> sorted_wrt (\<lambda>a b. page a \<inter> page b = {}) frs
     \<and> (\<forall>a\<in>set frs. is_page_aligned a \<and> page a \<inter> out s = {})
     \<and> out s' = out s \<union> (\<Union>a\<in>set frs. page a)
     \<and> (length frs < n \<longrightarrow> allocate s' = Some (None, s'))"
proof (induction n arbitrary: s)
  case 0
  then show ?case by simp
next
  case (Suc n)
  obtain r s1 where s1: "allocate s = Some (r, s1)" "wf s1" using allocate_total Suc.prems by blast
  show ?case
  proof (cases r)
    case None
    then show ?thesis using s1 Suc.prems allocate_None [of s s1] by simp
  next
    case (Some a)
    then have a: "page a \<inter> out s = {}" "out s1 = out s \<union> page a" "is_page_aligned a"
      using s1(1) Suc.prems allocate_fresh allocate_out allocate_aligned by blast+
    obtain frs s' where r: "alloc_many allocate n s1 = Some (frs, s')" "wf s'" "length frs \<le> n"
        "sorted_wrt (\<lambda>a b. page a \<inter> page b = {}) frs"
        "\<forall>b\<in>set frs. is_page_aligned b \<and> page b \<inter> out s1 = {}"
        "out s' = out s1 \<union> (\<Union>b\<in>set frs. page b)"
        "length frs < n \<longrightarrow> allocate s' = Some (None, s')"
      using Suc.IH [OF s1(2)] by blast
    have "\<forall>b\<in>set frs. page a \<inter> page b = {} \<and> page b \<inter> out s = {}" using r(5) a(2) by blast
    then show ?thesis using s1(1) Some r a by (intro exI [of _ "a # frs"] exI [of _ s']) auto
  qed
qed

end

subsection \<open>The bump allocator provides it\<close>

definition bump_wf :: "bump \<Rightarrow> bool" where
  "bump_wf b \<longleftrightarrow> is_page_aligned (bump_next b)"

definition bump_out :: "bump \<Rightarrow> nat set" where
  "bump_out b = {..<bump_next b}"

interpretation bump: frame_allocator bump_wf "\<lambda>b. Some (bump_allocate b)" bump_out
  by unfold_locales
    (auto simp: bump_wf_def bump_out_def bump_allocate_def page_def is_page_aligned_def PAGE_SIZE_def
      split: if_splits)

text \<open>Any number of allocations from a fresh bump allocator yields page-aligned frames inside
  its region, no two of which overlap, and stops only when the region is used up.\<close>

theorem bump_frames_distinct:
  assumes "bump_new start len = Inr b"
  shows "\<exists>frs b'. alloc_many (\<lambda>b. Some (bump_allocate b)) n b = Some (frs, b')
           \<and> sorted_wrt (\<lambda>x y. page x \<inter> page y = {}) frs
           \<and> (\<forall>a\<in>set frs. is_page_aligned a \<and> start \<le> a)
           \<and> (length frs < n \<longrightarrow> bump_end b' \<le> bump_next b')"
proof -
  have b: "bump_wf b" "bump_out b = {..<start}"
    using assms by (auto simp: bump_new_def bump_wf_def bump_out_def split: if_splits)
  obtain frs b' where r: "alloc_many (\<lambda>b. Some (bump_allocate b)) n b = Some (frs, b')"
      "sorted_wrt (\<lambda>x y. page x \<inter> page y = {}) frs"
      "\<forall>a\<in>set frs. is_page_aligned a \<and> page a \<inter> bump_out b = {}"
      "length frs < n \<longrightarrow> Some (bump_allocate b') = Some (None, b')"
    using bump.alloc_many_spec [OF b(1), of n] by blast
  have "start \<le> a" if "page a \<inter> {..<start} = {}" for a
    using that by (auto simp: page_def PAGE_SIZE_def dest!: equalityD1 subsetD [where c = a])
  with r b(2) show ?thesis by (intro exI [of _ frs] exI [of _ b'])
    (auto simp: bump_allocate_def split: if_splits)
qed

theorem bump_frames_distinct_witness:
  "bump_new 8192 8192 = Inr \<lparr>bump_next = 8192, bump_end = 16384\<rparr>
   \<and> (\<exists>frs b'. alloc_many (\<lambda>b. Some (bump_allocate b)) 3 \<lparr>bump_next = 8192, bump_end = 16384\<rparr> = Some (frs, b')
        \<and> sorted_wrt (\<lambda>x y. page x \<inter> page y = {}) frs)"
proof -
  have n: "bump_new 8192 8192 = Inr \<lparr>bump_next = 8192, bump_end = 16384\<rparr>"
    by (simp add: bump_new_def is_page_aligned_def PAGE_SIZE_def)
  then show ?thesis using bump_frames_distinct [OF n, of 3] by blast
qed

end
