(* ===== verification/BuddyTree.thy ===== *)
theory BuddyTree
  imports Buddy
begin

text \<open>
  Correctness of the buddy allocator of \<^verbatim>\<open>crates/mm/src/lib.rs\<close>. The specification is a
  binary tree of free, used and split blocks with recursive \<open>tree_alloc\<close> and \<open>tree_free\<close>;
  the array operations of the source, whose loops walk indices down and up, refine it. The
  contract seen by callers is stated on the set of used blocks: an allocation is an aligned
  block disjoint from every other, a request fails exactly when no aligned block of that
  size is free, and a release removes exactly the block that holds the frame.
\<close>

section \<open>The abstract tree\<close>

datatype btree = Free | Used | Split btree btree

fun tree_val :: "nat \<Rightarrow> btree \<Rightarrow> nat" where
  "tree_val h Free = 2 ^ h"
| "tree_val h Used = 0"
| "tree_val h (Split l r) = max (tree_val (h - 1) l) (tree_val (h - 1) r)"

fun tree_wf :: "nat \<Rightarrow> btree \<Rightarrow> bool" where
  "tree_wf h Free = True"
| "tree_wf h Used = True"
| "tree_wf h (Split l r) \<longleftrightarrow>
     0 < h \<and> tree_wf (h - 1) l \<and> tree_wf (h - 1) r \<and> \<not> (l = Free \<and> r = Free)"

fun halves :: "btree \<Rightarrow> btree \<times> btree" where
  "halves (Split l r) = (l, r)"
| "halves t = (Free, Free)"

definition goes_left :: "nat \<Rightarrow> nat \<Rightarrow> nat \<Rightarrow> bool" where
  "goes_left sz lv rv \<longleftrightarrow> sz \<le> lv \<and> (\<not> sz \<le> rv \<or> lv \<le> rv)"

text \<open>Allocating a block of \<open>2 ^ k\<close> frames in a tree of height \<open>h\<close>: its offset, the new tree.\<close>

fun tree_alloc :: "nat \<Rightarrow> nat \<Rightarrow> btree \<Rightarrow> nat \<times> btree" where
  "tree_alloc 0 k t = (0, Used)"
| "tree_alloc (Suc h) k t =
     (if k = Suc h then (0, Used)
      else let (l, r) = halves t
           in if goes_left (2 ^ k) (tree_val h l) (tree_val h r)
              then let (p, l') = tree_alloc h k l in (p, Split l' r)
              else let (p, r') = tree_alloc h k r in (2 ^ h + p, Split l r'))"

definition join :: "btree \<Rightarrow> btree \<Rightarrow> btree" where
  "join l r = (if l = Free \<and> r = Free then Free else Split l r)"

text \<open>Releasing the block that holds frame \<open>p\<close>; \<open>None\<close> when that frame is free.\<close>

fun tree_free :: "nat \<Rightarrow> nat \<Rightarrow> btree \<Rightarrow> btree option" where
  "tree_free h p Free = None"
| "tree_free h p Used = Some Free"
| "tree_free h p (Split l r) =
     (if p < 2 ^ (h - 1) then map_option (\<lambda>l'. join l' r) (tree_free (h - 1) p l)
      else map_option (\<lambda>r'. join l r') (tree_free (h - 1) (p - 2 ^ (h - 1)) r))"

text \<open>The used blocks, as pairs of an offset and a size in frames.\<close>

fun tree_used :: "nat \<Rightarrow> nat \<Rightarrow> btree \<Rightarrow> (nat \<times> nat) list" where
  "tree_used h q Free = []"
| "tree_used h q Used = [(q, 2 ^ h)]"
| "tree_used h q (Split l r) = tree_used (h - 1) q l @ tree_used (h - 1) (q + 2 ^ (h - 1)) r"

text \<open>The tree an array stands for, and when it stands for one.\<close>

fun repr :: "nat list \<Rightarrow> nat \<Rightarrow> nat \<Rightarrow> btree \<Rightarrow> bool" where
  "repr lg i 0 t \<longleftrightarrow> (t = Free \<and> lg ! i = 1) \<or> (t = Used \<and> lg ! i = 0)"
| "repr lg i (Suc h) Free \<longleftrightarrow>
     lg ! i = 2 ^ Suc h \<and> repr lg (2 * i + 1) h Free \<and> repr lg (2 * i + 2) h Free"
| "repr lg i (Suc h) Used \<longleftrightarrow>
     lg ! i = 0 \<and> repr lg (2 * i + 1) h Free \<and> repr lg (2 * i + 2) h Free"
| "repr lg i (Suc h) (Split l r) \<longleftrightarrow>
     lg ! i = max (tree_val h l) (tree_val h r) \<and> \<not> (l = Free \<and> r = Free)
       \<and> repr lg (2 * i + 1) h l \<and> repr lg (2 * i + 2) h r"

fun abs_tree :: "nat list \<Rightarrow> nat \<Rightarrow> nat \<Rightarrow> btree" where
  "abs_tree lg i 0 = (if lg ! i = 0 then Used else Free)"
| "abs_tree lg i (Suc h) =
     (if lg ! i = 2 ^ Suc h then Free
      else if lg ! i = 0 \<and> lg ! (2 * i + 1) \<noteq> 0 then Used
      else Split (abs_tree lg (2 * i + 1) h) (abs_tree lg (2 * i + 2) h))"

definition order :: "buddy \<Rightarrow> nat" where
  "order b = highest_bit (frames b)"

definition buddy_tree :: "buddy \<Rightarrow> btree" where
  "buddy_tree b = abs_tree (longest b) 0 (order b)"

text \<open>The representation invariant. Node values are \<^verbatim>\<open>u32\<close>, hence the bound on the order.\<close>

definition buddy_wf :: "buddy \<Rightarrow> bool" where
  "buddy_wf b \<longleftrightarrow> frames b = 2 ^ order b \<and> order b < 32 \<and> length (longest b) = 2 * frames b - 1
     \<and> is_page_aligned (base b) \<and> repr (longest b) 0 (order b) (buddy_tree b)"

text \<open>What a caller sees: the blocks it owns, by address and size in frames.\<close>

definition used :: "buddy \<Rightarrow> (nat \<times> nat) list" where
  "used b = map (\<lambda>(p, n). (base b + p * PAGE_SIZE, n)) (tree_used (order b) 0 (buddy_tree b))"

definition block :: "nat \<times> nat \<Rightarrow> nat set" where
  "block = (\<lambda>(a, n). {a..<a + n * PAGE_SIZE})"

section \<open>Facts about the tree\<close>

lemma tree_val_le: "tree_wf h t \<Longrightarrow> tree_val h t \<le> 2 ^ h"
proof (induction h t rule: tree_wf.induct)
  case (3 h l r)
  then show ?case by (cases h) fastforce+
qed auto

lemma tree_val_full: "tree_wf h t \<Longrightarrow> tree_val h t = 2 ^ h \<longleftrightarrow> t = Free"
proof (cases t)
  case (Split l r)
  assume wf: "tree_wf h t"
  then obtain n where n: "h = Suc n" using Split by (cases h) auto
  have "tree_val n l \<le> 2 ^ n" "tree_val n r \<le> 2 ^ n"
    using wf Split n tree_val_le by auto
  then have "max (tree_val n l) (tree_val n r) \<le> 2 ^ n" by simp
  also have "\<dots> < 2 ^ Suc n" by simp
  finally show ?thesis using Split n by (metis btree.distinct(3) diff_Suc_1 nat_less_le tree_val.simps(3))
qed auto

lemma repr_wf: "repr lg i h t \<Longrightarrow> tree_wf h t"
  by (induction lg i h t rule: repr.induct) auto

lemma repr_val: "repr lg i h t \<Longrightarrow> lg ! i = tree_val h t"
  by (cases h; cases t) auto

lemma repr_abs_tree: "repr lg i h t \<Longrightarrow> abs_tree lg i h = t"
proof (induction lg i h t rule: repr.induct)
  case (4 lg i h l r)
  then have r: "repr lg (2 * i + 1) h l" "repr lg (2 * i + 2) h r" by auto
  have "lg ! i \<noteq> 2 ^ Suc h"
    using tree_val_full [of "Suc h" "Split l r"] repr_wf [OF 4(3)] repr_val [OF 4(3)] by simp
  moreover have "lg ! i = 0 \<Longrightarrow> lg ! (2 * i + 1) = 0"
    using repr_val [OF r(1)] 4(3) by simp
  moreover have "abs_tree lg (2 * i + 1) h = l" "abs_tree lg (2 * i + 2) h = r" using 4 by auto
  ultimately show ?case by (cases "lg ! i = 0") simp_all
next
  case (3 lg i h)
  then show ?case using repr_val [of lg "2 * i + 1" h Free] by simp
qed auto

subsection \<open>Index sets of subtrees\<close>

definition sub :: "nat \<Rightarrow> nat \<Rightarrow> nat set" where
  "sub i h = {j. \<exists>d\<le>h. (j + 1) div 2 ^ d = i + 1}"

lemma sub_self [simp]: "i \<in> sub i h"
  by (auto simp: sub_def intro: exI [of _ 0])

lemma sub_child:
  assumes "c = 2 * i + 1 \<or> c = 2 * i + 2"
  shows "sub c h \<subseteq> sub i (Suc h)"
proof
  fix j
  assume "j \<in> sub c h"
  then obtain d where d: "d \<le> h" "(j + 1) div 2 ^ d = c + 1" by (auto simp: sub_def)
  have "(j + 1) div 2 ^ Suc d = (j + 1) div 2 ^ d div 2"
    by (metis div_mult2_eq power_Suc2)
  also have "\<dots> = i + 1" using d(2) assms by auto
  finally show "j \<in> sub i (Suc h)" using d(1) by (auto simp: sub_def intro: exI [of _ "Suc d"])
qed

lemma sub_ge: "j \<in> sub i h \<Longrightarrow> i \<le> j"
  by (auto simp: sub_def) (metis Suc_le_mono div_le_dividend)

lemma sub_less: "j \<in> sub i h \<Longrightarrow> j + 1 < (i + 2) * 2 ^ h"
proof -
  assume "j \<in> sub i h"
  then obtain d where d: "d \<le> h" "(j + 1) div 2 ^ d = i + 1" by (auto simp: sub_def)
  have "j + 1 < (i + 2) * 2 ^ d"
    using d(2) dividend_less_div_times [of "2 ^ d" "j + 1"] by (simp add: algebra_simps)
  also have "\<dots> \<le> (i + 2) * 2 ^ h" using d(1) by (intro mult_le_mono2 power_increasing) auto
  finally show ?thesis .
qed

text \<open>Two different siblings have no node in common.\<close>

lemma sub_siblings:
  assumes "j \<in> sub (2 * i + 1) h" "j \<in> sub (2 * i + 2) h"
  shows False
proof -
  obtain d e where d: "(j + 1) div 2 ^ d = 2 * i + 2" and e: "(j + 1) div 2 ^ e = 2 * i + 3"
    using assms by (auto simp: sub_def eval_nat_numeral)
  have shift: "(j + 1) div 2 ^ (m + n) = (j + 1) div 2 ^ m div 2 ^ n" for m n
    by (simp add: power_add div_mult2_eq)
  show False
  proof (cases "d \<le> e")
    case True
    then have "(j + 1) div 2 ^ e = (2 * i + 2) div 2 ^ (e - d)" using shift [of d "e - d"] d by simp
    also have "\<dots> \<le> 2 * i + 2" by simp
    finally show False using e by simp
  next
    case False
    then obtain n where n: "d = e + Suc n" using less_imp_Suc_add not_le by (metis add_Suc_right)
    have "(2 * i + 3) div 2 ^ Suc n = (2 * i + 3) div 2 div 2 ^ n"
      by (simp add: div_mult2_eq mult.commute)
    also have "\<dots> \<le> i + 1" by (simp add: div_le_dividend)
    finally show False using shift [of e "Suc n"] n d e by simp
  qed
qed

lemma repr_frame:
  "(\<And>j. j \<in> sub i h \<Longrightarrow> lg' ! j = lg ! j) \<Longrightarrow> repr lg' i h t = repr lg i h t"
proof (induction lg i h t rule: repr.induct)
  case (1 lg i t)
  then show ?case by simp
next
  case (2 lg i h)
  then show ?case using sub_child [of "2 * i + 1" i h] sub_child [of "2 * i + 2" i h]
    by (simp add: subset_iff)
next
  case (3 lg i h)
  then show ?case using sub_child [of "2 * i + 1" i h] sub_child [of "2 * i + 2" i h]
    by (simp add: subset_iff)
next
  case (4 lg i h l r)
  then show ?case using sub_child [of "2 * i + 1" i h] sub_child [of "2 * i + 2" i h]
    by (simp add: subset_iff)
qed

section \<open>Allocation\<close>

text \<open>One array is another with only nodes of one subtree changed.\<close>

definition same_outside :: "nat set \<Rightarrow> nat list \<Rightarrow> nat list \<Rightarrow> bool" where
  "same_outside S lg lg' \<longleftrightarrow> length lg' = length lg \<and> (\<forall>j. j \<notin> S \<longrightarrow> lg' ! j = lg ! j)"

lemma same_outside_update: "same_outside S lg lg' \<Longrightarrow> i \<in> S \<Longrightarrow> same_outside S lg (lg'[i := v])"
proof -
  assume *: "same_outside S lg lg'" "i \<in> S"
  then have "lg'[i := v] ! j = lg ! j" if "j \<notin> S" for j
    using that by (cases "i = j") (auto simp: same_outside_def)
  with * show ?thesis by (simp add: same_outside_def)
qed

lemma same_outside_self: "i \<in> S \<Longrightarrow> same_outside S lg (lg[i := v])"
  by (rule same_outside_update) (simp_all add: same_outside_def)

lemma same_outside_mono: "same_outside S lg lg' \<Longrightarrow> S \<subseteq> T \<Longrightarrow> same_outside T lg lg'"
  by (auto simp: same_outside_def)

lemma repr_halves: "repr lg i (Suc h) t \<Longrightarrow> t \<noteq> Used \<Longrightarrow> halves t = (l, r) \<Longrightarrow>
    repr lg (2 * i + 1) h l \<and> repr lg (2 * i + 2) h r"
  by (cases t) auto

text \<open>Rebuilding the parent after one child changed.\<close>

lemma repr_parent:
  assumes frame: "same_outside (sub c h) lg lg'"
    and c: "c = 2 * i + 1 \<and> d = 2 * i + 2 \<or> c = 2 * i + 2 \<and> d = 2 * i + 1"
    and old: "repr lg d h s" and new: "repr lg' c h t'"
    and len: "i < length lg"
  shows "same_outside (sub i (Suc h)) lg (lg'[i := v])"
    and "repr (lg'[i := v]) c h t'" and "repr (lg'[i := v]) d h s"
proof -
  have "sub c h \<subseteq> sub i (Suc h)" using sub_child c by blast
  then show "same_outside (sub i (Suc h)) lg (lg'[i := v])"
    using frame by (auto intro: same_outside_update same_outside_mono)
  have i: "i \<notin> sub c h" "i \<notin> sub d h" using sub_ge [of i] c by fastforce+
  have "lg'[i := v] ! j = lg ! j" if "j \<in> sub d h" for j
  proof -
    have "i \<noteq> j" "j \<notin> sub c h" using c that i sub_siblings by blast+
    then show ?thesis using frame by (simp add: same_outside_def)
  qed
  then show "repr (lg'[i := v]) d h s" using old repr_frame [of d h "lg'[i := v]" lg] by blast
  show "repr (lg'[i := v]) c h t'"
    using new i repr_frame [of c h "lg'[i := v]" lg'] by (metis nth_list_update_neq)
qed

lemma tree_val_halves:
  "2 ^ k \<le> tree_val (Suc h) t \<Longrightarrow> k \<noteq> Suc h \<Longrightarrow> k \<le> Suc h \<Longrightarrow> halves t = (l, r) \<Longrightarrow>
     t \<noteq> Used \<and> (2 ^ k \<le> tree_val h l \<or> 2 ^ k \<le> tree_val h r)"
  by (cases t) (auto simp: max_def split: if_splits)

lemma tree_alloc_not_free: "snd (tree_alloc h k t) \<noteq> Free"
  by (cases h) (auto simp: Let_def split: prod.splits)

text \<open>Index bounds: a node, its children and their subtrees lie in the array.\<close>

lemma node_bounds:
  assumes "(i + 2) * 2 ^ Suc h \<le> n + (1::nat)" "c = 2 * i + 1 \<or> c = 2 * i + 2"
  shows "i < n" "2 * i + 2 < n" "(c + 2) * 2 ^ h \<le> n + 1"
proof -
  have "(c + 2) * 2 ^ h \<le> (2 * i + 4) * 2 ^ h" using assms(2) by (intro mult_le_mono1) auto
  also have "\<dots> = (i + 2) * 2 ^ Suc h" by (simp add: algebra_simps)
  finally show "(c + 2) * 2 ^ h \<le> n + 1" using assms(1) by simp
  have "(2 * i + 4) * 1 \<le> (2 * i + 4) * 2 ^ h" by (intro mult_le_mono2) simp
  also have "\<dots> = (i + 2) * 2 ^ Suc h" by (simp add: algebra_simps)
  also note assms(1)
  finally show "i < n" "2 * i + 2 < n" by simp_all
qed

lemma leaf_bound: "(i + 2) * 2 ^ 0 \<le> n + (1::nat) \<Longrightarrow> i < n"
  by simp

lemma child_offset:
  "(2 * i + 1 + 1) * 2 ^ h + p = (i + 1) * 2 ^ Suc h + (p::nat)"
  "(2 * i + 2 + 1) * 2 ^ h + p = (i + 1) * 2 ^ Suc h + (2 ^ h + p)"
  by (simp_all add: algebra_simps)

lemma alloc_refines:
  assumes "repr lg i h t" "2 ^ k \<le> tree_val h t" "k \<le> h"
    and "(i + 2) * 2 ^ h \<le> length lg + 1"
    and "tree_alloc h k t = (p, t')"
  shows "\<exists>j lg'. descend lg (2 ^ k) i (2 ^ h) = Some (j, 2 ^ k)
           \<and> (j + 1) * 2 ^ k = (i + 1) * 2 ^ h + p
           \<and> propagate (lg[j := 0]) j = propagate lg' i
           \<and> repr lg' i h t' \<and> same_outside (sub i h) lg lg'"
  using assms
proof (induction h arbitrary: i t p t')
  case 0
  then show ?case
    by (auto simp: descend.simps intro!: exI [of _ i] exI [of _ "lg[i := 0]"] same_outside_self)
next
  case (Suc h)
  have wf: "tree_wf (Suc h) t" using Suc.prems(1) by (rule repr_wf)
  have i: "i < length lg" using node_bounds(1) [OF Suc.prems(4)] by blast
  show ?case
  proof (cases "k = Suc h")
    case True
    then have "t = Free" using Suc.prems(2) wf tree_val_le [OF wf] tree_val_full [OF wf] by simp
    then have ch: "repr lg (2 * i + 1) h Free" "repr lg (2 * i + 2) h Free" using Suc.prems(1) by auto
    have "repr (lg[i := 0]) (2 * i + 1) h Free" "repr (lg[i := 0]) (2 * i + 2) h Free"
      using repr_parent(2) [of "2 * i + 1" h lg lg i "2 * i + 2" Free Free 0]
        repr_parent(3) [of "2 * i + 1" h lg lg i "2 * i + 2" Free Free 0] ch i
      by (auto simp: same_outside_def)
    then show ?thesis using True Suc.prems(5) i
      by (auto simp: descend.simps intro!: exI [of _ i] exI [of _ "lg[i := 0]"] same_outside_self)
  next
    case False
    obtain l r where lr: "halves t = (l, r)" by fastforce
    have fit: "t \<noteq> Used" "2 ^ k \<le> tree_val h l \<or> 2 ^ k \<le> tree_val h r"
      using tree_val_halves [OF Suc.prems(2) False Suc.prems(3) lr] by auto
    have ch: "repr lg (2 * i + 1) h l" "repr lg (2 * i + 2) h r"
      using repr_halves [OF Suc.prems(1) fit(1) lr] by auto
    have k: "k \<le> h" using False Suc.prems(3) by simp
    define L where "L \<longleftrightarrow> goes_left (2 ^ k) (tree_val h l) (tree_val h r)"
    define c where "c = (if L then 2 * i + 1 else 2 * i + 2)"
    define d where "d = (if L then 2 * i + 2 else 2 * i + 1)"
    define s where "s = (if L then l else r)"
    define u where "u = (if L then r else l)"
    obtain q s' where q: "tree_alloc h k s = (q, s')" by fastforce
    have res: "p = (if L then q else 2 ^ h + q)" "t' = (if L then Split s' u else Split u s')"
      using Suc.prems(5) False lr q by (auto simp: L_def s_def u_def)
    have cs: "repr lg c h s" "repr lg d h u" using ch by (auto simp: c_def d_def s_def u_def)
    have sk: "2 ^ k \<le> tree_val h s" using fit(2) by (auto simp: s_def L_def goes_left_def)
    have bc: "(c + 2) * 2 ^ h \<le> length lg + 1"
      using node_bounds(3) [OF Suc.prems(4), of c] by (simp add: c_def)
    obtain j lg' where IH: "descend lg (2 ^ k) c (2 ^ h) = Some (j, 2 ^ k)"
        "(j + 1) * 2 ^ k = (c + 1) * 2 ^ h + q" "propagate (lg[j := 0]) j = propagate lg' c"
        "repr lg' c h s'" "same_outside (sub c h) lg lg'"
      using Suc.IH [OF cs(1) sk k bc q] by blast
    have "2 * i + 2 < length lg" using node_bounds(2) [OF Suc.prems(4)] by blast
    moreover have "(2::nat) ^ Suc h \<noteq> 2 ^ k" using False by (simp del: power_Suc)
    ultimately have desc: "descend lg (2 ^ k) i (2 ^ Suc h) = descend lg (2 ^ k) c (2 ^ h)"
      using repr_val [OF ch(1)] repr_val [OF ch(2)]
      by (subst descend.simps) (simp add: c_def L_def goes_left_def, blast)
    define lg2 where "lg2 = lg'[i := max (lg' ! (2 * i + 1)) (lg' ! (2 * i + 2))]"
    have up: "propagate lg' c = propagate lg2 i"
      by (subst propagate.simps) (auto simp: c_def lg2_def Let_def)
    have cd: "c = 2 * i + 1 \<and> d = 2 * i + 2 \<or> c = 2 * i + 2 \<and> d = 2 * i + 1"
      by (simp add: c_def d_def)
    have par: "same_outside (sub i (Suc h)) lg lg2" "repr lg2 c h s'" "repr lg2 d h u"
      using repr_parent [OF IH(5) cd cs(2) IH(4) i] by (simp_all add: lg2_def)
    have "lg2 ! i = max (lg2 ! (2 * i + 1)) (lg2 ! (2 * i + 2))"
      using i IH(5) by (simp add: lg2_def same_outside_def)
    moreover have "s' \<noteq> Free" using tree_alloc_not_free [of h k s] q by simp
    ultimately have rep: "repr lg2 i (Suc h) t'"
      using par(2,3) repr_val [OF par(2)] repr_val [OF par(3)] res(2)
      by (cases L) (simp_all add: c_def d_def max.commute)
    have pos: "(j + 1) * 2 ^ k = (i + 1) * 2 ^ Suc h + p"
      using IH(2) res(1) child_offset [of i h q] by (cases L) (simp_all only: c_def if_True if_False)
    show ?thesis using desc IH(1,3) up rep pos par(1)
      by (intro exI [of _ j] exI [of _ lg2]) simp
  qed
qed

section \<open>Release\<close>

lemma as_u32_small: "n < 2 ^ 32 \<Longrightarrow> as_u32 n = n"
  by (simp add: as_u32_def)

lemma as_u32_pow: "k < 32 \<Longrightarrow> as_u32 (2 ^ k) = 2 ^ k"
  by (rule as_u32_small) (rule power_strict_increasing, simp_all)

text \<open>The leaf of frame \<open>p\<close> lies below the child that holds it.\<close>

lemma leaf_child:
  assumes "leaf + 1 = (i + 1) * 2 ^ Suc h + (p::nat)" "p < 2 ^ Suc h"
  shows "p < 2 ^ h \<Longrightarrow> leaf + 1 = (2 * i + 1 + 1) * 2 ^ h + p"
    and "\<not> p < 2 ^ h \<Longrightarrow> leaf + 1 = (2 * i + 2 + 1) * 2 ^ h + (p - 2 ^ h) \<and> p - 2 ^ h < 2 ^ h"
  using assms by (auto simp: algebra_simps)

lemma climb_step:
  "lg ! c \<noteq> 0 \<Longrightarrow> c = 2 * i + 1 \<or> c = 2 * i + 2 \<Longrightarrow> climb lg c (2 ^ h) = climb lg i (2 ^ Suc h)"
  by (subst climb.simps) auto

text \<open>From a free frame the climb passes every node up to the root of the subtree.\<close>

lemma climb_free:
  assumes "repr lg i h t" "tree_free h p t = None"
    and "leaf + 1 = (i + 1) * 2 ^ h + p" "p < 2 ^ h"
  shows "climb lg leaf 1 = climb lg i (2 ^ h) \<and> lg ! i \<noteq> 0"
  using assms
proof (induction h arbitrary: i t p)
  case 0
  then show ?case by auto
next
  case (Suc h)
  show ?case
  proof (cases t)
    case Used
    with Suc.prems show ?thesis by simp
  next
    case Free
    then have ch: "repr lg (2 * i + 1) h Free" "repr lg (2 * i + 2) h Free" and nz: "lg ! i \<noteq> 0"
      using Suc.prems(1) by auto
    show ?thesis
    proof (cases "p < 2 ^ h")
      case True
      then show ?thesis
        using Suc.IH [OF ch(1) _ leaf_child(1) [OF Suc.prems(3,4)]] nz climb_step [of lg "2 * i + 1" i]
        by simp
    next
      case False
      then show ?thesis
        using Suc.IH [OF ch(2) _ conjunct1 [OF leaf_child(2) [OF Suc.prems(3,4)]]]
          leaf_child(2) [OF Suc.prems(3,4)] nz climb_step [of lg "2 * i + 2" i]
        by simp
    qed
  next
    case (Split l r)
    then have ch: "repr lg (2 * i + 1) h l" "repr lg (2 * i + 2) h r"
      and v: "lg ! i = max (lg ! (2 * i + 1)) (lg ! (2 * i + 2))"
      using Suc.prems(1) repr_val by auto
    show ?thesis
    proof (cases "p < 2 ^ h")
      case True
      then show ?thesis
        using Suc.IH [OF ch(1) _ leaf_child(1) [OF Suc.prems(3,4)]] v climb_step [of lg "2 * i + 1" i]
          Suc.prems(2) Split
        by (simp add: max_def)
    next
      case False
      then show ?thesis
        using Suc.IH [OF ch(2) _ conjunct1 [OF leaf_child(2) [OF Suc.prems(3,4)]]]
          leaf_child(2) [OF Suc.prems(3,4)] v climb_step [of lg "2 * i + 2" i] Suc.prems(2) Split
        by (simp add: max_def)
    qed
  qed
qed

text \<open>One step of the walk up after a release.\<close>

lemma merge_step:
  assumes "c = 2 * i + 1 \<or> c = 2 * i + 2"
  shows "merge_up lg c n =
    merge_up (lg[i := if lg ! (2 * i + 1) + lg ! (2 * i + 2) = 2 * n then as_u32 (2 * n)
                      else as_u32 (max (lg ! (2 * i + 1)) (lg ! (2 * i + 2)))]) i (2 * n)"
  using assms by (subst merge_up.simps) (auto simp: Let_def)

lemma join_repr:
  assumes "repr lg (2 * i + 1) h l" "repr lg (2 * i + 2) h r" "Suc h < 32"
    and "lg ! i = (if lg ! (2 * i + 1) + lg ! (2 * i + 2) = 2 * 2 ^ h then as_u32 (2 * 2 ^ h)
                   else as_u32 (max (lg ! (2 * i + 1)) (lg ! (2 * i + 2))))"
  shows "repr lg i (Suc h) (join l r)"
proof -
  note v = repr_val [OF assms(1)] repr_val [OF assms(2)]
  have le: "tree_val h l \<le> 2 ^ h" "tree_val h r \<le> 2 ^ h"
    using assms(1,2) by (simp_all add: repr_wf tree_val_le)
  have both: "tree_val h l + tree_val h r = 2 * 2 ^ h \<longleftrightarrow> l = Free \<and> r = Free"
    using le tree_val_full [OF repr_wf [OF assms(1)]] tree_val_full [OF repr_wf [OF assms(2)]] by auto
  have "max (tree_val h l) (tree_val h r) \<le> 2 ^ h" using le by simp
  also have "(2::nat) ^ h < 2 ^ 32" using assms(3) by (intro power_strict_increasing) simp_all
  finally have "as_u32 (max (tree_val h l) (tree_val h r)) = max (tree_val h l) (tree_val h r)"
    by (rule as_u32_small)
  moreover have "as_u32 (2 * 2 ^ h) = 2 * 2 ^ h" using as_u32_pow [OF assms(3)] by simp
  ultimately show ?thesis using assms v both by (auto simp: join_def)
qed

lemma free_refines:
  assumes "repr lg i h t" "tree_free h p t = Some t'"
    and "leaf + 1 = (i + 1) * 2 ^ h + p" "p < 2 ^ h"
    and "(i + 2) * 2 ^ h \<le> length lg + 1" "h < 32"
  shows "\<exists>j n lg'. climb lg leaf 1 = Some (j, n)
           \<and> merge_up (lg[j := as_u32 n]) j n = merge_up lg' i (2 ^ h)
           \<and> repr lg' i h t' \<and> same_outside (sub i h) lg lg'"
  using assms
proof (induction h arbitrary: i t p t')
  case 0
  then have "t = Used" "t' = Free" "lg ! i = 0" "leaf = i" "i < length lg" by auto
  then show ?case
    by (auto simp: climb.simps as_u32_def same_outside_self intro!: exI [of _ i] exI [of _ 1] exI [of _ "lg[i := 1]"])
next
  case (Suc h)
  have i: "i < length lg" using node_bounds(1) [OF Suc.prems(5)] by blast
  show ?case
  proof (cases t)
    case Free
    with Suc.prems(2) show ?thesis by simp
  next
    case Used
    then have ch: "repr lg (2 * i + 1) h Free" "repr lg (2 * i + 2) h Free" "lg ! i = 0" "t' = Free"
      using Suc.prems(1,2) by auto
    have up: "climb lg leaf 1 = climb lg i (2 ^ Suc h)"
    proof (cases "p < 2 ^ h")
      case True
      then show ?thesis
        using climb_free [OF ch(1) _ leaf_child(1) [OF Suc.prems(3,4)]] climb_step [of lg "2 * i + 1" i]
        by simp
    next
      case False
      then show ?thesis
        using climb_free [OF ch(2) _ conjunct1 [OF leaf_child(2) [OF Suc.prems(3,4)]]]
          leaf_child(2) [OF Suc.prems(3,4)] climb_step [of lg "2 * i + 2" i]
        by simp
    qed
    define lg' where "lg' = lg[i := as_u32 (2 ^ Suc h)]"
    have "repr lg' (2 * i + 1) h Free" "repr lg' (2 * i + 2) h Free"
      using repr_parent(2,3) [of "2 * i + 1" h lg lg i "2 * i + 2" Free Free] ch i
      by (auto simp: same_outside_def lg'_def)
    then have "repr lg' i (Suc h) t'" using ch(4) i as_u32_pow [OF Suc.prems(6)] by (simp add: lg'_def)
    moreover have "climb lg leaf 1 = Some (i, 2 ^ Suc h)"
      using up ch(3) by (subst (asm) (2) climb.simps) simp
    ultimately show ?thesis
      by (intro exI [of _ i] exI [of _ "2 ^ Suc h"] exI [of _ lg']) (simp add: lg'_def same_outside_self)
  next
    case (Split l r)
    then have ch: "repr lg (2 * i + 1) h l" "repr lg (2 * i + 2) h r" using Suc.prems(1) by auto
    define L where "L \<longleftrightarrow> p < 2 ^ h"
    define c where "c = (if L then 2 * i + 1 else 2 * i + 2)"
    define d where "d = (if L then 2 * i + 2 else 2 * i + 1)"
    define s where "s = (if L then l else r)"
    define u where "u = (if L then r else l)"
    define q where "q = (if L then p else p - 2 ^ h)"
    obtain s' where s': "tree_free h q s = Some s'" "t' = (if L then join s' u else join u s')"
      using Suc.prems(2) Split by (auto simp: L_def s_def u_def q_def split: if_splits)
    have cs: "repr lg c h s" "repr lg d h u" using ch by (auto simp: c_def d_def s_def u_def)
    have q: "leaf + 1 = (c + 1) * 2 ^ h + q" "q < 2 ^ h"
      using leaf_child [OF Suc.prems(3,4)] by (auto simp: L_def c_def q_def)
    have bc: "(c + 2) * 2 ^ h \<le> length lg + 1"
      using node_bounds(3) [OF Suc.prems(5), of c] by (simp add: c_def)
    have "h < 32" using Suc.prems(6) by simp
    then obtain j n lg' where IH: "climb lg leaf 1 = Some (j, n)"
        "merge_up (lg[j := as_u32 n]) j n = merge_up lg' c (2 ^ h)"
        "repr lg' c h s'" "same_outside (sub c h) lg lg'"
      using Suc.IH [OF cs(1) s'(1) q bc] by blast
    define v where "v = (if lg' ! (2 * i + 1) + lg' ! (2 * i + 2) = 2 * 2 ^ h then as_u32 (2 * 2 ^ h)
                         else as_u32 (max (lg' ! (2 * i + 1)) (lg' ! (2 * i + 2))))"
    define lg2 where "lg2 = lg'[i := v]"
    have up: "merge_up lg' c (2 ^ h) = merge_up lg2 i (2 ^ Suc h)"
      using merge_step [of c i lg' "2 ^ h"] by (simp add: c_def lg2_def v_def)
    have cd: "c = 2 * i + 1 \<and> d = 2 * i + 2 \<or> c = 2 * i + 2 \<and> d = 2 * i + 1"
      by (simp add: c_def d_def)
    have par: "same_outside (sub i (Suc h)) lg lg2" "repr lg2 c h s'" "repr lg2 d h u"
      using repr_parent [OF IH(4) cd cs(2) IH(3) i] by (simp_all add: lg2_def)
    have "lg2 ! i = v" "lg2 ! (2 * i + 1) = lg' ! (2 * i + 1)" "lg2 ! (2 * i + 2) = lg' ! (2 * i + 2)"
      using i IH(4) by (simp_all add: lg2_def same_outside_def)
    then have rep: "repr lg2 i (Suc h) t'"
      using join_repr [of lg2 i h] par(2,3) Suc.prems(6) s'(2) by (cases L) (simp_all add: c_def d_def v_def)
    show ?thesis using IH(1,2) up rep par(1)
      by (intro exI [of _ j] exI [of _ n] exI [of _ lg2]) simp
  qed
qed

section \<open>Used blocks of the tree\<close>

definition before :: "nat \<times> nat \<Rightarrow> nat \<times> nat \<Rightarrow> bool" where
  "before = (\<lambda>(a, m) (b, n). a + m \<le> b)"

lemma used_within:
  "tree_wf h t \<Longrightarrow> (a, n) \<in> set (tree_used h q t) \<Longrightarrow> q \<le> a \<and> a + n \<le> q + 2 ^ h \<and> 0 < n"
proof (induction h q t arbitrary: a n rule: tree_used.induct)
  case (3 h q l r)
  then obtain k where "h = Suc k" by (cases h) auto
  with 3 show ?case by fastforce
qed auto

lemma used_sorted: "tree_wf h t \<Longrightarrow> sorted_wrt before (tree_used h q t)"
proof (induction h q t rule: tree_used.induct)
  case (3 h q l r)
  have "before x y" if "x \<in> set (tree_used (h - 1) q l)" "y \<in> set (tree_used (h - 1) (q + 2 ^ (h - 1)) r)" for x y
    using 3(3) that used_within [of "h - 1" l "fst x" "snd x" q]
      used_within [of "h - 1" r "fst y" "snd y" "q + 2 ^ (h - 1)"]
    by (auto simp: before_def case_prod_beta)
  with 3 show ?case by (simp add: sorted_wrt_append)
qed auto

lemma used_aligned: "tree_wf h t \<Longrightarrow> 2 ^ h dvd q \<Longrightarrow> (a, n) \<in> set (tree_used h q t) \<Longrightarrow> n dvd a"
proof (induction h q t rule: tree_used.induct)
  case (3 h q l r)
  then obtain k where k: "h = Suc k" by (cases h) auto
  have "2 ^ k dvd q" using 3(4) k by (metis dvd_mult_left mult.commute power_Suc)
  with 3 k show ?case by auto
qed auto

lemma used_Nil_iff: "tree_wf h t \<Longrightarrow> tree_used h q t = [] \<longleftrightarrow> t = Free"
  by (induction h q t rule: tree_used.induct) auto

lemma tree_alloc_used:
  assumes "tree_wf h t" "2 ^ k \<le> tree_val h t" "k \<le> h" "tree_alloc h k t = (p, t')"
  shows "\<exists>xs ys. tree_used h q t = xs @ ys \<and> tree_used h q t' = xs @ (q + p, 2 ^ k) # ys"
  using assms
proof (induction h arbitrary: t p t' q)
  case 0
  then have "t = Free" by (cases t) auto
  with 0 show ?case by simp
next
  case (Suc h)
  show ?case
  proof (cases "k = Suc h")
    case True
    then have "t = Free" using tree_val_le [OF Suc.prems(1)] tree_val_full [OF Suc.prems(1)] Suc.prems(2) by simp
    with True Suc.prems show ?thesis by simp
  next
    case False
    obtain l r where lr: "halves t = (l, r)" by fastforce
    have fit: "t \<noteq> Used" "2 ^ k \<le> tree_val h l \<or> 2 ^ k \<le> tree_val h r"
      using tree_val_halves [OF Suc.prems(2) False Suc.prems(3) lr] by auto
    have k: "k \<le> h" using False Suc.prems(3) by simp
    have wf: "tree_wf h l" "tree_wf h r" using lr Suc.prems(1) fit(1) by (cases t; auto)+
    have u: "tree_used (Suc h) q t = tree_used h q l @ tree_used h (q + 2 ^ h) r"
      using lr fit(1) by (cases t) auto
    show ?thesis
    proof (cases "goes_left (2 ^ k) (tree_val h l) (tree_val h r)")
      case True
      obtain p' l' where a: "tree_alloc h k l = (p', l')" by fastforce
      have "2 ^ k \<le> tree_val h l" using True by (simp add: goes_left_def)
      from Suc.IH [OF wf(1) this k a, of q] obtain xs ys where
        "tree_used h q l = xs @ ys" "tree_used h q l' = xs @ (q + p', 2 ^ k) # ys" by blast
      then show ?thesis using Suc.prems(4) False lr True a u
        by (intro exI [of _ xs] exI [of _ "ys @ tree_used h (q + 2 ^ h) r"]) auto
    next
      case R: False
      obtain p' r' where a: "tree_alloc h k r = (p', r')" by fastforce
      have "2 ^ k \<le> tree_val h r" using R fit(2) by (auto simp: goes_left_def)
      from Suc.IH [OF wf(2) this k a, of "q + 2 ^ h"] obtain xs ys where
        "tree_used h (q + 2 ^ h) r = xs @ ys" "tree_used h (q + 2 ^ h) r' = xs @ (q + 2 ^ h + p', 2 ^ k) # ys"
        by blast
      then show ?thesis using Suc.prems(4) False lr R a u
        by (intro exI [of _ "tree_used h q l @ xs"] exI [of _ ys]) (auto simp: add.assoc)
    qed
  qed
qed

lemma tree_used_join: "tree_used h q (join l r) = tree_used h q (Split l r)"
  by (simp add: join_def)

lemma tree_free_used:
  "tree_free h p t = Some t' \<Longrightarrow> tree_wf h t \<Longrightarrow> p < 2 ^ h \<Longrightarrow>
     \<exists>xs a n ys. tree_used h q t = xs @ (a, n) # ys \<and> tree_used h q t' = xs @ ys
       \<and> a \<le> q + p \<and> q + p < a + n"
proof (induction h p t arbitrary: t' q rule: tree_free.induct)
  case (3 h p l r)
  obtain k where k: "h = Suc k" using 3(4) by (cases h) auto
  show ?case
  proof (cases "p < 2 ^ k")
    case True
    with 3(3) k obtain l' where l': "tree_free k p l = Some l'" "t' = join l' r" by auto
    obtain xs a n ys where "tree_used k q l = xs @ (a, n) # ys" "tree_used k q l' = xs @ ys"
        "a \<le> q + p" "q + p < a + n"
      using 3(1) [of l' q] True k l'(1) 3(4) by auto
    then show ?thesis using l'(2) k by (simp add: tree_used_join) (metis append.assoc append_Cons)
  next
    case False
    with 3(3) k obtain r' where r': "tree_free k (p - 2 ^ k) r = Some r'" "t' = join l r'" by auto
    have "p - 2 ^ k < 2 ^ k" using False 3(5) k by auto
    then obtain xs a n ys where "tree_used k (q + 2 ^ k) r = xs @ (a, n) # ys"
        "tree_used k (q + 2 ^ k) r' = xs @ ys" "a \<le> q + p" "q + p < a + n"
      using 3(2) [of r' "q + 2 ^ k"] False k r'(1) 3(4,5) by auto
    then show ?thesis using r'(2) k by (simp add: tree_used_join) (metis append.assoc)
  qed
qed (auto intro!: exI [of _ "[]"])

lemma tree_free_None:
  "tree_free h p t = None \<Longrightarrow> tree_wf h t \<Longrightarrow> p < 2 ^ h \<Longrightarrow>
     (a, n) \<in> set (tree_used h q t) \<Longrightarrow> \<not> (a \<le> q + p \<and> q + p < a + n)"
proof (induction h p t arbitrary: q rule: tree_free.induct)
  case (3 h p l r)
  obtain k where k: "h = Suc k" using 3(4) by (cases h) auto
  have wf: "tree_wf k l" "tree_wf k r" using 3(4) k by auto
  show ?case
  proof (cases "p < 2 ^ k")
    case True
    with 3 k wf show ?thesis
      using used_within [of k r a n "q + 2 ^ k"] by fastforce
  next
    case False
    with 3(3,5) k have "tree_free k (p - 2 ^ k) r = None" "p - 2 ^ k < 2 ^ k" by auto
    then show ?thesis
      using 3(2) [of "q + 2 ^ k"] False k wf 3(6) used_within [of k l a n q] by fastforce
  qed
qed auto

text \<open>A release undoes the allocation of the block it falls in.\<close>

lemma tree_free_alloc:
  assumes "tree_wf h t" "2 ^ k \<le> tree_val h t" "k \<le> h" "tree_alloc h k t = (p, t')"
    and "p \<le> f" "f < p + 2 ^ k"
  shows "tree_free h f t' = Some t \<and> p + 2 ^ k \<le> 2 ^ h"
  using assms
proof (induction h arbitrary: t p t' f)
  case 0
  then have "t = Free" by (cases t) auto
  with 0 show ?case by auto
next
  case (Suc h)
  show ?case
  proof (cases "k = Suc h")
    case True
    then have "t = Free" using tree_val_le [OF Suc.prems(1)] tree_val_full [OF Suc.prems(1)] Suc.prems(2) by simp
    with True Suc.prems show ?thesis by auto
  next
    case False
    obtain l r where lr: "halves t = (l, r)" by fastforce
    have fit: "t \<noteq> Used" "2 ^ k \<le> tree_val h l \<or> 2 ^ k \<le> tree_val h r"
      using tree_val_halves [OF Suc.prems(2) False Suc.prems(3) lr] by auto
    have k: "k \<le> h" using False Suc.prems(3) by simp
    have wf: "tree_wf h l" "tree_wf h r" using lr Suc.prems(1) fit(1) by (cases t; auto)+
    have j: "join l r = t" using lr fit(1) Suc.prems(1) by (cases t) (auto simp: join_def)
    show ?thesis
    proof (cases "goes_left (2 ^ k) (tree_val h l) (tree_val h r)")
      case True
      obtain p' l' where a: "tree_alloc h k l = (p', l')" by fastforce
      then have "p = p'" "t' = Split l' r" using Suc.prems(4) False lr True by auto
      moreover have "2 ^ k \<le> tree_val h l" using True by (simp add: goes_left_def)
      ultimately show ?thesis using Suc.IH [OF wf(1) _ k a, of f] Suc.prems(5,6) j by auto
    next
      case R: False
      obtain p' r' where a: "tree_alloc h k r = (p', r')" by fastforce
      then have p: "p = 2 ^ h + p'" "t' = Split l r'" using Suc.prems(4) False lr R by auto
      moreover have "2 ^ k \<le> tree_val h r" using R fit(2) by (auto simp: goes_left_def)
      moreover have "p' \<le> f - 2 ^ h" "f - 2 ^ h < p' + 2 ^ k" "\<not> f < 2 ^ h" using p Suc.prems(5,6) by auto
      ultimately show ?thesis using Suc.IH [OF wf(2) _ k a, of "f - 2 ^ h"] j by auto
    qed
  qed
qed

text \<open>A block of \<open>2 ^ k\<close> frames fits exactly when an aligned run of that length is free.\<close>

definition free_run :: "nat \<Rightarrow> nat \<Rightarrow> btree \<Rightarrow> nat \<Rightarrow> nat \<Rightarrow> bool" where
  "free_run h q t p n \<longleftrightarrow> p + n \<le> 2 ^ h
     \<and> (\<forall>(a, m)\<in>set (tree_used h q t). q + p + n \<le> a \<or> a + m \<le> q + p)"

lemma free_run_left:
  "tree_wf (Suc h) (Split l r) \<Longrightarrow> p + n \<le> 2 ^ h \<Longrightarrow>
     free_run (Suc h) q (Split l r) p n \<longleftrightarrow> free_run h q l p n"
  using used_within [of h r _ _ "q + 2 ^ h"] by (fastforce simp: free_run_def ball_Un)

lemma free_run_right:
  assumes "tree_wf (Suc h) (Split l r)"
  shows "free_run (Suc h) q (Split l r) (2 ^ h + p) n \<longleftrightarrow> free_run h (q + 2 ^ h) r p n"
proof -
  have "q + (2 ^ h + p) + n \<le> a \<or> a + m \<le> q + (2 ^ h + p)" if "(a, m) \<in> set (tree_used h q l)" for a m
    using used_within [of h l a m q] assms that by auto
  then show ?thesis by (auto simp: free_run_def ball_Un add.assoc)
qed

lemma fits_imp_free_run:
  "tree_wf h t \<Longrightarrow> 2 ^ k \<le> tree_val h t \<Longrightarrow> k \<le> h \<Longrightarrow> \<exists>p. 2 ^ k dvd p \<and> free_run h q t p (2 ^ k)"
proof (induction h arbitrary: t q)
  case 0
  then show ?case by (cases t) (auto simp: free_run_def intro!: exI [of _ 0])
next
  case (Suc h)
  show ?case
  proof (cases t)
    case Free
    have "(2::nat) ^ k \<le> 2 ^ Suc h" using Suc.prems(3) by (rule power_increasing) simp
    with Free show ?thesis by (intro exI [of _ 0]) (simp add: free_run_def)
  next
    case Used
    with Suc.prems show ?thesis by simp
  next
    case (Split l r)
    have "k \<noteq> Suc h" using tree_val_full [OF Suc.prems(1)] tree_val_le [OF Suc.prems(1)] Suc.prems(2) Split by auto
    then have k: "k \<le> h" using Suc.prems(3) by simp
    then have d: "(2::nat) ^ k dvd 2 ^ h" by (rule le_imp_power_dvd)
    have wf: "tree_wf h l" "tree_wf h r" using Suc.prems(1) Split by auto
    consider "2 ^ k \<le> tree_val h l" | "2 ^ k \<le> tree_val h r"
      using Suc.prems(2) Split by (auto simp: max_def split: if_splits)
    then show ?thesis
    proof cases
      case 1
      then obtain p where p: "2 ^ k dvd p" "free_run h q l p (2 ^ k)" using Suc.IH [OF wf(1) _ k] by blast
      then have "p + 2 ^ k \<le> 2 ^ h" by (simp add: free_run_def)
      with p show ?thesis using free_run_left [of h l r] Suc.prems(1) Split by blast
    next
      case 2
      then obtain p where p: "2 ^ k dvd p" "free_run h (q + 2 ^ h) r p (2 ^ k)"
        using Suc.IH [OF wf(2) _ k] by blast
      moreover have "2 ^ k dvd 2 ^ h + p" using d p(1) by simp
      ultimately show ?thesis using free_run_right [of h l r q p] Suc.prems(1) Split by auto
    qed
  qed
qed

lemma free_run_imp_fits:
  "tree_wf h t \<Longrightarrow> k \<le> h \<Longrightarrow> 2 ^ k dvd p \<Longrightarrow> free_run h q t p (2 ^ k) \<Longrightarrow> 2 ^ k \<le> tree_val h t"
proof (induction h arbitrary: t q p)
  case 0
  then show ?case by (cases t) (auto simp: free_run_def)
next
  case (Suc h)
  show ?case
  proof (cases t)
    case Free
    with Suc.prems show ?thesis by (simp add: power_increasing del: power_Suc)
  next
    case Used
    then have "p + 2 ^ k \<le> 2 ^ Suc h" "q + p + 2 ^ k \<le> q \<or> q + 2 ^ Suc h \<le> q + p"
      using Suc.prems(4) by (simp_all add: free_run_def)
    moreover have "(0::nat) < 2 ^ k" by simp
    ultimately show ?thesis by linarith
  next
    case (Split l r)
    have wf: "tree_wf h l" "tree_wf h r" using Suc.prems(1) Split by auto
    show ?thesis
    proof (cases "k = Suc h")
      case True
      then have "p = 0" using Suc.prems(4) by (simp add: free_run_def)
      then have "tree_used (Suc h) q t = []"
        using Suc.prems(4) True used_within [OF Suc.prems(1), of _ _ q]
        by (cases "tree_used (Suc h) q t") (fastforce simp: free_run_def)+
      then have "t = Free" using used_Nil_iff [OF Suc.prems(1)] by blast
      with Split show ?thesis by simp
    next
      case False
      then have k: "k \<le> h" using Suc.prems(2) by simp
      then obtain m where m: "(2::nat) ^ h = 2 ^ k * m" using le_imp_power_dvd by (meson dvd_def)
      obtain c where c: "p = 2 ^ k * c" using Suc.prems(3) by (meson dvd_def)
      show ?thesis
      proof (cases "c < m")
        case True
        then have "2 ^ k * (c + 1) \<le> 2 ^ k * m" by (intro mult_le_mono2) simp
        then have "p + 2 ^ k \<le> 2 ^ h" using c m by simp
        then have "free_run h q l p (2 ^ k)" using free_run_left Suc.prems(1,4) Split by blast
        from Suc.IH [OF wf(1) k Suc.prems(3) this] show ?thesis using Split by simp
      next
        case F: False
        then obtain e where e: "c = m + e" using le_Suc_ex not_less by blast
        have "free_run h (q + 2 ^ h) r (2 ^ k * e) (2 ^ k)"
          using free_run_right [of h l r q "2 ^ k * e"] Suc.prems(1,4) Split c m e by (simp add: algebra_simps)
        from Suc.IH [OF wf(2) k _ this] show ?thesis using Split by simp
      qed
    qed
  qed
qed

section \<open>Construction\<close>

lemma highest_bit_bounds: "0 < n \<Longrightarrow> 2 ^ highest_bit n \<le> n \<and> n < 2 ^ Suc (highest_bit n)"
proof (induction n rule: highest_bit.induct)
  case (1 n)
  show ?case
  proof (cases "n < 2")
    case True
    with 1 show ?thesis by (simp add: highest_bit.simps)
  next
    case False
    then have "2 ^ highest_bit (n div 2) \<le> n div 2" "n div 2 < 2 ^ Suc (highest_bit (n div 2))"
      using 1 by auto
    moreover have "highest_bit n = Suc (highest_bit (n div 2))"
      using False by (subst highest_bit.simps) simp
    ultimately show ?thesis by auto
  qed
qed

lemma highest_bit_unique: "2 ^ k \<le> n \<Longrightarrow> n < 2 ^ Suc k \<Longrightarrow> highest_bit n = k"
proof -
  assume a: "2 ^ k \<le> n" "n < 2 ^ Suc k"
  then have "0 < n" by (metis gr0I le_zero_eq power_not_zero zero_neq_numeral)
  then have b: "2 ^ highest_bit n \<le> n" "n < 2 ^ Suc (highest_bit n)" using highest_bit_bounds by auto
  have "(2::nat) ^ k < 2 ^ Suc (highest_bit n)" "(2::nat) ^ highest_bit n < 2 ^ Suc k"
    using a b by (meson le_less_trans)+
  then have "k < Suc (highest_bit n)" "highest_bit n < Suc k"
    by (simp_all only: power_strict_increasing_iff one_less_numeral_iff semiring_norm)
  then show ?thesis by simp
qed

lemma highest_bit_pow [simp]: "highest_bit (2 ^ k) = k"
  by (rule highest_bit_unique) simp_all

lemma highest_bit_double: "0 < n \<Longrightarrow> highest_bit (2 * n) = Suc (highest_bit n)"
  "0 < n \<Longrightarrow> highest_bit (2 * n + 1) = Suc (highest_bit n)"
  by (subst highest_bit.simps; simp)+

lemma prev_power_of_two_spec:
  "0 < n \<Longrightarrow> prev_power_of_two n = 2 ^ highest_bit n \<and> prev_power_of_two n \<le> n \<and> n < 2 * prev_power_of_two n"
  using highest_bit_bounds [of n] by (simp add: prev_power_of_two_def)

lemma next_power_of_two_spec:
  "1 \<le> n \<Longrightarrow> \<exists>k. next_power_of_two n = 2 ^ k \<and> n \<le> 2 ^ k \<and> (\<forall>m. n \<le> 2 ^ m \<longrightarrow> (2::nat) ^ k \<le> 2 ^ m)"
proof (cases "n = 1")
  case True
  then show ?thesis by (intro exI [of _ 0]) (simp add: next_power_of_two_def)
next
  case False
  assume "1 \<le> n"
  with False have n: "0 < n - 1" by simp
  note b = highest_bit_bounds [OF n]
  have "(2::nat) ^ Suc (highest_bit (n - 1)) \<le> 2 ^ m" if "n \<le> 2 ^ m" for m
  proof -
    have "2 ^ highest_bit (n - 1) < (2::nat) ^ m" using b that n by linarith
    then have "highest_bit (n - 1) < m" by (simp only: power_strict_increasing_iff one_less_numeral_iff semiring_norm)
    then have "Suc (highest_bit (n - 1)) \<le> m" by simp
    then show ?thesis by (rule power_increasing) simp
  qed
  moreover have "n \<le> 2 ^ Suc (highest_bit (n - 1))" using b by linarith
  ultimately show ?thesis using False n
    by (intro exI [of _ "Suc (highest_bit (n - 1))"]) (simp add: next_power_of_two_def)
qed

lemma is_power_of_two_step:
  assumes "0 < i"
  shows "highest_bit (i + 1) = (if is_power_of_two (i + 1) then Suc (highest_bit i) else highest_bit i)"
proof -
  let ?m = "highest_bit (i + 1)"
  note b = highest_bit_bounds [of "i + 1"]
  show ?thesis
  proof (cases "is_power_of_two (i + 1)")
    case True
    then have e: "2 ^ ?m = i + 1" by (simp add: is_power_of_two_def prev_power_of_two_def)
    then obtain k where k: "?m = Suc k" using assms by (cases ?m) auto
    have "highest_bit i = k" using e k by (intro highest_bit_unique) auto
    with True k show ?thesis by simp
  next
    case False
    then have "2 ^ ?m \<noteq> i + 1" by (simp add: is_power_of_two_def prev_power_of_two_def)
    then have "highest_bit i = ?m" using b by (intro highest_bit_unique) auto
    with False show ?thesis by simp
  qed
qed

lemma build_longest_map:
  assumes "ns = (if i = 0 then 2 * 2 ^ H else 2 ^ (H - highest_bit i))" "nodes < 2 * 2 ^ H"
  shows "build_longest i nodes ns = map (\<lambda>j. as_u32 (2 ^ (H - highest_bit (j + 1)))) [i..<nodes]"
  using assms
proof (induction i nodes ns rule: build_longest.induct)
  case (1 i nodes ns)
  show ?case
  proof (cases "i < nodes")
    case False
    then show ?thesis by (simp add: build_longest.simps)
  next
    case True
    define ns' where "ns' = (if is_power_of_two (i + 1) then ns div 2 else ns)"
    have ns': "ns' = 2 ^ (H - highest_bit (i + 1))"
    proof (cases "i = 0")
      case True
      then show ?thesis using 1(2)
        by (simp add: ns'_def is_power_of_two_def prev_power_of_two_def highest_bit.simps)
    next
      case False
      have "(2::nat) ^ highest_bit (i + 1) < 2 ^ Suc H"
        using highest_bit_bounds [of "i + 1"] 1(3) True by simp
      then have "highest_bit (i + 1) \<le> H"
        by (simp only: power_strict_increasing_iff one_less_numeral_iff semiring_norm less_Suc_eq_le)
      moreover have "(2::nat) ^ (H - highest_bit i) div 2 = 2 ^ (H - Suc (highest_bit i))"
        if "highest_bit i < H"
        using Suc_diff_Suc [OF that] by (metis nonzero_mult_div_cancel_left power_Suc zero_neq_numeral)
      ultimately show ?thesis using False 1(2) is_power_of_two_step [of i]
        by (auto simp: ns'_def split: if_splits)
    qed
    have "build_longest i nodes ns = as_u32 ns' # build_longest (i + 1) nodes ns'"
      using True by (subst build_longest.simps) (simp add: ns'_def Let_def)
    also have "build_longest (i + 1) nodes ns' = map (\<lambda>j. as_u32 (2 ^ (H - highest_bit (j + 1)))) [i + 1..<nodes]"
      using 1(1) [OF True ns'_def _ 1(3)] ns' by simp
    finally show ?thesis using True ns' by (simp add: upt_conv_Cons)
  qed
qed

lemma repr_fresh:
  "(\<And>j. j \<in> sub i h \<Longrightarrow> lg ! j = 2 ^ (H - highest_bit (j + 1))) \<Longrightarrow> h + highest_bit (i + 1) = H \<Longrightarrow>
     repr lg i h Free"
proof (induction h arbitrary: i)
  case 0
  then show ?case using 0(1) [of i] by simp
next
  case (Suc h)
  have "highest_bit (2 * i + 1 + 1) = Suc (highest_bit (i + 1))"
    "highest_bit (2 * i + 2 + 1) = Suc (highest_bit (i + 1))"
    using highest_bit_double [of "i + 1"] by (simp_all add: algebra_simps)
  then have "repr lg (2 * i + 1) h Free" "repr lg (2 * i + 2) h Free"
    using Suc.IH [of "2 * i + 1"] Suc.IH [of "2 * i + 2"] Suc.prems
      sub_child [of "2 * i + 1" i h] sub_child [of "2 * i + 2" i h] by auto
  moreover have "lg ! i = 2 ^ Suc h" using Suc.prems(1) [of i] Suc.prems(2) by (simp flip: Suc.prems(2))
  ultimately show ?case by simp
qed

section \<open>The allocator\<close>

lemma order_pow: "frames b = 2 ^ k \<Longrightarrow> order b = k"
  by (simp add: order_def)

lemma buddy_wfI:
  assumes "frames b = 2 ^ h" "h < 32" "length (longest b) = 2 * frames b - 1"
    and "is_page_aligned (base b)" "repr (longest b) 0 h t"
  shows "buddy_wf b" "buddy_tree b = t" "order b = h"
  using assms order_pow [OF assms(1)] repr_abs_tree [OF assms(5)]
  by (simp_all add: buddy_wf_def buddy_tree_def)

lemma buddy_wfD:
  assumes "buddy_wf b"
  shows "frames b = 2 ^ order b" "order b < 32" "repr (longest b) 0 (order b) (buddy_tree b)"
    and "(0 + 2) * 2 ^ order b \<le> length (longest b) + 1" "tree_wf (order b) (buddy_tree b)"
    and "longest b ! 0 = tree_val (order b) (buddy_tree b)"
    and "is_page_aligned (base b)" "length (longest b) = 2 * frames b - 1"
  using assms repr_wf repr_val by (auto simp: buddy_wf_def)

text \<open>Equal trees in arrays of the same length are equal arrays.\<close>

lemma sub_split: "j \<in> sub i (Suc h) \<Longrightarrow> j = i \<or> j \<in> sub (2 * i + 1) h \<or> j \<in> sub (2 * i + 2) h"
proof -
  assume "j \<in> sub i (Suc h)"
  then obtain d where d: "d \<le> Suc h" "(j + 1) div 2 ^ d = i + 1" by (auto simp: sub_def)
  show ?thesis
  proof (cases d)
    case 0
    with d show ?thesis by simp
  next
    case (Suc e)
    then have "(j + 1) div 2 ^ e div 2 = i + 1" using d(2) by (metis div_mult2_eq power_Suc2)
    then have "(j + 1) div 2 ^ e = 2 * i + 2 \<or> (j + 1) div 2 ^ e = 2 * i + 3" by linarith
    then show ?thesis using Suc d(1) by (auto simp: sub_def eval_nat_numeral)
  qed
qed

lemma repr_determines:
  "repr lg i h t \<Longrightarrow> repr lg' i h t \<Longrightarrow> j \<in> sub i h \<Longrightarrow> lg ! j = lg' ! j"
proof (induction lg i h t rule: repr.induct)
  case (1 lg i t)
  then show ?case by (auto simp: sub_def)
next
  case (2 lg i h)
  then show ?case using sub_split [of j i h] by auto
next
  case (3 lg i h)
  then show ?case using sub_split [of j i h] by auto
next
  case (4 lg i h l r)
  then show ?case using sub_split [of j i h] by auto
qed

lemma sub_root: "j + 1 < 2 * 2 ^ h \<Longrightarrow> j \<in> sub 0 h"
proof -
  assume a: "j + 1 < 2 * 2 ^ h"
  let ?d = "highest_bit (j + 1)"
  note b = highest_bit_bounds [of "j + 1"]
  have "(2::nat) ^ ?d < 2 ^ Suc h" using a b by simp
  then have "?d \<le> h"
    by (simp only: power_strict_increasing_iff one_less_numeral_iff semiring_norm less_Suc_eq_le)
  moreover have "(j + 1) div 2 ^ ?d = 1" using b by (intro div_nat_eqI) auto
  ultimately show ?thesis by (auto simp: sub_def)
qed

lemma repr_root_determines:
  assumes "repr lg 0 h t" "repr lg' 0 h t" "length lg = 2 * 2 ^ h - 1" "length lg' = length lg"
  shows "lg = lg'"
  using assms repr_determines [OF assms(1,2)] sub_root by (intro nth_equalityI) auto

lemma propagate_root [simp]: "propagate lg 0 = lg"
  by (simp add: propagate.simps)

lemma merge_up_root [simp]: "merge_up lg 0 n = lg"
  by (simp add: merge_up.simps)

text \<open>The array operations on a well-formed allocator are the tree operations.\<close>

lemma alloc_pages_tree:
  assumes wf: "buddy_wf b" and k: "next_power_of_two (max count 1) = 2 ^ k"
  shows "if tree_val (order b) (buddy_tree b) < 2 ^ k then alloc_pages b count = Some (None, b)
         else k \<le> order b \<and>
           (\<exists>p t' b'. tree_alloc (order b) k (buddy_tree b) = (p, t')
              \<and> alloc_pages b count = Some (Some (base b + p * PAGE_SIZE), b')
              \<and> buddy_wf b' \<and> buddy_tree b' = t' \<and> base b' = base b \<and> frames b' = frames b)"
proof (cases "tree_val (order b) (buddy_tree b) < 2 ^ k")
  case True
  then show ?thesis using buddy_wfD(6) [OF wf] k by (simp add: alloc_pages_def)
next
  case False
  note d = buddy_wfD [OF wf]
  have "(2::nat) ^ k \<le> 2 ^ order b" using False tree_val_le [OF d(5)] by linarith
  then have ko: "k \<le> order b" by (simp only: power_increasing_iff one_less_numeral_iff semiring_norm)
  obtain p t' where pt: "tree_alloc (order b) k (buddy_tree b) = (p, t')" by fastforce
  obtain j lg' where r: "descend (longest b) (2 ^ k) 0 (2 ^ order b) = Some (j, 2 ^ k)"
      "(j + 1) * 2 ^ k = 2 ^ order b + p" "propagate ((longest b)[j := 0]) j = lg'"
      "repr lg' 0 (order b) t'" "same_outside (sub 0 (order b)) (longest b) lg'"
    using alloc_refines [OF d(3) _ ko d(4) pt] False by (auto simp: not_less)
  define b' where "b' = b\<lparr>longest := lg'\<rparr>"
  have "alloc_pages b count = Some (Some (base b + p * PAGE_SIZE), b')"
    using False k d(1,6) r(1,2,3) by (simp add: alloc_pages_def b'_def)
  moreover have "buddy_wf b'" "buddy_tree b' = t'"
    using buddy_wfI(1,2) [of b' "order b" t'] d r(4,5) by (simp_all add: b'_def same_outside_def)
  ultimately show ?thesis using False ko pt by (auto simp: b'_def)
qed

lemma free_pages_tree:
  assumes wf: "buddy_wf b" and f: "contains b frame"
  shows "case tree_free (order b) ((frame - base b) div PAGE_SIZE) (buddy_tree b) of
           None \<Rightarrow> free_pages b frame = b
         | Some t' \<Rightarrow> buddy_wf (free_pages b frame) \<and> buddy_tree (free_pages b frame) = t'
             \<and> base (free_pages b frame) = base b \<and> frames (free_pages b frame) = frames b"
proof -
  note d = buddy_wfD [OF wf]
  define p where "p = (frame - base b) div PAGE_SIZE"
  have fb: "\<not> frame < base b" using f by (simp add: contains_def)
  have "frame - base b < frames b * PAGE_SIZE" using f by (auto simp: contains_def)
  then have p: "p < 2 ^ order b" using d(1) by (simp add: p_def PAGE_SIZE_def div_less_iff_less_mult)
  define leaf where "leaf = p + frames b - 1"
  have leaf: "leaf + 1 = (0 + 1) * 2 ^ order b + p" using d(1) by (simp add: leaf_def)
  show ?thesis
  proof (cases "tree_free (order b) p (buddy_tree b)")
    case None
    have "climb (longest b) leaf 1 = climb (longest b) 0 (2 ^ order b)" "longest b ! 0 \<noteq> 0"
      using climb_free [OF d(3) None leaf p] by auto
    then have "climb (longest b) leaf 1 = None" by (simp add: climb.simps)
    then show ?thesis using None fb p d(1) by (simp add: free_pages_def p_def leaf_def Let_def)
  next
    case (Some t')
    obtain j n lg' where r: "climb (longest b) leaf 1 = Some (j, n)"
        "merge_up ((longest b)[j := as_u32 n]) j n = lg'"
        "repr lg' 0 (order b) t'" "same_outside (sub 0 (order b)) (longest b) lg'"
      using free_refines [OF d(3) Some leaf p d(4) d(2)] by auto
    have e: "free_pages b frame = b\<lparr>longest := lg'\<rparr>"
      using fb p d(1) r(1,2) by (simp add: free_pages_def p_def leaf_def Let_def)
    show ?thesis
      using Some e buddy_wfI(1,2) [of "b\<lparr>longest := lg'\<rparr>" "order b" t'] d r(3,4)
      by (simp add: same_outside_def p_def)
  qed
qed

section \<open>The contract on used blocks\<close>

lemma block_disjoint_iff:
  assumes "0 < n" "0 < m"
  shows "block (B + p * PAGE_SIZE, n) \<inter> block (B + q * PAGE_SIZE, m) = {} \<longleftrightarrow> p + n \<le> q \<or> q + m \<le> p"
proof
  assume dis: "block (B + p * PAGE_SIZE, n) \<inter> block (B + q * PAGE_SIZE, m) = {}"
  show "p + n \<le> q \<or> q + m \<le> p"
  proof (rule ccontr)
    assume "\<not> (p + n \<le> q \<or> q + m \<le> p)"
    then have "B + max p q * PAGE_SIZE \<in> block (B + p * PAGE_SIZE, n) \<inter> block (B + q * PAGE_SIZE, m)"
      using assms by (auto simp: block_def PAGE_SIZE_def max_def)
    with dis show False by blast
  qed
qed (auto simp: block_def PAGE_SIZE_def)

lemma before_disjoint:
  "before (p, n) (q, m) \<Longrightarrow> 0 < n \<Longrightarrow> 0 < m \<Longrightarrow>
     block (B + p * PAGE_SIZE, n) \<inter> block (B + q * PAGE_SIZE, m) = {}"
  by (simp add: block_disjoint_iff before_def)

lemma used_pos: "buddy_wf b \<Longrightarrow> (p, n) \<in> set (tree_used (order b) q (buddy_tree b)) \<Longrightarrow> 0 < n"
  using used_within buddy_wfD(5) by blast

text \<open>The used blocks of a well-formed allocator lie in its range, are aligned to their
  size relative to its base, and no two of them overlap.\<close>

lemma used_blocks_disjoint:
  assumes "buddy_wf b"
  shows "sorted_wrt (\<lambda>x y. block x \<inter> block y = {}) (used b)
       \<and> list_all (\<lambda>(a, n). base b \<le> a \<and> a + n * PAGE_SIZE \<le> base b + frames b * PAGE_SIZE
            \<and> n * PAGE_SIZE dvd a - base b \<and> 0 < n) (used b)"
proof
  note d = buddy_wfD [OF assms]
  let ?u = "tree_used (order b) 0 (buddy_tree b)"
  have "block (case x of (p, n) \<Rightarrow> (base b + p * PAGE_SIZE, n)) \<inter>
      block (case y of (p, n) \<Rightarrow> (base b + p * PAGE_SIZE, n)) = {}"
    if "x \<in> set ?u" "y \<in> set ?u" "before x y" for x y
    using that used_pos [OF assms, of "fst x" "snd x" 0] used_pos [OF assms, of "fst y" "snd y" 0]
      before_disjoint [of "fst x" "snd x" "fst y" "snd y" "base b"]
    by (simp add: case_prod_beta)
  then show "sorted_wrt (\<lambda>x y. block x \<inter> block y = {}) (used b)"
    unfolding used_def sorted_wrt_map
    by (rule sorted_wrt_mono_rel [OF _ used_sorted [OF d(5), of 0]])
  have "p + n \<le> frames b \<and> n dvd p \<and> 0 < n" if "(p, n) \<in> set ?u" for p n
    using used_within [OF d(5) that] used_aligned [OF d(5) _ that] d(1) by simp
  then show "list_all (\<lambda>(a, n). base b \<le> a \<and> a + n * PAGE_SIZE \<le> base b + frames b * PAGE_SIZE
            \<and> n * PAGE_SIZE dvd a - base b \<and> 0 < n) (used b)"
    by (fastforce simp: used_def list_all_iff PAGE_SIZE_def mult_dvd_mono)
qed

text \<open>The example allocator of the witnesses: four frames at \<open>0x4000_0000\<close>.\<close>

definition demo :: buddy where
  "demo = \<lparr>base = 0x40000000, frames = 4, longest = [4, 2, 2, 1, 1, 1, 1]\<rparr>"

lemma demo_wf: "buddy_wf demo" "buddy_tree demo = Free" "order demo = 2"
  using buddy_wfI [of demo 2 Free] by (simp_all add: demo_def is_page_aligned_def PAGE_SIZE_def numeral_2_eq_2)

lemma buddy_new_spec:
  assumes "is_page_aligned start" "PAGE_SIZE \<le> len" "len div PAGE_SIZE < 2 ^ 32"
    and "reserve (2 * prev_power_of_two (len div PAGE_SIZE) - 1)"
  shows "\<exists>b. buddy_new reserve start len = Inr b \<and> buddy_wf b \<and> used b = [] \<and> base b = start
           \<and> frames b \<le> len div PAGE_SIZE \<and> len div PAGE_SIZE < 2 * frames b
           \<and> metadata_bytes len = 4 * length (longest b)"
proof -
  define n where "n = len div PAGE_SIZE"
  have n: "0 < n" using assms(2) by (simp add: n_def PAGE_SIZE_def div_greater_zero_iff)
  define h where "h = highest_bit n"
  have pp: "prev_power_of_two n = 2 ^ h" "2 ^ h \<le> n" "n < 2 * 2 ^ h"
    using prev_power_of_two_spec [OF n] by (simp_all add: h_def)
  have "(2::nat) ^ h < 2 ^ 32" using pp(2) assms(3) by (simp add: n_def)
  then have h32: "h < 32" by (simp only: power_strict_increasing_iff one_less_numeral_iff semiring_norm)
  define lg where "lg = build_longest 0 (2 * 2 ^ h - 1) (2 * 2 ^ h)"
  have lg: "lg = map (\<lambda>j. as_u32 (2 ^ (h - highest_bit (j + 1)))) [0..<2 * 2 ^ h - 1]"
    unfolding lg_def by (rule build_longest_map) simp_all
  have "lg ! j = 2 ^ (h - highest_bit (j + 1))" if "j \<in> sub 0 h" for j
  proof -
    have "j < 2 * 2 ^ h - 1" using sub_less [OF that] by simp
    then have "lg ! j = as_u32 (2 ^ (h - highest_bit (j + 1)))" unfolding lg by (subst nth_map) simp_all
    then show ?thesis using h32 by (simp add: as_u32_pow)
  qed
  then have rep: "repr lg 0 h Free" by (rule repr_fresh) (simp_all add: highest_bit.simps)
  define b where "b = \<lparr>base = start, frames = 2 ^ h, longest = lg\<rparr>"
  have wf: "buddy_wf b" "buddy_tree b = Free" "order b = h"
    using buddy_wfI [of b h Free] h32 rep assms(1) by (simp_all add: b_def lg)
  have "buddy_new reserve start len = Inr b"
    using assms(1,4) pp(1) by (simp add: buddy_new_def b_def lg_def Let_def flip: n_def)
  moreover have "metadata_bytes len = 4 * length (longest b)"
    using pp(1) by (simp add: metadata_bytes_def b_def lg Let_def flip: n_def)
  ultimately show ?thesis using wf pp
    by (intro exI [of _ b]) (simp add: used_def b_def flip: n_def)
qed

text \<open>Building an allocator over an aligned region of between one and \<open>2 ^ 32 - 1\<close> whole
  frames, with heap for the tree, gives a well-formed allocator with nothing in use that
  manages the largest power of two of frames, and its tree takes exactly the
  \<open>metadata_bytes\<close> the caller was told.\<close>

theorem buddy_new_correct:
  assumes "is_page_aligned start" "PAGE_SIZE \<le> len" "len div PAGE_SIZE < 2 ^ 32"
    and "reserve (2 * prev_power_of_two (len div PAGE_SIZE) - 1)"
  shows "\<exists>b. buddy_new reserve start len = Inr b \<and> buddy_wf b \<and> used b = [] \<and> base b = start
           \<and> frames b \<le> len div PAGE_SIZE \<and> len div PAGE_SIZE < 2 * frames b
           \<and> metadata_bytes len = 4 * length (longest b)"
  using assms by (rule buddy_new_spec)

theorem buddy_new_correct_witness:
  "\<exists>b. buddy_new (\<lambda>n. n \<le> 7) 0x40000000 (5 * PAGE_SIZE) = Inr b \<and> buddy_wf b \<and> used b = []"
proof -
  have "is_page_aligned 0x40000000" "5 * PAGE_SIZE div PAGE_SIZE = 5" "PAGE_SIZE \<le> 5 * PAGE_SIZE"
    "2 * prev_power_of_two 5 - 1 \<le> (7::nat)"
    by (simp_all add: is_page_aligned_def PAGE_SIZE_def prev_power_of_two_def highest_bit.simps)
  then show ?thesis
    using buddy_new_correct [of "0x40000000" "5 * PAGE_SIZE" "\<lambda>n. n \<le> 7"] by auto
qed

lemma alloc_total:
  assumes wf: "buddy_wf b"
  shows "\<exists>r b'. alloc_pages b count = Some (r, b') \<and> buddy_wf b' \<and> base b' = base b \<and> frames b' = frames b"
proof -
  obtain k where "next_power_of_two (max count 1) = 2 ^ k"
    using next_power_of_two_spec [of "max count 1"] by auto
  from alloc_pages_tree [OF wf this] wf show ?thesis by (auto split: if_splits)
qed

lemma alloc_failure:
  assumes wf: "buddy_wf b" and a: "alloc_pages b count = Some (None, b')"
    and n_def: "n = next_power_of_two (max count 1)"
  shows "b' = b \<and> \<not> (\<exists>p. n dvd p \<and> p + n \<le> frames b
            \<and> (\<forall>x\<in>set (used b). block (base b + p * PAGE_SIZE, n) \<inter> block x = {}))"
proof -
  obtain k where k: "n = 2 ^ k" using next_power_of_two_spec [of "max count 1"] by (auto simp: n_def)
  note d = buddy_wfD [OF wf] and T = alloc_pages_tree [OF wf, of count k]
  have v: "tree_val (order b) (buddy_tree b) < 2 ^ k" "b' = b"
    using T a k by (auto simp: n_def split: if_splits)
  have False if n: "n dvd p" "p + n \<le> frames b"
    and dis: "\<forall>x\<in>set (used b). block (base b + p * PAGE_SIZE, n) \<inter> block x = {}" for p
  proof -
    have "p + n \<le> q \<or> q + m \<le> p" if "(q, m) \<in> set (tree_used (order b) 0 (buddy_tree b))" for q m
      using dis that block_disjoint_iff [of n m "base b" p q] used_pos [OF wf that] k
      by (force simp: used_def)
    then have "free_run (order b) 0 (buddy_tree b) p (2 ^ k)"
      using n(2) d(1) k by (auto simp: free_run_def)
    moreover have "(2::nat) ^ k \<le> 2 ^ order b" using n(2) d(1) k by linarith
    then have "k \<le> order b" by (simp only: power_increasing_iff one_less_numeral_iff semiring_norm)
    ultimately have "2 ^ k \<le> tree_val (order b) (buddy_tree b)"
      using free_run_imp_fits [OF d(5)] n(1) k by blast
    with v(1) show False by simp
  qed
  with v(2) show ?thesis by blast
qed

lemma alloc_success:
  assumes wf: "buddy_wf b" and a: "alloc_pages b count = Some (Some a, b')"
    and n_def: "n = next_power_of_two (max count 1)"
  shows "(\<exists>xs ys. used b = xs @ ys \<and> used b' = xs @ (a, n) # ys)
       \<and> (\<forall>x\<in>set (used b). block x \<inter> block (a, n) = {})
       \<and> base b \<le> a \<and> a + n * PAGE_SIZE \<le> base b + frames b * PAGE_SIZE
       \<and> n * PAGE_SIZE dvd a - base b"
proof -
  obtain k where k: "n = 2 ^ k" using next_power_of_two_spec [of "max count 1"] by (auto simp: n_def)
  note d = buddy_wfD [OF wf] and T = alloc_pages_tree [OF wf, of count k]
  have v: "2 ^ k \<le> tree_val (order b) (buddy_tree b)"
    using T a k by (auto simp: n_def split: if_splits)
  then obtain p t' where r: "tree_alloc (order b) k (buddy_tree b) = (p, t')" "k \<le> order b"
      "a = base b + p * PAGE_SIZE" "buddy_wf b'" "buddy_tree b' = t'" "base b' = base b" "frames b' = frames b"
    using T a k by (auto simp: n_def)
  have o: "order b' = order b" using r(7) by (simp add: order_def)
  obtain xs ys where xy: "tree_used (order b) 0 (buddy_tree b) = xs @ ys"
      "tree_used (order b) 0 t' = xs @ (p, 2 ^ k) # ys"
    using tree_alloc_used [OF d(5) v r(2,1), of 0] by auto
  define adr where "adr = (\<lambda>(p, n). (base b + p * PAGE_SIZE, n::nat))"
  have ub: "used b = map adr xs @ map adr ys"
    using xy by (simp add: used_def adr_def)
  have ub': "used b' = map adr xs @ (a, n) # map adr ys"
    using xy r(3,5,6) o k by (simp add: used_def adr_def)
  have "block x \<inter> block (a, n) = {}" if "x \<in> set (used b)" for x
    using used_blocks_disjoint [OF r(4)] that unfolding ub ub' sorted_wrt_append by auto
  moreover have "base b \<le> a \<and> a + n * PAGE_SIZE \<le> base b + frames b * PAGE_SIZE
      \<and> n * PAGE_SIZE dvd a - base b"
    using used_blocks_disjoint [OF r(4)] r(6,7) unfolding ub' by simp
  ultimately show ?thesis using ub ub' by blast
qed



lemma free_pages_spec:
  assumes wf: "buddy_wf b"
  shows "buddy_wf (free_pages b f) \<and> base (free_pages b f) = base b \<and> frames (free_pages b f) = frames b
       \<and> (if \<exists>x\<in>set (used b). f \<in> block x
          then \<exists>xs x ys. used b = xs @ x # ys \<and> used (free_pages b f) = xs @ ys \<and> f \<in> block x
          else free_pages b f = b)"
proof (cases "contains b f")
  case False
  then have "free_pages b f = b"
    using buddy_wfD(1) [OF wf] by (auto simp: contains_def free_pages_def PAGE_SIZE_def Let_def div_less_iff_less_mult)
  moreover have "f \<notin> block x" if "x \<in> set (used b)" for x
    using used_blocks_disjoint [OF wf] that False by (fastforce simp: list_all_iff block_def contains_def)
  ultimately show ?thesis using wf by auto
next
  case True
  note d = buddy_wfD [OF wf] and T = free_pages_tree [OF wf True]
  define p where "p = (f - base b) div PAGE_SIZE"
  have fb: "base b \<le> f" "p < 2 ^ order b"
    using True d(1) by (auto simp: contains_def p_def PAGE_SIZE_def div_less_iff_less_mult)
  have inb: "f \<in> block (base b + q * PAGE_SIZE, n) \<longleftrightarrow> q \<le> p \<and> p < q + n" for q n
    using fb(1) by (auto simp: block_def p_def PAGE_SIZE_def div_less_iff_less_mult less_eq_div_iff_mult_less_eq algebra_simps)
  show ?thesis
  proof (cases "tree_free (order b) p (buddy_tree b)")
    case None
    then have "f \<notin> block x" if "x \<in> set (used b)" for x
      using that inb tree_free_None [OF None d(5) fb(2), of _ _ 0] by (auto simp: used_def)
    then show ?thesis using None T wf by (auto simp: p_def)
  next
    case (Some t')
    define b' where "b' = free_pages b f"
    have r: "buddy_wf b'" "buddy_tree b' = t'" "base b' = base b" "frames b' = frames b"
      using Some T by (auto simp: p_def b'_def)
    have o: "order b' = order b" using r(4) by (simp add: order_def)
    obtain xs a n ys where u: "tree_used (order b) 0 (buddy_tree b) = xs @ (a, n) # ys"
        "tree_used (order b) 0 t' = xs @ ys" "a \<le> p" "p < a + n"
      using tree_free_used [OF Some d(5) fb(2), of 0] by auto
    define adr where "adr = (\<lambda>(p, n). (base b + p * PAGE_SIZE, n::nat))"
    have "used b = map adr xs @ adr (a, n) # map adr ys" "used b' = map adr xs @ map adr ys"
      using u r o by (simp_all add: used_def adr_def)
    moreover have "f \<in> block (adr (a, n))" using inb u(3,4) by (simp add: adr_def)
    ultimately have "\<exists>xs x ys. used b = xs @ x # ys \<and> used b' = xs @ ys \<and> f \<in> block x"
        "\<exists>x\<in>set (used b). f \<in> block x"
      by (metis, simp)
    then show ?thesis using r unfolding b'_def by presburger
  qed
qed

text \<open>C19. Releasing any address of a used block removes exactly that block; releasing an address
  that no used block holds (a double release, or memory of another owner) changes nothing.\<close>

theorem free_pages_correct:
  assumes "buddy_wf b"
  shows "buddy_wf (free_pages b f) \<and> base (free_pages b f) = base b \<and> frames (free_pages b f) = frames b
       \<and> (if \<exists>x\<in>set (used b). f \<in> block x
          then \<exists>xs x ys. used b = xs @ x # ys \<and> used (free_pages b f) = xs @ ys \<and> f \<in> block x
          else free_pages b f = b)"
  using assms by (rule free_pages_spec)

theorem free_pages_correct_witness:
  "buddy_wf demo \<and> buddy_wf (free_pages demo 0x40001000)"
  using free_pages_correct [OF demo_wf(1), of "0x40001000"] demo_wf(1) by simp

text \<open>An allocation followed by the release of any address in the block it returned restores
  the allocator exactly, every node of the tree included.\<close>

theorem alloc_free_restores:
  assumes wf: "buddy_wf b" and a: "alloc_pages b count = Some (Some a, b')"
    and f: "f \<in> block (a, next_power_of_two (max count 1))"
  shows "free_pages b' f = b"
proof -
  obtain k where k: "next_power_of_two (max count 1) = 2 ^ k"
    using next_power_of_two_spec [of "max count 1"] by auto
  note d = buddy_wfD [OF wf] and T = alloc_pages_tree [OF wf k]
  have v: "2 ^ k \<le> tree_val (order b) (buddy_tree b)" using T a by (auto split: if_splits)
  then obtain p t' where r: "tree_alloc (order b) k (buddy_tree b) = (p, t')" "k \<le> order b"
      "a = base b + p * PAGE_SIZE" "buddy_wf b'" "buddy_tree b' = t'" "base b' = base b" "frames b' = frames b"
    using T a by auto
  have o: "order b' = order b" using r(7) by (simp add: order_def)
  define q where "q = (f - base b) div PAGE_SIZE"
  have q: "p \<le> q" "q < p + 2 ^ k"
    using f r(3) k by (auto simp: block_def q_def PAGE_SIZE_def div_less_iff_less_mult less_eq_div_iff_mult_less_eq algebra_simps)
  have t: "tree_free (order b) q t' = Some (buddy_tree b)" "p + 2 ^ k \<le> 2 ^ order b"
    using tree_free_alloc [OF d(5) v r(2,1) q] by auto
  have "(p + 2 ^ k) * PAGE_SIZE \<le> frames b * PAGE_SIZE" using t(2) d(1) by (intro mult_le_mono1) simp
  then have "contains b' f" using f r k by (auto simp: contains_def block_def algebra_simps)
  from free_pages_tree [OF r(4) this] t(1) r o
  have w: "buddy_wf (free_pages b' f)" "buddy_tree (free_pages b' f) = buddy_tree b"
    "base (free_pages b' f) = base b" "frames (free_pages b' f) = frames b"
    by (auto simp: q_def)
  have "order (free_pages b' f) = order b" using w(4) by (simp add: order_def)
  then have "longest (free_pages b' f) = longest b"
    using repr_root_determines [of _ "order b" "buddy_tree b"] buddy_wfD(3,8) [OF w(1)] d(1,3,8) w(2,4) by simp
  with w(3,4) show ?thesis by simp
qed

text \<open>\<open>largest_free_run\<close> equals \<open>frames\<close> exactly when no block is in use: one leaked frame shows.\<close>

theorem largest_free_run_detects_leaks:
  assumes "buddy_wf b"
  shows "largest_free_run b = frames b \<longleftrightarrow> used b = []"
  using buddy_wfD [OF assms] tree_val_full [OF buddy_wfD(5) [OF assms]] used_Nil_iff [OF buddy_wfD(5) [OF assms]]
  by (simp add: largest_free_run_def used_def)

theorem largest_free_run_detects_leaks_witness:
  "buddy_wf demo \<and> (largest_free_run demo = frames demo \<longleftrightarrow> used demo = [])"
  using largest_free_run_detects_leaks [OF demo_wf(1)] demo_wf(1) by simp

text \<open>The value is that of the largest free block, not of the longest contiguous run: with the
  first and last frames of four in use, the two frames between them are free and contiguous,
  yet the root reads one.\<close>

theorem largest_free_run_is_not_a_run:
  "let b = \<lparr>base = 0, frames = 4, longest = [1, 1, 1, 0, 1, 1, 0]\<rparr>
   in buddy_wf b \<and> used b = [(0, 1), (12288, 1)] \<and> largest_free_run b = 1 \<and> alloc_pages b 2 = Some (None, b)"
proof -
  define b where "b = \<lparr>base = 0, frames = 4, longest = [1, 1, 1, 0, 1, 1, 0]\<rparr>"
  have w: "buddy_wf b" "buddy_tree b = Split (Split Used Free) (Split Free Used)" "order b = 2"
    using buddy_wfI [of b 2 "Split (Split Used Free) (Split Free Used)"]
    by (simp_all add: b_def is_page_aligned_def PAGE_SIZE_def numeral_2_eq_2)
  moreover have "used b = [(0, 1), (12288, 1)]"
    using w by (simp add: used_def b_def PAGE_SIZE_def)
  moreover have "largest_free_run b = 1" by (simp add: largest_free_run_def b_def)
  moreover have "next_power_of_two (max 2 1) = 2" by (simp add: next_power_of_two_def highest_bit.simps)
  then have "alloc_pages b 2 = Some (None, b)" by (simp only: alloc_pages_def Let_def) (simp add: b_def)
  ultimately show ?thesis unfolding b_def Let_def by blast
qed

theorem alloc_free_restores_witness:
  "\<exists>a b'. alloc_pages demo 2 = Some (Some a, b') \<and> free_pages b' (a + PAGE_SIZE) = demo"
proof -
  have e: "next_power_of_two (max 2 1) = 2" by (simp add: next_power_of_two_def highest_bit.simps)
  have "alloc_pages demo 2 \<noteq> Some (None, b')" for b'
    using alloc_failure [OF demo_wf(1), of 2 b' 2] e demo_wf(2)
    by (auto simp: used_def demo_def intro!: exI [of _ 0])
  then obtain a b' where a: "alloc_pages demo 2 = Some (Some a, b')"
    using alloc_total [OF demo_wf(1), of 2] by (metis not_None_eq)
  moreover have "a + PAGE_SIZE \<in> block (a, next_power_of_two (max 2 1))"
    unfolding e by (simp add: block_def PAGE_SIZE_def)
  ultimately show ?thesis using alloc_free_restores [OF demo_wf(1)] by blast
qed

section \<open>The buddy allocator provides the interface\<close>

definition buddy_out :: "buddy \<Rightarrow> nat set" where
  "buddy_out b = (\<Union>x\<in>set (used b). block x)"

lemma block_one: "block (a, Suc 0) = page a"
  by (simp add: block_def page_def)

lemma allocate_spec:
  assumes "buddy_wf b" "buddy_allocate b = Some (Some a, b')"
  shows "is_page_aligned a \<and> page a \<inter> buddy_out b = {} \<and> buddy_out b' = buddy_out b \<union> page a"
proof -
  have e: "1 = next_power_of_two (max 1 1)" by (simp add: next_power_of_two_def)
  obtain xs ys where s: "used b = xs @ ys" "used b' = xs @ (a, 1) # ys"
      "\<forall>x\<in>set (used b). block x \<inter> block (a, 1) = {}" "base b \<le> a" "PAGE_SIZE dvd a - base b"
    using alloc_success [OF assms(1) assms(2) [unfolded buddy_allocate_def] e] by auto
  have "is_page_aligned (a - base b + base b)"
    using s(5) buddy_wfD(7) [OF assms(1)] by (auto simp: is_page_aligned_def mod_0_imp_dvd)
  with s show ?thesis by (auto simp: buddy_out_def block_one)
qed

interpretation buddy: frame_allocator buddy_wf buddy_allocate buddy_out
proof
  show "\<exists>r b'. buddy_allocate b = Some (r, b') \<and> buddy_wf b'" if "buddy_wf b" for b
    using alloc_total [OF that, of 1] by (auto simp: buddy_allocate_def)
  show "b' = b" if "buddy_wf b" "buddy_allocate b = Some (None, b')" for b b'
    using alloc_failure [OF that(1) that(2) [unfolded buddy_allocate_def]] by simp
qed (use allocate_spec in blast)+

text \<open>Any number of single-frame allocations from a well-formed buddy allocator yields
  page-aligned frames that overlap neither each other nor memory already in use, and comes up
  short only when the next allocation fails too.\<close>

theorem buddy_frames_distinct:
  assumes "buddy_wf b"
  shows "\<exists>frs b'. alloc_many buddy_allocate n b = Some (frs, b') \<and> buddy_wf b'
           \<and> sorted_wrt (\<lambda>x y. page x \<inter> page y = {}) frs
           \<and> (\<forall>a\<in>set frs. is_page_aligned a \<and> page a \<inter> buddy_out b = {})
           \<and> buddy_out b' = buddy_out b \<union> (\<Union>a\<in>set frs. page a)
           \<and> (length frs < n \<longrightarrow> buddy_allocate b' = Some (None, b'))"
  using buddy.alloc_many_spec [OF assms, of n] by blast

theorem buddy_frames_distinct_witness:
  "\<exists>frs b'. alloc_many buddy_allocate 3 demo = Some (frs, b') \<and> buddy_wf b'
     \<and> sorted_wrt (\<lambda>x y. page x \<inter> page y = {}) frs"
  using buddy_frames_distinct [OF demo_wf(1), of 3] by blast

end
