(* ===== verification/FramePool.thy ===== *)
theory FramePool
  imports BuddyTree
begin

text \<open>
  \<^verbatim>\<open>crates/mm/src/pool.rs\<close>: a frame pool over runs of memory of any length, a list of buddy
  trees. The heap that holds the trees is a parameter: \<open>reserve ts n\<close> says whether it can hold
  \<open>n\<close> more tree nodes when the trees \<open>ts\<close> exist, \<open>grow ts\<close> whether the list of trees can grow.
\<close>

section \<open>The source\<close>

type_synonym frame_pool = "buddy list"

definition pool_new :: frame_pool where
  "pool_new = []"

lemma piece_smaller: "0 < n \<Longrightarrow> 0 < prev_power_of_two n \<and> prev_power_of_two n \<le> n"
  using prev_power_of_two_spec [of n] by simp

text \<open>The loop of \<^verbatim>\<open>metadata_bytes\<close>.\<close>

function pool_nodes :: "nat \<Rightarrow> nat \<Rightarrow> nat" where
  "pool_nodes frs nodes =
     (if frs > 0
      then let piece = prev_power_of_two frs
           in pool_nodes (frs - piece) (nodes + (2 * piece - 1))
      else nodes)"
  by pat_completeness auto
termination
  by (relation "measure fst") (use piece_smaller in \<open>auto simp: Let_def\<close>)

declare pool_nodes.simps [simp del]

definition pool_metadata_bytes :: "nat \<Rightarrow> nat" where
  "pool_metadata_bytes len = pool_nodes (len div PAGE_SIZE) 0 * 4"

definition metadata_bytes_for :: "(nat \<times> nat) list \<Rightarrow> nat" where
  "metadata_bytes_for runs = sum_list (map (\<lambda>(_, len). pool_metadata_bytes len) runs)"

text \<open>The loop of \<^verbatim>\<open>add\<close>; a failure keeps the trees added before it.\<close>

function pool_add_loop ::
  "(frame_pool \<Rightarrow> nat \<Rightarrow> bool) \<Rightarrow> (frame_pool \<Rightarrow> bool) \<Rightarrow> frame_pool \<Rightarrow> nat \<Rightarrow> nat \<Rightarrow> nat \<Rightarrow> nat
     \<Rightarrow> nat kresult \<times> frame_pool" where
  "pool_add_loop reserve grow trees start offset remaining added =
     (if remaining > 0
      then let piece = prev_power_of_two remaining
           in case buddy_new (reserve trees) (start + offset) (piece * PAGE_SIZE) of
                Inl e \<Rightarrow> (Inl e, trees)
              | Inr tree \<Rightarrow>
                  if \<not> grow trees then (Inl OutOfResources, trees)
                  else pool_add_loop reserve grow (trees @ [tree]) start (offset + piece * PAGE_SIZE)
                         (remaining - piece) (added + piece)
      else (Inr added, trees))"
  by pat_completeness auto
termination
  by (relation "measure (\<lambda>(_, _, _, _, _, remaining, _). remaining)")
    (use piece_smaller in \<open>auto simp: Let_def\<close>)

declare pool_add_loop.simps [simp del]

definition pool_add ::
  "(frame_pool \<Rightarrow> nat \<Rightarrow> bool) \<Rightarrow> (frame_pool \<Rightarrow> bool) \<Rightarrow> frame_pool \<Rightarrow> nat \<Rightarrow> nat
     \<Rightarrow> nat kresult \<times> frame_pool" where
  "pool_add reserve grow trees start len =
     (if \<not> is_page_aligned start then (Inl InvalidArgument, trees)
      else pool_add_loop reserve grow trees start 0 (len div PAGE_SIZE) 0)"

definition pool_trees :: "frame_pool \<Rightarrow> nat" where
  "pool_trees trees = length trees"

definition pool_frames :: "frame_pool \<Rightarrow> nat" where
  "pool_frames trees = sum_list (map frames trees)"

definition pool_largest_free_run :: "frame_pool \<Rightarrow> nat" where
  "pool_largest_free_run trees = foldr max (map largest_free_run trees) 0"

definition coalesced_frames :: "frame_pool \<Rightarrow> nat" where
  "coalesced_frames trees = sum_list (map largest_free_run trees)"

fun pool_alloc_pages :: "frame_pool \<Rightarrow> nat \<Rightarrow> (nat option \<times> frame_pool) option" where
  "pool_alloc_pages [] count = Some (None, [])"
| "pool_alloc_pages (t # ts) count =
     (case alloc_pages t count of
        None \<Rightarrow> None
      | Some (Some a, t') \<Rightarrow> Some (Some a, t' # ts)
      | Some (None, t') \<Rightarrow> map_option (\<lambda>(r, ts'). (r, t' # ts')) (pool_alloc_pages ts count))"

fun pool_free_pages :: "frame_pool \<Rightarrow> nat \<Rightarrow> frame_pool" where
  "pool_free_pages [] frame = []"
| "pool_free_pages (t # ts) frame =
     (if contains t frame then free_pages t frame # ts else t # pool_free_pages ts frame)"

definition pool_allocate :: "frame_pool \<Rightarrow> (nat option \<times> frame_pool) option" where
  "pool_allocate trees = pool_alloc_pages trees 1"

definition pool_free :: "frame_pool \<Rightarrow> nat \<Rightarrow> frame_pool" where
  "pool_free trees frame = pool_free_pages trees frame"

section \<open>Invariant\<close>

definition span :: "buddy \<Rightarrow> nat set" where
  "span t = {base t..<base t + frames t * PAGE_SIZE}"

definition pool_wf :: "frame_pool \<Rightarrow> bool" where
  "pool_wf trees \<longleftrightarrow> (\<forall>t\<in>set trees. buddy_wf t) \<and> sorted_wrt (\<lambda>s t. span s \<inter> span t = {}) trees"

definition pool_used :: "frame_pool \<Rightarrow> (nat \<times> nat) list" where
  "pool_used trees = concat (map used trees)"

definition pool_tree_nodes :: "frame_pool \<Rightarrow> nat" where
  "pool_tree_nodes trees = sum_list (map (\<lambda>t. length (longest t)) trees)"

lemma pool_wf_Cons [simp]:
  "pool_wf (t # ts) \<longleftrightarrow> buddy_wf t \<and> pool_wf ts \<and> (\<forall>s\<in>set ts. span t \<inter> span s = {})"
  by (auto simp: pool_wf_def)

lemma pool_wf_Nil [simp]: "pool_wf []"
  by (simp add: pool_wf_def)

lemma pool_wf_append:
  "pool_wf (ts @ us) \<longleftrightarrow> pool_wf ts \<and> pool_wf us \<and> (\<forall>t\<in>set ts. \<forall>u\<in>set us. span t \<inter> span u = {})"
  by (auto simp: pool_wf_def sorted_wrt_append)

lemma contains_span: "contains t f \<longleftrightarrow> f \<in> span t"
  by (auto simp: contains_def span_def)

lemma used_in_span: "buddy_wf t \<Longrightarrow> x \<in> set (used t) \<Longrightarrow> block x \<subseteq> span t"
  using used_blocks_disjoint [of t] by (fastforce simp: list_all_iff block_def span_def)

lemma pool_used_span: "pool_wf ts \<Longrightarrow> x \<in> set (pool_used ts) \<Longrightarrow> \<exists>t\<in>set ts. x \<in> set (used t) \<and> block x \<subseteq> span t"
proof -
  assume a: "pool_wf ts" "x \<in> set (pool_used ts)"
  then obtain t where "t \<in> set ts" "x \<in> set (used t)" by (auto simp: pool_used_def)
  then show ?thesis using a(1) used_in_span [of t x] by (auto simp: pool_wf_def)
qed

lemma used_distinct: "buddy_wf t \<Longrightarrow> distinct (used t)"
proof -
  assume wf: "buddy_wf t"
  have "sorted_wrt (\<lambda>x y. x \<noteq> y) (used t)"
  proof (rule sorted_wrt_mono_rel)
    show "sorted_wrt (\<lambda>x y. block x \<inter> block y = {}) (used t)" using used_blocks_disjoint [OF wf] by blast
    show "x \<noteq> y" if "x \<in> set (used t)" "block x \<inter> block y = {}" for x y
      using used_blocks_disjoint [OF wf] that
      by (auto simp: list_all_iff block_def PAGE_SIZE_def split: prod.splits)
  qed
  then show ?thesis by (simp add: distinct_conv_nth sorted_wrt_iff_nth_less) (metis linorder_neqE_nat)
qed

lemma pool_used_distinct: "pool_wf ts \<Longrightarrow> distinct (pool_used ts)"
proof (induction ts)
  case Nil
  then show ?case by (simp add: pool_used_def)
next
  case (Cons t ts)
  have "x \<notin> set (pool_used ts)" if "x \<in> set (used t)" for x
  proof
    assume "x \<in> set (pool_used ts)"
    then obtain s where "s \<in> set ts" "block x \<subseteq> span s" using pool_used_span Cons.prems by (metis pool_wf_Cons)
    moreover have "block x \<subseteq> span t" using used_in_span that Cons.prems by simp
    moreover have "fst x \<in> block x"
      using used_blocks_disjoint [of t] that Cons.prems by (auto simp: list_all_iff block_def PAGE_SIZE_def)
    ultimately show False using Cons.prems by (metis disjoint_iff pool_wf_Cons subsetD)
  qed
  then show ?case using Cons used_distinct [of t] by (auto simp: pool_used_def)
qed

section \<open>Adding runs\<close>

lemma pool_nodes_acc: "pool_nodes frs n = pool_nodes frs 0 + n"
proof (induction frs arbitrary: n rule: less_induct)
  case (less frs)
  show ?case
  proof (cases "0 < frs")
    case True
    let ?p = "prev_power_of_two frs"
    have "frs - ?p < frs" using piece_smaller [OF True] by simp
    then have "pool_nodes (frs - ?p) (n + (2 * ?p - 1)) = pool_nodes (frs - ?p) (0 + (2 * ?p - 1)) + n"
      using less.IH [of "frs - ?p" "n + (2 * ?p - 1)"] less.IH [of "frs - ?p" "0 + (2 * ?p - 1)"] by linarith
    then show ?thesis using True by (simp only: pool_nodes.simps [of frs] Let_def if_True)
  next
    case False
    then show ?thesis by (simp add: pool_nodes.simps)
  qed
qed

lemma prev_power_of_two_idem: "0 < n \<Longrightarrow> prev_power_of_two (prev_power_of_two n) = prev_power_of_two n"
  by (simp add: prev_power_of_two_def)

text \<open>One piece of the decomposition is a tree over exactly that piece.\<close>

lemma buddy_new_piece:
  assumes "is_page_aligned start" "0 < n" "n < 2 ^ 32" "reserve (2 * prev_power_of_two n - 1)"
  shows "\<exists>t. buddy_new reserve start (prev_power_of_two n * PAGE_SIZE) = Inr t \<and> buddy_wf t \<and> used t = []
           \<and> base t = start \<and> frames t = prev_power_of_two n
           \<and> length (longest t) = 2 * prev_power_of_two n - 1"
proof -
  let ?p = "prev_power_of_two n"
  note p = piece_smaller [OF assms(2)]
  have d: "?p * PAGE_SIZE div PAGE_SIZE = ?p" by (simp add: PAGE_SIZE_def)
  have i: "prev_power_of_two ?p = ?p" using assms(2) by (rule prev_power_of_two_idem)
  obtain t where t: "buddy_new reserve start (?p * PAGE_SIZE) = Inr t" "buddy_wf t" "used t = []" "base t = start"
    using buddy_new_spec [of start "?p * PAGE_SIZE" reserve] assms p d i by (auto simp: PAGE_SIZE_def)
  moreover have "frames t = ?p" using t(1) assms(1,4) p d i by (auto simp: buddy_new_def Let_def split: if_splits)
  ultimately show ?thesis using buddy_wfD(8) [OF t(2)] by auto
qed

lemma pool_add_loop_spec:
  assumes "\<And>ts m. pool_tree_nodes ts + m \<le> cap \<Longrightarrow> reserve ts m" "\<And>ts. grow ts"
    and "is_page_aligned (start + offset)" "n < 2 ^ 32" "pool_tree_nodes trees + pool_nodes n 0 \<le> cap"
  shows "\<exists>new. pool_add_loop reserve grow trees start offset n added = (Inr (added + n), trees @ new)
           \<and> pool_wf new \<and> pool_used new = [] \<and> pool_frames new = n
           \<and> (\<forall>t\<in>set new. span t \<subseteq> {start + offset..<start + offset + n * PAGE_SIZE})
           \<and> pool_tree_nodes new = pool_nodes n 0"
  using assms(3-5)
proof (induction n arbitrary: offset trees added rule: less_induct)
  case (less n)
  show ?case
  proof (cases "0 < n")
    case False
    then show ?thesis
      by (simp add: pool_add_loop.simps pool_nodes.simps pool_used_def pool_frames_def pool_tree_nodes_def)
  next
    case True
    let ?p = "prev_power_of_two n"
    note p = piece_smaller [OF True]
    have nodes: "pool_nodes n 0 = 2 * ?p - 1 + pool_nodes (n - ?p) 0"
      using True pool_nodes_acc [of "n - ?p" "2 * ?p - 1"] by (simp add: pool_nodes.simps [of n] Let_def)
    then have "reserve trees (2 * ?p - 1)" using less.prems(3) by (intro assms(1)) simp
    then obtain t where t: "buddy_new (reserve trees) (start + offset) (?p * PAGE_SIZE) = Inr t" "buddy_wf t"
        "used t = []" "base t = start + offset" "frames t = ?p" "length (longest t) = 2 * ?p - 1"
      using buddy_new_piece [of "start + offset" n "reserve trees"] less.prems True by blast
    have al: "is_page_aligned (start + (offset + ?p * PAGE_SIZE))"
      using less.prems(1) by (simp add: is_page_aligned_def flip: add.assoc)
    have sm: "n - ?p < n" "n - ?p < 2 ^ 32" using p True less.prems(2) by linarith+
    have "pool_tree_nodes (trees @ [t]) + pool_nodes (n - ?p) 0 \<le> cap"
      using less.prems(3) nodes t(6) by (simp add: pool_tree_nodes_def)
    then obtain new where new: "pool_add_loop reserve grow (trees @ [t]) start (offset + ?p * PAGE_SIZE) (n - ?p) (added + ?p)
          = (Inr (added + ?p + (n - ?p)), (trees @ [t]) @ new)"
        "pool_wf new" "pool_used new = []" "pool_frames new = n - ?p"
        "\<forall>u\<in>set new. span u \<subseteq> {start + (offset + ?p * PAGE_SIZE)..<start + (offset + ?p * PAGE_SIZE) + (n - ?p) * PAGE_SIZE}"
        "pool_tree_nodes new = pool_nodes (n - ?p) 0"
      using less.IH [OF sm(1) al sm(2)] by blast
    have "pool_add_loop reserve grow trees start offset n added = (Inr (added + n), trees @ t # new)"
      using True t(1) assms(2) new(1) p by (subst pool_add_loop.simps) (simp add: Let_def)
    moreover have st: "span t = {start + offset..<start + offset + ?p * PAGE_SIZE}"
      using t(4,5) by (simp add: span_def)
    moreover have "?p * PAGE_SIZE + (n - ?p) * PAGE_SIZE = n * PAGE_SIZE"
      using p by (metis add_mult_distrib le_add_diff_inverse)
    moreover have "pool_tree_nodes (t # new) = pool_nodes n 0"
      using nodes t(6) new(6) by (simp add: pool_tree_nodes_def)
    ultimately show ?thesis using new(2-5) t(2,3,5) p
      by (intro exI [of _ "t # new"]) (fastforce simp: pool_used_def pool_frames_def)
  qed
qed

text \<open>Adding an aligned run of fewer than \<open>2 ^ 32\<close> frames, on a heap of \<open>cap\<close> tree nodes with
  room for the \<open>metadata_bytes\<close> computed beforehand, takes every whole frame of it under
  management; the pool stays well formed if the run was not already managed, nothing of the
  run is in use, and the trees added take exactly \<open>metadata_bytes\<close>.\<close>

theorem pool_add_correct:
  assumes "\<And>ts m. pool_tree_nodes ts + m \<le> cap \<Longrightarrow> reserve ts m" "\<And>ts. grow ts"
    and "is_page_aligned start" "len div PAGE_SIZE < 2 ^ 32"
    and "4 * pool_tree_nodes trees + pool_metadata_bytes len \<le> 4 * cap"
    and "pool_wf trees" "\<forall>t\<in>set trees. span t \<inter> {start..<start + len} = {}"
  shows "\<exists>new. pool_add reserve grow trees start len = (Inr (len div PAGE_SIZE), trees @ new)
           \<and> pool_wf (trees @ new) \<and> pool_used (trees @ new) = pool_used trees
           \<and> pool_frames (trees @ new) = pool_frames trees + len div PAGE_SIZE
           \<and> pool_metadata_bytes len = 4 * pool_tree_nodes new"
proof -
  let ?n = "len div PAGE_SIZE"
  have "pool_tree_nodes trees + pool_nodes ?n 0 \<le> cap" using assms(5) by (simp add: pool_metadata_bytes_def)
  then obtain new where new: "pool_add_loop reserve grow trees start 0 ?n 0 = (Inr ?n, trees @ new)"
      "pool_wf new" "pool_used new = []" "pool_frames new = ?n"
      "\<forall>t\<in>set new. span t \<subseteq> {start..<start + ?n * PAGE_SIZE}"
      "pool_tree_nodes new = pool_nodes ?n 0"
    using pool_add_loop_spec [of cap reserve grow start 0 ?n trees 0] assms(1-4) by auto
  have "?n * PAGE_SIZE \<le> len" by simp
  then have "{start..<start + ?n * PAGE_SIZE} \<subseteq> {start..<start + len}" by auto
  then have "\<forall>t\<in>set trees. \<forall>u\<in>set new. span t \<inter> span u = {}" using new(5) assms(7) by blast
  then show ?thesis using new assms(3,6)
    by (auto simp: pool_add_def pool_wf_append pool_used_def pool_frames_def pool_metadata_bytes_def)
qed

theorem pool_add_correct_witness:
  "\<exists>new. pool_add (\<lambda>ts m. pool_tree_nodes ts + m \<le> 11) (\<lambda>_. True) pool_new 0x200000 (7 * PAGE_SIZE)
       = (Inr 7, pool_new @ new) \<and> pool_wf (pool_new @ new)"
proof -
  have e: "is_page_aligned 0x200000" "7 * PAGE_SIZE div PAGE_SIZE = 7"
    by (simp_all add: is_page_aligned_def PAGE_SIZE_def)
  have "pool_nodes 7 0 = 11"
    by (simp add: pool_nodes.simps prev_power_of_two_def highest_bit.simps)
  then have "pool_metadata_bytes (7 * PAGE_SIZE) = 44" using e(2) by (simp add: pool_metadata_bytes_def)
  with e show ?thesis
    using pool_add_correct [of 11 "\<lambda>ts m. pool_tree_nodes ts + m \<le> 11" "\<lambda>_. True" "0x200000" "7 * PAGE_SIZE" pool_new]
    by (auto simp: pool_new_def pool_tree_nodes_def)
qed

section \<open>Allocation and release\<close>

text \<open>First fit: the trees before the one that answers are asked and left as they are.\<close>

lemma pool_alloc_cases:
  assumes "pool_wf ts"
  shows "(\<exists>us t a t' vs. ts = us @ t # vs \<and> (\<forall>u\<in>set us. alloc_pages u count = Some (None, u))
            \<and> alloc_pages t count = Some (Some a, t')
            \<and> pool_alloc_pages ts count = Some (Some a, us @ t' # vs))
       \<or> (\<forall>u\<in>set ts. alloc_pages u count = Some (None, u)) \<and> pool_alloc_pages ts count = Some (None, ts)"
  using assms
proof (induction ts)
  case Nil
  then show ?case by simp
next
  case (Cons t ts)
  obtain r t' where r: "alloc_pages t count = Some (r, t')" using alloc_total Cons.prems by fastforce
  show ?case
  proof (cases r)
    case None
    then have t: "alloc_pages t count = Some (None, t)" using alloc_failure r Cons.prems by auto
    from Cons.IH Cons.prems consider
        (hit) us s a s' vs where "ts = us @ s # vs" "\<forall>u\<in>set us. alloc_pages u count = Some (None, u)"
          "alloc_pages s count = Some (Some a, s')" "pool_alloc_pages ts count = Some (Some a, us @ s' # vs)"
      | (miss) "\<forall>u\<in>set ts. alloc_pages u count = Some (None, u)" "pool_alloc_pages ts count = Some (None, ts)"
      by auto
    then show ?thesis
    proof cases
      case hit
      then show ?thesis using t by (intro disjI1 exI [of _ "t # us"]) auto
    next
      case miss
      then show ?thesis using t by simp
    qed
  next
    case (Some a)
    then show ?thesis using r by (intro disjI1 exI [of _ "[]"]) auto
  qed
qed

lemma alloc_keeps_span:
  assumes "buddy_wf t" "alloc_pages t count = Some (r, t')"
  shows "buddy_wf t' \<and> span t' = span t"
  using alloc_total [OF assms(1), of count] assms(2) by (simp add: span_def)

lemma pool_wf_replace:
  "pool_wf (us @ t # vs) \<Longrightarrow> buddy_wf t' \<Longrightarrow> span t' = span t \<Longrightarrow> pool_wf (us @ t' # vs)"
  by (auto simp: pool_wf_append)

lemma pool_alloc_success:
  assumes wf: "pool_wf ts" and a: "pool_alloc_pages ts count = Some (Some a, ts')"
    and n: "n = next_power_of_two (max count 1)"
  shows "pool_wf ts' \<and> (\<exists>xs ys. pool_used ts = xs @ ys \<and> pool_used ts' = xs @ (a, n) # ys)
       \<and> (\<forall>x\<in>set (pool_used ts). block x \<inter> block (a, n) = {})
       \<and> (\<exists>t\<in>set ts. n * PAGE_SIZE dvd a - base t \<and> base t \<le> a \<and> block (a, n) \<subseteq> span t)"
proof -
  from pool_alloc_cases [OF wf, of count] a obtain us t t' vs where
    s: "ts = us @ t # vs" "alloc_pages t count = Some (Some a, t')" "ts' = us @ t' # vs" by auto
  have t: "buddy_wf t" using wf s(1) by (simp add: pool_wf_append)
  obtain xs ys where u: "used t = xs @ ys" "used t' = xs @ (a, n) # ys"
      "\<forall>x\<in>set (used t). block x \<inter> block (a, n) = {}" "base t \<le> a"
      "a + n * PAGE_SIZE \<le> base t + frames t * PAGE_SIZE" "n * PAGE_SIZE dvd a - base t"
    using alloc_success [OF t s(2) n] by blast
  have in_t: "block (a, n) \<subseteq> span t" using u(4,5) by (auto simp: block_def span_def)
  have "block x \<inter> block (a, n) = {}" if "x \<in> set (used v)" "v \<in> set us \<union> set vs" for x v
  proof -
    have "buddy_wf v" using wf s(1) that(2) by (auto simp: pool_wf_def)
    moreover have "span v \<inter> span t = {}"
      using wf [unfolded s(1)] that(2) unfolding pool_wf_append pool_wf_Cons by auto
    ultimately have "block x \<subseteq> span v" "span v \<inter> span t = {}" using used_in_span that(1) by auto
    then show ?thesis using in_t by blast
  qed
  then have "\<forall>x\<in>set (pool_used ts). block x \<inter> block (a, n) = {}" using u(3) s(1) by (auto simp: pool_used_def)
  moreover have "pool_wf ts'" using pool_wf_replace wf s alloc_keeps_span [OF t s(2)] by blast
  moreover have "pool_used ts = (pool_used us @ xs) @ (ys @ pool_used vs)"
    "pool_used ts' = (pool_used us @ xs) @ (a, n) # (ys @ pool_used vs)"
    using u(1,2) s by (simp_all add: pool_used_def)
  ultimately show ?thesis using u(4,6) in_t s(1) by (metis in_set_conv_decomp)
qed

lemma pool_alloc_failure:
  assumes wf: "pool_wf ts" and a: "pool_alloc_pages ts count = Some (None, ts')"
    and n: "n = next_power_of_two (max count 1)"
  shows "ts' = ts \<and> (\<forall>t\<in>set ts. \<not> (\<exists>p. n dvd p \<and> p + n \<le> frames t
            \<and> (\<forall>x\<in>set (used t). block (base t + p * PAGE_SIZE, n) \<inter> block x = {})))"
proof -
  have *: "ts' = ts" "\<forall>t\<in>set ts. alloc_pages t count = Some (None, t)"
    using pool_alloc_cases [OF wf, of count] a by auto
  moreover have "buddy_wf t" if "t \<in> set ts" for t using wf that by (simp add: pool_wf_def)
  ultimately show ?thesis using alloc_failure n by meson
qed

lemma pool_alloc_total:
  assumes "pool_wf ts"
  shows "\<exists>r ts'. pool_alloc_pages ts count = Some (r, ts') \<and> pool_wf ts' \<and> (r = None \<longrightarrow> ts' = ts)"
  using pool_alloc_cases [OF assms, of count]
proof (elim disjE exE conjE)
  fix us t a t' vs
  assume "pool_alloc_pages ts count = Some (Some a, us @ t' # vs)"
  then show ?thesis using pool_alloc_success [OF assms _ refl] by blast
qed (use assms in auto)

text \<open>\<open>alloc_pages\<close> of a well-formed pool never indexes out of range. It either returns a
  block inside one tree, aligned to its size there, that overlaps nothing in use in any tree and
  becomes the only new used block, or it changes nothing and no tree has an aligned free run of
  the size.\<close>

theorem pool_alloc_correct:
  assumes "pool_wf ts" "n = next_power_of_two (max count 1)"
  shows "\<exists>r ts'. pool_alloc_pages ts count = Some (r, ts') \<and> pool_wf ts'
           \<and> (case r of
                Some a \<Rightarrow> (\<exists>xs ys. pool_used ts = xs @ ys \<and> pool_used ts' = xs @ (a, n) # ys)
                  \<and> (\<forall>x\<in>set (pool_used ts). block x \<inter> block (a, n) = {})
                  \<and> (\<exists>t\<in>set ts. n * PAGE_SIZE dvd a - base t \<and> block (a, n) \<subseteq> span t)
              | None \<Rightarrow> ts' = ts \<and> (\<forall>t\<in>set ts. \<not> (\<exists>p. n dvd p \<and> p + n \<le> frames t
                  \<and> (\<forall>x\<in>set (used t). block (base t + p * PAGE_SIZE, n) \<inter> block x = {}))))"
proof -
  obtain r ts' where r: "pool_alloc_pages ts count = Some (r, ts')" "pool_wf ts'"
    using pool_alloc_total [OF assms(1)] by blast
  show ?thesis
  proof (cases r)
    case None
    then show ?thesis using r pool_alloc_failure [OF assms(1) _ assms(2)]
      by (intro exI [of _ r] exI [of _ ts']) auto
  next
    case (Some a)
    then show ?thesis using r pool_alloc_success [OF assms(1) _ assms(2)]
      by (intro exI [of _ r] exI [of _ ts']) (simp, blast)
  qed
qed

theorem pool_alloc_correct_witness:
  "\<exists>r ts'. pool_alloc_pages [demo] 1 = Some (r, ts') \<and> pool_wf ts'"
  using pool_alloc_correct [of "[demo]" "next_power_of_two (max 1 1)" 1] demo_wf(1) by auto

text \<open>A release goes to the tree whose range holds the address.\<close>

lemma pool_free_routes:
  "pool_free_pages (us @ t # vs) f = us @ free_pages t f # vs"
  if "pool_wf (us @ t # vs)" "f \<in> span t"
  using that by (induction us) (auto simp: contains_span pool_wf_append)

lemma pool_free_foreign: "(\<forall>t\<in>set ts. f \<notin> span t) \<Longrightarrow> pool_free_pages ts f = ts"
  by (induction ts) (auto simp: contains_span)

lemma pool_free_spec:
  assumes wf: "pool_wf ts"
  shows "pool_wf (pool_free_pages ts f)
       \<and> (if \<exists>x\<in>set (pool_used ts). f \<in> block x
          then \<exists>xs x ys. pool_used ts = xs @ x # ys \<and> pool_used (pool_free_pages ts f) = xs @ ys \<and> f \<in> block x
          else pool_free_pages ts f = ts)"
proof (cases "\<exists>t\<in>set ts. f \<in> span t")
  case False
  then have "f \<notin> block x" if "x \<in> set (pool_used ts)" for x using pool_used_span [OF wf that] by blast
  then show ?thesis using False wf pool_free_foreign [of ts f] by auto
next
  case True
  then obtain us t vs where ts: "ts = us @ t # vs" "f \<in> span t" by (metis in_set_conv_decomp)
  have t: "buddy_wf t" using wf ts(1) by (simp add: pool_wf_append)
  define t' where "t' = free_pages t f"
  have e: "pool_free_pages ts f = us @ t' # vs" using pool_free_routes [of us t vs f] wf ts by (simp add: t'_def)
  note F = free_pages_spec [OF t, of f]
  have "span t' = span t" using F by (simp add: span_def t'_def)
  then have wf': "pool_wf (us @ t' # vs)" using pool_wf_replace wf ts(1) F by (auto simp: t'_def)
  have loc: "x \<in> set (used t)" if x: "x \<in> set (pool_used ts)" "f \<in> block x" for x
  proof -
    obtain s where s: "s \<in> set ts" "x \<in> set (used s)" "f \<in> span s" using pool_used_span [OF wf x(1)] x(2) by blast
    then have "s = t" using wf [unfolded ts(1)] ts by (auto simp: pool_wf_append)
    with s show ?thesis by simp
  qed
  show ?thesis
  proof (cases "\<exists>x\<in>set (used t). f \<in> block x")
    case True
    then obtain xs x ys where u: "used t = xs @ x # ys" "used t' = xs @ ys" "f \<in> block x"
      using F by (auto simp: t'_def)
    then have "pool_used ts = (pool_used us @ xs) @ x # (ys @ pool_used vs)"
      "pool_used (us @ t' # vs) = (pool_used us @ xs) @ (ys @ pool_used vs)"
      using ts(1) by (simp_all add: pool_used_def)
    then show ?thesis using wf' u(3) unfolding e by (metis in_set_conv_decomp)
  next
    case False
    then have "t' = t" using F by (auto simp: t'_def)
    then show ?thesis using False loc wf e ts(1) by auto
  qed
qed

text \<open>Releasing an address of a used block of the pool removes exactly that block; an address in
  no used block changes nothing, whichever tree its range belongs to.\<close>

theorem pool_free_correct:
  assumes "pool_wf ts"
  shows "pool_wf (pool_free_pages ts f)
       \<and> (if \<exists>x\<in>set (pool_used ts). f \<in> block x
          then \<exists>xs x ys. pool_used ts = xs @ x # ys \<and> pool_used (pool_free_pages ts f) = xs @ ys \<and> f \<in> block x
          else pool_free_pages ts f = ts)"
  using assms by (rule pool_free_spec)

theorem pool_free_correct_witness: "pool_wf [demo] \<and> pool_wf (pool_free_pages [demo] 0x40000000)"
  using pool_free_correct [of "[demo]" "0x40000000"] demo_wf(1) by simp

lemma leak_spec: "buddy_wf b \<Longrightarrow> largest_free_run b \<le> frames b \<and> (largest_free_run b = frames b \<longleftrightarrow> used b = [])"
  using buddy_wfD [of b] tree_val_full [OF buddy_wfD(5)] tree_val_le [OF buddy_wfD(5)] used_Nil_iff [OF buddy_wfD(5)]
  by (simp add: largest_free_run_def used_def)

text \<open>\<open>coalesced_frames\<close> equals \<open>frames\<close> exactly when no block of any tree is in use.\<close>

theorem coalesced_frames_detects_leaks:
  assumes "pool_wf ts"
  shows "coalesced_frames ts = pool_frames ts \<longleftrightarrow> pool_used ts = []"
proof -
  have "coalesced_frames ts \<le> pool_frames ts \<and> (coalesced_frames ts = pool_frames ts \<longleftrightarrow> pool_used ts = [])"
    using assms
  proof (induction ts)
    case Nil
    then show ?case by (simp add: coalesced_frames_def pool_frames_def pool_used_def)
  next
    case (Cons t ts)
    then have "coalesced_frames ts \<le> pool_frames ts" "coalesced_frames ts = pool_frames ts \<longleftrightarrow> pool_used ts = []"
      "largest_free_run t \<le> frames t" "largest_free_run t = frames t \<longleftrightarrow> used t = []"
      using leak_spec [of t] by auto
    then show ?case by (auto simp: coalesced_frames_def pool_frames_def pool_used_def)
  qed
  then show ?thesis by blast
qed

theorem coalesced_frames_detects_leaks_witness:
  "pool_wf [demo] \<and> (coalesced_frames [demo] = pool_frames [demo] \<longleftrightarrow> pool_used [demo] = [])"
  using coalesced_frames_detects_leaks [of "[demo]"] demo_wf(1) by simp

section \<open>The pool provides the frame interface\<close>

definition pool_out :: "frame_pool \<Rightarrow> nat set" where
  "pool_out ts = (\<Union>x\<in>set (pool_used ts). block x)"

lemma pool_allocate_spec:
  assumes "pool_wf ts" "pool_allocate ts = Some (Some a, ts')"
  shows "is_page_aligned a \<and> page a \<inter> pool_out ts = {} \<and> pool_out ts' = pool_out ts \<union> page a"
proof -
  have e: "1 = next_power_of_two (max 1 1)" by (simp add: next_power_of_two_def)
  obtain xs ys t where s: "pool_used ts = xs @ ys" "pool_used ts' = xs @ (a, Suc 0) # ys"
      "\<forall>x\<in>set (pool_used ts). block x \<inter> page a = {}" "t \<in> set ts" "PAGE_SIZE dvd a - base t" "base t \<le> a"
    using pool_alloc_success [OF assms(1) assms(2) [unfolded pool_allocate_def] e]
    by (auto simp: block_one)
  have "buddy_wf t" using assms(1) s(4) by (simp add: pool_wf_def)
  then have "is_page_aligned (a - base t + base t)"
    using s(5) buddy_wfD(7) [of t] by (auto simp: is_page_aligned_def mod_0_imp_dvd)
  with s show ?thesis by (auto simp: pool_out_def block_one)
qed

interpretation pool: frame_allocator pool_wf pool_allocate pool_out
proof
  show "\<exists>r ts'. pool_allocate ts = Some (r, ts') \<and> pool_wf ts'" if "pool_wf ts" for ts
    using pool_alloc_total [OF that, of 1] by (auto simp: pool_allocate_def)
  show "ts' = ts" if "pool_wf ts" "pool_allocate ts = Some (None, ts')" for ts ts'
    using pool_alloc_total [OF that(1), of 1] that(2) by (auto simp: pool_allocate_def)
qed (use pool_allocate_spec in blast)+

text \<open>Any number of single-frame allocations from a well-formed pool yields page-aligned frames
  that overlap neither each other nor memory already in use, across all its trees.\<close>

theorem pool_frames_distinct:
  assumes "pool_wf ts"
  shows "\<exists>frs ts'. alloc_many pool_allocate n ts = Some (frs, ts') \<and> pool_wf ts'
           \<and> sorted_wrt (\<lambda>x y. page x \<inter> page y = {}) frs
           \<and> (\<forall>a\<in>set frs. is_page_aligned a \<and> page a \<inter> pool_out ts = {})
           \<and> pool_out ts' = pool_out ts \<union> (\<Union>a\<in>set frs. page a)
           \<and> (length frs < n \<longrightarrow> pool_allocate ts' = Some (None, ts'))"
  using pool.alloc_many_spec [OF assms, of n] by blast

theorem pool_frames_distinct_witness:
  "\<exists>frs ts'. alloc_many pool_allocate 3 [demo] = Some (frs, ts') \<and> pool_wf ts'
     \<and> sorted_wrt (\<lambda>x y. page x \<inter> page y = {}) frs"
proof -
  have "pool_wf [demo]" using demo_wf(1) by simp
  from pool_frames_distinct [OF this, of 3] show ?thesis by blast
qed

end
