(* ===== verification/SharedMem.thy ===== *)
theory SharedMem
  imports FramePool
begin

text \<open>
  \<^verbatim>\<open>crates/kernel/src/shm.rs\<close>: the frames behind shared-memory objects. The state is the
  table of runs, the frame pool and the bytes of physical memory; the two fallible
  reservations on the kernel heap are arguments. A panic of the allocator is \<open>None\<close>.
\<close>

section \<open>The source\<close>

record shm =
  runs :: "nat list list"
  pool :: frame_pool
  bytes :: "nat \<Rightarrow> u8"

definition zero_page :: "nat \<Rightarrow> (nat \<Rightarrow> u8) \<Rightarrow> nat \<Rightarrow> u8" where
  "zero_page frame m = (\<lambda>a. if frame \<le> a \<and> a < frame + PAGE_SIZE then 0 else m a)"

text \<open>The allocation loop of \<^verbatim>\<open>create\<close>: the frames taken, or nothing after giving them back.\<close>

fun shm_take :: "nat \<Rightarrow> nat list \<Rightarrow> shm \<Rightarrow> (nat list option \<times> shm) option" where
  "shm_take 0 run s = Some (Some run, s)"
| "shm_take (Suc n) run s =
     (case pool_allocate (pool s) of
        None \<Rightarrow> None
      | Some (None, p) \<Rightarrow> Some (None, s\<lparr>pool := foldl pool_free p run\<rparr>)
      | Some (Some frame, p) \<Rightarrow>
          shm_take n (run @ [frame]) (s\<lparr>pool := p, bytes := zero_page frame (bytes s)\<rparr>))"

definition shm_create :: "bool \<Rightarrow> bool \<Rightarrow> nat \<Rightarrow> shm \<Rightarrow> (nat option \<times> shm) option" where
  "shm_create reserve_run reserve_table pages s =
     (if \<not> reserve_run then Some (None, s)
      else case shm_take pages [] s of
             None \<Rightarrow> None
           | Some (None, s') \<Rightarrow> Some (None, s')
           | Some (Some run, s') \<Rightarrow>
               (case position (\<lambda>r. r = []) (runs s') of
                  Some i \<Rightarrow> Some (Some i, s'\<lparr>runs := (runs s')[i := run]\<rparr>)
                | None \<Rightarrow>
                    if \<not> reserve_table then Some (None, s'\<lparr>pool := foldl pool_free (pool s') run\<rparr>)
                    else Some (Some (length (runs s')), s'\<lparr>runs := runs s' @ [run]\<rparr>)))"

definition with_frames :: "shm \<Rightarrow> nat \<Rightarrow> nat list option" where
  "with_frames s i = (case get (runs s) i of None \<Rightarrow> None | Some run \<Rightarrow> if run = [] then None else Some run)"

definition shm_free_with :: "nat \<Rightarrow> shm \<Rightarrow> shm" where
  "shm_free_with i s =
     (case get (runs s) i of
        None \<Rightarrow> s
      | Some run \<Rightarrow> s\<lparr>runs := (runs s)[i := []], pool := foldl pool_free (pool s) run\<rparr>)"

section \<open>Single frames of the pool\<close>

definition owns :: "frame_pool \<Rightarrow> nat \<Rightarrow> bool" where
  "owns p f \<longleftrightarrow> (f, 1) \<in> set (pool_used p)"

lemma pool_blocks_disjoint:
  assumes "pool_wf p" "x \<in> set (pool_used p)" "y \<in> set (pool_used p)" "x \<noteq> y"
  shows "block x \<inter> block y = {}"
proof -
  obtain s t where s: "s \<in> set p" "x \<in> set (used s)" "block x \<subseteq> span s"
    and t: "t \<in> set p" "y \<in> set (used t)" "block y \<subseteq> span t"
    using pool_used_span [OF assms(1)] assms(2,3) by metis
  show ?thesis
  proof (cases "s = t")
    case True
    have "buddy_wf t" using assms(1) t(1) by (simp add: pool_wf_def)
    then have srt: "sorted_wrt (\<lambda>x y. block x \<inter> block y = {}) (used t)" using used_blocks_disjoint by blast
    have "x \<in> set (used t)" using s(2) True by simp
    from sorted_wrt_pairwise [OF srt _ this t(2) assms(4)] show ?thesis by blast
  next
    case False
    have "sorted_wrt (\<lambda>s t. span s \<inter> span t = {}) p" using assms(1) by (simp add: pool_wf_def)
    from sorted_wrt_pairwise [OF this _ s(1) t(1) False] have "span s \<inter> span t = {}" by blast
    then show ?thesis using s(3) t(3) by blast
  qed
qed

lemma pool_allocate_owns:
  assumes "pool_wf p" "pool_allocate p = Some (Some f, p')"
  shows "pool_wf p'" "set (pool_used p') = insert (f, 1) (set (pool_used p))" "\<not> owns p f"
    and "page f \<inter> pool_out p = {}"
proof -
  have e: "1 = next_power_of_two (max 1 1)" by (simp add: next_power_of_two_def)
  note S = pool_alloc_success [OF assms(1) assms(2) [unfolded pool_allocate_def] e]
  show "pool_wf p'" "set (pool_used p') = insert (f, 1) (set (pool_used p))" using S by auto
  show *: "page f \<inter> pool_out p = {}" using pool_allocate_spec [OF assms] by blast
  have "f \<in> page f" by (simp add: page_def PAGE_SIZE_def)
  then have "f \<in> block (f, 1)" by (simp add: block_one)
  with \<open>f \<in> page f\<close> show "\<not> owns p f" using * by (auto simp only: owns_def pool_out_def)
qed

lemma pool_free_owned:
  assumes "pool_wf p" "owns p f"
  shows "pool_wf (pool_free p f)" "set (pool_used (pool_free p f)) = set (pool_used p) - {(f, 1)}"
proof -
  note F = pool_free_spec [OF assms(1), of f]
  have f: "f \<in> block (f, 1)" "(f, 1) \<in> set (pool_used p)"
    using assms(2) by (auto simp: owns_def block_def PAGE_SIZE_def)
  show "pool_wf (pool_free p f)" using F by (simp add: pool_free_def)
  obtain xs x ys where u: "pool_used p = xs @ x # ys" "pool_used (pool_free p f) = xs @ ys" "f \<in> block x"
    using F f unfolding pool_free_def by meson
  have "x = (f, 1)" using pool_blocks_disjoint [OF assms(1), of x "(f, 1)"] u(1,3) f by auto
  moreover have "distinct (pool_used p)" using assms(1) by (rule pool_used_distinct)
  ultimately show "set (pool_used (pool_free p f)) = set (pool_used p) - {(f, 1)}" using u by auto
qed

lemma pool_free_all:
  assumes "pool_wf p" "distinct run" "\<forall>f\<in>set run. owns p f"
  shows "pool_wf (foldl pool_free p run)
       \<and> set (pool_used (foldl pool_free p run)) = set (pool_used p) - (\<lambda>f. (f, 1)) ` set run"
  using assms
proof (induction run arbitrary: p)
  case Nil
  then show ?case by simp
next
  case (Cons f run)
  note F = pool_free_owned [OF Cons.prems(1), of f]
  have "\<forall>g\<in>set run. owns (pool_free p f) g" using Cons.prems F by (auto simp: owns_def)
  then show ?case using Cons.IH [of "pool_free p f"] Cons.prems F by auto
qed

section \<open>The allocation loop\<close>

definition zeroed :: "(nat \<Rightarrow> u8) \<Rightarrow> nat \<Rightarrow> bool" where
  "zeroed m f \<longleftrightarrow> (\<forall>a\<in>page f. m a = 0)"

lemma zero_page_cases: "zero_page f m a = (if a \<in> page f then 0 else m a)"
  by (simp add: zero_page_def page_def)

lemma shm_take_spec:
  assumes "pool_wf (pool s)" "distinct run" "\<forall>f\<in>set run. owns (pool s) f \<and> zeroed (bytes s) f"
    and "set (pool_used (pool s)) = U \<union> (\<lambda>f. (f, 1)) ` set run" "U \<inter> (\<lambda>f. (f, 1)) ` set run = {}"
  shows "\<exists>r s'. shm_take n run s = Some (r, s') \<and> pool_wf (pool s') \<and> runs s' = runs s
           \<and> (\<forall>x\<in>U. \<forall>a\<in>block x. bytes s' a = bytes s a)
           \<and> (case r of
                None \<Rightarrow> set (pool_used (pool s')) = U
              | Some fs \<Rightarrow> length fs = length run + n \<and> distinct fs
                  \<and> (\<forall>f\<in>set fs. owns (pool s') f \<and> zeroed (bytes s') f)
                  \<and> set (pool_used (pool s')) = U \<union> (\<lambda>f. (f, 1)) ` set fs
                  \<and> U \<inter> (\<lambda>f. (f, 1)) ` set fs = {})"
  using assms
proof (induction n arbitrary: run s)
  case 0
  then show ?case by simp
next
  case (Suc n)
  obtain r p where r: "pool_allocate (pool s) = Some (r, p)" "r = None \<longrightarrow> p = pool s"
    using pool_alloc_total [OF Suc.prems(1), of 1] by (auto simp: pool_allocate_def)
  show ?case
  proof (cases r)
    case None
    have "pool_wf (foldl pool_free (pool s) run)"
      "set (pool_used (foldl pool_free (pool s) run)) = U"
      using pool_free_all [OF Suc.prems(1,2)] Suc.prems(3,4,5) by auto
    then show ?thesis using r None by auto
  next
    case (Some f)
    note A = pool_allocate_owns [OF Suc.prems(1) r(1) [unfolded Some]]
    let ?s = "s\<lparr>pool := p, bytes := zero_page f (bytes s)\<rparr>"
    have nin: "f \<notin> set run" "(f, 1) \<notin> set (pool_used (pool s))" using A(3) Suc.prems(3) by (auto simp: owns_def)
    have keep: "zeroed (zero_page f (bytes s)) g" if "zeroed (bytes s) g" for g
      using that by (simp add: zeroed_def zero_page_cases)
    have out: "bytes ?s a = bytes s a" if "x \<in> U" "a \<in> block x" for x a
      using A(4) that Suc.prems(4) by (auto simp: zero_page_cases pool_out_def)
    have "\<exists>r s'. shm_take n (run @ [f]) ?s = Some (r, s') \<and> pool_wf (pool s') \<and> runs s' = runs ?s
           \<and> (\<forall>x\<in>U. \<forall>a\<in>block x. bytes s' a = bytes ?s a)
           \<and> (case r of
                None \<Rightarrow> set (pool_used (pool s')) = U
              | Some fs \<Rightarrow> length fs = length (run @ [f]) + n \<and> distinct fs
                  \<and> (\<forall>f\<in>set fs. owns (pool s') f \<and> zeroed (bytes s') f)
                  \<and> set (pool_used (pool s')) = U \<union> (\<lambda>f. (f, 1)) ` set fs
                  \<and> U \<inter> (\<lambda>f. (f, 1)) ` set fs = {})"
    proof (rule Suc.IH)
      show "pool_wf (pool ?s)" using A(1) by simp
      show "distinct (run @ [f])" using nin Suc.prems(2) by simp
      show "\<forall>g\<in>set (run @ [f]). owns (pool ?s) g \<and> zeroed (bytes ?s) g"
        using Suc.prems(3) A(2) keep by (auto simp: owns_def) (simp add: zeroed_def zero_page_cases)
      show "set (pool_used (pool ?s)) = U \<union> (\<lambda>f. (f, 1)) ` set (run @ [f])" using A(2) Suc.prems(4) by auto
      show "U \<inter> (\<lambda>f. (f, 1)) ` set (run @ [f]) = {}" using nin Suc.prems(4,5) by auto
    qed
    then show ?thesis using r(1) Some out by (auto cong: option.case_cong)
  qed
qed

lemma shm_create_spec:
  assumes wf: "pool_wf (pool s)"
  shows "\<exists>r s'. shm_create rr rt pages s = Some (r, s') \<and> pool_wf (pool s')
           \<and> (\<forall>x\<in>set (pool_used (pool s)). \<forall>a\<in>block x. bytes s' a = bytes s a)
           \<and> (case r of
                None \<Rightarrow> runs s' = runs s \<and> set (pool_used (pool s')) = set (pool_used (pool s))
              | Some i \<Rightarrow> \<exists>fs. get (runs s') i = Some fs \<and> length fs = pages \<and> distinct fs
                  \<and> (\<forall>f\<in>set fs. owns (pool s') f \<and> \<not> owns (pool s) f \<and> zeroed (bytes s') f)
                  \<and> set (pool_used (pool s')) = set (pool_used (pool s)) \<union> (\<lambda>f. (f, 1)) ` set fs
                  \<and> (\<forall>j run. j \<noteq> i \<longrightarrow> get (runs s) j = Some run \<longrightarrow> get (runs s') j = Some run)
                  \<and> (\<forall>run. get (runs s) i = Some run \<longrightarrow> run = []))"
proof (cases rr)
  case False
  then show ?thesis using wf by (simp add: shm_create_def)
next
  case True
  let ?U = "set (pool_used (pool s))"
  obtain r s1 where t: "shm_take pages [] s = Some (r, s1)" "pool_wf (pool s1)" "runs s1 = runs s"
      "\<forall>x\<in>?U. \<forall>a\<in>block x. bytes s1 a = bytes s a"
      "case r of None \<Rightarrow> set (pool_used (pool s1)) = ?U
       | Some fs \<Rightarrow> length fs = pages \<and> distinct fs \<and> (\<forall>f\<in>set fs. owns (pool s1) f \<and> zeroed (bytes s1) f)
           \<and> set (pool_used (pool s1)) = ?U \<union> (\<lambda>f. (f, 1)) ` set fs \<and> ?U \<inter> (\<lambda>f. (f, 1)) ` set fs = {}"
    using shm_take_spec [OF wf, of "[]" ?U pages] by (auto cong: option.case_cong)
  show ?thesis
  proof (cases r)
    case None
    then show ?thesis using True t by (simp add: shm_create_def)
  next
    case (Some fs)
    then have fs: "length fs = pages" "distinct fs" "\<forall>f\<in>set fs. owns (pool s1) f \<and> zeroed (bytes s1) f"
        "set (pool_used (pool s1)) = ?U \<union> (\<lambda>f. (f, 1)) ` set fs" "?U \<inter> (\<lambda>f. (f, 1)) ` set fs = {}"
      using t(5) by auto
    have new: "\<forall>f\<in>set fs. \<not> owns (pool s) f" using fs(5) by (auto simp: owns_def)
    show ?thesis
    proof (cases "position (\<lambda>r. r = []) (runs s1)")
      case None
      have "pool_wf (foldl pool_free (pool s1) fs)" "set (pool_used (foldl pool_free (pool s1) fs)) = ?U"
        using pool_free_all [OF t(2) fs(2)] fs(3,4,5) by auto
      then show ?thesis using True Some t None fs new
        by (cases rt) (auto simp: shm_create_def get_def nth_append)
    next
      case (Some i)
      then show ?thesis using True \<open>r = Some fs\<close> t fs new position_SomeD [OF Some]
        by (auto simp: shm_create_def nth_list_update)
    qed
  qed
qed

text \<open>Creating a shared buffer on a well-formed pool never panics. On success the buffer is the
  requested number of distinct frames, every byte of them zero, none of them in use before; the
  table records it under the returned id and keeps every other buffer; memory in use elsewhere
  keeps its contents. On failure every frame taken is returned: the blocks in use are those
  from before.\<close>

theorem shm_create_correct:
  assumes wf: "pool_wf (pool s)"
  shows "\<exists>r s'. shm_create rr rt pages s = Some (r, s') \<and> pool_wf (pool s')
           \<and> (\<forall>x\<in>set (pool_used (pool s)). \<forall>a\<in>block x. bytes s' a = bytes s a)
           \<and> (case r of
                None \<Rightarrow> runs s' = runs s \<and> set (pool_used (pool s')) = set (pool_used (pool s))
              | Some i \<Rightarrow> \<exists>fs. get (runs s') i = Some fs \<and> length fs = pages \<and> distinct fs
                  \<and> (\<forall>f\<in>set fs. owns (pool s') f \<and> \<not> owns (pool s) f \<and> zeroed (bytes s') f)
                  \<and> set (pool_used (pool s')) = set (pool_used (pool s)) \<union> (\<lambda>f. (f, 1)) ` set fs
                  \<and> (\<forall>j run. j \<noteq> i \<longrightarrow> get (runs s) j = Some run \<longrightarrow> get (runs s') j = Some run)
                  \<and> (\<forall>run. get (runs s) i = Some run \<longrightarrow> run = []))"
  by (rule shm_create_spec [OF wf])

text \<open>The example state of the witness: the four-frame pool and an empty table.\<close>

theorem shm_create_correct_witness:
  "\<exists>r s'. shm_create True True 2 \<lparr>runs = [], pool = [demo], bytes = (\<lambda>_. 7)\<rparr> = Some (r, s')
     \<and> pool_wf (pool s')"
proof -
  have "pool_wf (pool \<lparr>runs = [], pool = [demo], bytes = (\<lambda>_. 7)\<rparr>)" using demo_wf(1) by simp
  from shm_create_correct [OF this, of True True 2] show ?thesis by blast
qed

end
