(* ===== verification/Capability.thy ===== *)
theory Capability
  imports SharedMem
begin

text \<open>
  \<^verbatim>\<open>crates/kernel/src/cap.rs\<close> and \<^verbatim>\<open>obj.rs\<close>: per-task capability tables and the global object
  table with generational revocation. Whether the kernel heap can grow a table is the Boolean
  argument \<open>reserve\<close>; the endpoint table is seen through the result of \<^verbatim>\<open>endpoint_exists\<close>.
\<close>

section \<open>The object table\<close>

datatype object =
    OEndpoint nat
  | ODevice u64
  | ONotification nat
  | OInterrupt u32
  | ODeviceAuthority
  | OSharedMemory nat u32
  | ODmaBuffer u64 u32
  | OScanout

record object_ref =
  ref_index :: u32
  ref_generation :: u32

record slot =
  generation :: u32
  obj :: "object option"

type_synonym object_table = "slot list"

definition obj_create :: "(nat \<Rightarrow> bool) \<Rightarrow> bool \<Rightarrow> object_table \<Rightarrow> object \<Rightarrow> object_ref option \<times> object_table" where
  "obj_create endpoint_exists reserve slots ob =
     (if (case ob of OEndpoint i \<Rightarrow> \<not> endpoint_exists i | _ \<Rightarrow> False) then (None, slots)
      else case position (\<lambda>s. obj s = None) slots of
             Some i \<Rightarrow> (Some \<lparr>ref_index = of_nat i, ref_generation = generation (slots ! i)\<rparr>,
                        slots[i := (slots ! i)\<lparr>obj := Some ob\<rparr>])
           | None \<Rightarrow>
               if \<not> reserve then (None, slots)
               else (Some \<lparr>ref_index = of_nat (length slots), ref_generation = 0\<rparr>,
                     slots @ [\<lparr>generation = 0, obj = Some ob\<rparr>]))"

definition obj_get :: "object_table \<Rightarrow> object_ref \<Rightarrow> object option" where
  "obj_get slots r =
     (case get slots (unat (ref_index r)) of
        None \<Rightarrow> None
      | Some s \<Rightarrow> if generation s = ref_generation r then obj s else None)"

definition obj_revoke :: "object_table \<Rightarrow> object_ref \<Rightarrow> bool \<times> object_table" where
  "obj_revoke slots r =
     (let i = unat (ref_index r)
      in case get slots i of
           None \<Rightarrow> (False, slots)
         | Some s \<Rightarrow>
             if generation s = ref_generation r \<and> obj s \<noteq> None
             then (True, slots[i := s\<lparr>obj := None, generation := generation s + 1\<rparr>])
             else (False, slots))"

text \<open>\<^verbatim>\<open>free_reclaimable\<close>: the sweep of the table under its lock, then the shared runs.\<close>

fun sweep_slots :: "object_table \<Rightarrow> frame_pool \<Rightarrow> nat list \<Rightarrow> object_table \<times> frame_pool \<times> nat list" where
  "sweep_slots [] p shared = ([], p, shared)"
| "sweep_slots (s # ss) p shared =
     (let swept = s\<lparr>obj := None, generation := generation s + 1\<rparr>
      in case obj s of
           Some (OSharedMemory i _) \<Rightarrow>
             (let (ss', p', sh) = sweep_slots ss p (shared @ [i]) in (swept # ss', p', sh))
         | Some (ODmaBuffer phys _) \<Rightarrow>
             (let (ss', p', sh) = sweep_slots ss (pool_free_pages p (unat phys)) shared in (swept # ss', p', sh))
         | _ \<Rightarrow> (let (ss', p', sh) = sweep_slots ss p shared in (s # ss', p', sh)))"

definition free_reclaimable :: "object_table \<Rightarrow> shm \<Rightarrow> object_table \<times> shm" where
  "free_reclaimable slots s =
     (let (slots', p, shared) = sweep_slots slots (pool s) []
      in (slots', foldl (\<lambda>s i. shm_free_with i s) (s\<lparr>pool := p\<rparr>) shared))"

section \<open>Capabilities\<close>

datatype cap =
    CEndpoint (cap_object: object_ref) (may_send: bool) (may_recv: bool)
  | CDevice (cap_object: object_ref)
  | CNotification (cap_object: object_ref)
  | CIrq (cap_object: object_ref)
  | CDeviceAuthority (cap_object: object_ref)
  | CShared (cap_object: object_ref)
  | CDma (cap_object: object_ref)
  | CScanout (cap_object: object_ref)

type_synonym cap_table = "cap option list"

definition empty_caps :: "bool \<Rightarrow> cap_table option" where
  "empty_caps reserve = (if reserve then Some [None] else None)"

definition install :: "bool \<Rightarrow> cap_table \<Rightarrow> cap \<Rightarrow> nat option \<times> cap_table" where
  "install reserve table c =
     (case position (\<lambda>x. x = None) (drop 1 table) of
        Some free \<Rightarrow> (Some (free + 1), table[free + 1 := Some c])
      | None \<Rightarrow> if reserve then (Some (length table), table @ [Some c]) else (None, table))"

text \<open>A table always has its null slot, and the null slot is always empty.\<close>

definition caps_wf :: "cap_table \<Rightarrow> bool" where
  "caps_wf table \<longleftrightarrow> table \<noteq> [] \<and> table ! 0 = None"

lemma empty_caps_wf: "empty_caps r = Some t \<Longrightarrow> caps_wf t"
  by (auto simp: empty_caps_def caps_wf_def split: if_splits)

lemma no_free_handle:
  assumes "position (\<lambda>x. x = None) (drop 1 t) = None" "0 < j" "j < length t"
  shows "t ! j \<noteq> None"
proof -
  have "drop 1 t ! (j - 1) \<in> set (drop 1 t)" using assms by (intro nth_mem) simp
  then have "drop 1 t ! (j - 1) \<noteq> None" using assms(1) by (auto simp: position_None_iff)
  then show ?thesis using assms by simp
qed

lemma install_Some:
  assumes "caps_wf t" "install r t c = (Some h, t')"
  shows "h \<noteq> 0" "h < length t'" "t' ! h = Some c" "caps_wf t'"
    and "\<And>j. j \<noteq> h \<Longrightarrow> get t' j = get t j"
    and "get t h \<in> {None, Some None}" "\<And>j. 0 < j \<Longrightarrow> j < h \<Longrightarrow> t ! j \<noteq> None"
proof -
  show "h \<noteq> 0" "h < length t'" "t' ! h = Some c" "caps_wf t'" "get t h \<in> {None, Some None}"
    and other: "\<And>j. j \<noteq> h \<Longrightarrow> get t' j = get t j"
    using assms
    by (auto simp: install_def caps_wf_def get_def nth_append Suc_less_eq position_Some_iff
        split: option.splits if_splits)
  show "t ! j \<noteq> None" if "0 < j" "j < h" for j
  proof (cases "position (\<lambda>x. x = None) (drop 1 t)")
    case None
    then have "h = length t" using assms(2) by (auto simp: install_def split: if_splits)
    then show ?thesis using no_free_handle [OF None] that by simp
  next
    case (Some i)
    then have "h = i + 1" using assms(2) by (auto simp: install_def)
    moreover from this have "drop 1 t ! (j - 1) \<noteq> None"
      using that by (intro position_SomeD(3) [OF Some]) simp
    ultimately show ?thesis using that position_SomeD(1) [OF Some] by simp
  qed
qed

text \<open>Installing a capability into a table with its null slot puts it at the lowest free
  handle above the null handle, changes no other handle and keeps the null handle empty; it
  fails, leaving the table alone, only when no handle is free and the heap cannot grow it.\<close>

theorem install_correct:
  assumes "caps_wf t"
  shows "case install r t c of
           (Some h, t') \<Rightarrow> h \<noteq> 0 \<and> get t' h = Some (Some c) \<and> get t h \<in> {None, Some None}
             \<and> (\<forall>j. 0 < j \<and> j < h \<longrightarrow> t ! j \<noteq> None) \<and> (\<forall>j. j \<noteq> h \<longrightarrow> get t' j = get t j) \<and> caps_wf t'
         | (None, t') \<Rightarrow> t' = t \<and> \<not> r \<and> (\<forall>j. 0 < j \<and> j < length t \<longrightarrow> t ! j \<noteq> None)"
proof (cases "install r t c")
  case (Pair res t')
  show ?thesis
  proof (cases res)
    case None
    then have p: "position (\<lambda>x. x = None) (drop 1 t) = None" "\<not> r" "t' = t"
      using Pair by (auto simp: install_def split: option.splits if_splits)
    then have "t ! j \<noteq> None" if "0 < j" "j < length t" for j using no_free_handle that by blast
    with p Pair None show ?thesis by auto
  next
    case (Some h)
    then show ?thesis using Pair install_Some [OF assms, of r c h t'] by auto
  qed
qed

theorem install_correct_witness:
  "caps_wf [None, None]
   \<and> (case install False [None, None] (CScanout \<lparr>ref_index = 0, ref_generation = 0\<rparr>) of
        (Some h, t') \<Rightarrow> h = 1 | (None, t') \<Rightarrow> False)"
proof -
  have w: "caps_wf [None, None]" by (simp add: caps_wf_def)
  then show ?thesis
    using install_correct [OF w, of False "CScanout \<lparr>ref_index = 0, ref_generation = 0\<rparr>"]
    by (simp add: install_def)
qed

section \<open>Creation and revocation\<close>

lemma obj_get_Some_iff:
  "obj_get slots r = Some ob \<longleftrightarrow>
     (\<exists>s. get slots (unat (ref_index r)) = Some s \<and> generation s = ref_generation r \<and> obj s = Some ob)"
  by (auto simp: obj_get_def split: option.splits if_splits)

lemma unat_index: "i < 2 ^ 32 \<Longrightarrow> unat (of_nat i :: u32) = i"
  by (simp add: unat_of_nat)

lemma ref_eqI: "unat (ref_index r) = unat (ref_index q) \<Longrightarrow> ref_generation r = ref_generation q \<Longrightarrow> r = (q :: object_ref)"
  by (cases r; cases q) (auto simp: word_unat_eq_iff)

text \<open>A created object is what its reference resolves to, and every other reference resolves
  to exactly what it did before: no stale reference starts answering for the new object.\<close>

theorem obj_create_correct:
  assumes "obj_create ee rs slots ob = (Some r, slots')" "length slots < 2 ^ 32"
  shows "obj_get slots r = None \<and> obj_get slots' r = Some ob \<and> (\<forall>q. q \<noteq> r \<longrightarrow> obj_get slots' q = obj_get slots q)"
proof -
  consider (reuse) i where "position (\<lambda>s. obj s = None) slots = Some i"
      "r = \<lparr>ref_index = of_nat i, ref_generation = generation (slots ! i)\<rparr>"
      "slots' = slots[i := (slots ! i)\<lparr>obj := Some ob\<rparr>]"
    | (grow) "r = \<lparr>ref_index = of_nat (length slots), ref_generation = 0\<rparr>"
      "slots' = slots @ [\<lparr>generation = 0, obj = Some ob\<rparr>]"
    using assms(1) by (auto simp: obj_create_def split: option.splits if_splits)
  then show ?thesis
  proof cases
    case reuse
    note i = position_SomeD(1,2) [OF reuse(1)]
    then have u: "unat (ref_index r) = i" using reuse(2) assms(2) by (simp add: unat_index)
    have "obj_get slots' q = obj_get slots q" if "q \<noteq> r" for q
    proof (cases "unat (ref_index q) = i")
      case True
      then have "ref_generation q \<noteq> generation (slots ! i)" using that u ref_eqI [of q r] reuse(2) by auto
      then show ?thesis using True i reuse(3) by (simp add: obj_get_def get_def)
    next
      case False
      then show ?thesis using reuse(3) by (simp add: obj_get_def get_def)
    qed
    then show ?thesis using u i reuse by (auto simp: obj_get_def get_def)
  next
    case grow
    then have u: "unat (ref_index r) = length slots" using assms(2) by (simp add: unat_index)
    have "obj_get slots' q = obj_get slots q" if "q \<noteq> r" for q
      using that u grow ref_eqI [of q r] by (auto simp: obj_get_def get_def nth_append less_Suc_eq)
    then show ?thesis using u grow by (auto simp: obj_get_def get_def)
  qed
qed

theorem obj_create_correct_witness:
  "obj_get [\<lparr>generation = 3, obj = Some OScanout\<rparr>] \<lparr>ref_index = 0, ref_generation = 2\<rparr> = None"
proof -
  have c: "obj_create (\<lambda>_. False) True [\<lparr>generation = 3, obj = None\<rparr>] OScanout
      = (Some \<lparr>ref_index = 0, ref_generation = 3\<rparr>, [\<lparr>generation = 3, obj = Some OScanout\<rparr>])"
    by (simp add: obj_create_def)
  show ?thesis
    using obj_create_correct [OF c] by (auto simp: obj_get_def get_def)
qed

text \<open>Revoking a live reference makes it, and every copy of it, resolve to nothing, and leaves
  every other reference alone; revoking one that does not resolve changes nothing.\<close>

theorem obj_revoke_correct:
  "case obj_revoke slots r of (live, slots') \<Rightarrow>
     (live \<longleftrightarrow> obj_get slots r \<noteq> None)
     \<and> (if live then obj_get slots' r = None \<and> (\<forall>q. ref_index q \<noteq> ref_index r \<longrightarrow> obj_get slots' q = obj_get slots q)
          \<and> (\<forall>q. obj_get slots' q \<noteq> None \<longrightarrow> obj_get slots q = obj_get slots' q)
        else slots' = slots)"
proof -
  let ?i = "unat (ref_index r)"
  show ?thesis
  proof (cases "obj_get slots r")
    case None
    then have "obj_revoke slots r = (False, slots)"
      by (auto simp: obj_revoke_def obj_get_def Let_def split: option.splits if_splits)
    then show ?thesis using None by simp
  next
    case (Some ob)
    let ?s = "slots ! ?i"
    let ?t = "slots[?i := ?s\<lparr>obj := None, generation := generation ?s + 1\<rparr>]"
    have "obj_revoke slots r = (True, ?t)"
      using Some by (auto simp: obj_revoke_def obj_get_Some_iff get_def Let_def split: if_splits)
    moreover have "obj_get ?t q = (if unat (ref_index q) = ?i then None else obj_get slots q)" for q
      using Some by (auto simp: obj_get_Some_iff get_def) (auto simp: obj_get_def get_def)
    ultimately show ?thesis using Some by (auto simp: word_unat_eq_iff)
  qed
qed

theorem obj_revoke_correct_witness:
  "let slots = [\<lparr>generation = 5, obj = Some OScanout\<rparr>, \<lparr>generation = 0, obj = Some (ODevice 0x9000000)\<rparr>];
       r = \<lparr>ref_index = 0, ref_generation = 5\<rparr>; q = \<lparr>ref_index = 1, ref_generation = 0\<rparr>
   in fst (obj_revoke slots r) \<and> obj_get (snd (obj_revoke slots r)) r = None
      \<and> obj_get (snd (obj_revoke slots r)) q = Some (ODevice 0x9000000)"
  using obj_revoke_correct [of "[\<lparr>generation = 5, obj = Some OScanout\<rparr>, \<lparr>generation = 0, obj = Some (ODevice 0x9000000)\<rparr>]"
      "\<lparr>ref_index = 0, ref_generation = 5\<rparr>"]
  by (simp add: obj_get_def get_def obj_revoke_def)

text \<open>The table over time: each operation is one step.\<close>

inductive obj_step :: "object_table \<Rightarrow> object_table \<Rightarrow> bool" where
  step_create: "obj_step slots (snd (obj_create ee rs slots ob))"
| step_revoke: "obj_step slots (snd (obj_revoke slots r))"
| step_sweep: "obj_step slots (fst (free_reclaimable slots s))"

inductive obj_steps :: "nat \<Rightarrow> object_table \<Rightarrow> object_table \<Rightarrow> bool" where
  steps_0: "obj_steps 0 slots slots"
| steps_Suc: "obj_steps n slots slots' \<Longrightarrow> obj_step slots' slots'' \<Longrightarrow> obj_steps (Suc n) slots slots''"

definition ages :: "slot \<Rightarrow> slot \<Rightarrow> bool" where
  "ages s s' \<longleftrightarrow> generation s' = generation s \<or> generation s' = generation s + 1"

lemma sweep_ages: "list_all2 ages slots (fst (sweep_slots slots p sh))"
  by (induction slots arbitrary: p sh)
    (auto simp: ages_def Let_def case_prod_beta split: option.splits object.splits)

lemma ages_refl [simp]: "ages s s"
  by (simp add: ages_def)

lemma ages_update: "ages (xs ! j) v \<Longrightarrow> ages (xs ! i) (xs[j := v] ! i)"
  by (cases "j < length xs"; cases "i = j") (simp_all add: list_update_beyond)

lemma obj_step_ages:
  assumes "obj_step slots slots'" "i < length slots"
  shows "i < length slots' \<and> ages (slots ! i) (slots' ! i)"
  using assms(1)
proof (cases rule: obj_step.cases)
  case step_create
  then show ?thesis using assms(2)
    by (auto simp: obj_create_def nth_append split: option.split intro!: ages_update) (simp_all add: ages_def)
next
  case step_revoke
  then show ?thesis using assms(2)
    by (auto simp: obj_revoke_def Let_def split: option.split intro!: ages_update) (simp_all add: ages_def)
next
  case step_sweep
  then have "list_all2 ages slots slots'"
    using sweep_ages by (simp add: free_reclaimable_def case_prod_beta Let_def)
  then show ?thesis using assms(2) by (auto simp: list_all2_conv_all_nth)
qed

lemma obj_steps_ages:
  "obj_steps n slots slots' \<Longrightarrow> i < length slots \<Longrightarrow>
     i < length slots' \<and> (\<exists>k\<le>n. generation (slots' ! i) = generation (slots ! i) + of_nat k)"
proof (induction rule: obj_steps.induct)
  case (steps_0 slots)
  then show ?case by auto
next
  case (steps_Suc n slots slots' slots'')
  then obtain k where k: "i < length slots'" "k \<le> n" "generation (slots' ! i) = generation (slots ! i) + of_nat k" by auto
  have "i < length slots''" "ages (slots' ! i) (slots'' ! i)" using obj_step_ages [OF steps_Suc(2) k(1)] by auto
  then show ?case using k by (auto simp: ages_def intro: exI [of _ k] exI [of _ "Suc k"])
qed

lemma revoked_dead:
  assumes "obj_revoke slots r = (True, slots')" "obj_steps n slots' slots''" "n < 2 ^ 32 - 1"
  shows "obj_get slots'' r = None"
proof -
  let ?i = "unat (ref_index r)"
  have i: "?i < length slots'" "generation (slots' ! ?i) = ref_generation r + 1"
    using assms(1) by (auto simp: obj_revoke_def Let_def split: option.splits if_splits)
  obtain k where k: "?i < length slots''" "k \<le> n" "generation (slots'' ! ?i) = ref_generation r + of_nat (Suc k)"
    using obj_steps_ages [OF assms(2) i(1)] i(2) by (auto simp: algebra_simps)
  have "of_nat (Suc k) \<noteq> (0 :: u32)"
    using k(2) assms(3) by (simp add: word_unat_eq_iff unat_of_nat del: of_nat_Suc)
  then show ?thesis using k by (simp add: obj_get_def get_def)
qed

text \<open>Once revoked, a reference resolves to nothing through any number of later creations,
  revocations and sweeps below \<open>2 ^ 32 - 1\<close>, the point where the generation could come round.\<close>

theorem revoked_stays_dead:
  assumes "obj_revoke slots r = (True, slots')" "obj_steps n slots' slots''" "n < 2 ^ 32 - 1"
  shows "obj_get slots'' r = None"
  by (rule revoked_dead [OF assms])

theorem revoked_stays_dead_witness:
  "obj_get [\<lparr>generation = 1, obj = Some OScanout\<rparr>] \<lparr>ref_index = 0, ref_generation = 0\<rparr> = None"
proof -
  let ?r = "\<lparr>ref_index = 0, ref_generation = 0\<rparr>"
  have r: "obj_revoke [\<lparr>generation = 0, obj = Some OScanout\<rparr>] ?r = (True, [\<lparr>generation = 1, obj = None\<rparr>])"
    by (simp add: obj_revoke_def get_def)
  have "obj_step [\<lparr>generation = 1, obj = None\<rparr>] [\<lparr>generation = 1, obj = Some OScanout\<rparr>]"
    using step_create [of "[\<lparr>generation = 1, obj = None\<rparr>]" "\<lambda>_. False" False OScanout] by (simp add: obj_create_def)
  then have "obj_steps (Suc 0) [\<lparr>generation = 1, obj = None\<rparr>] [\<lparr>generation = 1, obj = Some OScanout\<rparr>]"
    by (rule steps_Suc [OF steps_0])
  from revoked_stays_dead [OF r this] show ?thesis by simp
qed

end
