(* ===== verification/Endpoint.thy ===== *)
theory Endpoint
  imports Capability
begin

text \<open>
  \<^verbatim>\<open>crates/kernel/src/ipc.rs\<close>: endpoints, their bounded ring and their two wait queues, held in
  fixed arrays, and the endpoint table. \<open>send_decide\<close> and \<open>recv_decide\<close> are the critical
  sections of \<^verbatim>\<open>send_inner\<close> and \<^verbatim>\<open>recv_until\<close>, everything those do under the table's lock.
  The specification is three lists: the messages held, the receivers waiting, the senders
  waiting with their messages.
\<close>

section \<open>The source\<close>

definition RING_CAP :: nat where
  "RING_CAP = 2"

definition MAX_WAITERS :: nat where
  "MAX_WAITERS = 4"

record kmessage =
  msg :: message
  msg_cap :: "cap option"

definition kmessage_empty :: kmessage where
  "kmessage_empty = \<lparr>msg = message_new 0, msg_cap = None\<rparr>"

record endpoint =
  allocated :: bool
  ring :: "kmessage list"
  head :: nat
  ring_len :: nat
  recv_waiters :: "nat list"
  n_recv :: nat
  send_waiters :: "(nat \<times> kmessage) list"
  n_send :: nat
  bound :: "nat option"

definition endpoint_new :: endpoint where
  "endpoint_new =
     \<lparr>allocated = False, ring = replicate RING_CAP kmessage_empty, head = 0, ring_len = 0,
      recv_waiters = replicate MAX_WAITERS 0, n_recv = 0,
      send_waiters = replicate MAX_WAITERS (0, kmessage_empty), n_send = 0, bound = None\<rparr>"

text \<open>\<^verbatim>\<open>slice.copy_within(lo..hi, dst)\<close>.\<close>

definition copy_within :: "'a list \<Rightarrow> nat \<Rightarrow> nat \<Rightarrow> nat \<Rightarrow> 'a list" where
  "copy_within xs lo hi dst = take dst xs @ take (hi - lo) (drop lo xs) @ drop (dst + (hi - lo)) xs"

definition push_msg :: "endpoint \<Rightarrow> kmessage \<Rightarrow> bool \<times> endpoint" where
  "push_msg e km =
     (if ring_len e = RING_CAP then (False, e)
      else let tail = (head e + ring_len e) mod RING_CAP
           in (True, e\<lparr>ring := (ring e)[tail := km], ring_len := ring_len e + 1\<rparr>))"

definition pop_msg :: "endpoint \<Rightarrow> kmessage option \<times> endpoint" where
  "pop_msg e =
     (if ring_len e = 0 then (None, e)
      else (Some (ring e ! head e),
            e\<lparr>head := (head e + 1) mod RING_CAP, ring_len := ring_len e - 1\<rparr>))"

definition push_recv_waiter :: "endpoint \<Rightarrow> nat \<Rightarrow> bool \<times> endpoint" where
  "push_recv_waiter e task =
     (if n_recv e = MAX_WAITERS then (False, e)
      else (True, e\<lparr>recv_waiters := (recv_waiters e)[n_recv e := task], n_recv := n_recv e + 1\<rparr>))"

definition pop_recv_waiter :: "endpoint \<Rightarrow> nat option \<times> endpoint" where
  "pop_recv_waiter e =
     (if n_recv e = 0 then (None, e)
      else (Some (recv_waiters e ! 0),
            e\<lparr>recv_waiters := copy_within (recv_waiters e) 1 (n_recv e) 0, n_recv := n_recv e - 1\<rparr>))"

definition push_send_waiter :: "endpoint \<Rightarrow> nat \<Rightarrow> kmessage \<Rightarrow> bool \<times> endpoint" where
  "push_send_waiter e task km =
     (if n_send e = MAX_WAITERS then (False, e)
      else (True, e\<lparr>send_waiters := (send_waiters e)[n_send e := (task, km)], n_send := n_send e + 1\<rparr>))"

definition pop_send_waiter :: "endpoint \<Rightarrow> (nat \<times> kmessage) option \<times> endpoint" where
  "pop_send_waiter e =
     (if n_send e = 0 then (None, e)
      else (Some (send_waiters e ! 0),
            e\<lparr>send_waiters := copy_within (send_waiters e) 1 (n_send e) 0, n_send := n_send e - 1\<rparr>))"

datatype send_action = Deliver nat | Buffered | SendBlock | SendFull | SendWouldBlock

definition send_decide :: "endpoint \<Rightarrow> nat \<Rightarrow> kmessage \<Rightarrow> bool \<Rightarrow> send_action \<times> endpoint" where
  "send_decide e me km may_block =
     (case pop_recv_waiter e of
        (Some w, e') \<Rightarrow> (Deliver w, e')
      | (None, e') \<Rightarrow>
          (case push_msg e' km of
             (True, e2) \<Rightarrow> (Buffered, e2)
           | (False, e2) \<Rightarrow>
               if \<not> may_block then (SendWouldBlock, e2)
               else (case push_send_waiter e2 me km of
                       (True, e3) \<Rightarrow> (SendBlock, e3)
                     | (False, e3) \<Rightarrow> (SendFull, e3))))"

datatype recv_action = Got kmessage | WakeSender kmessage nat | RecvBlock | RecvFull

definition recv_decide :: "endpoint \<Rightarrow> nat \<Rightarrow> recv_action \<times> endpoint" where
  "recv_decide e me =
     (case pop_msg e of
        (Some km, e') \<Rightarrow>
          (case pop_send_waiter e' of
             (Some (tid, skm), e2) \<Rightarrow> (WakeSender km tid, snd (push_msg e2 skm))
           | (None, e2) \<Rightarrow> (Got km, e2))
      | (None, e') \<Rightarrow>
          (case push_recv_waiter e' me of
             (True, e2) \<Rightarrow> (RecvBlock, e2)
           | (False, e2) \<Rightarrow> (RecvFull, e2)))"

definition cancel_waiter :: "endpoint \<Rightarrow> nat \<Rightarrow> endpoint" where
  "cancel_waiter e task =
     (case position (\<lambda>t. t = task) (take (n_recv e) (recv_waiters e)) of
        None \<Rightarrow> e
      | Some i \<Rightarrow> e\<lparr>recv_waiters := copy_within (recv_waiters e) (i + 1) (n_recv e) i, n_recv := n_recv e - 1\<rparr>)"

type_synonym endpoint_table = "endpoint list"

definition endpoint_exists :: "endpoint_table \<Rightarrow> nat \<Rightarrow> bool" where
  "endpoint_exists table i = (case get table i of None \<Rightarrow> False | Some e \<Rightarrow> allocated e)"

definition endpoint_allocate :: "bool \<Rightarrow> endpoint_table \<Rightarrow> nat option \<times> endpoint_table" where
  "endpoint_allocate reserve table =
     (case position (\<lambda>e. \<not> allocated e) table of
        Some i \<Rightarrow> (Some i, table[i := endpoint_new\<lparr>allocated := True\<rparr>])
      | None \<Rightarrow> if \<not> reserve then (None, table)
                else (Some (length table), table @ [endpoint_new\<lparr>allocated := True\<rparr>]))"

definition cancel_recv_waiter :: "endpoint_table \<Rightarrow> nat \<Rightarrow> nat \<Rightarrow> endpoint_table" where
  "cancel_recv_waiter table ep task =
     (case get table ep of None \<Rightarrow> table | Some e \<Rightarrow> table[ep := cancel_waiter e task])"

definition bind_notify :: "endpoint_table \<Rightarrow> nat \<Rightarrow> nat option \<Rightarrow> bool \<times> endpoint_table" where
  "bind_notify table ep notif =
     (case get table ep of
        None \<Rightarrow> (False, table)
      | Some e \<Rightarrow> (True, table[ep := e\<lparr>bound := notif\<rparr>]))"

definition pending_messages :: "endpoint_table \<Rightarrow> nat \<Rightarrow> nat" where
  "pending_messages table ep = (case get table ep of None \<Rightarrow> 0 | Some e \<Rightarrow> ring_len e)"

fun waiting_from :: "nat \<Rightarrow> endpoint_table \<Rightarrow> nat \<Rightarrow> (nat \<times> bool) option" where
  "waiting_from ep [] task = None"
| "waiting_from ep (e # es) task =
     (if task \<in> set (take (n_recv e) (recv_waiters e)) then Some (ep, False)
      else if list_ex (\<lambda>(t, _). t = task) (take (n_send e) (send_waiters e)) then Some (ep, True)
      else waiting_from (ep + 1) es task)"

definition waiting_on :: "endpoint_table \<Rightarrow> nat \<Rightarrow> (nat \<times> bool) option" where
  "waiting_on table task = waiting_from 0 table task"

section \<open>The specification\<close>

record queues =
  held :: "kmessage list"
  receivers :: "nat list"
  senders :: "(nat \<times> kmessage) list"

definition spec_send :: "queues \<Rightarrow> nat \<Rightarrow> kmessage \<Rightarrow> bool \<Rightarrow> send_action \<times> queues" where
  "spec_send q me km may_block =
     (case receivers q of
        w # ws \<Rightarrow> (Deliver w, q\<lparr>receivers := ws\<rparr>)
      | [] \<Rightarrow>
          if length (held q) < RING_CAP then (Buffered, q\<lparr>held := held q @ [km]\<rparr>)
          else if \<not> may_block then (SendWouldBlock, q)
          else if length (senders q) < MAX_WAITERS then (SendBlock, q\<lparr>senders := senders q @ [(me, km)]\<rparr>)
          else (SendFull, q))"

definition spec_recv :: "queues \<Rightarrow> nat \<Rightarrow> recv_action \<times> queues" where
  "spec_recv q me =
     (case held q of
        km # kms \<Rightarrow>
          (case senders q of
             (t, skm) # ss \<Rightarrow> (WakeSender km t, q\<lparr>held := kms @ [skm], senders := ss\<rparr>)
           | [] \<Rightarrow> (Got km, q\<lparr>held := kms\<rparr>))
      | [] \<Rightarrow>
          if length (receivers q) < MAX_WAITERS then (RecvBlock, q\<lparr>receivers := receivers q @ [me]\<rparr>)
          else (RecvFull, q))"

definition spec_cancel :: "queues \<Rightarrow> nat \<Rightarrow> queues" where
  "spec_cancel q task = q\<lparr>receivers := remove1 task (receivers q)\<rparr>"

definition queues_of :: "endpoint \<Rightarrow> queues" where
  "queues_of e =
     \<lparr>held = map (\<lambda>i. ring e ! ((head e + i) mod RING_CAP)) [0..<ring_len e],
      receivers = take (n_recv e) (recv_waiters e),
      senders = take (n_send e) (send_waiters e)\<rparr>"

definition ep_wf :: "endpoint \<Rightarrow> bool" where
  "ep_wf e \<longleftrightarrow> length (ring e) = RING_CAP \<and> head e < RING_CAP \<and> ring_len e \<le> RING_CAP
     \<and> length (recv_waiters e) = MAX_WAITERS \<and> n_recv e \<le> MAX_WAITERS
     \<and> length (send_waiters e) = MAX_WAITERS \<and> n_send e \<le> MAX_WAITERS"

text \<open>The queueing discipline: receivers wait only at an empty endpoint, senders only at a full one.\<close>

definition disciplined :: "queues \<Rightarrow> bool" where
  "disciplined q \<longleftrightarrow> length (held q) \<le> RING_CAP \<and> (receivers q \<noteq> [] \<longrightarrow> held q = [] \<and> senders q = [])
     \<and> (senders q \<noteq> [] \<longrightarrow> length (held q) = RING_CAP)"

section \<open>The arrays implement the queues\<close>

lemma copy_within_front:
  "0 < n \<Longrightarrow> n \<le> length xs \<Longrightarrow> length (copy_within xs 1 n 0) = length xs \<and>
     take (n - 1) (copy_within xs 1 n 0) = tl (take n xs)"
  by (cases xs; cases n) (auto simp: copy_within_def)

lemma copy_within_remove:
  "i < n \<Longrightarrow> n \<le> length xs \<Longrightarrow> length (copy_within xs (i + 1) n i) = length xs \<and>
     take (n - 1) (copy_within xs (i + 1) n i) = take i xs @ drop (i + 1) (take n xs)"
  by (cases "n = Suc i") (auto simp: copy_within_def min_def drop_take)

lemma take_update_snoc: "n < length xs \<Longrightarrow> take (n + 1) (xs[n := v]) = take n xs @ [v]"
  by (simp add: take_Suc_conv_app_nth)

lemma push_msg_queues:
  assumes "ep_wf e"
  shows "if length (held (queues_of e)) = RING_CAP then push_msg e km = (False, e)
         else \<exists>e'. push_msg e km = (True, e') \<and> ep_wf e' \<and> queues_of e' = (queues_of e)\<lparr>held := held (queues_of e) @ [km]\<rparr>"
proof (cases "ring_len e = RING_CAP")
  case True
  then show ?thesis by (simp add: push_msg_def queues_of_def)
next
  case False
  define e' where "e' = e\<lparr>ring := (ring e)[(head e + ring_len e) mod RING_CAP := km], ring_len := ring_len e + 1\<rparr>"
  have slot: "(head e + i) mod RING_CAP \<noteq> (head e + ring_len e) mod RING_CAP" if "i < ring_len e" for i
    using that assms False unfolding ep_wf_def RING_CAP_def by presburger
  have "(head e + ring_len e) mod RING_CAP < length (ring e)" using assms by (simp add: ep_wf_def RING_CAP_def)
  then have "ring e' ! ((head e + i) mod RING_CAP) = (if i = ring_len e then km else ring e ! ((head e + i) mod RING_CAP))"
    if "i \<le> ring_len e" for i
    using slot [of i] that by (cases "i = ring_len e") (simp_all add: e'_def)
  then have "held (queues_of e') = held (queues_of e) @ [km]"
    by (simp add: queues_of_def e'_def)
  moreover have "ep_wf e'" using assms False by (auto simp: ep_wf_def e'_def)
  ultimately show ?thesis using False by (auto simp: push_msg_def e'_def queues_of_def)
qed

lemma pop_msg_queues:
  assumes "ep_wf e"
  shows "case held (queues_of e) of
           [] \<Rightarrow> pop_msg e = (None, e)
         | km # kms \<Rightarrow> \<exists>e'. pop_msg e = (Some km, e') \<and> ep_wf e' \<and> queues_of e' = (queues_of e)\<lparr>held := kms\<rparr>"
proof (cases "ring_len e")
  case 0
  then show ?thesis by (simp add: pop_msg_def queues_of_def)
next
  case (Suc n)
  define e' where "e' = e\<lparr>head := (head e + 1) mod RING_CAP, ring_len := n\<rparr>"
  have h: "held (queues_of e) = ring e ! head e # held (queues_of e')"
    using Suc assms
    by (simp add: queues_of_def e'_def upt_conv_Cons ep_wf_def mod_add_left_eq map_Suc_upt [symmetric] del: upt_Suc)
  have "ep_wf e'" using assms Suc by (auto simp: ep_wf_def e'_def RING_CAP_def)
  then show ?thesis unfolding h using Suc by (auto simp: pop_msg_def e'_def queues_of_def)
qed

lemma push_recv_queues:
  assumes "ep_wf e"
  shows "if length (receivers (queues_of e)) < MAX_WAITERS
         then \<exists>e'. push_recv_waiter e t = (True, e') \<and> ep_wf e' \<and> queues_of e' = (queues_of e)\<lparr>receivers := receivers (queues_of e) @ [t]\<rparr>
         else push_recv_waiter e t = (False, e)"
  using assms take_update_snoc [of "n_recv e" "recv_waiters e" t]
  by (auto simp: push_recv_waiter_def queues_of_def ep_wf_def)

lemma pop_recv_queues:
  assumes "ep_wf e"
  shows "case receivers (queues_of e) of
           [] \<Rightarrow> pop_recv_waiter e = (None, e)
         | t # ts \<Rightarrow> \<exists>e'. pop_recv_waiter e = (Some t, e') \<and> ep_wf e' \<and> queues_of e' = (queues_of e)\<lparr>receivers := ts\<rparr>"
proof (cases "n_recv e")
  case 0
  then show ?thesis by (simp add: pop_recv_waiter_def queues_of_def)
next
  case (Suc n)
  have "recv_waiters e \<noteq> []" using assms Suc by (auto simp: ep_wf_def)
  then show ?thesis using Suc assms copy_within_front [of "n_recv e" "recv_waiters e"]
    by (cases "recv_waiters e") (auto simp: pop_recv_waiter_def queues_of_def ep_wf_def)
qed

lemma push_send_queues:
  assumes "ep_wf e"
  shows "if length (senders (queues_of e)) < MAX_WAITERS
         then \<exists>e'. push_send_waiter e t km = (True, e') \<and> ep_wf e' \<and> queues_of e' = (queues_of e)\<lparr>senders := senders (queues_of e) @ [(t, km)]\<rparr>
         else push_send_waiter e t km = (False, e)"
  using assms take_update_snoc [of "n_send e" "send_waiters e" "(t, km)"]
  by (auto simp: push_send_waiter_def queues_of_def ep_wf_def)

lemma pop_send_queues:
  assumes "ep_wf e"
  shows "case senders (queues_of e) of
           [] \<Rightarrow> pop_send_waiter e = (None, e)
         | w # ws \<Rightarrow> \<exists>e'. pop_send_waiter e = (Some w, e') \<and> ep_wf e' \<and> queues_of e' = (queues_of e)\<lparr>senders := ws\<rparr>"
proof (cases "n_send e")
  case 0
  then show ?thesis by (simp add: pop_send_waiter_def queues_of_def)
next
  case (Suc n)
  have "send_waiters e \<noteq> []" using assms Suc by (auto simp: ep_wf_def)
  then show ?thesis using Suc assms copy_within_front [of "n_send e" "send_waiters e"]
    by (cases "send_waiters e") (auto simp: pop_send_waiter_def queues_of_def ep_wf_def)
qed

lemma held_le: "ep_wf e \<Longrightarrow> length (held (queues_of e)) \<le> RING_CAP"
  by (simp add: queues_of_def ep_wf_def)

lemma send_refines:
  assumes "ep_wf e" "send_decide e me km blk = (a, e')"
  shows "ep_wf e' \<and> spec_send (queues_of e) me km blk = (a, queues_of e')"
proof (cases "receivers (queues_of e)")
  case (Cons t ts)
  then show ?thesis using assms pop_recv_queues [OF assms(1)]
    by (auto simp: send_decide_def spec_send_def)
next
  case Nil
  then have p: "pop_recv_waiter e = (None, e)" using pop_recv_queues [OF assms(1)] by simp
  show ?thesis
  proof (cases "length (held (queues_of e)) = RING_CAP")
    case False
    then have "length (held (queues_of e)) < RING_CAP" using held_le [OF assms(1)] by simp
    then show ?thesis using False p Nil assms(2) push_msg_queues [OF assms(1), of km]
      by (auto simp: send_decide_def spec_send_def)
  next
    case True
    then have "push_msg e km = (False, e)" using push_msg_queues [OF assms(1), of km] by simp
    then show ?thesis using True p Nil assms push_send_queues [OF assms(1), of me km]
      by (auto simp: send_decide_def spec_send_def split: if_splits)
  qed
qed

lemma recv_refines:
  assumes "ep_wf e" "recv_decide e me = (a, e')"
  shows "ep_wf e' \<and> spec_recv (queues_of e) me = (a, queues_of e')"
proof (cases "held (queues_of e)")
  case Nil
  then show ?thesis using assms pop_msg_queues [OF assms(1)] push_recv_queues [OF assms(1), of me]
    by (auto simp: recv_decide_def spec_recv_def split: if_splits)
next
  case (Cons km kms)
  obtain e1 where e1: "pop_msg e = (Some km, e1)" "ep_wf e1" "queues_of e1 = (queues_of e)\<lparr>held := kms\<rparr>"
    using Cons pop_msg_queues [OF assms(1)] by auto
  show ?thesis
  proof (cases "senders (queues_of e)")
    case Nil
    then have "pop_send_waiter e1 = (None, e1)" using pop_send_queues [OF e1(2)] e1(3) by simp
    then show ?thesis using assms(2) e1 Cons Nil by (simp add: recv_decide_def spec_recv_def)
  next
    case (Cons w ws)
    then obtain e2 where e2: "pop_send_waiter e1 = (Some w, e2)" "ep_wf e2" "queues_of e2 = (queues_of e1)\<lparr>senders := ws\<rparr>"
      using pop_send_queues [OF e1(2)] e1(3) by auto
    have "length (held (queues_of e2)) \<noteq> RING_CAP"
      using held_le [OF assms(1)] \<open>held (queues_of e) = km # kms\<close> e1(3) e2(3) by simp
    then obtain e3 where "push_msg e2 (snd w) = (True, e3)" "ep_wf e3"
        "queues_of e3 = (queues_of e2)\<lparr>held := held (queues_of e2) @ [snd w]\<rparr>"
      using push_msg_queues [OF e2(2), of "snd w"] by auto
    then show ?thesis using assms(2) e1 e2 Cons \<open>held (queues_of e) = km # kms\<close>
      by (cases w) (auto simp: recv_decide_def spec_recv_def)
  qed
qed

lemma position_remove1:
  "case position (\<lambda>t. t = x) xs of None \<Rightarrow> remove1 x xs = xs
   | Some i \<Rightarrow> i < length xs \<and> remove1 x xs = take i xs @ drop (i + 1) xs"
  by (induction xs) (auto split: option.splits)

lemma cancel_refines:
  assumes "ep_wf e"
  shows "ep_wf (cancel_waiter e t) \<and> queues_of (cancel_waiter e t) = spec_cancel (queues_of e) t"
proof (cases "position (\<lambda>x. x = t) (take (n_recv e) (recv_waiters e))")
  case None
  then show ?thesis using assms position_remove1 [of t "take (n_recv e) (recv_waiters e)"]
    by (simp add: cancel_waiter_def spec_cancel_def queues_of_def)
next
  case (Some i)
  have n: "n_recv e \<le> length (recv_waiters e)" using assms by (simp add: ep_wf_def)
  have i: "i < n_recv e" "n_recv e \<le> length (recv_waiters e)"
    "remove1 t (take (n_recv e) (recv_waiters e)) = take i (recv_waiters e) @ drop (i + 1) (take (n_recv e) (recv_waiters e))"
    using Some position_SomeD(1) [OF Some] position_remove1 [of t "take (n_recv e) (recv_waiters e)"] n
    by (simp_all add: min_absorb1)
  show ?thesis using Some i copy_within_remove [OF i(1,2)] assms
    by (auto simp: cancel_waiter_def spec_cancel_def queues_of_def ep_wf_def)
qed

section \<open>Endpoints as rendezvous points\<close>

datatype ep_op = DoSend nat kmessage bool | DoRecv nat | DoCancel nat

text \<open>A history: the messages accepted from senders, those handed to receivers, the final state.\<close>

fun ep_run ::
  "('e \<Rightarrow> nat \<Rightarrow> kmessage \<Rightarrow> bool \<Rightarrow> send_action \<times> 'e) \<Rightarrow> ('e \<Rightarrow> nat \<Rightarrow> recv_action \<times> 'e) \<Rightarrow> ('e \<Rightarrow> nat \<Rightarrow> 'e)
     \<Rightarrow> ep_op list \<Rightarrow> 'e \<Rightarrow> kmessage list \<times> kmessage list \<times> 'e" where
  "ep_run snd_op rcv_op cancel [] e = ([], [], e)"
| "ep_run snd_op rcv_op cancel (DoSend me km b # ops) e =
     (let (a, e') = snd_op e me km b; (acc, got, e'') = ep_run snd_op rcv_op cancel ops e'
      in ((if a = Buffered \<or> a = SendBlock \<or> (\<exists>w. a = Deliver w) then [km] else []) @ acc,
          (if \<exists>w. a = Deliver w then [km] else []) @ got, e''))"
| "ep_run snd_op rcv_op cancel (DoRecv me # ops) e =
     (let (a, e') = rcv_op e me; (acc, got, e'') = ep_run snd_op rcv_op cancel ops e'
      in (acc, (case a of Got km \<Rightarrow> [km] | WakeSender km _ \<Rightarrow> [km] | _ \<Rightarrow> []) @ got, e''))"
| "ep_run snd_op rcv_op cancel (DoCancel t # ops) e = ep_run snd_op rcv_op cancel ops (cancel e t)"

definition outstanding :: "queues \<Rightarrow> kmessage list" where
  "outstanding q = held q @ map snd (senders q)"

lemma spec_send_step:
  assumes "disciplined q" "spec_send q me km b = (a, q')"
  shows "disciplined q' \<and> outstanding q @ (if a = Buffered \<or> a = SendBlock \<or> (\<exists>w. a = Deliver w) then [km] else [])
      = (if \<exists>w. a = Deliver w then [km] else []) @ outstanding q'"
  using assms by (auto simp: spec_send_def outstanding_def disciplined_def RING_CAP_def split: list.splits if_splits)

lemma spec_recv_step:
  assumes "disciplined q" "spec_recv q me = (a, q')"
  shows "disciplined q'
    \<and> outstanding q = (case a of Got km \<Rightarrow> [km] | WakeSender km _ \<Rightarrow> [km] | _ \<Rightarrow> []) @ outstanding q'"
  using assms by (auto simp: spec_recv_def outstanding_def disciplined_def RING_CAP_def split: list.splits if_splits)

lemma spec_cancel_step:
  "disciplined q \<Longrightarrow> disciplined (spec_cancel q t) \<and> outstanding (spec_cancel q t) = outstanding q"
  by (cases "receivers q") (auto simp: spec_cancel_def outstanding_def disciplined_def)

locale rendezvous =
  fixes wf :: "'e \<Rightarrow> bool" and abs :: "'e \<Rightarrow> queues"
    and snd_op :: "'e \<Rightarrow> nat \<Rightarrow> kmessage \<Rightarrow> bool \<Rightarrow> send_action \<times> 'e"
    and rcv_op :: "'e \<Rightarrow> nat \<Rightarrow> recv_action \<times> 'e"
    and cancel :: "'e \<Rightarrow> nat \<Rightarrow> 'e"
  assumes send_law: "wf e \<Longrightarrow> snd_op e me km b = (a, e') \<Longrightarrow> wf e' \<and> spec_send (abs e) me km b = (a, abs e')"
    and recv_law: "wf e \<Longrightarrow> rcv_op e me = (ra, e') \<Longrightarrow> wf e' \<and> spec_recv (abs e) me = (ra, abs e')"
    and cancel_law: "wf e \<Longrightarrow> wf (cancel e t) \<and> abs (cancel e t) = spec_cancel (abs e) t"
begin

lemma send_step:
  assumes "wf e" "disciplined (abs e)" "snd_op e me km b = (a, e')"
  shows "wf e' \<and> disciplined (abs e')
    \<and> outstanding (abs e) @ (if a = Buffered \<or> a = SendBlock \<or> (\<exists>w. a = Deliver w) then [km] else [])
      = (if \<exists>w. a = Deliver w then [km] else []) @ outstanding (abs e')"
  using send_law [OF assms(1,3)] spec_send_step [OF assms(2)] by blast

lemma recv_step:
  assumes "wf e" "disciplined (abs e)" "rcv_op e me = (a, e')"
  shows "wf e' \<and> disciplined (abs e')
    \<and> outstanding (abs e) = (case a of Got km \<Rightarrow> [km] | WakeSender km _ \<Rightarrow> [km] | _ \<Rightarrow> []) @ outstanding (abs e')"
  using recv_law [OF assms(1,3)] spec_recv_step [OF assms(2)] by blast

lemma cancel_step:
  assumes "wf e" "disciplined (abs e)"
  shows "wf (cancel e t) \<and> disciplined (abs (cancel e t)) \<and> outstanding (abs (cancel e t)) = outstanding (abs e)"
  using cancel_law [OF assms(1), of t] spec_cancel_step [OF assms(2), of t] by simp

lemma fifo:
  "wf e \<Longrightarrow> disciplined (abs e) \<Longrightarrow> ep_run snd_op rcv_op cancel ops e = (acc, got, e') \<Longrightarrow>
     wf e' \<and> disciplined (abs e') \<and> outstanding (abs e) @ acc = got @ outstanding (abs e')"
proof (induction ops arbitrary: e acc got)
  case Nil
  then show ?case by simp
next
  case (Cons x ops)
  show ?case
  proof (cases x)
    case (DoSend me km b)
    obtain a e1 where s: "snd_op e me km b = (a, e1)" by fastforce
    obtain acc' got' where r: "ep_run snd_op rcv_op cancel ops e1 = (acc', got', e')"
      using Cons.prems(3) DoSend s by (auto simp: Let_def case_prod_beta prod_eq_iff)
    note S = send_step [OF Cons.prems(1,2) s]
    have "outstanding (abs e1) @ acc' = got' @ outstanding (abs e')" "wf e'" "disciplined (abs e')"
      using Cons.IH [OF _ _ r] S by auto
    then show ?thesis using S Cons.prems(3) DoSend s r
      by (simp add: Let_def) (metis append.assoc)
  next
    case (DoRecv me)
    obtain a e1 where s: "rcv_op e me = (a, e1)" by fastforce
    obtain acc' got' where r: "ep_run snd_op rcv_op cancel ops e1 = (acc', got', e')"
      using Cons.prems(3) DoRecv s by (auto simp: Let_def case_prod_beta prod_eq_iff)
    note S = recv_step [OF Cons.prems(1,2) s]
    have "outstanding (abs e1) @ acc' = got' @ outstanding (abs e')" "wf e'" "disciplined (abs e')"
      using Cons.IH [OF _ _ r] S by auto
    then show ?thesis using S Cons.prems(3) DoRecv s r by simp
  next
    case (DoCancel t)
    then show ?thesis using Cons.IH [of "cancel e t"] cancel_step [OF Cons.prems(1,2), of t] Cons.prems(3) by auto
  qed
qed

end

interpretation ep: rendezvous ep_wf queues_of send_decide recv_decide cancel_waiter
  using send_refines recv_refines cancel_refines by unfold_locales blast+

lemma endpoint_new_wf: "ep_wf endpoint_new" "queues_of endpoint_new = \<lparr>held = [], receivers = [], senders = []\<rparr>"
  by (simp_all add: ep_wf_def queues_of_def endpoint_new_def RING_CAP_def)

text \<open>C36. The critical sections of \<^verbatim>\<open>send\<close>, \<^verbatim>\<open>recv\<close> and the cancelled receive, on the fixed arrays
  with their counts and their wrapping head, behave as the list specification, action included.\<close>

theorem endpoint_refines_queues:
  assumes "ep_wf e"
  shows "(\<forall>me km b. case send_decide e me km b of (a, e') \<Rightarrow> ep_wf e' \<and> spec_send (queues_of e) me km b = (a, queues_of e'))
       \<and> (\<forall>me. case recv_decide e me of (a, e') \<Rightarrow> ep_wf e' \<and> spec_recv (queues_of e) me = (a, queues_of e'))
       \<and> (\<forall>t. ep_wf (cancel_waiter e t) \<and> queues_of (cancel_waiter e t) = spec_cancel (queues_of e) t)"
  using send_refines [OF assms] recv_refines [OF assms] cancel_refines [OF assms] by (auto split: prod.split)

theorem endpoint_refines_queues_witness:
  "ep_wf endpoint_new
   \<and> (case send_decide endpoint_new 3 kmessage_empty True of
        (a, e') \<Rightarrow> spec_send (queues_of endpoint_new) 3 kmessage_empty True = (a, queues_of e'))"
  using endpoint_refines_queues [OF endpoint_new_wf(1)] endpoint_new_wf(1) by (auto split: prod.splits)

text \<open>C8. First in, first out, nothing lost and nothing duplicated: through any sequence of sends
  that may or may not block, receives and cancelled receives on a fresh endpoint, the messages
  accepted are the messages received followed by those still held or carried by blocked senders,
  in the same order; receivers wait only at an empty endpoint and senders only at a full one.\<close>

theorem endpoint_fifo:
  assumes "ep_run send_decide recv_decide cancel_waiter ops endpoint_new = (accepted, received, e)"
  shows "accepted = received @ outstanding (queues_of e) \<and> disciplined (queues_of e) \<and> ep_wf e"
  using ep.fifo [OF endpoint_new_wf(1) _ assms] endpoint_new_wf(2) by (simp add: disciplined_def outstanding_def)

theorem endpoint_fifo_witness:
  "\<exists>acc got e. ep_run send_decide recv_decide cancel_waiter
     [DoRecv 1, DoCancel 1, DoSend 2 kmessage_empty True, DoSend 2 kmessage_empty True, DoSend 2 kmessage_empty True, DoRecv 3]
     endpoint_new = (acc, got, e) \<and> acc = got @ outstanding (queues_of e)"
proof -
  obtain acc got e where r: "ep_run send_decide recv_decide cancel_waiter
     [DoRecv 1, DoCancel 1, DoSend 2 kmessage_empty True, DoSend 2 kmessage_empty True, DoSend 2 kmessage_empty True, DoRecv 3]
     endpoint_new = (acc, got, e)"
    by (metis prod_cases3)
  from endpoint_fifo [OF r] r show ?thesis by blast
qed

end
