(* ===== verification/Scheduler.thy ===== *)
theory Scheduler
  imports SchedClass Endpoint
begin

text \<open>
  \<^verbatim>\<open>crates/kernel/src/sched.rs\<close>: the task table and the scheduler. Every definition is what one
  function does under the scheduler's lock; where the source drops the lock to switch contexts
  and goes on after it is resumed, the part after the switch is a definition of its own
  (\<open>post_switch\<close>, \<open>take_mailbox\<close>, \<open>finish_block_for_message\<close>, \<open>set_affinity_done\<close>). The
  executing core, \<^verbatim>\<open>me()\<close>, is the argument \<open>cpu\<close>. Saved register contexts are not part of
  the state: \<open>current\<close> says which task a core runs and \<open>prev\<close>, the \<^verbatim>\<open>PREV\<close> static, which task
  it has left and not yet released. An index that would panic gives \<open>None\<close>. The reporting
  counters that no decision reads are kept where a self-test checks them.
\<close>

section \<open>Tasks\<close>

definition MAX_CPUS :: nat where
  "MAX_CPUS = 8"

definition STACK_WORDS :: nat where
  "STACK_WORDS = 4096"

definition MAX_SHARED_MAPPINGS :: nat where
  "MAX_SHARED_MAPPINGS = 16"

definition MAX_DEVICE_MAPPINGS :: nat where
  "MAX_DEVICE_MAPPINGS = 48"

datatype task_state = Ready | Running | Blocked | Sleeping (until_ns: u64) | Dead

text \<open>Where mapped objects landed: one entry per object, addresses never reused.\<close>

record placements =
  entries :: "(object_ref \<times> u64) option list"
  cursor :: u64

definition placements_new :: "nat \<Rightarrow> u64 \<Rightarrow> placements" where
  "placements_new n start = \<lparr>entries = replicate n None, cursor = start\<rparr>"

definition placements_find :: "placements \<Rightarrow> object_ref \<Rightarrow> u64 option" where
  "placements_find p ob =
     map_option snd (List.find (\<lambda>(o', _). o' = ob) (concat (map (\<lambda>e. case e of None \<Rightarrow> [] | Some x \<Rightarrow> [x]) (entries p))))"

definition placements_place :: "placements \<Rightarrow> object_ref \<Rightarrow> u32 \<Rightarrow> u64 option \<times> placements" where
  "placements_place p ob pages =
     (case position (\<lambda>e. e = None) (entries p) of
        None \<Rightarrow> (None, p)
      | Some i \<Rightarrow> (Some (cursor p),
                   p\<lparr>entries := (entries p)[i := Some (ob, cursor p)],
                     cursor := cursor p + ucast pages * 4096\<rparr>))"

text \<open>The handle of an address space (\<^verbatim>\<open>addrspace.rs\<close>): its root, its entry and its heap cursor.\<close>

record addr_space =
  root :: u64
  data_phys :: u64
  entry :: u64
  heap_next :: u64

definition PAGE_4K :: u64 where "PAGE_4K = 4096"

definition USER_HEAP_BASE :: u64 where "USER_HEAP_BASE = 0x100000000"

definition USER_HEAP_END :: u64 where "USER_HEAP_END = 0x200000000"

definition USER_DATA_VA :: u64 where "USER_DATA_VA = 0x400000000"

definition USER_DEV_VA :: u64 where "USER_DEV_VA = USER_DATA_VA + PAGE_4K"

definition USER_SHARED_VA :: u64 where "USER_SHARED_VA = 0x500000000"

definition reserve_anon :: "addr_space \<Rightarrow> u64 \<Rightarrow> (u64 \<times> addr_space) option" where
  "reserve_anon sp pages =
     (if pages = 0 then None
      else if unat pages * unat PAGE_4K \<ge> 2 ^ 64 then None
      else let bytes = pages * PAGE_4K
           in case checked_add (heap_next sp) bytes of
                None \<Rightarrow> None
              | Some e \<Rightarrow> if e > USER_HEAP_END then None
                         else Some (heap_next sp, sp\<lparr>heap_next := heap_next sp + bytes\<rparr>))"

text \<open>\<open>caps\<close> is the shared capability table, an index into \<open>cap_tables\<close> of the scheduler state.
  \<open>stack_words\<close> is the length of the kernel stack, zero once it is freed.\<close>

record task =
  stack_words :: nat
  state :: task_state
  tid :: nat
  pid :: nat
  ttbr0 :: u64
  space :: "addr_space option"
  caps :: nat
  user_start :: "(u64 \<times> u64 \<times> u64) option"
  mailbox :: "kmessage option"
  wake_pending :: bool
  on_cpu :: bool
  death_notify :: "nat option"
  affinity :: mask
  last_cpu :: nat
  task_class :: sched_class
  ran_on :: u64
  shared :: placements
  devices :: placements

record sched =
  tasks :: "task list"
  bootstrap_ttbr0 :: "u64 list"
  current :: "nat option list"
  picks :: "u64 list"
  prev :: "nat option list"
  cap_tables :: "cap_table list"
  picks_by_class :: "u64 list"
  fair_picks :: u64
  inversions :: u64
  held_back :: u64
  switches :: "u64 list"
  reaped_stacks :: nat
  reaped_words :: nat

definition sched_new :: sched where
  "sched_new =
     \<lparr>tasks = [], bootstrap_ttbr0 = replicate MAX_CPUS 0, current = replicate MAX_CPUS None,
      picks = replicate MAX_CPUS 0, prev = replicate MAX_CPUS None, cap_tables = [],
      picks_by_class = replicate 3 0, fair_picks = 0, inversions = 0, held_back = 0,
      switches = replicate MAX_CPUS 0, reaped_stacks = 0, reaped_words = 0\<rparr>"

definition upd_task :: "nat \<Rightarrow> (task \<Rightarrow> task) \<Rightarrow> sched \<Rightarrow> sched" where
  "upd_task i f s = s\<lparr>tasks := (tasks s)[i := f (tasks s ! i)]\<rparr>"

section \<open>Choosing a task\<close>

definition pickable :: "sched \<Rightarrow> nat \<Rightarrow> nat \<Rightarrow> bool" where
  "pickable s i cpu \<longleftrightarrow> state (tasks s ! i) = Ready \<and> allows (affinity (tasks s ! i)) cpu \<and> \<not> on_cpu (tasks s ! i)"

definition sticky :: "sched \<Rightarrow> nat \<Rightarrow> nat \<Rightarrow> bool" where
  "sticky s i cpu \<longleftrightarrow> homed_here (last_cpu (tasks s ! i)) cpu"

definition decide :: "sched \<Rightarrow> nat \<Rightarrow> bool" where
  "decide s cpu = is_fair (picks s ! cpu)"

definition advance :: "nat \<Rightarrow> bool \<Rightarrow> sched \<Rightarrow> sched" where
  "advance cpu had_candidate s =
     (if \<not> had_candidate then s
      else s\<lparr>fair_picks := (if is_fair (picks s ! cpu) then fair_picks s + 1 else fair_picks s),
             picks := (picks s)[cpu := picks s ! cpu + 1]\<rparr>)"

definition pick :: "nat \<Rightarrow> nat \<Rightarrow> sched \<Rightarrow> (nat \<times> bool) option \<times> sched" where
  "pick cpu frm s =
     (let fair = decide s cpu;
          next = class_choose (length (tasks s)) frm (picks s ! cpu)
                   (\<lambda>i. pickable s i cpu) (\<lambda>i. sticky s i cpu) (\<lambda>i. task_class (tasks s ! i))
      in (map_option (\<lambda>n. (n, fair)) next, advance cpu (next \<noteq> None) s))"

definition pick_idle :: "nat \<Rightarrow> sched \<Rightarrow> nat option \<times> sched" where
  "pick_idle cpu s =
     (let next = class_choose_first (length (tasks s)) (picks s ! cpu)
                   (\<lambda>i. pickable s i cpu) (\<lambda>i. sticky s i cpu) (\<lambda>i. task_class (tasks s ! i))
      in (next, advance cpu (next \<noteq> None) s))"

definition account :: "nat \<Rightarrow> nat option \<Rightarrow> nat \<Rightarrow> sched \<Rightarrow> sched" where
  "account cpu frm next s =
     (let chosen = task_class (tasks s ! next)
      in if chosen \<noteq> Latency
            \<and> outranked (length (tasks s)) chosen (\<lambda>i. Some i \<noteq> frm \<and> pickable s i cpu) (\<lambda>i. task_class (tasks s ! i))
         then s\<lparr>inversions := inversions s + 1\<rparr> else s)"

definition take_task :: "nat \<Rightarrow> nat option \<Rightarrow> nat \<Rightarrow> sched \<Rightarrow> sched" where
  "take_task cpu frm next s =
     (let s1 = account cpu frm next s;
          s2 = upd_task next
                 (\<lambda>t. t\<lparr>state := Running, on_cpu := True, last_cpu := cpu,
                        ran_on := (if cpu < 64 then ran_on t OR push_bit cpu 1 else ran_on t)\<rparr>) s1;
          k = class_index (task_class (tasks s2 ! next))
      in s2\<lparr>current := (current s2)[cpu := Some next],
            picks_by_class := (picks_by_class s2)[k := picks_by_class s2 ! k + 1]\<rparr>)"

definition any_runnable :: "sched \<Rightarrow> bool" where
  "any_runnable s = list_ex (\<lambda>t. state t = Ready \<or> state t = Running \<or> is_Sleeping (state t)) (tasks s)"

definition next_wake :: "sched \<Rightarrow> u64 option" where
  "next_wake s =
     (let ws = concat (map (\<lambda>t. case state t of Sleeping u \<Rightarrow> [u] | _ \<Rightarrow> []) (tasks s))
      in if ws = [] then None else Some (foldr min (tl ws) (hd ws)))"

section \<open>Switching\<close>

definition post_switch :: "nat \<Rightarrow> sched \<Rightarrow> sched" where
  "post_switch cpu s =
     (case prev s ! cpu of
        None \<Rightarrow> s
      | Some p \<Rightarrow>
          let s1 = upd_task p (\<lambda>t. t\<lparr>on_cpu := False\<rparr>) (s\<lparr>prev := (prev s)[cpu := None]\<rparr>)
          in if state (tasks s1 ! p) = Dead \<and> stack_words (tasks s1 ! p) \<noteq> 0
             then (upd_task p (\<lambda>t. t\<lparr>stack_words := 0\<rparr>) s1)
                    \<lparr>reaped_stacks := reaped_stacks s1 + 1,
                     reaped_words := reaped_words s1 + stack_words (tasks s1 ! p)\<rparr>
             else s1)"

text \<open>The claim of \<^verbatim>\<open>start\<close> and \<^verbatim>\<open>run_secondary\<close>: whether a task was found.\<close>

definition start_pick :: "nat \<Rightarrow> sched \<Rightarrow> bool \<times> sched" where
  "start_pick cpu s =
     (case pick_idle cpu s of
        (None, s1) \<Rightarrow> (False, s1)
      | (Some first, s1) \<Rightarrow>
          let s2 = take_task cpu None first s1 in (True, s2\<lparr>prev := (prev s2)[cpu := None]\<rparr>))"

definition reschedule :: "nat \<Rightarrow> bool \<Rightarrow> sched \<Rightarrow> sched" where
  "reschedule cpu honour_class s =
     (case current s ! cpu of
        None \<Rightarrow> s
      | Some p \<Rightarrow>
          (case pick cpu p s of
             (None, s1) \<Rightarrow> s1
           | (Some (next, fair), s1) \<Rightarrow>
               if honour_class \<and> \<not> should_switch (task_class (tasks s1 ! p)) (task_class (tasks s1 ! next)) fair
               then s1\<lparr>held_back := held_back s1 + 1\<rparr>
               else let s2 = (if state (tasks s1 ! p) = Running then upd_task p (\<lambda>t. t\<lparr>state := Ready\<rparr>) s1 else s1);
                        s3 = take_task cpu (Some p) next s2
                    in s3\<lparr>switches := (switches s3)[cpu := switches s3 ! cpu + 1],
                          prev := (prev s3)[cpu := Some p]\<rparr>))"

text \<open>The common tail of \<^verbatim>\<open>exit\<close>, \<^verbatim>\<open>migrate_off\<close> and \<^verbatim>\<open>park_and_switch\<close>: leave task \<open>p\<close> for the
  next one, or for the core's idle context when there is none.\<close>

definition leave :: "nat \<Rightarrow> nat \<Rightarrow> sched \<Rightarrow> sched" where
  "leave cpu p s =
     (case pick cpu p (s\<lparr>prev := (prev s)[cpu := Some p]\<rparr>) of
        (Some (next, _), s1) \<Rightarrow> take_task cpu (Some p) next s1
      | (None, s1) \<Rightarrow> s1\<lparr>current := (current s1)[cpu := None]\<rparr>)"

definition exit_notify :: "nat \<Rightarrow> sched \<Rightarrow> (nat option \<times> sched) option" where
  "exit_notify cpu s =
     (case current s ! cpu of
        None \<Rightarrow> None
      | Some p \<Rightarrow> Some (death_notify (tasks s ! p), upd_task p (\<lambda>t. t\<lparr>death_notify := None\<rparr>) s))"

text \<open>The second half of \<^verbatim>\<open>exit\<close>: the space to tear down, if this was its last task.\<close>

definition exit_switch :: "nat \<Rightarrow> sched \<Rightarrow> (addr_space option \<times> sched) option" where
  "exit_switch cpu s =
     (case current s ! cpu of
        None \<Rightarrow> None
      | Some p \<Rightarrow>
          let sp = space (tasks s ! p);
              s1 = upd_task p (\<lambda>t. t\<lparr>state := Dead, space := None\<rparr>) s;
              root' = ttbr0 (tasks s1 ! p);
              shared' = list_ex (\<lambda>i. i \<noteq> p \<and> state (tasks s1 ! i) \<noteq> Dead \<and> ttbr0 (tasks s1 ! i) = root')
                          [0..<length (tasks s1)]
          in Some (if shared' then None else sp, leave cpu p s1))"

definition migrate_off :: "nat \<Rightarrow> sched \<Rightarrow> sched" where
  "migrate_off cpu s =
     (case current s ! cpu of
        None \<Rightarrow> s
      | Some p \<Rightarrow> leave cpu p (upd_task p (\<lambda>t. t\<lparr>state := Ready\<rparr>) s))"

text \<open>\<open>True\<close> when the task really left the core; a pending wake-up makes it decline.\<close>

definition park_and_switch :: "nat \<Rightarrow> task_state \<Rightarrow> sched \<Rightarrow> (bool \<times> sched) option" where
  "park_and_switch cpu parked s =
     (case current s ! cpu of
        None \<Rightarrow> None
      | Some p \<Rightarrow>
          if wake_pending (tasks s ! p)
          then Some (False, upd_task p (\<lambda>t. t\<lparr>wake_pending := False\<rparr>) s)
          else Some (True, leave cpu p (upd_task p (\<lambda>t. t\<lparr>state := parked\<rparr>) s)))"

text \<open>\<^verbatim>\<open>mailbox.take()\<close> of the current task, and \<^verbatim>\<open>block_for_message\<close> after it is resumed, whose
  \<^verbatim>\<open>expect\<close> panics (\<open>None\<close>) on an empty mailbox.\<close>

definition take_mailbox :: "nat \<Rightarrow> sched \<Rightarrow> (kmessage option \<times> sched) option" where
  "take_mailbox cpu s =
     (case current s ! cpu of
        None \<Rightarrow> None
      | Some p \<Rightarrow> Some (mailbox (tasks s ! p), upd_task p (\<lambda>t. t\<lparr>mailbox := None\<rparr>) s))"

definition finish_block_for_message :: "nat \<Rightarrow> sched \<Rightarrow> (kmessage \<times> sched) option" where
  "finish_block_for_message cpu s =
     (case take_mailbox cpu s of
        Some (Some km, s') \<Rightarrow> Some (km, s')
      | _ \<Rightarrow> None)"

section \<open>Waking\<close>

definition unblock :: "nat \<Rightarrow> sched \<Rightarrow> sched" where
  "unblock t s =
     (if state (tasks s ! t) = Blocked \<or> is_Sleeping (state (tasks s ! t))
      then upd_task t (\<lambda>x. x\<lparr>state := Ready\<rparr>) s
      else upd_task t (\<lambda>x. x\<lparr>wake_pending := True\<rparr>) s)"

definition deliver :: "nat \<Rightarrow> kmessage \<Rightarrow> sched \<Rightarrow> sched" where
  "deliver t km s =
     (let s1 = upd_task t (\<lambda>x. x\<lparr>mailbox := Some km\<rparr>) s
      in if state (tasks s1 ! t) = Blocked then upd_task t (\<lambda>x. x\<lparr>state := Ready\<rparr>) s1
         else upd_task t (\<lambda>x. x\<lparr>wake_pending := True\<rparr>) s1)"

definition expired :: "u64 \<Rightarrow> task \<Rightarrow> bool" where
  "expired now t \<longleftrightarrow> (case state t of Sleeping u \<Rightarrow> u \<le> now | _ \<Rightarrow> False)"

definition wake_expired :: "u64 option \<Rightarrow> sched \<Rightarrow> bool \<times> sched" where
  "wake_expired clock s =
     (case clock of
        None \<Rightarrow> (False, s)
      | Some now \<Rightarrow>
          (list_ex (expired now) (tasks s),
           s\<lparr>tasks := map (\<lambda>t. if expired now t then t\<lparr>state := Ready\<rparr> else t) (tasks s)\<rparr>))"

section \<open>Requests of the current task\<close>

definition set_class :: "nat \<Rightarrow> u64 \<Rightarrow> sched \<Rightarrow> (int \<times> sched) option" where
  "set_class cpu raw s =
     (case current s ! cpu of
        None \<Rightarrow> None
      | Some p \<Rightarrow>
          let old = task_class (tasks s ! p)
          in if raw = QUERY then Some (uint (class_as_raw old), s)
             else (case class_from_raw raw of
                     None \<Rightarrow> Some (kerror_as_raw InvalidArgument, s)
                   | Some new \<Rightarrow> Some (uint (class_as_raw old), upd_task p (\<lambda>t. t\<lparr>task_class := new\<rparr>) s)))"

text \<open>\<^verbatim>\<open>set_affinity\<close>: the checks and the store, then (after \<^verbatim>\<open>migrate_off\<close> has brought the task to
  an allowed core) the last critical section.\<close>

definition set_affinity_store :: "nat \<Rightarrow> mask \<Rightarrow> mask \<Rightarrow> sched \<Rightarrow> (int + sched) option" where
  "set_affinity_store cpu online m s =
     (if m = 0 then Some (Inl (uint online))
      else if \<not> satisfiable m online then Some (Inl (kerror_as_raw InvalidArgument))
      else case current s ! cpu of
             None \<Rightarrow> None
           | Some p \<Rightarrow> Some (Inr (upd_task p (\<lambda>t. t\<lparr>affinity := m, ran_on := 0\<rparr>) s)))"

definition set_affinity_done :: "nat \<Rightarrow> sched \<Rightarrow> sched option" where
  "set_affinity_done cpu s =
     (case current s ! cpu of
        None \<Rightarrow> None
      | Some p \<Rightarrow> Some (if cpu < 64 then upd_task p (\<lambda>t. t\<lparr>ran_on := ran_on t OR push_bit cpu 1\<rparr>) s else s))"

definition set_death_notify :: "nat \<Rightarrow> nat option \<Rightarrow> sched \<Rightarrow> sched option" where
  "set_death_notify cpu notif s =
     (case current s ! cpu of
        None \<Rightarrow> None
      | Some p \<Rightarrow> Some (upd_task p (\<lambda>t. t\<lparr>death_notify := notif\<rparr>) s))"

definition install_cap_current :: "bool \<Rightarrow> nat \<Rightarrow> cap \<Rightarrow> sched \<Rightarrow> (nat option \<times> sched) option" where
  "install_cap_current reserve cpu c s =
     (case current s ! cpu of
        None \<Rightarrow> None
      | Some p \<Rightarrow>
          let k = caps (tasks s ! p); (h, table) = install reserve (cap_tables s ! k) c
          in Some (h, s\<lparr>cap_tables := (cap_tables s)[k := table]\<rparr>))"

text \<open>A lookup in the table a task names, and \<^verbatim>\<open>resolve_cap\<close> for the current one.\<close>

definition task_cap :: "sched \<Rightarrow> nat \<Rightarrow> u32 \<Rightarrow> cap option" where
  "task_cap s p h = (case get (cap_tables s ! caps (tasks s ! p)) (unat h) of Some (Some c) \<Rightarrow> Some c | _ \<Rightarrow> None)"

definition resolve_cap :: "nat \<Rightarrow> u32 \<Rightarrow> sched \<Rightarrow> cap option option" where
  "resolve_cap cpu h s =
     (if h = 0 then Some None
      else case current s ! cpu of
             None \<Rightarrow> None
           | Some p \<Rightarrow> Some (task_cap s p h))"

section \<open>Spawning\<close>

text \<open>The heap reservations for the stack, the task and the table slot are arguments.\<close>

definition new_task :: "nat \<Rightarrow> addr_space \<Rightarrow> nat \<Rightarrow> nat \<Rightarrow> (u64 \<times> u64 \<times> u64) option \<Rightarrow> placements \<Rightarrow> placements \<Rightarrow> task" where
  "new_task i sp p k start sh dev =
     \<lparr>stack_words = STACK_WORDS, state = Ready, tid = i, pid = p, ttbr0 = root sp, space = Some sp,
      caps = k, user_start = start, mailbox = None, wake_pending = False, on_cpu = False,
      death_notify = None, affinity = MASK_ALL, last_cpu = NO_HOME, task_class = Normal, ran_on = 0,
      shared = sh, devices = dev\<rparr>"

definition spawn_user :: "bool \<Rightarrow> bool \<Rightarrow> bool \<Rightarrow> addr_space \<Rightarrow> cap_table \<Rightarrow> sched \<Rightarrow> nat option \<times> sched" where
  "spawn_user stack_ok box_ok table_ok sp table s =
     (if \<not> stack_ok \<or> \<not> box_ok \<or> \<not> table_ok then (None, s)
      else let i = length (tasks s)
           in (Some i,
               s\<lparr>tasks := tasks s @ [new_task i sp i (length (cap_tables s)) None
                    (placements_new MAX_SHARED_MAPPINGS USER_SHARED_VA)
                    (placements_new MAX_DEVICE_MAPPINGS USER_DEV_VA)],
                 cap_tables := cap_tables s @ [table]\<rparr>))"

text \<open>The anonymous-memory cursor is kept in step across every task of one address space.\<close>

definition set_heap_next :: "u64 \<Rightarrow> addr_space \<Rightarrow> addr_space" where
  "set_heap_next va sp = sp\<lparr>heap_next := va\<rparr>"

definition siblings :: "u64 \<Rightarrow> sched \<Rightarrow> addr_space list" where
  "siblings r s =
     concat (map (\<lambda>t. case space t of None \<Rightarrow> [] | Some sp \<Rightarrow> [sp]) (filter (\<lambda>t. ttbr0 t = r) (tasks s)))"

definition reserve_anon_shared :: "nat \<Rightarrow> u64 \<Rightarrow> sched \<Rightarrow> (addr_space \<times> u64) option \<times> sched" where
  "reserve_anon_shared cur pages s =
     (case get (tasks s) cur of
        None \<Rightarrow> (None, s)
      | Some t \<Rightarrow>
          let r = ttbr0 t; tops = map heap_next (siblings r s)
          in if tops = [] then (None, s)
             else (case space t of
                    None \<Rightarrow> (None, s)
                  | Some sp \<Rightarrow>
                      (case reserve_anon (set_heap_next (Max (set tops)) sp) pages of
                         None \<Rightarrow> (None, s)
                       | Some (va, sp') \<Rightarrow>
                           (Some (sp', va),
                            s\<lparr>tasks := map (\<lambda>x. if ttbr0 x = r
                                 then x\<lparr>space := map_option (set_heap_next (heap_next sp')) (space x)\<rparr> else x) (tasks s)\<rparr>))))"

text \<open>\<^verbatim>\<open>spawn_thread\<close>: the snapshot of the creator, the reserved stack and the new task. \<open>map_ok\<close>
  says whether the frames for the stack could be mapped.\<close>

definition spawn_thread ::
  "bool \<Rightarrow> bool \<Rightarrow> bool \<Rightarrow> bool \<Rightarrow> nat \<Rightarrow> u64 \<Rightarrow> u64 \<Rightarrow> u64 \<Rightarrow> sched \<Rightarrow> (int \<times> sched) option" where
  "spawn_thread map_ok stack_ok box_ok table_ok cpu entry_va stack_pages arg s =
     (case current s ! cpu of
        None \<Rightarrow> None
      | Some p \<Rightarrow>
          (case space (tasks s ! p) of
             None \<Rightarrow> Some (kerror_as_raw InvalidArgument, s)
           | Some _ \<Rightarrow>
               let t = tasks s ! p
               in (case reserve_anon_shared p stack_pages s of
                    (None, s1) \<Rightarrow> Some (kerror_as_raw OutOfResources, s1)
                  | (Some (sp, stack_base), s1) \<Rightarrow>
                      if \<not> map_ok \<or> \<not> stack_ok \<or> \<not> box_ok \<or> \<not> table_ok
                      then Some (kerror_as_raw OutOfResources, s1)
                      else let i = length (tasks s1);
                               user_sp = (stack_base + stack_pages * PAGE_4K) AND (NOT 0xf)
                           in Some (int i,
                                s1\<lparr>tasks := tasks s1 @ [new_task i sp (pid t) (caps t)
                                     (Some (entry_va, user_sp, arg)) (shared t) (devices t)]\<rparr>))))"

section \<open>Mappings\<close>

text \<open>The placement half of \<^verbatim>\<open>map_shared_current\<close> and \<^verbatim>\<open>map_device_current\<close>, and their result;
  \<open>map_ok\<close> says whether the page tables could be extended.\<close>

definition map_shared_current :: "bool \<Rightarrow> nat \<Rightarrow> object_ref \<Rightarrow> u32 \<Rightarrow> sched \<Rightarrow> (int \<times> sched) option" where
  "map_shared_current map_ok cpu ob pages s =
     (case current s ! cpu of
        None \<Rightarrow> None
      | Some p \<Rightarrow>
          (case placements_find (shared (tasks s ! p)) ob of
             Some va \<Rightarrow> Some (uint va, s)
           | None \<Rightarrow>
               (case placements_place (shared (tasks s ! p)) ob pages of
                  (None, _) \<Rightarrow> Some (kerror_as_raw OutOfResources, s)
                | (Some va, pl) \<Rightarrow>
                    let s1 = upd_task p (\<lambda>t. t\<lparr>shared := pl\<rparr>) s
                    in (case space (tasks s ! p) of
                          None \<Rightarrow> Some (kerror_as_raw InvalidArgument, s1)
                        | Some _ \<Rightarrow> Some (if map_ok then uint va else kerror_as_raw OutOfResources, s1)))))"

definition map_device_current :: "bool \<Rightarrow> nat \<Rightarrow> object_ref \<Rightarrow> u64 \<Rightarrow> sched \<Rightarrow> (int \<times> sched) option" where
  "map_device_current map_ok cpu ob dev_phys s =
     (let page_off = dev_phys AND (PAGE_4K - 1)
      in case current s ! cpu of
           None \<Rightarrow> None
         | Some p \<Rightarrow>
             (case placements_find (devices (tasks s ! p)) ob of
                Some va \<Rightarrow> Some (uint (va + page_off), s)
              | None \<Rightarrow>
                  (case placements_place (devices (tasks s ! p)) ob 1 of
                     (None, _) \<Rightarrow> Some (kerror_as_raw OutOfResources, s)
                   | (Some va, pl) \<Rightarrow>
                       let s1 = upd_task p (\<lambda>t. t\<lparr>devices := pl\<rparr>) s
                       in (case space (tasks s ! p) of
                             None \<Rightarrow> Some (kerror_as_raw InvalidArgument, s1)
                           | Some _ \<Rightarrow> Some (if map_ok then uint (va + page_off) else kerror_as_raw OutOfResources, s1)))))"

end
