(* ===== verification/SchedulerInv.thy ===== *)
theory SchedulerInv
  imports Scheduler
begin

text \<open>
  The scheduler's safety argument. The invariant says that the tasks marked \<open>Running\<close> are
  exactly the cores' current ones, that a task's \<open>on_cpu\<close> flag is set exactly while some core
  runs it or has left it and not yet released it, that no task is held by two cores, and that
  only a dead task has lost its stack. Every critical section of the scheduler preserves it,
  so it holds in every reachable state, whatever the interleaving of the cores.
\<close>

section \<open>The invariant\<close>

definition runs_on :: "sched \<Rightarrow> nat \<Rightarrow> nat \<Rightarrow> bool" where
  "runs_on s cpu i \<longleftrightarrow> cpu < MAX_CPUS \<and> current s ! cpu = Some i"

definition leaves :: "sched \<Rightarrow> nat \<Rightarrow> nat \<Rightarrow> bool" where
  "leaves s cpu i \<longleftrightarrow> cpu < MAX_CPUS \<and> prev s ! cpu = Some i"

definition sched_inv :: "sched \<Rightarrow> bool" where
  "sched_inv s \<longleftrightarrow>
     length (current s) = MAX_CPUS \<and> length (prev s) = MAX_CPUS
     \<and> (\<forall>c d i. runs_on s c i \<and> runs_on s d i \<longrightarrow> c = d)
     \<and> (\<forall>c d i. leaves s c i \<and> leaves s d i \<longrightarrow> c = d)
     \<and> (\<forall>c d i. \<not> (runs_on s c i \<and> leaves s d i))
     \<and> (\<forall>c i. runs_on s c i \<or> leaves s c i \<longrightarrow> i < length (tasks s))
     \<and> (\<forall>i<length (tasks s). state (tasks s ! i) = Running \<longleftrightarrow> (\<exists>c. runs_on s c i))
     \<and> (\<forall>i<length (tasks s). on_cpu (tasks s ! i) \<longleftrightarrow> (\<exists>c. runs_on s c i \<or> leaves s c i))
     \<and> (\<forall>i<length (tasks s). stack_words (tasks s ! i) = 0 \<longrightarrow> state (tasks s ! i) = Dead)"

lemma sched_invD:
  assumes "sched_inv s"
  shows "length (current s) = MAX_CPUS" "length (prev s) = MAX_CPUS"
    and "runs_on s c i \<Longrightarrow> runs_on s d i \<Longrightarrow> c = d"
    and "leaves s c i \<Longrightarrow> leaves s d i \<Longrightarrow> c = d"
    and "runs_on s c i \<Longrightarrow> \<not> leaves s d i"
    and "runs_on s c i \<Longrightarrow> i < length (tasks s)" "leaves s c i \<Longrightarrow> i < length (tasks s)"
    and "i < length (tasks s) \<Longrightarrow> state (tasks s ! i) = Running \<longleftrightarrow> (\<exists>c. runs_on s c i)"
    and "i < length (tasks s) \<Longrightarrow> on_cpu (tasks s ! i) \<longleftrightarrow> (\<exists>c. runs_on s c i \<or> leaves s c i)"
    and "i < length (tasks s) \<Longrightarrow> stack_words (tasks s ! i) = 0 \<Longrightarrow> state (tasks s ! i) = Dead"
proof -
  note d = assms [unfolded sched_inv_def]
  note d3 = d [THEN conjunct2, THEN conjunct2]
  note d4 = d3 [THEN conjunct2]
  note d5 = d4 [THEN conjunct2]
  note d6 = d5 [THEN conjunct2]
  show "length (current s) = MAX_CPUS" "length (prev s) = MAX_CPUS" using d by simp_all
  show "runs_on s c i \<Longrightarrow> runs_on s d i \<Longrightarrow> c = d" using d3 [THEN conjunct1] by blast
  show "leaves s c i \<Longrightarrow> leaves s d i \<Longrightarrow> c = d" using d4 [THEN conjunct1] by blast
  show "runs_on s c i \<Longrightarrow> \<not> leaves s d i" using d5 [THEN conjunct1] by blast
  show "runs_on s c i \<Longrightarrow> i < length (tasks s)" "leaves s c i \<Longrightarrow> i < length (tasks s)"
    using d6 [THEN conjunct1] by blast+
  show "i < length (tasks s) \<Longrightarrow> state (tasks s ! i) = Running \<longleftrightarrow> (\<exists>c. runs_on s c i)" using d by simp
  show "i < length (tasks s) \<Longrightarrow> on_cpu (tasks s ! i) \<longleftrightarrow> (\<exists>c. runs_on s c i \<or> leaves s c i)" using d by simp
  show "i < length (tasks s) \<Longrightarrow> stack_words (tasks s ! i) = 0 \<Longrightarrow> state (tasks s ! i) = Dead" using d by simp
qed

lemma sched_invI:
  assumes "length (current s) = MAX_CPUS" "length (prev s) = MAX_CPUS"
    and "\<And>c d i. runs_on s c i \<Longrightarrow> runs_on s d i \<Longrightarrow> c = d"
    and "\<And>c d i. leaves s c i \<Longrightarrow> leaves s d i \<Longrightarrow> c = d"
    and "\<And>c d i. runs_on s c i \<Longrightarrow> \<not> leaves s d i"
    and "\<And>c i. runs_on s c i \<Longrightarrow> i < length (tasks s)" "\<And>c i. leaves s c i \<Longrightarrow> i < length (tasks s)"
    and "\<And>i. i < length (tasks s) \<Longrightarrow> state (tasks s ! i) = Running \<longleftrightarrow> (\<exists>c. runs_on s c i)"
    and "\<And>i. i < length (tasks s) \<Longrightarrow> on_cpu (tasks s ! i) \<longleftrightarrow> (\<exists>c. runs_on s c i \<or> leaves s c i)"
    and "\<And>i. i < length (tasks s) \<Longrightarrow> stack_words (tasks s ! i) = 0 \<Longrightarrow> state (tasks s ! i) = Dead"
  shows "sched_inv s"
  unfolding sched_inv_def using assms by (intro conjI allI impI) metis+

text \<open>The facts of a task the invariant speaks about: running, held, stack freed, dead.\<close>

definition view :: "task \<Rightarrow> bool \<times> bool \<times> bool \<times> bool" where
  "view t = (state t = Running, on_cpu t, stack_words t = 0, state t = Dead)"

lemma sched_inv_cong:
  assumes "sched_inv s" "current s' = current s" "prev s' = prev s" "length (tasks s') = length (tasks s)"
    and "\<And>i. i < length (tasks s) \<Longrightarrow> view (tasks s' ! i) = view (tasks s ! i)"
  shows "sched_inv s'"
proof -
  have "runs_on s' = runs_on s" "leaves s' = leaves s" using assms(2,3) by (simp_all add: runs_on_def leaves_def fun_eq_iff)
  moreover have "i < length (tasks s) \<Longrightarrow>
      (state (tasks s' ! i) = Running \<longleftrightarrow> state (tasks s ! i) = Running)
      \<and> on_cpu (tasks s' ! i) = on_cpu (tasks s ! i)
      \<and> (stack_words (tasks s' ! i) = 0 \<longleftrightarrow> stack_words (tasks s ! i) = 0)
      \<and> (state (tasks s' ! i) = Dead \<longleftrightarrow> state (tasks s ! i) = Dead)" for i
    using assms(5) [of i] by (simp add: view_def)
  ultimately show ?thesis using assms(1-4) unfolding sched_inv_def by simp
qed

text \<open>Storing to fields of a task that the invariant does not read.\<close>

lemma sched_inv_upd:
  assumes "sched_inv s" "view (f (tasks s ! i)) = view (tasks s ! i)"
  shows "sched_inv (upd_task i f s)"
  using assms(1)
proof (rule sched_inv_cong)
  show "view (tasks (upd_task i f s) ! j) = view (tasks s ! j)" if "j < length (tasks s)" for j
    using that assms(2) by (cases "i = j") (simp_all add: upd_task_def)
qed (simp_all add: upd_task_def)

text \<open>Core \<open>cpu\<close> leaves \<open>cp\<close> for \<open>nx\<close>, either of which may be its idle context.\<close>

lemma sched_inv_switch:
  assumes inv: "sched_inv s" and cpu: "cpu < MAX_CPUS" "current s ! cpu = cp" "prev s ! cpu = None"
    and cur: "current s' = (current s)[cpu := nx]" and prv: "prev s' = (prev s)[cpu := cp]"
    and len: "length (tasks s') = length (tasks s)"
    and nx: "\<And>i. nx = Some i \<Longrightarrow> i < length (tasks s) \<and> \<not> on_cpu (tasks s ! i)"
    and tk: "\<And>i. i < length (tasks s) \<Longrightarrow>
      (state (tasks s' ! i) = Running \<longleftrightarrow> state (tasks s ! i) = Running \<and> cp \<noteq> Some i \<or> nx = Some i)
      \<and> (on_cpu (tasks s' ! i) \<longleftrightarrow> on_cpu (tasks s ! i) \<or> nx = Some i)
      \<and> (stack_words (tasks s' ! i) = 0 \<longrightarrow> state (tasks s' ! i) = Dead)"
  shows "sched_inv s'"
proof -
  note d = sched_invD [OF inv]
  have r: "runs_on s' c i \<longleftrightarrow> (if c = cpu then nx = Some i else runs_on s c i)" for c i
    using cpu(1) d(1) by (auto simp: runs_on_def cur nth_list_update)
  have l: "leaves s' c i \<longleftrightarrow> (if c = cpu then cp = Some i else leaves s c i)" for c i
    using cpu(1) d(2) by (auto simp: leaves_def prv nth_list_update)
  have cp: "cp = Some i \<longleftrightarrow> runs_on s cpu i" for i using cpu by (simp add: runs_on_def)
  have np: "\<not> leaves s cpu i" for i using cpu by (simp add: leaves_def)
  have fresh: "\<not> runs_on s c i" "\<not> leaves s c i" if "nx = Some i" for c i
    using nx [OF that] d(9) [of i] by auto
  have "\<forall>c d i. runs_on s' c i \<and> runs_on s' d i \<longrightarrow> c = d" using d(3) fresh by (auto simp: r)
  moreover have "\<forall>c d i. leaves s' c i \<and> leaves s' d i \<longrightarrow> c = d" using d(4,5) by (auto simp: l cp)
  moreover have "\<forall>c d i. \<not> (runs_on s' c i \<and> leaves s' d i)" using d(3,5) fresh by (auto simp: r l cp)
  moreover have "\<forall>c i. runs_on s' c i \<or> leaves s' c i \<longrightarrow> i < length (tasks s')"
    using d(6,7) nx by (auto simp: r l cp len)
  moreover have "(\<exists>c. runs_on s' c i) \<longleftrightarrow> (\<exists>c. runs_on s c i) \<and> cp \<noteq> Some i \<or> nx = Some i" for i
    unfolding r cp using d(3) by (metis (full_types))
  then have "\<forall>i<length (tasks s'). state (tasks s' ! i) = Running \<longleftrightarrow> (\<exists>c. runs_on s' c i)"
    using tk d(8) by (simp add: len)
  moreover have "(\<exists>c. runs_on s' c i \<or> leaves s' c i) \<longleftrightarrow> (\<exists>c. runs_on s c i \<or> leaves s c i) \<or> nx = Some i" for i
    unfolding r l cp using np by (metis (full_types))
  then have "\<forall>i<length (tasks s'). on_cpu (tasks s' ! i) \<longleftrightarrow> (\<exists>c. runs_on s' c i \<or> leaves s' c i)"
    using tk d(9) by (simp add: len)
  moreover have "\<forall>i<length (tasks s'). stack_words (tasks s' ! i) = 0 \<longrightarrow> state (tasks s' ! i) = Dead"
    using tk by (auto simp: len)
  moreover have "length (current s') = MAX_CPUS" "length (prev s') = MAX_CPUS" using d(1,2) by (simp_all add: cur prv)
  ultimately show ?thesis unfolding sched_inv_def by blast
qed

section \<open>The operations\<close>

lemma advance_simps [simp]:
  "tasks (advance c h s) = tasks s" "current (advance c h s) = current s" "prev (advance c h s) = prev s"
  "cap_tables (advance c h s) = cap_tables s"
  by (simp_all add: advance_def)

lemma account_simps [simp]:
  "tasks (account c f n s) = tasks s" "current (account c f n s) = current s" "prev (account c f n s) = prev s"
  "picks_by_class (account c f n s) = picks_by_class s" "cap_tables (account c f n s) = cap_tables s"
  by (simp_all add: account_def Let_def)

lemma upd_task_simps [simp]:
  "current (upd_task i f s) = current s" "prev (upd_task i f s) = prev s"
  "length (tasks (upd_task i f s)) = length (tasks s)" "cap_tables (upd_task i f s) = cap_tables s"
  by (simp_all add: upd_task_def)

lemma upd_task_nth:
  "i < length (tasks s) \<Longrightarrow> tasks (upd_task i f s) ! j = (if j = i then f (tasks s ! i) else tasks s ! j)"
  by (simp add: upd_task_def nth_list_update)

definition taken :: "nat \<Rightarrow> task \<Rightarrow> task" where
  "taken cpu t = t\<lparr>state := Running, on_cpu := True, last_cpu := cpu,
     ran_on := (if cpu < 64 then ran_on t OR push_bit cpu 1 else ran_on t)\<rparr>"

lemma take_task_simps:
  "tasks (take_task cpu f n s) = (tasks s)[n := taken cpu (tasks s ! n)]"
  "current (take_task cpu f n s) = (current s)[cpu := Some n]"
  "prev (take_task cpu f n s) = prev s"
  by (simp_all add: take_task_def upd_task_def taken_def Let_def)

text \<open>What a pick promises; it changes nothing but the pick counters.\<close>

lemma pick_frame:
  assumes "pick cpu frm s = (r, s')"
  shows "tasks s' = tasks s" "current s' = current s" "prev s' = prev s"
  using assms by (auto simp: pick_def Let_def)

lemma pick_sound:
  assumes "pick cpu frm s = (Some (n, fair), s')" "frm < length (tasks s)"
  shows "n < length (tasks s)" "n \<noteq> frm" "pickable s n cpu"
proof -
  have "class_choose (length (tasks s)) frm (picks s ! cpu) (\<lambda>i. pickable s i cpu) (\<lambda>i. sticky s i cpu)
      (\<lambda>i. task_class (tasks s ! i)) = Some n"
    using assms(1) by (auto simp: pick_def Let_def)
  from next_picker.scan_sound [OF this [unfolded class_choose_def]] assms(2)
  show "n < length (tasks s)" "n \<noteq> frm" "pickable s n cpu" by auto
qed

lemma pick_idle_sound:
  assumes "pick_idle cpu s = (r, s')"
  shows "tasks s' = tasks s \<and> current s' = current s \<and> prev s' = prev s
       \<and> (\<forall>n. r = Some n \<longrightarrow> n < length (tasks s) \<and> pickable s n cpu)"
proof -
  have "n < length (tasks s) \<and> pickable s n cpu" if "r = Some n" for n
  proof -
    have "class_choose_first (length (tasks s)) (picks s ! cpu) (\<lambda>i. pickable s i cpu) (\<lambda>i. sticky s i cpu)
        (\<lambda>i. task_class (tasks s ! i)) = Some n"
      using assms that by (auto simp: pick_idle_def Let_def)
    from first_picker.scan_sound [OF this [unfolded class_choose_first_def]] show ?thesis by auto
  qed
  then show ?thesis using assms by (auto simp: pick_idle_def Let_def)
qed

lemma leave_inv:
  assumes inv: "sched_inv s" and c: "runs_on s cpu p" "prev s ! cpu = None"
    and f: "state (f (tasks s ! p)) \<noteq> Running" "on_cpu (f (tasks s ! p))"
      "stack_words (f (tasks s ! p)) = stack_words (tasks s ! p)"
  shows "sched_inv (leave cpu p (upd_task p f s))"
proof -
  note d = sched_invD [OF inv]
  have p: "p < length (tasks s)" "state (tasks s ! p) = Running" "on_cpu (tasks s ! p)" "cpu < MAX_CPUS" "current s ! cpu = Some p"
    using d(6) d(8) [of p] d(9) [of p] c(1) by (auto simp: runs_on_def)
  have stk: "stack_words (tasks s ! p) \<noteq> 0" using d(10) [OF p(1)] p(2) by auto
  define s0 where "s0 = (upd_task p f s)\<lparr>prev := (prev s)[cpu := Some p]\<rparr>"
  have t0: "tasks s0 ! i = (if i = p then f (tasks s ! p) else tasks s ! i)" for i
    using p(1) by (simp add: s0_def upd_task_nth)
  obtain r s1 where r: "pick cpu p s0 = (r, s1)" by fastforce
  note fr = pick_frame [OF r]
  show ?thesis
  proof (cases r)
    case None
    then have e: "leave cpu p (upd_task p f s) = s1\<lparr>current := (current s1)[cpu := None]\<rparr>"
      using r by (simp add: leave_def s0_def)
    show ?thesis unfolding e
    proof (rule sched_inv_switch [OF inv p(4,5) c(2), where nx = None])
      show "(state (tasks (s1\<lparr>current := (current s1)[cpu := None]\<rparr>) ! i) = Running \<longleftrightarrow>
            state (tasks s ! i) = Running \<and> Some p \<noteq> Some i \<or> None = Some i)
          \<and> (on_cpu (tasks (s1\<lparr>current := (current s1)[cpu := None]\<rparr>) ! i) \<longleftrightarrow> on_cpu (tasks s ! i) \<or> None = Some i)
          \<and> (stack_words (tasks (s1\<lparr>current := (current s1)[cpu := None]\<rparr>) ! i) = 0 \<longrightarrow>
               state (tasks (s1\<lparr>current := (current s1)[cpu := None]\<rparr>) ! i) = Dead)"
        if "i < length (tasks s)" for i
        using that d(10) [of i] f p stk by (auto simp: fr t0)
    qed (simp_all add: fr s0_def)
  next
    case (Some nf)
    then obtain n fair where nf: "r = Some (n, fair)" by (cases nf) auto
    have n: "n < length (tasks s)" "n \<noteq> p" "\<not> on_cpu (tasks s ! n)" "state (tasks s ! n) = Ready"
      using pick_sound [OF r [unfolded nf]] p(1) by (auto simp: s0_def pickable_def upd_task_nth)
    then have stn: "stack_words (tasks s ! n) \<noteq> 0" using d(10) [of n] by auto
    have e: "leave cpu p (upd_task p f s) = take_task cpu (Some p) n s1" using r nf by (simp add: leave_def s0_def)
    have t1: "tasks (take_task cpu (Some p) n s1) ! i =
        (if i = n then taken cpu (tasks s ! n) else if i = p then f (tasks s ! p) else tasks s ! i)" for i
      using n p(1) by (simp add: take_task_simps fr t0 nth_list_update) (simp add: s0_def)
    show ?thesis unfolding e
    proof (rule sched_inv_switch [OF inv p(4,5) c(2), where nx = "Some n"])
      show "(state (tasks (take_task cpu (Some p) n s1) ! i) = Running \<longleftrightarrow>
            state (tasks s ! i) = Running \<and> Some p \<noteq> Some i \<or> Some n = Some i)
          \<and> (on_cpu (tasks (take_task cpu (Some p) n s1) ! i) \<longleftrightarrow> on_cpu (tasks s ! i) \<or> Some n = Some i)
          \<and> (stack_words (tasks (take_task cpu (Some p) n s1) ! i) = 0 \<longrightarrow>
               state (tasks (take_task cpu (Some p) n s1) ! i) = Dead)"
        if "i < length (tasks s)" for i
        unfolding t1 using that d(10) [of i] f p n stk stn by (auto simp: taken_def)
    qed (use n in \<open>simp_all add: take_task_simps fr s0_def\<close>)
  qed
qed

lemma reschedule_inv:
  assumes inv: "sched_inv s" and c: "cpu < MAX_CPUS" "prev s ! cpu = None"
  shows "sched_inv (reschedule cpu h s)"
proof (cases "current s ! cpu")
  case None
  then show ?thesis using inv by (simp add: reschedule_def)
next
  case (Some p)
  note d = sched_invD [OF inv]
  have rp: "runs_on s cpu p" using c Some by (simp add: runs_on_def)
  have p: "p < length (tasks s)" "state (tasks s ! p) = Running" "on_cpu (tasks s ! p)"
    using d(6) d(8) [of p] d(9) [of p] rp by auto
  have stk: "stack_words (tasks s ! p) \<noteq> 0" using d(10) [OF p(1)] p(2) by auto
  obtain r s1 where r: "pick cpu p s = (r, s1)" by fastforce
  note fr = pick_frame [OF r]
  have inv1: "sched_inv s1" using inv by (rule sched_inv_cong) (simp_all add: fr)
  show ?thesis
  proof (cases r)
    case None
    then show ?thesis using Some r inv1 by (simp add: reschedule_def)
  next
    case nf: (Some nf)
    obtain n fair where nf: "r = Some (n, fair)" using nf by (cases nf) auto
    have n: "n < length (tasks s)" "n \<noteq> p" "\<not> on_cpu (tasks s ! n)" "state (tasks s ! n) = Ready"
      using pick_sound [OF r [unfolded nf] p(1)] by (auto simp: pickable_def)
    then have stn: "stack_words (tasks s ! n) \<noteq> 0" using d(10) [of n] by auto
    show ?thesis
    proof (cases "h \<and> \<not> should_switch (task_class (tasks s1 ! p)) (task_class (tasks s1 ! n)) fair")
      case True
      then have "reschedule cpu h s = s1\<lparr>held_back := held_back s1 + 1\<rparr>"
        using Some r nf by (simp add: reschedule_def)
      then show ?thesis using sched_inv_cong [OF inv1] by simp
    next
      case False
      define s2 where "s2 = upd_task p (\<lambda>t. t\<lparr>state := Ready\<rparr>) s1"
      define s3 where "s3 = take_task cpu (Some p) n s2"
      define s4 where "s4 = s3\<lparr>switches := (switches s3)[cpu := switches s3 ! cpu + 1], prev := (prev s3)[cpu := Some p]\<rparr>"
      have e: "reschedule cpu h s = s4"
        using False Some r nf p(2) by (auto simp: reschedule_def Let_def fr s2_def s3_def s4_def)
      have t: "tasks s4 ! i = (if i = n then taken cpu (tasks s ! n) else if i = p then (tasks s ! p)\<lparr>state := Ready\<rparr> else tasks s ! i)" for i
        using n p(1) by (auto simp: s4_def s3_def s2_def take_task_simps upd_task_nth fr nth_list_update)
      show ?thesis unfolding e
      proof (rule sched_inv_switch [OF inv c(1) Some c(2), where nx = "Some n"])
        show "(state (tasks s4 ! i) = Running \<longleftrightarrow> state (tasks s ! i) = Running \<and> Some p \<noteq> Some i \<or> Some n = Some i)
            \<and> (on_cpu (tasks s4 ! i) \<longleftrightarrow> on_cpu (tasks s ! i) \<or> Some n = Some i)
            \<and> (stack_words (tasks s4 ! i) = 0 \<longrightarrow> state (tasks s4 ! i) = Dead)"
          if "i < length (tasks s)" for i
          unfolding t using that d(10) [of i] p n stk stn by (auto simp: taken_def)
      qed (use n in \<open>simp_all add: s4_def s3_def s2_def take_task_simps fr\<close>)
    qed
  qed
qed

lemma start_pick_inv:
  assumes inv: "sched_inv s" and c: "cpu < MAX_CPUS" "current s ! cpu = None" "prev s ! cpu = None"
  shows "sched_inv (snd (start_pick cpu s))"
proof -
  note d = sched_invD [OF inv]
  obtain r s1 where r: "pick_idle cpu s = (r, s1)" by fastforce
  note P = pick_idle_sound [OF r]
  show ?thesis
  proof (cases r)
    case None
    then have "start_pick cpu s = (False, s1)" using r by (simp add: start_pick_def)
    then show ?thesis using sched_inv_cong [OF inv, of s1] P by simp
  next
    case (Some n)
    define s2 where "s2 = take_task cpu None n s1"
    have e: "start_pick cpu s = (True, s2\<lparr>prev := (prev s2)[cpu := None]\<rparr>)"
      using r Some by (simp add: start_pick_def s2_def Let_def)
    have n: "n < length (tasks s)" "\<not> on_cpu (tasks s ! n)" "state (tasks s ! n) = Ready"
      using P Some by (auto simp: pickable_def)
    have stn: "stack_words (tasks s ! n) \<noteq> 0" using d(10) [of n] n by auto
    have t: "tasks s2 ! i = (if i = n then taken cpu (tasks s ! n) else tasks s ! i)" for i
      using n P by (simp add: s2_def take_task_simps nth_list_update)
    show ?thesis unfolding e snd_conv
    proof (rule sched_inv_switch [OF inv c, where nx = "Some n"])
      show "(state (tasks (s2\<lparr>prev := (prev s2)[cpu := None]\<rparr>) ! i) = Running \<longleftrightarrow>
            state (tasks s ! i) = Running \<and> None \<noteq> Some i \<or> Some n = Some i)
          \<and> (on_cpu (tasks (s2\<lparr>prev := (prev s2)[cpu := None]\<rparr>) ! i) \<longleftrightarrow> on_cpu (tasks s ! i) \<or> Some n = Some i)
          \<and> (stack_words (tasks (s2\<lparr>prev := (prev s2)[cpu := None]\<rparr>) ! i) = 0 \<longrightarrow>
               state (tasks (s2\<lparr>prev := (prev s2)[cpu := None]\<rparr>) ! i) = Dead)"
        if "i < length (tasks s)" for i
        using that d(10) [of i] n stn by (auto simp: t taken_def)
    qed (use n P in \<open>simp_all add: s2_def take_task_simps\<close>)
  qed
qed

lemma post_switch_tasks:
  assumes "prev s ! cpu = Some p" "p < length (tasks s)"
  shows "current (post_switch cpu s) = current s" "prev (post_switch cpu s) = (prev s)[cpu := None]"
    and "length (tasks (post_switch cpu s)) = length (tasks s)"
    and "j \<noteq> p \<Longrightarrow> tasks (post_switch cpu s) ! j = tasks s ! j"
    and "state (tasks (post_switch cpu s) ! p) = state (tasks s ! p)"
    and "\<not> on_cpu (tasks (post_switch cpu s) ! p)"
    and "stack_words (tasks (post_switch cpu s) ! p) = (if state (tasks s ! p) = Dead then 0 else stack_words (tasks s ! p))"
  using assms by (auto simp: post_switch_def upd_task_def Let_def)

lemma post_switch_inv:
  assumes inv: "sched_inv s" and c: "cpu < MAX_CPUS"
  shows "sched_inv (post_switch cpu s)"
proof (cases "prev s ! cpu")
  case None
  then show ?thesis using inv by (simp add: post_switch_def)
next
  case (Some p)
  note d = sched_invD [OF inv]
  have lp: "leaves s cpu p" using c Some by (simp add: leaves_def)
  note T = post_switch_tasks [OF Some d(7) [OF lp]]
  let ?s = "post_switch cpu s"
  have r: "runs_on ?s = runs_on s" by (simp add: runs_on_def T fun_eq_iff)
  have l: "leaves ?s e i \<longleftrightarrow> leaves s e i \<and> e \<noteq> cpu" for e i
    using c d(2) by (auto simp: leaves_def T nth_list_update)
  have gone: "\<not> leaves ?s e p" "\<not> runs_on s e p" for e
    using d(4) [OF lp, of e] d(5) [of e p cpu] lp l by blast+
  have st: "state (tasks ?s ! i) = state (tasks s ! i)" for i by (cases "i = p") (simp_all add: T)
  have oc: "on_cpu (tasks ?s ! i) \<longleftrightarrow> on_cpu (tasks s ! i) \<and> i \<noteq> p" for i by (cases "i = p") (simp_all add: T)
  have keep: "i \<noteq> p \<Longrightarrow> leaves ?s e i \<longleftrightarrow> leaves s e i" for e i
    unfolding l using Some by (auto simp: leaves_def)
  have on: "on_cpu (tasks ?s ! i) \<longleftrightarrow> (\<exists>e. runs_on ?s e i \<or> leaves ?s e i)" if "i < length (tasks s)" for i
    using d(9) [OF that] gone keep [of i] by (cases "i = p") (auto simp: oc r)
  have sw: "stack_words (tasks ?s ! i) = 0 \<Longrightarrow> state (tasks ?s ! i) = Dead" if "i < length (tasks s)" for i
    using d(10) [OF that] by (cases "i = p") (auto simp: T split: if_splits)
  show ?thesis
  proof (rule sched_invI)
    show "i < length (tasks ?s) \<Longrightarrow> (state (tasks ?s ! i) = Running) = (\<exists>c. runs_on ?s c i)" for i
      using d(8) [of i] by (simp add: T(3) st r)
    show "i < length (tasks ?s) \<Longrightarrow> on_cpu (tasks ?s ! i) = (\<exists>c. runs_on ?s c i \<or> leaves ?s c i)" for i
      using on by (simp add: T(3))
    show "i < length (tasks ?s) \<Longrightarrow> stack_words (tasks ?s ! i) = 0 \<Longrightarrow> state (tasks ?s ! i) = Dead" for i
      using sw by (simp add: T(3))
    show "runs_on ?s e i \<Longrightarrow> runs_on ?s e' i \<Longrightarrow> e = e'" for e e' i using d(3) by (simp add: r)
    show "leaves ?s e i \<Longrightarrow> leaves ?s e' i \<Longrightarrow> e = e'" for e e' i using d(4) l by blast
    show "runs_on ?s e i \<Longrightarrow> \<not> leaves ?s e' i" for e e' i using d(5) by (simp add: r l)
    show "runs_on ?s e i \<Longrightarrow> i < length (tasks ?s)" "leaves ?s e i \<Longrightarrow> i < length (tasks ?s)" for e i
      using d(6) [of e i] d(7) [of e i] l [of e i] by (auto simp: r T(3))
  qed (simp_all add: T(1,2) d(1,2))
qed

lemma exit_switch_inv:
  assumes "sched_inv s" "cpu < MAX_CPUS" "prev s ! cpu = None" "exit_switch cpu s = Some (sp, s')"
  shows "sched_inv s'"
proof -
  obtain p where p: "current s ! cpu = Some p" "s' = leave cpu p (upd_task p (\<lambda>t. t\<lparr>state := Dead, space := None\<rparr>) s)"
    using assms(4) by (auto simp: exit_switch_def Let_def split: option.splits)
  then have r: "runs_on s cpu p" using assms(2) by (simp add: runs_on_def)
  then have "on_cpu (tasks s ! p)" using sched_invD(6,9) [OF assms(1)] by blast
  then show ?thesis unfolding p(2) by (intro leave_inv [OF assms(1) r assms(3)]) simp_all
qed

lemma migrate_off_inv:
  assumes "sched_inv s" "cpu < MAX_CPUS" "prev s ! cpu = None"
  shows "sched_inv (migrate_off cpu s)"
proof (cases "current s ! cpu")
  case None
  then show ?thesis using assms(1) by (simp add: migrate_off_def)
next
  case (Some p)
  then have r: "runs_on s cpu p" using assms(2) by (simp add: runs_on_def)
  then have "on_cpu (tasks s ! p)" using sched_invD(6,9) [OF assms(1)] by blast
  then have "sched_inv (leave cpu p (upd_task p (\<lambda>t. t\<lparr>state := Ready\<rparr>) s))"
    by (intro leave_inv [OF assms(1) r assms(3)]) simp_all
  then show ?thesis using Some by (simp add: migrate_off_def)
qed

lemma park_and_switch_inv:
  assumes "sched_inv s" "cpu < MAX_CPUS" "prev s ! cpu = None" "parked = Blocked \<or> is_Sleeping parked"
    and "park_and_switch cpu parked s = Some (left, s')"
  shows "sched_inv s'"
proof -
  obtain p where p: "current s ! cpu = Some p" using assms(5) by (auto simp: park_and_switch_def split: option.splits)
  then have r: "runs_on s cpu p" using assms(2) by (simp add: runs_on_def)
  then have o: "on_cpu (tasks s ! p)" using sched_invD(6,9) [OF assms(1)] by blast
  show ?thesis
  proof (cases "wake_pending (tasks s ! p)")
    case True
    then show ?thesis using assms(5) p sched_inv_upd [OF assms(1), of "\<lambda>t. t\<lparr>wake_pending := False\<rparr>" p]
      by (simp add: park_and_switch_def view_def)
  next
    case False
    then have e: "s' = leave cpu p (upd_task p (\<lambda>t. t\<lparr>state := parked\<rparr>) s)"
      using assms(5) p by (simp add: park_and_switch_def)
    show ?thesis unfolding e using assms(4) o by (intro leave_inv [OF assms(1) r assms(3)]) auto
  qed
qed

lemma unblock_inv: "sched_inv s \<Longrightarrow> sched_inv (unblock t s)"
  unfolding unblock_def by (auto intro!: sched_inv_upd simp: view_def)

lemma deliver_inv: "sched_inv s \<Longrightarrow> sched_inv (deliver t km s)"
  unfolding deliver_def Let_def by (auto intro!: sched_inv_upd simp: view_def)

lemma wake_expired_inv:
  assumes "sched_inv s"
  shows "sched_inv (snd (wake_expired clock s))"
proof (cases clock)
  case None
  then show ?thesis using assms by (simp add: wake_expired_def)
next
  case (Some now)
  have "view (if expired now t then t\<lparr>state := Ready\<rparr> else t) = view t" for t
    by (auto simp: view_def expired_def split: task_state.splits)
  then show ?thesis unfolding wake_expired_def Some option.case snd_conv
    by (intro sched_inv_cong [OF assms]) simp_all
qed

lemma spawn_inv:
  assumes inv: "sched_inv s" and t: "state t = Ready" "\<not> on_cpu t" "stack_words t \<noteq> 0"
    and s': "current s' = current s" "prev s' = prev s" "tasks s' = tasks s @ [t]"
  shows "sched_inv s'"
proof -
  note d = sched_invD [OF inv]
  have r: "runs_on s' = runs_on s" "leaves s' = leaves s" by (simp_all add: runs_on_def leaves_def s' fun_eq_iff)
  have out: "\<not> runs_on s c (length (tasks s))" "\<not> leaves s c (length (tasks s))" for c
    using d(6) [of c "length (tasks s)"] d(7) [of c "length (tasks s)"] by auto
  show ?thesis
  proof (rule sched_invI, unfold r)
    fix i assume "i < length (tasks s')"
    then consider "i < length (tasks s)" | "i = length (tasks s)" by (auto simp: s' less_Suc_eq)
    then show "(state (tasks s' ! i) = Running) = (\<exists>c. runs_on s c i)"
      "on_cpu (tasks s' ! i) = (\<exists>c. runs_on s c i \<or> leaves s c i)"
      "stack_words (tasks s' ! i) = 0 \<Longrightarrow> state (tasks s' ! i) = Dead"
      using d(8-10) [of i] t out by (cases; simp add: s' nth_append)+
  next
    show "runs_on s c i \<Longrightarrow> i < length (tasks s')" "leaves s c i \<Longrightarrow> i < length (tasks s')" for c i
      using d(6) [of c i] d(7) [of c i] by (auto simp: s')
  qed (use d(1-5) in \<open>simp_all add: s'\<close>)
qed

lemma reserve_anon_shared_inv:
  assumes "sched_inv s"
  shows "sched_inv (snd (reserve_anon_shared cur pages s))"
proof -
  have v: "view (if ttbr0 x = r then x\<lparr>space := map_option (set_heap_next h) (space x)\<rparr> else x) = view x" for x r h
    by (simp add: view_def)
  have m: "sched_inv (s\<lparr>tasks := map (\<lambda>x. if ttbr0 x = r then x\<lparr>space := map_option (set_heap_next h) (space x)\<rparr> else x) (tasks s)\<rparr>)" for r h
    by (intro sched_inv_cong [OF assms]) (simp_all add: v)
  show ?thesis using assms m
    by (simp add: reserve_anon_shared_def Let_def split: option.split prod.split)
qed

lemma new_task_inv:
  assumes "sched_inv s"
  shows "sched_inv (s\<lparr>tasks := tasks s @ [new_task i sp p k st sh dv]\<rparr>)"
    "sched_inv (s\<lparr>tasks := tasks s @ [new_task i sp p k st sh dv], cap_tables := ct\<rparr>)"
  by (intro spawn_inv [OF assms, where t = "new_task i sp p k st sh dv"];
      simp add: new_task_def STACK_WORDS_def)+

lemma spawn_user_inv: "sched_inv s \<Longrightarrow> sched_inv (snd (spawn_user a b c sp table s))"
  by (auto simp: spawn_user_def Let_def new_task_inv)

lemma spawn_thread_inv:
  assumes "sched_inv s" "spawn_thread a b c d cpu e pages arg s = Some (r, s')"
  shows "sched_inv s'"
proof -
  obtain p where p: "current s ! cpu = Some p" using assms(2) by (auto simp: spawn_thread_def split: option.splits)
  obtain q s1 where q: "reserve_anon_shared p pages s = (q, s1)" by fastforce
  have "sched_inv s1" using reserve_anon_shared_inv [OF assms(1), of p pages] q by simp
  then show ?thesis using assms p q
    by (auto simp: spawn_thread_def Let_def new_task_inv split: option.splits if_splits)
qed

section \<open>Every interleaving\<close>

text \<open>
  One step is one critical section of one core. A core that has switched (\<open>prev\<close> set) does
  nothing but \<open>post_switch\<close>: interrupts are masked from the switch to its return. Waking,
  delivering and spawning come from other cores and from interrupts, at any time.
\<close>

inductive sched_step :: "sched \<Rightarrow> sched \<Rightarrow> bool" where
  st_start: "cpu < MAX_CPUS \<Longrightarrow> current s ! cpu = None \<Longrightarrow> prev s ! cpu = None \<Longrightarrow>
     sched_step s (snd (start_pick cpu s))"
| st_reschedule: "cpu < MAX_CPUS \<Longrightarrow> prev s ! cpu = None \<Longrightarrow> sched_step s (reschedule cpu h s)"
| st_post: "cpu < MAX_CPUS \<Longrightarrow> sched_step s (post_switch cpu s)"
| st_park: "cpu < MAX_CPUS \<Longrightarrow> prev s ! cpu = None \<Longrightarrow> parked = Blocked \<or> is_Sleeping parked \<Longrightarrow>
     park_and_switch cpu parked s = Some (b, s') \<Longrightarrow> sched_step s s'"
| st_exit_notify: "exit_notify cpu s = Some (n, s') \<Longrightarrow> sched_step s s'"
| st_exit: "cpu < MAX_CPUS \<Longrightarrow> prev s ! cpu = None \<Longrightarrow> exit_switch cpu s = Some (sp, s') \<Longrightarrow> sched_step s s'"
| st_migrate: "cpu < MAX_CPUS \<Longrightarrow> prev s ! cpu = None \<Longrightarrow> sched_step s (migrate_off cpu s)"
| st_mailbox: "take_mailbox cpu s = Some (m, s') \<Longrightarrow> sched_step s s'"
| st_unblock: "sched_step s (unblock t s)"
| st_deliver: "sched_step s (deliver t km s)"
| st_expire: "sched_step s (snd (wake_expired clock s))"
| st_class: "set_class cpu raw s = Some (r, s') \<Longrightarrow> sched_step s s'"
| st_affinity: "set_affinity_store cpu online m s = Some (Inr s') \<Longrightarrow> sched_step s s'"
| st_affinity_done: "set_affinity_done cpu s = Some s' \<Longrightarrow> sched_step s s'"
| st_death_notify: "set_death_notify cpu n s = Some s' \<Longrightarrow> sched_step s s'"
| st_install: "install_cap_current r cpu c s = Some (h, s') \<Longrightarrow> sched_step s s'"
| st_spawn_user: "sched_step s (snd (spawn_user a b c sp table s))"
| st_spawn_thread: "spawn_thread a b c d cpu e pages arg s = Some (r, s') \<Longrightarrow> sched_step s s'"
| st_reserve: "sched_step s (snd (reserve_anon_shared cur pages s))"
| st_map_shared: "map_shared_current ok cpu ob npages s = Some (r, s') \<Longrightarrow> sched_step s s'"
| st_map_device: "map_device_current ok cpu ob phys s = Some (r, s') \<Longrightarrow> sched_step s s'"

inductive sched_reach :: "sched \<Rightarrow> bool" where
  reach_init: "sched_reach sched_new"
| reach_step: "sched_reach s \<Longrightarrow> sched_step s s' \<Longrightarrow> sched_reach s'"

lemma sched_new_inv: "sched_inv sched_new"
  by (rule sched_invI) (auto simp: sched_new_def runs_on_def leaves_def)

lemmas request_defs = exit_notify_def take_mailbox_def set_class_def set_affinity_store_def set_affinity_done_def
  set_death_notify_def map_shared_current_def map_device_current_def

lemma install_inv: "sched_inv s \<Longrightarrow> install_cap_current r cpu c s = Some (h, s') \<Longrightarrow> sched_inv s'"
proof -
  assume inv: "sched_inv s" and i: "install_cap_current r cpu c s = Some (h, s')"
  then obtain ct where "s' = s\<lparr>cap_tables := ct\<rparr>"
    by (auto simp: install_cap_current_def Let_def split: option.splits prod.splits)
  then show "sched_inv s'" by (intro sched_inv_cong [OF inv]) simp_all
qed

lemma sched_step_inv: "sched_step s s' \<Longrightarrow> sched_inv s \<Longrightarrow> sched_inv s'"
proof (induction rule: sched_step.induct)
  case st_start then show ?case by (intro start_pick_inv)
next
  case st_reschedule then show ?case by (intro reschedule_inv)
next
  case st_post then show ?case by (intro post_switch_inv)
next
  case st_park then show ?case by (meson park_and_switch_inv)
next
  case st_exit then show ?case by (meson exit_switch_inv)
next
  case st_migrate then show ?case by (intro migrate_off_inv)
next
  case st_unblock then show ?case by (intro unblock_inv)
next
  case st_deliver then show ?case by (intro deliver_inv)
next
  case st_expire then show ?case by (intro wake_expired_inv)
next
  case st_spawn_user then show ?case by (intro spawn_user_inv)
next
  case st_spawn_thread then show ?case by (meson spawn_thread_inv)
next
  case st_reserve then show ?case by (intro reserve_anon_shared_inv)
next
  case st_install then show ?case by (meson install_inv)
qed (auto simp: request_defs Let_def view_def split: option.splits if_splits prod.splits intro!: sched_inv_upd)

lemma sched_reach_inv: "sched_reach s \<Longrightarrow> sched_inv s"
  by (induction rule: sched_reach.induct) (auto intro: sched_new_inv sched_step_inv)


text \<open>C1. In every reachable state, whatever the cores interleave: no task is current on two cores,
  none is both run by one core and still being left by another (a stack in use twice, or a
  half-saved context resumed), a task a core runs is \<open>Running\<close>, alive and has its stack, and
  one that is marked \<open>Running\<close> is run by exactly one core.\<close>

theorem one_core_per_task:
  assumes "sched_reach s"
  shows "(\<forall>c d i. runs_on s c i \<and> (runs_on s d i \<or> leaves s d i) \<longrightarrow> runs_on s d i \<and> c = d)
       \<and> (\<forall>c i. runs_on s c i \<longrightarrow> i < length (tasks s) \<and> state (tasks s ! i) = Running \<and> stack_words (tasks s ! i) \<noteq> 0)
       \<and> (\<forall>i<length (tasks s). state (tasks s ! i) = Running \<longrightarrow> (\<exists>!c. runs_on s c i))"
proof (intro conjI allI impI)
  note d = sched_invD [OF sched_reach_inv [OF assms]]
  fix c e i
  { assume "runs_on s c i \<and> (runs_on s e i \<or> leaves s e i)"
    then show "runs_on s e i" "c = e" using d(3,5) by blast+ }
  { assume r: "runs_on s c i"
    then show "i < length (tasks s)" by (rule d(6))
    then show "state (tasks s ! i) = Running" "stack_words (tasks s ! i) \<noteq> 0" using d(8,10) r by force+ }
  { assume "i < length (tasks s)" "state (tasks s ! i) = Running"
    then show "\<exists>!c. runs_on s c i" using d(3,8) by blast }
qed

text \<open>The witness runs one process on core 0.\<close>

definition demo_space :: addr_space where
  "demo_space = \<lparr>root = 0x1000, data_phys = 0, entry = 0x80000000, heap_next = USER_HEAP_BASE\<rparr>"

definition demo_sched :: sched where
  "demo_sched = snd (start_pick 0 (snd (spawn_user True True True demo_space [None] sched_new)))"

lemma demo_reach: "sched_reach demo_sched"
proof -
  have "sched_reach (snd (spawn_user True True True demo_space [None] sched_new))"
    using reach_step [OF reach_init st_spawn_user] .
  then show ?thesis unfolding demo_sched_def
    by (rule reach_step [OF _ st_start])
      (simp_all add: spawn_user_def sched_new_def MAX_CPUS_def Let_def)
qed

text \<open>The state of the witnesses: task 0 runs on core 0 in \<open>demo_space\<close>.\<close>

lemma demo_facts:
  "tasks demo_sched = [taken 0 (new_task 0 demo_space 0 0 None
     (placements_new MAX_SHARED_MAPPINGS USER_SHARED_VA) (placements_new MAX_DEVICE_MAPPINGS USER_DEV_VA))]"
  "runs_on demo_sched 0 0" "prev demo_sched ! 0 = None" "cap_tables demo_sched = [[None]]"
proof -
  define s where "s = snd (spawn_user True True True demo_space [None] sched_new)"
  have t: "tasks s = [new_task 0 demo_space 0 0 None
     (placements_new MAX_SHARED_MAPPINGS USER_SHARED_VA) (placements_new MAX_DEVICE_MAPPINGS USER_DEV_VA)]"
    "current s = replicate MAX_CPUS None" "prev s = replicate MAX_CPUS None" "cap_tables s = [[None]]"
    by (simp_all add: s_def spawn_user_def sched_new_def)
  obtain r s1 where r: "pick_idle 0 s = (r, s1)" by fastforce
  have "pickable s 0 0" by (simp add: pickable_def t new_task_def)
  then have "r \<noteq> None"
    using r first_picker.scan_complete [of "length (tasks s)" "\<lambda>i. pickable s i 0"] t(1)
    by (auto simp: pick_idle_def Let_def class_choose_first_def)
  then have r0: "r = Some 0" "tasks s1 = tasks s" "current s1 = current s" "prev s1 = prev s" "cap_tables s1 = cap_tables s"
    using pick_idle_sound [OF r] r t(1) by (auto simp: pick_idle_def Let_def)
  have e: "demo_sched = (take_task 0 None 0 s1)\<lparr>prev := (prev (take_task 0 None 0 s1))[0 := None]\<rparr>"
    using r r0(1) by (simp add: demo_sched_def start_pick_def Let_def flip: s_def)
  show "tasks demo_sched = [taken 0 (new_task 0 demo_space 0 0 None
     (placements_new MAX_SHARED_MAPPINGS USER_SHARED_VA) (placements_new MAX_DEVICE_MAPPINGS USER_DEV_VA))]"
    "runs_on demo_sched 0 0" "prev demo_sched ! 0 = None"
    by (simp_all add: e take_task_simps r0 t runs_on_def MAX_CPUS_def)
  show "cap_tables demo_sched = [[None]]"
    by (simp add: e take_task_def Let_def upd_task_def r0 t)
qed

theorem one_core_per_task_witness:
  "sched_reach demo_sched \<and> {c. runs_on demo_sched c 0} = {0}"
  using one_core_per_task [OF demo_reach] demo_reach demo_facts(2) by blast

text \<open>A task a core goes on to run after a preemption, a yield, an exit, a migration or a park was
  ready, allowed on that core by its affinity, not the task just left, and not held by any core
  (so its context is saved); and none is picked only when no other such task exists.\<close>

theorem pick_correct:
  assumes "frm < length (tasks s)"
  shows "case pick cpu frm s of
           (Some (n, fair), s') \<Rightarrow> n < length (tasks s) \<and> n \<noteq> frm \<and> state (tasks s ! n) = Ready
             \<and> allows (affinity (tasks s ! n)) cpu \<and> \<not> on_cpu (tasks s ! n) \<and> fair = is_fair (picks s ! cpu)
             \<and> (\<not> fair \<longrightarrow> (\<forall>j<length (tasks s). j \<noteq> frm \<longrightarrow> pickable s j cpu \<longrightarrow>
                  task_class (tasks s ! n) \<le> task_class (tasks s ! j)))
         | (None, s') \<Rightarrow> s' = s \<and> (\<forall>j<length (tasks s). j \<noteq> frm \<longrightarrow> \<not> pickable s j cpu)"
proof -
  let ?c = "class_choose (length (tasks s)) frm (picks s ! cpu) (\<lambda>i. pickable s i cpu) (\<lambda>i. sticky s i cpu)
      (\<lambda>i. task_class (tasks s ! i))"
  show ?thesis
  proof (cases ?c)
    case None
    then have "\<forall>j\<in>{i. i < length (tasks s) \<and> i \<noteq> frm mod length (tasks s)}. \<not> pickable s j cpu"
      using next_picker.scan_complete by (simp add: class_choose_def)
    then show ?thesis using None assms by (simp add: pick_def Let_def advance_def)
  next
    case (Some n)
    have "task_class (tasks s ! n) \<le> task_class (tasks s ! j)"
      if "\<not> is_fair (picks s ! cpu)" "j < length (tasks s)" "j \<noteq> frm" "pickable s j cpu" for j
      using next_picker.scan_ordered [OF Some [unfolded class_choose_def] that(1), of j] that assms by simp
    then show ?thesis using Some assms pick_sound [of cpu frm s n "decide s cpu"]
      by (auto simp: pick_def Let_def decide_def pickable_def)
  qed
qed

theorem pick_correct_witness:
  "\<exists>fair s'. pick 0 0 (snd (spawn_user True True True demo_space [None] demo_sched)) = (Some (1, fair), s')"
proof -
  define s where "s = snd (spawn_user True True True demo_space [None] demo_sched)"
  have l: "length (tasks s) = 2" "pickable s 1 0"
    by (simp_all add: s_def spawn_user_def Let_def demo_facts pickable_def new_task_def)
  obtain r s' where r: "pick 0 0 s = (r, s')" by fastforce
  then show ?thesis using pick_correct [of 0 s 0] l unfolding s_def [symmetric]
    by (cases r) (auto simp: less_2_cases_iff)
qed

end
