(* ===== verification/SchedulerProps.thy ===== *)
theory SchedulerProps
  imports SchedulerInv
begin

text \<open>
  What the scheduler promises its callers beyond the invariant: a wake-up that races with a park
  is not lost, the last task of an address space tears it down, threads of one space get disjoint
  anonymous memory and share their capabilities; and what the placement tables do not give.
\<close>

section \<open>Parking and waking\<close>

lemma leave_keeps:
  assumes "p < length (tasks s)" "i < length (tasks s)" "\<not> pickable s i cpu \<or> i = p"
  shows "tasks (leave cpu p s) ! i = tasks s ! i" "length (tasks (leave cpu p s)) = length (tasks s)"
proof -
  define s0 where "s0 = s\<lparr>prev := (prev s)[cpu := Some p]\<rparr>"
  obtain r s1 where r: "pick cpu p s0 = (r, s1)" by fastforce
  note fr = pick_frame [OF r]
  have "r = Some (n, f) \<Longrightarrow> n \<noteq> i" for n f
    using pick_sound [of cpu p s0 n f s1] r assms by (auto simp: s0_def pickable_def)
  then show "tasks (leave cpu p s) ! i = tasks s ! i" "length (tasks (leave cpu p s)) = length (tasks s)"
    using r fr by (cases r; auto simp: leave_def s0_def take_task_simps)+
qed

lemma park_wake_race:
  assumes "sched_inv s" "runs_on s cpu t" "prev s ! cpu = None" "parked = Blocked \<or> is_Sleeping parked"
  shows "(\<exists>s'. park_and_switch cpu parked (unblock t s) = Some (False, s') \<and> runs_on s' cpu t
            \<and> state (tasks s' ! t) = Running \<and> \<not> wake_pending (tasks s' ! t))
       \<and> (\<not> wake_pending (tasks s ! t) \<longrightarrow>
            (\<exists>s'. park_and_switch cpu parked s = Some (True, s')
               \<and> state (tasks (unblock t s') ! t) = Ready \<and> \<not> wake_pending (tasks (unblock t s') ! t)))"
proof -
  note d = sched_invD [OF assms(1)]
  have t: "t < length (tasks s)" "state (tasks s ! t) = Running" "current s ! cpu = Some t"
    using d(6) [OF assms(2)] d(8) [of t] assms(2) by (auto simp: runs_on_def)
  have first: "\<exists>s'. park_and_switch cpu parked (unblock t s) = Some (False, s') \<and> runs_on s' cpu t
            \<and> state (tasks s' ! t) = Running \<and> \<not> wake_pending (tasks s' ! t)"
    using t assms(2) by (simp add: park_and_switch_def unblock_def upd_task_def runs_on_def)
  define s1 where "s1 = upd_task t (\<lambda>x. x\<lparr>state := parked\<rparr>) s"
  have "tasks (leave cpu t s1) ! t = tasks s1 ! t" "t < length (tasks (leave cpu t s1))"
    using leave_keeps [of t s1 t cpu] t(1) by (simp_all add: s1_def)
  then have "state (tasks (unblock t (leave cpu t s1)) ! t) = Ready"
    "wake_pending (tasks (unblock t (leave cpu t s1)) ! t) = wake_pending (tasks s ! t)"
    using t(1) assms(4) by (auto simp: unblock_def upd_task_def s1_def)
  then show ?thesis using first t by (auto simp: park_and_switch_def s1_def)
qed

text \<open>C7. No lost wake-up: a task that is on its way to park, and the peer that wakes it, meet in one of
  two orders. If the wake-up comes first, the park declines, consumes it, and the task keeps
  running; if the park comes first, the wake-up makes the task ready. Either way it is runnable
  and no stale wake-up is left behind.\<close>

theorem no_lost_wakeup:
  assumes "sched_inv s" "runs_on s cpu t" "prev s ! cpu = None" "parked = Blocked \<or> is_Sleeping parked"
  shows "(\<exists>s'. park_and_switch cpu parked (unblock t s) = Some (False, s') \<and> runs_on s' cpu t
            \<and> state (tasks s' ! t) = Running \<and> \<not> wake_pending (tasks s' ! t))
       \<and> (\<not> wake_pending (tasks s ! t) \<longrightarrow>
            (\<exists>s'. park_and_switch cpu parked s = Some (True, s')
               \<and> state (tasks (unblock t s') ! t) = Ready \<and> \<not> wake_pending (tasks (unblock t s') ! t)))"
  using assms by (rule park_wake_race)

theorem no_lost_wakeup_witness:
  "\<exists>s'. park_and_switch 0 Blocked (unblock 0 demo_sched) = Some (False, s') \<and> runs_on s' 0 0"
  using no_lost_wakeup [OF sched_reach_inv [OF demo_reach] demo_facts(2,3), of Blocked] by auto

section \<open>Address spaces\<close>

text \<open>An exiting task hands its address space over for destruction exactly when no other live task
  runs in it; the task itself is dead afterwards and keeps no space, so none is torn down twice.\<close>

theorem last_task_tears_down:
  assumes "sched_inv s" "runs_on s cpu p" "prev s ! cpu = None" "exit_switch cpu s = Some (torn, s')"
  shows "state (tasks s' ! p) = Dead \<and> space (tasks s' ! p) = None
       \<and> torn = (if \<exists>i<length (tasks s). i \<noteq> p \<and> state (tasks s ! i) \<noteq> Dead \<and> ttbr0 (tasks s ! i) = ttbr0 (tasks s ! p)
                 then None else space (tasks s ! p))"
proof -
  have p: "p < length (tasks s)" "current s ! cpu = Some p"
    using sched_invD(6) [OF assms(1)] assms(2) by (auto simp: runs_on_def)
  define s1 where "s1 = upd_task p (\<lambda>t. t\<lparr>state := Dead, space := None\<rparr>) s"
  have s': "s' = leave cpu p s1" using assms(4) p by (simp add: exit_switch_def Let_def s1_def)
  have "tasks s' ! p = tasks s1 ! p" using leave_keeps(1) [of p s1 p cpu] p(1) by (simp add: s' s1_def)
  moreover have "torn = (if list_ex (\<lambda>i. i \<noteq> p \<and> state (tasks s1 ! i) \<noteq> Dead \<and> ttbr0 (tasks s1 ! i) = ttbr0 (tasks s1 ! p))
      [0..<length (tasks s1)] then None else space (tasks s ! p))"
    using assms(4) p by (simp add: exit_switch_def Let_def s1_def)
  ultimately show ?thesis using p(1) by (auto simp: s1_def upd_task_nth list_ex_iff)
qed

theorem last_task_tears_down_witness:
  "\<exists>s'. exit_switch 0 demo_sched = Some (Some demo_space, s') \<and> state (tasks s' ! 0) = Dead"
proof -
  obtain torn s' where e: "exit_switch 0 demo_sched = Some (torn, s')"
    using demo_facts(2) by (auto simp: exit_switch_def runs_on_def Let_def)
  then show ?thesis
    using last_task_tears_down [OF sched_reach_inv [OF demo_reach] demo_facts(2,3) e]
    by (auto simp: demo_facts(1) taken_def new_task_def)
qed

subsection \<open>Anonymous memory\<close>

lemma siblings_mem: "sp \<in> set (siblings r s) \<longleftrightarrow> (\<exists>t\<in>set (tasks s). ttbr0 t = r \<and> space t = Some sp)"
  by (auto simp: siblings_def split: option.splits)

lemma reserve_anon_spec:
  assumes "reserve_anon sp pages = Some (va, sp')"
  shows "va = heap_next sp \<and> unat (heap_next sp') = unat va + unat pages * 4096
       \<and> unat (heap_next sp') \<le> unat USER_HEAP_END \<and> 0 < unat pages"
proof -
  have p: "pages \<noteq> 0" "unat pages * unat PAGE_4K < 2 ^ 64" using assms by (auto simp: reserve_anon_def split: if_splits)
  then have b: "unat (pages * PAGE_4K) = unat pages * 4096"
    by (simp add: unat_word_ariths PAGE_4K_def)
  obtain e where e: "checked_add (heap_next sp) (pages * PAGE_4K) = Some e" "\<not> USER_HEAP_END < e"
      "va = heap_next sp" "sp' = sp\<lparr>heap_next := heap_next sp + pages * PAGE_4K\<rparr>"
    using assms p by (auto simp: reserve_anon_def Let_def split: option.splits if_splits)
  then have "e = heap_next sp + pages * PAGE_4K" by (auto simp: checked_add_def split: if_splits)
  then show ?thesis using e checked_add_Some [OF e(1)] b p(1)
    by (auto simp: word_less_nat_alt unat_gt_0)
qed

text \<open>However many threads of one address space reserve anonymous memory, in any order, each run lies
  at or above every cursor handed out before and ends within the heap region: two reservations in
  the same space never overlap.\<close>

theorem anon_reservations_disjoint:
  assumes "reserve_anon_shared a m s = (Some (spa, va), s1)" "reserve_anon_shared b n s1 = (Some (spb, vb), s2)"
    and "ttbr0 (tasks s ! a) = ttbr0 (tasks s ! b)" "b < length (tasks s)"
  shows "unat va + unat m * 4096 \<le> unat vb \<and> unat vb + unat n * 4096 \<le> unat USER_HEAP_END \<and> 0 < unat m \<and> 0 < unat n"
proof -
  have bnd: "unat v + unat k * 4096 = unat (heap_next sp) \<and> unat (heap_next sp) \<le> unat USER_HEAP_END \<and> 0 < unat k
      \<and> (\<exists>t. get (tasks st) c = Some t \<and> (\<forall>x\<in>set (siblings (ttbr0 t) st). unat (heap_next x) \<le> unat v)
           \<and> st' = st\<lparr>tasks := map (\<lambda>x. if ttbr0 x = ttbr0 t
                 then x\<lparr>space := map_option (set_heap_next (heap_next sp)) (space x)\<rparr> else x) (tasks st)\<rparr>)"
    if r: "reserve_anon_shared c k st = (Some (sp, v), st')" for c k st sp v st'
  proof -
    obtain t sp0 where t: "get (tasks st) c = Some t" "space t = Some sp0"
        "reserve_anon (set_heap_next (Max (set (map heap_next (siblings (ttbr0 t) st)))) sp0) k = Some (v, sp)"
        "st' = st\<lparr>tasks := map (\<lambda>x. if ttbr0 x = ttbr0 t
             then x\<lparr>space := map_option (set_heap_next (heap_next sp)) (space x)\<rparr> else x) (tasks st)\<rparr>"
      using r by (auto simp: reserve_anon_shared_def Let_def split: option.splits if_splits)
    have "v = Max (set (map heap_next (siblings (ttbr0 t) st)))"
      using reserve_anon_spec [OF t(3)] by (simp add: set_heap_next_def)
    then have "\<forall>x\<in>set (siblings (ttbr0 t) st). heap_next x \<le> v" by simp
    then show ?thesis using reserve_anon_spec [OF t(3)] t(1,4) by (auto simp: word_le_nat_alt)
  qed
  note A = bnd [OF assms(1)] and B = bnd [OF assms(2)]
  obtain ta where ta: "get (tasks s) a = Some ta" "s1 = s\<lparr>tasks := map (\<lambda>x. if ttbr0 x = ttbr0 ta
         then x\<lparr>space := map_option (set_heap_next (heap_next spa)) (space x)\<rparr> else x) (tasks s)\<rparr>"
    using A by blast
  obtain tb where tb: "get (tasks s1) b = Some tb" "\<forall>x\<in>set (siblings (ttbr0 tb) s1). unat (heap_next x) \<le> unat vb"
    using B by blast
  have eq: "ttbr0 tb = ttbr0 ta" using tb(1) ta assms(3,4) by (auto split: if_splits)
  obtain y where y: "space tb = Some y"
    using assms(2) tb(1) by (auto simp: reserve_anon_shared_def Let_def split: option.splits if_splits)
  have "tb \<in> set (tasks s1)" using tb(1) by auto
  then have "y \<in> set (siblings (ttbr0 tb) s1)" using y by (auto simp: siblings_mem)
  moreover have "heap_next y = heap_next spa"
    using tb(1) y ta eq assms(3,4) by (auto simp: set_heap_next_def split: if_splits)
  ultimately have "unat (heap_next spa) \<le> unat vb" using tb(2) by auto
  then show ?thesis using A B by linarith
qed

theorem anon_reservations_disjoint_witness:
  "\<exists>spa va s1 spb vb s2. reserve_anon_shared 0 3 demo_sched = (Some (spa, va), s1)
     \<and> reserve_anon_shared 0 2 s1 = (Some (spb, vb), s2) \<and> unat va + unat (3::u64) * 4096 \<le> unat vb"
proof -
  have r: "\<exists>va s'. reserve_anon_shared 0 n s = (Some (sp, va), s') \<and> tasks s' = [t\<lparr>space := Some sp\<rparr>]"
    if "tasks s = [t]" "space t = Some sp0" "reserve_anon sp0 n = Some (v, sp)" for n s t sp0 v sp
    using that by (auto simp: reserve_anon_shared_def siblings_def set_heap_next_def Let_def reserve_anon_def
        split: option.splits if_splits)
  have one: "reserve_anon demo_space 3 = Some (USER_HEAP_BASE, demo_space\<lparr>heap_next := USER_HEAP_BASE + 3 * PAGE_4K\<rparr>)"
    and two: "reserve_anon (demo_space\<lparr>heap_next := USER_HEAP_BASE + 3 * PAGE_4K\<rparr>) 2
      = Some (USER_HEAP_BASE + 3 * PAGE_4K, demo_space\<lparr>heap_next := USER_HEAP_BASE + 5 * PAGE_4K\<rparr>)"
    by (simp_all add: reserve_anon_def demo_space_def USER_HEAP_BASE_def USER_HEAP_END_def PAGE_4K_def checked_add_def)
  obtain va s1 where a: "reserve_anon_shared 0 3 demo_sched = (Some (demo_space\<lparr>heap_next := USER_HEAP_BASE + 3 * PAGE_4K\<rparr>, va), s1)"
      "tasks s1 = [(tasks demo_sched ! 0)\<lparr>space := Some (demo_space\<lparr>heap_next := USER_HEAP_BASE + 3 * PAGE_4K\<rparr>)\<rparr>]"
    using r [OF _ _ one, of demo_sched "tasks demo_sched ! 0"] by (auto simp: demo_facts(1) taken_def new_task_def)
  obtain vb s2 where b: "reserve_anon_shared 0 2 s1 = (Some (demo_space\<lparr>heap_next := USER_HEAP_BASE + 5 * PAGE_4K\<rparr>, vb), s2)"
    using r [OF a(2) _ two] by auto
  have "0 < length (tasks demo_sched)" by (simp add: demo_facts(1))
  with anon_reservations_disjoint [OF a(1) b refl] a(1) b show ?thesis by blast
qed

section \<open>Threads\<close>

lemma spawn_thread_success:
  assumes "spawn_thread a b c d cpu e pages arg s = Some (r, s')" "0 \<le> r" "current s ! cpu = Some p" "p < length (tasks s)"
  shows "r = int (length (tasks s)) \<and> length (tasks s') = Suc (length (tasks s)) \<and> current s' = current s
       \<and> cap_tables s' = cap_tables s
       \<and> caps (tasks s' ! length (tasks s)) = caps (tasks s ! p) \<and> caps (tasks s' ! p) = caps (tasks s ! p)
       \<and> shared (tasks s' ! length (tasks s)) = shared (tasks s ! p) \<and> shared (tasks s' ! p) = shared (tasks s ! p)
       \<and> devices (tasks s' ! length (tasks s)) = devices (tasks s ! p) \<and> devices (tasks s' ! p) = devices (tasks s ! p)
       \<and> pid (tasks s' ! length (tasks s)) = pid (tasks s ! p)"
proof -
  obtain q s1 where q: "reserve_anon_shared p pages s = (q, s1)" by fastforce
  have k: "current s1 = current s" "cap_tables s1 = cap_tables s" "length (tasks s1) = length (tasks s)"
    "caps (tasks s1 ! p) = caps (tasks s ! p)" "shared (tasks s1 ! p) = shared (tasks s ! p)"
    "devices (tasks s1 ! p) = devices (tasks s ! p)"
    using q assms(4) by (auto simp: reserve_anon_shared_def Let_def split: option.splits if_splits)
  obtain sp va where "q = Some (sp, va)" "s' = s1\<lparr>tasks := tasks s1 @ [new_task (length (tasks s1)) sp (pid (tasks s ! p))
      (caps (tasks s ! p)) (Some (e, (va + pages * PAGE_4K) AND (NOT 0xf), arg)) (shared (tasks s ! p)) (devices (tasks s ! p))]\<rparr>"
      "r = int (length (tasks s1))"
    using assms(1-3) q kerror_as_raw_neg [of InvalidArgument] kerror_as_raw_neg [of OutOfResources]
    by (auto simp: spawn_thread_def Let_def split: option.splits if_splits)
  then show ?thesis using k assms(4) by (simp add: new_task_def nth_append)
qed

text \<open>A capability installed by one thread after it has created another resolves, under the handle the
  kernel returned, in the other thread too: threads of a program share one table.\<close>

theorem threads_share_capabilities:
  assumes "spawn_thread a b c d cpu e pages arg s = Some (r, s')" "0 \<le> r" "current s ! cpu = Some p" "p < length (tasks s)"
    and "caps (tasks s ! p) < length (cap_tables s)" "caps_wf (cap_tables s ! caps (tasks s ! p))"
    and "install_cap_current rs cpu k s' = Some (Some h, s'')" "h < 2 ^ 32"
  shows "task_cap s'' (nat r) (of_nat h) = Some k \<and> task_cap s'' p (of_nat h) = Some k"
proof -
  note S = spawn_thread_success [OF assms(1-4)]
  let ?k = "caps (tasks s ! p)"
  obtain table where t: "install rs (cap_tables s ! ?k) k = (Some h, table)" "s'' = s'\<lparr>cap_tables := (cap_tables s)[?k := table]\<rparr>"
    using assms(3,7) S by (auto simp: install_cap_current_def Let_def split: prod.splits)
  have "table ! h = Some k" "h < length table" using install_Some(2,3) [OF assms(6) t(1)] by auto
  moreover have "unat (of_nat h :: u32) = h" using assms(8) by (rule unat_index)
  ultimately show ?thesis using S t(2) assms(5) by (simp add: task_cap_def get_def)
qed

lemma demo_thread:
  "\<exists>s'. spawn_thread True True True True 0 0 1 0 demo_sched = Some (1, s')"
proof -
  obtain v sp where r: "reserve_anon demo_space 1 = Some (v, sp)"
    by (simp add: reserve_anon_def demo_space_def USER_HEAP_BASE_def USER_HEAP_END_def PAGE_4K_def checked_add_def)
  have "\<exists>va s'. reserve_anon_shared 0 1 demo_sched = (Some (sp, va), s') \<and> length (tasks s') = 1"
    using r by (auto simp: reserve_anon_shared_def siblings_def set_heap_next_def Let_def demo_facts(1) taken_def new_task_def
        reserve_anon_def split: option.splits if_splits)
  then show ?thesis using demo_facts(2)
    by (auto simp: spawn_thread_def runs_on_def demo_facts(1) taken_def new_task_def Let_def)
qed

theorem threads_share_capabilities_witness:
  "\<exists>s' s'' h. spawn_thread True True True True 0 0 1 0 demo_sched = Some (1, s')
     \<and> install_cap_current True 0 (CScanout \<lparr>ref_index = 0, ref_generation = 0\<rparr>) s' = Some (Some h, s'')
     \<and> task_cap s'' 1 (of_nat h) = Some (CScanout \<lparr>ref_index = 0, ref_generation = 0\<rparr>)"
proof -
  let ?c = "CScanout \<lparr>ref_index = 0, ref_generation = 0\<rparr>"
  obtain s' where s': "spawn_thread True True True True 0 0 1 0 demo_sched = Some (1, s')" using demo_thread by blast
  have cur: "current demo_sched ! 0 = Some 0" "0 < length (tasks demo_sched)" "caps (tasks demo_sched ! 0) = 0"
    using demo_facts(1,2) by (simp_all add: runs_on_def taken_def new_task_def)
  note S = spawn_thread_success [OF s' _ cur(1,2)]
  obtain s'' where i: "install_cap_current True 0 ?c s' = Some (Some 1, s'')"
    using S cur demo_facts(4) by (simp add: install_cap_current_def install_def)
  have "caps_wf (cap_tables demo_sched ! 0)" by (simp add: demo_facts(4) caps_wf_def)
  then show ?thesis
    using threads_share_capabilities [OF s' _ cur(1,2) _ _ i] cur(3) demo_facts(4) s' i by auto
qed

section \<open>Placements\<close>

text \<open>The placement tables are copied at thread creation and then advance separately: the next new
  shared buffer the creator maps and the next one its thread maps are given the same address, in
  the one address space they share, and the same holds of device pages.\<close>

theorem thread_placements_collide:
  assumes "spawn_thread a b c d cpu e pages arg s = Some (r, s')" "0 \<le> r" "current s ! cpu = Some p" "p < length (tasks s)"
  shows "fst (placements_place (shared (tasks s' ! nat r)) ob m) = fst (placements_place (shared (tasks s' ! p)) ob' n)
       \<and> fst (placements_place (devices (tasks s' ! nat r)) ob m) = fst (placements_place (devices (tasks s' ! p)) ob' n)"
  using spawn_thread_success [OF assms] by (auto simp: placements_place_def split: option.split)

theorem thread_placements_collide_witness:
  "\<exists>s'. spawn_thread True True True True 0 0 1 0 demo_sched = Some (1, s')
     \<and> fst (placements_place (shared (tasks s' ! 1)) \<lparr>ref_index = 0, ref_generation = 0\<rparr> 4) = Some USER_SHARED_VA
     \<and> fst (placements_place (shared (tasks s' ! 0)) \<lparr>ref_index = 7, ref_generation = 0\<rparr> 4) = Some USER_SHARED_VA"
proof -
  obtain s' where s': "spawn_thread True True True True 0 0 1 0 demo_sched = Some (1, s')" using demo_thread by blast
  have cur: "current demo_sched ! 0 = Some 0" "0 < length (tasks demo_sched)"
    "shared (tasks demo_sched ! 0) = placements_new MAX_SHARED_MAPPINGS USER_SHARED_VA"
    using demo_facts(1,2) by (simp_all add: runs_on_def taken_def new_task_def)
  note S = spawn_thread_success [OF s' _ cur(1,2)]
  have "fst (placements_place (shared (tasks s' ! 0)) \<lparr>ref_index = 7, ref_generation = 0\<rparr> 4) = Some USER_SHARED_VA"
    using S cur by (simp add: placements_place_def placements_new_def MAX_SHARED_MAPPINGS_def numeral_eq_Suc)
  moreover have "fst (placements_place (shared (tasks s' ! nat 1)) \<lparr>ref_index = 0, ref_generation = 0\<rparr> 4)
      = fst (placements_place (shared (tasks s' ! 0)) \<lparr>ref_index = 7, ref_generation = 0\<rparr> 4)"
    using thread_placements_collide [OF s' zero_le_one cur(1,2)] by blast
  ultimately show ?thesis using s' by simp
qed

lemma placements_find_placed:
  assumes "placements_find p ob = None" "placements_place p ob n = (Some va, p')"
  shows "placements_find p' ob = Some va"
proof -
  obtain i where i: "position (\<lambda>e. e = None) (entries p) = Some i" "va = cursor p"
      "entries p' = (entries p)[i := Some (ob, va)]"
    using assms(2) by (auto simp: placements_place_def split: option.splits)
  define flat where "flat = (\<lambda>es. concat (map (\<lambda>e. case e of None \<Rightarrow> [] | Some x \<Rightarrow> [x]) es) :: (object_ref \<times> u64) list)"
  have e: "flat (entries p') = flat (take i (entries p)) @ (ob, va) # flat (drop (Suc i) (entries p))"
    using position_SomeD(1) [OF i(1)] i(3) by (simp add: flat_def upd_conv_take_nth_drop)
  have "entries p = take i (entries p) @ None # drop (Suc i) (entries p)"
    using position_SomeD(1,2) [OF i(1)] by (metis id_take_nth_drop)
  then have f: "flat (entries p) = flat (take i (entries p)) @ flat (drop (Suc i) (entries p))"
    by (metis (no_types, lifting) append_Nil concat.simps(2) concat_append flat_def list.simps(9) map_append option.simps(4))
  have "List.find (\<lambda>(o', _). o' = ob) (flat (entries p)) = None"
    using assms(1) by (simp add: placements_find_def flat_def)
  then have n: "\<forall>x\<in>set (flat (take i (entries p))). fst x \<noteq> ob"
    unfolding f by (auto simp: find_None_iff)
  have "List.find (\<lambda>(o', _). o' = ob) (xs @ (ob, va) # ys) = Some (ob, va)" if "\<forall>x\<in>set xs. fst x \<noteq> ob" for xs ys
    using that by (induction xs) auto
  then have "List.find (\<lambda>(o', _). o' = ob) (flat (take i (entries p)) @ (ob, va) # flat (drop (Suc i) (entries p))) = Some (ob, va)"
    using n by blast
  then have "List.find (\<lambda>(o', _). o' = ob) (flat (entries p')) = Some (ob, va)" unfolding e .
  then show ?thesis by (simp add: placements_find_def flat_def)
qed

text \<open>The placement is recorded before the pages are mapped and not withdrawn when mapping fails: a task
  whose \<^verbatim>\<open>MapShared\<close> is refused for want of page tables gets, on the next attempt, the address
  of the buffer as a success, with nothing mapped there.\<close>

theorem failed_map_succeeds_on_retry:
  assumes "current s ! cpu = Some p" "p < length (tasks s)" "space (tasks s ! p) = Some sp"
    and "placements_find (shared (tasks s ! p)) ob = None" "placements_place (shared (tasks s ! p)) ob n = (Some va, pl)"
  shows "\<exists>s'. map_shared_current False cpu ob n s = Some (kerror_as_raw OutOfResources, s')
            \<and> map_shared_current ok cpu ob n s' = Some (uint va, s')"
proof -
  have "placements_find pl ob = Some va" using placements_find_placed [OF assms(4,5)] .
  then show ?thesis using assms by (simp add: map_shared_current_def upd_task_def)
qed

theorem failed_map_succeeds_on_retry_witness:
  "\<exists>s'. map_shared_current False 0 \<lparr>ref_index = 0, ref_generation = 0\<rparr> 1 demo_sched = Some (- 4, s')
      \<and> map_shared_current False 0 \<lparr>ref_index = 0, ref_generation = 0\<rparr> 1 s' = Some (uint USER_SHARED_VA, s')"
proof -
  let ?r = "\<lparr>ref_index = 0, ref_generation = 0\<rparr>"
  have cur: "current demo_sched ! 0 = Some 0" "0 < length (tasks demo_sched)" "space (tasks demo_sched ! 0) = Some demo_space"
    "shared (tasks demo_sched ! 0) = placements_new MAX_SHARED_MAPPINGS USER_SHARED_VA"
    using demo_facts(1,2) by (simp_all add: runs_on_def taken_def new_task_def)
  have "placements_find (shared (tasks demo_sched ! 0)) ?r = None"
    "\<exists>pl. placements_place (shared (tasks demo_sched ! 0)) ?r 1 = (Some USER_SHARED_VA, pl)"
    by (simp_all add: cur(4) placements_find_def placements_place_def placements_new_def MAX_SHARED_MAPPINGS_def numeral_eq_Suc)
  then show ?thesis using failed_map_succeeds_on_retry [OF cur(1-3)] by fastforce
qed

end
