(* ===== verification/Notification.thy ===== *)
theory Notification
  imports SchedulerProps
begin

text \<open>
  \<^verbatim>\<open>crates/kernel/src/notify.rs\<close>: the notification table. Each definition is what one function
  does under the table's lock: \<open>signal_locked\<close> is the locked part of \<^verbatim>\<open>signal\<close> and returns the
  task to wake, \<open>wait_check\<close> and \<open>wait_recheck\<close> are the two locked parts of \<^verbatim>\<open>wait_any\<close>, before
  it parks and after it is awake again.
\<close>

section \<open>The source\<close>

record notification =
  in_use :: bool
  signals :: u32
  waiter :: "nat option"

type_synonym notify_table = "notification list"

definition notify_create :: "bool \<Rightarrow> notify_table \<Rightarrow> nat option \<times> notify_table" where
  "notify_create reserve slots =
     (case position (\<lambda>n. \<not> in_use n) slots of
        Some i \<Rightarrow> (Some i, slots[i := \<lparr>in_use = True, signals = 0, waiter = None\<rparr>])
      | None \<Rightarrow> if \<not> reserve then (None, slots)
                else (Some (length slots), slots @ [\<lparr>in_use = True, signals = 0, waiter = None\<rparr>]))"

definition signal_locked :: "nat \<Rightarrow> notify_table \<Rightarrow> nat option \<times> notify_table" where
  "signal_locked i slots =
     (case get slots i of
        None \<Rightarrow> (None, slots)
      | Some n \<Rightarrow>
          if \<not> in_use n then (None, slots)
          else (waiter n, slots[i := n\<lparr>signals := saturating_add (signals n) 1, waiter := None\<rparr>]))"

fun consume_from :: "nat \<Rightarrow> notify_table \<Rightarrow> nat list \<Rightarrow> nat option \<times> notify_table" where
  "consume_from index slots [] = (None, slots)"
| "consume_from index slots (i # ids) =
     (case get slots i of
        Some n \<Rightarrow> if in_use n \<and> signals n > 0 then (Some index, slots[i := n\<lparr>signals := signals n - 1\<rparr>])
                  else consume_from (index + 1) slots ids
      | None \<Rightarrow> consume_from (index + 1) slots ids)"

definition consume_ready :: "notify_table \<Rightarrow> nat list \<Rightarrow> nat option \<times> notify_table" where
  "consume_ready slots ids = consume_from 0 slots ids"

text \<open>The two loops over the sources: register on each, deregister from each.\<close>

fun register_all :: "nat \<Rightarrow> nat list \<Rightarrow> notify_table \<Rightarrow> notify_table" where
  "register_all me [] slots = slots"
| "register_all me (i # ids) slots =
     register_all me ids
       (case get slots i of
          Some n \<Rightarrow> if in_use n then slots[i := n\<lparr>waiter := Some me\<rparr>] else slots
        | None \<Rightarrow> slots)"

fun deregister_all :: "nat \<Rightarrow> nat list \<Rightarrow> notify_table \<Rightarrow> notify_table" where
  "deregister_all me [] slots = slots"
| "deregister_all me (i # ids) slots =
     deregister_all me ids
       (case get slots i of
          Some n \<Rightarrow> if waiter n = Some me then slots[i := n\<lparr>waiter := None\<rparr>] else slots
        | None \<Rightarrow> slots)"

datatype wait_decision = Fired nat | TimedOut | KeepWaiting

text \<open>\<open>now\<close> is \<^verbatim>\<open>sched::clock_now()\<close>.\<close>

definition wait_check :: "nat \<Rightarrow> nat list \<Rightarrow> u64 option \<Rightarrow> u64 \<Rightarrow> notify_table \<Rightarrow> wait_decision \<times> notify_table" where
  "wait_check me ids deadline now slots =
     (case consume_ready slots ids of
        (Some index, slots') \<Rightarrow> (Fired index, slots')
      | (None, slots') \<Rightarrow>
          if (case deadline of Some d \<Rightarrow> now \<ge> d | None \<Rightarrow> False) then (TimedOut, slots')
          else (KeepWaiting, register_all me ids slots'))"

definition wait_recheck :: "nat \<Rightarrow> nat list \<Rightarrow> u64 option \<Rightarrow> u64 \<Rightarrow> notify_table \<Rightarrow> wait_decision \<times> notify_table" where
  "wait_recheck me ids deadline now slots =
     (case consume_ready (deregister_all me ids slots) ids of
        (Some index, slots') \<Rightarrow> (Fired index, slots')
      | (None, slots') \<Rightarrow>
          if (case deadline of Some d \<Rightarrow> now \<ge> d | None \<Rightarrow> False) then (TimedOut, slots')
          else (KeepWaiting, slots'))"

section \<open>The table over time\<close>

inductive notify_step :: "notify_table \<Rightarrow> notify_table \<Rightarrow> bool" where
  ns_create: "notify_step slots (snd (notify_create reserve slots))"
| ns_signal: "notify_step slots (snd (signal_locked i slots))"
| ns_check: "notify_step slots (snd (wait_check me ids deadline now slots))"
| ns_recheck: "notify_step slots (snd (wait_recheck me ids deadline now slots))"

inductive notify_reach :: "notify_table \<Rightarrow> bool" where
  nr_init: "notify_reach []"
| nr_step: "notify_reach slots \<Longrightarrow> notify_step slots slots' \<Longrightarrow> notify_reach slots'"

text \<open>Nobody is registered on a notification that has a signal to give, and free slots hold neither.\<close>

definition quiet :: "notification \<Rightarrow> bool" where
  "quiet n \<longleftrightarrow> waiter n = None \<or> signals n = 0"

definition notify_inv :: "notify_table \<Rightarrow> bool" where
  "notify_inv slots = list_all quiet slots"

lemma notify_inv_iff: "notify_inv slots \<longleftrightarrow> (\<forall>j<length slots. quiet (slots ! j))"
  by (simp add: notify_inv_def list_all_length)

lemma notify_inv_update: "notify_inv slots \<Longrightarrow> quiet n \<Longrightarrow> notify_inv (slots[i := n])"
  by (cases "i < length slots") (auto simp: notify_inv_iff nth_list_update)

lemma notify_inv_nth: "notify_inv slots \<Longrightarrow> i < length slots \<Longrightarrow> quiet (slots ! i)"
  by (simp add: notify_inv_iff)

lemma register_all_length [simp]: "length (register_all me ids slots) = length slots"
  by (induction me ids slots rule: register_all.induct) (simp_all split: option.split)

lemma deregister_all_length [simp]: "length (deregister_all me ids slots) = length slots"
  by (induction me ids slots rule: deregister_all.induct) (simp_all split: option.split)

lemma register_all_nth:
  "j < length slots \<Longrightarrow> register_all me ids slots ! j
     = (if j \<in> set ids \<and> in_use (slots ! j) then (slots ! j)\<lparr>waiter := Some me\<rparr> else slots ! j)"
proof (induction ids arbitrary: slots)
  case (Cons i ids)
  let ?s = "case get slots i of Some n \<Rightarrow> if in_use n then slots[i := n\<lparr>waiter := Some me\<rparr>] else slots | None \<Rightarrow> slots"
  have "?s ! j = (if j = i \<and> in_use (slots ! j) then (slots ! j)\<lparr>waiter := Some me\<rparr> else slots ! j)" "j < length ?s"
    using Cons.prems by (auto simp: get_def)
  then have "register_all me ids ?s ! j = (if j \<in> set (i # ids) \<and> in_use (slots ! j) then (slots ! j)\<lparr>waiter := Some me\<rparr> else slots ! j)"
    by (auto simp: Cons.IH)
  then show ?case by simp
qed simp

lemma deregister_all_nth:
  "j < length slots \<Longrightarrow> deregister_all me ids slots ! j
     = (if j \<in> set ids \<and> waiter (slots ! j) = Some me then (slots ! j)\<lparr>waiter := None\<rparr> else slots ! j)"
proof (induction ids arbitrary: slots)
  case (Cons i ids)
  let ?s = "case get slots i of Some n \<Rightarrow> if waiter n = Some me then slots[i := n\<lparr>waiter := None\<rparr>] else slots | None \<Rightarrow> slots"
  have "?s ! j = (if j = i \<and> waiter (slots ! j) = Some me then (slots ! j)\<lparr>waiter := None\<rparr> else slots ! j)" "j < length ?s"
    using Cons.prems by (auto simp: get_def)
  then have "deregister_all me ids ?s ! j = (if j \<in> set (i # ids) \<and> waiter (slots ! j) = Some me then (slots ! j)\<lparr>waiter := None\<rparr> else slots ! j)"
    by (auto simp: Cons.IH)
  then show ?case by simp
qed simp

text \<open>What \<open>consume_ready\<close> returns: the first ready source, or nothing when none is.\<close>

definition ready :: "notify_table \<Rightarrow> nat \<Rightarrow> bool" where
  "ready slots i \<longleftrightarrow> (case get slots i of Some n \<Rightarrow> in_use n \<and> signals n > 0 | None \<Rightarrow> False)"

lemma consume_from_spec:
  "case consume_from k slots ids of
     (None, slots') \<Rightarrow> slots' = slots \<and> (\<forall>i\<in>set ids. \<not> ready slots i)
   | (Some r, slots') \<Rightarrow> k \<le> r \<and> r < k + length ids \<and> ready slots (ids ! (r - k))
       \<and> (\<forall>j<r - k. \<not> ready slots (ids ! j))
       \<and> slots' = slots[ids ! (r - k) := (slots ! (ids ! (r - k)))\<lparr>signals := signals (slots ! (ids ! (r - k))) - 1\<rparr>]"
proof (induction ids arbitrary: k)
  case (Cons i ids)
  show ?case
  proof (cases "ready slots i")
    case True
    then show ?thesis by (auto simp: ready_def get_def split: option.splits if_splits)
  next
    case False
    then have e: "consume_from k slots (i # ids) = consume_from (k + 1) slots ids"
      by (auto simp: ready_def split: option.splits)
    obtain r slots' where r: "consume_from (k + 1) slots ids = (r, slots')" by fastforce
    show ?thesis
    proof (cases r)
      case None
      then show ?thesis using Cons.IH [of "k + 1"] False e r by simp
    next
      case (Some m)
      then have m: "k + 1 \<le> m" "m - k = Suc (m - (k + 1))" using Cons.IH [of "k + 1"] r by auto
      then show ?thesis using Cons.IH [of "k + 1"] False e r Some by (auto simp: less_Suc_eq_0_disj)
    qed
  qed
qed simp

lemma consume_ready_spec:
  "case consume_ready slots ids of
     (None, slots') \<Rightarrow> slots' = slots \<and> (\<forall>i\<in>set ids. \<not> ready slots i)
   | (Some r, slots') \<Rightarrow> r < length ids \<and> ready slots (ids ! r) \<and> (\<forall>j<r. \<not> ready slots (ids ! j))
       \<and> slots' = slots[ids ! r := (slots ! (ids ! r))\<lparr>signals := signals (slots ! (ids ! r)) - 1\<rparr>]"
  using consume_from_spec [where k = 0 and slots = slots and ids = ids] by (simp add: consume_ready_def split: prod.splits option.splits)

lemma ready_nth: "ready slots i \<longleftrightarrow> i < length slots \<and> in_use (slots ! i) \<and> signals (slots ! i) > 0"
  by (simp add: ready_def get_def)

lemma saturating_add_pos: "0 < saturating_add (x :: u32) 1"
  using unat_saturating_add [of x 1] by (simp add: word_less_nat_alt)

lemma create_inv: "notify_inv slots \<Longrightarrow> notify_inv (snd (notify_create r slots))"
  by (auto simp: notify_create_def quiet_def split: option.split intro!: notify_inv_update)
     (simp add: notify_inv_def quiet_def)

lemma signal_inv: "notify_inv slots \<Longrightarrow> notify_inv (snd (signal_locked i slots))"
  by (auto simp: signal_locked_def get_def quiet_def intro!: notify_inv_update)

lemma deregister_inv: "notify_inv slots \<Longrightarrow> notify_inv (deregister_all me ids slots)"
  by (auto simp: notify_inv_iff deregister_all_nth quiet_def)

lemma consume_inv:
  assumes "notify_inv slots" shows "notify_inv (snd (consume_ready slots ids))"
proof -
  obtain r t where r: "consume_ready slots ids = (r, t)" by fastforce
  show ?thesis
  proof (cases r)
    case None
    then show ?thesis using consume_ready_spec [of slots ids] r assms by simp
  next
    case (Some m)
    let ?n = "slots ! (ids ! m)"
    have "ready slots (ids ! m)" "t = slots[ids ! m := ?n\<lparr>signals := signals ?n - 1\<rparr>]"
      using consume_ready_spec [of slots ids] r Some by auto
    moreover from this have "waiter ?n = None"
      using notify_inv_nth [OF assms, of "ids ! m"] by (auto simp: ready_nth quiet_def)
    ultimately show ?thesis using r by (simp add: notify_inv_update [OF assms] quiet_def)
  qed
qed

lemma check_inv:
  assumes "notify_inv slots" shows "notify_inv (snd (wait_check me ids d now slots))"
proof -
  obtain r t where r: "consume_ready slots ids = (r, t)" by fastforce
  have "notify_inv t" using consume_inv [OF assms, of ids] r by simp
  moreover have "notify_inv (register_all me ids t)" if "r = None"
  proof -
    have "t = slots" "\<forall>i\<in>set ids. \<not> ready slots i" using consume_ready_spec [of slots ids] r that by auto
    then show ?thesis using assms by (auto simp: notify_inv_iff register_all_nth quiet_def ready_nth word_gt_0)
  qed
  ultimately show ?thesis using r by (auto simp: wait_check_def split: option.split)
qed

lemma recheck_inv: "notify_inv slots \<Longrightarrow> notify_inv (snd (wait_recheck me ids d now slots))"
  using consume_inv [of "deregister_all me ids slots" ids] deregister_inv [of slots me ids]
  by (auto simp: wait_recheck_def split: prod.split option.split)

lemma notify_reach_inv: "notify_reach slots \<Longrightarrow> notify_inv slots"
proof (induction rule: notify_reach.induct)
  case nr_init
  then show ?case by (simp add: notify_inv_def)
next
  case (nr_step slots slots')
  from nr_step.hyps(2) nr_step.IH show ?case
    by cases (auto intro: create_inv signal_inv check_inv recheck_inv)
qed

lemma recheck_fires:
  assumes "ready slots i" "i \<in> set ids"
  shows "\<exists>r slots'. wait_recheck me ids d now slots = (Fired r, slots')"
proof -
  obtain r t where r: "consume_ready (deregister_all me ids slots) ids = (r, t)" by fastforce
  have "ready (deregister_all me ids slots) i" using assms(1) by (simp add: ready_nth deregister_all_nth)
  then have "r \<noteq> None" using consume_ready_spec [of "deregister_all me ids slots" ids] r assms(2) by (cases r) auto
  then show ?thesis using r by (auto simp: wait_recheck_def)
qed

lemma signal_ready:
  assumes "i < length slots" "in_use (slots ! i)"
  shows "ready (snd (signal_locked i slots)) i"
  using assms by (simp add: signal_locked_def get_def ready_nth saturating_add_pos)

lemma check_registers:
  assumes "wait_check me ids d now slots = (KeepWaiting, slots')" "i \<in> set ids" "i < length slots" "in_use (slots ! i)"
  shows "slots' ! i = (slots ! i)\<lparr>waiter := Some me\<rparr>" "length slots' = length slots"
proof -
  obtain r t where r: "consume_ready slots ids = (r, t)" by fastforce
  have "r = None" "slots' = register_all me ids t" using assms(1) r
    by (auto simp: wait_check_def split: option.splits if_splits)
  then have "slots' = register_all me ids slots" using consume_ready_spec [of slots ids] r by simp
  then show "slots' ! i = (slots ! i)\<lparr>waiter := Some me\<rparr>" "length slots' = length slots"
    using assms(2-4) by (simp_all add: register_all_nth)
qed

section \<open>Properties\<close>

text \<open>In every state the table can reach, through any interleaving of creations, signals and the
  two halves of waits by any tasks, nobody is registered on a notification that holds an
  unconsumed signal: a task that goes to sleep registered has not overlooked one.\<close>

theorem nobody_waits_on_a_pending_signal:
  assumes "notify_reach slots" "n \<in> set slots" "waiter n \<noteq> None"
  shows "signals n = 0"
  using notify_reach_inv [OF assms(1)] assms(2,3) by (auto simp: notify_inv_def list_all_iff quiet_def)

definition demo_notify :: notify_table where
  "demo_notify = snd (wait_check 7 [0] None 0 (snd (notify_create True [])))"

lemma demo_notify_reach: "notify_reach demo_notify"
  unfolding demo_notify_def by (rule nr_step [OF nr_step [OF nr_init ns_create] ns_check])

lemma demo_notify_value: "demo_notify = [\<lparr>in_use = True, signals = 0, waiter = Some 7\<rparr>]"
  by (simp add: demo_notify_def notify_create_def wait_check_def consume_ready_def get_def)

theorem nobody_waits_on_a_pending_signal_witness:
  "notify_reach demo_notify \<and> waiter (demo_notify ! 0) = Some 7 \<and> signals (demo_notify ! 0) = 0"
  using nobody_waits_on_a_pending_signal [OF demo_notify_reach, of "demo_notify ! 0"] demo_notify_reach
  by (simp add: demo_notify_value)

text \<open>Waiting on a set of sources reports the first one in the caller's order that holds a signal and
  takes exactly one signal from it, leaving every other source alone; it parks only when no
  source holds one, and is then registered on every live source, so that the next signal on any
  of them hands this task over to be woken.\<close>

theorem wait_check_correct:
  assumes "\<forall>i\<in>set ids. i < length slots \<and> in_use (slots ! i)"
  shows "case wait_check me ids d now slots of
           (Fired r, slots') \<Rightarrow> r < length ids \<and> ready slots (ids ! r) \<and> (\<forall>j<r. \<not> ready slots (ids ! j))
             \<and> signals (slots' ! (ids ! r)) = signals (slots ! (ids ! r)) - 1
             \<and> (\<forall>j. j \<noteq> ids ! r \<longrightarrow> slots' ! j = slots ! j)
         | (TimedOut, slots') \<Rightarrow> slots' = slots \<and> (\<forall>i\<in>set ids. \<not> ready slots i) \<and> (\<exists>t. d = Some t \<and> t \<le> now)
         | (KeepWaiting, slots') \<Rightarrow> (\<forall>i\<in>set ids. \<not> ready slots i)
             \<and> (\<forall>i\<in>set ids. fst (signal_locked i slots') = Some me \<and> ready (snd (signal_locked i slots')) i)"
proof -
  obtain r t where r: "consume_ready slots ids = (r, t)" by fastforce
  show ?thesis
  proof (cases r)
    case (Some m)
    then show ?thesis using consume_ready_spec [of slots ids] r
      by (auto simp: wait_check_def ready_nth)
  next
    case None
    then have t: "t = slots" "\<forall>i\<in>set ids. \<not> ready slots i" using consume_ready_spec [of slots ids] r by auto
    show ?thesis
    proof (cases "\<exists>x. d = Some x \<and> x \<le> now")
      case True
      then show ?thesis using r None t by (auto simp: wait_check_def)
    next
      case False
      have "fst (signal_locked i (register_all me ids slots)) = Some me \<and> ready (snd (signal_locked i (register_all me ids slots))) i"
        if "i \<in> set ids" for i
        using assms that by (simp add: signal_locked_def get_def register_all_nth ready_nth saturating_add_pos)
      moreover have "wait_check me ids d now slots = (KeepWaiting, register_all me ids slots)"
        using False r None t by (auto simp: wait_check_def split: option.split)
      ultimately show ?thesis using t by simp
    qed
  qed
qed

theorem wait_check_correct_witness:
  "fst (wait_check 7 [1, 0] None 0
     [\<lparr>in_use = True, signals = 2, waiter = None\<rparr>, \<lparr>in_use = True, signals = 0, waiter = None\<rparr>]) = Fired 1"
  using wait_check_correct [where ids = "[1, 0]" and me = 7 and d = None and now = 0 and slots = "[\<lparr>in_use = True, signals = 2, waiter = None\<rparr>, \<lparr>in_use = True, signals = 0, waiter = None\<rparr>]"]
  by (simp add: wait_check_def consume_ready_def get_def)

end
