(* ===== verification/PageTable.thy ===== *)
theory PageTable
  imports Scheduler
begin

unbundle bit_operations_syntax

text \<open>
  \<^verbatim>\<open>crates/arch-aarch64/src/addrspace.rs\<close> and the descriptor vocabulary of \<^verbatim>\<open>mmu.rs\<close>: a process's
  four-level translation tables, held in frames of the kernel's frame pool and reached through
  the linear map. The state is the pool and physical memory as 64-bit words by address; a panic
  of the allocator is \<open>None\<close>. Barriers, TLB and cache maintenance have no counterpart here: the
  model is the tables as memory, which is what the maintenance publishes.
\<close>

section \<open>Descriptors\<close>

definition DESC_TABLE :: u64 where "DESC_TABLE = 0b11"
definition DESC_PAGE :: u64 where "DESC_PAGE = 0b11"
definition DESC_VALID :: u64 where "DESC_VALID = 1"
definition DESC_KIND :: u64 where "DESC_KIND = 0b11"
definition ADDR_MASK :: u64 where "ADDR_MASK = 0x0000FFFFFFFFF000"
definition SW_OWNED :: u64 where "SW_OWNED = push_bit 55 1"
definition AF :: u64 where "AF = push_bit 10 1"
definition SH_INNER :: u64 where "SH_INNER = push_bit 8 0b11"
definition AP_RW_EL0 :: u64 where "AP_RW_EL0 = push_bit 6 0b01"
definition AP_RO_EL0 :: u64 where "AP_RO_EL0 = push_bit 6 0b11"
definition AP_MASK :: u64 where "AP_MASK = push_bit 6 0b11"
definition PXN :: u64 where "PXN = push_bit 53 1"
definition UXN :: u64 where "UXN = push_bit 54 1"
definition ATTR_NORMAL :: u64 where "ATTR_NORMAL = 0"
definition ATTR_DEVICE :: u64 where "ATTR_DEVICE = push_bit 2 1"
definition ATTR_NORMAL_NC :: u64 where "ATTR_NORMAL_NC = push_bit 2 3"

definition user_text_page :: "u64 \<Rightarrow> u64" where
  "user_text_page pa = pa OR DESC_PAGE OR AF OR SH_INNER OR AP_RO_EL0 OR ATTR_NORMAL OR PXN"

definition user_ro_page :: "u64 \<Rightarrow> u64" where
  "user_ro_page pa = pa OR DESC_PAGE OR AF OR SH_INNER OR AP_RO_EL0 OR ATTR_NORMAL OR PXN OR UXN"

definition user_data_page :: "u64 \<Rightarrow> u64" where
  "user_data_page pa = pa OR DESC_PAGE OR AF OR SH_INNER OR AP_RW_EL0 OR ATTR_NORMAL OR PXN OR UXN"

definition user_device_page :: "u64 \<Rightarrow> u64" where
  "user_device_page pa = pa OR DESC_PAGE OR AF OR AP_RW_EL0 OR ATTR_DEVICE OR PXN OR UXN"

definition user_dma_page :: "u64 \<Rightarrow> u64" where
  "user_dma_page pa = pa OR DESC_PAGE OR AF OR SH_INNER OR AP_RW_EL0 OR ATTR_NORMAL_NC OR PXN OR UXN"

definition user_readable :: "u64 \<Rightarrow> bool" where
  "user_readable desc \<longleftrightarrow> desc AND DESC_VALID \<noteq> 0 \<and> desc AND push_bit 6 1 \<noteq> 0"

definition user_writable :: "u64 \<Rightarrow> bool" where
  "user_writable desc \<longleftrightarrow> desc AND DESC_VALID \<noteq> 0 \<and> desc AND AP_MASK = AP_RW_EL0"

section \<open>Tables in memory\<close>

record vm =
  vpool :: frame_pool
  pwords :: "nat \<Rightarrow> u64"

definition USER_BASE :: u64 where "USER_BASE = 0x80000000"
definition USER_IMAGE_END :: u64 where "USER_IMAGE_END = 0xC0000000"
definition USER_DMA_VA :: u64 where "USER_DMA_VA = 0x700000000"
definition USER_DTB_VA :: u64 where "USER_DTB_VA = 0x600000000"
definition USER_INITRD_VA :: u64 where "USER_INITRD_VA = 0x900000000"
definition USER_FB_VA :: u64 where "USER_FB_VA = 0xA00000000"
definition USER_WINDOW_END :: u64 where "USER_WINDOW_END = 0x1000000000"
definition USER_STACK_TOP :: u64 where "USER_STACK_TOP = 0x800000000"
definition USER_STACK_PAGES :: nat where "USER_STACK_PAGES = 1"
definition USER_STACK_MAX_PAGES :: u64 where "USER_STACK_MAX_PAGES = 256"
definition USER_STACK_LIMIT :: u64 where "USER_STACK_LIMIT = USER_STACK_TOP - USER_STACK_MAX_PAGES * PAGE_4K"
definition PF_X :: u32 where "PF_X = 1"
definition PF_W :: u32 where "PF_W = 2"
definition ENTRIES :: nat where "ENTRIES = 512"
definition LEAF_LEVEL :: nat where "LEAF_LEVEL = 3"

definition table_index :: "u64 \<Rightarrow> nat \<Rightarrow> nat" where
  "table_index va level = unat (drop_bit (39 - 9 * level) va AND 0x1ff)"

text \<open>\<open>desc & ADDR_MASK\<close> as the address of a frame.\<close>

definition frame_of :: "u64 \<Rightarrow> nat" where
  "frame_of desc = unat (desc AND ADDR_MASK)"

definition read_entry :: "(nat \<Rightarrow> u64) \<Rightarrow> nat \<Rightarrow> nat \<Rightarrow> u64" where
  "read_entry m table index = m (table + 8 * index)"

definition write_entry :: "nat \<Rightarrow> nat \<Rightarrow> u64 \<Rightarrow> (nat \<Rightarrow> u64) \<Rightarrow> nat \<Rightarrow> u64" where
  "write_entry table index desc m = m(table + 8 * index := desc)"

definition zero_frame :: "nat \<Rightarrow> (nat \<Rightarrow> u64) \<Rightarrow> nat \<Rightarrow> u64" where
  "zero_frame phys m = (\<lambda>a. if phys \<le> a \<and> a < phys + 8 * ENTRIES then 0 else m a)"

definition alloc_table :: "vm \<Rightarrow> (nat option \<times> vm) option" where
  "alloc_table v =
     (case pool_allocate (vpool v) of
        None \<Rightarrow> None
      | Some (None, p) \<Rightarrow> Some (None, v\<lparr>vpool := p\<rparr>)
      | Some (Some f, p) \<Rightarrow> Some (Some f, v\<lparr>vpool := p, pwords := zero_frame f (pwords v)\<rparr>))"

text \<open>The walks. \<open>n\<close> is the number of levels below the table \<open>t\<close>: the loops run over the levels
  \<open>3 - n\<close> to 2.\<close>

fun leaf_from :: "nat \<Rightarrow> nat \<Rightarrow> u64 \<Rightarrow> vm \<Rightarrow> (nat option \<times> vm) option" where
  "leaf_from 0 t va v = Some (Some t, v)"
| "leaf_from (Suc n) t va v =
     (let index = table_index va (LEAF_LEVEL - Suc n); desc = read_entry (pwords v) t index
      in if desc AND DESC_VALID = 0
         then (case alloc_table v of
                 None \<Rightarrow> None
               | Some (None, v1) \<Rightarrow> Some (None, v1)
               | Some (Some next, v1) \<Rightarrow>
                   leaf_from n next va (v1\<lparr>pwords := write_entry t index (of_nat next OR DESC_TABLE) (pwords v1)\<rparr>))
         else leaf_from n (frame_of desc) va v)"

definition leaf_table :: "addr_space \<Rightarrow> u64 \<Rightarrow> vm \<Rightarrow> (nat option \<times> vm) option" where
  "leaf_table sp va v = leaf_from LEAF_LEVEL (unat (root sp)) va v"

definition map_page :: "addr_space \<Rightarrow> u64 \<Rightarrow> u64 \<Rightarrow> vm \<Rightarrow> (bool \<times> vm) option" where
  "map_page sp va desc v =
     (case leaf_table sp va v of
        None \<Rightarrow> None
      | Some (None, v1) \<Rightarrow> Some (False, v1)
      | Some (Some leaf, v1) \<Rightarrow>
          Some (True, v1\<lparr>pwords := write_entry leaf (table_index va LEAF_LEVEL) desc (pwords v1)\<rparr>))"

fun existing_from :: "nat \<Rightarrow> (nat \<Rightarrow> u64) \<Rightarrow> nat \<Rightarrow> u64 \<Rightarrow> nat option" where
  "existing_from 0 m t va = Some t"
| "existing_from (Suc n) m t va =
     (let desc = read_entry m t (table_index va (LEAF_LEVEL - Suc n))
      in if desc AND DESC_KIND \<noteq> DESC_TABLE then None else existing_from n m (frame_of desc) va)"

definition existing_leaf_table :: "addr_space \<Rightarrow> u64 \<Rightarrow> (nat \<Rightarrow> u64) \<Rightarrow> nat option" where
  "existing_leaf_table sp va m = existing_from LEAF_LEVEL m (unat (root sp)) va"

fun lookup_from :: "nat \<Rightarrow> (nat \<Rightarrow> u64) \<Rightarrow> nat \<Rightarrow> u64 \<Rightarrow> u64 option" where
  "lookup_from 0 m t va =
     (let desc = read_entry m t (table_index va LEAF_LEVEL)
      in if desc AND DESC_VALID \<noteq> 0 then Some desc else None)"
| "lookup_from (Suc n) m t va =
     (let desc = read_entry m t (table_index va (LEAF_LEVEL - Suc n))
      in if desc AND DESC_KIND \<noteq> DESC_TABLE then None else lookup_from n m (frame_of desc) va)"

definition lookup :: "addr_space \<Rightarrow> u64 \<Rightarrow> (nat \<Rightarrow> u64) \<Rightarrow> u64 option" where
  "lookup sp va m = lookup_from LEAF_LEVEL m (unat (root sp)) va"

section \<open>Mapping pages\<close>

definition map_fresh :: "addr_space \<Rightarrow> u64 \<Rightarrow> vm \<Rightarrow> (nat option \<times> vm) option" where
  "map_fresh sp va v =
     (case alloc_table v of
        None \<Rightarrow> None
      | Some (None, v1) \<Rightarrow> Some (None, v1)
      | Some (Some frame, v1) \<Rightarrow>
          (case map_page sp va (user_data_page (of_nat frame) OR SW_OWNED) v1 of
             None \<Rightarrow> None
           | Some (False, v2) \<Rightarrow> Some (None, v2\<lparr>vpool := pool_free (vpool v2) frame\<rparr>)
           | Some (True, v2) \<Rightarrow> Some (Some frame, v2)))"

fun stack_pages :: "nat \<Rightarrow> nat \<Rightarrow> addr_space \<Rightarrow> vm \<Rightarrow> (bool \<times> vm) option" where
  "stack_pages i 0 sp v = Some (True, v)"
| "stack_pages i (Suc n) sp v =
     (case map_fresh sp (USER_STACK_TOP - of_nat i * PAGE_4K) v of
        None \<Rightarrow> None
      | Some (None, v1) \<Rightarrow> Some (False, v1)
      | Some (Some _, v1) \<Rightarrow> stack_pages (i + 1) n sp v1)"

definition populate :: "addr_space \<Rightarrow> vm \<Rightarrow> (addr_space option \<times> vm) option" where
  "populate sp v =
     (case map_fresh sp USER_DATA_VA v of
        None \<Rightarrow> None
      | Some (None, v1) \<Rightarrow> Some (None, v1)
      | Some (Some d, v1) \<Rightarrow>
          (case stack_pages 1 USER_STACK_PAGES sp v1 of
             None \<Rightarrow> None
           | Some (ok, v2) \<Rightarrow> Some (if ok then Some (sp\<lparr>data_phys := of_nat d\<rparr>) else None, v2)))"

definition grow_stack :: "addr_space \<Rightarrow> u64 \<Rightarrow> vm \<Rightarrow> (bool \<times> vm) option" where
  "grow_stack sp far v =
     (let va = far AND NOT (PAGE_4K - 1)
      in if \<not> (USER_STACK_LIMIT \<le> va \<and> va < USER_STACK_TOP) then Some (False, v)
         else if lookup sp va (pwords v) \<noteq> None then Some (False, v)
         else (case map_fresh sp va v of
                 None \<Rightarrow> None
               | Some (r, v1) \<Rightarrow> Some (r \<noteq> None, v1)))"

fun map_anon_from :: "nat \<Rightarrow> u64 \<Rightarrow> addr_space \<Rightarrow> vm \<Rightarrow> (bool \<times> vm) option" where
  "map_anon_from 0 pg sp v = Some (True, v)"
| "map_anon_from (Suc n) pg sp v =
     (case map_fresh sp pg v of
        None \<Rightarrow> None
      | Some (None, v1) \<Rightarrow> Some (False, v1)
      | Some (Some _, v1) \<Rightarrow> map_anon_from n (pg + PAGE_4K) sp v1)"

definition map_anon_at :: "addr_space \<Rightarrow> u64 \<Rightarrow> u64 \<Rightarrow> vm \<Rightarrow> (bool \<times> vm) option" where
  "map_anon_at sp va pages v = map_anon_from (unat pages) va sp v"

definition map_anon :: "addr_space \<Rightarrow> u64 \<Rightarrow> vm \<Rightarrow> (u64 option \<times> addr_space \<times> vm) option" where
  "map_anon sp pages v =
     (case reserve_anon sp pages of
        None \<Rightarrow> Some (None, sp, v)
      | Some (first, sp1) \<Rightarrow>
          (case map_anon_at sp1 first pages v of
             None \<Rightarrow> None
           | Some (ok, v1) \<Rightarrow> Some (if ok then Some first else None, sp1, v1)))"

text \<open>The loop over the pages of a segment. \<open>fill start n m\<close> is the caller's filler for the \<open>n\<close> bytes at an
  offset of the segment, run with memory \<open>m\<close>: the words it leaves in the zeroed page, \<open>Some None\<close> when it
  gives up, \<open>None\<close> when it faults.\<close>

type_synonym filler = "nat \<Rightarrow> nat \<Rightarrow> (nat \<Rightarrow> u64) \<Rightarrow> (nat \<Rightarrow> u64) option option"

definition segment_desc :: "u32 \<Rightarrow> u64 \<Rightarrow> u64" where
  "segment_desc flags frame =
     (if flags AND PF_X \<noteq> 0 then user_text_page frame
      else if flags AND PF_W \<noteq> 0 then user_data_page frame else user_ro_page frame)"

fun map_segment_from ::
  "nat \<Rightarrow> nat \<Rightarrow> addr_space \<Rightarrow> u64 \<Rightarrow> nat \<Rightarrow> u32 \<Rightarrow> filler \<Rightarrow> vm \<Rightarrow> (bool \<times> vm) option" where
  "map_segment_from i 0 sp vaddr filesz flags fill v = Some (True, v)"
| "map_segment_from i (Suc n) sp vaddr filesz flags fill v =
     (let va = vaddr + of_nat i * PAGE_4K
      in if \<not> (USER_BASE \<le> va \<and> va < USER_IMAGE_END) then Some (False, v)
         else (case alloc_table v of
                 None \<Rightarrow> None
               | Some (None, v1) \<Rightarrow> Some (False, v1)
               | Some (Some frame, v1) \<Rightarrow>
                   let start = i * unat PAGE_4K
                   in (case (if start < filesz then fill start (min (unat PAGE_4K) (filesz - start)) (pwords v1) else Some (Some (\<lambda>_. 0))) of
                         None \<Rightarrow> None
                       | Some None \<Rightarrow> Some (False, v1\<lparr>vpool := pool_free (vpool v1) frame\<rparr>)
                       | Some (Some content) \<Rightarrow>
                           let v2 = v1\<lparr>pwords := (\<lambda>a. if frame \<le> a \<and> a < frame + 8 * ENTRIES then content (a - frame) else pwords v1 a)\<rparr>
                           in (case map_page sp va (segment_desc flags (of_nat frame) OR SW_OWNED) v2 of
                                 None \<Rightarrow> None
                               | Some (False, v3) \<Rightarrow> Some (False, v3\<lparr>vpool := pool_free (vpool v3) frame\<rparr>)
                               | Some (True, v3) \<Rightarrow> map_segment_from (i + 1) n sp vaddr filesz flags fill v3))))"

definition map_segment_with ::
  "addr_space \<Rightarrow> u64 \<Rightarrow> nat \<Rightarrow> nat \<Rightarrow> u32 \<Rightarrow> filler \<Rightarrow> vm \<Rightarrow> (bool \<times> vm) option" where
  "map_segment_with sp vaddr filesz memsz flags fill v =
     (if vaddr mod PAGE_4K \<noteq> 0 \<or> filesz > memsz then Some (False, v)
      else map_segment_from 0 ((memsz + unat PAGE_4K - 1) div unat PAGE_4K) sp vaddr filesz flags fill v)"

text \<open>A run of pages that belong to someone else, as \<^verbatim>\<open>map_dtb\<close>, \<^verbatim>\<open>map_initrd\<close>, \<^verbatim>\<open>map_framebuffer\<close>,
  \<^verbatim>\<open>map_shared\<close> and \<^verbatim>\<open>map_dma\<close> map it.\<close>

fun map_run :: "u64 \<Rightarrow> u64 list \<Rightarrow> addr_space \<Rightarrow> vm \<Rightarrow> (bool \<times> vm) option" where
  "map_run va [] sp v = Some (True, v)"
| "map_run va (desc # descs) sp v =
     (case map_page sp va desc v of
        None \<Rightarrow> None
      | Some (False, v1) \<Rightarrow> Some (False, v1)
      | Some (True, v1) \<Rightarrow> map_run (va + PAGE_4K) descs sp v1)"

definition map_firmware :: "u64 \<Rightarrow> (u64 \<Rightarrow> u64) \<Rightarrow> u64 \<Rightarrow> nat \<Rightarrow> addr_space \<Rightarrow> vm \<Rightarrow> (u64 option \<times> vm) option" where
  "map_firmware at page_desc phys len sp v =
     (let page_off = phys AND (PAGE_4K - 1); first_page = phys - page_off;
          pages = (unat page_off + len + unat PAGE_4K - 1) div unat PAGE_4K
      in case map_run at (map (\<lambda>i. page_desc (first_page + of_nat i * PAGE_4K)) [0..<pages]) sp v of
           None \<Rightarrow> None
         | Some (ok, v1) \<Rightarrow> Some (if ok then Some (at + page_off) else None, v1))"

definition map_dtb :: "u64 \<Rightarrow> nat \<Rightarrow> addr_space \<Rightarrow> vm \<Rightarrow> (u64 option \<times> vm) option" where
  "map_dtb phys len sp v = map_firmware USER_DTB_VA user_ro_page phys len sp v"

definition map_initrd :: "u64 \<Rightarrow> nat \<Rightarrow> addr_space \<Rightarrow> vm \<Rightarrow> (u64 option \<times> vm) option" where
  "map_initrd phys len sp v = map_firmware USER_INITRD_VA user_ro_page phys len sp v"

definition map_framebuffer :: "u64 \<Rightarrow> nat \<Rightarrow> addr_space \<Rightarrow> vm \<Rightarrow> (u64 option \<times> vm) option" where
  "map_framebuffer phys len sp v = map_firmware USER_FB_VA user_data_page phys len sp v"

definition map_shared :: "u64 \<Rightarrow> u64 list \<Rightarrow> addr_space \<Rightarrow> vm \<Rightarrow> (u64 option \<times> vm) option" where
  "map_shared at frs sp v =
     (case map_run at (map user_data_page frs) sp v of
        None \<Rightarrow> None
      | Some (ok, v1) \<Rightarrow> Some (if ok then Some at else None, v1))"

definition map_dma :: "u64 \<Rightarrow> u32 \<Rightarrow> addr_space \<Rightarrow> vm \<Rightarrow> (u64 option \<times> vm) option" where
  "map_dma phys pages sp v =
     (case map_run USER_DMA_VA (map (\<lambda>i. user_dma_page (phys + of_nat i * PAGE_4K)) [0..<unat pages]) sp v of
        None \<Rightarrow> None
      | Some (ok, v1) \<Rightarrow> Some (if ok then Some USER_DMA_VA else None, v1))"

definition map_device :: "u64 \<Rightarrow> u64 \<Rightarrow> addr_space \<Rightarrow> vm \<Rightarrow> (u64 option \<times> vm) option" where
  "map_device at dev_phys sp v =
     (let page_off = dev_phys AND (PAGE_4K - 1); pg = dev_phys - page_off
      in case map_page sp at (user_device_page pg) v of
           None \<Rightarrow> None
         | Some (ok, v1) \<Rightarrow> Some (if ok then Some (at + page_off) else None, v1))"

section \<open>Checking, unmapping and tearing down\<close>

text \<open>The loop of \<^verbatim>\<open>user_range_ok\<close>. The page counter is a natural number: the source's could wrap only
  past a mapped page at the very top of the 64-bit range.\<close>

function range_from :: "addr_space \<Rightarrow> (nat \<Rightarrow> u64) \<Rightarrow> bool \<Rightarrow> nat \<Rightarrow> nat \<Rightarrow> bool" where
  "range_from sp m write pg stop =
     (if pg < stop
      then (case lookup sp (of_nat pg) m of
              None \<Rightarrow> False
            | Some desc \<Rightarrow>
                if \<not> user_readable desc \<or> (write \<and> \<not> user_writable desc) then False
                else range_from sp m write (pg + unat PAGE_4K) stop)
      else True)"
  by pat_completeness auto
termination
  by (relation "measure (\<lambda>(_, _, _, pg, stop). stop - pg)") (auto simp: PAGE_4K_def)

declare range_from.simps [simp del]

definition user_range_ok :: "addr_space \<Rightarrow> u64 \<Rightarrow> nat \<Rightarrow> bool \<Rightarrow> (nat \<Rightarrow> u64) \<Rightarrow> bool" where
  "user_range_ok sp va len write m =
     (if unat va + len \<ge> 2 ^ 64 then False
      else if len = 0 then True
      else range_from sp m write (unat (va AND NOT (PAGE_4K - 1))) (unat va + len))"

fun unmap_from :: "nat \<Rightarrow> u64 \<Rightarrow> addr_space \<Rightarrow> vm \<Rightarrow> nat \<times> vm" where
  "unmap_from 0 pg sp v = (0, v)"
| "unmap_from (Suc n) pg sp v =
     (case existing_leaf_table sp pg (pwords v) of
        None \<Rightarrow> unmap_from n (pg + PAGE_4K) sp v
      | Some leaf \<Rightarrow>
          let index = table_index pg LEAF_LEVEL; desc = read_entry (pwords v) leaf index
          in if desc AND DESC_VALID = 0 then unmap_from n (pg + PAGE_4K) sp v
             else let v1 = v\<lparr>pwords := write_entry leaf index 0 (pwords v),
                             vpool := (if desc AND SW_OWNED \<noteq> 0 then pool_free (vpool v) (frame_of desc) else vpool v)\<rparr>;
                      (removed, v2) = unmap_from n (pg + PAGE_4K) sp v1
                  in (removed + 1, v2))"

definition unmap :: "addr_space \<Rightarrow> u64 \<Rightarrow> u64 \<Rightarrow> vm \<Rightarrow> nat \<times> vm" where
  "unmap sp va pages v = unmap_from (unat pages) va sp v"

text \<open>\<^verbatim>\<open>free_table\<close> with \<open>n\<close> levels below the table.\<close>

fun free_table :: "nat \<Rightarrow> nat \<Rightarrow> vm \<Rightarrow> vm" where
  "free_table n table v =
     (let v1 = foldl (\<lambda>w index.
            let desc = read_entry (pwords w) table index
            in if desc AND DESC_VALID = 0 then w
               else (case n of
                       Suc k \<Rightarrow> free_table k (frame_of desc) w
                     | 0 \<Rightarrow> if desc AND SW_OWNED \<noteq> 0 then w\<lparr>vpool := pool_free (vpool w) (frame_of desc)\<rparr> else w))
          v [0..<ENTRIES]
      in v1\<lparr>vpool := pool_free (vpool v1) table\<rparr>)"

declare free_table.simps [simp del]

definition destroy :: "addr_space \<Rightarrow> vm \<Rightarrow> vm" where
  "destroy sp v = free_table LEAF_LEVEL (unat (root sp)) v"

definition space_new :: "vm \<Rightarrow> (addr_space option \<times> vm) option" where
  "space_new v =
     (case alloc_table v of
        None \<Rightarrow> None
      | Some (None, v1) \<Rightarrow> Some (None, v1)
      | Some (Some r, v1) \<Rightarrow>
          (case populate \<lparr>root = of_nat r, data_phys = 0, entry = 0, heap_next = USER_HEAP_BASE\<rparr> v1 of
             None \<Rightarrow> None
           | Some (Some sp, v2) \<Rightarrow> Some (Some sp, v2)
           | Some (None, v2) \<Rightarrow> Some (None, free_table LEAF_LEVEL r v2)))"

end
