(* ===== verification/Iommu.thy ===== *)
theory Iommu
  imports Prelude
begin

unbundle bit_operations_syntax

text \<open>
  \<^verbatim>\<open>crates/iommu/src/lib.rs\<close>: the words the SMMUv3 reads and writes in memory. A stream-table entry and an event
  record are the lists of their doublewords.
\<close>

section \<open>Stream-table entries\<close>

definition STE_DWORDS :: nat where "STE_DWORDS = 8"
definition CMD_DWORDS :: nat where "CMD_DWORDS = 2"
definition EVT_DWORDS :: nat where "EVT_DWORDS = 4"
definition STE_CONFIG_S2_ONLY :: u64 where "STE_CONFIG_S2_ONLY = 0b110"
definition S2TG_4K :: u64 where "S2TG_4K = 0"
definition S2SL0_LEVEL0 :: u64 where "S2SL0_LEVEL0 = 0b10"
definition S2_XR0_WB :: u64 where "S2_XR0_WB = 0b01"
definition S2SH0_INNER :: u64 where "S2SH0_INNER = 0b11"
definition STE_S2R :: u64 where "STE_S2R = push_bit 58 1"
definition S2TTB_MASK :: u64 where "S2TTB_MASK = 0x000ffffffffff000"

record stage2_regime =
  s2_t0sz :: u64
  s2_ps :: u64
  s2_vmid :: u16

definition stage2 :: "u16 \<Rightarrow> stage2_regime" where
  "stage2 v = \<lparr>s2_t0sz = 24, s2_ps = 0b100, s2_vmid = v\<rparr>"

definition stage2_ste :: "u64 \<Rightarrow> stage2_regime \<Rightarrow> u64 list" where
  "stage2_ste s2ttb r =
     [1 OR push_bit 1 STE_CONFIG_S2_ONLY,
      0,
      ucast (s2_vmid r) OR push_bit 32 (s2_t0sz r) OR push_bit 38 S2SL0_LEVEL0 OR push_bit 40 S2_XR0_WB OR push_bit 42 S2_XR0_WB
        OR push_bit 44 S2SH0_INNER OR push_bit 46 S2TG_4K OR push_bit 48 (s2_ps r) OR push_bit 51 1 OR STE_S2R,
      s2ttb AND S2TTB_MASK, 0, 0, 0, 0]"

definition abort_ste :: "u64 list" where
  "abort_ste = replicate STE_DWORDS 0"

section \<open>Stage-2 descriptors\<close>

definition DESC_ADDR_MASK :: u64 where "DESC_ADDR_MASK = 0x0000fffffffff000"
definition S2_DESC_VALID :: u64 where "S2_DESC_VALID = 0b01"
definition S2_DESC_TABLE :: u64 where "S2_DESC_TABLE = 0b11"
definition S2_MEMATTR_NC :: u64 where "S2_MEMATTR_NC = push_bit 2 0b0101"
definition S2AP_RW :: u64 where "S2AP_RW = push_bit 6 0b11"
definition S2_SH_INNER :: u64 where "S2_SH_INNER = push_bit 8 0b11"
definition S2_AF :: u64 where "S2_AF = push_bit 10 1"
definition S2_XN :: u64 where "S2_XN = push_bit 54 1"

definition stage2_table :: "u64 \<Rightarrow> u64" where
  "stage2_table next_phys = (next_phys AND DESC_ADDR_MASK) OR S2_DESC_TABLE"

definition stage2_page :: "u64 \<Rightarrow> u64" where
  "stage2_page output_phys =
     (output_phys AND DESC_ADDR_MASK) OR S2_DESC_TABLE OR S2_MEMATTR_NC OR S2AP_RW OR S2_SH_INNER OR S2_AF OR S2_XN"

definition descriptor_is_valid :: "u64 \<Rightarrow> bool" where
  "descriptor_is_valid desc \<longleftrightarrow> desc AND S2_DESC_VALID \<noteq> 0"

section \<open>Commands\<close>

definition CMD_CFGI_STE :: u64 where "CMD_CFGI_STE = 0x03"
definition CMD_SYNC :: u64 where "CMD_SYNC = 0x46"

definition cmd_cfgi_ste :: "u32 \<Rightarrow> u64 list" where
  "cmd_cfgi_ste streamid = [CMD_CFGI_STE OR push_bit 32 (ucast streamid), 1]"

definition cmd_sync :: "u64 list" where
  "cmd_sync = [CMD_SYNC, 0]"

section \<open>Events\<close>

datatype event_kind = Uut | BadStreamId | SteFetch | BadSte | StreamDisabled | WalkEabt | Translation | AddrSize | Access
  | Permission | Other u8

definition event_from_code :: "u8 \<Rightarrow> event_kind" where
  "event_from_code code =
     (if code = 0x01 then Uut else if code = 0x02 then BadStreamId else if code = 0x03 then SteFetch
      else if code = 0x04 then BadSte else if code = 0x06 then StreamDisabled else if code = 0x0b then WalkEabt
      else if code = 0x10 then Translation else if code = 0x11 then AddrSize else if code = 0x12 then Access
      else if code = 0x13 then Permission else Other code)"

fun event_name :: "event_kind \<Rightarrow> string" where
  "event_name Uut = ''F_UUT''"
| "event_name BadStreamId = ''C_BAD_STREAMID''"
| "event_name SteFetch = ''F_STE_FETCH''"
| "event_name BadSte = ''C_BAD_STE''"
| "event_name StreamDisabled = ''F_STREAM_DISABLED''"
| "event_name WalkEabt = ''F_WALK_EABT''"
| "event_name Translation = ''F_TRANSLATION''"
| "event_name AddrSize = ''F_ADDR_SIZE''"
| "event_name Access = ''F_ACCESS''"
| "event_name Permission = ''F_PERMISSION''"
| "event_name (Other _) = ''unknown''"

record event_record =
  ev_code :: u8
  ev_kind :: event_kind
  ev_streamid :: u32
  ev_address :: u64
  ev_ipa :: u64
  ev_read :: bool
  ev_stage2 :: bool
  ev_privileged :: bool
  ev_instruction :: bool

definition parse_event :: "u64 list \<Rightarrow> event_record option" where
  "parse_event rec =
     (if (\<forall>w\<in>set rec. w = 0) then None
      else let code = (ucast (rec ! 0 AND 0xff) :: u8)
        in if code = 0 then None
           else Some \<lparr>ev_code = code, ev_kind = event_from_code code, ev_streamid = ucast (drop_bit 32 (rec ! 0)),
                  ev_address = rec ! 2, ev_ipa = push_bit 12 (drop_bit 12 (rec ! 3)),
                  ev_read = (rec ! 1 AND push_bit 35 1 \<noteq> 0), ev_stage2 = (rec ! 1 AND push_bit 39 1 \<noteq> 0),
                  ev_privileged = (rec ! 1 AND push_bit 33 1 \<noteq> 0), ev_instruction = (rec ! 1 AND push_bit 34 1 \<noteq> 0)\<rparr>)"

end
