(* ===== verification/Smmu.thy ===== *)
theory Smmu
  imports PageTable Iommu
begin

unbundle bit_operations_syntax

text \<open>
  \<^verbatim>\<open>crates/arch-aarch64/src/smmu.rs\<close>: the driver of the SMMUv3. The stream table, the two queues and the stage-2
  tables are words of physical memory, in frames of the kernel's pool. What the registers answer when they are
  polled is the parameter \<open>smmu_hw\<close>; what the driver writes to them is a list of register writes. Barriers have no
  counterpart. \<open>None\<close> is a panic: an overflow of the address arithmetic, which the build checks, or one of the
  frame allocator.
\<close>

section \<open>Constants\<close>

definition IDR0_ST_LEVEL :: u32 where "IDR0_ST_LEVEL = push_bit 27 0b11"
definition IDR0_S1P :: u32 where "IDR0_S1P = push_bit 1 1"
definition IDR0_S2P :: u32 where "IDR0_S2P = push_bit 0 1"
definition CR0_SMMUEN :: u32 where "CR0_SMMUEN = push_bit 0 1"
definition CR0_EVENTQEN :: u32 where "CR0_EVENTQEN = push_bit 2 1"
definition CR0_CMDQEN :: u32 where "CR0_CMDQEN = push_bit 3 1"
definition GBPA_ABORT :: u32 where "GBPA_ABORT = push_bit 20 1"
definition GBPA_UPDATE :: u32 where "GBPA_UPDATE = push_bit 31 1"
definition STRTAB_BASE_CFG_FMT_LINEAR :: u32 where "STRTAB_BASE_CFG_FMT_LINEAR = 0"
definition Q_BASE_ADDR_MASK :: u64 where "Q_BASE_ADDR_MASK = 0x000fffffffffffe0"
definition STE_BYTES :: nat where "STE_BYTES = 64"
definition CMD_BYTES :: nat where "CMD_BYTES = 16"
definition EVT_BYTES :: nat where "EVT_BYTES = 32"
definition SMMU_PAGE :: nat where "SMMU_PAGE = 4096"
definition STRTAB_LOG2 :: nat where "STRTAB_LOG2 = 8"
definition CMDQ_LOG2 :: nat where "CMDQ_LOG2 = 8"
definition EVENTQ_LOG2 :: nat where "EVENTQ_LOG2 = 8"
definition CMDQ_ENTRIES :: u32 where "CMDQ_ENTRIES = push_bit CMDQ_LOG2 1"
definition CMDQ_PROD_MASK :: u32 where "CMDQ_PROD_MASK = push_bit 1 CMDQ_ENTRIES - 1"
definition EVENTQ_ENTRIES :: u32 where "EVENTQ_ENTRIES = push_bit EVENTQ_LOG2 1"
definition EVENTQ_PROD_MASK :: u32 where "EVENTQ_PROD_MASK = push_bit 1 EVENTQ_ENTRIES - 1"
definition S2_LEAF_LEVEL :: nat where "S2_LEAF_LEVEL = 3"
definition S2_ADDR_MASK :: u64 where "S2_ADDR_MASK = 0x0000fffffffff000"
definition DMA_VMID :: u16 where "DMA_VMID = 1"
definition SPINS :: nat where "SPINS = 1000000"

section \<open>State\<close>

record smmu_buf =
  buf_phys :: u64
  buf_pages :: nat

record smmu_buffers =
  strtab_buf :: smmu_buf
  cmdq_buf :: smmu_buf
  eventq_buf :: smmu_buf

record smmu_config =
  cfg_aidr :: u32
  cfg_sid_bits :: u32
  cfg_s1p :: bool
  cfg_s2p :: bool
  cfg_strtab_log2 :: nat
  cfg_enabled :: bool

record smmu =
  strtab_phys :: u64
  cmdq_phys :: u64
  cmdq_prod :: u32
  eventq_phys :: u64
  eventq_cons :: u32

text \<open>The registers of the device: the identification registers, the value of each poll of a register that is waited
  for, and the error and event producer registers.\<close>

record smmu_hw =
  hw_idr0 :: u32
  hw_idr1 :: u32
  hw_aidr :: u32
  hw_cr0ack :: "nat \<Rightarrow> nat \<Rightarrow> u32"
  hw_cons :: "nat \<Rightarrow> u32"
  hw_gerror :: u32
  hw_gerrorn :: u32
  hw_evt_prod :: u32

datatype smmu_reg = R_CR0 | R_IRQ_CTRL | R_GERRORN | R_CMDQ_BASE | R_CMDQ_PROD | R_CMDQ_CONS | R_EVENTQ_BASE | R_EVENTQ_PROD
  | R_EVENTQ_CONS | R_STRTAB_BASE | R_STRTAB_BASE_CFG | R_GBPA | R_CR1 | R_CR2

type_synonym reg_write = "smmu_reg \<times> u64"

definition buffer_pages :: "nat \<times> nat \<times> nat" where
  "buffer_pages =
     ((STE_BYTES * 2 ^ STRTAB_LOG2 + SMMU_PAGE - 1) div SMMU_PAGE, (CMD_BYTES * 2 ^ CMDQ_LOG2 + SMMU_PAGE - 1) div SMMU_PAGE,
      (EVT_BYTES * 2 ^ EVENTQ_LOG2 + SMMU_PAGE - 1) div SMMU_PAGE)"

section \<open>Bring-up\<close>

fun polled :: "(nat \<Rightarrow> bool) \<Rightarrow> nat \<Rightarrow> nat \<Rightarrow> bool" where
  "polled ok i 0 = False"
| "polled ok i (Suc n) = (if ok i then True else polled ok (Suc i) n)"

text \<open>The \<open>w\<close>-th wait for \<^verbatim>\<open>CR0ACK\<close>.\<close>

definition wait_cr0ack :: "smmu_hw \<Rightarrow> nat \<Rightarrow> u32 \<Rightarrow> bool" where
  "wait_cr0ack hw w expected = polled (\<lambda>i. hw_cr0ack hw w i = expected) 0 SPINS"

definition smmu_init :: "smmu_hw \<Rightarrow> smmu_buffers \<Rightarrow> (kerror + smmu_config \<times> smmu) \<times> reg_write list" where
  "smmu_init hw bufs =
     (let sid_bits = hw_idr1 hw AND 0x3f; s1p = (hw_idr0 hw AND IDR0_S1P \<noteq> 0); s2p = (hw_idr0 hw AND IDR0_S2P \<noteq> 0)
      in if hw_idr0 hw AND IDR0_ST_LEVEL = IDR0_ST_LEVEL then (Inl NotSupported, [])
         else if \<not> wait_cr0ack hw 0 0 then (Inl NotSupported, [(R_CR0, 0)])
         else
           let enabled = wait_cr0ack hw 2 (CR0_CMDQEN OR CR0_EVENTQEN OR CR0_SMMUEN);
               writes =
                 [(R_CR0, 0), (R_IRQ_CTRL, 0), (R_GERRORN, ucast (hw_gerror hw)),
                  (R_CMDQ_BASE, (buf_phys (cmdq_buf bufs) AND Q_BASE_ADDR_MASK) OR of_nat CMDQ_LOG2), (R_CMDQ_PROD, 0), (R_CMDQ_CONS, 0),
                  (R_EVENTQ_BASE, (buf_phys (eventq_buf bufs) AND Q_BASE_ADDR_MASK) OR of_nat EVENTQ_LOG2), (R_EVENTQ_PROD, 0), (R_EVENTQ_CONS, 0),
                  (R_STRTAB_BASE, buf_phys (strtab_buf bufs) AND Q_BASE_ADDR_MASK),
                  (R_STRTAB_BASE_CFG, ucast (STRTAB_BASE_CFG_FMT_LINEAR OR of_nat STRTAB_LOG2)),
                  (R_GBPA, ucast (GBPA_UPDATE OR GBPA_ABORT)), (R_CR1, 0), (R_CR2, 0),
                  (R_CR0, ucast (CR0_CMDQEN OR CR0_EVENTQEN)), (R_CR0, ucast (CR0_CMDQEN OR CR0_EVENTQEN OR CR0_SMMUEN))]
           in (Inr (\<lparr>cfg_aidr = hw_aidr hw, cfg_sid_bits = sid_bits, cfg_s1p = s1p, cfg_s2p = s2p,
                     cfg_strtab_log2 = STRTAB_LOG2, cfg_enabled = enabled\<rparr>,
                    \<lparr>strtab_phys = buf_phys (strtab_buf bufs), cmdq_phys = buf_phys (cmdq_buf bufs), cmdq_prod = 0,
                     eventq_phys = buf_phys (eventq_buf bufs), eventq_cons = 0\<rparr>), writes))"

section \<open>Stage-2 tables\<close>

definition s2_index :: "u64 \<Rightarrow> nat \<Rightarrow> nat" where
  "s2_index va level = unat (drop_bit (39 - 9 * level) va AND 0x1ff)"

text \<open>The walk of \<^verbatim>\<open>build_stage2_map\<close> to the leaf table; \<open>n\<close> levels are left. \<^verbatim>\<open>alloc_table\<close>, \<^verbatim>\<open>read_desc\<close> and
  \<^verbatim>\<open>write_desc\<close> are those of the address spaces: a zeroed frame, and the words of a table.\<close>

fun s2_walk :: "nat \<Rightarrow> nat \<Rightarrow> u64 \<Rightarrow> vm \<Rightarrow> (nat option \<times> vm) option" where
  "s2_walk 0 table in_addr v = Some (Some table, v)"
| "s2_walk (Suc n) table in_addr v =
     (let idx = s2_index in_addr (S2_LEAF_LEVEL - Suc n); desc = read_entry (pwords v) table idx
      in if descriptor_is_valid desc then s2_walk n (unat (desc AND S2_ADDR_MASK)) in_addr v
         else (case alloc_table v of
                 None \<Rightarrow> None
               | Some (None, v1) \<Rightarrow> Some (None, v1)
               | Some (Some nxt, v1) \<Rightarrow>
                   s2_walk n nxt in_addr (v1\<lparr>pwords := write_entry table idx (stage2_table (of_nat nxt)) (pwords v1)\<rparr>)))"

fun free_stage2_level :: "nat \<Rightarrow> nat \<Rightarrow> vm \<Rightarrow> vm" where
  "free_stage2_level 0 phys v = v\<lparr>vpool := pool_free (vpool v) phys\<rparr>"
| "free_stage2_level (Suc n) phys v =
     (let v1 = foldl (\<lambda>v idx. let desc = read_entry (pwords v) phys idx
                              in if descriptor_is_valid desc then free_stage2_level n (unat (desc AND S2_ADDR_MASK)) v else v)
                     v [0..<512]
      in v1\<lparr>vpool := pool_free (vpool v1) phys\<rparr>)"

definition free_stage2_table :: "nat \<Rightarrow> vm \<Rightarrow> vm" where
  "free_stage2_table phys v = free_stage2_level S2_LEAF_LEVEL phys v"

fun build_pages :: "nat \<Rightarrow> nat \<Rightarrow> u64 \<Rightarrow> u64 \<Rightarrow> nat \<Rightarrow> vm \<Rightarrow> (bool \<times> vm) option" where
  "build_pages i 0 iova pa table v = Some (True, v)"
| "build_pages i (Suc n) iova pa table v =
     (let off = of_nat (i * PAGE_SIZE)
      in case checked_add iova off of None \<Rightarrow> None | Some in_addr \<Rightarrow>
         case checked_add pa off of None \<Rightarrow> None | Some out_addr \<Rightarrow>
         case s2_walk S2_LEAF_LEVEL table in_addr v of
           None \<Rightarrow> None
         | Some (None, v1) \<Rightarrow> Some (False, free_stage2_table table v1)
         | Some (Some leaf, v1) \<Rightarrow>
             build_pages (Suc i) n iova pa table
               (v1\<lparr>pwords := write_entry leaf (s2_index in_addr S2_LEAF_LEVEL) (stage2_page out_addr) (pwords v1)\<rparr>))"

definition build_stage2_map :: "u64 \<Rightarrow> u64 \<Rightarrow> nat \<Rightarrow> vm \<Rightarrow> (nat option \<times> vm) option" where
  "build_stage2_map iova pa pages v =
     (case alloc_table v of
        None \<Rightarrow> None
      | Some (None, v1) \<Rightarrow> Some (None, v1)
      | Some (Some table, v1) \<Rightarrow>
          (case build_pages 0 pages iova pa table v1 of
             None \<Rightarrow> None
           | Some (False, v2) \<Rightarrow> Some (None, v2)
           | Some (True, v2) \<Rightarrow> Some (Some table, v2)))"

section \<open>The stream table and the queues\<close>

fun write_words :: "nat \<Rightarrow> u64 list \<Rightarrow> (nat \<Rightarrow> u64) \<Rightarrow> nat \<Rightarrow> u64" where
  "write_words a [] m = m"
| "write_words a (w # ws) m = write_words (a + 8) ws (m(a := w))"

definition write_ste :: "u64 \<Rightarrow> u32 \<Rightarrow> u64 list \<Rightarrow> vm \<Rightarrow> vm" where
  "write_ste strtab streamid ste v =
     v\<lparr>pwords := write_words (unat strtab + 8 * (unat streamid * STE_DWORDS)) ste (pwords v)\<rparr>"

definition push_cmd :: "u64 list \<Rightarrow> smmu \<times> vm \<Rightarrow> smmu \<times> vm" where
  "push_cmd cmd = (\<lambda>(s, v).
     let slot = unat (cmdq_prod s AND (CMDQ_ENTRIES - 1))
     in (s\<lparr>cmdq_prod := cmdq_prod s + 1\<rparr>, v\<lparr>pwords := write_words (unat (cmdq_phys s) + 8 * (slot * CMD_DWORDS)) cmd (pwords v)\<rparr>))"

definition doorbell :: "smmu \<Rightarrow> reg_write list" where
  "doorbell s = [(R_CMDQ_PROD, ucast (cmdq_prod s AND CMDQ_PROD_MASK))]"

definition wait_consumed :: "smmu_hw \<Rightarrow> smmu \<Rightarrow> bool" where
  "wait_consumed hw s = polled (\<lambda>i. hw_cons hw i AND CMDQ_PROD_MASK = cmdq_prod s AND CMDQ_PROD_MASK) 0 SPINS"

definition global_error :: "smmu_hw \<Rightarrow> bool" where
  "global_error hw \<longleftrightarrow> hw_gerror hw \<noteq> hw_gerrorn hw"

definition bind_stream_at :: "smmu_hw \<Rightarrow> u32 \<Rightarrow> u64 \<Rightarrow> u64 \<Rightarrow> nat \<Rightarrow> smmu \<Rightarrow> vm \<Rightarrow> ((kerror + nat) \<times> smmu \<times> vm \<times> reg_write list) option" where
  "bind_stream_at hw streamid iova pa pages s v =
     (if pages = 0 \<or> unat streamid \<ge> 2 ^ STRTAB_LOG2 then Some (Inl InvalidArgument, s, v, [])
      else case build_stage2_map iova pa pages v of
             None \<Rightarrow> None
           | Some (None, v1) \<Rightarrow> Some (Inl OutOfResources, s, v1, [])
           | Some (Some s2ttb, v1) \<Rightarrow>
               let v2 = write_ste (strtab_phys s) streamid (stage2_ste (of_nat s2ttb) (stage2 DMA_VMID)) v1;
                   (s3, v3) = push_cmd cmd_sync (push_cmd (cmd_cfgi_ste streamid) (s, v2))
               in if \<not> wait_consumed hw s3 \<or> global_error hw
                  then Some (Inl WouldBlock, s3, free_stage2_table s2ttb (write_ste (strtab_phys s3) streamid abort_ste v3), doorbell s3)
                  else Some (Inr s2ttb, s3, v3, doorbell s3))"

definition bind_stream :: "smmu_hw \<Rightarrow> u32 \<Rightarrow> u64 \<Rightarrow> nat \<Rightarrow> smmu \<Rightarrow> vm \<Rightarrow> ((kerror + nat) \<times> smmu \<times> vm \<times> reg_write list) option" where
  "bind_stream hw streamid pa pages s v = bind_stream_at hw streamid pa pa pages s v"

definition unbind_stream :: "u32 \<Rightarrow> nat \<Rightarrow> smmu \<Rightarrow> vm \<Rightarrow> smmu \<times> vm \<times> reg_write list" where
  "unbind_stream streamid s2ttb s v =
     (if unat streamid \<ge> 2 ^ STRTAB_LOG2 then (s, v, [])
      else let v1 = write_ste (strtab_phys s) streamid abort_ste v;
               (s2, v2) = push_cmd cmd_sync (push_cmd (cmd_cfgi_ste streamid) (s, v1))
           in (s2, free_stage2_table s2ttb v2, doorbell s2))"

definition next_event :: "smmu_hw \<Rightarrow> (nat \<Rightarrow> u64) \<Rightarrow> smmu \<Rightarrow> event_record option \<times> smmu \<times> reg_write list" where
  "next_event hw m s =
     (let prod = hw_evt_prod hw AND EVENTQ_PROD_MASK
      in if prod = eventq_cons s AND EVENTQ_PROD_MASK then (None, s, [])
         else let slot = unat (eventq_cons s AND (EVENTQ_ENTRIES - 1));
                  rec = map (\<lambda>i. m (unat (eventq_phys s) + 8 * (slot * EVT_DWORDS + i))) [0..<EVT_DWORDS];
                  s1 = s\<lparr>eventq_cons := eventq_cons s + 1\<rparr>
              in (parse_event rec, s1, [(R_EVENTQ_CONS, ucast (eventq_cons s1 AND EVENTQ_PROD_MASK))]))"

end
