(* ===== verification/KernelIpc.thy ===== *)
theory KernelIpc
  imports Notification Smmu
begin

text \<open>
  \<^verbatim>\<open>crates/kernel/src/ipc.rs\<close> and \<^verbatim>\<open>notify.rs\<close> above the tables: sending, receiving, signalling and
  waiting as the syscalls call them, over the endpoint table, the notification table and the
  scheduler together. Each lock is taken and released as the source does, in the source's order.
  A call that switches away gives \<open>Parked\<close>, and what it does when its task runs again is a
  definition of its own (\<open>recv_resume\<close>, \<open>wait_any_wake\<close>); a panic is \<open>None\<close>. The storm
  self-test's tallies and the log lines are left out.
\<close>

section \<open>The kernel state\<close>

record kernel =
  sch :: sched
  ntf :: notify_table
  eps :: endpoint_table
  objs :: object_table
  mem :: shm
  bindings :: "(u32 \<times> nat) list"
  need_resched :: bool
  smmu_dev :: "smmu option"
  bound_streams :: "(u32 \<times> nat) list"

datatype 'a progress = Finished 'a | Parked

definition kcurrent :: "nat \<Rightarrow> kernel \<Rightarrow> nat option" where
  "kcurrent cpu k = current (sch k) ! cpu"

definition clock_now :: "u64 option \<Rightarrow> u64" where
  "clock_now clock = (case clock of Some now \<Rightarrow> now | None \<Rightarrow> 0)"

text \<open>\<^verbatim>\<open>sched::block_until\<close>: \<open>False\<close> when the task did not leave its core.\<close>

definition block_until :: "nat \<Rightarrow> u64 option \<Rightarrow> u64 option \<Rightarrow> sched \<Rightarrow> (bool \<times> sched) option" where
  "block_until cpu clock deadline s =
     (case deadline of
        Some d \<Rightarrow> if (case clock of Some now \<Rightarrow> d \<le> now | None \<Rightarrow> False) then Some (False, s)
                  else park_and_switch cpu (Sleeping d) s
      | None \<Rightarrow> park_and_switch cpu Blocked s)"

definition sleep_until :: "nat \<Rightarrow> u64 option \<Rightarrow> u64 \<Rightarrow> sched \<Rightarrow> (int progress \<times> sched) option" where
  "sleep_until cpu clock deadline s =
     (case clock of
        None \<Rightarrow> Some (Finished (kerror_as_raw NotSupported), s)
      | Some now \<Rightarrow>
          if deadline \<le> now then Some (Finished 0, s)
          else (case park_and_switch cpu (Sleeping deadline) s of
                  None \<Rightarrow> None
                | Some (left, s') \<Rightarrow> Some (if left then Parked else Finished 0, s')))"

section \<open>Signals\<close>

definition signal :: "nat \<Rightarrow> kernel \<Rightarrow> kernel" where
  "signal i k =
     (case signal_locked i (ntf k) of
        (None, ns) \<Rightarrow> k\<lparr>ntf := ns\<rparr>
      | (Some t, ns) \<Rightarrow> k\<lparr>ntf := ns, sch := unblock t (sch k), need_resched := True\<rparr>)"

datatype wait_status = WaitDone "nat option" | WaitParked | WaitAwake

text \<open>One round of \<^verbatim>\<open>wait_any\<close> up to the park, and from being awake to the end of the round.\<close>

definition wait_any_enter :: "nat \<Rightarrow> u64 option \<Rightarrow> nat list \<Rightarrow> u64 option \<Rightarrow> kernel \<Rightarrow> (wait_status \<times> kernel) option" where
  "wait_any_enter cpu clock ids deadline k =
     (case kcurrent cpu k of
        None \<Rightarrow> None
      | Some me \<Rightarrow>
          (case wait_check me ids deadline (clock_now clock) (ntf k) of
             (Fired i, ns) \<Rightarrow> Some (WaitDone (Some i), k\<lparr>ntf := ns\<rparr>)
           | (TimedOut, ns) \<Rightarrow> Some (WaitDone None, k\<lparr>ntf := ns\<rparr>)
           | (KeepWaiting, ns) \<Rightarrow>
               (case block_until cpu clock deadline (sch k) of
                  None \<Rightarrow> None
                | Some (left, s) \<Rightarrow> Some (if left then WaitParked else WaitAwake, k\<lparr>ntf := ns, sch := s\<rparr>))))"

definition wait_any_wake :: "nat \<Rightarrow> u64 option \<Rightarrow> nat list \<Rightarrow> u64 option \<Rightarrow> kernel \<Rightarrow> (wait_status \<times> kernel) option" where
  "wait_any_wake cpu clock ids deadline k =
     (case kcurrent cpu k of
        None \<Rightarrow> None
      | Some me \<Rightarrow>
          (case wait_recheck me ids deadline (clock_now clock) (ntf k) of
             (Fired i, ns) \<Rightarrow> Some (WaitDone (Some i), k\<lparr>ntf := ns\<rparr>)
           | (TimedOut, ns) \<Rightarrow> Some (WaitDone None, k\<lparr>ntf := ns\<rparr>)
           | (KeepWaiting, ns) \<Rightarrow> Some (WaitAwake, k\<lparr>ntf := ns\<rparr>)))"

text \<open>The loop until it finishes or its task leaves the core, at most \<open>fuel\<close> rounds of it; \<open>None\<close> is a
  panic or running out of rounds.\<close>

fun wait_any :: "nat \<Rightarrow> nat \<Rightarrow> u64 option \<Rightarrow> nat list \<Rightarrow> u64 option \<Rightarrow> kernel \<Rightarrow> (nat option progress \<times> kernel) option" where
  "wait_any 0 cpu clock ids deadline k = None"
| "wait_any (Suc fuel) cpu clock ids deadline k =
     (case wait_any_enter cpu clock ids deadline k of
        None \<Rightarrow> None
      | Some (WaitDone r, k1) \<Rightarrow> Some (Finished r, k1)
      | Some (WaitParked, k1) \<Rightarrow> Some (Parked, k1)
      | Some (WaitAwake, k1) \<Rightarrow>
          (case wait_any_wake cpu clock ids deadline k1 of
             None \<Rightarrow> None
           | Some (WaitDone r, k2) \<Rightarrow> Some (Finished r, k2)
           | Some (_, k2) \<Rightarrow> wait_any fuel cpu clock ids deadline k2))"

section \<open>Messages\<close>

definition signal_bound :: "nat option \<Rightarrow> kernel \<Rightarrow> kernel" where
  "signal_bound b k = (case b of Some i \<Rightarrow> signal i k | None \<Rightarrow> k)"

definition send_inner :: "nat \<Rightarrow> nat \<Rightarrow> kmessage \<Rightarrow> bool \<Rightarrow> kernel \<Rightarrow> (int progress \<times> kernel) option" where
  "send_inner cpu ep km may_block k =
     (if \<not> endpoint_exists (eps k) ep then Some (Finished (kerror_as_raw InvalidArgument), k)
      else case kcurrent cpu k of
        None \<Rightarrow> None
      | Some me \<Rightarrow>
          let b = bound (eps k ! ep);
              (action, e) = send_decide (eps k ! ep) me km may_block;
              k1 = k\<lparr>eps := (eps k)[ep := e]\<rparr>
          in (case action of
                Deliver w \<Rightarrow> let k2 = signal_bound b k1 in Some (Finished 0, k2\<lparr>sch := deliver w km (sch k2)\<rparr>)
              | Buffered \<Rightarrow> Some (Finished 0, signal_bound b k1)
              | SendBlock \<Rightarrow>
                  (case park_and_switch cpu Blocked (sch k1) of
                     None \<Rightarrow> None
                   | Some (left, s) \<Rightarrow> Some (if left then Parked else Finished 0, k1\<lparr>sch := s\<rparr>))
              | SendFull \<Rightarrow> Some (Finished (kerror_as_raw OutOfResources), k1)
              | SendWouldBlock \<Rightarrow> Some (Finished (kerror_as_raw WouldBlock), k1)))"

definition send :: "nat \<Rightarrow> nat \<Rightarrow> kmessage \<Rightarrow> kernel \<Rightarrow> (int progress \<times> kernel) option" where
  "send cpu ep km k = send_inner cpu ep km True k"

definition send_nowait :: "nat \<Rightarrow> nat \<Rightarrow> kmessage \<Rightarrow> kernel \<Rightarrow> (int progress \<times> kernel) option" where
  "send_nowait cpu ep km k = send_inner cpu ep km False k"

text \<open>The two critical sections at the end of a timed receive, which other cores can come between.\<close>

definition recv_take :: "nat \<Rightarrow> kernel \<Rightarrow> (kmessage option \<times> kernel) option" where
  "recv_take cpu k =
     (case take_mailbox cpu (sch k) of None \<Rightarrow> None | Some (m, s) \<Rightarrow> Some (m, k\<lparr>sch := s\<rparr>))"

definition recv_cancel :: "nat \<Rightarrow> nat \<Rightarrow> kernel \<Rightarrow> kernel" where
  "recv_cancel ep me k = k\<lparr>eps := cancel_recv_waiter (eps k) ep me\<rparr>"

definition recv_resume :: "nat \<Rightarrow> nat \<Rightarrow> u64 option \<Rightarrow> kernel \<Rightarrow> ((kerror + kmessage) \<times> kernel) option" where
  "recv_resume cpu ep deadline k =
     (case deadline of
        None \<Rightarrow>
          (case finish_block_for_message cpu (sch k) of
             None \<Rightarrow> None
           | Some (km, s) \<Rightarrow> Some (Inr km, k\<lparr>sch := s\<rparr>))
      | Some d \<Rightarrow>
          (case kcurrent cpu k of
             None \<Rightarrow> None
           | Some me \<Rightarrow>
               (case recv_take cpu k of
                  None \<Rightarrow> None
                | Some (Some km, k1) \<Rightarrow> Some (Inr km, k1)
                | Some (None, k1) \<Rightarrow> Some (Inl WouldBlock, recv_cancel ep me k1))))"

definition recv_until :: "nat \<Rightarrow> u64 option \<Rightarrow> nat \<Rightarrow> u64 option \<Rightarrow> kernel \<Rightarrow> ((kerror + kmessage) progress \<times> kernel) option" where
  "recv_until cpu clock ep deadline k =
     (if \<not> endpoint_exists (eps k) ep then Some (Finished (Inl InvalidArgument), k)
      else case kcurrent cpu k of
        None \<Rightarrow> None
      | Some me \<Rightarrow>
          let b = bound (eps k ! ep);
              (action, e) = recv_decide (eps k ! ep) me;
              k1 = k\<lparr>eps := (eps k)[ep := e]\<rparr>
          in (case action of
                Got km \<Rightarrow> Some (Finished (Inr km), k1)
              | WakeSender km t \<Rightarrow>
                  let k2 = signal_bound b k1 in Some (Finished (Inr km), k2\<lparr>sch := unblock t (sch k2)\<rparr>)
              | RecvBlock \<Rightarrow>
                  (case block_until cpu clock deadline (sch k1) of
                     None \<Rightarrow> None
                   | Some (True, s) \<Rightarrow> Some (Parked, k1\<lparr>sch := s\<rparr>)
                   | Some (False, s) \<Rightarrow>
                       (case recv_resume cpu ep deadline (k1\<lparr>sch := s\<rparr>) of
                          None \<Rightarrow> None
                        | Some (r, k2) \<Rightarrow> Some (Finished r, k2)))
              | RecvFull \<Rightarrow> Some (Finished (Inl OutOfResources), k1)))"

section \<open>Waking\<close>

lemma endpoint_exists_iff: "endpoint_exists t i \<longleftrightarrow> i < length t \<and> allocated (t ! i)"
  by (simp add: endpoint_exists_def get_def)

lemma tasks_unblock:
  "tasks (unblock t s) =
     (if state (tasks s ! t) = Blocked \<or> is_Sleeping (state (tasks s ! t))
      then (tasks s)[t := (tasks s ! t)\<lparr>state := Ready\<rparr>] else (tasks s)[t := (tasks s ! t)\<lparr>wake_pending := True\<rparr>])"
  by (simp add: unblock_def upd_task_def)

lemma unblock_keeps [simp]: "current (unblock t s) = current s" "prev (unblock t s) = prev s"
  by (simp_all add: unblock_def upd_task_def)

lemma signal_simps [simp]:
  "eps (signal i k) = eps k" "objs (signal i k) = objs k" "mem (signal i k) = mem k"
  "bindings (signal i k) = bindings k" "current (sch (signal i k)) = current (sch k)"
  "ntf (signal i k) = snd (signal_locked i (ntf k))" "length (tasks (sch (signal i k))) = length (tasks (sch k))"
  by (auto simp: signal_def tasks_unblock split: prod.split option.split)

lemma signal_task:
  "tasks (sch (signal i k)) ! t =
     (if fst (signal_locked i (ntf k)) = Some t then tasks (unblock t (sch k)) ! t else tasks (sch k) ! t)"
  by (auto simp: signal_def tasks_unblock split: prod.split option.split)

lemma signal_bound_simps [simp]:
  "eps (signal_bound b k) = eps k" "current (sch (signal_bound b k)) = current (sch k)"
  "length (tasks (sch (signal_bound b k))) = length (tasks (sch k))"
  by (auto simp: signal_bound_def split: option.split)

text \<open>The task a bound notification of the endpoint would wake.\<close>

definition bound_waiter :: "nat \<Rightarrow> kernel \<Rightarrow> nat option" where
  "bound_waiter ep k = (case bound (eps k ! ep) of None \<Rightarrow> None | Some i \<Rightarrow> fst (signal_locked i (ntf k)))"

lemma signal_bound_task:
  assumes "bound_waiter ep k \<noteq> Some t" "ntf k1 = ntf k" "sch k1 = sch k"
  shows "tasks (sch (signal_bound (bound (eps k ! ep)) k1)) ! t = tasks (sch k) ! t"
  using assms by (auto simp: signal_bound_def bound_waiter_def signal_task split: option.splits)

lemma deliver_task:
  assumes "t < length (tasks s)"
  shows "tasks (deliver t km s) ! t = (if state (tasks s ! t) = Blocked
           then (tasks s ! t)\<lparr>mailbox := Some km, state := Ready\<rparr>
           else (tasks s ! t)\<lparr>mailbox := Some km, wake_pending := True\<rparr>)"
  using assms by (simp add: deliver_def upd_task_def Let_def)

lemma send_decide_allocated: "allocated (snd (send_decide e me km b)) = allocated e"
  by (simp add: send_decide_def pop_recv_waiter_def push_msg_def push_send_waiter_def Let_def)

lemma recv_decide_allocated: "allocated (snd (recv_decide e me)) = allocated e"
  by (simp add: recv_decide_def pop_msg_def pop_send_waiter_def push_msg_def push_recv_waiter_def Let_def
      split: prod.split)

lemma send_to_waiter:
  assumes "endpoint_exists (eps k) ep" "ep_wf (eps k ! ep)" "receivers (queues_of (eps k ! ep)) = w # ws"
    and "kcurrent cpu k = Some me" "bound_waiter ep k \<noteq> Some w" "w < length (tasks (sch k))"
  shows "\<exists>k'. send_inner cpu ep km b k = Some (Finished 0, k') \<and> queues_of (eps k' ! ep) = (queues_of (eps k ! ep))\<lparr>receivers := ws\<rparr>
           \<and> tasks (sch k') ! w = (if state (tasks (sch k) ! w) = Blocked
               then (tasks (sch k) ! w)\<lparr>mailbox := Some km, state := Ready\<rparr>
               else (tasks (sch k) ! w)\<lparr>mailbox := Some km, wake_pending := True\<rparr>)
           \<and> current (sch k') = current (sch k) \<and> length (tasks (sch k')) = length (tasks (sch k))
           \<and> (\<forall>j. j \<noteq> ep \<longrightarrow> eps k' ! j = eps k ! j) \<and> length (eps k') = length (eps k) \<and> allocated (eps k' ! ep) \<and> ep_wf (eps k' ! ep)"
proof -
  obtain a e where d: "send_decide (eps k ! ep) me km b = (a, e)" by fastforce
  then have e: "send_decide (eps k ! ep) me km b = (Deliver w, e)" "ep_wf e"
    "queues_of e = (queues_of (eps k ! ep))\<lparr>receivers := ws\<rparr>"
    using send_refines [OF assms(2) d] assms(3) by (auto simp: spec_send_def)
  have al: "allocated e"
    using send_decide_allocated [of "eps k ! ep" me km b] e(1) assms(1) by (simp add: endpoint_exists_iff)
  let ?k1 = "k\<lparr>eps := (eps k)[ep := e]\<rparr>" and ?b = "bound (eps k ! ep)"
  have ep: "ep < length (eps k)" using assms(1) by (simp add: endpoint_exists_iff)
  have t: "tasks (sch (signal_bound ?b ?k1)) ! w = tasks (sch k) ! w"
    by (rule signal_bound_task [OF assms(5)]) simp_all
  have k': "send_inner cpu ep km b k =
      Some (Finished 0, (signal_bound ?b ?k1)\<lparr>sch := deliver w km (sch (signal_bound ?b ?k1))\<rparr>)"
    using assms(1,4) e(1) by (simp add: send_inner_def Let_def)
  have c: "current (deliver w km s) = current s" "length (tasks (deliver w km s)) = length (tasks s)" for s
    by (simp_all add: deliver_def upd_task_def Let_def)
  show ?thesis unfolding k' using e al ep assms(6) t by (simp add: deliver_task c)
qed

text \<open>The state of the witnesses: task 0 runs on core 0, task 1 is in state \<open>st\<close> and is the one waiting
  receiver of endpoint 0; endpoint 1 is fresh.\<close>

definition demo_task :: "nat \<Rightarrow> task_state \<Rightarrow> task" where
  "demo_task i st = (new_task i demo_space i i None (placements_new 1 USER_SHARED_VA) (placements_new 1 USER_DEV_VA))\<lparr>state := st\<rparr>"

definition demo_ep :: endpoint where
  "demo_ep = (snd (push_recv_waiter endpoint_new 1))\<lparr>allocated := True\<rparr>"

definition demo_kernel :: "task_state \<Rightarrow> nat option list \<Rightarrow> kernel" where
  "demo_kernel st cur =
     \<lparr>sch = sched_new\<lparr>tasks := [demo_task 0 Running, demo_task 1 st], current := cur\<rparr>, ntf = [],
      eps = [demo_ep, endpoint_new\<lparr>allocated := True\<rparr>],
      objs = [], mem = \<lparr>runs = [], pool = [], bytes = (\<lambda>_. 0)\<rparr>, bindings = [], need_resched = False,
      smmu_dev = None, bound_streams = []\<rparr>"

lemma demo_endpoint:
  "ep_wf demo_ep" "queues_of demo_ep = \<lparr>held = [], receivers = [Suc 0], senders = []\<rparr>"
  "ep_wf (endpoint_new\<lparr>allocated := True\<rparr>)" "queues_of (endpoint_new\<lparr>allocated := True\<rparr>) = \<lparr>held = [], receivers = [], senders = []\<rparr>"
  by (simp_all add: demo_ep_def ep_wf_def queues_of_def endpoint_new_def push_recv_waiter_def RING_CAP_def MAX_WAITERS_def numeral_eq_Suc)

lemma demo_kernel_facts:
  "eps (demo_kernel st cur) ! 0 = demo_ep"
  "eps (demo_kernel st cur) ! Suc 0 = endpoint_new\<lparr>allocated := True\<rparr>"
  "endpoint_exists (eps (demo_kernel st cur)) 0" "endpoint_exists (eps (demo_kernel st cur)) (Suc 0)"
  "kcurrent c (demo_kernel st cur) = cur ! c" "bound_waiter 0 (demo_kernel st cur) = None"
  "length (tasks (sch (demo_kernel st cur))) = 2" "tasks (sch (demo_kernel st cur)) ! Suc 0 = demo_task 1 st"
  by (simp_all add: demo_kernel_def endpoint_exists_def get_def kcurrent_def bound_waiter_def push_recv_waiter_def
      demo_ep_def endpoint_new_def MAX_WAITERS_def)

section \<open>Sending\<close>

text \<open>A send to an endpoint with a blocked receiver succeeds without blocking: the message is in the
  mailbox of the receiver that waited longest, that receiver is ready to run and leaves the
  queue, and the other waiting receivers and every other endpoint are as they were.\<close>

theorem send_wakes_receiver:
  assumes "endpoint_exists (eps k) ep" "ep_wf (eps k ! ep)" "receivers (queues_of (eps k ! ep)) = w # ws"
    and "kcurrent cpu k = Some me" "bound_waiter ep k \<noteq> Some w" "w < length (tasks (sch k))"
    and "state (tasks (sch k) ! w) = Blocked"
  shows "\<exists>k'. send_inner cpu ep km may_block k = Some (Finished 0, k')
           \<and> tasks (sch k') ! w = (tasks (sch k) ! w)\<lparr>mailbox := Some km, state := Ready\<rparr>
           \<and> queues_of (eps k' ! ep) = (queues_of (eps k ! ep))\<lparr>receivers := ws\<rparr>
           \<and> (\<forall>j. j \<noteq> ep \<longrightarrow> eps k' ! j = eps k ! j)"
  using send_to_waiter [OF assms(1-6), of km may_block] assms(7) by (simp cong: if_cong) blast

theorem send_wakes_receiver_witness:
  "\<exists>k'. send_inner 0 0 kmessage_empty False (demo_kernel Blocked [Some 0]) = Some (Finished 0, k')
      \<and> state (tasks (sch k') ! 1) = Ready \<and> mailbox (tasks (sch k') ! 1) = Some kmessage_empty"
  using send_wakes_receiver [of "demo_kernel Blocked [Some 0]" 0 1 "[]" 0 0 kmessage_empty False]
  by (auto simp: demo_kernel_facts demo_endpoint demo_task_def)

section \<open>Timed receives\<close>

lemma recv_stale_wakeup:
  assumes "kcurrent c k = Some w" "w < length (tasks (sch k))" "wake_pending (tasks (sch k) ! w)"
    and "endpoint_exists (eps k) ep" "ep_wf (eps k ! ep)" "held (queues_of (eps k ! ep)) = []"
    and "length (receivers (queues_of (eps k ! ep))) < MAX_WAITERS"
  shows "case mailbox (tasks (sch k) ! w) of
           None \<Rightarrow> recv_until c clock ep None k = None
         | Some km \<Rightarrow> \<exists>k'. recv_until c clock ep None k = Some (Finished (Inr km), k')
                     \<and> receivers (queues_of (eps k' ! ep)) = receivers (queues_of (eps k ! ep)) @ [w]"
proof -
  obtain a e where d: "recv_decide (eps k ! ep) w = (a, e)" by fastforce
  have q: "(RecvBlock, (queues_of (eps k ! ep))\<lparr>receivers := receivers (queues_of (eps k ! ep)) @ [w]\<rparr>) = (a, queues_of e)"
    using recv_refines [OF assms(5) d] assms(6,7) by (simp add: spec_recv_def)
  then have e: "recv_decide (eps k ! ep) w = (RecvBlock, e)" using d by simp
  have r: "receivers (queues_of e) = receivers (queues_of (eps k ! ep)) @ [w]"
    using arg_cong [OF q, of "\<lambda>p. receivers (snd p)"] by simp
  have ep: "ep < length (eps k)" using assms(4) by (simp add: endpoint_exists_iff)
  show ?thesis
    using assms(1-4) e r ep
    by (auto simp: recv_until_def Let_def block_until_def park_and_switch_def kcurrent_def recv_resume_def
        finish_block_for_message_def take_mailbox_def upd_task_def split: option.split)
qed



text \<open>Between finding its mailbox empty and leaving the endpoint's queue, a receiver whose deadline
  has passed can still be delivered to: the sender is told of success and the receiver reports a
  timeout. The message stays in its mailbox, and its next receive, on whatever endpoint it is,
  returns it as a message of that endpoint and leaves the task queued there as if it still waited.\<close>

theorem late_delivery_crosses_endpoints:
  assumes "endpoint_exists (eps k) ep" "ep_wf (eps k ! ep)" "receivers (queues_of (eps k ! ep)) = w # ws" "w \<notin> set ws"
    and "kcurrent cpu k = Some me" "bound_waiter ep k \<noteq> Some w" "w < length (tasks (sch k))"
    and "kcurrent c k = Some w" "state (tasks (sch k) ! w) = Running" "mailbox (tasks (sch k) ! w) = None"
    and "ep2 \<noteq> ep" "endpoint_exists (eps k) ep2" "ep_wf (eps k ! ep2)" "held (queues_of (eps k ! ep2)) = []"
    and "length (receivers (queues_of (eps k ! ep2))) < MAX_WAITERS"
  shows "\<exists>k1 k2 k3. recv_take c k = Some (None, k1) \<and> send_inner cpu ep km may_block k1 = Some (Finished 0, k2)
           \<and> recv_until c clock ep2 None (recv_cancel ep w k2) = Some (Finished (Inr km), k3)
           \<and> w \<in> set (receivers (queues_of (eps k3 ! ep2)))"
proof -
  define k1 where "k1 = k\<lparr>sch := upd_task w (\<lambda>t. t\<lparr>mailbox := None\<rparr>) (sch k)\<rparr>"
  have t1: "recv_take c k = Some (None, k1)"
    using assms(8,10) by (simp add: recv_take_def take_mailbox_def kcurrent_def k1_def)
  have "bound_waiter ep k1 \<noteq> Some w"
    using assms(6) by (cases "bound (eps k ! ep)") (simp_all add: bound_waiter_def k1_def)
  then obtain k2 where k2: "send_inner cpu ep km may_block k1 = Some (Finished 0, k2)"
    "tasks (sch k2) ! w = (tasks (sch k1) ! w)\<lparr>mailbox := Some km, wake_pending := True\<rparr>"
    "current (sch k2) = current (sch k1)" "length (tasks (sch k2)) = length (tasks (sch k1))"
    "\<forall>j. j \<noteq> ep \<longrightarrow> eps k2 ! j = eps k1 ! j" "length (eps k2) = length (eps k1)"
    using send_to_waiter [of k1 ep w ws cpu me km may_block] assms(1-3,5,7,9)
    by (auto simp: k1_def kcurrent_def upd_task_def)
  define kc where "kc = recv_cancel ep w k2"
  have ep2: "eps kc ! ep2 = eps k ! ep2" "length (eps kc) = length (eps k)" "sch kc = sch k2"
    using k2(5,6) assms(11) by (auto simp: kc_def recv_cancel_def cancel_recv_waiter_def k1_def split: option.split)
  then have "endpoint_exists (eps kc) ep2" using assms(12) by (simp add: endpoint_exists_iff)
  then show ?thesis
    using recv_stale_wakeup [of c kc w ep2 clock] assms(7,8,13-15) ep2 k2 t1
    by (auto simp: kcurrent_def k1_def upd_task_def simp flip: kc_def)
qed

theorem late_delivery_crosses_endpoints_witness:
  "\<exists>k1 k2 k3. recv_take 1 (demo_kernel Running [Some 0, Some 1]) = Some (None, k1)
     \<and> send_inner 0 0 kmessage_empty False k1 = Some (Finished 0, k2)
     \<and> recv_until 1 None 1 None (recv_cancel 0 1 k2) = Some (Finished (Inr kmessage_empty), k3)
     \<and> 1 \<in> set (receivers (queues_of (eps k3 ! 1)))"
  by (rule late_delivery_crosses_endpoints [where ws = "[]" and me = 0])
     (simp_all add: demo_kernel_facts demo_endpoint demo_task_def new_task_def MAX_WAITERS_def)

section \<open>Signals and waits\<close>

text \<open>A message placed at an endpoint whose bound notification is live leaves that notification with
  a signal to consume, whether the message was buffered or handed to a waiting receiver, so a
  task waiting on the notification learns of it.\<close>

theorem bound_send_signals:
  assumes "endpoint_exists (eps k) ep" "kcurrent cpu k = Some me" "bound (eps k ! ep) = Some i"
    and "i < length (ntf k)" "in_use (ntf k ! i)" "fst (send_decide (eps k ! ep) me km may_block) \<in> {Buffered, Deliver w}"
  shows "\<exists>k'. send_inner cpu ep km may_block k = Some (Finished 0, k') \<and> ready (ntf k') i
           \<and> (\<forall>t. waiter (ntf k ! i) = Some t \<longrightarrow> need_resched k')"
proof -
  obtain a e where d: "send_decide (eps k ! ep) me km may_block = (a, e)" by fastforce
  let ?k1 = "k\<lparr>eps := (eps k)[ep := e]\<rparr>"
  have s: "ready (ntf (signal i ?k1)) i" "waiter (ntf k ! i) = Some t \<Longrightarrow> need_resched (signal i ?k1)" for t
    using signal_ready [OF assms(4,5)] assms(4,5)
    by (simp, auto simp: signal_def signal_locked_def get_def)
  show ?thesis using assms(1-3,6) d s by (auto simp: send_inner_def Let_def signal_bound_def)
qed

theorem bound_send_signals_witness:
  "\<exists>k'. send_inner 0 1 kmessage_empty False ((demo_kernel Blocked [Some 0])\<lparr>ntf := demo_notify,
      eps := [demo_ep, endpoint_new\<lparr>allocated := True, bound := Some 0\<rparr>]\<rparr>) = Some (Finished 0, k') \<and> ready (ntf k') 0 \<and> need_resched k'"
  using bound_send_signals [of "(demo_kernel Blocked [Some 0])\<lparr>ntf := demo_notify,
      eps := [demo_ep, endpoint_new\<lparr>allocated := True, bound := Some 0\<rparr>]\<rparr>" 1 0 0 0 kmessage_empty False 0]
  by (simp add: demo_kernel_def kcurrent_def endpoint_exists_iff demo_notify_value send_decide_def pop_recv_waiter_def
      push_msg_def endpoint_new_def RING_CAP_def)

lemma park_unless_pending:
  assumes "current s ! cpu = Some me" "\<not> wake_pending (tasks s ! me)"
  shows "\<exists>s'. park_and_switch cpu st s = Some (True, s')"
  using assms by (simp add: park_and_switch_def)

lemma park_consumes_pending:
  assumes "current s ! cpu = Some me" "me < length (tasks s)" "wake_pending (tasks s ! me)"
  shows "park_and_switch cpu st s = Some (False, upd_task me (\<lambda>t. t\<lparr>wake_pending := False\<rparr>) s)"
  using assms by (simp add: park_and_switch_def)

text \<open>A round that keeps waiting goes on to park, in the state the deadline asks for.\<close>

lemma keep_waiting_parks:
  assumes "wait_check me ids deadline (clock_now clock) ns = (KeepWaiting, ns')"
  shows "block_until cpu clock deadline s = park_and_switch cpu (case deadline of Some d \<Rightarrow> Sleeping d | None \<Rightarrow> Blocked) s"
  using assms by (auto simp: block_until_def wait_check_def clock_now_def split: option.splits if_splits prod.splits)

lemma wait_any_enter_parks:
  assumes "kcurrent cpu k = Some me" "\<not> wake_pending (tasks (sch k) ! me)"
  shows "\<exists>st k'. wait_any_enter cpu clock ids deadline k = Some (st, k') \<and> st \<noteq> WaitAwake"
proof -
  obtain a ns where a: "wait_check me ids deadline (clock_now clock) (ntf k) = (a, ns)" by fastforce
  obtain s' where "park_and_switch cpu (case deadline of Some d \<Rightarrow> Sleeping d | None \<Rightarrow> Blocked) (sch k) = Some (True, s')"
    using park_unless_pending [of "sch k" cpu me] assms unfolding kcurrent_def by blast
  then show ?thesis using a assms(1) keep_waiting_parks [of me ids deadline clock "ntf k" ns cpu "sch k"]
    by (cases a) (simp_all add: wait_any_enter_def)
qed

lemma wait_any_enter_declines:
  assumes "kcurrent cpu k = Some me" "me < length (tasks (sch k))" "wake_pending (tasks (sch k) ! me)"
  shows "\<exists>st k'. wait_any_enter cpu clock ids deadline k = Some (st, k') \<and> kcurrent cpu k' = Some me
           \<and> (st = WaitAwake \<longrightarrow> \<not> wake_pending (tasks (sch k') ! me)) \<and> st \<noteq> WaitParked"
proof -
  obtain a ns where a: "wait_check me ids deadline (clock_now clock) (ntf k) = (a, ns)" by fastforce
  then show ?thesis using assms keep_waiting_parks [of me ids deadline clock "ntf k" ns cpu "sch k"]
    by (cases a) (simp_all add: wait_any_enter_def park_consumes_pending kcurrent_def upd_task_def)
qed

lemma wait_any_wake_keeps:
  assumes "kcurrent cpu k = Some me"
  shows "\<exists>st k'. wait_any_wake cpu clock ids deadline k = Some (st, k') \<and> sch k' = sch k \<and> st \<noteq> WaitParked"
proof -
  obtain a ns where "wait_recheck me ids deadline (clock_now clock) (ntf k) = (a, ns)" by fastforce
  then show ?thesis using assms by (cases a) (simp_all add: wait_any_wake_def)
qed



text \<open>C10. No lost signal: once a waiting task has found nothing and registered, a signal on any of its
  sources is seen however it falls. Before the task parks, the park declines; after, the task is
  made ready; and in both cases the check it makes when it runs again reports a source.\<close>

theorem no_lost_signal:
  assumes "wait_check me ids d now (ntf k) = (KeepWaiting, ns)" "i \<in> set ids" "i < length (ntf k)" "in_use (ntf k ! i)"
    and "sched_inv (sch k)" "runs_on (sch k) cpu me" "prev (sch k) ! cpu = None" "parked = Blocked \<or> is_Sleeping parked"
    and "\<not> wake_pending (tasks (sch k) ! me)"
  shows "(\<exists>s. park_and_switch cpu parked (sch (signal i (k\<lparr>ntf := ns\<rparr>))) = Some (False, s) \<and> runs_on s cpu me)
       \<and> (\<exists>s. park_and_switch cpu parked (sch k) = Some (True, s)
             \<and> state (tasks (sch (signal i (k\<lparr>ntf := ns, sch := s\<rparr>))) ! me) = Ready)
       \<and> (\<exists>r ns'. wait_recheck me ids d' now' (snd (signal_locked i ns)) = (Fired r, ns'))"
proof -
  have n: "ns ! i = (ntf k ! i)\<lparr>waiter := Some me\<rparr>" "length ns = length (ntf k)"
    using check_registers [OF assms(1-4)] by auto
  then have w: "fst (signal_locked i ns) = Some me" using assms(3,4) by (simp add: signal_locked_def get_def)
  have s: "sch (signal i (k\<lparr>ntf := ns, sch := s\<rparr>)) = unblock me s" for s
    using w by (auto simp: signal_def split: prod.split)
  have "ready (snd (signal_locked i ns)) i" using signal_ready [of i ns] n assms(3,4) by simp
  then have "\<exists>r ns'. wait_recheck me ids d' now' (snd (signal_locked i ns)) = (Fired r, ns')"
    using recheck_fires assms(2) by blast
  moreover have "sch (signal i (k\<lparr>ntf := ns\<rparr>)) = unblock me (sch k)" using s [of "sch k"] by simp
  ultimately show ?thesis using park_wake_race [OF assms(5-8)] assms(9) s by auto
qed

theorem no_lost_signal_witness:
  "\<exists>s. park_and_switch 0 Blocked (sch (signal 0 ((demo_kernel Blocked [])\<lparr>sch := demo_sched,
      ntf := [\<lparr>in_use = True, signals = 0, waiter = Some 0\<rparr>]\<rparr>))) = Some (False, s) \<and> runs_on s 0 0"
proof -
  let ?k = "(demo_kernel Blocked [])\<lparr>sch := demo_sched, ntf := [\<lparr>in_use = True, signals = 0, waiter = None\<rparr>]\<rparr>"
  have "wait_check 0 [0] None 0 (ntf ?k) = (KeepWaiting, [\<lparr>in_use = True, signals = 0, waiter = Some 0\<rparr>])"
    by (simp add: wait_check_def consume_ready_def get_def)
  from no_lost_signal [OF this, of 0 0 Blocked None 0] show ?thesis
    using sched_reach_inv [OF demo_reach] demo_facts by (simp add: taken_def new_task_def)
qed

end
