(* ===== verification/Bytes.thy ===== *)
theory Bytes
  imports Prelude
begin

unbundle bit_operations_syntax

text \<open>
  Bytes and the integers made of them: \<^verbatim>\<open>from_le_bytes\<close>, \<^verbatim>\<open>to_le_bytes\<close> and their big-endian twins,
  bounds-checked slices, and memory seen by bytes and by 64-bit words.
\<close>

section \<open>Little and big endian\<close>

fun le_bytes :: "nat \<Rightarrow> 'a::len word \<Rightarrow> u8 list" where
  "le_bytes 0 w = []"
| "le_bytes (Suc n) w = ucast w # le_bytes n (drop_bit 8 w)"

fun from_le :: "u8 list \<Rightarrow> 'a::len word" where
  "from_le [] = 0"
| "from_le (b # bs) = ucast b OR push_bit 8 (from_le bs)"

definition from_be :: "u8 list \<Rightarrow> 'a::len word" where
  "from_be bs = from_le (rev bs)"

definition be_bytes :: "nat \<Rightarrow> 'a::len word \<Rightarrow> u8 list" where
  "be_bytes n w = rev (le_bytes n w)"

lemma length_le_bytes [simp]: "length (le_bytes n w) = n"
  by (induction n arbitrary: w) simp_all

lemma bit_le_bytes: "i < n \<Longrightarrow> bit (le_bytes n w ! i) k \<longleftrightarrow> k < 8 \<and> bit w (8 * i + k)"
proof (induction n arbitrary: w i)
  case (Suc n)
  then show ?case by (cases i) (auto simp: bit_simps bit_drop_bit_eq add.assoc)
qed simp

lemma bit_from_le:
  "bit (from_le bs :: 'a::len word) n \<longleftrightarrow> n < LENGTH('a) \<and> n div 8 < length bs \<and> bit (bs ! (n div 8)) (n mod 8)"
proof (induction bs arbitrary: n)
  case (Cons b bs)
  show ?case
  proof (cases "n < 8")
    case True
    then show ?thesis by (auto simp: bit_simps)
  next
    case False
    then have n: "n div 8 = Suc ((n - 8) div 8)" "n mod 8 = (n - 8) mod 8" by (simp_all add: le_div_geq le_mod_geq)
    have "bit (ucast b OR push_bit 8 (from_le bs) :: 'a word) n \<longleftrightarrow> n < LENGTH('a) \<and> bit (from_le bs :: 'a word) (n - 8)"
      using False bit_imp_le_length [of b n] by (auto simp: bit_simps)
    then show ?thesis using Cons.IH [of "n - 8"] n by auto
  qed
qed simp

lemma from_le_bytes: "from_le (le_bytes n (w :: 'a::len word)) = take_bit (8 * n) w"
proof (rule bit_word_eqI)
  fix k assume k: "k < LENGTH('a)"
  have "8 * (k div 8) + k mod 8 = k" by simp
  moreover have "k div 8 < n \<longleftrightarrow> k < 8 * n" by (auto simp: less_mult_imp_div_less mult.commute div_less_iff_less_mult)
  ultimately show "bit (from_le (le_bytes n w) :: 'a word) k = bit (take_bit (8 * n) w) k"
    using k by (auto simp: bit_from_le bit_le_bytes bit_take_bit_iff)
qed

lemma le_bytes_from:
  assumes "8 * length bs \<le> LENGTH('a)"
  shows "le_bytes (length bs) (from_le bs :: 'a::len word) = bs"
proof (rule nth_equalityI)
  fix i assume "i < length (le_bytes (length bs) (from_le bs :: 'a word))"
  then have i: "i < length bs" by simp
  show "le_bytes (length bs) (from_le bs :: 'a word) ! i = bs ! i"
  proof (rule bit_word_eqI)
    fix k assume k: "k < LENGTH(8)"
    then have "(8 * i + k) div 8 = i" "(8 * i + k) mod 8 = k" "8 * i + k < LENGTH('a)" using assms i by auto
    then show "bit (le_bytes (length bs) (from_le bs :: 'a word) ! i) k = bit (bs ! i) k"
      using i k by (simp add: bit_le_bytes bit_from_le)
  qed
qed simp

section \<open>Slices\<close>

text \<open>\<^verbatim>\<open>b.get(off..off + n)\<close>. The sum is \<^verbatim>\<open>usize\<close> arithmetic: the build checks it, and an overflow is a panic
  (the outer \<open>None\<close>); a range past the end is the inner one.\<close>

definition slice_get :: "u8 list \<Rightarrow> nat \<Rightarrow> nat \<Rightarrow> u8 list option option" where
  "slice_get b off n =
     (if off + n \<ge> 2 ^ 64 then None else Some (if off + n \<le> length b then Some (take n (drop off b)) else None))"

section \<open>Memory by bytes and by words\<close>

definition word_at :: "(nat \<Rightarrow> u8) \<Rightarrow> nat \<Rightarrow> u64" where
  "word_at b a = from_le (map b [a..<a + 8])"

definition bytes_of :: "(nat \<Rightarrow> u64) \<Rightarrow> nat \<Rightarrow> u8" where
  "bytes_of m a = le_bytes 8 (m (a - a mod 8)) ! (a mod 8)"

lemma word_at_bytes_of: "a mod 8 = 0 \<Longrightarrow> word_at (bytes_of m) a = m a"
proof -
  assume a: "a mod 8 = 0"
  have "map (bytes_of m) [a..<a + 8] = le_bytes 8 (m a)"
  proof (rule nth_equalityI)
    fix i assume "i < length (map (bytes_of m) [a..<a + 8])"
    then have i: "i < 8" by simp
    then have "(a + i) mod 8 = i" using a by (simp add: mod_add_left_eq [symmetric])
    then show "map (bytes_of m) [a..<a + 8] ! i = le_bytes 8 (m a) ! i" using i by (simp add: bytes_of_def)
  qed simp
  then show ?thesis by (simp add: word_at_def from_le_bytes take_bit_word_eq_self)
qed

lemma bytes_of_word_at: "bytes_of (word_at b) a = b a"
proof -
  let ?k = "a - a mod 8"
  have l: "le_bytes (length (map b [?k..<?k + 8])) (from_le (map b [?k..<?k + 8]) :: u64) = map b [?k..<?k + 8]"
    by (rule le_bytes_from) simp
  have "a mod 8 < 8" by simp
  then have "map b [?k..<?k + 8] ! (a mod 8) = b (?k + a mod 8)" by simp
  then show ?thesis using l by (simp add: bytes_of_def word_at_def)
qed

end
