(* ===== verification/PageTableInv.thy ===== *)
theory PageTableInv
  imports PageTable
begin

text \<open>
  The invariant of a process's translation tables. \<open>tree_frames\<close> lists the frames an address space
  holds (its tables and the pages marked as its own) in the order the teardown releases them; a
  space is sound when they are distinct and each is a frame the pool has handed out. Extending the
  tables, writing a leaf and tearing down are each described once, over a subtree.
\<close>

section \<open>What a tree holds\<close>

definition valid_desc :: "u64 \<Rightarrow> bool" where
  "valid_desc d \<longleftrightarrow> d AND DESC_VALID \<noteq> 0"

definition owned_desc :: "u64 \<Rightarrow> bool" where
  "owned_desc d \<longleftrightarrow> valid_desc d \<and> d AND SW_OWNED \<noteq> 0"

fun tree_frames :: "nat \<Rightarrow> (nat \<Rightarrow> u64) \<Rightarrow> nat \<Rightarrow> nat list" where
  "tree_frames 0 m t =
     concat (map (\<lambda>i. if owned_desc (read_entry m t i) then [frame_of (read_entry m t i)] else []) [0..<ENTRIES]) @ [t]"
| "tree_frames (Suc n) m t =
     concat (map (\<lambda>i. if valid_desc (read_entry m t i) then tree_frames n m (frame_of (read_entry m t i)) else []) [0..<ENTRIES]) @ [t]"

text \<open>Above the leaves every valid descriptor is a table.\<close>

fun kinds_ok :: "nat \<Rightarrow> (nat \<Rightarrow> u64) \<Rightarrow> nat \<Rightarrow> bool" where
  "kinds_ok 0 m t \<longleftrightarrow> True"
| "kinds_ok (Suc n) m t \<longleftrightarrow> (\<forall>i<ENTRIES. valid_desc (read_entry m t i) \<longrightarrow>
     read_entry m t i AND DESC_KIND = DESC_TABLE \<and> kinds_ok n m (frame_of (read_entry m t i)))"

definition pool_low :: "frame_pool \<Rightarrow> bool" where
  "pool_low p \<longleftrightarrow> (\<forall>t\<in>set p. base t + frames t * PAGE_SIZE \<le> 2 ^ 48)"

definition vm_ok :: "nat \<Rightarrow> nat \<Rightarrow> vm \<Rightarrow> bool" where
  "vm_ok n t v \<longleftrightarrow> pool_wf (vpool v) \<and> pool_low (vpool v) \<and> distinct (tree_frames n (pwords v) t)
     \<and> (\<forall>f\<in>set (tree_frames n (pwords v) t). owns (vpool v) f) \<and> kinds_ok n (pwords v) t"

subsection \<open>Teardown releases exactly these frames\<close>

lemma foldl_free:
  assumes "\<And>w i. pwords w = m \<Longrightarrow> g w i = w\<lparr>vpool := foldl pool_free (vpool w) (fs i)\<rparr>" "pwords v = m"
  shows "foldl g v is = v\<lparr>vpool := foldl pool_free (vpool v) (concat (map fs is))\<rparr>"
  using assms(2)
proof (induction "is" arbitrary: v)
  case (Cons i "is")
  have "foldl g v (i # is) = foldl g (v\<lparr>vpool := foldl pool_free (vpool v) (fs i)\<rparr>) is"
    using assms(1) [OF Cons.prems] by simp
  then show ?case using Cons.IH [of "v\<lparr>vpool := foldl pool_free (vpool v) (fs i)\<rparr>"] Cons.prems by simp
qed simp

lemma free_table_frames:
  "free_table n t v = v\<lparr>vpool := foldl pool_free (vpool v) (tree_frames n (pwords v) t)\<rparr>"
proof (induction n arbitrary: t v)
  case 0
  let ?fs = "\<lambda>i. if owned_desc (read_entry (pwords v) t i) then [frame_of (read_entry (pwords v) t i)] else []"
  show ?case
    unfolding free_table.simps [of 0]
    by (subst foldl_free [where m = "pwords v" and fs = ?fs])
       (auto simp: Let_def owned_desc_def valid_desc_def)
next
  case (Suc n)
  let ?fs = "\<lambda>i. if valid_desc (read_entry (pwords v) t i) then tree_frames n (pwords v) (frame_of (read_entry (pwords v) t i)) else []"
  show ?case
    unfolding free_table.simps [of "Suc n"]
    by (subst foldl_free [where m = "pwords v" and fs = ?fs])
       (auto simp: Let_def valid_desc_def Suc.IH)
qed

subsection \<open>Indices and descriptors\<close>

lemma table_index_less [simp]: "table_index va level < ENTRIES"
proof -
  have "unat (drop_bit (39 - 9 * level) va AND 0x1ff) \<le> unat (0x1ff :: u64)"
    by (intro word_le_nat_alt [THEN iffD1] word_and_le1)
  then show ?thesis by (simp add: table_index_def ENTRIES_def)
qed

lemma entry_in_page: "i < ENTRIES \<Longrightarrow> t + 8 * i \<in> page t"
  by (simp add: page_def PAGE_SIZE_def ENTRIES_def)

lemma read_write_entry:
  "i < ENTRIES \<Longrightarrow> j < ENTRIES \<Longrightarrow> read_entry (write_entry t i d m) t j = (if i = j then d else read_entry m t j)"
  by (simp add: read_entry_def write_entry_def)

lemma read_entry_outside:
  assumes "\<And>a. a \<in> page t \<Longrightarrow> m' a = m a" "i < ENTRIES"
  shows "read_entry m' t i = read_entry m t i"
  using assms entry_in_page [of i t] by (simp add: read_entry_def)

lemma write_entry_outside: "i < ENTRIES \<Longrightarrow> a \<notin> page t \<Longrightarrow> write_entry t i d m a = m a"
  using entry_in_page [of i t] by (auto simp: write_entry_def)

lemma and_addr_mask:
  assumes "f mod 4096 = 0" "f < 2 ^ 48"
  shows "(of_nat f :: u64) AND ADDR_MASK = of_nat f"
proof (rule bit_word_eqI)
  fix n assume n: "n < LENGTH(64)"
  have eq: "ADDR_MASK = push_bit 12 (mask 36)" by (simp add: ADDR_MASK_def mask_eq_exp_minus_1 push_bit_eq_mult)
  have m: "bit ADDR_MASK n \<longleftrightarrow> 12 \<le> n \<and> n < 48"
    unfolding eq using n by (auto simp: bit_push_bit_iff bit_mask_iff)
  have lo: "\<not> bit f n" if "n < 12"
  proof -
    have "take_bit 12 f = 0" using assms(1) by (simp add: take_bit_eq_mod)
    then show ?thesis using that by (metis bit_0_eq bit_take_bit_iff bot_apply bot_bool_def)
  qed
  have hi: "\<not> bit f n" if "48 \<le> n"
  proof -
    have "f div 2 ^ n = 0" using assms(2) that by (metis div_less leD linorder_not_less order_less_le_trans power_increasing_iff one_less_numeral_iff semiring_norm(76))
    then show ?thesis by (simp add: bit_iff_odd)
  qed
  show "bit ((of_nat f :: u64) AND ADDR_MASK) n = bit (of_nat f :: u64) n"
    using m lo hi n by (auto simp: bit_and_iff bit_of_nat_iff)
qed

lemma frame_of_desc:
  assumes "f mod 4096 = 0" "f < 2 ^ 48" "attrs AND ADDR_MASK = 0"
  shows "frame_of (of_nat f OR attrs) = f"
proof -
  have "(of_nat f OR attrs) AND ADDR_MASK = of_nat f"
    using and_addr_mask [OF assms(1,2)] assms(3) by (simp add: word_ao_dist)
  then show ?thesis using assms(2) by (simp add: frame_of_def unsigned_of_nat take_bit_nat_eq_self)
qed

lemma valid_desc_or: "valid_desc attrs \<Longrightarrow> valid_desc (d OR attrs)"
  by (auto simp: valid_desc_def DESC_VALID_def word_ao_dist or_eq_0_iff)

lemma table_desc:
  assumes "f mod 4096 = 0" "f < 2 ^ 48"
  shows "frame_of (of_nat f OR DESC_TABLE) = f" "valid_desc (of_nat f OR DESC_TABLE)"
    "(of_nat f OR DESC_TABLE) AND DESC_KIND = DESC_TABLE"
proof -
  show "frame_of (of_nat f OR DESC_TABLE) = f"
    by (rule frame_of_desc [OF assms]) (simp add: DESC_TABLE_def ADDR_MASK_def)
  show "valid_desc (of_nat f OR DESC_TABLE)"
    by (rule valid_desc_or) (simp add: valid_desc_def DESC_TABLE_def DESC_VALID_def)
  show "(of_nat f OR DESC_TABLE) AND DESC_KIND = DESC_TABLE"
    by (simp add: DESC_TABLE_def DESC_KIND_def or.commute)
qed

lemma kind_table_valid: "d AND DESC_KIND = DESC_TABLE \<Longrightarrow> valid_desc d"
proof -
  assume a: "d AND DESC_KIND = DESC_TABLE"
  have "d AND DESC_VALID = (d AND DESC_KIND) AND DESC_VALID" by (simp add: DESC_KIND_def DESC_VALID_def and.assoc)
  then show ?thesis using a by (simp add: valid_desc_def DESC_TABLE_def DESC_VALID_def)
qed

subsection \<open>The pool\<close>

lemma alloc_pages_range: "alloc_pages b c = Some (r, b') \<Longrightarrow> base b' = base b \<and> frames b' = frames b"
  by (auto simp: alloc_pages_def Let_def split: if_splits option.splits prod.splits)

lemma pool_alloc_low: "pool_alloc_pages p c = Some (r, p') \<Longrightarrow> pool_low p \<Longrightarrow> pool_low p'"
proof (induction p arbitrary: r p')
  case (Cons t ts)
  obtain a t' where a: "alloc_pages t c = Some (a, t')" using Cons.prems(1) by (auto split: option.splits)
  note rng = alloc_pages_range [OF a]
  show ?case
  proof (cases a)
    case (Some x)
    then show ?thesis using Cons.prems a rng by (auto simp: pool_low_def)
  next
    case None
    then obtain ts' where "pool_alloc_pages ts c = Some (r, ts')" "p' = t' # ts'"
      using Cons.prems(1) a by auto
    then show ?thesis using Cons.IH [of r ts'] Cons.prems(2) rng by (simp add: pool_low_def)
  qed
qed simp

lemma free_pages_range: "base (free_pages b f) = base b" "frames (free_pages b f) = frames b"
  by (simp_all add: free_pages_def Let_def split: option.split prod.split)

lemma pool_free_low: "pool_low p \<Longrightarrow> pool_low (pool_free p f)"
proof -
  have "pool_low (pool_free_pages p f)" if "pool_low p" for p
    using that by (induction p f rule: pool_free_pages.induct) (auto simp: pool_low_def free_pages_range)
  then show "pool_low p \<Longrightarrow> pool_low (pool_free p f)" by (simp add: pool_free_def)
qed

lemma pool_free_list_low: "pool_low p \<Longrightarrow> pool_low (foldl pool_free p fs)"
  by (induction fs arbitrary: p) (simp_all add: pool_free_low)

lemma owned_frame:
  assumes "pool_wf p" "pool_low p" "owns p f"
  shows "f mod 4096 = 0" "f < 2 ^ 48"
proof -
  obtain t where t: "t \<in> set p" "(f, 1) \<in> set (used t)" "block (f, 1) \<subseteq> span t"
    using pool_used_span [OF assms(1)] assms(3) unfolding owns_def by blast
  have "is_page_aligned (base t)" using assms(1) t(1) by (simp add: pool_wf_def buddy_wf_def)
  then show "f mod 4096 = 0" using t(2) by (auto simp: used_def is_page_aligned_def PAGE_SIZE_def)
  have "f \<in> block (f, 1)" by (simp add: block_def PAGE_SIZE_def)
  then have "f < base t + frames t * PAGE_SIZE" using t(3) by (auto simp: span_def)
  then show "f < 2 ^ 48" using assms(2) t(1) by (auto simp: pool_low_def)
qed

lemma owned_pages_disjoint:
  assumes "pool_wf p" "owns p f" "owns p g" "f \<noteq> g"
  shows "page f \<inter> page g = {}"
  using pool_blocks_disjoint [OF assms(1), of "(f, 1)" "(g, 1)"] assms(2-4) by (simp add: owns_def block_def page_def)

lemma alloc_table_cases:
  assumes "pool_wf (vpool v)" "pool_low (vpool v)"
  obtains (full) "alloc_table v = Some (None, v)"
  | (taken) f v1 where "alloc_table v = Some (Some f, v1)" "pool_wf (vpool v1)" "pool_low (vpool v1)" "\<not> owns (vpool v) f"
      "set (pool_used (vpool v1)) = insert (f, 1) (set (pool_used (vpool v)))" "pwords v1 = zero_frame f (pwords v)"
proof -
  obtain r p' where r: "pool_allocate (vpool v) = Some (r, p')" "r = None \<longrightarrow> p' = vpool v"
    using pool_alloc_total [OF assms(1), of 1] by (auto simp: pool_allocate_def)
  show ?thesis
  proof (cases r)
    case None
    then show ?thesis using full r by (simp add: alloc_table_def)
  next
    case (Some f)
    have "pool_low p'" using pool_alloc_low [OF _ assms(2), of 1 r p'] r(1) by (simp add: pool_allocate_def)
    then show ?thesis
      using taken [of f "v\<lparr>vpool := p', pwords := zero_frame f (pwords v)\<rparr>"] r(1) Some
        pool_allocate_owns [OF assms(1), of f p'] by (simp add: alloc_table_def)
  qed
qed

subsection \<open>Locality\<close>

lemma distinct_concat_upt:
  "distinct (concat (map g [0..<n])) \<longleftrightarrow>
     (\<forall>i<n. distinct (g i)) \<and> (\<forall>i<n. \<forall>j<n. i \<noteq> j \<longrightarrow> set (g i) \<inter> set (g j) = {})"
proof (induction n)
  case (Suc n)
  have "set (concat (map g [0..<n])) \<inter> set (g n) = {} \<longleftrightarrow> (\<forall>i<n. set (g i) \<inter> set (g n) = {})"
    by (fastforce simp: disjoint_iff)
  then have "distinct (concat (map g [0..<Suc n])) \<longleftrightarrow>
      distinct (concat (map g [0..<n])) \<and> distinct (g n) \<and> (\<forall>i<n. set (g i) \<inter> set (g n) = {})"
    by simp
  then have *: "distinct (concat (map g [0..<Suc n])) \<longleftrightarrow>
      ((\<forall>i<n. distinct (g i)) \<and> (\<forall>i<n. \<forall>j<n. i \<noteq> j \<longrightarrow> set (g i) \<inter> set (g j) = {}))
      \<and> distinct (g n) \<and> (\<forall>i<n. set (g i) \<inter> set (g n) = {})" using Suc.IH by blast
  show ?case unfolding * All_less_Suc disjoint_iff by blast
qed simp

lemma root_in_tree [simp]: "t \<in> set (tree_frames n m t)"
  by (cases n) simp_all

lemma child_frames:
  "i < ENTRIES \<Longrightarrow> valid_desc (read_entry m t i) \<Longrightarrow>
     set (tree_frames n m (frame_of (read_entry m t i))) \<subseteq> set (tree_frames (Suc n) m t)"
  by auto

lemma tree_entries:
  assumes "\<And>f i. f \<in> set (tree_frames n m t) \<Longrightarrow> i < ENTRIES \<Longrightarrow> read_entry m' f i = read_entry m f i"
  shows "tree_frames n m' t = tree_frames n m t" "kinds_ok n m' t = kinds_ok n m t"
    "lookup_from n m' t va = lookup_from n m t va" "existing_from n m' t va = existing_from n m t va"
proof -
  have "tree_frames n m' t = tree_frames n m t \<and> kinds_ok n m' t = kinds_ok n m t
      \<and> lookup_from n m' t va = lookup_from n m t va \<and> existing_from n m' t va = existing_from n m t va"
    using assms
  proof (induction n arbitrary: t)
    case 0
    have e: "read_entry m' t i = read_entry m t i" if "i < ENTRIES" for i
      using 0 that by auto
    then have "map (\<lambda>i. if owned_desc (read_entry m' t i) then [frame_of (read_entry m' t i)] else []) [0..<ENTRIES]
        = map (\<lambda>i. if owned_desc (read_entry m t i) then [frame_of (read_entry m t i)] else []) [0..<ENTRIES]"
      by (intro map_cong) (simp_all add: e)
    then have "tree_frames 0 m' t = tree_frames 0 m t" by (simp only: tree_frames.simps)
    then show ?case using e by (simp del: tree_frames.simps)
  next
    case (Suc n)
    have e: "read_entry m' t i = read_entry m t i" if "i < ENTRIES" for i
      using Suc.prems [of t i] that by simp
    have ih: "tree_frames n m' c = tree_frames n m c" "kinds_ok n m' c = kinds_ok n m c"
        "lookup_from n m' c va = lookup_from n m c va" "existing_from n m' c va = existing_from n m c va"
      if "i < ENTRIES" "valid_desc (read_entry m t i)" "c = frame_of (read_entry m t i)" for i c
      using Suc.IH [of c] Suc.prems child_frames [OF that(1,2), of n] that(3) by blast+
    have "map (\<lambda>i. if valid_desc (read_entry m' t i) then tree_frames n m' (frame_of (read_entry m' t i)) else []) [0..<ENTRIES]
        = map (\<lambda>i. if valid_desc (read_entry m t i) then tree_frames n m (frame_of (read_entry m t i)) else []) [0..<ENTRIES]"
      by (intro map_cong) (simp_all add: e ih)
    then have "tree_frames (Suc n) m' t = tree_frames (Suc n) m t" by (simp only: tree_frames.simps)
    moreover have "kinds_ok (Suc n) m' t = kinds_ok (Suc n) m t" using e ih(2) by auto
    ultimately show ?case
      using e ih(3,4) kind_table_valid by (simp add: Let_def del: tree_frames.simps kinds_ok.simps)
  qed
  then show "tree_frames n m' t = tree_frames n m t" "kinds_ok n m' t = kinds_ok n m t"
    "lookup_from n m' t va = lookup_from n m t va" "existing_from n m' t va = existing_from n m t va" by blast+
qed

lemma tree_local:
  assumes "\<And>a f. f \<in> set (tree_frames n m t) \<Longrightarrow> a \<in> page f \<Longrightarrow> m' a = m a"
  shows "tree_frames n m' t = tree_frames n m t" "kinds_ok n m' t = kinds_ok n m t"
    "lookup_from n m' t va = lookup_from n m t va" "existing_from n m' t va = existing_from n m t va"
proof -
  have "read_entry m' f i = read_entry m f i" if "f \<in> set (tree_frames n m t)" "i < ENTRIES" for f i
    by (rule read_entry_outside [OF assms [OF that(1)] that(2)])
  from tree_entries [OF this]
  show "tree_frames n m' t = tree_frames n m t" "kinds_ok n m' t = kinds_ok n m t"
    "lookup_from n m' t va = lookup_from n m t va" "existing_from n m' t va = existing_from n m t va" by blast+
qed

lemma tree_zero:
  assumes "\<And>i. i < ENTRIES \<Longrightarrow> read_entry m t i = 0"
  shows "tree_frames n m t = [t]" "kinds_ok n m t" "lookup_from n m t va = None"
proof -
  have z: "\<not> valid_desc 0" by (simp add: valid_desc_def)
  have "concat (map (\<lambda>i. if P (read_entry m t i) then F i else []) [0..<ENTRIES]) = []" if "\<not> P 0" for P F
    using assms that by (simp add: concat_eq_Nil_conv)
  then show "tree_frames n m t = [t]" using z by (cases n) (auto simp: owned_desc_def)
  show "kinds_ok n m t" using assms z by (cases n) auto
  show "lookup_from n m t va = None" using assms by (cases n) (auto simp: DESC_TABLE_def)
qed

subsection \<open>One child of a table changes\<close>

definition slot_frames :: "nat \<Rightarrow> (nat \<Rightarrow> u64) \<Rightarrow> nat \<Rightarrow> nat \<Rightarrow> nat list" where
  "slot_frames n m t i = (if valid_desc (read_entry m t i) then tree_frames n m (frame_of (read_entry m t i)) else [])"

lemma tree_frames_Suc: "tree_frames (Suc n) m t = concat (map (slot_frames n m t) [0..<ENTRIES]) @ [t]"
  by (simp add: slot_frames_def [abs_def])

lemma tree_distinct_Suc:
  "distinct (tree_frames (Suc n) m t) \<longleftrightarrow>
     (\<forall>i<ENTRIES. distinct (slot_frames n m t i) \<and> t \<notin> set (slot_frames n m t i))
     \<and> (\<forall>i<ENTRIES. \<forall>j<ENTRIES. i \<noteq> j \<longrightarrow> set (slot_frames n m t i) \<inter> set (slot_frames n m t j) = {})"
proof -
  have "t \<notin> set (concat (map (slot_frames n m t) [0..<ENTRIES])) \<longleftrightarrow> (\<forall>i<ENTRIES. t \<notin> set (slot_frames n m t i))" by auto
  then show ?thesis
    unfolding tree_frames_Suc using distinct_concat_upt [of "slot_frames n m t" ENTRIES] by auto
qed

lemma tree_set_Suc: "set (tree_frames (Suc n) m t) = insert t (\<Union>i<ENTRIES. set (slot_frames n m t i))"
  unfolding tree_frames_Suc by auto

lemma vm_ok_child:
  assumes "vm_ok (Suc n) t v" "i < ENTRIES" "valid_desc (read_entry (pwords v) t i)"
  shows "vm_ok n (frame_of (read_entry (pwords v) t i)) v"
proof -
  have "distinct (slot_frames n (pwords v) t i)" using assms(1,2) tree_distinct_Suc by (simp add: vm_ok_def del: tree_frames.simps)
  moreover have "set (slot_frames n (pwords v) t i) \<subseteq> set (tree_frames (Suc n) (pwords v) t)"
    unfolding tree_set_Suc using assms(2) by blast
  ultimately show ?thesis using assms by (auto simp: vm_ok_def slot_frames_def simp del: tree_frames.simps)
qed

lemma child_changes:
  assumes d: "distinct (tree_frames (Suc n) m t)" and k: "kinds_ok (Suc n) m t"
    and i: "i < ENTRIES" "valid_desc (read_entry m t i)" "c = frame_of (read_entry m t i)"
    and same: "\<forall>f\<in>set (tree_frames (Suc n) m t) - set (tree_frames n m c). \<forall>a\<in>page f. m' a = m a"
  shows "set (tree_frames (Suc n) m' t) = (set (tree_frames (Suc n) m t) - set (tree_frames n m c)) \<union> set (tree_frames n m' c)"
    and "distinct (tree_frames n m' c) \<Longrightarrow>
      set (tree_frames n m' c) \<inter> (set (tree_frames (Suc n) m t) - set (tree_frames n m c)) = {} \<Longrightarrow>
      distinct (tree_frames (Suc n) m' t)"
    and "kinds_ok n m' c \<Longrightarrow> kinds_ok (Suc n) m' t"
    and "lookup_from (Suc n) m' t va =
      (if table_index va (LEAF_LEVEL - Suc n) = i then lookup_from n m' c va else lookup_from (Suc n) m t va)"
    and "read_entry m' t i = read_entry m t i"
proof -
  note D = d [unfolded tree_distinct_Suc]
  have ci: "slot_frames n m t i = tree_frames n m c" using i by (simp add: slot_frames_def)
  have t: "t \<in> set (tree_frames (Suc n) m t) - set (tree_frames n m c)"
    using D i(1) ci by (auto simp: tree_set_Suc simp del: tree_frames.simps)
  have e: "read_entry m' t j = read_entry m t j" if "j < ENTRIES" for j
    by (rule read_entry_outside [OF _ that]) (use same t in blast)
  have other: "set (slot_frames n m t j) \<subseteq> set (tree_frames (Suc n) m t) - set (tree_frames n m c)"
    if "j < ENTRIES" "j \<noteq> i" for j
  proof -
    have "set (slot_frames n m t j) \<inter> set (slot_frames n m t i) = {}" using D i(1) that by blast
    then show ?thesis using ci that(1) unfolding tree_set_Suc by auto
  qed
  have loc: "\<And>f a. f \<in> set (tree_frames n m (frame_of (read_entry m t j))) \<Longrightarrow> a \<in> page f \<Longrightarrow> m' a = m a"
    if "j < ENTRIES" "j \<noteq> i" "valid_desc (read_entry m t j)" for j
  proof -
    fix f a assume f: "f \<in> set (tree_frames n m (frame_of (read_entry m t j)))" "a \<in> page f"
    then have "f \<in> set (slot_frames n m t j)" using that(3) by (simp add: slot_frames_def)
    then have "f \<in> set (tree_frames (Suc n) m t) - set (tree_frames n m c)" using other [OF that(1,2)] by blast
    then show "m' a = m a" using same f(2) by blast
  qed
  have sj: "slot_frames n m' t j = slot_frames n m t j" if "j < ENTRIES" "j \<noteq> i" for j
  proof (cases "valid_desc (read_entry m t j)")
    case True
    have "tree_frames n m' (frame_of (read_entry m t j)) = tree_frames n m (frame_of (read_entry m t j))"
      by (rule tree_local(1)) (use loc [OF that True] in blast)
    then show ?thesis using True e [OF that(1)] by (simp add: slot_frames_def)
  next
    case False
    then show ?thesis using e [OF that(1)] by (simp add: slot_frames_def)
  qed
  have si: "slot_frames n m' t i = tree_frames n m' c" using e i by (simp add: slot_frames_def)
  let ?J = "{..<ENTRIES} - {i}"
  have U: "(\<Union>j<ENTRIES. F j) = F i \<union> (\<Union>j\<in>?J. F j)" for F :: "nat \<Rightarrow> nat set"
    using i(1) by (subst insert_Diff [of i "{..<ENTRIES}", symmetric]) auto
  have "(\<Union>j\<in>?J. set (slot_frames n m' t j)) = (\<Union>j\<in>?J. set (slot_frames n m t j))"
    using sj by (intro SUP_cong) auto
  then have S: "set (tree_frames (Suc n) m' t) = insert t (set (tree_frames n m' c) \<union> (\<Union>j\<in>?J. set (slot_frames n m t j)))"
    unfolding tree_set_Suc U si by simp
  have R: "set (tree_frames (Suc n) m t) - set (tree_frames n m c) = insert t (\<Union>j\<in>?J. set (slot_frames n m t j))"
  proof -
    have "set (tree_frames (Suc n) m t) = insert t (set (tree_frames n m c) \<union> (\<Union>j\<in>?J. set (slot_frames n m t j)))"
      unfolding tree_set_Suc U ci by simp
    moreover have "(\<Union>j\<in>?J. set (slot_frames n m t j)) \<inter> set (tree_frames n m c) = {}" using other by blast
    moreover have "t \<notin> set (tree_frames n m c)" using t by blast
    ultimately show ?thesis by (simp only:) blast
  qed
  show "set (tree_frames (Suc n) m' t) = (set (tree_frames (Suc n) m t) - set (tree_frames n m c)) \<union> set (tree_frames n m' c)"
    unfolding S R by auto
  show "distinct (tree_frames (Suc n) m' t)" if dc: "distinct (tree_frames n m' c)"
    "set (tree_frames n m' c) \<inter> (set (tree_frames (Suc n) m t) - set (tree_frames n m c)) = {}"
  proof -
    have tn: "t \<notin> set (tree_frames n m' c)" using dc(2) t by blast
    have sc: "set (slot_frames n m t j) \<inter> set (tree_frames n m' c) = {}" if "j < ENTRIES" "j \<noteq> i" for j
      using other [OF that] dc(2) by blast
    show ?thesis unfolding tree_distinct_Suc
    proof (intro conjI allI impI)
      fix j assume j: "j < ENTRIES"
      show "distinct (slot_frames n m' t j)" "t \<notin> set (slot_frames n m' t j)"
        using D sj [OF j] si dc(1) tn j by (cases "j = i"; auto)+
    next
      fix j l assume "j < ENTRIES" "l < ENTRIES" "j \<noteq> l"
      then show "set (slot_frames n m' t j) \<inter> set (slot_frames n m' t l) = {}"
        using D sj si sc [of j] sc [of l] by (cases "j = i"; cases "l = i") (auto simp: Int_commute)
    qed
  qed
  show "kinds_ok (Suc n) m' t" if "kinds_ok n m' c"
  proof -
    have "kinds_ok n m' (frame_of (read_entry m t j))" if "j < ENTRIES" "j \<noteq> i" "valid_desc (read_entry m t j)" for j
      using k that tree_local(2) [of n m "frame_of (read_entry m t j)" m'] loc [OF that] by auto
    then show ?thesis using k that e i by auto
  qed
  show "read_entry m' t i = read_entry m t i" using e i(1) .
  show "lookup_from (Suc n) m' t va =
      (if table_index va (LEAF_LEVEL - Suc n) = i then lookup_from n m' c va else lookup_from (Suc n) m t va)"
  proof -
    let ?j = "table_index va (LEAF_LEVEL - Suc n)"
    have "lookup_from n m' (frame_of (read_entry m t ?j)) va = lookup_from n m (frame_of (read_entry m t ?j)) va"
      if "?j \<noteq> i" "valid_desc (read_entry m t ?j)"
      using tree_local(3) [of n m "frame_of (read_entry m t ?j)" m'] loc [OF _ that] by simp
    moreover have "read_entry m t i AND DESC_KIND = DESC_TABLE" using k i by auto
    ultimately show ?thesis using e [of ?j] i(3) kind_table_valid by (auto simp: Let_def)
  qed
qed

section \<open>Extending the tables\<close>

text \<open>From \<open>v\<close> to \<open>v'\<close> the tree below \<open>t\<close> gains the fresh frames \<open>N\<close> as tables and maps what it mapped.\<close>

definition grow :: "nat \<Rightarrow> nat \<Rightarrow> vm \<Rightarrow> vm \<Rightarrow> nat set \<Rightarrow> bool" where
  "grow n t v v' N \<longleftrightarrow> vm_ok n t v \<and> vm_ok n t v'
     \<and> set (pool_used (vpool v')) = set (pool_used (vpool v)) \<union> (\<lambda>f. (f, 1)) ` N \<and> (\<forall>f\<in>N. \<not> owns (vpool v) f)
     \<and> set (tree_frames n (pwords v') t) = set (tree_frames n (pwords v) t) \<union> N
     \<and> (\<forall>a. (\<forall>f\<in>set (tree_frames n (pwords v) t) \<union> N. a \<notin> page f) \<longrightarrow> pwords v' a = pwords v a)
     \<and> (\<forall>va. lookup_from n (pwords v') t va = lookup_from n (pwords v) t va)"

lemma growD:
  assumes "grow n t v v' N"
  shows "vm_ok n t v" "vm_ok n t v'" "set (pool_used (vpool v')) = set (pool_used (vpool v)) \<union> (\<lambda>f. (f, 1)) ` N"
    "\<And>f. f \<in> N \<Longrightarrow> \<not> owns (vpool v) f" "set (tree_frames n (pwords v') t) = set (tree_frames n (pwords v) t) \<union> N"
    "\<And>a. (\<And>f. f \<in> set (tree_frames n (pwords v) t) \<union> N \<Longrightarrow> a \<notin> page f) \<Longrightarrow> pwords v' a = pwords v a"
    "lookup_from n (pwords v') t va = lookup_from n (pwords v) t va"
    "owns (vpool v') f \<longleftrightarrow> owns (vpool v) f \<or> f \<in> N"
  using assms unfolding grow_def owns_def by blast+

lemma vm_okD:
  assumes "vm_ok n t v"
  shows "pool_wf (vpool v)" "pool_low (vpool v)" "distinct (tree_frames n (pwords v) t)"
    "\<And>f. f \<in> set (tree_frames n (pwords v) t) \<Longrightarrow> owns (vpool v) f" "kinds_ok n (pwords v) t"
  using assms by (simp_all add: vm_ok_def)

lemma grow_refl: "vm_ok n t v \<Longrightarrow> grow n t v v {}"
  by (simp add: grow_def)

lemma grow_trans:
  assumes "grow n t v1 v2 N1" "grow n t v2 v3 N2"
  shows "grow n t v1 v3 (N1 \<union> N2)"
proof -
  note A = growD [OF assms(1)] and B = growD [OF assms(2)]
  have "pwords v3 a = pwords v1 a"
    if "\<forall>f\<in>set (tree_frames n (pwords v1) t) \<union> (N1 \<union> N2). a \<notin> page f" for a
  proof -
    have "pwords v3 a = pwords v2 a" by (rule B(6)) (use that A(5) in blast)
    also have "\<dots> = pwords v1 a" by (rule A(6)) (use that in blast)
    finally show ?thesis .
  qed
  moreover have "set (pool_used (vpool v3)) = set (pool_used (vpool v1)) \<union> (\<lambda>f. (f, 1)) ` (N1 \<union> N2)"
    using A(3) B(3) by auto
  moreover have "\<not> owns (vpool v1) f" if "f \<in> N1 \<union> N2" for f using A(4,8) B(4) that by blast
  moreover have "set (tree_frames n (pwords v3) t) = set (tree_frames n (pwords v1) t) \<union> (N1 \<union> N2)"
    using A(5) B(5) by blast
  ultimately show ?thesis using A(1,7) B(2,7) unfolding grow_def by simp
qed

lemma grow_child:
  assumes ok: "vm_ok (Suc n) t v" and i: "i < ENTRIES" "valid_desc (read_entry (pwords v) t i)" "c = frame_of (read_entry (pwords v) t i)"
    and g: "grow n c v v' N"
  shows "grow (Suc n) t v v' N" "read_entry (pwords v') t i = read_entry (pwords v) t i"
proof -
  note G = growD [OF g] and O = vm_okD [OF ok]
  let ?T = "set (tree_frames (Suc n) (pwords v) t)" and ?C = "set (tree_frames n (pwords v) c)"
  have wf': "pool_wf (vpool v')" "pool_low (vpool v')" using vm_okD [OF G(2)] by auto
  have same: "pwords v' a = pwords v a" if "f \<in> ?T - ?C" "a \<in> page f" for f a
  proof (rule G(6))
    fix h assume h: "h \<in> ?C \<union> N"
    have "owns (vpool v) f" using O(4) that(1) by blast
    moreover have "owns (vpool v') h" using h G(8) vm_okD(4) [OF G(1)] by blast
    moreover have "f \<noteq> h" using h that(1) G(4) \<open>owns (vpool v) f\<close> by blast
    ultimately have "page f \<inter> page h = {}" using owned_pages_disjoint [OF wf'(1)] G(8) by blast
    then show "a \<notin> page h" using that(2) by blast
  qed
  then have "\<forall>f\<in>?T - ?C. \<forall>a\<in>page f. pwords v' a = pwords v a" by blast
  note K = child_changes [OF O(3,5) i this]
  have disj: "N \<inter> ?T = {}" using G(4) O(4) by blast
  have cT: "?C \<subseteq> ?T" using child_frames [OF i(1,2), of n] i(3) by simp
  have S: "set (tree_frames (Suc n) (pwords v') t) = ?T \<union> N"
  proof -
    have "set (tree_frames (Suc n) (pwords v') t) = (?T - ?C) \<union> set (tree_frames n (pwords v') c)" by (rule K(1))
    then show ?thesis using G(5) cT by (simp only:) blast
  qed
  have "distinct (tree_frames (Suc n) (pwords v') t)"
    by (rule K(2)) (use vm_okD(3) [OF G(2)] G(5) disj in blast)+
  moreover have "kinds_ok (Suc n) (pwords v') t" by (rule K(3)) (rule vm_okD(5) [OF G(2)])
  moreover have "owns (vpool v') f" if "f \<in> ?T \<union> N" for f using that O(4) G(8) by blast
  ultimately have ok': "vm_ok (Suc n) t v'" using wf' S unfolding vm_ok_def by blast
  have lk: "lookup_from (Suc n) (pwords v') t va = lookup_from (Suc n) (pwords v) t va" for va
  proof -
    have "read_entry (pwords v) t i AND DESC_KIND = DESC_TABLE" using O(5) i by auto
    then show ?thesis using K(4) [of va] G(7) [of va] i(3) by (auto simp: Let_def)
  qed
  have "pwords v' a = pwords v a" if "\<forall>f\<in>?T \<union> N. a \<notin> page f" for a
    by (rule G(6)) (use that cT in blast)
  then show "grow (Suc n) t v v' N" using ok ok' G(3,4) S lk unfolding grow_def by simp
  show "read_entry (pwords v') t i = read_entry (pwords v) t i" by (rule K(5))
qed

lemma zero_frame_page: "zero_frame f m a = (if a \<in> page f then 0 else m a)"
  by (simp add: zero_frame_def page_def PAGE_SIZE_def ENTRIES_def)

lemma grow_link:
  assumes ok: "vm_ok (Suc n) t v" and i: "i < ENTRIES" "\<not> valid_desc (read_entry (pwords v) t i)"
    and al: "pool_wf (vpool v1)" "pool_low (vpool v1)" "\<not> owns (vpool v) f"
      "set (pool_used (vpool v1)) = insert (f, 1) (set (pool_used (vpool v)))" "pwords v1 = zero_frame f (pwords v)"
    and v2: "v2 = v1\<lparr>pwords := write_entry t i (of_nat f OR DESC_TABLE) (pwords v1)\<rparr>"
  shows "grow (Suc n) t v v2 {f}" "read_entry (pwords v2) t i = of_nat f OR DESC_TABLE" "frame_of (of_nat f OR DESC_TABLE) = f"
    "valid_desc (of_nat f OR DESC_TABLE)" "(of_nat f OR DESC_TABLE) AND DESC_KIND = DESC_TABLE"
proof -
  note O = vm_okD [OF ok]
  let ?m = "pwords v" and ?m2 = "pwords v2" and ?T = "set (tree_frames (Suc n) (pwords v) t)"
  have own1: "owns (vpool v2) g \<longleftrightarrow> owns (vpool v) g \<or> g = f" for g using al(4) by (auto simp: owns_def v2)
  have fT: "f \<notin> ?T" using al(3) O(4) by blast
  have disj: "page g \<inter> page h = {}" if "g \<in> insert f ?T" "h \<in> insert f ?T" "g \<noteq> h" for g h
    by (rule owned_pages_disjoint [of "vpool v2"]) (use that al(1) own1 O(4) v2 in auto)
  have tT: "t \<in> ?T" by simp
  have fl: "f mod 4096 = 0" "f < 2 ^ 48" using owned_frame [of "vpool v2" f] al(1,2) own1 v2 by auto
  note TD = table_desc [OF fl]
  have m2: "?m2 a = ?m a" if "g \<in> ?T" "g \<noteq> t" "a \<in> page g" for g a
  proof -
    have "a \<notin> page f" "a \<notin> page t" using disj [of g f] disj [of g t] that fT tT by auto
    then show ?thesis using i(1) by (simp add: v2 al(5) write_entry_outside zero_frame_page)
  qed
  have z: "read_entry ?m2 f j = 0" if "j < ENTRIES" for j
  proof -
    have "f + 8 * j \<in> page f" using entry_in_page [OF that] .
    moreover from this have "f + 8 * j \<notin> page t" using disj [of f t] fT tT by auto
    ultimately show ?thesis using i(1) by (simp add: read_entry_def v2 al(5) write_entry_outside zero_frame_page)
  qed
  have e: "read_entry ?m2 t j = (if j = i then of_nat f OR DESC_TABLE else read_entry ?m t j)" if "j < ENTRIES" for j
  proof -
    have "t + 8 * j \<notin> page f" using disj [of t f] fT tT entry_in_page [OF that, of t] by auto
    then show ?thesis using that i(1) by (simp add: v2 al(5) read_entry_def write_entry_def zero_frame_page)
  qed
  show e2: "read_entry ?m2 t i = of_nat f OR DESC_TABLE" using e i(1) by simp
  have sub: "set (tree_frames n ?m (frame_of (read_entry ?m t j))) \<subseteq> ?T - {t}"
    if "j < ENTRIES" "valid_desc (read_entry ?m t j)" for j
    using O(3) [unfolded tree_distinct_Suc] child_frames [OF that, of n] that unfolding slot_frames_def by auto
  have loc: "tree_frames n ?m2 (frame_of (read_entry ?m t j)) = tree_frames n ?m (frame_of (read_entry ?m t j))"
    "kinds_ok n ?m2 (frame_of (read_entry ?m t j)) = kinds_ok n ?m (frame_of (read_entry ?m t j))"
    "lookup_from n ?m2 (frame_of (read_entry ?m t j)) va = lookup_from n ?m (frame_of (read_entry ?m t j)) va"
    if "j < ENTRIES" "valid_desc (read_entry ?m t j)" for j va
    by (rule tree_local; use m2 sub [OF that] in blast)+
  have sl: "slot_frames n ?m2 t j = (if j = i then [f] else slot_frames n ?m t j)" if "j < ENTRIES" for j
    using e [OF that] loc(1) [OF that] TD tree_zero(1) [OF z] by (auto simp: slot_frames_def)
  have sli: "slot_frames n ?m t i = []" using i(2) by (simp add: slot_frames_def)
  have S: "set (tree_frames (Suc n) ?m2 t) = insert f ?T"
  proof -
    have "(\<Union>j<ENTRIES. set (slot_frames n ?m2 t j)) = (\<Union>j<ENTRIES. if j = i then {f} else set (slot_frames n ?m t j))"
      by (intro SUP_cong) (auto simp: sl)
    also have "\<dots> = insert f (\<Union>j<ENTRIES. set (slot_frames n ?m t j))" using i(1) sli by (auto split: if_splits)
    finally show ?thesis unfolding tree_set_Suc by blast
  qed
  have "distinct (tree_frames (Suc n) ?m2 t)"
    using O(3) fT sl sli unfolding tree_distinct_Suc tree_set_Suc by auto
  moreover have "kinds_ok (Suc n) ?m2 t" using O(5) e loc(2) TD tree_zero(2) [OF z] by auto
  moreover have "owns (vpool v2) g" if "g \<in> insert f ?T" for g using that O(4) own1 by blast
  ultimately have ok2: "vm_ok (Suc n) t v2" using al(1,2) S v2 unfolding vm_ok_def by simp
  have "lookup_from (Suc n) ?m2 t va = lookup_from (Suc n) ?m t va" for va
  proof (cases "table_index va (LEAF_LEVEL - Suc n) = i")
    case True
    then show ?thesis using e2 TD tree_zero(3) [OF z] i(2) kind_table_valid by (auto simp: Let_def)
  next
    case False
    then show ?thesis using e loc(3) kind_table_valid by (auto simp: Let_def)
  qed
  moreover have "?m2 a = ?m a" if "\<forall>g\<in>?T \<union> {f}. a \<notin> page g" for a
    using that tT i(1) by (simp add: v2 al(5) write_entry_outside zero_frame_page)
  ultimately show "grow (Suc n) t v v2 {f}"
    using ok ok2 al(3,4) S v2 unfolding grow_def by simp
  show "frame_of (of_nat f OR DESC_TABLE) = f" "valid_desc (of_nat f OR DESC_TABLE)"
    "(of_nat f OR DESC_TABLE) AND DESC_KIND = DESC_TABLE" by (rule TD)+
qed

end
