(* ===== verification/PageTableProps.thy ===== *)
theory PageTableProps
  imports PageTableInv
begin

text \<open>
  What the address-space operations promise: a mapping is found where it was put and nowhere
  else, checks see exactly what is mapped, an unmapped or torn-down page goes back to the pool
  once and only if the space owned it, and no page is both writable and executable.
\<close>

section \<open>Reaching and writing a leaf\<close>

lemma leaf_from_spec:
  assumes "vm_ok n t v"
  shows "\<exists>r v' N. leaf_from n t va v = Some (r, v') \<and> grow n t v v' N
           \<and> (\<forall>leaf. r = Some leaf \<longrightarrow> existing_from n (pwords v') t va = Some leaf)"
  using assms
proof (induction n arbitrary: t v)
  case 0
  then show ?case using grow_refl by fastforce
next
  case (Suc n)
  let ?i = "table_index va (LEAF_LEVEL - Suc n)"
  note O = vm_okD [OF Suc.prems]
  have step: "\<exists>r v' N. leaf_from n (frame_of (read_entry (pwords w) t ?i)) va w = Some (r, v') \<and> grow (Suc n) t w v' N
      \<and> (\<forall>leaf. r = Some leaf \<longrightarrow> existing_from (Suc n) (pwords v') t va = Some leaf)"
    if w: "vm_ok (Suc n) t w" "valid_desc (read_entry (pwords w) t ?i)" for w
  proof -
    let ?c = "frame_of (read_entry (pwords w) t ?i)"
    obtain r v' N where r: "leaf_from n ?c va w = Some (r, v')" "grow n ?c w v' N"
      "\<forall>leaf. r = Some leaf \<longrightarrow> existing_from n (pwords v') ?c va = Some leaf"
      using Suc.IH [OF vm_ok_child [OF w(1) table_index_less w(2)]] by blast
    note C = grow_child [OF w(1) table_index_less w(2) refl r(2)]
    have "read_entry (pwords w) t ?i AND DESC_KIND = DESC_TABLE" using vm_okD(5) [OF w(1)] w(2) by auto
    then have "existing_from (Suc n) (pwords v') t va = existing_from n (pwords v') ?c va" using C(2) by (simp add: Let_def)
    then show ?thesis using r C(1) by auto
  qed
  show ?case
  proof (cases "valid_desc (read_entry (pwords v) t ?i)")
    case True
    then show ?thesis using step [OF Suc.prems True] by (simp add: Let_def valid_desc_def)
  next
    case False
    from O(1,2) show ?thesis
    proof (cases rule: alloc_table_cases)
      case full
      then show ?thesis using False grow_refl [OF Suc.prems] by (auto simp: Let_def valid_desc_def)
    next
      case (taken f v1)
      define v2 where "v2 = v1\<lparr>pwords := write_entry t ?i (of_nat f OR DESC_TABLE) (pwords v1)\<rparr>"
      note L = grow_link [OF Suc.prems table_index_less False taken(2-6) v2_def]
      obtain r v' N where r: "leaf_from n f va v2 = Some (r, v')" "grow (Suc n) t v2 v' N"
        "\<forall>leaf. r = Some leaf \<longrightarrow> existing_from (Suc n) (pwords v') t va = Some leaf"
        using step [of v2] growD(2) [OF L(1)] L(2-4) by auto
      have "leaf_from (Suc n) t va v = Some (r, v')"
        using False taken(1) r(1) by (simp add: Let_def valid_desc_def v2_def)
      then show ?thesis using r(3) grow_trans [OF L(1) r(2)] by blast
    qed
  qed
qed

definition owned_of :: "u64 option \<Rightarrow> nat set" where
  "owned_of x = (case x of Some d \<Rightarrow> if owned_desc d then {frame_of d} else {} | None \<Rightarrow> {})"

definition present :: "u64 \<Rightarrow> u64 option" where
  "present d = (if valid_desc d then Some d else None)"

lemma owned_of_present: "owned_of (present d) = (if owned_desc d then {frame_of d} else {})"
  by (simp add: owned_of_def present_def owned_desc_def)

definition same_path :: "nat \<Rightarrow> u64 \<Rightarrow> u64 \<Rightarrow> bool" where
  "same_path n va va' \<longleftrightarrow> (\<forall>l\<in>{LEAF_LEVEL - n..LEAF_LEVEL}. table_index va l = table_index va' l)"

lemma same_path_0: "same_path 0 va va' \<longleftrightarrow> table_index va LEAF_LEVEL = table_index va' LEAF_LEVEL"
  by (simp add: same_path_def)

lemma same_path_Suc:
  assumes "Suc n \<le> LEAF_LEVEL"
  shows "same_path (Suc n) va va' \<longleftrightarrow>
    table_index va (LEAF_LEVEL - Suc n) = table_index va' (LEAF_LEVEL - Suc n) \<and> same_path n va va'"
proof -
  have "{LEAF_LEVEL - Suc n..LEAF_LEVEL} = insert (LEAF_LEVEL - Suc n) {LEAF_LEVEL - n..LEAF_LEVEL}" using assms by auto
  then show ?thesis by (simp add: same_path_def)
qed

text \<open>A leaf table: its frames by entry.\<close>

lemma leaf_frames:
  "set (tree_frames 0 m t) = insert t (\<Union>i<ENTRIES. owned_of (present (read_entry m t i)))"
  "distinct (tree_frames 0 m t) \<longleftrightarrow> (\<forall>i<ENTRIES. t \<notin> owned_of (present (read_entry m t i)))
     \<and> (\<forall>i<ENTRIES. \<forall>j<ENTRIES. i \<noteq> j \<longrightarrow> owned_of (present (read_entry m t i)) \<inter> owned_of (present (read_entry m t j)) = {})"
proof -
  let ?g = "\<lambda>i. if owned_desc (read_entry m t i) then [frame_of (read_entry m t i)] else []"
  have g: "set (?g i) = owned_of (present (read_entry m t i))" for i by (simp add: owned_of_present)
  have "set (tree_frames 0 m t) = insert t (\<Union>i<ENTRIES. set (?g i))" by auto
  then show "set (tree_frames 0 m t) = insert t (\<Union>i<ENTRIES. owned_of (present (read_entry m t i)))" by (simp only: g)
  have "distinct (tree_frames 0 m t) \<longleftrightarrow> distinct (concat (map ?g [0..<ENTRIES])) \<and> (\<forall>i<ENTRIES. t \<notin> set (?g i))" by auto
  also have "\<dots> \<longleftrightarrow> (\<forall>i<ENTRIES. t \<notin> set (?g i)) \<and> (\<forall>i<ENTRIES. \<forall>j<ENTRIES. i \<noteq> j \<longrightarrow> set (?g i) \<inter> set (?g j) = {})"
    unfolding distinct_concat_upt by auto
  finally show "distinct (tree_frames 0 m t) \<longleftrightarrow> (\<forall>i<ENTRIES. t \<notin> owned_of (present (read_entry m t i)))
     \<and> (\<forall>i<ENTRIES. \<forall>j<ENTRIES. i \<noteq> j \<longrightarrow> owned_of (present (read_entry m t i)) \<inter> owned_of (present (read_entry m t j)) = {})"
    by (simp only: g)
qed

lemma lookup_leaf: "lookup_from 0 m t va = present (read_entry m t (table_index va LEAF_LEVEL))"
  by (simp add: present_def valid_desc_def Let_def)

lemma leaf_write_0:
  assumes ok: "distinct (tree_frames 0 m t)" and m': "m' = write_entry t (table_index va LEAF_LEVEL) d m"
    and fresh: "owned_of (present d) \<inter> (set (tree_frames 0 m t) - owned_of (lookup_from 0 m t va)) = {}"
  shows "set (tree_frames 0 m' t) = (set (tree_frames 0 m t) - owned_of (lookup_from 0 m t va)) \<union> owned_of (present d)"
    "distinct (tree_frames 0 m' t)"
    "lookup_from 0 m' t va' = (if same_path 0 va va' then present d else lookup_from 0 m t va')"
proof -
  let ?i = "table_index va LEAF_LEVEL" and ?o = "\<lambda>m i. owned_of (present (read_entry m t i))"
  have e: "read_entry m' t j = (if j = ?i then d else read_entry m t j)" if "j < ENTRIES" for j
    using that read_write_entry [of ?i j t d m] m' by auto
  have D: "t \<notin> ?o m j" "i < ENTRIES \<Longrightarrow> i \<noteq> j \<Longrightarrow> ?o m i \<inter> ?o m j = {}" if "j < ENTRIES" for i j
    using ok that unfolding leaf_frames(2) by blast+
  have U: "(\<Union>j<ENTRIES. F j) = F ?i \<union> (\<Union>j\<in>{..<ENTRIES} - {?i}. F j)" for F :: "nat \<Rightarrow> nat set"
    using table_index_less [of va LEAF_LEVEL] by blast
  have rest: "(\<Union>j\<in>{..<ENTRIES} - {?i}. ?o m' j) = (\<Union>j\<in>{..<ENTRIES} - {?i}. ?o m j)"
    by (intro SUP_cong) (auto simp: e)
  have old: "set (tree_frames 0 m t) - owned_of (lookup_from 0 m t va) = insert t (\<Union>j\<in>{..<ENTRIES} - {?i}. ?o m j)"
  proof -
    have "(\<Union>j\<in>{..<ENTRIES} - {?i}. ?o m j) \<inter> ?o m ?i = {}" using D(2) [OF table_index_less] by blast
    moreover have "t \<notin> ?o m ?i" using D(1) by simp
    ultimately show ?thesis unfolding leaf_frames(1) lookup_leaf U by blast
  qed
  show "set (tree_frames 0 m' t) = (set (tree_frames 0 m t) - owned_of (lookup_from 0 m t va)) \<union> owned_of (present d)"
    unfolding old leaf_frames(1) [of m'] U rest by (simp add: e Un_commute)
  have f: "t \<notin> owned_of (present d)" "j < ENTRIES \<Longrightarrow> j \<noteq> ?i \<Longrightarrow> owned_of (present d) \<inter> ?o m j = {}" for j
    using fresh unfolding old by blast+
  show "distinct (tree_frames 0 m' t)"
    unfolding leaf_frames(2)
  proof (intro conjI allI impI)
    fix j assume "j < ENTRIES"
    then show "t \<notin> ?o m' j" using D(1) f(1) e by auto
  next
    fix i j assume "i < ENTRIES" "j < ENTRIES" "i \<noteq> j"
    then show "?o m' i \<inter> ?o m' j = {}" using D(2) f(2) [of i] f(2) [of j] e by (auto simp: Int_commute)
  qed
  show "lookup_from 0 m' t va' = (if same_path 0 va va' then present d else lookup_from 0 m t va')"
    unfolding lookup_leaf same_path_0 by (auto simp: e)
qed

lemma leaf_write:
  assumes "vm_ok n t v" "n \<le> LEAF_LEVEL" "existing_from n (pwords v) t va = Some leaf"
    and "m' = write_entry leaf (table_index va LEAF_LEVEL) d (pwords v)"
    and "owned_of (present d) \<inter> (set (tree_frames n (pwords v) t) - owned_of (lookup_from n (pwords v) t va)) = {}"
  shows "set (tree_frames n m' t) = (set (tree_frames n (pwords v) t) - owned_of (lookup_from n (pwords v) t va)) \<union> owned_of (present d)
     \<and> distinct (tree_frames n m' t) \<and> kinds_ok n m' t \<and> leaf \<in> set (tree_frames n (pwords v) t)
     \<and> owned_of (lookup_from n (pwords v) t va) \<subseteq> set (tree_frames n (pwords v) t)
     \<and> (\<forall>va'. lookup_from n m' t va' = (if same_path n va va' then present d else lookup_from n (pwords v) t va'))"
  using assms
proof (induction n arbitrary: t)
  case 0
  have t: "leaf = t" using 0 by simp
  have "owned_of (lookup_from 0 (pwords v) t va) \<subseteq> set (tree_frames 0 (pwords v) t)"
    unfolding leaf_frames(1) lookup_leaf using table_index_less [of va LEAF_LEVEL] by blast
  then show ?case using leaf_write_0 [OF vm_okD(3) [OF 0(1)] 0(4) [unfolded t] 0(5)] t by auto
next
  case (Suc n)
  let ?m = "pwords v" and ?i = "table_index va (LEAF_LEVEL - Suc n)"
  let ?c = "frame_of (read_entry ?m t ?i)" and ?T = "set (tree_frames (Suc n) ?m t)"
  let ?old = "owned_of (lookup_from n ?m ?c va)"
  note O = vm_okD [OF Suc.prems(1)]
  have k: "read_entry ?m t ?i AND DESC_KIND = DESC_TABLE" and ex: "existing_from n ?m ?c va = Some leaf"
    using Suc.prems(3) by (auto simp: Let_def split: if_splits)
  note val = kind_table_valid [OF k]
  have lk: "lookup_from (Suc n) ?m t va = lookup_from n ?m ?c va" using k by (simp add: Let_def)
  have cT: "set (tree_frames n ?m ?c) \<subseteq> ?T" using child_frames [OF table_index_less val] .
  have fr: "owned_of (present d) \<inter> (?T - ?old) = {}" using Suc.prems(5) unfolding lk .
  have ok_c: "vm_ok n ?c v" using vm_ok_child [OF Suc.prems(1) table_index_less val] .
  have frc: "owned_of (present d) \<inter> (set (tree_frames n ?m ?c) - ?old) = {}" using fr cT by blast
  note IH = Suc.IH [OF ok_c Suc_leD [OF Suc.prems(2)] ex Suc.prems(4) frc]
  have I: "set (tree_frames n m' ?c) = (set (tree_frames n ?m ?c) - ?old) \<union> owned_of (present d)"
    "distinct (tree_frames n m' ?c)" "kinds_ok n m' ?c" "leaf \<in> set (tree_frames n ?m ?c)" "?old \<subseteq> set (tree_frames n ?m ?c)"
    "\<And>va'. lookup_from n m' ?c va' = (if same_path n va va' then present d else lookup_from n ?m ?c va')"
    using IH by blast+
  have "\<forall>f\<in>?T - set (tree_frames n ?m ?c). \<forall>a\<in>page f. m' a = ?m a"
  proof (intro ballI)
    fix f a assume f: "f \<in> ?T - set (tree_frames n ?m ?c)" "a \<in> page f"
    have "page f \<inter> page leaf = {}"
      by (rule owned_pages_disjoint [OF O(1)]) (use f(1) I(4) cT O(4) in blast)+
    then have "a \<notin> page leaf" using f(2) by blast
    then show "m' a = ?m a" unfolding Suc.prems(4) by (simp add: write_entry_outside)
  qed
  note K = child_changes [OF O(3,5) table_index_less val refl this]
  have oT: "owned_of (present d) \<inter> (?T - set (tree_frames n ?m ?c)) = {}" using fr I(5) by blast
  have "set (tree_frames (Suc n) m' t) = (?T - ?old) \<union> owned_of (present d)"
    unfolding K(1) I(1) using cT I(5) by blast
  moreover have "distinct (tree_frames (Suc n) m' t)"
    by (rule K(2) [OF I(2)]) (use I(1) oT in blast)
  moreover have "lookup_from (Suc n) m' t va' = (if same_path (Suc n) va va' then present d else lookup_from (Suc n) ?m t va')" for va'
  proof (cases "table_index va' (LEAF_LEVEL - Suc n) = ?i")
    case True
    then have "lookup_from (Suc n) m' t va' = lookup_from n m' ?c va'" using K(4) by presburger
    moreover have "lookup_from (Suc n) ?m t va' = lookup_from n ?m ?c va'" using True k by (simp add: Let_def)
    ultimately show ?thesis using I(6) True same_path_Suc [OF Suc.prems(2)] by auto
  next
    case False
    then have "lookup_from (Suc n) m' t va' = lookup_from (Suc n) ?m t va'" using K(4) by presburger
    then show ?thesis using False same_path_Suc [OF Suc.prems(2)] by auto
  qed
  ultimately show ?case unfolding lk using K(3) [OF I(3)] I(4,5) cT by blast
qed

lemma leaf_old:
  assumes "vm_ok n t v"
  shows "owned_of (lookup_from n (pwords v) t va) \<subseteq> set (tree_frames n (pwords v) t)"
  using assms
proof (induction n arbitrary: t)
  case 0
  show ?case unfolding leaf_frames(1) lookup_leaf using table_index_less [of va LEAF_LEVEL] by blast
next
  case (Suc n)
  let ?d = "read_entry (pwords v) t (table_index va (LEAF_LEVEL - Suc n))"
  show ?case
  proof (cases "?d AND DESC_KIND = DESC_TABLE")
    case True
    note val = kind_table_valid [OF True]
    have "lookup_from (Suc n) (pwords v) t va = lookup_from n (pwords v) (frame_of ?d) va" using True by (simp add: Let_def)
    then show ?thesis
      using Suc.IH [OF vm_ok_child [OF Suc.prems table_index_less val]] child_frames [OF table_index_less val, of n] by (simp only: subset_trans)
  qed (simp add: Let_def owned_of_def)
qed

section \<open>Spaces\<close>

definition space_frames :: "addr_space \<Rightarrow> vm \<Rightarrow> nat set" where
  "space_frames sp v = set (tree_frames LEAF_LEVEL (pwords v) (unat (root sp)))"

definition space_ok :: "addr_space \<Rightarrow> vm \<Rightarrow> bool" where
  "space_ok sp v \<longleftrightarrow> vm_ok LEAF_LEVEL (unat (root sp)) v"

text \<open>The part of an address that a walk looks at: bits 47 to 12.\<close>

definition same_page :: "u64 \<Rightarrow> u64 \<Rightarrow> bool" where
  "same_page va va' \<longleftrightarrow> va AND ADDR_MASK = va' AND ADDR_MASK"

lemma bit_addr_mask: "n < 64 \<Longrightarrow> bit ADDR_MASK n \<longleftrightarrow> 12 \<le> n \<and> n < 48"
proof -
  assume n: "n < 64"
  have eq: "ADDR_MASK = push_bit 12 (mask 36)" by (simp add: ADDR_MASK_def mask_eq_exp_minus_1 push_bit_eq_mult)
  show ?thesis unfolding eq using n by (auto simp: bit_push_bit_iff bit_mask_iff)
qed

lemma word_eq_bits: "(x :: u64) = y \<longleftrightarrow> (\<forall>n<64. bit x n = bit y n)"
  using bit_word_eqI [of x y] by auto

lemma same_page_bits: "same_page va va' \<longleftrightarrow> (\<forall>n. 12 \<le> n \<and> n < 48 \<longrightarrow> bit va n = bit va' n)"
proof -
  have "same_page va va' \<longleftrightarrow> (\<forall>n<64. bit (va AND ADDR_MASK) n = bit (va' AND ADDR_MASK) n)"
    unfolding same_page_def word_eq_bits by simp
  also have "\<dots> \<longleftrightarrow> (\<forall>n<64. 12 \<le> n \<and> n < 48 \<longrightarrow> bit va n = bit va' n)"
    using bit_addr_mask by (auto simp: bit_and_iff)
  finally show ?thesis by auto
qed

lemma all_shifted: "(\<forall>j<c. R (k + j)) \<longleftrightarrow> (\<forall>n. k \<le> n \<and> n < k + c \<longrightarrow> R n)" for k :: nat
proof (intro iffI allI impI)
  fix n assume a: "\<forall>j<c. R (k + j)" "k \<le> n \<and> n < k + c"
  then have "n - k < c" by linarith
  then show "R n" using a(1) [rule_format, of "n - k"] a(2) by simp
qed simp

lemma table_index_bits:
  assumes "l \<le> LEAF_LEVEL"
  shows "table_index va l = table_index va' l \<longleftrightarrow> (\<forall>n. 39 - 9 * l \<le> n \<and> n < 48 - 9 * l \<longrightarrow> bit va n = bit va' n)"
proof -
  let ?k = "39 - 9 * l"
  have m: "(0x1ff :: u64) = mask 9" by (simp add: mask_eq_exp_minus_1)
  have k: "?k + 9 = 48 - 9 * l" "?k + 9 \<le> 48" using assms by (auto simp: LEAF_LEVEL_def)
  have "table_index va l = table_index va' l \<longleftrightarrow> drop_bit ?k va AND mask 9 = drop_bit ?k va' AND mask 9"
    by (simp add: table_index_def m word_unat_eq_iff)
  also have "\<dots> \<longleftrightarrow> (\<forall>j<64. bit (drop_bit ?k va AND mask 9) j = bit (drop_bit ?k va' AND mask 9) j)"
    unfolding word_eq_bits by simp
  also have "\<dots> \<longleftrightarrow> (\<forall>j<9. bit va (?k + j) = bit va' (?k + j))"
  proof -
    have "(\<forall>j<64. (P j \<and> j < 9) = (Q j \<and> j < 9)) = (\<forall>j<9. P j = Q j)" for P Q :: "nat \<Rightarrow> bool"
      using less_trans [of _ "9 :: nat" 64] by fastforce
    then show ?thesis by (simp add: bit_and_iff bit_mask_iff bit_drop_bit_eq)
  qed
  also have "\<dots> \<longleftrightarrow> (\<forall>n. ?k \<le> n \<and> n < ?k + 9 \<longrightarrow> bit va n = bit va' n)"
    by (rule all_shifted)
  finally show ?thesis unfolding k(1) .
qed

lemma same_path_page: "same_path LEAF_LEVEL va va' \<longleftrightarrow> same_page va va'"
proof -
  have "{LEAF_LEVEL - LEAF_LEVEL..LEAF_LEVEL} = {0, 1, 2, 3}" by (auto simp: LEAF_LEVEL_def)
  then have "same_path LEAF_LEVEL va va' \<longleftrightarrow> (\<forall>l\<in>{0, 1, 2, 3}. table_index va l = table_index va' l)" by (simp only: same_path_def)
  also have "\<dots> \<longleftrightarrow> (\<forall>l\<in>{0, 1, 2, 3}. \<forall>n. 39 - 9 * l \<le> n \<and> n < 48 - 9 * l \<longrightarrow> bit va n = bit va' n)"
    using table_index_bits [of _ va va'] by (simp add: LEAF_LEVEL_def)
  also have "\<dots> \<longleftrightarrow> (\<forall>n. 12 \<le> n \<and> n < 48 \<longrightarrow> bit va n = bit va' n)"
  proof -
    have "12 \<le> n \<and> n < 48 \<longleftrightarrow> (39 \<le> n \<and> n < 48) \<or> (30 \<le> n \<and> n < 39) \<or> (21 \<le> n \<and> n < 30) \<or> (12 \<le> n \<and> n < 21)" for n :: nat
      by linarith
    then show ?thesis by (simp add: all_conj_distrib imp_disjL ball_simps)
  qed
  finally show ?thesis by (simp add: same_page_bits)
qed

lemma same_page_refl [simp]: "same_page va va"
  by (simp add: same_page_def)

lemma lookup_same_page: "same_page va va' \<Longrightarrow> lookup sp va m = lookup sp va' m"
proof -
  have "lookup_from n m t va = lookup_from n m t va'" if "\<forall>l\<in>{LEAF_LEVEL - n..LEAF_LEVEL}. table_index va l = table_index va' l" "n \<le> LEAF_LEVEL" for n t
    using that
  proof (induction n arbitrary: t)
    case (Suc n)
    have "table_index va (LEAF_LEVEL - Suc n) = table_index va' (LEAF_LEVEL - Suc n)" using Suc.prems by simp
    moreover have "{LEAF_LEVEL - n..LEAF_LEVEL} \<subseteq> {LEAF_LEVEL - Suc n..LEAF_LEVEL}" by auto
    then have "lookup_from n m t va = lookup_from n m t va'" for t using Suc.IH Suc.prems by (meson Suc_leD subsetD)
    ultimately show ?case by (simp add: Let_def)
  qed simp
  then show "same_page va va' \<Longrightarrow> lookup sp va m = lookup sp va' m"
    unfolding same_path_page [symmetric] same_path_def lookup_def by blast
qed

section \<open>Mapping one page\<close>

text \<open>A page is mapped: the tables grow by fresh frames, and the entry for the page is replaced.\<close>

lemma map_page_spec:
  assumes ok: "space_ok sp v" and d: "owned_of (present d) \<inter> space_frames sp v = {}" "\<forall>f\<in>owned_of (present d). owns (vpool v) f"
  shows "\<exists>r v' N. map_page sp va d v = Some (r, v') \<and> space_ok sp v'
      \<and> set (pool_used (vpool v')) = set (pool_used (vpool v)) \<union> (\<lambda>f. (f, 1)) ` N \<and> (\<forall>f\<in>N. \<not> owns (vpool v) f)
      \<and> (\<forall>a. (\<forall>f\<in>space_frames sp v \<union> N. a \<notin> page f) \<longrightarrow> pwords v' a = pwords v a)
      \<and> space_frames sp v' = (if r then (space_frames sp v - owned_of (lookup sp va (pwords v))) \<union> owned_of (present d) else space_frames sp v) \<union> N
      \<and> (\<forall>va'. lookup sp va' (pwords v') = (if r \<and> same_page va va' then present d else lookup sp va' (pwords v)))"
proof -
  let ?t = "unat (root sp)" and ?i = "table_index va LEAF_LEVEL"
  obtain r v1 N where r: "leaf_from LEAF_LEVEL ?t va v = Some (r, v1)" "grow LEAF_LEVEL ?t v v1 N"
      "\<And>leaf. r = Some leaf \<Longrightarrow> existing_from LEAF_LEVEL (pwords v1) ?t va = Some leaf"
    using leaf_from_spec [OF ok [unfolded space_ok_def], of va] by blast
  note G = growD [OF r(2)]
  have lk: "lookup sp va' (pwords v1) = lookup sp va' (pwords v)" for va' using G(7) by (simp add: lookup_def)
  have fr: "space_frames sp v1 = space_frames sp v \<union> N" using G(5) by (simp add: space_frames_def)
  have ok1: "space_ok sp v1" using G(2) by (simp add: space_ok_def)
  show ?thesis
  proof (cases r)
    case None
    then have "map_page sp va d v = Some (False, v1)" using r(1) by (simp add: map_page_def leaf_table_def)
    moreover have "\<forall>a. (\<forall>f\<in>space_frames sp v \<union> N. a \<notin> page f) \<longrightarrow> pwords v1 a = pwords v a"
      using G(6) unfolding space_frames_def by blast
    ultimately show ?thesis using ok1 G(3,4) fr lk
      by (intro exI [of _ False] exI [of _ v1] exI [of _ N] conjI) simp_all
  next
    case (Some leaf)
    define v' where "v' = v1\<lparr>pwords := write_entry leaf ?i d (pwords v1)\<rparr>"
    have m: "map_page sp va d v = Some (True, v')" using r(1) Some by (simp add: map_page_def leaf_table_def v'_def)
    have dN: "owned_of (present d) \<inter> N = {}" using d(2) G(4) by blast
    have fresh: "owned_of (present d) \<inter> (set (tree_frames LEAF_LEVEL (pwords v1) ?t) - owned_of (lookup_from LEAF_LEVEL (pwords v1) ?t va)) = {}"
      using d(1) dN fr unfolding space_frames_def by blast
    have pw: "pwords v' = write_entry leaf ?i d (pwords v1)" by (simp add: v'_def)
    note W = leaf_write [OF G(2) order_refl r(3) [OF Some] pw fresh]
    have oldN: "owned_of (lookup sp va (pwords v)) \<subseteq> space_frames sp v"
      using leaf_old [OF ok [unfolded space_ok_def]] unfolding space_frames_def lookup_def .
    have noN: "N \<inter> space_frames sp v = {}" using G(4) vm_okD(4) [OF G(1)] unfolding space_frames_def by blast
    have f': "space_frames sp v' = ((space_frames sp v - owned_of (lookup sp va (pwords v))) \<union> owned_of (present d)) \<union> N"
    proof -
      have "space_frames sp v' = (space_frames sp v1 - owned_of (lookup sp va (pwords v1))) \<union> owned_of (present d)"
        using W by (simp only: space_frames_def lookup_def)
      then show ?thesis unfolding fr lk using oldN noN by blast
    qed
    have "owns (vpool v') f" if "f \<in> space_frames sp v'" for f
      using that f' vm_okD(4) [OF G(1)] G(8) d(2) by (auto simp: v'_def space_frames_def)
    then have ok': "space_ok sp v'" using W vm_okD [OF G(2)] by (simp add: space_ok_def vm_ok_def space_frames_def v'_def)
    have leaf: "leaf \<in> space_frames sp v \<union> N" using W fr by (simp add: space_frames_def)
    have out: "pwords v' a = pwords v a" if "\<forall>f\<in>space_frames sp v \<union> N. a \<notin> page f" for a
    proof -
      have "pwords v' a = pwords v1 a" unfolding pw using that leaf by (intro write_entry_outside) auto
      then show ?thesis using G(6) that by (simp add: space_frames_def)
    qed
    have "lookup sp va' (pwords v') = (if same_page va va' then present d else lookup sp va' (pwords v))" for va'
      using W lk unfolding lookup_def same_path_page by simp
    then show ?thesis using m ok' G(3,4) out f'
      by (intro exI [of _ True] exI [of _ v'] exI [of _ N] conjI) (simp_all add: v'_def)
  qed
qed

text \<open>The descriptor of a page the space owns.\<close>

lemmas desc_defs = DESC_TABLE_def DESC_PAGE_def DESC_VALID_def DESC_KIND_def ADDR_MASK_def SW_OWNED_def AF_def SH_INNER_def
  AP_RW_EL0_def AP_RO_EL0_def AP_MASK_def PXN_def UXN_def ATTR_NORMAL_def ATTR_DEVICE_def ATTR_NORMAL_NC_def

lemma owned_page_desc:
  assumes "f mod 4096 = 0" "f < 2 ^ 48" "attrs AND ADDR_MASK = 0" "owned_desc attrs"
  shows "frame_of (of_nat f OR attrs) = f" "owned_desc (of_nat f OR attrs)"
  using frame_of_desc [OF assms(1-3)] valid_desc_or [of attrs "of_nat f"] assms(4)
  by (auto simp: owned_desc_def word_ao_dist or_eq_0_iff)

lemma data_page_desc:
  assumes "f mod 4096 = 0" "f < 2 ^ 48"
  shows "frame_of (user_data_page (of_nat f) OR SW_OWNED) = f" "owned_desc (user_data_page (of_nat f) OR SW_OWNED)"
proof -
  let ?a = "DESC_PAGE OR AF OR SH_INNER OR AP_RW_EL0 OR ATTR_NORMAL OR PXN OR UXN OR SW_OWNED"
  have e: "user_data_page (of_nat f) OR SW_OWNED = of_nat f OR ?a" by (simp add: user_data_page_def or.assoc)
  have "?a AND ADDR_MASK = 0" "owned_desc ?a"
    by (simp_all add: desc_defs owned_desc_def valid_desc_def)
  then show "frame_of (user_data_page (of_nat f) OR SW_OWNED) = f" "owned_desc (user_data_page (of_nat f) OR SW_OWNED)"
    unfolding e using owned_page_desc [OF assms] by blast+
qed

lemma present_owned: "owned_desc d \<Longrightarrow> present d = Some d \<and> owned_of (present d) = {frame_of d}"
  by (simp add: present_def owned_desc_def owned_of_def)

text \<open>The frames of a space against the rest \<open>U\<close> of the allocated blocks: no frame of the pool is both,
  and none is lost.\<close>

definition space_inv :: "(nat \<times> nat) set \<Rightarrow> addr_space \<Rightarrow> vm \<Rightarrow> bool" where
  "space_inv U sp v \<longleftrightarrow> space_ok sp v \<and> set (pool_used (vpool v)) = U \<union> (\<lambda>f. (f, 1)) ` space_frames sp v
     \<and> (\<forall>f\<in>space_frames sp v. (f, 1) \<notin> U)"

lemma space_okD:
  assumes "space_ok sp v"
  shows "pool_wf (vpool v)" "pool_low (vpool v)" "\<And>f. f \<in> space_frames sp v \<Longrightarrow> owns (vpool v) f"
  using vm_okD [OF assms [unfolded space_ok_def]] by (auto simp: space_frames_def)

lemma space_local:
  assumes "space_ok sp v" "\<forall>f\<in>space_frames sp v. \<forall>a\<in>page f. pwords v' a = pwords v a"
    and "pool_wf (vpool v')" "pool_low (vpool v')" "\<forall>f\<in>space_frames sp v. owns (vpool v') f"
  shows "space_ok sp v'" "space_frames sp v' = space_frames sp v" "lookup sp va (pwords v') = lookup sp va (pwords v)"
proof -
  have "pwords v' a = pwords v a" if "f \<in> set (tree_frames LEAF_LEVEL (pwords v) (unat (root sp)))" "a \<in> page f" for a f
    using assms(2) that by (simp add: space_frames_def)
  note T = tree_local [OF this]
  show "space_ok sp v'" "space_frames sp v' = space_frames sp v" "lookup sp va (pwords v') = lookup sp va (pwords v)"
    using T vm_okD [OF assms(1) [unfolded space_ok_def]] assms(3-5)
    by (auto simp: space_ok_def vm_ok_def space_frames_def lookup_def)
qed

text \<open>A fresh frame is filled and mapped, or given back.\<close>

lemma map_owned:
  assumes inv: "space_inv U sp v"
    and al: "pool_wf (vpool v2)" "pool_low (vpool v2)" "\<not> owns (vpool v) f"
      "set (pool_used (vpool v2)) = insert (f, 1) (set (pool_used (vpool v)))"
    and same: "\<And>a. a \<notin> page f \<Longrightarrow> pwords v2 a = pwords v a"
    and d: "frame_of d = f" "owned_desc d"
  shows "\<exists>r v3. map_page sp va d v2 = Some (r, v3)
      \<and> (if r then space_inv (U \<union> (\<lambda>f. (f, 1)) ` owned_of (lookup sp va (pwords v))) sp v3
          else space_inv U sp (v3\<lparr>vpool := pool_free (vpool v3) f\<rparr>))
      \<and> (\<forall>va'. lookup sp va' (pwords v3) = (if r \<and> same_page va va' then Some d else lookup sp va' (pwords v)))
      \<and> (\<forall>a\<in>page f. pwords v3 a = pwords v2 a) \<and> space_frames sp v - owned_of (lookup sp va (pwords v)) \<subseteq> space_frames sp v3"
proof -
  let ?o = "owned_of (lookup sp va (pwords v))"
  have I: "space_ok sp v" "set (pool_used (vpool v)) = U \<union> (\<lambda>f. (f, 1)) ` space_frames sp v" "\<forall>f\<in>space_frames sp v. (f, 1) \<notin> U"
    using inv by (auto simp: space_inv_def)
  note O = space_okD [OF I(1)]
  have own: "owns (vpool v2) g \<longleftrightarrow> owns (vpool v) g \<or> g = f" for g using al(4) by (auto simp: owns_def)
  have fF: "f \<notin> space_frames sp v" using al(3) O(3) by blast
  have disj: "page f \<inter> page g = {}" if "owns (vpool v2) g" "g \<noteq> f" for g
    using owned_pages_disjoint [OF al(1)] own that by blast
  have keep: "\<forall>g\<in>space_frames sp v. \<forall>a\<in>page g. pwords v2 a = pwords v a"
    using same disj O(3) own fF by blast
  have "\<forall>g\<in>space_frames sp v. owns (vpool v2) g" using O(3) own by blast
  note L = space_local [OF I(1) keep al(1,2) this]
  have ok2: "space_ok sp v2" "space_frames sp v2 = space_frames sp v" "\<And>va. lookup sp va (pwords v2) = lookup sp va (pwords v)"
    using L by blast+
  note P = present_owned [OF d(2)]
  obtain r v3 N where m: "map_page sp va d v2 = Some (r, v3)" "space_ok sp v3"
      "set (pool_used (vpool v3)) = set (pool_used (vpool v2)) \<union> (\<lambda>f. (f, 1)) ` N" "\<forall>f\<in>N. \<not> owns (vpool v2) f"
      "\<forall>a. (\<forall>f\<in>space_frames sp v2 \<union> N. a \<notin> page f) \<longrightarrow> pwords v3 a = pwords v2 a"
      "space_frames sp v3 = (if r then (space_frames sp v2 - owned_of (lookup sp va (pwords v2))) \<union> owned_of (present d) else space_frames sp v2) \<union> N"
      "\<forall>va'. lookup sp va' (pwords v3) = (if r \<and> same_page va va' then present d else lookup sp va' (pwords v2))"
    using map_page_spec [OF ok2(1), of d va] P d(1) fF ok2(2) own by auto
  have F3: "space_frames sp v3 = (if r then insert f (space_frames sp v - ?o) else space_frames sp v) \<union> N"
    using m(6) ok2 P d(1) by auto
  have oF: "?o \<subseteq> space_frames sp v" using leaf_old [OF I(1) [unfolded space_ok_def]] by (simp add: space_frames_def lookup_def)
  have N: "\<forall>g\<in>N. (g, 1) \<notin> U \<and> g \<noteq> f \<and> g \<notin> space_frames sp v" using m(4) own I(2) by (auto simp: owns_def)
  have fU: "(f, 1) \<notin> U" using al(3) I(2) by (auto simp: owns_def)
  have used3: "set (pool_used (vpool v3)) = U \<union> (\<lambda>f. (f, 1)) ` (insert f (space_frames sp v) \<union> N)" using m(3) al(4) I(2) by auto
  have "page f \<inter> page g = {}" if "g \<in> space_frames sp v \<union> N" for g
  proof (rule owned_pages_disjoint [OF space_okD(1) [OF m(2)]])
    show "owns (vpool v3) f" "owns (vpool v3) g" using used3 that by (auto simp: owns_def)
    show "f \<noteq> g" using that fF N by blast
  qed
  then have z: "\<forall>a\<in>page f. pwords v3 a = pwords v2 a" using m(5) ok2(2) by blast
  have "if r then space_inv (U \<union> (\<lambda>f. (f, 1)) ` ?o) sp v3 else space_inv U sp (v3\<lparr>vpool := pool_free (vpool v3) f\<rparr>)"
  proof (cases r)
    case True
    then have "insert f (space_frames sp v) \<union> N = ?o \<union> space_frames sp v3" using F3 oF by auto
    then have "set (pool_used (vpool v3)) = (U \<union> (\<lambda>f. (f, 1)) ` ?o) \<union> (\<lambda>f. (f, 1)) ` space_frames sp v3"
      unfolding used3 by auto
    moreover have "\<forall>g\<in>space_frames sp v3. (g, 1) \<notin> U \<union> (\<lambda>f. (f, 1)) ` ?o"
      using F3 True I(3) N fU fF oF by auto
    ultimately show ?thesis using True m(2) by (simp add: space_inv_def)
  next
    case False
    let ?v4 = "v3\<lparr>vpool := pool_free (vpool v3) f\<rparr>"
    have own3: "owns (vpool v3) f" using used3 by (auto simp: owns_def)
    note PF = pool_free_owned [OF space_okD(1) [OF m(2)] own3]
    have F4: "space_frames sp v3 = space_frames sp v \<union> N" using F3 False by simp
    have u4: "set (pool_used (vpool ?v4)) = U \<union> (\<lambda>f. (f, 1)) ` (space_frames sp v \<union> N)"
      using PF(2) used3 fU fF N by auto
    have o4: "\<forall>g\<in>space_frames sp v3. owns (vpool ?v4) g" using u4 F4 by (auto simp: owns_def)
    have "pool_wf (vpool ?v4)" "pool_low (vpool ?v4)" using PF(1) pool_free_low space_okD(2) [OF m(2)] by simp_all
    note K = space_local [OF m(2) _ this o4]
    have "space_ok sp ?v4" "space_frames sp ?v4 = space_frames sp v3" using K by simp_all
    then show ?thesis using False u4 F4 I(3) N by (auto simp: space_inv_def)
  qed
  moreover have "space_frames sp v - ?o \<subseteq> space_frames sp v3" using F3 by auto
  ultimately show ?thesis using m(1,7) ok2(3) P z by (intro exI [of _ r] exI [of _ v3] conjI) simp_all
qed

text \<open>A page that belongs to someone else.\<close>

lemma map_foreign:
  assumes inv: "space_inv U sp v" and old: "owned_of (lookup sp va (pwords v)) = {}" and d: "\<not> owned_desc d"
  shows "\<exists>r v'. map_page sp va d v = Some (r, v') \<and> space_inv U sp v'
      \<and> (\<forall>va'. lookup sp va' (pwords v') = (if r \<and> same_page va va' then present d else lookup sp va' (pwords v)))"
proof -
  have p: "owned_of (present d) = {}" using d by (simp add: owned_of_present)
  have I: "space_ok sp v" "set (pool_used (vpool v)) = U \<union> (\<lambda>f. (f, 1)) ` space_frames sp v" "\<forall>f\<in>space_frames sp v. (f, 1) \<notin> U"
    using inv by (auto simp: space_inv_def)
  obtain r v' N where m: "map_page sp va d v = Some (r, v')" "space_ok sp v'"
      "set (pool_used (vpool v')) = set (pool_used (vpool v)) \<union> (\<lambda>f. (f, 1)) ` N" "\<forall>f\<in>N. \<not> owns (vpool v) f"
      "space_frames sp v' = (if r then (space_frames sp v - owned_of (lookup sp va (pwords v))) \<union> owned_of (present d) else space_frames sp v) \<union> N"
      "\<forall>va'. lookup sp va' (pwords v') = (if r \<and> same_page va va' then present d else lookup sp va' (pwords v))"
    using map_page_spec [OF I(1), of d va] p by auto
  have "space_frames sp v' = space_frames sp v \<union> N" using m(5) old p by simp
  then have "space_inv U sp v'" using m(2-4) I by (auto simp: space_inv_def owns_def)
  then show ?thesis using m by blast
qed

lemma map_fresh_spec:
  assumes inv: "space_inv U sp v" and old: "owned_of (lookup sp va (pwords v)) = {}"
  shows "\<exists>r v'. map_fresh sp va v = Some (r, v') \<and> space_inv U sp v'
      \<and> (\<forall>va'. lookup sp va' (pwords v') =
           (case r of Some f \<Rightarrow> if same_page va va' then Some (user_data_page (of_nat f) OR SW_OWNED) else lookup sp va' (pwords v)
            | None \<Rightarrow> lookup sp va' (pwords v)))
      \<and> (\<forall>f. r = Some f \<longrightarrow> \<not> owns (vpool v) f \<and> f \<in> space_frames sp v' \<and> (\<forall>a\<in>page f. pwords v' a = 0))
      \<and> space_frames sp v \<subseteq> space_frames sp v'"
proof -
  have ok: "space_ok sp v" using inv by (simp add: space_inv_def)
  note O = space_okD [OF ok]
  from O(1,2) show ?thesis
  proof (cases rule: alloc_table_cases)
    case full
    then show ?thesis using inv by (intro exI [of _ None] exI [of _ v]) (simp add: map_fresh_def)
  next
    case (taken f v1)
    have "owns (vpool v1) f" using taken(5) by (simp add: owns_def)
    note fl = owned_frame [OF taken(2,3) this]
    let ?d = "user_data_page (of_nat f) OR SW_OWNED"
    note D = data_page_desc [OF fl]
    have same: "pwords v1 a = pwords v a" if "a \<notin> page f" for a using that taken(6) by (simp add: zero_frame_page)
    obtain r v3 where m: "map_page sp va ?d v1 = Some (r, v3)"
        "if r then space_inv U sp v3 else space_inv U sp (v3\<lparr>vpool := pool_free (vpool v3) f\<rparr>)"
        "\<forall>va'. lookup sp va' (pwords v3) = (if r \<and> same_page va va' then Some ?d else lookup sp va' (pwords v))"
        "\<forall>a\<in>page f. pwords v3 a = pwords v1 a" "space_frames sp v \<subseteq> space_frames sp v3"
      using map_owned [OF inv taken(2-5) same D, of va, unfolded old image_empty Un_empty_right Diff_empty] by blast
    show ?thesis
    proof (cases r)
      case True
      have "lookup sp va (pwords v3) = Some ?d" using m(3) True by simp
      then have "f \<in> space_frames sp v3"
        using leaf_old [of LEAF_LEVEL "unat (root sp)" v3 va] m(2) True D
        by (auto simp: space_inv_def space_ok_def space_frames_def lookup_def owned_of_def)
      then show ?thesis using True taken(1,4,6) m
        by (intro exI [of _ "Some f"] exI [of _ v3]) (simp add: map_fresh_def zero_frame_page)
    next
      case False
      then show ?thesis using taken(1) m
        by (intro exI [of _ None] exI [of _ "v3\<lparr>vpool := pool_free (vpool v3) f\<rparr>"]) (simp add: map_fresh_def space_frames_def)
    qed
  qed
qed

section \<open>Unmapping\<close>

lemma lookup_existing:
  "lookup_from n m t va = (case existing_from n m t va of
     None \<Rightarrow> None | Some leaf \<Rightarrow> present (read_entry m leaf (table_index va LEAF_LEVEL)))"
  by (induction n arbitrary: t) (auto simp: Let_def present_def valid_desc_def)

text \<open>What one turn of the loop of \<^verbatim>\<open>unmap\<close> does to a mapped page.\<close>

lemma unmap_one:
  assumes inv: "space_inv U sp v" and ex: "existing_leaf_table sp va (pwords v) = Some leaf"
    and d: "desc = read_entry (pwords v) leaf (table_index va LEAF_LEVEL)" "desc AND DESC_VALID \<noteq> 0"
    and v': "v' = v\<lparr>pwords := write_entry leaf (table_index va LEAF_LEVEL) 0 (pwords v),
                   vpool := (if desc AND SW_OWNED \<noteq> 0 then pool_free (vpool v) (frame_of desc) else vpool v)\<rparr>"
  shows "space_inv U sp v'" "lookup sp va' (pwords v') = (if same_page va va' then None else lookup sp va' (pwords v))"
    "lookup sp va (pwords v) = Some desc"
    "set (pool_used (vpool v')) = set (pool_used (vpool v)) - (\<lambda>f. (f, 1)) ` owned_of (lookup sp va (pwords v))"
proof -
  let ?t = "unat (root sp)"
  have I: "space_ok sp v" "set (pool_used (vpool v)) = U \<union> (\<lambda>f. (f, 1)) ` space_frames sp v" "\<forall>f\<in>space_frames sp v. (f, 1) \<notin> U"
    using inv by (auto simp: space_inv_def)
  note ok = I(1) [unfolded space_ok_def]
  have ex': "existing_from LEAF_LEVEL (pwords v) ?t va = Some leaf" using ex by (simp add: existing_leaf_table_def)
  show lk: "lookup sp va (pwords v) = Some desc" using ex' d by (simp add: lookup_def lookup_existing present_def valid_desc_def)
  have p0: "present 0 = None" by (simp add: present_def valid_desc_def)
  have pw: "pwords v' = write_entry leaf (table_index va LEAF_LEVEL) 0 (pwords v)" by (simp add: v')
  note W = leaf_write [OF ok order_refl ex' pw, unfolded p0, simplified owned_of_def option.simps Int_empty_left, OF refl, folded owned_of_def]
  let ?o = "owned_of (lookup sp va (pwords v))"
  have oF: "?o \<subseteq> space_frames sp v" using leaf_old [OF ok] by (simp add: space_frames_def lookup_def)
  have F': "space_frames sp v' = space_frames sp v - ?o" using W by (simp add: space_frames_def lookup_def)
  have po: "pool_wf (vpool v') \<and> pool_low (vpool v') \<and> set (pool_used (vpool v')) = set (pool_used (vpool v)) - (\<lambda>f. (f, 1)) ` ?o"
  proof (cases "desc AND SW_OWNED \<noteq> 0")
    case True
    then have o: "?o = {frame_of desc}" using lk d(2) by (simp add: owned_of_def owned_desc_def valid_desc_def)
    then have "owns (vpool v) (frame_of desc)" using oF space_okD(3) [OF I(1)] by blast
    note PF = pool_free_owned [OF space_okD(1) [OF I(1)] this]
    then show ?thesis using True o pool_free_low space_okD(2) [OF I(1)] by (simp add: v')
  next
    case False
    then have "?o = {}" using lk by (simp add: owned_of_def owned_desc_def)
    then show ?thesis using False space_okD [OF I(1)] by (simp add: v')
  qed
  then show "set (pool_used (vpool v')) = set (pool_used (vpool v)) - (\<lambda>f. (f, 1)) ` ?o" by blast
  have u': "set (pool_used (vpool v')) = U \<union> (\<lambda>f. (f, 1)) ` space_frames sp v'"
    using po I(2,3) F' oF by auto
  have "\<forall>f\<in>space_frames sp v'. owns (vpool v') f" using u' by (auto simp: owns_def)
  then have "space_ok sp v'" using W po by (simp add: space_ok_def vm_ok_def space_frames_def)
  then show "space_inv U sp v'" using u' I(3) F' by (auto simp: space_inv_def)
  show "lookup sp va' (pwords v') = (if same_page va va' then None else lookup sp va' (pwords v))"
    using W unfolding lookup_def same_path_page by simp
qed

end
