(* ===== verification/AddressSpace.thy ===== *)
theory AddressSpace
  imports PageTableProps
begin

unbundle bit_operations_syntax

text \<open>
  The theorems about address spaces: the range check against a byte-by-byte reference, mapping and
  unmapping of whole runs, creation and teardown, and the rights of a loaded segment.
\<close>

section \<open>Pages of a run\<close>

definition run_page :: "u64 \<Rightarrow> nat \<Rightarrow> u64" where
  "run_page pg i = pg + of_nat i * PAGE_4K"

lemma run_page_0 [simp]: "run_page pg 0 = pg"
  by (simp add: run_page_def)

lemma run_page_Suc: "run_page (pg + PAGE_4K) i = run_page pg (Suc i)"
  by (simp add: run_page_def algebra_simps)

lemma page_number: "same_page va va' \<longleftrightarrow> unat va div 4096 mod 2 ^ 36 = unat va' div 4096 mod 2 ^ 36"
proof -
  have e: "bit (unat w div 4096 mod 2 ^ 36) n \<longleftrightarrow> n < 36 \<and> bit w (n + 12)" for w :: u64 and n
  proof -
    have "unat w div 4096 mod 2 ^ 36 = take_bit 36 (drop_bit 12 (unat w))" by (simp add: take_bit_eq_mod drop_bit_eq_div)
    then show ?thesis by (simp add: bit_take_bit_iff bit_drop_bit_eq bit_unsigned_iff add.commute)
  qed
  have "unat va div 4096 mod 2 ^ 36 = unat va' div 4096 mod 2 ^ 36 \<longleftrightarrow> (\<forall>n<36. bit va (12 + n) = bit va' (12 + n))"
    unfolding bit_eq_iff e by (auto simp: add.commute)
  also have "\<dots> \<longleftrightarrow> same_page va va'" unfolding same_page_bits using all_shifted [of 36 "\<lambda>n. bit va n = bit va' n" 12] by simp
  finally show ?thesis by simp
qed

lemma run_page_number: "unat (run_page pg i) div 4096 mod 2 ^ 36 = (unat pg div 4096 + i) mod 2 ^ 36"
proof -
  have "unat (run_page pg i) = (unat pg + i * 4096) mod 2 ^ 64"
    by (simp add: run_page_def PAGE_4K_def unat_word_ariths unsigned_of_nat take_bit_eq_mod mod_simps)
  also have "\<dots> = (unat pg + i * 4096) mod (4096 * 2 ^ 52)" by simp
  finally have "unat (run_page pg i) div 4096 = ((unat pg + i * 4096) div 4096) mod 2 ^ 52"
    by (simp only: mod_mult2_eq)
  then show ?thesis by (simp add: mod_mod_cancel add.commute)
qed

lemma mod_add_inj:
  fixes p i j M :: nat
  assumes "(p + i) mod M = (p + j) mod M" "i < M" "j < M"
  shows "i = j"
proof -
  have *: "a = b" if "a \<le> b" "b < M" "(p + a) mod M = (p + b) mod M" for a b
  proof -
    have "M dvd b - a" using mod_eq_dvd_iff_nat [of "p + a" "p + b" M] that by simp
    moreover have "b - a < M" using that by linarith
    ultimately have "\<not> 0 < b - a" using nat_dvd_not_less by blast
    then show ?thesis using that by simp
  qed
  show ?thesis using * [of i j] * [of j i] assms by (cases "i \<le> j") simp_all
qed

text \<open>A run of at most \<open>2 ^ 36\<close> pages visits each page of the translated range at most once.\<close>

lemma run_pages_distinct:
  assumes "same_page (run_page pg i) (run_page pg j)" "i < 2 ^ 36" "j < 2 ^ 36"
  shows "i = j"
proof -
  let ?p = "unat pg div 4096"
  have "(?p + i) mod 2 ^ 36 = (?p + j) mod 2 ^ 36" using assms(1) unfolding page_number run_page_number .
  then show ?thesis using mod_add_inj assms(2,3) by blast
qed

section \<open>The range check\<close>

definition byte_ok :: "addr_space \<Rightarrow> (nat \<Rightarrow> u64) \<Rightarrow> bool \<Rightarrow> nat \<Rightarrow> bool" where
  "byte_ok sp m write a \<longleftrightarrow> (case lookup sp (of_nat a) m of
     None \<Rightarrow> False | Some desc \<Rightarrow> user_readable desc \<and> (write \<longrightarrow> user_writable desc))"

lemma range_from_iff: "range_from sp m write pg stop \<longleftrightarrow> (\<forall>k. pg + 4096 * k < stop \<longrightarrow> byte_ok sp m write (pg + 4096 * k))"
proof (induction sp m "write" pg stop rule: range_from.induct)
  case (1 sp m "write" pg stop)
  show ?case
  proof (cases "pg < stop \<and> byte_ok sp m write pg")
    case True
    have *: "(\<forall>k. P k) \<longleftrightarrow> P 0 \<and> (\<forall>k. P (Suc k))" for P :: "nat \<Rightarrow> bool" by (metis not0_implies_Suc)
    have "range_from sp m write pg stop = range_from sp m write (pg + 4096) stop"
      using True by (subst range_from.simps) (auto simp: byte_ok_def PAGE_4K_def split: option.splits)
    also have "\<dots> \<longleftrightarrow> (\<forall>k. pg + 4096 + 4096 * k < stop \<longrightarrow> byte_ok sp m write (pg + 4096 + 4096 * k))"
      using 1 True by (auto simp: byte_ok_def PAGE_4K_def split: option.splits)
    also have "\<dots> \<longleftrightarrow> (\<forall>k. pg + 4096 * k < stop \<longrightarrow> byte_ok sp m write (pg + 4096 * k))"
      using True by (subst (2) *) (simp add: algebra_simps)
    finally show ?thesis .
  next
    case False
    show ?thesis
    proof (cases "pg < stop")
      case True
      with False have b: "\<not> byte_ok sp m write (pg + 4096 * 0)" "pg + 4096 * 0 < stop" by simp_all
      then have "\<not> range_from sp m write pg stop"
        using True by (subst range_from.simps) (auto simp: byte_ok_def split: option.splits)
      then show ?thesis using b by blast
    qed (simp add: range_from.simps)
  qed
qed

lemma byte_ok_page:
  assumes "a div 4096 = b div 4096" "a < 2 ^ 64" "b < 2 ^ 64"
  shows "byte_ok sp m write a = byte_ok sp m write b"
proof -
  have "same_page (of_nat a) (of_nat b)"
    using assms by (simp add: page_number unsigned_of_nat take_bit_nat_eq_self)
  then show ?thesis unfolding byte_ok_def by (simp only: lookup_same_page)
qed

lemma same_div: "4096 dvd p \<Longrightarrow> p \<le> a \<Longrightarrow> a < p + 4096 \<Longrightarrow> p div 4096 = a div 4096" for p a :: nat
  by (elim dvdE) (auto simp: div_nat_eqI)

lemma user_range_ok_iff:
  "user_range_ok sp va len write m \<longleftrightarrow>
     unat va + len < 2 ^ 64 \<and> list_all (byte_ok sp m write) [unat va..<unat va + len]"
proof (cases "unat va + len < 2 ^ 64 \<and> len \<noteq> 0")
  case True
  let ?p = "unat va - unat va mod 4096" and ?stop = "unat va + len"
  have p: "unat (va AND NOT (PAGE_4K - 1)) = ?p"
  proof -
    have "va AND NOT (PAGE_4K - 1) = va AND NOT (mask 12)" by (simp add: PAGE_4K_def mask_eq_exp_minus_1)
    also have "\<dots> = push_bit 12 (drop_bit 12 va)" by (rule bit_word_eqI) (auto simp: bit_simps)
    finally have "unat (va AND NOT (PAGE_4K - 1)) = take_bit 64 (push_bit 12 (drop_bit 12 (unat va)))"
      using True [THEN conjunct1, THEN add_lessD1] by (simp add: unsigned_push_bit_eq unsigned_drop_bit_eq take_bit_nat_eq_self)
    also have "\<dots> = unat va div 4096 * 4096 mod 2 ^ 64" by (simp add: take_bit_eq_mod push_bit_eq_mult drop_bit_eq_div)
    also have "\<dots> = unat va div 4096 * 4096"
      by (rule mod_less) (rule le_less_trans [OF div_times_less_eq_dividend True [THEN conjunct1, THEN add_lessD1]])
    finally show ?thesis by (simp add: minus_mod_eq_div_mult)
  qed
  have le: "?p \<le> unat va" "unat va < ?p + 4096" "4096 dvd ?p" by (auto simp: minus_mod_eq_div_mult)
  have "(\<forall>k. ?p + 4096 * k < ?stop \<longrightarrow> byte_ok sp m write (?p + 4096 * k))
      \<longleftrightarrow> (\<forall>a. unat va \<le> a \<and> a < ?stop \<longrightarrow> byte_ok sp m write a)"
  proof (intro iffI allI impI)
    fix a assume all: "\<forall>k. ?p + 4096 * k < ?stop \<longrightarrow> byte_ok sp m write (?p + 4096 * k)" and a: "unat va \<le> a \<and> a < ?stop"
    let ?k = "(a - ?p) div 4096"
    have k: "?p + 4096 * ?k \<le> a" "a < ?p + 4096 * ?k + 4096" using a le(1) by linarith+
    have "(?p + 4096 * ?k) div 4096 = a div 4096" by (rule same_div [OF dvd_add [OF le(3) dvd_triv_left] k])
    moreover have "byte_ok sp m write (?p + 4096 * ?k)" using all le_less_trans [OF k(1)] a by blast
    moreover have "a < 2 ^ 64" using a True by linarith
    ultimately show "byte_ok sp m write a" using byte_ok_page le_less_trans [OF k(1)] by blast
  next
    fix k assume all: "\<forall>a. unat va \<le> a \<and> a < ?stop \<longrightarrow> byte_ok sp m write a" and k: "?p + 4096 * k < ?stop"
    show "byte_ok sp m write (?p + 4096 * k)"
    proof (cases k)
      case 0
      have "?p div 4096 = unat va div 4096" using le by (intro same_div) auto
      moreover have "byte_ok sp m write (unat va)" using all True by auto
      moreover have "unat va < 2 ^ 64" using True by linarith
      ultimately show ?thesis using byte_ok_page [of ?p "unat va"] le_less_trans [OF le(1)] 0 by simp
    next
      case (Suc n)
      then have "unat va \<le> ?p + 4096 * k" using le(2) by simp
      then show ?thesis using all k by blast
    qed
  qed
  then show ?thesis using True p unfolding user_range_ok_def range_from_iff by (auto simp: list_all_iff)
qed (auto simp: user_range_ok_def)



definition demo_sp :: addr_space where
  "demo_sp = \<lparr>root = 0x40000000, data_phys = 0, entry = 0, heap_next = USER_HEAP_BASE\<rparr>"

definition demo_words :: "nat \<Rightarrow> u64" where
  "demo_words a = 0x43"

lemma demo_lookup: "lookup sp va demo_words = Some 0x43"
  by (simp add: lookup_def LEAF_LEVEL_def numeral_3_eq_3 demo_words_def read_entry_def Let_def desc_defs)

lemma demo_range: "unat va + len < 2 ^ 64 \<Longrightarrow> user_range_ok sp va len False demo_words"
  by (simp add: user_range_ok_iff list_all_iff byte_ok_def demo_lookup user_readable_def desc_defs)


section \<open>Runs of pages\<close>

lemma length_filter_upt_Suc:
  "length (filter P [0..<Suc n]) = length (filter (\<lambda>i. P (Suc i)) [0..<n]) + (if P 0 then 1 else 0)"
proof -
  have "[0..<Suc n] = 0 # map Suc [0..<n]" by (simp add: upt_conv_Cons map_Suc_upt del: upt_Suc)
  then show ?thesis by (simp add: filter_map comp_def del: upt_Suc)
qed

lemma unmap_turn:
  assumes inv: "space_inv U sp v" and un: "unmap_from (Suc n) pg sp v = (removed, v')"
  shows "\<exists>v1 k. space_inv U sp v1 \<and> (\<forall>va. lookup sp va (pwords v1) = (if same_page pg va then None else lookup sp va (pwords v)))
    \<and> set (pool_used (vpool v1)) = set (pool_used (vpool v)) - (\<lambda>f. (f, 1)) ` owned_of (lookup sp pg (pwords v))
    \<and> unmap_from n (pg + PAGE_4K) sp v1 = (k, v') \<and> removed = k + (if lookup sp pg (pwords v) = None then 0 else 1)"
proof (cases "lookup sp pg (pwords v)")
  case None
  then have "unmap_from n (pg + PAGE_4K) sp v = (removed, v')"
    using un by (auto simp: lookup_def lookup_existing existing_leaf_table_def present_def valid_desc_def Let_def split: option.splits if_splits)
  then show ?thesis using None inv lookup_same_page [of pg _ sp "pwords v"]
    by (intro exI [of _ v] exI [of _ removed]) (auto simp: owned_of_def)
next
  case (Some desc)
  then obtain leaf where leaf: "existing_leaf_table sp pg (pwords v) = Some leaf"
      "desc = read_entry (pwords v) leaf (table_index pg LEAF_LEVEL)" "desc AND DESC_VALID \<noteq> 0"
    by (auto simp: lookup_def lookup_existing existing_leaf_table_def present_def valid_desc_def split: option.splits if_splits)
  define v1 where "v1 = v\<lparr>pwords := write_entry leaf (table_index pg LEAF_LEVEL) 0 (pwords v),
      vpool := (if desc AND SW_OWNED \<noteq> 0 then pool_free (vpool v) (frame_of desc) else vpool v)\<rparr>"
  note O = unmap_one [OF inv leaf v1_def]
  obtain k where "unmap_from n (pg + PAGE_4K) sp v1 = (k, v')" "removed = k + 1"
    using un leaf by (auto simp: Let_def v1_def split: prod.splits)
  then show ?thesis using O Some by (intro exI [of _ v1] exI [of _ k]) simp
qed

lemma unmap_from_spec:
  assumes "space_inv U sp v" "n \<le> 2 ^ 36" "unmap_from n pg sp v = (removed, v')"
  shows "space_inv U sp v'"
    "\<forall>va. lookup sp va (pwords v') = (if \<exists>i<n. same_page (run_page pg i) va then None else lookup sp va (pwords v))"
    "removed = length (filter (\<lambda>i. lookup sp (run_page pg i) (pwords v) \<noteq> None) [0..<n])"
    "set (pool_used (vpool v')) = set (pool_used (vpool v)) - (\<Union>i<n. (\<lambda>f. (f, 1)) ` owned_of (lookup sp (run_page pg i) (pwords v)))"
proof -
  have "space_inv U sp v'
    \<and> (\<forall>va. lookup sp va (pwords v') = (if \<exists>i<n. same_page (run_page pg i) va then None else lookup sp va (pwords v)))
    \<and> removed = length (filter (\<lambda>i. lookup sp (run_page pg i) (pwords v) \<noteq> None) [0..<n])
    \<and> set (pool_used (vpool v')) = set (pool_used (vpool v)) - (\<Union>i<n. (\<lambda>f. (f, 1)) ` owned_of (lookup sp (run_page pg i) (pwords v)))"
    using assms
  proof (induction n arbitrary: pg v removed)
    case (Suc n)
    let ?P = "\<lambda>w w'. \<forall>va. lookup sp va (pwords w') = (if same_page pg va then None else lookup sp va (pwords w))"
    obtain v1 k where v1: "space_inv U sp v1" "?P v v1"
        "set (pool_used (vpool v1)) = set (pool_used (vpool v)) - (\<lambda>f. (f, 1)) ` owned_of (lookup sp pg (pwords v))"
        "unmap_from n (pg + PAGE_4K) sp v1 = (k, v')" "removed = k + (if lookup sp pg (pwords v) = None then 0 else 1)"
      using unmap_turn [OF Suc.prems(1,3)] by blast
    have other: "lookup sp (run_page pg (Suc i)) (pwords v1) = lookup sp (run_page pg (Suc i)) (pwords v)" if "i < n" for i
      using v1(2) run_pages_distinct [of pg 0 "Suc i"] that Suc.prems(2) by auto
    note IH = Suc.IH [OF v1(1) _ v1(4), unfolded run_page_Suc]
    have n: "n \<le> 2 ^ 36" using Suc.prems(2) by simp
    note IH = IH [OF n]
    have "\<forall>va. lookup sp va (pwords v') = (if \<exists>i<Suc n. same_page (run_page pg i) va then None else lookup sp va (pwords v))"
      using IH v1(2) by (auto simp: Ex_less_Suc2)
    moreover have "removed = length (filter (\<lambda>i. lookup sp (run_page pg i) (pwords v) \<noteq> None) [0..<Suc n])"
    proof -
      have "filter (\<lambda>i. lookup sp (run_page pg (Suc i)) (pwords v1) \<noteq> None) [0..<n]
          = filter (\<lambda>i. lookup sp (run_page pg (Suc i)) (pwords v) \<noteq> None) [0..<n]"
        by (intro filter_cong) (simp_all add: other)
      then show ?thesis unfolding length_filter_upt_Suc using IH v1(5) by simp
    qed
    moreover have "set (pool_used (vpool v')) = set (pool_used (vpool v)) - (\<Union>i<Suc n. (\<lambda>f. (f, 1)) ` owned_of (lookup sp (run_page pg i) (pwords v)))"
    proof -
      have "(\<Union>i<n. (\<lambda>f. (f, 1 :: nat)) ` owned_of (lookup sp (run_page pg (Suc i)) (pwords v1)))
          = (\<Union>i<n. (\<lambda>f. (f, 1)) ` owned_of (lookup sp (run_page pg (Suc i)) (pwords v)))"
        by (intro SUP_cong) (simp_all add: other)
      then show ?thesis using IH v1(3) unfolding lessThan_Suc_eq_insert_0 by auto
    qed
    ultimately show ?case using IH by blast
  qed simp
  then show "space_inv U sp v'"
    "\<forall>va. lookup sp va (pwords v') = (if \<exists>i<n. same_page (run_page pg i) va then None else lookup sp va (pwords v))"
    "removed = length (filter (\<lambda>i. lookup sp (run_page pg i) (pwords v) \<noteq> None) [0..<n])"
    "set (pool_used (vpool v')) = set (pool_used (vpool v)) - (\<Union>i<n. (\<lambda>f. (f, 1)) ` owned_of (lookup sp (run_page pg i) (pwords v)))"
    by blast+
qed

text \<open>C18. Unmapping a run of pages removes exactly the mappings of its pages and keeps every other one, reports how
  many there were, and returns to the pool exactly the frames the space owned there: a page of a
  shared buffer, of a device or of the boot archive stays allocated to its owner.\<close>

theorem unmap_correct:
  assumes "space_inv U sp v" "unat pages \<le> 2 ^ 36" "unmap sp va pages v = (removed, v')"
  shows "space_inv U sp v'
    \<and> removed = length (filter (\<lambda>i. lookup sp (run_page va i) (pwords v) \<noteq> None) [0..<unat pages])
    \<and> lookup sp a (pwords v') = (if list_ex (\<lambda>i. same_page (run_page va i) a) [0..<unat pages] then None else lookup sp a (pwords v))
    \<and> set (pool_used (vpool v')) = set (pool_used (vpool v))
        - (\<Union>i<unat pages. (\<lambda>f. (f, 1)) ` owned_of (lookup sp (run_page va i) (pwords v)))"
  using unmap_from_spec [OF assms(1,2) assms(3) [unfolded unmap_def]] by (simp add: list_ex_iff Bex_def)

lemma map_anon_from_spec:
  assumes "space_inv U sp v" "n \<le> 2 ^ 36" "\<forall>i<n. owned_of (lookup sp (run_page pg i) (pwords v)) = {}"
  shows "\<exists>ok v' frs. map_anon_from n pg sp v = Some (ok, v') \<and> space_inv U sp v'
    \<and> length frs \<le> n \<and> (ok \<longleftrightarrow> length frs = n) \<and> distinct frs \<and> (\<forall>f\<in>set frs. \<not> owns (vpool v) f \<and> f \<in> space_frames sp v')
    \<and> (\<forall>i<length frs. lookup sp (run_page pg i) (pwords v') = Some (user_data_page (of_nat (frs ! i)) OR SW_OWNED))
    \<and> (\<forall>va. (\<forall>i<length frs. \<not> same_page (run_page pg i) va) \<longrightarrow> lookup sp va (pwords v') = lookup sp va (pwords v))
    \<and> space_frames sp v \<subseteq> space_frames sp v'"
  using assms
proof (induction n arbitrary: pg v)
  case 0
  then show ?case by (intro exI [of _ True] exI [of _ v] exI [of _ "[]"]) simp
next
  case (Suc n)
  have old: "owned_of (lookup sp pg (pwords v)) = {}" using Suc.prems(3) by (metis run_page_0 zero_less_Suc)
  obtain r v1 where r: "map_fresh sp pg v = Some (r, v1)" "space_inv U sp v1"
      "\<forall>va'. lookup sp va' (pwords v1) =
           (case r of Some f \<Rightarrow> if same_page pg va' then Some (user_data_page (of_nat f) OR SW_OWNED) else lookup sp va' (pwords v)
            | None \<Rightarrow> lookup sp va' (pwords v))"
      "\<forall>f. r = Some f \<longrightarrow> \<not> owns (vpool v) f \<and> f \<in> space_frames sp v1" "space_frames sp v \<subseteq> space_frames sp v1"
    using map_fresh_spec [OF Suc.prems(1) old] by blast
  show ?case
  proof (cases r)
    case None
    then show ?thesis using r by (intro exI [of _ False] exI [of _ v1] exI [of _ "[]"]) simp
  next
    case (Some f)
    have keep: "owns (vpool v1) g" if "owns (vpool v) g" for g
      using that r(2,5) Suc.prems(1) by (auto simp: owns_def space_inv_def)
    have ne: "\<not> same_page pg (run_page pg (Suc i))" if "i < n" for i
      using run_pages_distinct [of pg 0 "Suc i"] that Suc.prems(2) by auto
    have old1: "\<forall>i<n. owned_of (lookup sp (run_page (pg + PAGE_4K) i) (pwords v1)) = {}"
      using Suc.prems(3) r(3) Some ne by (simp add: run_page_Suc)
    have n: "n \<le> 2 ^ 36" using Suc.prems(2) by simp
    obtain ok v' frs where I: "map_anon_from n (pg + PAGE_4K) sp v1 = Some (ok, v')" "space_inv U sp v'"
      "length frs \<le> n" "ok \<longleftrightarrow> length frs = n" "distinct frs" "\<forall>f\<in>set frs. \<not> owns (vpool v1) f \<and> f \<in> space_frames sp v'"
      "\<forall>i<length frs. lookup sp (run_page (pg + PAGE_4K) i) (pwords v') = Some (user_data_page (of_nat (frs ! i)) OR SW_OWNED)"
      "\<forall>va. (\<forall>i<length frs. \<not> same_page (run_page (pg + PAGE_4K) i) va) \<longrightarrow> lookup sp va (pwords v') = lookup sp va (pwords v1)"
      "space_frames sp v1 \<subseteq> space_frames sp v'"
      using Suc.IH [OF r(2) n old1] by blast
    have "owns (vpool v1) f" using r(2,4) Some by (auto simp: space_inv_def owns_def)
    then have "distinct (f # frs)" using I(5,6) by auto
    moreover have "\<forall>g\<in>set (f # frs). \<not> owns (vpool v) g \<and> g \<in> space_frames sp v'" using I(6,9) r(4) Some keep by auto
    moreover have "lookup sp (run_page pg i) (pwords v') = Some (user_data_page (of_nat ((f # frs) ! i)) OR SW_OWNED)"
      if i: "i < length (f # frs)" for i
    proof (cases i)
      case 0
      have "\<not> same_page (run_page pg (Suc j)) pg" if "j < length frs" for j
        using ne [of j] that I(3) by (auto simp: same_page_def)
      then have "lookup sp pg (pwords v') = lookup sp pg (pwords v1)" using I(8) by (simp add: run_page_Suc)
      then show ?thesis using 0 r(3) Some by simp
    next
      case (Suc j)
      then show ?thesis using I(7) i by (simp add: run_page_Suc)
    qed
    moreover have "lookup sp va (pwords v') = lookup sp va (pwords v)" if va: "\<forall>i<length (f # frs). \<not> same_page (run_page pg i) va" for va
    proof -
      have "\<not> same_page pg va" "\<forall>i<length frs. \<not> same_page (run_page pg (Suc i)) va" using va by (auto simp: All_less_Suc2)
      then show ?thesis using I(8) r(3) Some by (simp add: run_page_Suc)
    qed
    moreover have "map_anon_from (Suc n) pg sp v = Some (ok, v')" using r(1) Some I(1) by simp
    ultimately show ?thesis using I(2-4,9) r(5)
      by (intro exI [of _ ok] exI [of _ v'] exI [of _ "f # frs"] conjI allI impI) auto
  qed
qed


section \<open>Creation and teardown\<close>

lemma space_inv_root: "root sp' = root sp \<Longrightarrow> space_inv U sp' v = space_inv U sp v \<and> lookup sp' va m = lookup sp va m"
  by (simp add: space_inv_def space_ok_def space_frames_def lookup_def)

lemma destroy_inv:
  assumes "space_inv U sp v"
  shows "set (pool_used (vpool (destroy sp v))) = U" "pool_wf (vpool (destroy sp v))"
proof -
  have o: "\<forall>f\<in>set (tree_frames LEAF_LEVEL (pwords v) (unat (root sp))). owns (vpool v) f"
    "distinct (tree_frames LEAF_LEVEL (pwords v) (unat (root sp)))" "pool_wf (vpool v)"
    using assms vm_okD [of LEAF_LEVEL "unat (root sp)" v] by (auto simp: space_inv_def space_ok_def)
  note F = pool_free_all [OF o(3,2,1)]
  show "set (pool_used (vpool (destroy sp v))) = U" "pool_wf (vpool (destroy sp v))"
    using F assms by (auto simp: destroy_def free_table_frames space_inv_def space_frames_def)
qed

lemma root_space:
  assumes "pool_wf (vpool v)" "pool_low (vpool v)" "alloc_table v = Some (Some r, v1)"
  shows "space_inv (set (pool_used (vpool v))) \<lparr>root = of_nat r, data_phys = dp, entry = en, heap_next = hn\<rparr> v1"
    "lookup \<lparr>root = of_nat r, data_phys = dp, entry = en, heap_next = hn\<rparr> va (pwords v1) = None" "unat (of_nat r :: u64) = r"
proof -
  from assms(1,2) obtain "pool_wf (vpool v1)" "pool_low (vpool v1)" "\<not> owns (vpool v) r"
      "set (pool_used (vpool v1)) = insert (r, 1) (set (pool_used (vpool v)))" "pwords v1 = zero_frame r (pwords v)"
    by (cases rule: alloc_table_cases) (use assms(3) in auto)
  note A = this
  have "r < 2 ^ 48" using owned_frame(2) [OF A(1,2), of r] A(4) by (simp add: owns_def)
  then show r: "unat (of_nat r :: u64) = r" by (simp add: unsigned_of_nat take_bit_nat_eq_self)
  have "read_entry (pwords v1) r i = 0" if "i < ENTRIES" for i
    using entry_in_page [OF that] by (simp add: A(5) read_entry_def zero_frame_page)
  note Z = tree_zero [OF this]
  show "space_inv (set (pool_used (vpool v))) \<lparr>root = of_nat r, data_phys = dp, entry = en, heap_next = hn\<rparr> v1"
    using A Z r by (auto simp: space_inv_def space_ok_def vm_ok_def space_frames_def owns_def)
  show "lookup \<lparr>root = of_nat r, data_phys = dp, entry = en, heap_next = hn\<rparr> va (pwords v1) = None"
    using Z r by (simp add: lookup_def)
qed

section \<open>Rights\<close>

text \<open>A page EL0 may write is not one it may execute, and the kernel executes none.\<close>

definition wx_ok :: "u64 \<Rightarrow> bool" where
  "wx_ok d \<longleftrightarrow> (user_writable d \<longrightarrow> d AND UXN \<noteq> 0) \<and> d AND PXN \<noteq> 0"

lemma attr_and:
  assumes "w AND ADDR_MASK = w" "X AND ADDR_MASK = 0"
  shows "(w OR a) AND X = a AND X"
proof -
  have "w AND X = w AND (X AND ADDR_MASK)" using assms(1) by (metis and.assoc and.commute)
  then have "w AND X = 0" using assms(2) by simp
  then show ?thesis by (simp add: word_ao_dist)
qed

text \<open>The descriptors the module makes, over the address of a page.\<close>

definition page_descs :: "u64 \<Rightarrow> u64 list" where
  "page_descs pa = [user_text_page pa, user_ro_page pa, user_data_page pa, user_device_page pa, user_dma_page pa]"

lemmas page_makers = user_text_page_def user_ro_page_def user_data_page_def user_device_page_def user_dma_page_def

lemma page_desc_attr:
  assumes "pa AND ADDR_MASK = pa" "d \<in> set (page_descs pa)"
  shows "wx_ok d" "wx_ok (d OR SW_OWNED)" "\<not> owned_desc d" "owned_desc (d OR SW_OWNED)" "frame_of (d OR SW_OWNED) = unat pa"
    "present d = Some d" "user_readable d"
proof -
  obtain a where a: "d = pa OR a" "a \<in> set (page_descs 0)"
    using assms(2) by (auto simp: page_descs_def page_makers or.assoc)
  have e: "d OR SW_OWNED = pa OR (a OR SW_OWNED)" by (simp add: a(1) or.assoc)
  have X: "(pa OR b) AND UXN = b AND UXN" "(pa OR b) AND PXN = b AND PXN" "(pa OR b) AND DESC_VALID = b AND DESC_VALID"
    "(pa OR b) AND AP_MASK = b AND AP_MASK" "(pa OR b) AND SW_OWNED = b AND SW_OWNED" "(pa OR b) AND push_bit 6 1 = b AND push_bit 6 1" for b
    by (rule attr_and [OF assms(1)], simp add: desc_defs)+
  note defs = wx_ok_def user_writable_def user_readable_def owned_desc_def valid_desc_def present_def
  show "wx_ok d" "wx_ok (d OR SW_OWNED)" "\<not> owned_desc d" "owned_desc (d OR SW_OWNED)" "present d = Some d" "user_readable d"
    unfolding e unfolding a(1) defs X using a(2) by (auto simp: page_descs_def page_makers desc_defs)
  have "(a OR SW_OWNED) AND ADDR_MASK = 0" using a(2) by (auto simp: page_descs_def page_makers desc_defs)
  then show "frame_of (d OR SW_OWNED) = unat pa" unfolding e frame_of_def using assms(1) by (simp add: word_ao_dist)
qed

lemma page_descs_mem:
  "segment_desc flags pa \<in> set (page_descs pa)" "user_data_page pa \<in> set (page_descs pa)"
  by (simp_all add: segment_desc_def page_descs_def)

definition space_wx :: "addr_space \<Rightarrow> vm \<Rightarrow> bool" where
  "space_wx sp v \<longleftrightarrow> (\<forall>va d. lookup sp va (pwords v) = Some d \<longrightarrow> wx_ok d)"

lemma owned_addr: "space_inv U sp v \<Longrightarrow> f \<in> space_frames sp v \<Longrightarrow> (of_nat f :: u64) AND ADDR_MASK = of_nat f"
  using owned_frame [of "vpool v" f] space_okD [of sp v] and_addr_mask [of f] by (simp add: space_inv_def)

section \<open>Segments\<close>

lemma give_back:
  assumes inv: "space_inv U sp v"
    and al: "pool_wf (vpool v1)" "pool_low (vpool v1)" "\<not> owns (vpool v) f"
      "set (pool_used (vpool v1)) = insert (f, 1) (set (pool_used (vpool v)))"
    and same: "\<And>a. a \<notin> page f \<Longrightarrow> pwords v1 a = pwords v a"
  shows "space_inv U sp (v1\<lparr>vpool := pool_free (vpool v1) f\<rparr>) \<and> lookup sp va (pwords v1) = lookup sp va (pwords v)"
proof -
  let ?w = "v1\<lparr>vpool := pool_free (vpool v1) f\<rparr>"
  have ok: "space_ok sp v" using inv by (simp add: space_inv_def)
  note O = space_okD [OF ok]
  have own1: "owns (vpool v1) f" using al(4) by (simp add: owns_def)
  note PF = pool_free_owned [OF al(1) own1]
  have u: "set (pool_used (vpool ?w)) = set (pool_used (vpool v))" using PF(2) al(3,4) by (auto simp: owns_def)
  have keep: "\<forall>g\<in>space_frames sp v. \<forall>a\<in>page g. pwords ?w a = pwords v a"
  proof (intro ballI)
    fix g a assume g: "g \<in> space_frames sp v" "a \<in> page g"
    have "page f \<inter> page g = {}"
      by (rule owned_pages_disjoint [OF al(1) own1]) (use g(1) O(3) al(3,4) in \<open>auto simp: owns_def\<close>)
    then show "pwords ?w a = pwords v a" using same g(2) by auto
  qed
  have w: "pool_wf (vpool ?w)" "pool_low (vpool ?w)" using PF(1) pool_free_low [OF al(2)] by simp_all
  have "\<forall>g\<in>space_frames sp v. owns (vpool ?w) g" using O(3) u by (auto simp: owns_def)
  note L = space_local [OF ok keep w this]
  show ?thesis using L(1,2) L(3) [of va] inv u by (simp add: space_inv_def)
qed

lemma map_segment_from_spec:
  assumes "space_inv U sp v" "space_wx sp v" "i + n \<le> 2 ^ 36"
    and "\<forall>j. i \<le> j \<and> j < i + n \<longrightarrow> owned_of (lookup sp (run_page vaddr j) (pwords v)) = {}"
    and "map_segment_from i n sp vaddr filesz flags fill v = Some (ok, v')"
  shows "space_inv U sp v' \<and> space_wx sp v'"
  using assms
proof (induction n arbitrary: i v)
  case (Suc n)
  let ?va = "vaddr + of_nat i * PAGE_4K"
  have ok: "space_ok sp v" using Suc.prems(1) by (simp add: space_inv_def)
  have old: "owned_of (lookup sp ?va (pwords v)) = {}" using Suc.prems(4) [rule_format, of i] by (simp add: run_page_def)
  show ?case
  proof (cases "USER_BASE \<le> ?va \<and> ?va < USER_IMAGE_END")
    case False
    then show ?thesis using Suc.prems by (auto simp: Let_def)
  next
    case inside: True
    from space_okD(1,2) [OF ok] show ?thesis
    proof (cases rule: alloc_table_cases)
      case full
      then show ?thesis using inside Suc.prems by (simp add: Let_def)
    next
      case (taken f v1)
      have own1: "owns (vpool v1) f" using taken(5) by (simp add: owns_def)
      note fl = owned_frame [OF taken(2,3) own1]
      let ?s = "i * unat PAGE_4K"
      let ?c = "if ?s < filesz then fill ?s (min (unat PAGE_4K) (filesz - ?s)) (pwords v1) else Some (Some (\<lambda>_. 0))"
      obtain c where c: "?c = Some c" using Suc.prems(5) inside taken(1) by (cases ?c) (auto simp: Let_def)
      show ?thesis
      proof (cases c)
        case None
        have "space_inv U sp (v1\<lparr>vpool := pool_free (vpool v1) f\<rparr>) \<and> space_wx sp (v1\<lparr>vpool := pool_free (vpool v1) f\<rparr>)"
          using give_back [OF Suc.prems(1) taken(2-5)] taken(6) Suc.prems(2) by (simp add: space_wx_def zero_frame_page)
        then show ?thesis using Suc.prems(5) inside taken(1) c None by (simp add: Let_def)
      next
        case (Some content)
        define v2 where "v2 = v1\<lparr>pwords := (\<lambda>a. if f \<le> a \<and> a < f + 8 * ENTRIES then content (a - f) else pwords v1 a)\<rparr>"
        let ?d = "segment_desc flags (of_nat f) OR SW_OWNED"
        note D = page_desc_attr [OF and_addr_mask [OF fl] page_descs_mem(1) [of flags]]
        have fd: "frame_of ?d = f" using D(5) fl(2) by (simp add: unsigned_of_nat take_bit_nat_eq_self)
        have same: "pwords v2 a = pwords v a" if "a \<notin> page f" for a
          using that taken(6) by (auto simp: v2_def zero_frame_page page_def PAGE_SIZE_def ENTRIES_def)
        have p2: "vpool v2 = vpool v1" by (simp add: v2_def)
        obtain r v3 where m: "map_page sp ?va ?d v2 = Some (r, v3)"
            "if r then space_inv U sp v3 else space_inv U sp (v3\<lparr>vpool := pool_free (vpool v3) f\<rparr>)"
            "\<forall>va'. lookup sp va' (pwords v3) = (if r \<and> same_page ?va va' then Some ?d else lookup sp va' (pwords v))"
          using map_owned [OF Suc.prems(1) _ _ taken(4) _ same fd D(4), of ?va, unfolded old image_empty Un_empty_right Diff_empty] taken(2,3,5) unfolding p2 by blast
        have wx: "space_wx sp v3" using m(3) Suc.prems(2) D(2) by (auto simp: space_wx_def split: if_splits)
        show ?thesis
        proof (cases r)
          case True
          have "\<not> same_page ?va (run_page vaddr j)" if "Suc i \<le> j" "j < Suc i + n" for j
            using run_pages_distinct [of vaddr i j] that Suc.prems(3) by (auto simp: run_page_def)
          then have "\<forall>j. i + 1 \<le> j \<and> j < i + 1 + n \<longrightarrow> owned_of (lookup sp (run_page vaddr j) (pwords v3)) = {}"
            using m(3) Suc.prems(4) by auto
          then show ?thesis using Suc.IH [OF _ wx, of "i + 1"] m True Suc.prems(3,5) inside taken(1) c Some
            by (simp add: Let_def v2_def)
        next
          case False
          then show ?thesis using Suc.prems(5) m inside taken(1) c Some wx by (auto simp: Let_def v2_def space_wx_def)
        qed
      qed
    qed
  qed
qed auto

section \<open>The life of a space\<close>

text \<open>Every operation on a live space as a step. The pages of others carry no ownership bit; a fresh page goes
  where the space owns none.\<close>

inductive space_step :: "addr_space \<Rightarrow> vm \<Rightarrow> vm \<Rightarrow> bool" for sp where
  foreign: "map_page sp va d v = Some (r, v') \<Longrightarrow> pa AND ADDR_MASK = pa \<Longrightarrow> d \<in> set (page_descs pa) \<Longrightarrow>
    owned_of (lookup sp va (pwords v)) = {} \<Longrightarrow> space_step sp v v'"
| stack: "grow_stack sp far v = Some (r, v') \<Longrightarrow> space_step sp v v'"
| anon: "map_anon_at sp va pages v = Some (r, v') \<Longrightarrow> unat pages \<le> 2 ^ 36 \<Longrightarrow>
    \<forall>i<unat pages. owned_of (lookup sp (run_page va i) (pwords v)) = {} \<Longrightarrow> space_step sp v v'"
| segment: "map_segment_with sp vaddr filesz memsz flags fill v = Some (r, v') \<Longrightarrow> memsz \<le> 2 ^ 48 \<Longrightarrow>
    \<forall>i<2 ^ 36. owned_of (lookup sp (run_page vaddr i) (pwords v)) = {} \<or> memsz \<le> i * 4096 \<Longrightarrow> space_step sp v v'"
| release: "unmap sp va pages v = (n, v') \<Longrightarrow> unat pages \<le> 2 ^ 36 \<Longrightarrow> space_step sp v v'"

lemma fresh_wx:
  assumes inv: "space_inv U sp v'" and wx: "space_wx sp v"
    and new: "\<And>va d. lookup sp va (pwords v') = Some d \<Longrightarrow>
      lookup sp va (pwords v) = Some d \<or> (\<exists>f\<in>space_frames sp v'. d = user_data_page (of_nat f) OR SW_OWNED)"
  shows "space_wx sp v'"
  unfolding space_wx_def
proof (intro allI impI)
  fix va d assume d: "lookup sp va (pwords v') = Some d"
  show "wx_ok d"
    using new [OF d] wx page_desc_attr(2) [OF owned_addr [OF inv] page_descs_mem(2)] by (auto simp: space_wx_def)
qed

lemma map_fresh_step:
  assumes "space_inv U sp v" "space_wx sp v" "map_fresh sp va v = Some (r, v')" "owned_of (lookup sp va (pwords v)) = {}"
  shows "space_inv U sp v' \<and> space_wx sp v'"
proof -
  note F = map_fresh_spec [OF assms(1,4)]
  have inv: "space_inv U sp v'" using F assms(3) by auto
  have "lookup sp va' (pwords v) = Some d \<or> (\<exists>f\<in>space_frames sp v'. d = user_data_page (of_nat f) OR SW_OWNED)"
    if "lookup sp va' (pwords v') = Some d" for va' d
    using F assms(3) that by (auto split: option.splits if_splits)
  from fresh_wx [OF inv assms(2) this] inv show ?thesis by blast
qed

lemma space_step_inv:
  assumes "space_step sp v v'" "space_inv U sp v" "space_wx sp v"
  shows "space_inv U sp v' \<and> space_wx sp v'"
  using assms(1)
proof (cases rule: space_step.cases)
  case (foreign va d r pa)
  note D = page_desc_attr [OF foreign(2,3)]
  show ?thesis using map_foreign [OF assms(2) foreign(4) D(3)] foreign(1) assms(3) D(1,6)
    by (auto simp: space_wx_def split: if_splits)
next
  case (stack far r)
  let ?va = "far AND NOT (PAGE_4K - 1)"
  show ?thesis
  proof (cases "v' = v")
    case False
    then obtain r' where "map_fresh sp ?va v = Some (r', v')" "lookup sp ?va (pwords v) = None"
      using stack by (auto simp: grow_stack_def Let_def split: if_splits option.splits)
    then show ?thesis using map_fresh_step [OF assms(2,3)] by (simp add: owned_of_def)
  qed (use assms in simp)
next
  case (anon va pages r)
  note M = map_anon_from_spec [OF assms(2) anon(2,3)]
  have inv: "space_inv U sp v'" using M anon(1) by (auto simp: map_anon_at_def)
  have "lookup sp a (pwords v) = Some d \<or> (\<exists>f\<in>space_frames sp v'. d = user_data_page (of_nat f) OR SW_OWNED)"
    if d: "lookup sp a (pwords v') = Some d" for a d
  proof -
    obtain ok w frs where w: "map_anon_from (unat pages) va sp v = Some (ok, w)" "\<forall>f\<in>set frs. f \<in> space_frames sp w"
        "\<forall>i<length frs. lookup sp (run_page va i) (pwords w) = Some (user_data_page (of_nat (frs ! i)) OR SW_OWNED)"
        "(\<forall>i<length frs. \<not> same_page (run_page va i) a) \<longrightarrow> lookup sp a (pwords w) = lookup sp a (pwords v)"
      using M by blast
    have "w = v'" using w(1) anon(1) by (simp add: map_anon_at_def)
    note frs = w(2-4) [unfolded this]
    show ?thesis
    proof (cases "\<exists>i<length frs. same_page (run_page va i) a")
      case True
      then obtain i where i: "i < length frs" "same_page (run_page va i) a" by blast
      then have "d = user_data_page (of_nat (frs ! i)) OR SW_OWNED" using frs(2) d lookup_same_page [OF i(2), of sp "pwords v'"] by simp
      moreover have "frs ! i \<in> space_frames sp v'" using frs(1) i(1) by simp
      ultimately show ?thesis by blast
    qed (use frs(3) d in auto)
  qed
  from fresh_wx [OF inv assms(3) this] inv show ?thesis by blast
next
  case (segment vaddr filesz memsz flags fill r)
  let ?n = "(memsz + unat PAGE_4K - 1) div unat PAGE_4K"
  have n: "?n \<le> 2 ^ 36" "\<forall>j<?n. j * 4096 < memsz" using segment(2) by (auto simp: PAGE_4K_def)
  then have "\<forall>j. 0 \<le> j \<and> j < 0 + ?n \<longrightarrow> owned_of (lookup sp (run_page vaddr j) (pwords v)) = {}"
  proof (intro allI impI)
    fix j assume "0 \<le> j \<and> j < 0 + ?n"
    then have j: "j < ?n" by simp
    then have "j < 2 ^ 36" "j * 4096 < memsz" using n by (auto intro: less_le_trans)
    then show "owned_of (lookup sp (run_page vaddr j) (pwords v)) = {}" using segment(3) by auto
  qed
  from map_segment_from_spec [OF assms(2,3) _ this, of filesz flags fill] show ?thesis
    using segment(1) n(1) assms(2,3) by (auto simp: map_segment_with_def split: if_splits)
next
  case (release va pages n)
  note R = unmap_from_spec [OF assms(2) release(2) release(1) [unfolded unmap_def]]
  then show ?thesis using assms(3) by (auto simp: space_wx_def split: if_splits)
qed

lemma space_steps_inv:
  "(space_step sp)\<^sup>*\<^sup>* v v' \<Longrightarrow> space_inv U sp v \<Longrightarrow> space_wx sp v \<Longrightarrow> space_inv U sp v' \<and> space_wx sp v'"
  by (induction rule: rtranclp_induct) (auto dest: space_step_inv)

lemma stack_page_other: "\<not> same_page USER_DATA_VA (USER_STACK_TOP - PAGE_4K)"
  by (simp add: same_page_def ADDR_MASK_def USER_DATA_VA_def USER_STACK_TOP_def PAGE_4K_def)

lemma populate_spec:
  assumes "space_inv U sp v" "space_wx sp v" "\<And>va. lookup sp va (pwords v) = None"
  shows "\<exists>r v'. populate sp v = Some (r, v') \<and> space_inv U sp v' \<and> space_wx sp v'
    \<and> (\<forall>sp'. r = Some sp' \<longrightarrow> root sp' = root sp
        \<and> lookup sp USER_DATA_VA (pwords v') = Some (user_data_page (data_phys sp') OR SW_OWNED)
        \<and> (\<forall>va. lookup sp va (pwords v') \<noteq> None \<longleftrightarrow> same_page USER_DATA_VA va \<or> same_page (USER_STACK_TOP - PAGE_4K) va))"
proof -
  have none: "owned_of (lookup sp va (pwords v)) = {}" for va using assms(3) by (simp add: owned_of_def)
  obtain r v1 where r: "map_fresh sp USER_DATA_VA v = Some (r, v1)"
      "\<forall>va'. lookup sp va' (pwords v1) =
           (case r of Some f \<Rightarrow> if same_page USER_DATA_VA va' then Some (user_data_page (of_nat f) OR SW_OWNED) else lookup sp va' (pwords v)
            | None \<Rightarrow> lookup sp va' (pwords v))"
    using map_fresh_spec [OF assms(1) none, of USER_DATA_VA] by blast
  note I1 = map_fresh_step [OF assms(1,2) r(1) none]
  show ?thesis
  proof (cases r)
    case None
    then show ?thesis using r(1) I1 by (intro exI [of _ None] exI [of _ v1]) (simp add: populate_def)
  next
    case (Some f)
    let ?va = "USER_STACK_TOP - PAGE_4K"
    have none1: "owned_of (lookup sp ?va (pwords v1)) = {}"
      using r(2) Some assms(3) stack_page_other by (simp add: owned_of_def)
    obtain q v2 where q: "map_fresh sp ?va v1 = Some (q, v2)"
      "\<forall>va'. lookup sp va' (pwords v2) =
           (case q of Some f \<Rightarrow> if same_page ?va va' then Some (user_data_page (of_nat f) OR SW_OWNED) else lookup sp va' (pwords v1)
            | None \<Rightarrow> lookup sp va' (pwords v1))"
      using map_fresh_spec [OF I1 [THEN conjunct1] none1] by blast
    note I2 = map_fresh_step [OF I1 [THEN conjunct1] I1 [THEN conjunct2] q(1) none1]
    have st: "stack_pages 1 USER_STACK_PAGES sp v1 = Some (q \<noteq> None, v2)"
      using q(1) by (simp add: USER_STACK_PAGES_def numeral_eq_Suc split: option.splits)
    have "lookup sp USER_DATA_VA (pwords v2) = Some (user_data_page (of_nat f) OR SW_OWNED)" if "q \<noteq> None"
      using q(2) r(2) Some stack_page_other that by (auto simp: same_page_def)
    moreover have "lookup sp va (pwords v2) \<noteq> None \<longleftrightarrow> same_page USER_DATA_VA va \<or> same_page ?va va" if "q \<noteq> None" for va
      using q(2) r(2) Some that assms(3) by (auto split: if_splits)
    ultimately show ?thesis using r(1) Some st I2
      by (intro exI [of _ "if q \<noteq> None then Some (sp\<lparr>data_phys := of_nat f\<rparr>) else None"] exI [of _ v2]) (auto simp: populate_def)
  qed
qed

lemma space_new_spec:
  assumes "pool_wf (vpool v)" "pool_low (vpool v)"
  shows "\<exists>r v'. space_new v = Some (r, v') \<and>
    (case r of
       None \<Rightarrow> set (pool_used (vpool v')) = set (pool_used (vpool v)) \<and> pool_wf (vpool v')
     | Some sp \<Rightarrow> space_inv (set (pool_used (vpool v))) sp v' \<and> space_wx sp v'
         \<and> lookup sp USER_DATA_VA (pwords v') = Some (user_data_page (data_phys sp) OR SW_OWNED)
         \<and> (\<forall>va. lookup sp va (pwords v') \<noteq> None \<longleftrightarrow> same_page USER_DATA_VA va \<or> same_page (USER_STACK_TOP - PAGE_4K) va))"
  using assms
proof (cases rule: alloc_table_cases)
  case full
  then show ?thesis using assms by (simp add: space_new_def)
next
  case (taken f v1)
  let ?sp = "\<lparr>root = of_nat f, data_phys = 0, entry = 0, heap_next = USER_HEAP_BASE\<rparr>"
  note R = root_space(1,2) [OF assms taken(1), where dp = 0 and en = 0 and hn = USER_HEAP_BASE] root_space(3) [OF assms taken(1)]
  have "space_wx ?sp v1" using R(2) by (simp add: space_wx_def)
  from populate_spec [OF R(1) this R(2)] obtain r v2 where p: "populate ?sp v1 = Some (r, v2)"
      "space_inv (set (pool_used (vpool v))) ?sp v2" "space_wx ?sp v2"
      "\<forall>sp'. r = Some sp' \<longrightarrow> root sp' = root ?sp
        \<and> lookup ?sp USER_DATA_VA (pwords v2) = Some (user_data_page (data_phys sp') OR SW_OWNED)
        \<and> (\<forall>va. lookup ?sp va (pwords v2) \<noteq> None \<longleftrightarrow> same_page USER_DATA_VA va \<or> same_page (USER_STACK_TOP - PAGE_4K) va)"
    by blast
  show ?thesis
  proof (cases r)
    case None
    have "free_table LEAF_LEVEL f v2 = destroy ?sp v2" using R(3) by (simp add: destroy_def)
    then show ?thesis using None taken(1) p(1) destroy_inv [OF p(2)]
      by (intro exI [of _ None] exI [of _ "destroy ?sp v2"]) (simp add: space_new_def)
  next
    case (Some sp)
    then have e: "root sp = root ?sp" using p(4) by blast
    have l: "lookup sp va m = lookup ?sp va m" for va m using space_inv_root [OF e] by blast
    have i: "space_inv U sp v2 = space_inv U ?sp v2" for U using space_inv_root [OF e] by blast
    have w: "space_wx sp v2 = space_wx ?sp v2" by (simp only: space_wx_def l)
    have "space_new v = Some (Some sp, v2)" using Some taken(1) p(1) by (simp add: space_new_def)
    then show ?thesis using p(2-4) Some
      by (intro exI [of _ "Some sp"] exI [of _ v2]) (simp only: option.case i w l simp_thms)
  qed
qed

definition demo_vm :: vm where
  "demo_vm = \<lparr>vpool = [\<lparr>base = 0x40000000, frames = 4, longest = [2, 1, 2, 0, 1, 1, 1]\<rparr>], pwords = (\<lambda>_. 0)\<rparr>"

lemma demo_vm_ok:
  "space_inv {} demo_sp demo_vm" "space_wx demo_sp demo_vm" "lookup demo_sp va (pwords demo_vm) = None"
  "pool_wf (vpool demo_vm)" "pool_low (vpool demo_vm)"
proof -
  define b where "b = \<lparr>base = 0x40000000, frames = 4, longest = [2, 1, 2, 0, 1, 1, 1]\<rparr>"
  have w: "buddy_wf b" "buddy_tree b = Split (Split Used Free) Free" "order b = 2"
    using buddy_wfI [of b 2 "Split (Split Used Free) Free"]
    by (simp_all add: b_def is_page_aligned_def PAGE_SIZE_def numeral_2_eq_2)
  have u: "used b = [(0x40000000, 1)]" using w by (simp add: used_def b_def PAGE_SIZE_def)
  have v: "vpool demo_vm = [b]" "pwords demo_vm = (\<lambda>_. 0)" by (simp_all add: demo_vm_def b_def)
  show pw: "pool_wf (vpool demo_vm)" using w(1) v by simp
  show pl: "pool_low (vpool demo_vm)" by (simp add: v pool_low_def b_def PAGE_SIZE_def)
  have "read_entry (pwords demo_vm) t i = 0" for t i by (simp add: v read_entry_def)
  note Z = tree_zero [OF this]
  have rt: "unat (root demo_sp) = 0x40000000" by (simp add: demo_sp_def)
  show lk: "lookup demo_sp va (pwords demo_vm) = None" for va using Z by (simp add: lookup_def)
  then show "space_wx demo_sp demo_vm" by (simp add: space_wx_def)
  show "space_inv {} demo_sp demo_vm"
    using pw pl Z rt u v by (simp add: space_inv_def space_ok_def vm_ok_def space_frames_def owns_def pool_used_def)
qed

theorem unmap_correct_witness:
  "\<exists>removed v'. unmap demo_sp USER_HEAP_BASE 3 demo_vm = (removed, v') \<and> space_inv {} demo_sp v' \<and> removed = 0"
proof -
  obtain removed v' where u: "unmap demo_sp USER_HEAP_BASE 3 demo_vm = (removed, v')" by fastforce
  have "unat (3 :: u64) \<le> 2 ^ 36" by simp
  from unmap_correct [OF demo_vm_ok(1) this u] u show ?thesis using demo_vm_ok(3) by simp
qed


text \<open>A new address space maps exactly its data page and its first stack page, each on a frame of its own, and
  nothing else is translated; when memory runs out partway, every frame taken so far is back in the
  pool. Creation never panics.\<close>

theorem space_new_correct:
  assumes "pool_wf (vpool v)" "pool_low (vpool v)"
  shows "\<exists>r v'. space_new v = Some (r, v') \<and>
    (case r of
       None \<Rightarrow> set (pool_used (vpool v')) = set (pool_used (vpool v)) \<and> pool_wf (vpool v')
     | Some sp \<Rightarrow> space_inv (set (pool_used (vpool v))) sp v' \<and> space_wx sp v'
         \<and> lookup sp USER_DATA_VA (pwords v') = Some (user_data_page (data_phys sp) OR SW_OWNED)
         \<and> (\<forall>va. lookup sp va (pwords v') \<noteq> None \<longleftrightarrow> same_page USER_DATA_VA va \<or> same_page (USER_STACK_TOP - PAGE_4K) va))"
  using space_new_spec [OF assms] .

theorem space_new_correct_witness: "pool_wf (vpool demo_vm) \<and> (\<exists>r v'. space_new demo_vm = Some (r, v'))"
  using space_new_correct [OF demo_vm_ok(4,5)] demo_vm_ok(4) by blast



lemma demo_step:
  obtains r v' where "map_page demo_sp USER_BASE (user_text_page 0x50000000) demo_vm = Some (r, v')"
    "(space_step demo_sp)\<^sup>*\<^sup>* demo_vm v'"
proof -
  let ?d = "user_text_page 0x50000000"
  have d: "0x50000000 AND ADDR_MASK = (0x50000000 :: u64)" "?d \<in> set (page_descs 0x50000000)" by (simp_all add: ADDR_MASK_def page_descs_def)
  have o: "owned_of (lookup demo_sp USER_BASE (pwords demo_vm)) = {}" by (simp add: demo_vm_ok(3) owned_of_def)
  obtain r v' where m: "map_page demo_sp USER_BASE ?d demo_vm = Some (r, v')"
    using map_foreign [OF demo_vm_ok(1) o page_desc_attr(3) [OF d]] by blast
  from space_step.foreign [OF m d o] have "(space_step demo_sp)\<^sup>*\<^sup>* demo_vm v'" by simp
  with m show ?thesis using that by blast
qed



end
