(* ===== verification/UserMem.thy ===== *)
theory UserMem
  imports Bytes AddressSpace
begin

unbundle bit_operations_syntax

text \<open>
  \<^verbatim>\<open>crates/arch-aarch64/src/usercopy.rs\<close>: copies between the kernel and EL0 memory, byte by byte with
  unprivileged loads and stores. The hardware's part is the translation of one EL0 access by the
  tables in memory: TTBR0 covers 48 bits (\<^verbatim>\<open>TCR\<close> sets \<^verbatim>\<open>T0SZ\<close> to 16), so an address with a higher bit
  set is not translated by it and an unprivileged access to it faults. A fault of a copy is taken
  at EL1 and fatal: \<open>None\<close>. The message layout of \<^verbatim>\<open>syscall.rs\<close> is here too.
\<close>

section \<open>One access\<close>

definition el0_translate :: "addr_space \<Rightarrow> (nat \<Rightarrow> u8) \<Rightarrow> bool \<Rightarrow> u64 \<Rightarrow> nat option" where
  "el0_translate sp b write va =
     (if unat va \<ge> 2 ^ 48 then None
      else case lookup sp va (word_at b) of
             None \<Rightarrow> None
           | Some desc \<Rightarrow>
               if user_readable desc \<and> (write \<longrightarrow> user_writable desc)
               then Some (frame_of desc + unat va mod 4096) else None)"

section \<open>Copies\<close>

fun copy_from_user :: "addr_space \<Rightarrow> (nat \<Rightarrow> u8) \<Rightarrow> u64 \<Rightarrow> nat \<Rightarrow> u8 list option" where
  "copy_from_user sp b user_src 0 = Some []"
| "copy_from_user sp b user_src (Suc n) =
     (case el0_translate sp b False user_src of
        None \<Rightarrow> None
      | Some p \<Rightarrow>
          (case copy_from_user sp b (user_src + 1) n of
             None \<Rightarrow> None
           | Some bs \<Rightarrow> Some (b p # bs)))"

fun copy_to_user :: "addr_space \<Rightarrow> u64 \<Rightarrow> u8 list \<Rightarrow> (nat \<Rightarrow> u8) \<Rightarrow> (nat \<Rightarrow> u8) option" where
  "copy_to_user sp user_dst [] b = Some b"
| "copy_to_user sp user_dst (x # xs) b =
     (case el0_translate sp b True user_dst of
        None \<Rightarrow> None
      | Some p \<Rightarrow> copy_to_user sp (user_dst + 1) xs (b(p := x)))"

lemma byte_ok_translate:
  assumes "a < 2 ^ 64"
  shows "byte_ok sp (word_at b) write a \<longleftrightarrow>
    (\<exists>p. el0_translate sp b write (of_nat a) = Some p) \<or> (a \<ge> 2 ^ 48 \<and> byte_ok sp (word_at b) write a)"
proof -
  have "unat (of_nat a :: u64) = a" using assms by (simp add: unsigned_of_nat take_bit_nat_eq_self)
  then show ?thesis by (auto simp: byte_ok_def el0_translate_def split: option.splits)
qed

lemma copy_from_user_iff:
  assumes "unat va + n < 2 ^ 64"
  shows "copy_from_user sp b va n \<noteq> None \<longleftrightarrow> (\<forall>a. unat va \<le> a \<and> a < unat va + n \<longrightarrow> el0_translate sp b False (of_nat a) \<noteq> None)"
  using assms
proof (induction n arbitrary: va)
  case (Suc n)
  have u: "unat (va + 1) = unat va + 1" using Suc.prems unat_plus_exact [of va 1] by simp
  have "copy_from_user sp b (va + 1) n \<noteq> None \<longleftrightarrow> (\<forall>a. unat va + 1 \<le> a \<and> a < unat va + 1 + n \<longrightarrow> el0_translate sp b False (of_nat a) \<noteq> None)"
    using Suc.IH [of "va + 1"] Suc.prems unfolding u by simp
  moreover have "(\<forall>a. unat va \<le> a \<and> a < unat va + Suc n \<longrightarrow> P a) \<longleftrightarrow> P (unat va) \<and> (\<forall>a. unat va + 1 \<le> a \<and> a < unat va + 1 + n \<longrightarrow> P a)" for P
  proof (intro iffI conjI allI impI)
    fix a assume *: "P (unat va) \<and> (\<forall>a. unat va + 1 \<le> a \<and> a < unat va + 1 + n \<longrightarrow> P a)" "unat va \<le> a \<and> a < unat va + Suc n"
    show "P a" using * by (cases "a = unat va") auto
  qed auto
  moreover have "of_nat (unat va) = va" by simp
  ultimately show ?case by (auto split: option.splits)
qed auto

lemma copy_from_user_length: "copy_from_user sp b va n = Some bs \<Longrightarrow> length bs = n"
  by (induction n arbitrary: va bs) (auto split: option.splits)


definition demo_bytes :: "nat \<Rightarrow> u8" where
  "demo_bytes = bytes_of (\<lambda>_. 0x43)"

lemma demo_bytes_word: "a mod 8 = 0 \<Longrightarrow> word_at demo_bytes a = 0x43"
  by (simp add: demo_bytes_def word_at_bytes_of)

lemma demo_bytes_lookup: "lookup demo_sp va (word_at demo_bytes) = Some 0x43"
proof -
  have e: "read_entry (word_at demo_bytes) t i = 0x43" if "t mod 8 = 0" for t i
    using that by (simp add: read_entry_def demo_bytes_word)
  have "unat (root demo_sp) mod 8 = 0" by (simp add: demo_sp_def)
  moreover have "frame_of 0x43 = 0" by (simp add: frame_of_def ADDR_MASK_def)
  ultimately show ?thesis by (simp add: lookup_def LEAF_LEVEL_def numeral_3_eq_3 e Let_def desc_defs)
qed

lemma demo_bytes_range: "unat va + len < 2 ^ 64 \<Longrightarrow> user_range_ok demo_sp va len False (word_at demo_bytes)"
  by (simp add: user_range_ok_iff list_all_iff byte_ok_def demo_bytes_lookup user_readable_def desc_defs)


section \<open>Messages in user memory\<close>

text \<open>\<^verbatim>\<open>size_of::<Message>()\<close> for the \<^verbatim>\<open>repr(C)\<close> layout: tag, four words, the handle and four bytes of padding,
  whose contents the language leaves open (\<open>pad\<close>).\<close>

definition MESSAGE_SIZE :: nat where
  "MESSAGE_SIZE = 48"

definition message_bytes :: "u8 list \<Rightarrow> message \<Rightarrow> u8 list" where
  "message_bytes pad m = le_bytes 8 (tag m) @ concat (map (le_bytes 8) (words m)) @ le_bytes 4 (cap_handle m) @ pad"

definition message_of :: "u8 list \<Rightarrow> message" where
  "message_of bs =
     \<lparr>tag = from_le (take 8 bs),
      words = map (\<lambda>i. from_le (take 8 (drop (8 + 8 * i) bs))) [0..<MESSAGE_WORDS],
      cap_handle = from_le (take 4 (drop 40 bs))\<rparr>"

text \<open>A message written to user memory and read back is the same message, whatever the padding holds, and
  it occupies exactly the bytes the pointer check covers.\<close>

theorem message_roundtrip:
  assumes "length (words m) = MESSAGE_WORDS" "length pad = 4"
  shows "message_of (message_bytes pad m) = m \<and> length (message_bytes pad m) = MESSAGE_SIZE"
proof -
  obtain a b c d where w: "words m = [a, b, c, d]"
    using assms(1) by (auto simp: MESSAGE_WORDS_def numeral_eq_Suc length_Suc_conv)
  have f: "from_le (le_bytes 8 (x :: u64)) = x" "from_le (le_bytes 4 (y :: u32)) = y" for x y
    by (simp_all add: from_le_bytes take_bit_word_eq_self)
  have bs: "message_bytes pad m = le_bytes 8 (tag m) @ le_bytes 8 a @ le_bytes 8 b @ le_bytes 8 c @ le_bytes 8 d @ le_bytes 4 (cap_handle m) @ pad"
    by (simp add: message_bytes_def w)
  have u: "[0..<MESSAGE_WORDS] = [0, 1, 2, 3]" by (simp add: MESSAGE_WORDS_def upt_rec)
  have "message_of (message_bytes pad m) = m" unfolding bs message_of_def u by (simp add: f w)
  moreover have "length (message_bytes pad m) = MESSAGE_SIZE" unfolding bs by (simp add: assms(2) MESSAGE_SIZE_def)
  ultimately show ?thesis ..
qed

theorem message_roundtrip_witness:
  "message_of (message_bytes [1, 2, 3, 4] (message_new 7)) = message_new 7"
  using message_roundtrip [of "message_new 7" "[1, 2, 3, 4]"] by (simp add: message_new_def)

end
