(* ===== verification/SpaceRoom.thy ===== *)
theory SpaceRoom
  imports AddressSpace
begin

unbundle bit_operations_syntax

text \<open>
  How much memory the address-space operations need. \<open>room k p\<close> says that \<open>k\<close> frames can be taken from the
  pool one after the other; with that much room a walk, a mapping and a whole new space succeed. The
  second part is about a page mapped over one the space already owns.
\<close>

section \<open>Room in the pool\<close>

fun room :: "nat \<Rightarrow> frame_pool \<Rightarrow> bool" where
  "room 0 p \<longleftrightarrow> True"
| "room (Suc k) p \<longleftrightarrow> (case pool_allocate p of Some (Some _, p') \<Rightarrow> room k p' | _ \<Rightarrow> False)"

lemma room_SucD: "room (Suc k) p \<Longrightarrow> \<exists>f p'. pool_allocate p = Some (Some f, p') \<and> room k p'"
  by (auto split: option.splits)

lemma room_Suc: "room (Suc k) p \<Longrightarrow> room k p"
proof (induction k arbitrary: p)
  case (Suc k)
  obtain f p' where "pool_allocate p = Some (Some f, p')" "room (Suc k) p'" using room_SucD [OF Suc.prems] by blast
  then show ?case using Suc.IH by simp
qed simp

lemma room_add: "room (n + k) p \<Longrightarrow> room k p"
proof (induction n)
  case (Suc n)
  then show ?case using room_Suc [of "n + k" p] by (simp del: room.simps)
qed simp

lemma alloc_table_room:
  assumes "room (Suc k) (vpool v)"
  obtains f v1 where "alloc_table v = Some (Some f, v1)" "room k (vpool v1)"
  using assms by (auto simp: alloc_table_def split: option.splits)

lemma leaf_from_room:
  assumes "room (n + k) (vpool v)"
  shows "\<exists>leaf v'. leaf_from n t va v = Some (Some leaf, v') \<and> room k (vpool v')"
  using assms
proof (induction n arbitrary: t v)
  case (Suc n)
  let ?d = "read_entry (pwords v) t (table_index va (LEAF_LEVEL - Suc n))"
  show ?case
  proof (cases "?d AND DESC_VALID = 0")
    case True
    obtain f v1 where f: "alloc_table v = Some (Some f, v1)" "room (n + k) (vpool v1)"
      using Suc.prems by (auto elim: alloc_table_room simp del: room.simps)
    then show ?thesis using True
        Suc.IH [of "v1\<lparr>pwords := write_entry t (table_index va (LEAF_LEVEL - Suc n)) (of_nat f OR DESC_TABLE) (pwords v1)\<rparr>" f]
      by (simp add: Let_def)
  next
    case False
    have "room (n + k) (vpool v)" using room_Suc Suc.prems by (simp del: room.simps)
    then show ?thesis using Suc.IH False by (simp add: Let_def)
  qed
qed simp

lemma map_page_room:
  assumes "room (3 + k) (vpool v)"
  shows "\<exists>v'. map_page sp va d v = Some (True, v') \<and> room k (vpool v')"
  using leaf_from_room [of LEAF_LEVEL k v "unat (root sp)" va] assms
  by (auto simp: map_page_def leaf_table_def LEAF_LEVEL_def simp del: room.simps)

lemma map_fresh_room:
  assumes "room (4 + k) (vpool v)"
  shows "\<exists>f v'. map_fresh sp va v = Some (Some f, v') \<and> room k (vpool v')"
proof -
  obtain f v1 where f: "alloc_table v = Some (Some f, v1)" "room (3 + k) (vpool v1)"
    by (rule alloc_table_room [of "3 + k" v]) (use assms in \<open>simp_all del: room.simps\<close>)
  then show ?thesis using map_page_room [OF f(2), of sp va "user_data_page (of_nat f) OR SW_OWNED"]
    by (auto simp: map_fresh_def simp del: room.simps)
qed

lemma space_new_room:
  assumes "room (9 + k) (vpool v)"
  shows "\<exists>sp v'. space_new v = Some (Some sp, v') \<and> room k (vpool v')"
proof -
  obtain r v1 where r: "alloc_table v = Some (Some r, v1)" "room (8 + k) (vpool v1)"
    by (rule alloc_table_room [of "8 + k" v]) (use assms in \<open>simp_all del: room.simps\<close>)
  let ?sp = "\<lparr>root = of_nat r, data_phys = 0, entry = 0, heap_next = USER_HEAP_BASE\<rparr>"
  obtain d v2 where d: "map_fresh ?sp USER_DATA_VA v1 = Some (Some d, v2)" "room (4 + k) (vpool v2)"
    using map_fresh_room [of "4 + k" v1 ?sp USER_DATA_VA] r(2) by (auto simp del: room.simps)
  obtain q v3 where q: "map_fresh ?sp (USER_STACK_TOP - PAGE_4K) v2 = Some (Some q, v3)" "room k (vpool v3)"
    using map_fresh_room [OF d(2)] by blast
  have "populate ?sp v1 = Some (Some (?sp\<lparr>data_phys := of_nat d\<rparr>), v3)"
    using d(1) q(1) by (simp add: populate_def USER_STACK_PAGES_def)
  then show ?thesis using r(1) q(2) by (simp add: space_new_def)
qed

text \<open>Nine free frames are enough for a new address space: with that much room creation succeeds, and leaves
  room for everything beyond nine.\<close>

theorem space_new_succeeds:
  assumes "room (9 + k) (vpool v)"
  shows "\<exists>sp v'. space_new v = Some (Some sp, v') \<and> room k (vpool v')"
  using space_new_room [OF assms] .

section \<open>Counting frames\<close>

lemma room_single:
  assumes "buddy_wf b" "\<forall>x\<in>set (used b). snd x = 1" "length (used b) + k \<le> frames b"
  shows "room k [b]"
  using assms
proof (induction k arbitrary: b)
  case (Suc k)
  have n: "1 = next_power_of_two (max 1 1)" by (simp add: next_power_of_two_def)
  obtain r b' where r: "alloc_pages b 1 = Some (r, b')" "buddy_wf b'" "frames b' = frames b"
    using alloc_total [OF Suc.prems(1), of 1] by blast
  show ?case
  proof (cases r)
    case None
    have full: "\<exists>x\<in>set (used b). block (base b + p * PAGE_SIZE, 1) \<inter> block x \<noteq> {}" if "p < frames b" for p
      using alloc_failure [OF Suc.prems(1) r(1) [unfolded None] n] that by auto
    have "p \<in> (\<lambda>x. (fst x - base b) div PAGE_SIZE) ` set (used b)" if p: "p < frames b" for p
    proof -
      obtain x where x: "x \<in> set (used b)" "block (base b + p * PAGE_SIZE, 1) \<inter> block x \<noteq> {}" using full [OF p] by blast
      have "snd x = 1" using x(1) Suc.prems(2) by blast
      then obtain q where q: "x = (base b + q * PAGE_SIZE, 1)" using x(1) by (fastforce simp: used_def)
      then have "p = q" using x(2) block_disjoint_iff [of 1 1 "base b" p q] by auto
      then show ?thesis using x(1) q by (intro image_eqI [of _ _ x]) (simp_all add: PAGE_SIZE_def)
    qed
    then have "{..<frames b} \<subseteq> (\<lambda>x. (fst x - base b) div PAGE_SIZE) ` set (used b)" by blast
    then have "card {..<frames b} \<le> length (used b)"
      by (meson List.finite_set card_image_le card_length card_mono finite_imageI le_trans)
    then show ?thesis using Suc.prems(3) by simp
  next
    case (Some a)
    obtain xs ys where u: "used b = xs @ ys" "used b' = xs @ (a, 1) # ys"
      using alloc_success [OF Suc.prems(1) r(1) [unfolded Some] n] by blast
    have "room k [b']" using Suc.IH [OF r(2)] Suc.prems(2,3) u r(3) by auto
    then show ?thesis using r(1) Some by (simp add: pool_allocate_def)
  qed
qed simp

definition big_pool :: buddy where
  "big_pool = (case buddy_new (\<lambda>_. True) 0x40000000 (32 * PAGE_SIZE) of Inr b \<Rightarrow> b | Inl _ \<Rightarrow> demo)"

definition big_vm :: vm where
  "big_vm = \<lparr>vpool = [big_pool], pwords = (\<lambda>_. 0)\<rparr>"

lemma big_vm_ok: "pool_wf (vpool big_vm)" "pool_low (vpool big_vm)" "set (pool_used (vpool big_vm)) = {}" "room 17 (vpool big_vm)"
proof -
  obtain b where b: "buddy_new (\<lambda>_. True) 0x40000000 (32 * PAGE_SIZE) = Inr b" "buddy_wf b" "used b = []" "base b = 0x40000000"
      "frames b \<le> 32" "32 < 2 * frames b"
    using buddy_new_spec [of "0x40000000" "32 * PAGE_SIZE" "\<lambda>_. True"]
    by (auto simp: is_page_aligned_def PAGE_SIZE_def)
  have e: "big_pool = b" using b(1) by (simp add: big_pool_def)
  show "pool_wf (vpool big_vm)" "set (pool_used (vpool big_vm)) = {}" using b e by (simp_all add: big_vm_def pool_used_def)
  show "pool_low (vpool big_vm)" using b(4,5) e by (simp add: big_vm_def pool_low_def PAGE_SIZE_def)
  have "length (used b) + 17 \<le> frames b" using b(3,6) by simp
  then show "room 17 (vpool big_vm)" using room_single [OF b(2)] b(3) e by (simp add: big_vm_def del: room.simps)
qed

theorem space_new_succeeds_witness: "\<exists>sp v'. space_new big_vm = Some (Some sp, v') \<and> room 8 (vpool v')"
  using space_new_succeeds [of 8 big_vm] big_vm_ok(4) by (simp del: room.simps)

section \<open>Mapping over an owned page\<close>

lemma map_segment_one:
  assumes "map_segment_with sp va filesz memsz flags fill v = Some (True, v')" "0 < memsz" "memsz \<le> 4096"
  shows "\<exists>f v1 v2. alloc_table v = Some (Some f, v1) \<and> vpool v2 = vpool v1 \<and> (\<forall>a. a \<notin> page f \<longrightarrow> pwords v2 a = pwords v1 a)
    \<and> map_page sp va (segment_desc flags (of_nat f) OR SW_OWNED) v2 = Some (True, v')"
proof -
  have "(memsz + 4096 - 1) div 4096 = 1" using assms(2,3) by (intro div_nat_eqI) auto
  then have one: "map_segment_from 0 (Suc 0) sp va filesz flags fill v = Some (True, v')"
    using assms(1) by (simp add: map_segment_with_def PAGE_4K_def split: if_splits)
  then obtain f v1 where f: "alloc_table v = Some (Some f, v1)"
    by (auto simp: Let_def split: if_splits option.splits)
  obtain c where c: "(if 0 < filesz then fill 0 (min (unat PAGE_4K) (filesz - 0)) (pwords v1) else Some (Some (\<lambda>_. 0))) = Some (Some c)"
    using one f by (auto simp: Let_def split: if_splits option.splits)
  let ?v2 = "v1\<lparr>pwords := (\<lambda>a. if f \<le> a \<and> a < f + 8 * ENTRIES then c (a - f) else pwords v1 a)\<rparr>"
  have "map_page sp va (segment_desc flags (of_nat f) OR SW_OWNED) ?v2 = Some (True, v')"
    using one f c by (auto simp: Let_def split: if_splits option.splits bool.splits)
  then show ?thesis using f
    by (intro exI [of _ f] exI [of _ v1] exI [of _ ?v2]) (simp add: page_def PAGE_SIZE_def ENTRIES_def)
qed

lemma map_segment_one_inv:
  assumes inv: "space_inv U sp v" and seg: "map_segment_with sp va filesz memsz flags fill v = Some (True, v')" "0 < memsz" "memsz \<le> 4096"
  shows "space_inv (U \<union> (\<lambda>f. (f, 1)) ` owned_of (lookup sp va (pwords v))) sp v' \<and> (\<exists>d. lookup sp va (pwords v') = Some d \<and> owned_desc d)"
proof -
  obtain f v1 v2 where m: "alloc_table v = Some (Some f, v1)" "vpool v2 = vpool v1" "\<forall>a. a \<notin> page f \<longrightarrow> pwords v2 a = pwords v1 a"
      "map_page sp va (segment_desc flags (of_nat f) OR SW_OWNED) v2 = Some (True, v')"
    using map_segment_one [OF seg] by blast
  have ok: "space_ok sp v" using inv by (simp add: space_inv_def)
  from space_okD(1,2) [OF ok] m(1) obtain "pool_wf (vpool v1)" "pool_low (vpool v1)" "\<not> owns (vpool v) f"
      "set (pool_used (vpool v1)) = insert (f, 1) (set (pool_used (vpool v)))" "pwords v1 = zero_frame f (pwords v)"
    by (cases rule: alloc_table_cases) auto
  note A = this
  have "owns (vpool v1) f" using A(4) by (simp add: owns_def)
  note fl = owned_frame [OF A(1,2) this]
  note D = page_desc_attr [OF and_addr_mask [OF fl] page_descs_mem(1) [of flags]]
  have fd: "frame_of (segment_desc flags (of_nat f) OR SW_OWNED) = f"
    using D(5) fl(2) by (simp add: unsigned_of_nat take_bit_nat_eq_self)
  have same: "\<And>a. a \<notin> page f \<Longrightarrow> pwords v2 a = pwords v a" using m(3) A(5) by (simp add: zero_frame_page)
  show ?thesis using map_owned [OF inv _ _ A(3) _ same fd D(4), of va] A(1,2,4) m(2,4) D(4) by auto
qed

text \<open>A segment mapped over a page the space already owns loses the frame under it: the new descriptor replaces
  the old one and nothing gives the old frame back, so it stays allocated after the space is
  destroyed. Two program headers of an image with the same address do this, and the loader does not
  refuse them.\<close>

theorem overlapping_segment_leaks:
  assumes inv: "space_inv U sp v" and old: "lookup sp va (pwords v) = Some d" "owned_desc d"
    and seg: "map_segment_with sp va filesz memsz flags fill v = Some (True, v')" "0 < memsz" "memsz \<le> 4096"
  shows "set (pool_used (vpool (destroy sp v'))) = insert (frame_of d, 1) U"
proof -
  have o: "owned_of (lookup sp va (pwords v)) = {frame_of d}" using old by (simp add: owned_of_def)
  have "space_inv (U \<union> (\<lambda>f. (f, 1)) ` {frame_of d}) sp v'" using map_segment_one_inv [OF inv seg] unfolding o by blast
  from destroy_inv(1) [OF this] show ?thesis by simp
qed

lemma map_segment_room:
  assumes "room (4 + k) (vpool v)" "va mod PAGE_4K = 0" "USER_BASE \<le> va" "va < USER_IMAGE_END"
  shows "\<exists>v'. map_segment_with sp va 0 4096 flags fill v = Some (True, v') \<and> room k (vpool v')"
proof -
  obtain f v1 where f: "alloc_table v = Some (Some f, v1)" "room (3 + k) (vpool v1)"
    by (rule alloc_table_room [of "3 + k" v]) (use assms(1) in \<open>simp_all del: room.simps\<close>)
  let ?v2 = "v1\<lparr>pwords := (\<lambda>a. if f \<le> a \<and> a < f + 8 * ENTRIES then 0 else pwords v1 a)\<rparr>"
  have "room (3 + k) (vpool ?v2)" using f(2) by (simp del: room.simps)
  then obtain v' where "map_page sp va (segment_desc flags (of_nat f) OR SW_OWNED) ?v2 = Some (True, v')" "room k (vpool v')"
    using map_page_room by blast
  then show ?thesis using f(1) assms(2-4) by (simp add: map_segment_with_def PAGE_4K_def Let_def del: room.simps)
qed

theorem overlapping_segment_leaks_witness:
  "\<exists>sp v d v'. lookup sp USER_BASE (pwords v) = Some d
     \<and> map_segment_with sp USER_BASE 0 4096 PF_W (\<lambda>_ _ _. None) v = Some (True, v')
     \<and> set (pool_used (vpool (destroy sp v'))) = {(frame_of d, 1)}"
proof -
  let ?seg = "\<lambda>sp v. map_segment_with sp USER_BASE 0 4096 PF_W (\<lambda>_ _ _. None) v"
  have va: "USER_BASE mod PAGE_4K = 0" "USER_BASE \<le> USER_BASE" "USER_BASE < USER_IMAGE_END"
    by (simp_all add: USER_BASE_def USER_IMAGE_END_def PAGE_4K_def)
  obtain sp v0 where s: "space_new big_vm = Some (Some sp, v0)" "room (4 + 4) (vpool v0)"
    using space_new_room [of 8 big_vm] big_vm_ok(4) by (auto simp del: room.simps)
  have "\<not> same_page USER_DATA_VA USER_BASE" "\<not> same_page (USER_STACK_TOP - PAGE_4K) USER_BASE"
    by (simp_all add: same_page_def ADDR_MASK_def USER_DATA_VA_def USER_BASE_def USER_STACK_TOP_def PAGE_4K_def)
  then have i0: "space_inv {} sp v0" "lookup sp USER_BASE (pwords v0) = None"
    using space_new_spec [OF big_vm_ok(1,2)] s(1) big_vm_ok(3) by auto
  obtain v1 where v1: "?seg sp v0 = Some (True, v1)" "room (4 + 0) (vpool v1)" using map_segment_room [OF s(2) va, where sp = sp and flags = PF_W and fill = "\<lambda>_ _ _. None"] by (auto simp del: room.simps)
  obtain v2 where v2: "?seg sp v1 = Some (True, v2)" using map_segment_room [OF v1(2) va] by blast
  obtain d where d: "space_inv {} sp v1" "lookup sp USER_BASE (pwords v1) = Some d" "owned_desc d"
    using map_segment_one_inv [OF i0(1) v1(1)] i0(2) by (auto simp: owned_of_def)
  show ?thesis using overlapping_segment_leaks [OF d v2] d(2) v2 by auto
qed

end
