(* ===== verification/Elf.thy ===== *)
theory Elf
  imports UserMem SpaceRoom
begin

unbundle bit_operations_syntax

text \<open>
  \<^verbatim>\<open>crates/kernel/src/elf.rs\<close> and the two segment loaders of \<^verbatim>\<open>main.rs\<close>. The readers index a byte slice;
  additions on \<^verbatim>\<open>usize\<close> are checked by the build, so an overflow is a panic (\<open>None\<close>), while a read
  past the end is \<open>Some None\<close>. A closure is a function on the state it captures.
\<close>

section \<open>The parser\<close>

definition PT_LOAD :: u32 where "PT_LOAD = 1"
definition EM_AARCH64 :: u16 where "EM_AARCH64 = 183"
definition ET_EXEC :: u16 where "ET_EXEC = 2"

record elf =
  image :: "u8 list"
  elf_entry :: u64
  phoff :: nat
  phentsize :: nat
  phnum :: nat

record segment =
  seg_vaddr :: u64
  seg_file :: "u8 list"
  seg_memsz :: nat
  seg_flags :: u32

record segment_header =
  hdr_offset :: nat
  hdr_vaddr :: u64
  hdr_filesz :: nat
  hdr_memsz :: nat
  hdr_flags :: u32

definition read_u16 :: "u8 list \<Rightarrow> nat \<Rightarrow> u16 option option" where
  "read_u16 b off = map_option (map_option from_le) (slice_get b off 2)"

definition read_u32 :: "u8 list \<Rightarrow> nat \<Rightarrow> u32 option option" where
  "read_u32 b off = map_option (map_option from_le) (slice_get b off 4)"

definition read_u64 :: "u8 list \<Rightarrow> nat \<Rightarrow> u64 option option" where
  "read_u64 b off = map_option (map_option from_le) (slice_get b off 8)"

text \<open>The \<^verbatim>\<open>?\<close> of a function that returns an \<^verbatim>\<open>Option\<close>, and of one that gives up with \<^verbatim>\<open>false\<close>.\<close>

definition try_opt :: "'a option option \<Rightarrow> ('a \<Rightarrow> 'b option option) \<Rightarrow> 'b option option" where
  "try_opt x f = (case x of None \<Rightarrow> None | Some None \<Rightarrow> Some None | Some (Some a) \<Rightarrow> f a)"

definition elf_parse :: "u8 list \<Rightarrow> elf option option" where
  "elf_parse img =
     (if \<not> 4 \<le> length img then Some None
      else if take 4 img \<noteq> [0x7f, 0x45, 0x4c, 0x46] then Some None
      else if get img 4 \<noteq> Some 2 then Some None
      else if get img 5 \<noteq> Some 1 then Some None
      else try_opt (read_u16 img 18) (\<lambda>machine.
           if machine \<noteq> EM_AARCH64 then Some None
           else try_opt (read_u16 img 16) (\<lambda>etype.
             if etype \<noteq> ET_EXEC then Some None
             else try_opt (read_u64 img 24) (\<lambda>en.
               try_opt (read_u64 img 32) (\<lambda>po.
                 try_opt (read_u16 img 54) (\<lambda>pe.
                   try_opt (read_u16 img 56) (\<lambda>pn.
                     Some (Some \<lparr>image = img, elf_entry = en, phoff = unat po, phentsize = unat pe, phnum = unat pn\<rparr>))))))))"

section \<open>Program headers\<close>

text \<open>The header at \<open>ph\<close>: \<open>Some None\<close> stops the walk, \<open>Some (Some None)\<close> is a header that is not \<^verbatim>\<open>PT_LOAD\<close>.\<close>

definition load_header :: "elf \<Rightarrow> nat \<Rightarrow> segment_header option option option" where
  "load_header e ph =
     (case (read_u32 (image e) ph, read_u32 (image e) (ph + 4)) of
        (None, _) \<Rightarrow> None
      | (_, None) \<Rightarrow> None
      | (Some (Some p_type), Some (Some p_flags)) \<Rightarrow>
          if p_type \<noteq> PT_LOAD then Some (Some None)
          else (case (read_u64 (image e) (ph + 8), read_u64 (image e) (ph + 16), read_u64 (image e) (ph + 32), read_u64 (image e) (ph + 40)) of
                  (Some (Some off), Some (Some va), Some (Some fsz), Some (Some msz)) \<Rightarrow>
                    if unat fsz > unat msz then Some None
                    else Some (Some (Some \<lparr>hdr_offset = unat off, hdr_vaddr = va, hdr_filesz = unat fsz, hdr_memsz = unat msz, hdr_flags = p_flags\<rparr>))
                | (Some _, Some _, Some _, Some _) \<Rightarrow> Some None
                | _ \<Rightarrow> None)
      | _ \<Rightarrow> Some None)"

fun headers_from :: "nat \<Rightarrow> nat \<Rightarrow> elf \<Rightarrow> (segment_header \<Rightarrow> 's \<Rightarrow> (bool \<times> 's) option) \<Rightarrow> 's \<Rightarrow> (bool \<times> 's) option" where
  "headers_from i 0 e f s = Some (True, s)"
| "headers_from i (Suc n) e f s =
     (if phoff e + i * phentsize e \<ge> 2 ^ 64 then None
      else (case load_header e (phoff e + i * phentsize e) of
              None \<Rightarrow> None
            | Some None \<Rightarrow> Some (False, s)
            | Some (Some None) \<Rightarrow> headers_from (i + 1) n e f s
            | Some (Some (Some h)) \<Rightarrow>
                (case f h s of
                   None \<Rightarrow> None
                 | Some (False, s') \<Rightarrow> Some (False, s')
                 | Some (True, s') \<Rightarrow> headers_from (i + 1) n e f s')))"

definition for_each_load_header :: "elf \<Rightarrow> (segment_header \<Rightarrow> 's \<Rightarrow> (bool \<times> 's) option) \<Rightarrow> 's \<Rightarrow> (bool \<times> 's) option" where
  "for_each_load_header e f s = headers_from 0 (phnum e) e f s"

fun segments_from :: "nat \<Rightarrow> nat \<Rightarrow> elf \<Rightarrow> (segment \<Rightarrow> 's \<Rightarrow> 's option) \<Rightarrow> 's \<Rightarrow> (bool \<times> 's) option" where
  "segments_from i 0 e f s = Some (True, s)"
| "segments_from i (Suc n) e f s =
     (if phoff e + i * phentsize e \<ge> 2 ^ 64 then None
      else (case load_header e (phoff e + i * phentsize e) of
              None \<Rightarrow> None
            | Some None \<Rightarrow> Some (False, s)
            | Some (Some None) \<Rightarrow> segments_from (i + 1) n e f s
            | Some (Some (Some h)) \<Rightarrow>
                (case slice_get (image e) (hdr_offset h) (hdr_filesz h) of
                   None \<Rightarrow> None
                 | Some None \<Rightarrow> Some (False, s)
                 | Some (Some file) \<Rightarrow>
                     (case f \<lparr>seg_vaddr = hdr_vaddr h, seg_file = file, seg_memsz = hdr_memsz h, seg_flags = hdr_flags h\<rparr> s of
                        None \<Rightarrow> None
                      | Some s' \<Rightarrow> segments_from (i + 1) n e f s'))))"

definition for_each_load :: "elf \<Rightarrow> (segment \<Rightarrow> 's \<Rightarrow> 's option) \<Rightarrow> 's \<Rightarrow> (bool \<times> 's) option" where
  "for_each_load e f s = segments_from 0 (phnum e) e f s"

section \<open>Loading\<close>

text \<open>The words of a zeroed page after its first bytes have been overwritten.\<close>

definition page_words :: "u8 list \<Rightarrow> nat \<Rightarrow> u64" where
  "page_words bs off = from_le (take 8 (drop off bs))"

text \<open>\<^verbatim>\<open>AddressSpace::map_segment\<close> and \<^verbatim>\<open>load_segments\<close>.\<close>

definition map_segment :: "addr_space \<Rightarrow> u64 \<Rightarrow> u8 list \<Rightarrow> nat \<Rightarrow> u32 \<Rightarrow> vm \<Rightarrow> (bool \<times> vm) option" where
  "map_segment sp vaddr file memsz flags v =
     map_segment_with sp vaddr (length file) memsz flags (\<lambda>at n m. Some (Some (page_words (take n (drop at file))))) v"

definition load_segments :: "addr_space \<Rightarrow> elf \<Rightarrow> vm \<Rightarrow> (bool \<times> vm) option" where
  "load_segments sp e v =
     (case for_each_load e
             (\<lambda>seg (ok, v). case map_segment sp (seg_vaddr seg) (seg_file seg) (seg_memsz seg) (seg_flags seg) v of
                              None \<Rightarrow> None
                            | Some (r, v') \<Rightarrow> Some (ok \<and> r, v'))
             (True, v) of
        None \<Rightarrow> None
      | Some (walked, ok, v') \<Rightarrow> Some (walked \<and> ok, v'))"

text \<open>\<open>user\<close> is the space of the calling task, which is the active one.\<close>

definition load_segments_streamed :: "addr_space \<Rightarrow> addr_space \<Rightarrow> elf \<Rightarrow> u64 \<Rightarrow> nat \<Rightarrow> vm \<Rightarrow> (bool \<times> vm) option" where
  "load_segments_streamed user sp e user_base user_len v =
     for_each_load_header e
       (\<lambda>seg v.
          if hdr_offset seg + hdr_filesz seg \<ge> 2 ^ 64 then Some (False, v)
          else if hdr_offset seg + hdr_filesz seg > user_len then Some (False, v)
          else map_segment_with sp (hdr_vaddr seg) (hdr_filesz seg) (hdr_memsz seg) (hdr_flags seg)
                 (\<lambda>at n m. case copy_from_user user (bytes_of m) (user_base + of_nat (hdr_offset seg + at)) n of
                             None \<Rightarrow> None
                           | Some bs \<Rightarrow> Some (Some (page_words bs))) v)
       v"

section \<open>What the parser accepts\<close>


text \<open>An image whose program-header offset lies within four bytes of the top of the address range passes the parser,
  and walking its headers overflows the bounds computation: with the overflow checks of the build that
  every script of the repository makes, the kernel panics on bytes a program chose.\<close>

theorem header_offset_overflow_panics:
  assumes "0 < phnum e" "2 ^ 64 \<le> phoff e + 4"
  shows "for_each_load_header e f s = None"
proof -
  obtain n where n: "phnum e = Suc n" using assms(1) by (cases "phnum e") auto
  have "load_header e (phoff e) = None" using assms(2) by (simp add: load_header_def read_u32_def slice_get_def)
  then show ?thesis by (simp add: for_each_load_header_def n)
qed

definition demo_image :: "u8 list" where
  "demo_image = [0x7f, 0x45, 0x4c, 0x46, 2, 1] @ replicate 10 0 @ [2, 0, 183, 0] @ replicate 12 0 @ replicate 8 0xff
     @ replicate 14 0 @ [56, 0, 1, 0]"

lemma demo_image_parse:
  "elf_parse demo_image = Some (Some \<lparr>image = demo_image, elf_entry = 0, phoff = 2 ^ 64 - 1, phentsize = 56, phnum = 1\<rparr>)"
proof -
  have l: "length demo_image = 58" by (simp add: demo_image_def)
  have b: "take 4 demo_image = [0x7f, 0x45, 0x4c, 0x46]" "demo_image ! 4 = 2" "demo_image ! 5 = 1"
    "take 2 (drop 16 demo_image) = [2, 0]" "take 2 (drop 18 demo_image) = [183, 0]" "take 8 (drop 24 demo_image) = replicate 8 0"
    "take 8 (drop 32 demo_image) = replicate 8 0xff" "take 2 (drop 54 demo_image) = [56, 0]" "take 2 (drop 56 demo_image) = [1, 0]"
    by (simp_all add: demo_image_def numeral_eq_Suc)
  have v: "(from_le (replicate 8 0) :: u64) = 0" "(from_le (replicate 8 0xff) :: u64) = 0xFFFFFFFFFFFFFFFF"
    "(from_le [2, 0] :: u16) = 2" "(from_le [183, 0] :: u16) = 183" "(from_le [56, 0] :: u16) = 56" "(from_le [1, 0] :: u16) = 1"
    by code_simp+
  show ?thesis
    by (simp add: elf_parse_def try_opt_def read_u16_def read_u64_def slice_get_def get_def l b v EM_AARCH64_def ET_EXEC_def)
qed

theorem header_offset_overflow_panics_witness:
  "\<exists>e. elf_parse demo_image = Some (Some e) \<and> for_each_load_header e (\<lambda>_ s. Some (True, s)) (0 :: nat) = None"
  using demo_image_parse header_offset_overflow_panics
    [of "\<lparr>image = demo_image, elf_entry = 0, phoff = 2 ^ 64 - 1, phentsize = 56, phnum = 1\<rparr>" "\<lambda>_ s. Some (True, s)" "0 :: nat"]
  by simp

end
