(* ===== verification/Machine.thy ===== *)
theory Machine
  imports KernelIpc Elf
begin

unbundle bit_operations_syntax

text \<open>
  The parts of \<^verbatim>\<open>crates/kernel/src/sched.rs\<close> that work on the current task's address space, over the
  whole kernel state: the scheduler, the tables and physical memory. The frame pool and the bytes of
  memory are those of the shared-memory component; the page-table operations see them as a \<open>vm\<close>.
  The windows in which long calls let interrupts through are places where other steps may come
  between; a call is the sequence of its own steps. A panic is \<open>None\<close>.
\<close>

section \<open>Memory as the page tables see it\<close>

definition vm_of :: "kernel \<Rightarrow> vm" where
  "vm_of k = \<lparr>vpool = pool (mem k), pwords = word_at (bytes (mem k))\<rparr>"

definition put_vm :: "vm \<Rightarrow> kernel \<Rightarrow> kernel" where
  "put_vm v k = k\<lparr>mem := (mem k)\<lparr>pool := vpool v, bytes := bytes_of (pwords v)\<rparr>\<rparr>"

definition current_space :: "nat \<Rightarrow> kernel \<Rightarrow> addr_space option option" where
  "current_space cpu k = (case kcurrent cpu k of None \<Rightarrow> None | Some p \<Rightarrow> Some (space (tasks (sch k) ! p)))"

definition current_range_ok :: "nat \<Rightarrow> u64 \<Rightarrow> nat \<Rightarrow> bool \<Rightarrow> kernel \<Rightarrow> bool option" where
  "current_range_ok cpu ptr len write k =
     (case current_space cpu k of
        None \<Rightarrow> None
      | Some None \<Rightarrow> Some False
      | Some (Some sp) \<Rightarrow> Some (user_range_ok sp ptr len write (word_at (bytes (mem k)))))"

section \<open>Memory of the current task\<close>

definition CHUNK :: nat where "CHUNK = 16"

text \<open>The chunked loops of \<^verbatim>\<open>map_anon_current\<close> and \<^verbatim>\<open>unmap_current\<close>: the pages done, and the pages removed.\<close>

function anon_chunks :: "addr_space \<Rightarrow> u64 \<Rightarrow> nat \<Rightarrow> nat \<Rightarrow> vm \<Rightarrow> (nat \<times> vm) option" where
  "anon_chunks sp first_va pages mapped v =
     (if mapped < pages
      then let chunk = min CHUNK (pages - mapped); va = first_va + of_nat mapped * PAGE_4K
           in (case map_anon_at sp va (of_nat chunk) v of
                 None \<Rightarrow> None
               | Some (False, v1) \<Rightarrow> Some (mapped, v1)
               | Some (True, v1) \<Rightarrow> anon_chunks sp first_va pages (mapped + chunk) v1)
      else Some (mapped, v))"
  by pat_completeness auto
termination
  by (relation "measure (\<lambda>(_, _, pages, mapped, _). pages - mapped)") (auto simp: CHUNK_def)

declare anon_chunks.simps [simp del]

function unmap_chunks :: "addr_space \<Rightarrow> u64 \<Rightarrow> nat \<Rightarrow> nat \<Rightarrow> nat \<Rightarrow> vm \<Rightarrow> nat \<times> vm" where
  "unmap_chunks sp va pages done removed v =
     (if done < pages
      then let chunk = min CHUNK (pages - done); at = va + of_nat done * PAGE_4K; (n, v1) = unmap sp at (of_nat chunk) v
           in unmap_chunks sp va pages (done + chunk) (removed + n) v1
      else (removed, v))"
  by pat_completeness auto
termination
  by (relation "measure (\<lambda>(_, _, pages, done, _, _). pages - done)") (auto simp: CHUNK_def)

declare unmap_chunks.simps [simp del]

definition map_anon_current :: "nat \<Rightarrow> u64 \<Rightarrow> kernel \<Rightarrow> (int \<times> kernel) option" where
  "map_anon_current cpu pages k =
     (case kcurrent cpu k of
        None \<Rightarrow> Some (kerror_as_raw OutOfResources, k)
      | Some cur \<Rightarrow>
          (case reserve_anon_shared cur pages (sch k) of
             (None, s) \<Rightarrow> Some (kerror_as_raw OutOfResources, k\<lparr>sch := s\<rparr>)
           | (Some (sp, first_va), s) \<Rightarrow>
               let k1 = k\<lparr>sch := s\<rparr>
               in (case anon_chunks sp first_va (unat pages) 0 (vm_of k1) of
                     None \<Rightarrow> None
                   | Some (mapped, v) \<Rightarrow>
                       Some (if mapped = unat pages then uint first_va else kerror_as_raw OutOfResources, put_vm v k1))))"

definition unmap_current :: "nat \<Rightarrow> u64 \<Rightarrow> u64 \<Rightarrow> kernel \<Rightarrow> int \<times> kernel" where
  "unmap_current cpu va pages k =
     (case current_space cpu k of
        Some (Some sp) \<Rightarrow> let (removed, v) = unmap_chunks sp va (unat pages) 0 0 (vm_of k) in (int removed, put_vm v k)
      | _ \<Rightarrow> (kerror_as_raw InvalidArgument, k))"

definition map_dma_current :: "nat \<Rightarrow> u64 \<Rightarrow> u32 \<Rightarrow> kernel \<Rightarrow> (int \<times> kernel) option" where
  "map_dma_current cpu phys pages k =
     (case current_space cpu k of
        None \<Rightarrow> None
      | Some None \<Rightarrow> Some (kerror_as_raw InvalidArgument, k)
      | Some (Some sp) \<Rightarrow>
          (case map_dma phys pages sp (vm_of k) of
             None \<Rightarrow> None
           | Some (va, v) \<Rightarrow> Some (case va of Some va \<Rightarrow> uint va | None \<Rightarrow> kerror_as_raw OutOfResources, put_vm v k)))"

text \<open>\<^verbatim>\<open>map_shared_current\<close> and \<^verbatim>\<open>map_device_current\<close> in full: the placement under the scheduler's lock, then
  the mapping.\<close>

definition kmap_shared :: "nat \<Rightarrow> object_ref \<Rightarrow> nat \<Rightarrow> u32 \<Rightarrow> kernel \<Rightarrow> (int \<times> kernel) option" where
  "kmap_shared cpu ob i pages k =
     (case kcurrent cpu k of
        None \<Rightarrow> None
      | Some p \<Rightarrow>
          (case placements_find (shared (tasks (sch k) ! p)) ob of
             Some va \<Rightarrow> Some (uint va, k)
           | None \<Rightarrow>
               (case placements_place (shared (tasks (sch k) ! p)) ob pages of
                  (None, _) \<Rightarrow> Some (kerror_as_raw OutOfResources, k)
                | (Some at, pl) \<Rightarrow>
                    let k1 = k\<lparr>sch := upd_task p (\<lambda>t. t\<lparr>shared := pl\<rparr>) (sch k)\<rparr>
                    in (case space (tasks (sch k) ! p) of
                          None \<Rightarrow> Some (kerror_as_raw InvalidArgument, k1)
                        | Some sp \<Rightarrow>
                            (case with_frames (mem k1) i of
                               None \<Rightarrow> Some (kerror_as_raw OutOfResources, k1)
                             | Some run \<Rightarrow>
                                 (case map_shared at (map of_nat run) sp (vm_of k1) of
                                    None \<Rightarrow> None
                                  | Some (va, v) \<Rightarrow>
                                      Some (case va of Some va \<Rightarrow> uint va | None \<Rightarrow> kerror_as_raw OutOfResources, put_vm v k1)))))))"

definition kmap_device :: "nat \<Rightarrow> object_ref \<Rightarrow> u64 \<Rightarrow> kernel \<Rightarrow> (int \<times> kernel) option" where
  "kmap_device cpu ob dev_phys k =
     (let page_off = dev_phys AND (PAGE_4K - 1)
      in case kcurrent cpu k of
           None \<Rightarrow> None
         | Some p \<Rightarrow>
             (case placements_find (devices (tasks (sch k) ! p)) ob of
                Some at \<Rightarrow> Some (uint (at + page_off), k)
              | None \<Rightarrow>
                  (case placements_place (devices (tasks (sch k) ! p)) ob 1 of
                     (None, _) \<Rightarrow> Some (kerror_as_raw OutOfResources, k)
                   | (Some at, pl) \<Rightarrow>
                       let k1 = k\<lparr>sch := upd_task p (\<lambda>t. t\<lparr>devices := pl\<rparr>) (sch k)\<rparr>
                       in (case space (tasks (sch k) ! p) of
                             None \<Rightarrow> Some (kerror_as_raw InvalidArgument, k1)
                           | Some sp \<Rightarrow>
                               (case map_device at dev_phys sp (vm_of k1) of
                                  None \<Rightarrow> None
                                | Some (va, v) \<Rightarrow>
                                    Some (case va of Some va \<Rightarrow> uint va | None \<Rightarrow> kerror_as_raw OutOfResources, put_vm v k1))))))"

definition grow_stack_current :: "nat \<Rightarrow> u64 \<Rightarrow> kernel \<Rightarrow> (bool \<times> kernel) option" where
  "grow_stack_current cpu far k =
     (case current_space cpu k of
        None \<Rightarrow> None
      | Some None \<Rightarrow> Some (False, k)
      | Some (Some sp) \<Rightarrow>
          (case grow_stack sp far (vm_of k) of
             None \<Rightarrow> None
           | Some (grew, v) \<Rightarrow> Some (grew, put_vm v k)))"

section \<open>Threads\<close>

text \<open>\<^verbatim>\<open>spawn_thread\<close> with the mapping of its stack; the other fallible allocations are arguments.\<close>

definition kspawn_thread :: "bool \<Rightarrow> bool \<Rightarrow> bool \<Rightarrow> nat \<Rightarrow> u64 \<Rightarrow> u64 \<Rightarrow> u64 \<Rightarrow> kernel \<Rightarrow> (int \<times> kernel) option" where
  "kspawn_thread stack_ok box_ok table_ok cpu entry_va npages arg k =
     (case kcurrent cpu k of
        None \<Rightarrow> None
      | Some p \<Rightarrow>
          (case space (tasks (sch k) ! p) of
             None \<Rightarrow> Some (kerror_as_raw InvalidArgument, k)
           | Some _ \<Rightarrow>
               let t = tasks (sch k) ! p
               in (case reserve_anon_shared p npages (sch k) of
                    (None, s1) \<Rightarrow> Some (kerror_as_raw OutOfResources, k\<lparr>sch := s1\<rparr>)
                  | (Some (sp, stack_base), s1) \<Rightarrow>
                      let k1 = k\<lparr>sch := s1\<rparr>
                      in (case map_anon_at sp stack_base npages (vm_of k1) of
                            None \<Rightarrow> None
                          | Some (mapped, v) \<Rightarrow>
                              let k2 = put_vm v k1
                              in if \<not> mapped \<or> \<not> stack_ok \<or> \<not> box_ok \<or> \<not> table_ok
                                 then Some (kerror_as_raw OutOfResources, k2)
                                 else let i = length (tasks s1);
                                          user_sp = (stack_base + npages * PAGE_4K) AND (NOT 0xf)
                                      in Some (int i, k2\<lparr>sch := s1\<lparr>tasks := tasks s1 @ [new_task i sp (pid t) (caps t)
                                           (Some (entry_va, user_sp, arg)) (shared t) (devices t)]\<rparr>\<rparr>)))))"

section \<open>Leaving\<close>

text \<open>\<^verbatim>\<open>exit\<close>: the departure is announced, the task leaves its core, and the last task of a space tears
  it down.\<close>

definition task_exit :: "nat \<Rightarrow> kernel \<Rightarrow> kernel option" where
  "task_exit cpu k =
     (case exit_notify cpu (sch k) of
        None \<Rightarrow> None
      | Some (departing, s) \<Rightarrow>
          let k1 = signal_bound departing (k\<lparr>sch := s\<rparr>)
          in (case exit_switch cpu (sch k1) of
                None \<Rightarrow> None
              | Some (dead_space, s2) \<Rightarrow>
                  let k2 = k1\<lparr>sch := s2\<rparr>
                  in Some (case dead_space of None \<Rightarrow> k2 | Some sp \<Rightarrow> put_vm (destroy sp (vm_of k2)) k2)))"

definition yield_now :: "nat \<Rightarrow> kernel \<Rightarrow> kernel" where
  "yield_now cpu k = k\<lparr>sch := reschedule cpu False (sch k)\<rparr>"

definition preempt :: "nat \<Rightarrow> kernel \<Rightarrow> kernel" where
  "preempt cpu k = k\<lparr>sch := reschedule cpu True (sch k)\<rparr>"

definition request_resched :: "kernel \<Rightarrow> kernel" where
  "request_resched k = k\<lparr>need_resched := True\<rparr>"

definition on_irq_epilogue :: "nat \<Rightarrow> u64 option \<Rightarrow> kernel \<Rightarrow> kernel" where
  "on_irq_epilogue cpu clock k =
     (let (woke, s) = wake_expired clock (sch k); k1 = k\<lparr>sch := s\<rparr>; wanted = need_resched k1; k2 = k1\<lparr>need_resched := False\<rparr>
      in if wanted \<or> woke then preempt cpu k2 else k2)"

text \<open>\<^verbatim>\<open>set_affinity\<close>: a task standing on a core it may no longer use gives it up and finishes the call on the
  next one that runs it.\<close>

definition set_affinity_resume :: "nat \<Rightarrow> mask \<Rightarrow> mask \<Rightarrow> sched \<Rightarrow> (int progress \<times> sched) option" where
  "set_affinity_resume cpu online m s =
     (if \<not> allows m cpu then Some (Parked, migrate_off cpu s)
      else case set_affinity_done cpu s of
             None \<Rightarrow> None
           | Some s' \<Rightarrow> Some (Finished (uint online), s'))"

definition set_affinity :: "nat \<Rightarrow> mask \<Rightarrow> mask \<Rightarrow> sched \<Rightarrow> (int progress \<times> sched) option" where
  "set_affinity cpu online m s =
     (case set_affinity_store cpu online m s of
        None \<Rightarrow> None
      | Some (Inl r) \<Rightarrow> Some (Finished r, s)
      | Some (Inr s1) \<Rightarrow> set_affinity_resume cpu online m s1)"

end
