(* ===== verification/KernelIommu.thy ===== *)
theory KernelIommu
  imports Machine
begin

text \<open>
  \<^verbatim>\<open>crates/kernel/src/iommu.rs\<close>: the kernel's one SMMU and the list of bound streams it frees at shutdown, over the
  whole kernel state. What the device answers, and whether the list can grow, are arguments.
\<close>

definition iommu_install :: "smmu \<Rightarrow> kernel \<Rightarrow> kernel" where
  "iommu_install s k = k\<lparr>smmu_dev := Some s\<rparr>"

definition iommu_bind_at :: "smmu_hw \<Rightarrow> bool \<Rightarrow> u32 \<Rightarrow> u64 \<Rightarrow> u64 \<Rightarrow> nat \<Rightarrow> kernel \<Rightarrow> (kerror option \<times> kernel) option" where
  "iommu_bind_at hw grows streamid iova phys pages k =
     (case smmu_dev k of
        None \<Rightarrow> Some (Some NotSupported, k)
      | Some s \<Rightarrow>
          (case bind_stream_at hw streamid iova phys pages s (vm_of k) of
             None \<Rightarrow> None
           | Some (Inl e, s', v, _) \<Rightarrow> Some (Some e, put_vm v (k\<lparr>smmu_dev := Some s'\<rparr>))
           | Some (Inr s2ttb, s', v, _) \<Rightarrow>
               Some (None, put_vm v (k\<lparr>smmu_dev := Some s',
                                       bound_streams := (if grows then bound_streams k @ [(streamid, s2ttb)] else bound_streams k)\<rparr>))))"

definition iommu_bind :: "smmu_hw \<Rightarrow> bool \<Rightarrow> u32 \<Rightarrow> u64 \<Rightarrow> nat \<Rightarrow> kernel \<Rightarrow> (kerror option \<times> kernel) option" where
  "iommu_bind hw grows streamid phys pages k = iommu_bind_at hw grows streamid phys phys pages k"

definition iommu_next_event :: "smmu_hw \<Rightarrow> kernel \<Rightarrow> event_record option \<times> kernel" where
  "iommu_next_event hw k =
     (case smmu_dev k of
        None \<Rightarrow> (None, k)
      | Some s \<Rightarrow> (case next_event hw (word_at (bytes (mem k))) s of (ev, s', _) \<Rightarrow> (ev, k\<lparr>smmu_dev := Some s'\<rparr>)))"

fun unbind_all :: "(u32 \<times> nat) list \<Rightarrow> smmu \<Rightarrow> vm \<Rightarrow> smmu \<times> vm" where
  "unbind_all [] s v = (s, v)"
| "unbind_all ((streamid, s2ttb) # items) s v =
     (case unbind_stream streamid s2ttb s v of (s', v', _) \<Rightarrow> unbind_all items s' v')"

definition iommu_reclaim :: "kernel \<Rightarrow> kernel" where
  "iommu_reclaim k =
     (let items = bound_streams k; k1 = k\<lparr>bound_streams := []\<rparr>
      in case smmu_dev k of
           None \<Rightarrow> k1
         | Some s \<Rightarrow> (case unbind_all items s (vm_of k1) of (s', v) \<Rightarrow> put_vm v (k1\<lparr>smmu_dev := Some s'\<rparr>)))"

end
