(* ===== verification/Syscalls.thy ===== *)
theory Syscalls
  imports KernelIommu
begin

unbundle bit_operations_syntax

text \<open>
  \<^verbatim>\<open>crates/kernel/src/syscall.rs\<close>: the dispatcher and its helpers, one definition per arm, with \<^verbatim>\<open>irq.rs\<close>,
  \<^verbatim>\<open>screen.rs\<close> and the process creation of \<^verbatim>\<open>main.rs\<close> that the arms call. A call gives \<open>Finished\<close> with the
  value for \<^verbatim>\<open>x0\<close>, or \<open>Parked\<close> when its task left the core; what a parked receive does when its task
  runs again is \<open>sys_recv_finish\<close>. A panic, or a fault of the kernel's own access, is \<open>None\<close>.

  What the call cannot decide is in \<open>env\<close>: the core it runs on, the clock, the cores online, whether each
  kernel-heap reservation succeeds, and the answers of the interrupt controller, of the display and
  of the registers of the SMMU. Log lines are left out; what programs print is the list \<open>console\<close>.
\<close>

section \<open>State and environment\<close>

datatype reservation =
    RCaps | RObject | RNotify | RBinding | RRun | RRunTable | RStack | RTask | RTaskTable | RHeaders | RCapTable | RBound

record env =
  e_cpu :: nat
  e_clock :: "u64 option"
  e_online :: mask
  e_heap :: "reservation \<Rightarrow> bool"
  e_line :: "u32 \<Rightarrow> bool"
  e_scanout :: "nat \<Rightarrow> bool"
  e_smmu :: smmu_hw
  e_init :: "u8 list"
  e_pad :: "u8 list"

record machine =
  kern :: kernel
  line_on :: "u32 \<Rightarrow> bool"
  display :: "(nat \<times> nat) option"
  console :: "u8 list"

record request =
  number :: nat
  args :: "u64 list"

text \<open>\<^verbatim>\<open>req.args[i] as u32\<close>.\<close>

definition arg_handle :: "request \<Rightarrow> nat \<Rightarrow> u32" where
  "arg_handle r i = ucast (args r ! i)"

text \<open>A result of the kernel alone, as a result of the call; \<open>refuse\<close> returns an error and changes nothing.\<close>

definition ret :: "int \<Rightarrow> 'k \<Rightarrow> (int progress \<times> 'k) option" where
  "ret v k = Some (Finished v, k)"

definition refuse :: "kerror \<Rightarrow> 'k \<Rightarrow> (int progress \<times> 'k) option" where
  "refuse e k = Some (Finished (kerror_as_raw e), k)"

definition on_kernel :: "machine \<Rightarrow> (int progress \<times> kernel) option \<Rightarrow> (int progress \<times> machine) option" where
  "on_kernel m r = (case r of None \<Rightarrow> None | Some (p, k) \<Rightarrow> Some (p, m\<lparr>kern := k\<rparr>))"

definition finish :: "(int \<times> 'k) option \<Rightarrow> (int progress \<times> 'k) option" where
  "finish r = (case r of None \<Rightarrow> None | Some (v, k) \<Rightarrow> Some (Finished v, k))"

text \<open>\<^verbatim>\<open>match resolve(..) { Ok(x) => .., Err(e) => return e.as_raw() }\<close>.\<close>

definition with_right :: "(kerror + 'a) option \<Rightarrow> ('a \<Rightarrow> (int progress \<times> 'k) option) \<Rightarrow> 'k \<Rightarrow> (int progress \<times> 'k) option" where
  "with_right r f k = (case r of None \<Rightarrow> None | Some (Inl e) \<Rightarrow> refuse e k | Some (Inr x) \<Rightarrow> f x)"

section \<open>Resolving handles\<close>

definition resolve_sendable_endpoint :: "nat \<Rightarrow> u32 \<Rightarrow> kernel \<Rightarrow> (kerror + nat) option" where
  "resolve_sendable_endpoint cpu h k =
     map_option (\<lambda>c. case c of
        Some (CEndpoint ob True _) \<Rightarrow> (case obj_get (objs k) ob of Some (OEndpoint i) \<Rightarrow> Inr i | _ \<Rightarrow> Inl BadHandle)
      | Some _ \<Rightarrow> Inl PermissionDenied
      | None \<Rightarrow> Inl BadHandle) (resolve_cap cpu h (sch k))"

definition resolve_receivable_endpoint :: "nat \<Rightarrow> u32 \<Rightarrow> kernel \<Rightarrow> (kerror + nat) option" where
  "resolve_receivable_endpoint cpu h k =
     map_option (\<lambda>c. case c of
        Some (CEndpoint ob _ True) \<Rightarrow> (case obj_get (objs k) ob of Some (OEndpoint i) \<Rightarrow> Inr i | _ \<Rightarrow> Inl BadHandle)
      | Some _ \<Rightarrow> Inl PermissionDenied
      | None \<Rightarrow> Inl BadHandle) (resolve_cap cpu h (sch k))"

definition resolve_device :: "nat \<Rightarrow> u32 \<Rightarrow> kernel \<Rightarrow> (kerror + object_ref \<times> u64) option" where
  "resolve_device cpu h k =
     map_option (\<lambda>c. case c of
        Some (CDevice ob) \<Rightarrow> (case obj_get (objs k) ob of Some (ODevice phys) \<Rightarrow> Inr (ob, phys) | _ \<Rightarrow> Inl BadHandle)
      | Some _ \<Rightarrow> Inl PermissionDenied
      | None \<Rightarrow> Inl BadHandle) (resolve_cap cpu h (sch k))"

definition resolve_interrupt :: "nat \<Rightarrow> u32 \<Rightarrow> kernel \<Rightarrow> (kerror + u32) option" where
  "resolve_interrupt cpu h k =
     map_option (\<lambda>c. case c of
        Some (CIrq ob) \<Rightarrow> (case obj_get (objs k) ob of Some (OInterrupt intid) \<Rightarrow> Inr intid | _ \<Rightarrow> Inl BadHandle)
      | Some _ \<Rightarrow> Inl PermissionDenied
      | None \<Rightarrow> Inl BadHandle) (resolve_cap cpu h (sch k))"

definition resolve_notification :: "nat \<Rightarrow> u32 \<Rightarrow> kernel \<Rightarrow> (kerror + nat) option" where
  "resolve_notification cpu h k =
     map_option (\<lambda>c. case c of
        Some (CNotification ob) \<Rightarrow> (case obj_get (objs k) ob of Some (ONotification i) \<Rightarrow> Inr i | _ \<Rightarrow> Inl BadHandle)
      | Some _ \<Rightarrow> Inl PermissionDenied
      | None \<Rightarrow> Inl BadHandle) (resolve_cap cpu h (sch k))"

definition check_authority :: "nat \<Rightarrow> u32 \<Rightarrow> kernel \<Rightarrow> (kerror + unit) option" where
  "check_authority cpu h k =
     map_option (\<lambda>c. case c of
        Some (CDeviceAuthority ob) \<Rightarrow> (case obj_get (objs k) ob of Some ODeviceAuthority \<Rightarrow> Inr () | _ \<Rightarrow> Inl BadHandle)
      | Some _ \<Rightarrow> Inl PermissionDenied
      | None \<Rightarrow> Inl BadHandle) (resolve_cap cpu h (sch k))"

definition resolve_scanout :: "nat \<Rightarrow> u32 \<Rightarrow> kernel \<Rightarrow> (kerror + unit) option" where
  "resolve_scanout cpu h k =
     map_option (\<lambda>c. case c of
        Some (CScanout ob) \<Rightarrow> (case obj_get (objs k) ob of Some OScanout \<Rightarrow> Inr () | _ \<Rightarrow> Inl BadHandle)
      | Some _ \<Rightarrow> Inl PermissionDenied
      | None \<Rightarrow> Inl BadHandle) (resolve_cap cpu h (sch k))"

definition resolve_shared :: "nat \<Rightarrow> u32 \<Rightarrow> kernel \<Rightarrow> (kerror + object_ref \<times> nat \<times> u32) option" where
  "resolve_shared cpu h k =
     map_option (\<lambda>c. case c of
        Some (CShared ob) \<Rightarrow> (case obj_get (objs k) ob of Some (OSharedMemory i pages) \<Rightarrow> Inr (ob, i, pages) | _ \<Rightarrow> Inl BadHandle)
      | Some _ \<Rightarrow> Inl PermissionDenied
      | None \<Rightarrow> Inl BadHandle) (resolve_cap cpu h (sch k))"

definition resolve_dma :: "nat \<Rightarrow> u32 \<Rightarrow> kernel \<Rightarrow> (kerror + u64 \<times> u32) option" where
  "resolve_dma cpu h k =
     map_option (\<lambda>c. case c of
        Some (CDma ob) \<Rightarrow> (case obj_get (objs k) ob of Some (ODmaBuffer phys pages) \<Rightarrow> Inr (phys, pages) | _ \<Rightarrow> Inl BadHandle)
      | Some _ \<Rightarrow> Inl PermissionDenied
      | None \<Rightarrow> Inl BadHandle) (resolve_cap cpu h (sch k))"

section \<open>User memory\<close>

text \<open>A byte range of the calling task's memory, after the check. A task without a space never passes it.\<close>

definition copy_in :: "nat \<Rightarrow> u64 \<Rightarrow> nat \<Rightarrow> kernel \<Rightarrow> u8 list option" where
  "copy_in cpu ptr n k =
     (case current_space cpu k of Some (Some sp) \<Rightarrow> copy_from_user sp (bytes (mem k)) ptr n | _ \<Rightarrow> None)"

definition user_ptr_ok :: "nat \<Rightarrow> u64 \<Rightarrow> nat \<Rightarrow> bool \<Rightarrow> kernel \<Rightarrow> bool option" where
  "user_ptr_ok cpu ptr len write k = (if ptr mod 8 \<noteq> 0 then Some False else current_range_ok cpu ptr len write k)"

definition read_user_msg :: "nat \<Rightarrow> u64 \<Rightarrow> kernel \<Rightarrow> message option option" where
  "read_user_msg cpu ptr k =
     (case user_ptr_ok cpu ptr MESSAGE_SIZE False k of
        None \<Rightarrow> None
      | Some False \<Rightarrow> Some None
      | Some True \<Rightarrow> (case copy_in cpu ptr MESSAGE_SIZE k of None \<Rightarrow> None | Some bs \<Rightarrow> Some (Some (message_of bs))))"

definition write_user_msg :: "u8 list \<Rightarrow> nat \<Rightarrow> u64 \<Rightarrow> message \<Rightarrow> kernel \<Rightarrow> (bool \<times> kernel) option" where
  "write_user_msg pad cpu ptr m k =
     (case user_ptr_ok cpu ptr MESSAGE_SIZE True k of
        None \<Rightarrow> None
      | Some False \<Rightarrow> Some (False, k)
      | Some True \<Rightarrow>
          (case current_space cpu k of
             Some (Some sp) \<Rightarrow>
               (case copy_to_user sp ptr (message_bytes pad m) (bytes (mem k)) of
                  None \<Rightarrow> None
                | Some b \<Rightarrow> Some (True, k\<lparr>mem := (mem k)\<lparr>bytes := b\<rparr>\<rparr>))
           | _ \<Rightarrow> None))"

section \<open>Console\<close>

definition MAX_DEBUG_WRITE :: nat where "MAX_DEBUG_WRITE = 4096"

definition sys_debug_putc :: "request \<Rightarrow> machine \<Rightarrow> (int progress \<times> machine) option" where
  "sys_debug_putc r m = ret 0 (m\<lparr>console := console m @ [ucast (args r ! 0)]\<rparr>)"

definition sys_debug_write :: "env \<Rightarrow> request \<Rightarrow> machine \<Rightarrow> (int progress \<times> machine) option" where
  "sys_debug_write en r m =
     (let ptr = args r ! 0; len = unat (args r ! 1)
      in if len = 0 then ret 0 m
         else if len > MAX_DEBUG_WRITE then refuse InvalidArgument m
         else (case current_range_ok (e_cpu en) ptr len False (kern m) of
                 None \<Rightarrow> None
               | Some False \<Rightarrow> refuse InvalidArgument m
               | Some True \<Rightarrow>
                   (case copy_in (e_cpu en) ptr len (kern m) of
                      None \<Rightarrow> None
                    | Some bs \<Rightarrow> ret (int len) (m\<lparr>console := console m @ bs\<rparr>))))"

section \<open>Messages\<close>

definition sys_send :: "env \<Rightarrow> bool \<Rightarrow> request \<Rightarrow> kernel \<Rightarrow> (int progress \<times> kernel) option" where
  "sys_send en may_block r k =
     with_right (resolve_sendable_endpoint (e_cpu en) (arg_handle r 0) k) (\<lambda>i.
       case read_user_msg (e_cpu en) (args r ! 1) k of
         None \<Rightarrow> None
       | Some None \<Rightarrow> refuse InvalidArgument k
       | Some (Some m) \<Rightarrow>
           (case (if is_null (cap_handle m) then Some (Some None)
                  else map_option (\<lambda>c. case c of Some c \<Rightarrow> Some (Some c) | None \<Rightarrow> None) (resolve_cap (e_cpu en) (cap_handle m) (sch k))) of
              None \<Rightarrow> None
            | Some None \<Rightarrow> refuse BadHandle k
            | Some (Some c) \<Rightarrow>
                (let km = \<lparr>msg = m, msg_cap = c\<rparr>
                 in if may_block then send (e_cpu en) i km k else send_nowait (e_cpu en) i km k))) k"

text \<open>The end of a receive, at once or when the parked task runs again.\<close>

definition sys_recv_finish :: "env \<Rightarrow> request \<Rightarrow> kerror + kmessage \<Rightarrow> kernel \<Rightarrow> (int progress \<times> kernel) option" where
  "sys_recv_finish en r res k =
     (case res of
        Inl e \<Rightarrow> refuse e k
      | Inr km \<Rightarrow>
          (case (case msg_cap km of
                   None \<Rightarrow> Some (Some HANDLE_NULL, sch k)
                 | Some c \<Rightarrow> map_option (\<lambda>(h, s). (map_option of_nat h, s)) (install_cap_current (e_heap en RCaps) (e_cpu en) c (sch k))) of
             None \<Rightarrow> None
           | Some (None, s) \<Rightarrow> refuse OutOfResources (k\<lparr>sch := s\<rparr>)
           | Some (Some h, s) \<Rightarrow>
               (case write_user_msg (e_pad en) (e_cpu en) (args r ! 1) ((msg km)\<lparr>cap_handle := h\<rparr>) (k\<lparr>sch := s\<rparr>) of
                  None \<Rightarrow> None
                | Some (ok, k1) \<Rightarrow> if ok then ret 0 k1 else refuse InvalidArgument k1)))"

definition sys_recv :: "env \<Rightarrow> u64 option \<Rightarrow> request \<Rightarrow> kernel \<Rightarrow> (int progress \<times> kernel) option" where
  "sys_recv en deadline r k =
     with_right (resolve_receivable_endpoint (e_cpu en) (arg_handle r 0) k) (\<lambda>i.
       case recv_until (e_cpu en) (e_clock en) i deadline k of
         None \<Rightarrow> None
       | Some (Parked, k1) \<Rightarrow> Some (Parked, k1)
       | Some (Finished res, k1) \<Rightarrow> sys_recv_finish en r res k1) k"

text \<open>A deadline of zero is no deadline.\<close>

definition deadline_of :: "u64 \<Rightarrow> u64 option" where
  "deadline_of d = (if d \<noteq> 0 then Some d else None)"

definition sys_endpoint_bind :: "env \<Rightarrow> request \<Rightarrow> kernel \<Rightarrow> (int progress \<times> kernel) option" where
  "sys_endpoint_bind en r k =
     with_right (resolve_receivable_endpoint (e_cpu en) (arg_handle r 0) k) (\<lambda>ep.
       with_right (if args r ! 1 = 0 then Some (Inr None)
                   else map_option (map_sum id Some) (resolve_notification (e_cpu en) (arg_handle r 1) k)) (\<lambda>notif.
         let (ok, t) = bind_notify (eps k) ep notif
         in if ok then ret 0 (k\<lparr>eps := t\<rparr>) else refuse BadHandle (k\<lparr>eps := t\<rparr>)) k) k"

definition sys_endpoint_pending :: "env \<Rightarrow> request \<Rightarrow> kernel \<Rightarrow> (int progress \<times> kernel) option" where
  "sys_endpoint_pending en r k =
     with_right (resolve_receivable_endpoint (e_cpu en) (arg_handle r 0) k) (\<lambda>ep. ret (int (pending_messages (eps k) ep)) k) k"

section \<open>Objects and capabilities\<close>

definition create_object :: "env \<Rightarrow> object \<Rightarrow> kernel \<Rightarrow> object_ref option \<times> kernel" where
  "create_object en ob k =
     (let (r, t) = obj_create (endpoint_exists (eps k)) (e_heap en RObject) (objs k) ob in (r, k\<lparr>objs := t\<rparr>))"

definition install_current :: "env \<Rightarrow> cap \<Rightarrow> kernel \<Rightarrow> (nat option \<times> kernel) option" where
  "install_current en c k =
     (case install_cap_current (e_heap en RCaps) (e_cpu en) c (sch k) of None \<Rightarrow> None | Some (h, s) \<Rightarrow> Some (h, k\<lparr>sch := s\<rparr>))"

definition revoke_object :: "object_ref \<Rightarrow> kernel \<Rightarrow> kernel" where
  "revoke_object ob k = k\<lparr>objs := snd (obj_revoke (objs k) ob)\<rparr>"

definition sys_revoke :: "env \<Rightarrow> request \<Rightarrow> kernel \<Rightarrow> (int progress \<times> kernel) option" where
  "sys_revoke en r k =
     (case resolve_cap (e_cpu en) (arg_handle r 0) (sch k) of
        None \<Rightarrow> None
      | Some None \<Rightarrow> refuse BadHandle k
      | Some (Some c) \<Rightarrow>
          (let (live, t) = obj_revoke (objs k) (cap_object c)
           in if live then ret 0 (k\<lparr>objs := t\<rparr>) else refuse BadHandle (k\<lparr>objs := t\<rparr>)))"

text \<open>\<^verbatim>\<open>grant\<close>: mint an object and hand the caller a capability for it.\<close>

definition grant :: "env \<Rightarrow> object \<Rightarrow> (object_ref \<Rightarrow> cap) \<Rightarrow> kernel \<Rightarrow> (int progress \<times> kernel) option" where
  "grant en ob to_cap k =
     (case create_object en ob k of
        (None, k1) \<Rightarrow> refuse OutOfResources k1
      | (Some ref, k1) \<Rightarrow>
          (case install_current en (to_cap ref) k1 of
             None \<Rightarrow> None
           | Some (Some h, k2) \<Rightarrow> ret (int h) k2
           | Some (None, k2) \<Rightarrow> refuse OutOfResources (revoke_object ref k2)))"

definition sys_grant_device :: "env \<Rightarrow> request \<Rightarrow> kernel \<Rightarrow> (int progress \<times> kernel) option" where
  "sys_grant_device en r k =
     with_right (check_authority (e_cpu en) (arg_handle r 0) k) (\<lambda>_. grant en (ODevice (args r ! 1)) CDevice k) k"

definition sys_grant_irq :: "env \<Rightarrow> request \<Rightarrow> kernel \<Rightarrow> (int progress \<times> kernel) option" where
  "sys_grant_irq en r k =
     with_right (check_authority (e_cpu en) (arg_handle r 0) k) (\<lambda>_. grant en (OInterrupt (ucast (args r ! 1))) CIrq k) k"

definition MAX_SHARED_PAGES :: nat where "MAX_SHARED_PAGES = 2048"
definition MAX_DMA_PAGES :: nat where "MAX_DMA_PAGES = 256"

definition create_shared :: "env \<Rightarrow> nat \<Rightarrow> kernel \<Rightarrow> (int progress \<times> kernel) option" where
  "create_shared en pages k =
     (if pages = 0 \<or> pages > MAX_SHARED_PAGES then refuse InvalidArgument k
      else case shm_create (e_heap en RRun) (e_heap en RRunTable) pages (mem k) of
             None \<Rightarrow> None
           | Some (None, s) \<Rightarrow> refuse OutOfResources (k\<lparr>mem := s\<rparr>)
           | Some (Some i, s) \<Rightarrow>
               (case create_object en (OSharedMemory i (of_nat pages)) (k\<lparr>mem := s\<rparr>) of
                  (None, k1) \<Rightarrow> refuse OutOfResources (k1\<lparr>mem := shm_free_with i (mem k1)\<rparr>)
                | (Some ref, k1) \<Rightarrow>
                    (case install_current en (CShared ref) k1 of
                       None \<Rightarrow> None
                     | Some (Some h, k2) \<Rightarrow> ret (int h) k2
                     | Some (None, k2) \<Rightarrow>
                         let k3 = revoke_object ref k2 in refuse OutOfResources (k3\<lparr>mem := shm_free_with i (mem k3)\<rparr>))))"

definition zero_pages :: "nat \<Rightarrow> nat \<Rightarrow> (nat \<Rightarrow> u8) \<Rightarrow> nat \<Rightarrow> u8" where
  "zero_pages phys pages b = (\<lambda>a. if phys \<le> a \<and> a < phys + pages * PAGE_SIZE then 0 else b a)"

definition create_dma :: "env \<Rightarrow> nat \<Rightarrow> kernel \<Rightarrow> (int progress \<times> kernel) option" where
  "create_dma en pages k =
     (if pages = 0 \<or> pages > MAX_DMA_PAGES then refuse InvalidArgument k
      else case pool_alloc_pages (pool (mem k)) pages of
             None \<Rightarrow> None
           | Some (None, p) \<Rightarrow> refuse OutOfResources (k\<lparr>mem := (mem k)\<lparr>pool := p\<rparr>\<rparr>)
           | Some (Some phys, p) \<Rightarrow>
               (let k0 = k\<lparr>mem := (mem k)\<lparr>pool := p, bytes := zero_pages phys pages (bytes (mem k))\<rparr>\<rparr>;
                    give_back = (\<lambda>k. k\<lparr>mem := (mem k)\<lparr>pool := pool_free_pages (pool (mem k)) phys\<rparr>\<rparr>)
                in case create_object en (ODmaBuffer (of_nat phys) (of_nat pages)) k0 of
                     (None, k1) \<Rightarrow> refuse OutOfResources (give_back k1)
                   | (Some ref, k1) \<Rightarrow>
                       (case install_current en (CDma ref) k1 of
                          None \<Rightarrow> None
                        | Some (Some h, k2) \<Rightarrow> ret (int h) k2
                        | Some (None, k2) \<Rightarrow> refuse OutOfResources (give_back (revoke_object ref k2)))))"

definition sys_dma_phys :: "env \<Rightarrow> request \<Rightarrow> kernel \<Rightarrow> (int progress \<times> kernel) option" where
  "sys_dma_phys en r k = with_right (resolve_dma (e_cpu en) (arg_handle r 0) k) (\<lambda>(phys, _). ret (sint phys) k) k"

definition sys_shared_pages :: "env \<Rightarrow> request \<Rightarrow> kernel \<Rightarrow> (int progress \<times> kernel) option" where
  "sys_shared_pages en r k = with_right (resolve_shared (e_cpu en) (arg_handle r 0) k) (\<lambda>(_, _, pages). ret (uint pages) k) k"

definition bind_dma :: "env \<Rightarrow> request \<Rightarrow> kernel \<Rightarrow> (int progress \<times> kernel) option" where
  "bind_dma en r k =
     with_right (check_authority (e_cpu en) (arg_handle r 0) k) (\<lambda>_.
       with_right (resolve_dma (e_cpu en) (arg_handle r 1) k) (\<lambda>(phys, pages).
         case iommu_bind (e_smmu en) (e_heap en RBound) (arg_handle r 2) phys (unat pages) k of
           None \<Rightarrow> None
         | Some (None, k1) \<Rightarrow> ret 0 k1
         | Some (Some e, k1) \<Rightarrow> refuse e k1) k) k"

section \<open>Mapping\<close>

text \<open>The value for \<^verbatim>\<open>x0\<close> of an operation that cannot park.\<close>

definition sys_map_memory :: "env \<Rightarrow> request \<Rightarrow> kernel \<Rightarrow> (int progress \<times> kernel) option" where
  "sys_map_memory en r k =
     with_right (resolve_device (e_cpu en) (arg_handle r 0) k) (\<lambda>(ob, phys). finish (kmap_device (e_cpu en) ob phys k)) k"

definition sys_map_shared :: "env \<Rightarrow> request \<Rightarrow> kernel \<Rightarrow> (int progress \<times> kernel) option" where
  "sys_map_shared en r k =
     with_right (resolve_shared (e_cpu en) (arg_handle r 0) k) (\<lambda>(ob, i, pages). finish (kmap_shared (e_cpu en) ob i pages k)) k"

definition sys_map_dma :: "env \<Rightarrow> request \<Rightarrow> kernel \<Rightarrow> (int progress \<times> kernel) option" where
  "sys_map_dma en r k =
     with_right (resolve_dma (e_cpu en) (arg_handle r 0) k) (\<lambda>(phys, pages). finish (map_dma_current (e_cpu en) phys pages k)) k"

definition MAX_ANON_PAGES :: u64 where "MAX_ANON_PAGES = 4096"
definition MAX_UNMAP_PAGES :: u64 where "MAX_UNMAP_PAGES = 4096"
definition MAX_THREAD_STACK_PAGES :: u64 where "MAX_THREAD_STACK_PAGES = 2048"

definition sys_map_anon :: "env \<Rightarrow> request \<Rightarrow> kernel \<Rightarrow> (int progress \<times> kernel) option" where
  "sys_map_anon en r k =
     (let pages = args r ! 0
      in if pages = 0 \<or> pages > MAX_ANON_PAGES then refuse InvalidArgument k
         else finish (map_anon_current (e_cpu en) pages k))"

definition sys_unmap :: "env \<Rightarrow> request \<Rightarrow> kernel \<Rightarrow> (int progress \<times> kernel) option" where
  "sys_unmap en r k =
     (let va = args r ! 0; pages = args r ! 1
      in if pages = 0 \<or> pages > MAX_UNMAP_PAGES \<or> va mod PAGE_4K \<noteq> 0 then refuse InvalidArgument k
         else if unat va + unat (pages * PAGE_4K) \<ge> 2 ^ 64 then refuse InvalidArgument k
         else if va < USER_BASE \<or> va + pages * PAGE_4K > USER_WINDOW_END then refuse InvalidArgument k
         else finish (Some (unmap_current (e_cpu en) va pages k)))"

section \<open>Notifications and interrupts\<close>

definition sys_wait :: "env \<Rightarrow> request \<Rightarrow> kernel \<Rightarrow> (int progress \<times> kernel) option" where
  "sys_wait en r k =
     with_right (resolve_notification (e_cpu en) (arg_handle r 0) k) (\<lambda>i.
       case wait_any 2 (e_cpu en) (e_clock en) [i] None k of
         None \<Rightarrow> None
       | Some (Parked, k1) \<Rightarrow> Some (Parked, k1)
       | Some (Finished _, k1) \<Rightarrow> ret 0 k1) k"

definition sys_notify_create :: "env \<Rightarrow> kernel \<Rightarrow> (int progress \<times> kernel) option" where
  "sys_notify_create en k =
     (case notify_create (e_heap en RNotify) (ntf k) of
        (None, t) \<Rightarrow> refuse OutOfResources (k\<lparr>ntf := t\<rparr>)
      | (Some i, t) \<Rightarrow> grant en (ONotification i) CNotification (k\<lparr>ntf := t\<rparr>))"

definition sys_notify_signal :: "env \<Rightarrow> request \<Rightarrow> kernel \<Rightarrow> (int progress \<times> kernel) option" where
  "sys_notify_signal en r k = with_right (resolve_notification (e_cpu en) (arg_handle r 0) k) (\<lambda>i. ret 0 (signal i k)) k"

definition MAX_WAIT_HANDLES :: nat where "MAX_WAIT_HANDLES = 16"

text \<open>The loop that resolves the copied handles, four bytes each.\<close>

fun resolve_all :: "nat \<Rightarrow> u32 list \<Rightarrow> kernel \<Rightarrow> (kerror + nat list) option" where
  "resolve_all cpu [] k = Some (Inr [])"
| "resolve_all cpu (h # hs) k =
     (case resolve_notification cpu h k of
        None \<Rightarrow> None
      | Some (Inl e) \<Rightarrow> Some (Inl e)
      | Some (Inr i) \<Rightarrow> map_option (map_sum id (\<lambda>is. i # is)) (resolve_all cpu hs k))"

definition handles_of :: "nat \<Rightarrow> u8 list \<Rightarrow> u32 list" where
  "handles_of n bs = map (\<lambda>j. from_le (take 4 (drop (4 * j) bs))) [0..<n]"

definition sys_wait_any :: "env \<Rightarrow> request \<Rightarrow> kernel \<Rightarrow> (int progress \<times> kernel) option" where
  "sys_wait_any en r k =
     (let ptr = args r ! 0; n = unat (args r ! 1); cpu = e_cpu en
      in if n = 0 \<or> n > MAX_WAIT_HANDLES then refuse InvalidArgument k
         else case (if ptr mod 4 \<noteq> 0 then Some False else current_range_ok cpu ptr (n * 4) False k) of
                None \<Rightarrow> None
              | Some False \<Rightarrow> refuse InvalidArgument k
              | Some True \<Rightarrow>
                  (case copy_in cpu ptr (n * 4) k of
                     None \<Rightarrow> None
                   | Some bs \<Rightarrow>
                       with_right (resolve_all cpu (handles_of n bs) k) (\<lambda>ids.
                         case wait_any 2 cpu (e_clock en) ids (deadline_of (args r ! 2)) k of
                           None \<Rightarrow> None
                         | Some (Parked, k1) \<Rightarrow> Some (Parked, k1)
                         | Some (Finished (Some i), k1) \<Rightarrow> ret (int i) k1
                         | Some (Finished None, k1) \<Rightarrow> refuse WouldBlock k1) k))"

definition sys_notify_on_exit :: "env \<Rightarrow> request \<Rightarrow> kernel \<Rightarrow> (int progress \<times> kernel) option" where
  "sys_notify_on_exit en r k =
     with_right (if args r ! 0 = 0 then Some (Inr None)
                 else map_option (map_sum id Some) (resolve_notification (e_cpu en) (arg_handle r 0) k)) (\<lambda>notif.
       case set_death_notify (e_cpu en) notif (sch k) of
         None \<Rightarrow> None
       | Some s \<Rightarrow> ret 0 (k\<lparr>sch := s\<rparr>)) k"

text \<open>\<^verbatim>\<open>irq.rs\<close>. Enabling a line succeeds when the controller knows it (\<open>e_line\<close>); the binding is recorded before
  the line is enabled.\<close>

definition irq_lookup :: "u32 \<Rightarrow> kernel \<Rightarrow> nat option" where
  "irq_lookup intid k = map_of (bindings k) intid"

definition line_enable :: "env \<Rightarrow> u32 \<Rightarrow> machine \<Rightarrow> bool \<times> machine" where
  "line_enable en intid m = (if e_line en intid then (True, m\<lparr>line_on := (line_on m)(intid := True)\<rparr>) else (False, m))"

definition irq_register :: "env \<Rightarrow> u32 \<Rightarrow> nat \<Rightarrow> machine \<Rightarrow> bool \<times> machine" where
  "irq_register en intid notif m =
     (let k = kern m
      in if \<exists>b \<in> set (bindings k). fst b = intid then (False, m)
         else if \<not> e_heap en RBinding then (False, m)
         else line_enable en intid (m\<lparr>kern := k\<lparr>bindings := bindings k @ [(intid, notif)]\<rparr>\<rparr>))"

definition irq_ack :: "env \<Rightarrow> u32 \<Rightarrow> machine \<Rightarrow> machine" where
  "irq_ack en intid m = snd (line_enable en intid m)"

definition sys_irq_register :: "env \<Rightarrow> request \<Rightarrow> machine \<Rightarrow> (int progress \<times> machine) option" where
  "sys_irq_register en r m =
     with_right (resolve_interrupt (e_cpu en) (arg_handle r 0) (kern m)) (\<lambda>intid.
       case notify_create (e_heap en RNotify) (ntf (kern m)) of
         (None, t) \<Rightarrow> refuse OutOfResources (m\<lparr>kern := (kern m)\<lparr>ntf := t\<rparr>\<rparr>)
       | (Some i, t) \<Rightarrow>
           (case create_object en (ONotification i) ((kern m)\<lparr>ntf := t\<rparr>) of
              (None, k1) \<Rightarrow> refuse OutOfResources (m\<lparr>kern := k1\<rparr>)
            | (Some ref, k1) \<Rightarrow>
                (case install_current en (CNotification ref) k1 of
                   None \<Rightarrow> None
                 | Some (None, k2) \<Rightarrow> refuse OutOfResources (m\<lparr>kern := k2\<rparr>)
                 | Some (Some h, k2) \<Rightarrow>
                     (case irq_register en intid i (m\<lparr>kern := k2\<rparr>) of
                        (True, m1) \<Rightarrow> ret (int h) m1
                      | (False, m1) \<Rightarrow> refuse InvalidArgument m1)))) m"

definition sys_irq_ack :: "env \<Rightarrow> request \<Rightarrow> machine \<Rightarrow> (int progress \<times> machine) option" where
  "sys_irq_ack en r m =
     with_right (resolve_interrupt (e_cpu en) (arg_handle r 0) (kern m)) (\<lambda>intid. ret 0 (irq_ack en intid m)) m"

text \<open>\<^verbatim>\<open>staros_irq_dispatch\<close>: the doorbells of other cores and the timer ask for a reschedule; a registered line
  is masked and its notification signalled; anything else is only logged. \<open>timer_id\<close> is the timer's line;
  the tick counters and the re-arming of the timer are left out.\<close>

definition irq_dispatch :: "u32 \<Rightarrow> u32 \<Rightarrow> machine \<Rightarrow> machine" where
  "irq_dispatch timer_id intid m =
     (if intid < 16 \<or> intid = timer_id then m\<lparr>kern := request_resched (kern m)\<rparr>
      else case irq_lookup intid (kern m) of
             Some notif \<Rightarrow> m\<lparr>line_on := (line_on m)(intid := False), kern := signal notif (kern m)\<rparr>
           | None \<Rightarrow> m)"

section \<open>The display\<close>

text \<open>\<^verbatim>\<open>screen::flip\<close>: the number of buffers of the screen that was brought up, and the one shown.\<close>

definition screen_flip :: "env \<Rightarrow> nat \<Rightarrow> machine \<Rightarrow> nat option \<times> machine" where
  "screen_flip en i m =
     (case display m of
        None \<Rightarrow> (None, m)
      | Some (buffers, shown) \<Rightarrow>
          if i \<ge> buffers then (None, m)
          else if \<not> e_scanout en i then (None, m)
          else (Some i, m\<lparr>display := Some (buffers, i)\<rparr>))"

definition sys_fb_flip :: "env \<Rightarrow> request \<Rightarrow> machine \<Rightarrow> (int progress \<times> machine) option" where
  "sys_fb_flip en r m =
     with_right (resolve_scanout (e_cpu en) (arg_handle r 0) (kern m)) (\<lambda>_.
       case screen_flip en (unat (args r ! 1)) m of
         (Some i, m1) \<Rightarrow> ret (int i) m1
       | (None, m1) \<Rightarrow> refuse InvalidArgument m1) m"

section \<open>Processes and threads\<close>

definition sys_spawn_thread :: "env \<Rightarrow> request \<Rightarrow> kernel \<Rightarrow> (int progress \<times> kernel) option" where
  "sys_spawn_thread en r k =
     (let pages = args r ! 1
      in if pages = 0 \<or> pages > MAX_THREAD_STACK_PAGES then refuse InvalidArgument k
         else finish (kspawn_thread (e_heap en RStack) (e_heap en RTask) (e_heap en RTaskTable) (e_cpu en)
                        (args r ! 0) pages (args r ! 3) k))"

text \<open>\<^verbatim>\<open>AddressSpace::write_id\<close>: one byte of the data page.\<close>

definition write_id :: "addr_space \<Rightarrow> u8 \<Rightarrow> vm \<Rightarrow> vm" where
  "write_id sp i v = v\<lparr>pwords := word_at ((bytes_of (pwords v))(unat (data_phys sp) := i))\<rparr>"

text \<open>A new space filled by \<open>load\<close>, with its entry point and its id; a load that fails is undone.\<close>

definition build_space :: "elf \<Rightarrow> u8 \<Rightarrow> (addr_space \<Rightarrow> vm \<Rightarrow> (bool \<times> vm) option) \<Rightarrow> vm \<Rightarrow> (addr_space option \<times> vm) option" where
  "build_space e i load v =
     (case space_new v of
        None \<Rightarrow> None
      | Some (None, v1) \<Rightarrow> Some (None, v1)
      | Some (Some sp, v1) \<Rightarrow>
          (case load sp v1 of
             None \<Rightarrow> None
           | Some (False, v2) \<Rightarrow> Some (None, destroy sp v2)
           | Some (True, v2) \<Rightarrow> Some (Some (sp\<lparr>entry := elf_entry e\<rparr>), write_id sp i v2)))"

text \<open>The end of \<^verbatim>\<open>spawn_image\<close> and \<^verbatim>\<open>spawn_child\<close>: an empty capability table and a task, or the space destroyed.\<close>

definition start_process :: "env \<Rightarrow> addr_space \<Rightarrow> kernel \<Rightarrow> nat option \<times> kernel" where
  "start_process en sp k =
     (case empty_caps (e_heap en RCapTable) of
        None \<Rightarrow> (None, put_vm (destroy sp (vm_of k)) k)
      | Some table \<Rightarrow>
          (case spawn_user (e_heap en RStack) (e_heap en RTask) (e_heap en RTaskTable) sp table (sch k) of
             (Some i, s) \<Rightarrow> (Some i, k\<lparr>sch := s\<rparr>)
           | (None, s) \<Rightarrow> let k1 = k\<lparr>sch := s\<rparr> in (None, put_vm (destroy sp (vm_of k1)) k1)))"

definition HEADER_BYTES :: nat where "HEADER_BYTES = 65536"
definition MAX_IMAGE_BYTES :: nat where "MAX_IMAGE_BYTES = 67108864"

definition spawn_image :: "env \<Rightarrow> u64 \<Rightarrow> nat \<Rightarrow> u8 \<Rightarrow> kernel \<Rightarrow> (int progress \<times> kernel) option" where
  "spawn_image en ptr len i k =
     (if \<not> e_heap en RHeaders then refuse OutOfResources k
      else case (current_space (e_cpu en) k, copy_in (e_cpu en) ptr (min len HEADER_BYTES) k) of
             (Some (Some user), Some headers) \<Rightarrow>
               (case elf_parse headers of
                  None \<Rightarrow> None
                | Some None \<Rightarrow> refuse InvalidArgument k
                | Some (Some e) \<Rightarrow>
                    (case build_space e i (\<lambda>sp v. load_segments_streamed user sp e ptr len v) (vm_of k) of
                       None \<Rightarrow> None
                     | Some (None, v) \<Rightarrow> refuse OutOfResources (put_vm v k)
                     | Some (Some sp, v) \<Rightarrow>
                         (case start_process en sp (put_vm v k) of
                            (Some t, k1) \<Rightarrow> ret (int t) k1
                          | (None, k1) \<Rightarrow> refuse OutOfResources k1)))
           | _ \<Rightarrow> None)"

definition spawn_child :: "env \<Rightarrow> u8 \<Rightarrow> kernel \<Rightarrow> (bool \<times> kernel) option" where
  "spawn_child en i k =
     (case elf_parse (e_init en) of
        None \<Rightarrow> None
      | Some None \<Rightarrow> Some (False, k)
      | Some (Some e) \<Rightarrow>
          (case build_space e i (\<lambda>sp v. load_segments sp e v) (vm_of k) of
             None \<Rightarrow> None
           | Some (None, v) \<Rightarrow> Some (False, put_vm v k)
           | Some (Some sp, v) \<Rightarrow> (case start_process en sp (put_vm v k) of (t, k1) \<Rightarrow> Some (t \<noteq> None, k1))))"

definition sys_spawn_image :: "env \<Rightarrow> request \<Rightarrow> kernel \<Rightarrow> (int progress \<times> kernel) option" where
  "sys_spawn_image en r k =
     (let ptr = args r ! 0; len = unat (args r ! 1)
      in if len = 0 \<or> len > MAX_IMAGE_BYTES then refuse InvalidArgument k
         else case current_range_ok (e_cpu en) ptr len False k of
                None \<Rightarrow> None
              | Some False \<Rightarrow> refuse InvalidArgument k
              | Some True \<Rightarrow> spawn_image en ptr len (ucast (args r ! 2)) k)"

definition sys_spawn :: "env \<Rightarrow> request \<Rightarrow> kernel \<Rightarrow> (int progress \<times> kernel) option" where
  "sys_spawn en r k =
     (case spawn_child en (ucast (args r ! 0)) k of
        None \<Rightarrow> None
      | Some (True, k1) \<Rightarrow> ret (sint (args r ! 0)) k1
      | Some (False, k1) \<Rightarrow> refuse OutOfResources k1)"

section \<open>The rest of a task's own calls\<close>

definition sys_clock_now :: "env \<Rightarrow> kernel \<Rightarrow> (int progress \<times> kernel) option" where
  "sys_clock_now en k = (case e_clock en of Some ns \<Rightarrow> ret (sint ns) k | None \<Rightarrow> refuse NotSupported k)"

definition on_sched :: "kernel \<Rightarrow> ('a \<times> sched) option \<Rightarrow> ('a \<times> kernel) option" where
  "on_sched k r = (case r of None \<Rightarrow> None | Some (v, s) \<Rightarrow> Some (v, k\<lparr>sch := s\<rparr>))"

text \<open>\<^verbatim>\<open>current_pid\<close> and \<^verbatim>\<open>current_cpu\<close>.\<close>

definition sys_task_id :: "env \<Rightarrow> kernel \<Rightarrow> (int progress \<times> kernel) option" where
  "sys_task_id en k = (case kcurrent (e_cpu en) k of None \<Rightarrow> None | Some p \<Rightarrow> ret (int (pid (tasks (sch k) ! p))) k)"

section \<open>Dispatch\<close>

definition dispatch :: "env \<Rightarrow> request \<Rightarrow> machine \<Rightarrow> (int progress \<times> machine) option" where
  "dispatch en r m =
     (let k = kern m; K = on_kernel m; cpu = e_cpu en
      in case syscall_from_raw (number r) of
           None \<Rightarrow> refuse NoSuchSyscall m
         | Some sc \<Rightarrow>
             (case sc of
                Yield \<Rightarrow> ret 0 (m\<lparr>kern := yield_now cpu k\<rparr>)
              | Exit \<Rightarrow> (case task_exit cpu k of None \<Rightarrow> None | Some k1 \<Rightarrow> Some (Parked, m\<lparr>kern := k1\<rparr>))
              | DebugPutc \<Rightarrow> sys_debug_putc r m
              | DebugWrite \<Rightarrow> sys_debug_write en r m
              | Send \<Rightarrow> K (sys_send en True r k)
              | SendNoWait \<Rightarrow> K (sys_send en False r k)
              | Recv \<Rightarrow> K (sys_recv en None r k)
              | RecvUntil \<Rightarrow> K (sys_recv en (deadline_of (args r ! 2)) r k)
              | MapMemory \<Rightarrow> K (sys_map_memory en r k)
              | Revoke \<Rightarrow> K (sys_revoke en r k)
              | IrqRegister \<Rightarrow> sys_irq_register en r m
              | Wait \<Rightarrow> K (sys_wait en r k)
              | IrqAck \<Rightarrow> sys_irq_ack en r m
              | ClockNow \<Rightarrow> K (sys_clock_now en k)
              | SleepUntil \<Rightarrow> K (on_sched k (sleep_until cpu (e_clock en) (args r ! 0) (sch k)))
              | MapAnon \<Rightarrow> K (sys_map_anon en r k)
              | Unmap \<Rightarrow> K (sys_unmap en r k)
              | Spawn \<Rightarrow> K (sys_spawn en r k)
              | SpawnImage \<Rightarrow> K (sys_spawn_image en r k)
              | SpawnThread \<Rightarrow> K (sys_spawn_thread en r k)
              | GrantDevice \<Rightarrow> K (sys_grant_device en r k)
              | GrantIrq \<Rightarrow> K (sys_grant_irq en r k)
              | CreateShared \<Rightarrow> K (create_shared en (unat (args r ! 0)) k)
              | MapShared \<Rightarrow> K (sys_map_shared en r k)
              | SharedPages \<Rightarrow> K (sys_shared_pages en r k)
              | TaskId \<Rightarrow> K (sys_task_id en k)
              | CpuId \<Rightarrow> ret (int cpu) m
              | SetAffinity \<Rightarrow> K (on_sched k (set_affinity cpu (e_online en) (args r ! 0) (sch k)))
              | SetClass \<Rightarrow> K (finish (on_sched k (set_class cpu (args r ! 0) (sch k))))
              | FbFlip \<Rightarrow> sys_fb_flip en r m
              | EndpointBind \<Rightarrow> K (sys_endpoint_bind en r k)
              | EndpointPending \<Rightarrow> K (sys_endpoint_pending en r k)
              | NotifyOnExit \<Rightarrow> K (sys_notify_on_exit en r k)
              | NotifyCreate \<Rightarrow> K (sys_notify_create en k)
              | NotifySignal \<Rightarrow> K (sys_notify_signal en r k)
              | WaitAny \<Rightarrow> K (sys_wait_any en r k)
              | CreateDma \<Rightarrow> K (create_dma en (unat (args r ! 0)) k)
              | MapDma \<Rightarrow> K (sys_map_dma en r k)
              | DmaPhys \<Rightarrow> K (sys_dma_phys en r k)
              | BindDma \<Rightarrow> K (bind_dma en r k)))"

end
