(* ===== verification/SyscallGate.thy ===== *)
theory SyscallGate
  imports Syscalls
begin

text \<open>
  What a capability check of the dispatcher is worth: every resolver satisfies one contract, stated as a
  locale and interpreted on each of the nine, and from it follow the properties of the system calls that
  take a capability.
\<close>

section \<open>The contract of a resolver\<close>

definition denials :: "kerror set" where
  "denials = {BadHandle, PermissionDenied}"

text \<open>The object a capability of each kind has to name.\<close>

fun matches :: "cap \<Rightarrow> object \<Rightarrow> bool" where
  "matches (CEndpoint _ _ _) (OEndpoint _) = True"
| "matches (CDevice _) (ODevice _) = True"
| "matches (CNotification _) (ONotification _) = True"
| "matches (CIrq _) (OInterrupt _) = True"
| "matches (CDeviceAuthority _) ODeviceAuthority = True"
| "matches (CShared _) (OSharedMemory _ _) = True"
| "matches (CDma _) (ODmaBuffer _ _) = True"
| "matches (CScanout _) OScanout = True"
| "matches _ _ = False"

definition holds_right :: "(cap \<Rightarrow> bool) \<Rightarrow> nat \<Rightarrow> u32 \<Rightarrow> kernel \<Rightarrow> bool" where
  "holds_right right cpu h k \<longleftrightarrow>
     (\<exists>c ob. resolve_cap cpu h (sch k) = Some (Some c) \<and> right c \<and> obj_get (objs k) (cap_object c) = Some ob \<and> matches c ob)"

locale cap_gate =
  fixes resolve :: "nat \<Rightarrow> u32 \<Rightarrow> kernel \<Rightarrow> (kerror + 'a) option"
    and right :: "cap \<Rightarrow> bool"
  assumes granted: "resolve cpu h k = Some (Inr x) \<Longrightarrow> holds_right right cpu h k"
    and denied: "resolve cpu h k = Some (Inl e) \<Longrightarrow> e \<in> denials"
    and stuck: "resolve cpu h k = None \<longleftrightarrow> resolve_cap cpu h (sch k) = None"
begin

lemma gate:
  assumes "with_right (resolve cpu h k) f s = Some (p, s')"
  shows "holds_right right cpu h k \<or> (\<exists>e\<in>denials. p = Finished (kerror_as_raw e) \<and> s' = s)"
  using assms granted [of cpu h k] denied [of cpu h k]
  by (auto simp: with_right_def refuse_def split: option.splits sum.splits)

lemma closed:
  assumes "resolve_cap cpu h (sch k) = Some c" "\<not> holds_right right cpu h k"
  shows "\<exists>e\<in>denials. with_right (resolve cpu h k) f s = refuse e s"
proof (cases "resolve cpu h k")
  case None
  then show ?thesis using assms(1) stuck by simp
next
  case (Some r)
  then show ?thesis using assms(2) granted [of cpu h k] denied [of cpu h k]
    by (cases r) (auto simp: with_right_def)
qed

end

fun right_send :: "cap \<Rightarrow> bool" where
  "right_send (CEndpoint _ s _) = s"
| "right_send _ = False"

fun right_recv :: "cap \<Rightarrow> bool" where
  "right_recv (CEndpoint _ _ r) = r"
| "right_recv _ = False"

lemma gate_from:
  assumes "\<And>cpu h k. resolve cpu h k = map_option (g k) (resolve_cap cpu h (sch k))"
    and "\<And>k. g k None = Inl BadHandle"
    and "\<And>k c. case g k (Some c) of Inl e \<Rightarrow> e \<in> denials
                 | Inr x \<Rightarrow> right c \<and> (\<exists>ob. obj_get (objs k) (cap_object c) = Some ob \<and> matches c ob)"
  shows "cap_gate resolve right"
proof
  fix cpu h k x e
  have found: "\<exists>c. resolve_cap cpu h (sch k) = Some (Some c) \<and> g k (Some c) = y \<or> resolve_cap cpu h (sch k) = Some None \<and> y = Inl BadHandle"
    if "resolve cpu h k = Some y" for y
    using that assms(2) [of k] by (auto simp: assms(1) split: option.splits)
  show "holds_right right cpu h k" if r: "resolve cpu h k = Some (Inr x)"
  proof -
    obtain c where "resolve_cap cpu h (sch k) = Some (Some c)" "g k (Some c) = Inr x" using found [OF r] by auto
    then show ?thesis using assms(3) [where k = k and c = c] by (auto simp: holds_right_def)
  qed
  show "e \<in> denials" if r: "resolve cpu h k = Some (Inl e)"
  proof -
    consider (c) c where "g k (Some c) = Inl e" | (none) "e = BadHandle" using found [OF r] by auto
    then show ?thesis
    proof cases
      case c
      then show ?thesis using assms(3) [where k = k and c = c] by simp
    qed (simp add: denials_def)
  qed
  show "(resolve cpu h k = None) = (resolve_cap cpu h (sch k) = None)" by (simp add: assms(1))
qed

interpretation send_gate: cap_gate resolve_sendable_endpoint right_send
  by (rule gate_from [OF resolve_sendable_endpoint_def])
    (auto simp: denials_def split: cap.split option.split object.split bool.split)

interpretation recv_gate: cap_gate resolve_receivable_endpoint right_recv
  by (rule gate_from [OF resolve_receivable_endpoint_def])
    (auto simp: denials_def split: cap.split option.split object.split bool.split)

interpretation device_gate: cap_gate resolve_device is_CDevice
  by (rule gate_from [OF resolve_device_def])
    (simp_all add: denials_def split: cap.split option.split object.split bool.split)

interpretation irq_gate: cap_gate resolve_interrupt is_CIrq
  by (rule gate_from [OF resolve_interrupt_def])
    (simp_all add: denials_def split: cap.split option.split object.split bool.split)

interpretation notify_gate: cap_gate resolve_notification is_CNotification
  by (rule gate_from [OF resolve_notification_def])
    (simp_all add: denials_def split: cap.split option.split object.split bool.split)

interpretation authority_gate: cap_gate check_authority is_CDeviceAuthority
  by (rule gate_from [OF check_authority_def])
    (simp_all add: denials_def split: cap.split option.split object.split bool.split)

interpretation scanout_gate: cap_gate resolve_scanout is_CScanout
  by (rule gate_from [OF resolve_scanout_def])
    (simp_all add: denials_def split: cap.split option.split object.split bool.split)

interpretation shared_gate: cap_gate resolve_shared is_CShared
  by (rule gate_from [OF resolve_shared_def])
    (simp_all add: denials_def split: cap.split option.split object.split bool.split)

interpretation dma_gate: cap_gate resolve_dma is_CDma
  by (rule gate_from [OF resolve_dma_def])
    (simp_all add: denials_def split: cap.split option.split object.split bool.split)

section \<open>The calls that take a capability first\<close>

definition gate_of :: "syscall \<Rightarrow> (cap \<Rightarrow> bool) option" where
  "gate_of sc =
     (if sc \<in> {Send, SendNoWait} then Some right_send
      else if sc \<in> {Recv, RecvUntil, EndpointBind, EndpointPending} then Some right_recv
      else if sc = MapMemory then Some is_CDevice
      else if sc \<in> {IrqRegister, IrqAck} then Some is_CIrq
      else if sc \<in> {Wait, NotifySignal} then Some is_CNotification
      else if sc \<in> {GrantDevice, GrantIrq, BindDma} then Some is_CDeviceAuthority
      else if sc = FbFlip then Some is_CScanout
      else if sc \<in> {MapShared, SharedPages} then Some is_CShared
      else if sc \<in> {MapDma, DmaPhys} then Some is_CDma
      else None)"

lemmas gated_defs =
  sys_send_def sys_recv_def sys_endpoint_bind_def sys_endpoint_pending_def sys_map_memory_def sys_irq_register_def
  sys_irq_ack_def sys_wait_def sys_notify_signal_def sys_grant_device_def sys_grant_irq_def bind_dma_def sys_fb_flip_def
  sys_map_shared_def sys_shared_pages_def sys_map_dma_def sys_dma_phys_def

lemma on_kernel_Some: "on_kernel m r = Some (p, m') \<longleftrightarrow> (\<exists>k. r = Some (p, k) \<and> m' = m\<lparr>kern := k\<rparr>)"
  by (auto simp: on_kernel_def split: option.splits)

lemma on_kernel_refuse [simp]: "on_kernel m (refuse e (kern m)) = refuse e m"
  by (simp add: on_kernel_def refuse_def)

lemma dispatch_gate:
  assumes "syscall_from_raw (number r) = Some sc" "gate_of sc = Some right" "dispatch en r m = Some (p, m')"
  shows "holds_right right (e_cpu en) (arg_handle r 0) (kern m) \<or> (\<exists>e\<in>denials. p = Finished (kerror_as_raw e) \<and> m' = m)"
  using assms
  apply (cases sc)
  apply (simp_all add: gate_of_def dispatch_def on_kernel_Some gated_defs Let_def)
  apply (((elim exE conjE)?,
      (drule send_gate.gate | drule recv_gate.gate | drule device_gate.gate | drule irq_gate.gate | drule notify_gate.gate
       | drule authority_gate.gate | drule scanout_gate.gate | drule shared_gate.gate | drule dma_gate.gate),
      auto)[1])+
  done

lemma dispatch_closed:
  assumes "syscall_from_raw (number r) = Some sc" "gate_of sc = Some right"
    and "resolve_cap (e_cpu en) (arg_handle r 0) (sch (kern m)) = Some c"
    and "\<not> holds_right right (e_cpu en) (arg_handle r 0) (kern m)"
  shows "\<exists>e\<in>denials. dispatch en r m = refuse e m"
proof -
  have K: "\<exists>e\<in>denials. on_kernel m z = refuse e m" if "\<exists>e\<in>denials. z = refuse e (kern m)" for z
    using that by auto
  show ?thesis
    using assms
    apply (cases sc)
    apply (simp_all add: gate_of_def dispatch_def gated_defs Let_def)
    apply (((intro conjI impI)?; (rule K)?;
        rule send_gate.closed recv_gate.closed device_gate.closed irq_gate.closed notify_gate.closed
          authority_gate.closed scanout_gate.closed shared_gate.closed dma_gate.closed; auto)[1])+
    done
qed

end
