(* ===== verification/SyscallFrame.thy ===== *)
theory SyscallFrame
  imports SyscallGate
begin

text \<open>
  What the operations behind the system calls leave alone: the capability tables with the table each task
  names (\<open>authority\<close>), and the object table. Almost every operation keeps both; the exceptions are
  installing a capability, creating a process, and creating or revoking an object.
\<close>

section \<open>Authority\<close>

definition authority :: "sched \<Rightarrow> cap_table list \<times> nat list" where
  "authority s = (cap_tables s, map caps (tasks s))"

named_theorems keeps_authority

lemma authority_upd [keeps_authority]: "(\<And>t. caps (f t) = caps t) \<Longrightarrow> authority (upd_task i f s) = authority s"
  by (cases "i < length (tasks s)") (simp_all add: authority_def upd_task_def map_update list_update_beyond list_update_same_conv)

lemma authority_fields [keeps_authority]:
  "authority (s\<lparr>current := a\<rparr>) = authority s" "authority (s\<lparr>prev := b\<rparr>) = authority s" "authority (s\<lparr>picks := c\<rparr>) = authority s"
  "authority (s\<lparr>picks_by_class := d\<rparr>) = authority s" "authority (s\<lparr>fair_picks := e\<rparr>) = authority s"
  "authority (s\<lparr>inversions := e\<rparr>) = authority s" "authority (s\<lparr>held_back := e\<rparr>) = authority s"
  "authority (s\<lparr>switches := c\<rparr>) = authority s"
  by (simp_all add: authority_def)

lemma authority_pick [keeps_authority]: "authority (snd (pick cpu p s)) = authority s"
  by (simp add: pick_def advance_def Let_def keeps_authority)

lemma authority_take [keeps_authority]: "authority (take_task cpu p n s) = authority s"
  by (simp add: take_task_def account_def Let_def keeps_authority)

lemma authority_leave [keeps_authority]: "authority (leave cpu p s) = authority s"
proof -
  obtain r s1 where p: "pick cpu p (s\<lparr>prev := (prev s)[cpu := Some p]\<rparr>) = (r, s1)" by (cases "pick cpu p (s\<lparr>prev := (prev s)[cpu := Some p]\<rparr>)")
  then have "authority s1 = authority s" using authority_pick [of cpu p "s\<lparr>prev := (prev s)[cpu := Some p]\<rparr>"] by (simp add: keeps_authority)
  then show ?thesis by (auto simp: leave_def p keeps_authority split: option.split)
qed

lemma authority_reschedule [keeps_authority]: "authority (reschedule cpu h s) = authority s"
proof (cases "current s ! cpu")
  case (Some p)
  obtain r s1 where q: "pick cpu p s = (r, s1)" by (cases "pick cpu p s")
  then have "authority s1 = authority s" using authority_pick [of cpu p s] by simp
  then show ?thesis by (auto simp: reschedule_def Some q Let_def keeps_authority split: option.split)
qed (simp add: reschedule_def)

lemma authority_park:
  "park_and_switch cpu st s = Some (b, s') \<Longrightarrow> authority s' = authority s"
  by (auto simp: park_and_switch_def keeps_authority split: option.splits if_splits)

lemma authority_unblock [keeps_authority]: "authority (unblock t s) = authority s"
  by (simp add: unblock_def keeps_authority)

lemma authority_deliver [keeps_authority]: "authority (deliver t km s) = authority s"
  by (simp add: deliver_def Let_def keeps_authority)

lemma authority_migrate [keeps_authority]: "authority (migrate_off cpu s) = authority s"
  by (simp add: migrate_off_def keeps_authority split: option.split)

lemma authority_take_mailbox: "take_mailbox cpu s = Some (m, s') \<Longrightarrow> authority s' = authority s"
  by (auto simp: take_mailbox_def keeps_authority split: option.splits)

lemma authority_block: "block_until cpu clock d s = Some (b, s') \<Longrightarrow> authority s' = authority s"
  by (auto simp: block_until_def authority_park split: option.splits if_splits)

lemma authority_sleep: "sleep_until cpu clock d s = Some (b, s') \<Longrightarrow> authority s' = authority s"
  by (auto simp: sleep_until_def authority_park split: option.splits if_splits)

lemma authority_set_class: "set_class cpu raw s = Some (v, s') \<Longrightarrow> authority s' = authority s"
  by (auto simp: set_class_def Let_def keeps_authority split: option.splits if_splits)

lemma authority_set_affinity: "set_affinity cpu online m s = Some (v, s') \<Longrightarrow> authority s' = authority s"
  by (auto simp: set_affinity_def set_affinity_store_def set_affinity_resume_def set_affinity_done_def keeps_authority
      split: option.splits if_splits)

lemma authority_death: "set_death_notify cpu n s = Some s' \<Longrightarrow> authority s' = authority s"
  by (auto simp: set_death_notify_def keeps_authority split: option.splits)

lemma authority_reserve: "reserve_anon_shared cur n s = (r, s') \<Longrightarrow> authority s' = authority s"
  by (auto simp: reserve_anon_shared_def authority_def Let_def intro: map_cong split: option.splits if_splits)

lemma authority_exit:
  "exit_notify cpu s = Some (d, s') \<Longrightarrow> authority s' = authority s"
  "exit_switch cpu s = Some (sp, s') \<Longrightarrow> authority s' = authority s"
  by (auto simp: exit_notify_def exit_switch_def Let_def keeps_authority split: option.splits)

section \<open>Kernel operations that keep authority and objects\<close>

text \<open>Same capability tables, same objects.\<close>

definition same_rights :: "kernel \<Rightarrow> kernel \<Rightarrow> bool" where
  "same_rights k k' \<longleftrightarrow> authority (sch k') = authority (sch k) \<and> objs k' = objs k"

lemma same_rights_refl [simp]: "same_rights k k"
  by (simp add: same_rights_def)

lemma same_rights_trans: "same_rights a b \<Longrightarrow> same_rights b c \<Longrightarrow> same_rights a c"
  by (simp add: same_rights_def)

lemma same_rights_fields [simp]:
  "same_rights k (k'\<lparr>mem := a\<rparr>) = same_rights k k'" "same_rights k (k'\<lparr>ntf := b\<rparr>) = same_rights k k'"
  "same_rights k (k'\<lparr>eps := c\<rparr>) = same_rights k k'" "same_rights k (k'\<lparr>bindings := d\<rparr>) = same_rights k k'"
  "same_rights k (k'\<lparr>need_resched := e\<rparr>) = same_rights k k'" "same_rights k (k'\<lparr>smmu_dev := f\<rparr>) = same_rights k k'"
  "same_rights k (k'\<lparr>bound_streams := g\<rparr>) = same_rights k k'"
  by (simp_all add: same_rights_def)

lemma same_rights_sch: "authority s = authority (sch k) \<Longrightarrow> same_rights k (k\<lparr>sch := s\<rparr>)"
  by (simp add: same_rights_def)

lemma same_rights_put_vm [simp]: "same_rights k (put_vm v k') = same_rights k k'"
  by (simp add: put_vm_def)

lemma signal_rights: "same_rights k (signal i k)"
  by (auto simp: signal_def same_rights_def keeps_authority split: prod.split option.split)

lemma signal_bound_rights: "same_rights k (signal_bound b k)"
  by (simp add: signal_bound_def signal_rights split: option.split)

lemma wait_any_rights: "wait_any n cpu clock ids d k = Some (r, k') \<Longrightarrow> same_rights k k'"
proof (induction n arbitrary: k)
  case (Suc n)
  have enter: "same_rights k k1" if "wait_any_enter cpu clock ids d k = Some (w, k1)" for w k1 k
    using that by (auto simp: wait_any_enter_def same_rights_def authority_block
        split: option.splits prod.splits wait_decision.splits)
  have wake: "same_rights k k1" if "wait_any_wake cpu clock ids d k = Some (w, k1)" for w k1 k
    using that by (auto simp: wait_any_wake_def split: option.splits prod.splits wait_decision.splits)
  obtain w k1 where e: "wait_any_enter cpu clock ids d k = Some (w, k1)" using Suc.prems by (auto split: option.splits)
  show ?case
  proof (cases w)
    case WaitAwake
    then obtain w2 k2 where w2: "wait_any_wake cpu clock ids d k1 = Some (w2, k2)"
      using Suc.prems e by (auto split: option.splits)
    then have "same_rights k2 k' \<or> k' = k2" using Suc.prems e WaitAwake Suc.IH by (auto split: wait_status.splits)
    then show ?thesis using enter [OF e] wake [OF w2] same_rights_trans by auto
  qed (use Suc.prems e enter [OF e] in auto)
qed simp

lemma send_inner_rights:
  assumes "send_inner cpu ep km b k = Some (r, k')"
  shows "same_rights k k'"
proof -
  have d: "same_rights k (signal_bound x (k\<lparr>eps := e\<rparr>))" for x e
    using same_rights_trans [OF _ signal_bound_rights, of k "k\<lparr>eps := e\<rparr>" x] by simp
  have "same_rights k (k2\<lparr>sch := deliver w km (sch k2)\<rparr>)" if "same_rights k k2" for k2 w
    using that by (simp add: same_rights_def keeps_authority)
  with d show ?thesis using assms
    by (auto simp: send_inner_def Let_def same_rights_sch authority_park split: if_splits option.splits prod.splits send_action.splits)
       (simp_all add: same_rights_def authority_park)
qed

lemma recv_resume_rights: "recv_resume cpu ep d k = Some (r, k') \<Longrightarrow> same_rights k k'"
  by (auto simp: recv_resume_def recv_take_def recv_cancel_def finish_block_for_message_def authority_take_mailbox
      intro!: same_rights_sch split: option.splits)

lemma recv_until_rights:
  assumes "recv_until cpu clock ep d k = Some (r, k')"
  shows "same_rights k k'"
proof -
  have w: "same_rights k ((signal_bound x (k\<lparr>eps := e\<rparr>))\<lparr>sch := unblock t (sch (signal_bound x (k\<lparr>eps := e\<rparr>)))\<rparr>)" for x e t
    using same_rights_trans [OF _ signal_bound_rights, of k "k\<lparr>eps := e\<rparr>" x]
    by (simp add: same_rights_def keeps_authority)
  have b: "same_rights k (k\<lparr>eps := e, sch := s\<rparr>)" if "block_until cpu clock d (sch k) = Some (x, s)" for e s x
    using authority_block [OF that] by (simp add: same_rights_def)
  have f: "same_rights k k2" if "block_until cpu clock d (sch k) = Some (x, s)" "recv_resume cpu ep d (k\<lparr>eps := e, sch := s\<rparr>) = Some (y, k2)"
    for x s e y k2
    using same_rights_trans [OF b [OF that(1)] recv_resume_rights [OF that(2)]] .
  show ?thesis using assms w b f
    by (auto simp: recv_until_def Let_def split: if_splits option.splits prod.splits recv_action.splits bool.splits)
qed

text \<open>A receive that finishes at once leaves the core with the same task.\<close>

lemma recv_until_current:
  assumes "recv_until cpu clock ep d k = Some (Finished r, k')"
  shows "kcurrent cpu k' = kcurrent cpu k"
proof -
  have b: "kcurrent cpu (k\<lparr>eps := e, sch := s\<rparr>) = kcurrent cpu k" if "block_until cpu clock d (sch k) = Some (False, s)" for e s
    using that by (auto simp: block_until_def park_and_switch_def kcurrent_def upd_task_def split: option.splits if_splits)
  have t: "current s' ! cpu = current s ! cpu" if "take_mailbox cpu s = Some (m, s')" for m s s'
    using that by (auto simp: take_mailbox_def upd_task_def split: option.splits)
  have f: "kcurrent cpu k2 = kcurrent cpu k1" if "recv_resume cpu ep d k1 = Some (y, k2)" for y k1 k2
    using that t by (auto simp: recv_resume_def recv_take_def recv_cancel_def finish_block_for_message_def kcurrent_def split: option.splits)
  show ?thesis using assms
    by (auto simp: recv_until_def Let_def signal_bound_def kcurrent_def dest!: f dest: b [unfolded kcurrent_def, simplified]
        split: if_splits option.splits prod.splits recv_action.splits bool.splits)
qed

section \<open>Confinement\<close>

text \<open>Only table \<open>i\<close> may change, and there only by gaining capabilities; tasks keep their tables, and new ones
  come after.\<close>

definition confined :: "nat \<Rightarrow> kernel \<Rightarrow> kernel \<Rightarrow> bool" where
  "confined i k k' \<longleftrightarrow>
     (let T = cap_tables (sch k); T' = cap_tables (sch k')
      in length T \<le> length T' \<and> (\<forall>j<length T. j \<noteq> i \<longrightarrow> T' ! j = T ! j)
         \<and> (i < length T \<longrightarrow> (\<forall>h c. get (T ! i) h = Some (Some c) \<longrightarrow> get (T' ! i) h = Some (Some c)))
         \<and> (\<exists>more. map caps (tasks (sch k')) = map caps (tasks (sch k)) @ more))"

lemma confined_same: "same_rights k k' \<Longrightarrow> confined i k k'"
  by (simp add: confined_def same_rights_def authority_def Let_def)

lemma confined_trans: "confined i a b \<Longrightarrow> confined i b c \<Longrightarrow> confined i a c"
  by (fastforce simp: confined_def Let_def)

lemma confined_cong: "authority (sch b) = authority (sch c) \<Longrightarrow> confined i a b \<Longrightarrow> confined i a c"
  by (simp add: confined_def authority_def Let_def)

definition own_table :: "nat \<Rightarrow> kernel \<Rightarrow> nat option" where
  "own_table cpu k = map_option (\<lambda>p. caps (tasks (sch k) ! p)) (kcurrent cpu k)"

lemma install_keeps: "install r t c = (h, t') \<Longrightarrow> get t j = Some (Some x) \<Longrightarrow> get t' j = Some (Some x)"
  by (auto simp: install_def get_def nth_append nth_list_update position_Some_iff split: option.splits if_splits)

lemma install_confined:
  assumes "install_current en c k = Some (h, k')" "own_table (e_cpu en) k = Some i"
  shows "confined i k k' \<and> objs k' = objs k"
proof -
  obtain p where p: "current (sch k) ! e_cpu en = Some p" "i = caps (tasks (sch k) ! p)"
    using assms(2) by (auto simp: own_table_def kcurrent_def)
  obtain t where t: "install (e_heap en RCaps) (cap_tables (sch k) ! i) c = (h, t)"
      "k' = k\<lparr>sch := (sch k)\<lparr>cap_tables := (cap_tables (sch k))[i := t]\<rparr>\<rparr>"
    using assms(1) p by (auto simp: install_current_def install_cap_current_def Let_def split: option.splits prod.splits)
  then show ?thesis using install_keeps [OF t(1)] by (simp add: confined_def Let_def)
qed

lemma own_table_same:
  assumes "same_rights k k'" "kcurrent cpu k' = kcurrent cpu k" "own_table cpu k = Some i"
    and "\<forall>p. kcurrent cpu k = Some p \<longrightarrow> p < length (tasks (sch k))"
  shows "own_table cpu k' = Some i"
proof -
  obtain p where p: "kcurrent cpu k = Some p" "caps (tasks (sch k) ! p) = i" "p < length (tasks (sch k))"
    using assms(3,4) by (auto simp: own_table_def)
  have m: "map caps (tasks (sch k')) = map caps (tasks (sch k))" using assms(1) by (simp add: same_rights_def authority_def)
  then have "length (tasks (sch k')) = length (tasks (sch k))" by (metis length_map)
  then have "caps (tasks (sch k') ! p) = i" using p m by (metis nth_map)
  then show ?thesis using p assms(2) by (simp add: own_table_def)
qed

text \<open>What a call may do to authority and to the object table: confined, and at most two object steps.\<close>

definition lawful :: "nat \<Rightarrow> kernel \<Rightarrow> kernel \<Rightarrow> bool" where
  "lawful i k k' \<longleftrightarrow> confined i k k' \<and> (\<exists>n\<le>2. obj_steps n (objs k) (objs k'))"

lemma lawful_same: "same_rights k k' \<Longrightarrow> lawful i k k'"
  using steps_0 by (fastforce simp: lawful_def confined_same same_rights_def)

lemma obj_step_one: "obj_step a b \<Longrightarrow> obj_steps 1 a b"
  using steps_Suc [OF steps_0] by simp

lemma obj_steps_trans: "obj_steps n b c \<Longrightarrow> obj_steps m a b \<Longrightarrow> obj_steps (m + n) a c"
proof (induction rule: obj_steps.induct)
  case (steps_Suc n x y z)
  then show ?case using obj_steps.steps_Suc by fastforce
qed simp

lemma create_object_step:
  "create_object en ob k = (r, k') \<Longrightarrow> obj_step (objs k) (objs k') \<and> sch k' = sch k"
  using step_create [of "objs k" "endpoint_exists (eps k)" "e_heap en RObject" ob] by (auto simp: create_object_def split: prod.splits)

lemma revoke_object_step: "obj_step (objs k) (objs (revoke_object ob k)) \<and> sch (revoke_object ob k) = sch k"
  by (simp add: revoke_object_def step_revoke)

lemma own_table_sch: "sch k' = sch k \<Longrightarrow> own_table cpu k' = own_table cpu k"
  by (simp add: own_table_def kcurrent_def)

lemma confined_sch: "sch k' = sch k \<Longrightarrow> confined i k k'"
  by (simp add: confined_def Let_def)

text \<open>Creating an object and handing out a capability for it, or taking the object back.\<close>

lemma mint_lawful:
  assumes "create_object en ob k = (Some ref, k1)" "install_current en c k1 = Some (h, k2)" "own_table (e_cpu en) k = Some i"
  shows "lawful i k k2 \<and> lawful i k (revoke_object ref k2)"
proof -
  note s = create_object_step [OF assms(1)]
  have "own_table (e_cpu en) k1 = Some i" using assms(3) own_table_sch [of k1 k] s by simp
  from install_confined [OF assms(2) this] have i: "confined i k1 k2" "objs k2 = objs k1" by auto
  have c: "confined i k k2" using confined_trans [OF confined_sch i(1)] s by simp
  have o1: "obj_steps 1 (objs k) (objs k2)" using s i(2) obj_step_one by simp
  note r = revoke_object_step [of k2 ref]
  have "confined i k (revoke_object ref k2)" using confined_trans [OF c confined_sch] r by simp
  moreover have "obj_steps 2 (objs k) (objs (revoke_object ref k2))"
    using steps_Suc [OF o1] r by (simp add: numeral_2_eq_2)
  moreover have "\<exists>n\<le>2. obj_steps n (objs k) (objs k2)" by (rule exI [of _ 1]) (simp add: o1 [simplified])
  moreover have "\<exists>n\<le>2. obj_steps n (objs k) (objs (revoke_object ref k2))" using calculation(2) by blast
  ultimately show ?thesis using c by (simp add: lawful_def)
qed

lemma create_lawful:
  assumes "create_object en ob k = (r, k1)"
  shows "lawful i k k1"
proof -
  note s = create_object_step [OF assms]
  have "\<exists>n\<le>2. obj_steps n (objs k) (objs k1)" using s by (intro exI [of _ 1]) (simp add: obj_step_one [simplified])
  then show ?thesis using s by (simp add: lawful_def confined_sch)
qed

lemma lawful_fields [simp]:
  "lawful i k (k'\<lparr>mem := a\<rparr>) = lawful i k k'" "lawful i (k\<lparr>mem := a\<rparr>) k' = lawful i k k'"
  "lawful i (k\<lparr>ntf := b\<rparr>) k' = lawful i k k'" "lawful i k (k'\<lparr>ntf := b\<rparr>) = lawful i k k'"
  "lawful i k (k'\<lparr>bindings := d\<rparr>) = lawful i k k'"
  by (simp_all add: lawful_def confined_def Let_def)

lemma own_table_fields [simp]: "own_table cpu (k\<lparr>mem := a\<rparr>) = own_table cpu k" "own_table cpu (k\<lparr>ntf := b\<rparr>) = own_table cpu k"
  by (simp_all add: own_table_def kcurrent_def)

lemma grant_lawful:
  assumes "grant en ob to_cap k = Some (p, k')" "own_table (e_cpu en) k = Some i"
  shows "lawful i k k'"
  using assms mint_lawful [OF _ _ assms(2)]
  by (fastforce simp: grant_def ret_def refuse_def create_lawful split: prod.splits option.splits)

lemma create_shared_lawful:
  assumes "create_shared en n k = Some (p, k')" "own_table (e_cpu en) k = Some i"
  shows "lawful i k k'"
proof -
  have *: "lawful i k k1" if "create_object en ob (k\<lparr>mem := s\<rparr>) = (r, k1)" for ob s r k1 using create_lawful [OF that] by simp
  have **: "lawful i k k2 \<and> lawful i k (revoke_object ref k2)"
    if "create_object en ob (k\<lparr>mem := s\<rparr>) = (Some ref, k1)" "install_current en c k1 = Some (h, k2)" for ob s ref k1 c h k2
    using mint_lawful [OF that] assms(2) by simp
  show ?thesis using assms(1)
    by (auto simp: create_shared_def ret_def refuse_def Let_def lawful_same dest: * ** split: if_splits prod.splits option.splits)
qed

lemma create_dma_lawful:
  assumes "create_dma en n k = Some (p, k')" "own_table (e_cpu en) k = Some i"
  shows "lawful i k k'"
proof -
  have *: "lawful i k k1" if "create_object en ob (k\<lparr>mem := s\<rparr>) = (r, k1)" for ob s r k1 using create_lawful [OF that] by simp
  have **: "lawful i k k2 \<and> lawful i k (revoke_object ref k2)"
    if "create_object en ob (k\<lparr>mem := s\<rparr>) = (Some ref, k1)" "install_current en c k1 = Some (h, k2)" for ob s ref k1 c h k2
    using mint_lawful [OF that] assms(2) by simp
  show ?thesis using assms(1)
    by (auto simp: create_dma_def ret_def refuse_def Let_def lawful_same dest: * ** split: if_splits prod.splits option.splits)
qed

section \<open>Every call is lawful\<close>

text \<open>The calls that only move memory, messages or scheduling state.\<close>

lemma sch_put_vm [simp]: "sch (put_vm v k) = sch k" "objs (put_vm v k) = objs k"
  by (simp_all add: put_vm_def)

lemma kmap_shared_rights: "kmap_shared cpu ob i n k = Some (v, k') \<Longrightarrow> same_rights k k'"
  by (auto simp: kmap_shared_def Let_def keeps_authority intro!: same_rights_sch split: option.splits prod.splits)

lemma kmap_device_rights: "kmap_device cpu ob a k = Some (v, k') \<Longrightarrow> same_rights k k'"
  by (auto simp: kmap_device_def Let_def keeps_authority intro!: same_rights_sch split: option.splits prod.splits)

lemma map_dma_rights: "map_dma_current cpu a n k = Some (v, k') \<Longrightarrow> same_rights k k'"
  by (auto simp: map_dma_current_def split: option.splits)

lemma iommu_bind_rights: "iommu_bind hw g sid a n k = Some (e, k') \<Longrightarrow> same_rights k k'"
  by (auto simp: iommu_bind_def iommu_bind_at_def split: option.splits sum.splits prod.splits)

lemma map_anon_rights: "map_anon_current cpu n k = Some (v, k') \<Longrightarrow> same_rights k k'"
  by (auto simp: map_anon_current_def Let_def authority_reserve intro!: same_rights_sch split: option.splits prod.splits)

lemma unmap_rights: "unmap_current cpu va n k = (v, k') \<Longrightarrow> same_rights k k'"
  by (auto simp: unmap_current_def Let_def split: option.splits prod.splits)

lemma confined_new_task:
  assumes "authority s = authority (sch k)"
  shows "confined i k (k\<lparr>sch := s\<lparr>tasks := tasks s @ ts\<rparr>\<rparr>)"
    and "confined i k (k\<lparr>sch := s\<lparr>tasks := tasks s @ ts, cap_tables := cap_tables s @ [t]\<rparr>\<rparr>)"
  using assms by (auto simp: confined_def authority_def Let_def nth_append)

lemma confined_put_vm [simp]: "confined i k (put_vm v k') = confined i k k'" "confined i (put_vm v k) k' = confined i k k'"
  by (simp_all add: confined_def)

lemma spawn_thread_lawful:
  assumes "kspawn_thread a b c cpu e n arg k = Some (v, k')"
  shows "lawful i k k'"
proof -
  have t: "confined i k ((put_vm w (k\<lparr>sch := s1\<rparr>))\<lparr>sch := s1\<lparr>tasks := tasks s1 @ [t]\<rparr>\<rparr>)"
    if "reserve_anon_shared p n (sch k) = (r, s1)" for w s1 t p r
    using confined_new_task(1) [OF authority_reserve [OF that], of i "[t]"] by (simp add: confined_def)
  have u: "confined i k (k\<lparr>sch := s1\<rparr>)" if "reserve_anon_shared p n (sch k) = (r, s1)" for p r s1
    using confined_same [OF same_rights_sch] authority_reserve [OF that] by blast
  have "confined i k k'" using assms t u confined_same [OF same_rights_refl, of i k]
    by (auto simp: kspawn_thread_def Let_def split: option.splits prod.splits if_splits)
  moreover have "objs k' = objs k" using assms
    by (auto simp: kspawn_thread_def Let_def split: option.splits prod.splits if_splits)
  ultimately show ?thesis using steps_0 by (auto simp: lawful_def)
qed

lemma start_process_lawful:
  assumes "start_process en sp k = (r, k')"
  shows "lawful i k k'"
proof -
  have sp: "confined i k (k\<lparr>sch := s\<rparr>)" if "spawn_user a b c sp t (sch k) = (x, s)" for a b c t x s
    using that confined_new_task(2) [OF refl, of i k] confined_same [OF same_rights_refl, of i k]
    by (auto simp: spawn_user_def Let_def split: if_splits)
  have "confined i k k'" using assms sp
    by (auto simp: start_process_def Let_def confined_same split: option.splits prod.splits)
  moreover have "objs k' = objs k" using assms by (auto simp: start_process_def Let_def split: option.splits prod.splits)
  ultimately show ?thesis using steps_0 by (auto simp: lawful_def)
qed

lemma lawful_put_vm [simp]: "lawful i k (put_vm v k') = lawful i k k'" "lawful i (put_vm v k) k' = lawful i k k'"
  by (simp_all add: lawful_def)

lemma spawn_child_lawful: "spawn_child en x k = Some (r, k') \<Longrightarrow> lawful i k k'"
  using start_process_lawful [of en _ "put_vm _ k"]
  by (auto simp: spawn_child_def lawful_same split: option.splits prod.splits)

lemma spawn_image_lawful:
  assumes "spawn_image en ptr len x k = Some (p, k')"
  shows "lawful i k k'"
proof -
  have s: "lawful i k k1" if "start_process en sp (put_vm v k) = (r, k1)" for sp v r k1
    using start_process_lawful [OF that] by simp
  show ?thesis using assms
    by (auto simp: spawn_image_def refuse_def ret_def lawful_same dest: s split: if_splits option.splits prod.splits)
qed

lemma task_exit_rights:
  assumes "task_exit cpu k = Some k'"
  shows "same_rights k k'"
proof -
  obtain d s where s: "exit_notify cpu (sch k) = Some (d, s)" using assms by (auto simp: task_exit_def split: option.splits)
  let ?k1 = "signal_bound d (k\<lparr>sch := s\<rparr>)"
  obtain sp s2 where s2: "exit_switch cpu (sch ?k1) = Some (sp, s2)" using assms s by (auto simp: task_exit_def Let_def split: option.splits)
  have "same_rights k ?k1"
    using same_rights_trans [OF same_rights_sch signal_bound_rights] authority_exit(1) [OF s] by blast
  then have "same_rights k (?k1\<lparr>sch := s2\<rparr>)" using authority_exit(2) [OF s2] by (simp add: same_rights_def)
  then show ?thesis using assms s s2 by (auto simp: task_exit_def Let_def split: option.splits)
qed

end
