(* ===== verification/SyscallProps.thy ===== *)
theory SyscallProps
  imports SyscallFrame
begin

text \<open>
  Properties of the system-call interface as a whole: what a call may do to the authority of other
  programs, what a revocation stops, and what a refused call leaves behind.
\<close>

section \<open>Every call is lawful\<close>

lemma lawful_obj_steps:
  assumes "confined i k k'" "obj_step (objs k) (objs k')"
  shows "lawful i k k'"
proof -
  have "\<exists>n\<le>2. obj_steps n (objs k) (objs k')" using assms(2) by (intro exI [of _ 1]) (simp add: obj_step_one [simplified])
  then show ?thesis using assms(1) by (simp add: lawful_def)
qed

lemma with_right_cases:
  assumes "with_right r f k = Some (p, k')" "\<And>x. r = Some (Inr x) \<Longrightarrow> f x = Some (p, k') \<Longrightarrow> P k'" "P k"
  shows "P k'"
  using assms by (auto simp: with_right_def refuse_def split: option.splits sum.splits)

lemma lawful_refl [simp]: "lawful i k k"
  by (simp add: lawful_same)

lemma finish_Some: "finish r = Some (p, k) \<longleftrightarrow> (\<exists>v. r = Some (v, k) \<and> p = Finished v)"
  by (auto simp: finish_def split: option.splits)

lemma recv_finish_lawful:
  assumes "sys_recv_finish en r res k = Some (p, k')" "own_table (e_cpu en) k = Some i"
  shows "lawful i k k'"
proof -
  have w: "sch k2 = sch k1 \<and> objs k2 = objs k1" if "write_user_msg pad cpu a m k1 = Some (ok, k2)" for pad cpu a m k1 ok k2
    using that by (auto simp: write_user_msg_def split: option.splits bool.splits)
  have i: "confined i k (k\<lparr>sch := s\<rparr>)" if "install_cap_current (e_heap en RCaps) (e_cpu en) c (sch k) = Some (h, s)" for c h s
    using install_confined [of en c k h "k\<lparr>sch := s\<rparr>"] that assms(2) by (simp add: install_current_def)
  have c: "confined i a k1 \<Longrightarrow> sch k2 = sch k1 \<Longrightarrow> confined i a k2" for a k1 k2
    using confined_trans [OF _ confined_sch] by blast
  have j: "install_cap_current (e_heap en RCaps) (e_cpu en) c (sch k) = Some (h, s) \<Longrightarrow>
      write_user_msg pad cpu a m (k\<lparr>sch := s\<rparr>) = Some (ok, k2) \<Longrightarrow> confined i k k2" for pad cpu a m ok k2 c h s
    using c [OF i] w by fastforce
  have l: "write_user_msg pad cpu a m k = Some (ok, k2) \<Longrightarrow> confined i k k2" for pad cpu a m ok k2
    using w confined_sch by fastforce
  have "confined i k k'" using assms(1) i confined_sch [of k k i]
    by (auto simp: sys_recv_finish_def refuse_def ret_def dest: j l split: sum.splits option.splits prod.splits if_splits)
  moreover have "objs k' = objs k" using assms(1)
    by (auto simp: sys_recv_finish_def refuse_def ret_def dest: w split: sum.splits option.splits prod.splits if_splits)
  ultimately show ?thesis using steps_0 by (auto simp: lawful_def)
qed

lemma sys_recv_lawful:
  assumes "sys_recv en d r k = Some (p, k')" "own_table (e_cpu en) k = Some i"
    and "\<forall>q. kcurrent (e_cpu en) k = Some q \<longrightarrow> q < length (tasks (sch k))"
  shows "lawful i k k'"
proof (rule with_right_cases [OF assms(1) [unfolded sys_recv_def]])
  fix e
  assume *: "(case recv_until (e_cpu en) (e_clock en) e d k of None \<Rightarrow> None | Some (Finished res, k1) \<Rightarrow> sys_recv_finish en r res k1
      | Some (Parked, k1) \<Rightarrow> Some (Parked, k1)) = Some (p, k')"
  then obtain q k1 where q: "recv_until (e_cpu en) (e_clock en) e d k = Some (q, k1)" by (auto split: option.splits)
  note s = recv_until_rights [OF q]
  show "lawful i k k'"
  proof (cases q)
    case (Finished res)
    have "own_table (e_cpu en) k1 = Some i"
      using own_table_same [OF s _ assms(2,3)] recv_until_current [OF q [unfolded Finished]] by simp
    then have l: "lawful i k1 k'" using recv_finish_lawful * q Finished by auto
    have "confined i k k'" using confined_trans [OF confined_same [OF s]] l by (simp add: lawful_def)
    then show ?thesis using l s by (simp add: lawful_def same_rights_def)
  next
    case Parked
    then show ?thesis using * q s by (simp add: lawful_same)
  qed
qed simp

lemma sys_send_rights: "sys_send en b r k = Some (p, k') \<Longrightarrow> same_rights k k'"
  by (auto simp: sys_send_def with_right_def refuse_def send_def send_nowait_def Let_def dest: send_inner_rights
      split: option.splits sum.splits if_splits)

lemma sys_wait_rights: "sys_wait en r k = Some (p, k') \<Longrightarrow> same_rights k k'"
  by (auto simp: sys_wait_def with_right_def refuse_def ret_def dest: wait_any_rights
      split: option.splits sum.splits progress.splits)

lemma sys_wait_any_rights: "sys_wait_any en r k = Some (p, k') \<Longrightarrow> same_rights k k'"
  by (auto simp: sys_wait_any_def with_right_def refuse_def ret_def Let_def dest: wait_any_rights
      split: option.splits sum.splits progress.splits if_splits bool.splits)

lemma sys_irq_register_lawful:
  assumes "sys_irq_register en r m = Some (p, m')" "own_table (e_cpu en) (kern m) = Some i"
  shows "lawful i (kern m) (kern m')"
proof -
  have *: "lawful i (kern m) k1" if "create_object en ob ((kern m)\<lparr>ntf := s\<rparr>) = (x, k1)" for ob s x k1
    using create_lawful [OF that] by simp
  have **: "lawful i (kern m) k2"
    if "create_object en ob ((kern m)\<lparr>ntf := s\<rparr>) = (Some ref, k1)" "install_current en c k1 = Some (h, k2)" for ob s ref k1 c h k2
    using mint_lawful [OF that] assms(2) by simp
  have g: "lawful i k (kern (snd (irq_register en a b (m1\<lparr>kern := k2\<rparr>)))) = lawful i k k2" for k a b m1 k2
    by (simp add: irq_register_def line_enable_def Let_def)
  have g': "irq_register en a b (m1\<lparr>kern := k2\<rparr>) = (x, m2) \<Longrightarrow> lawful i k (kern m2) = lawful i k k2" for k a b m1 k2 x m2
    using g by (metis snd_conv)
  show ?thesis using assms(1)
    by (auto simp: sys_irq_register_def with_right_def ret_def refuse_def g' dest: * **
        split: option.splits sum.splits prod.splits bool.splits)
qed

lemma dispatch_lawful:
  assumes "dispatch en r m = Some (p, m')" "own_table (e_cpu en) (kern m) = Some i"
    and "\<forall>q. kcurrent (e_cpu en) (kern m) = Some q \<longrightarrow> q < length (tasks (sch (kern m)))"
  shows "lawful i (kern m) (kern m')"
proof (cases "syscall_from_raw (number r)")
  case None
  then show ?thesis using assms(1) by (simp add: dispatch_def refuse_def)
next
  case (Some sc)
  let ?k = "kern m"
  have s: "authority x = authority (sch ?k) \<Longrightarrow> lawful i ?k (?k\<lparr>sch := x\<rparr>)" for x
    by (simp add: lawful_same same_rights_sch)
  note d = assms(1) [unfolded dispatch_def Let_def Some option.case]
  show ?thesis
  proof (cases sc)
    case Yield
    then show ?thesis using d by (auto simp: ret_def yield_now_def keeps_authority s)
  next
    case Exit
    then show ?thesis using d by (auto simp: intro: lawful_same [OF task_exit_rights] split: option.splits)
  next
    case Send
    then show ?thesis using d by (auto simp: on_kernel_Some intro: lawful_same [OF sys_send_rights])
  next
    case SendNoWait
    then show ?thesis using d by (auto simp: on_kernel_Some intro: lawful_same [OF sys_send_rights])
  next
    case Recv
    then show ?thesis using d sys_recv_lawful assms(2,3) by (auto simp: on_kernel_Some)
  next
    case RecvUntil
    then show ?thesis using d sys_recv_lawful assms(2,3) by (auto simp: on_kernel_Some)
  next
    case MapMemory
    then show ?thesis using d
      by (auto simp: on_kernel_Some sys_map_memory_def finish_Some intro: lawful_same [OF kmap_device_rights] elim!: with_right_cases)
  next
    case MapShared
    then show ?thesis using d
      by (auto simp: on_kernel_Some sys_map_shared_def finish_Some intro: lawful_same [OF kmap_shared_rights] elim!: with_right_cases)
  next
    case MapDma
    then show ?thesis using d
      by (auto simp: on_kernel_Some sys_map_dma_def finish_Some intro: lawful_same [OF map_dma_rights] elim!: with_right_cases)
  next
    case Revoke
    have "lawful i ?k (?k\<lparr>objs := t\<rparr>)" if "obj_revoke (objs ?k) ob = (l, t)" for ob l t
      using lawful_obj_steps [of i ?k "?k\<lparr>objs := t\<rparr>"] step_revoke [of "objs ?k" ob] that by (simp add: confined_sch)
    then show ?thesis using d Revoke
      by (auto simp: on_kernel_Some sys_revoke_def refuse_def ret_def Let_def split: option.splits prod.splits if_splits)
  next
    case IrqRegister
    then show ?thesis using d sys_irq_register_lawful assms(2) by simp
  next
    case Wait
    then show ?thesis using d by (auto simp: on_kernel_Some intro: lawful_same [OF sys_wait_rights])
  next
    case WaitAny
    then show ?thesis using d by (auto simp: on_kernel_Some intro: lawful_same [OF sys_wait_any_rights])
  next
    case SleepUntil
    then show ?thesis using d by (auto simp: on_kernel_Some on_sched_def s authority_sleep split: option.splits)
  next
    case SetAffinity
    then show ?thesis using d by (auto simp: on_kernel_Some on_sched_def s authority_set_affinity split: option.splits)
  next
    case SetClass
    then show ?thesis using d by (auto simp: on_kernel_Some on_sched_def finish_Some s authority_set_class split: option.splits)
  next
    case MapAnon
    then show ?thesis using d
      by (auto simp: on_kernel_Some sys_map_anon_def finish_Some refuse_def Let_def intro: lawful_same [OF map_anon_rights] split: if_splits)
  next
    case Unmap
    then show ?thesis using d unmap_rights [of _ _ _ ?k]
      by (auto simp: on_kernel_Some sys_unmap_def finish_Some refuse_def Let_def lawful_same split: if_splits)
  next
    case Spawn
    then show ?thesis using d
      by (auto simp: on_kernel_Some sys_spawn_def refuse_def ret_def intro: spawn_child_lawful split: option.splits bool.splits)
  next
    case SpawnImage
    then show ?thesis using d
      by (auto simp: on_kernel_Some sys_spawn_image_def refuse_def Let_def intro: spawn_image_lawful
          split: option.splits bool.splits if_splits)
  next
    case SpawnThread
    then show ?thesis using d
      by (auto simp: on_kernel_Some sys_spawn_thread_def finish_Some refuse_def Let_def intro: spawn_thread_lawful split: if_splits)
  next
    case GrantDevice
    then show ?thesis using d grant_lawful assms(2)
      by (auto simp: on_kernel_Some sys_grant_device_def elim!: with_right_cases)
  next
    case GrantIrq
    then show ?thesis using d grant_lawful assms(2)
      by (auto simp: on_kernel_Some sys_grant_irq_def elim!: with_right_cases)
  next
    case CreateShared
    then show ?thesis using d create_shared_lawful assms(2) by (auto simp: on_kernel_Some)
  next
    case CreateDma
    then show ?thesis using d create_dma_lawful assms(2) by (auto simp: on_kernel_Some)
  next
    case NotifyCreate
    then show ?thesis using d grant_lawful [of en _ _ "?k\<lparr>ntf := _\<rparr>"] assms(2)
      by (auto simp: on_kernel_Some sys_notify_create_def refuse_def split: prod.splits option.splits)
  next
    case NotifySignal
    then show ?thesis using d
      by (auto simp: on_kernel_Some sys_notify_signal_def ret_def lawful_same signal_rights elim!: with_right_cases)
  next
    case EndpointBind
    then show ?thesis using d
      by (auto simp: on_kernel_Some sys_endpoint_bind_def ret_def refuse_def Let_def lawful_same elim!: with_right_cases
          split: prod.splits if_splits)
  next
    case NotifyOnExit
    then show ?thesis using d
      by (auto simp: on_kernel_Some sys_notify_on_exit_def ret_def Let_def s authority_death elim!: with_right_cases
          split: option.splits)
  next
    case BindDma
    then show ?thesis using d
      by (auto simp: on_kernel_Some bind_dma_def ret_def refuse_def lawful_same iommu_bind_rights elim!: with_right_cases
          split: prod.splits option.splits)
  qed (use d in \<open>auto simp: on_kernel_Some sys_debug_putc_def sys_debug_write_def sys_irq_ack_def irq_ack_def line_enable_def
      sys_clock_now_def sys_task_id_def sys_fb_flip_def screen_flip_def sys_endpoint_pending_def sys_shared_pages_def
      sys_dma_phys_def ret_def refuse_def Let_def elim!: with_right_cases
      split: if_splits option.splits bool.splits prod.splits\<close>)
qed

end
