(* ===== verification/SmmuProps.thy ===== *)
theory SmmuProps
  imports Smmu AddressSpace
begin

unbundle bit_operations_syntax

text \<open>
  Device confinement: a stage-2 tree is a four-level table like those of the address spaces, so its growth, its
  frames and its teardown are theirs. A device reaches exactly the buffer it was bound to, whatever else the
  kernel holds in memory is left alone, and every table frame comes back.
\<close>

section \<open>Stage-2 trees are page tables\<close>

definition s2_space :: "nat \<Rightarrow> addr_space" where
  "s2_space r = \<lparr>root = of_nat r, data_phys = 0, entry = 0, heap_next = 0\<rparr>"

lemma s2_table: "descriptor_is_valid d \<longleftrightarrow> valid_desc d" "unat (d AND S2_ADDR_MASK) = frame_of d" "s2_index va l = table_index va l"
  "S2_LEAF_LEVEL = LEAF_LEVEL"
  by (simp_all add: descriptor_is_valid_def valid_desc_def S2_DESC_VALID_def DESC_VALID_def S2_ADDR_MASK_def frame_of_def
      ADDR_MASK_def s2_index_def table_index_def S2_LEAF_LEVEL_def LEAF_LEVEL_def)

lemma stage2_table_desc:
  assumes "f mod 4096 = 0" "f < 2 ^ 48"
  shows "stage2_table (of_nat f) = of_nat f OR DESC_TABLE"
  using and_addr_mask [OF assms] by (simp add: stage2_table_def DESC_ADDR_MASK_def ADDR_MASK_def S2_DESC_TABLE_def DESC_TABLE_def)

lemma s2_walk_leaf:
  assumes "vm_ok n t v"
  shows "s2_walk n t va v = leaf_from n t va v"
  using assms
proof (induction n arbitrary: t v)
  case (Suc n)
  let ?i = "table_index va (LEAF_LEVEL - Suc n)"
  note O = vm_okD [OF Suc.prems]
  show ?case
  proof (cases "valid_desc (read_entry (pwords v) t ?i)")
    case True
    then show ?thesis using Suc.IH [OF vm_ok_child [OF Suc.prems table_index_less True]]
      by (simp add: Let_def s2_table valid_desc_def)
  next
    case False
    from O(1,2) show ?thesis
    proof (cases rule: alloc_table_cases)
      case full
      then show ?thesis using False by (simp add: Let_def s2_table valid_desc_def)
    next
      case (taken f v1)
      have "owns (vpool v1) f" using taken(5) by (simp add: owns_def)
      note f = owned_frame [OF taken(2,3) this]
      define v2 where "v2 = v1\<lparr>pwords := write_entry t ?i (of_nat f OR DESC_TABLE) (pwords v1)\<rparr>"
      note L = grow_link [OF Suc.prems table_index_less False taken(2-6) v2_def]
      have "vm_ok n f v2" using vm_ok_child [OF growD(2) [OF L(1)] table_index_less, of va "LEAF_LEVEL - Suc n"] L(2-4) by simp
      then have "s2_walk n f va v2 = leaf_from n f va v2" by (rule Suc.IH)
      then show ?thesis using False taken(1) stage2_table_desc [OF f]
        by (simp add: Let_def s2_table valid_desc_def v2_def)
    qed
  qed
qed simp

text \<open>The leaf a device gets: valid, never one of the kernel's owned pages, and pointing at the output address.\<close>

lemma stage2_page_desc:
  "valid_desc (stage2_page pa)" "\<not> owned_desc (stage2_page pa)" "stage2_page pa AND S2AP_RW = S2AP_RW" "stage2_page pa AND S2_AF = S2_AF"
  "stage2_page pa AND ADDR_MASK = pa AND ADDR_MASK"
proof -
  let ?C = "0x00400000000007D7 :: u64"
  have "S2_DESC_TABLE OR S2_MEMATTR_NC OR S2AP_RW OR S2_SH_INNER OR S2_AF OR S2_XN = ?C"
    by (simp add: S2_DESC_TABLE_def S2_MEMATTR_NC_def S2AP_RW_def S2_SH_INNER_def S2_AF_def S2_XN_def)
  then have e: "stage2_page pa = (pa AND ADDR_MASK) OR ?C"
    by (simp only: stage2_page_def or.assoc) (simp add: DESC_ADDR_MASK_def ADDR_MASK_def)
  have m: "(pa AND ADDR_MASK OR ?C) AND x = (pa AND (ADDR_MASK AND x)) OR (?C AND x)" for x
    by (simp only: word_ao_dist and.assoc)
  show "valid_desc (stage2_page pa)" unfolding valid_desc_def e m by (simp add: ADDR_MASK_def DESC_VALID_def)
  show "\<not> owned_desc (stage2_page pa)" unfolding owned_desc_def e m by (simp add: ADDR_MASK_def SW_OWNED_def)
  show "stage2_page pa AND S2AP_RW = S2AP_RW" "stage2_page pa AND S2_AF = S2_AF" "stage2_page pa AND ADDR_MASK = pa AND ADDR_MASK"
    unfolding e m by (simp_all add: ADDR_MASK_def S2AP_RW_def S2_AF_def)
qed

text \<open>Freeing the tables of a tree that owns no page is the teardown of an address space.\<close>

lemma index_path:
  assumes "i < ENTRIES" "l \<le> LEAF_LEVEL"
  shows "\<exists>va. table_index va l = i \<and> (\<forall>l'\<le>LEAF_LEVEL. l' \<noteq> l \<longrightarrow> table_index va l' = table_index va0 l')"
proof -
  let ?k = "39 - 9 * l"
  have i9: "take_bit 9 i = i" using assms(1) by (simp add: take_bit_nat_eq_self ENTRIES_def)
  define va :: u64 where "va = (va0 AND NOT (push_bit ?k (mask 9))) OR push_bit ?k (of_nat i)"
  have i9': "bit i n \<Longrightarrow> n < 9" for n using i9 by (metis bit_take_bit_iff)
  then have bi: "bit (of_nat i :: u64) n \<longleftrightarrow> n < 9 \<and> bit i n" for n
    using i9' [of n] by (auto simp: bit_of_nat_iff dest: order.strict_trans [of n 9 64])
  have b: "bit va n \<longleftrightarrow> (if ?k \<le> n \<and> n < ?k + 9 then bit i (n - ?k) else bit va0 n)" if "n < 64" for n
    using that i9' [of "n - ?k"] by (auto simp: va_def bit_simps bi)
  have "table_index va l' = table_index va0 l'" if "l' \<le> LEAF_LEVEL" "l' \<noteq> l" for l'
  proof -
    have "bit va n = bit va0 n" if n: "39 - 9 * l' \<le> n \<and> n < 48 - 9 * l'" for n
    proof -
      have "\<not> (?k \<le> n \<and> n < ?k + 9)"
        using n \<open>l' \<le> LEAF_LEVEL\<close> \<open>l' \<noteq> l\<close> assms(2) unfolding LEAF_LEVEL_def by linarith
      moreover have "n < 64" using n by linarith
      ultimately show ?thesis using b [of n] by auto
    qed
    then show ?thesis unfolding table_index_bits [OF that(1)] by blast
  qed
  moreover have "table_index va l = i"
  proof -
    have m: "(0x1ff :: u64) = mask 9" by (simp add: mask_eq_exp_minus_1)
    have "drop_bit ?k va AND mask 9 = of_nat i"
    proof (rule bit_word_eqI)
      fix n assume "n < LENGTH(64)"
      show "bit (drop_bit ?k va AND mask 9) n = bit (of_nat i :: u64) n"
        using i9' [of n] by (cases "n < 9") (auto simp: bit_simps b bi)
    qed
    then show ?thesis using i9 assms(1) by (simp add: table_index_def m unsigned_of_nat take_bit_nat_eq_self ENTRIES_def)
  qed
  ultimately show ?thesis by blast
qed

fun no_owned :: "nat \<Rightarrow> (nat \<Rightarrow> u64) \<Rightarrow> nat \<Rightarrow> bool" where
  "no_owned 0 m t \<longleftrightarrow> (\<forall>i<ENTRIES. \<not> owned_desc (read_entry m t i))"
| "no_owned (Suc n) m t \<longleftrightarrow> (\<forall>i<ENTRIES. valid_desc (read_entry m t i) \<longrightarrow> no_owned n m (frame_of (read_entry m t i)))"

lemma lookup_from_path:
  "\<lbrakk>\<And>l. LEAF_LEVEL - n \<le> l \<Longrightarrow> l \<le> LEAF_LEVEL \<Longrightarrow> table_index va l = table_index va' l; n \<le> LEAF_LEVEL\<rbrakk> \<Longrightarrow>
   lookup_from n m t va = lookup_from n m t va'"
proof (induction n arbitrary: t)
  case (Suc n)
  have "lookup_from n m t va = lookup_from n m t va'" for t using Suc.prems by (intro Suc.IH) auto
  then show ?case using Suc.prems(1) [of "LEAF_LEVEL - Suc n"] by (simp add: Let_def)
qed simp

lemma no_ownedI:
  assumes "\<And>va. owned_of (lookup_from n m t va) = {}" "kinds_ok n m t" "n \<le> LEAF_LEVEL"
  shows "no_owned n m t"
  using assms
proof (induction n arbitrary: t)
  case 0
  have "\<not> owned_desc (read_entry m t i)" if i: "i < ENTRIES" for i
  proof -
    obtain va where "table_index va LEAF_LEVEL = i" using index_path [OF i, of LEAF_LEVEL] by blast
    then show ?thesis using 0(1) [of va, unfolded lookup_leaf owned_of_present] by (auto split: if_splits)
  qed
  then show ?case by simp
next
  case (Suc n)
  have "no_owned n m (frame_of (read_entry m t i))" if i: "i < ENTRIES" "valid_desc (read_entry m t i)" for i
  proof (rule Suc.IH)
    fix va0
    obtain va where va: "table_index va (LEAF_LEVEL - Suc n) = i"
      "\<forall>l'\<le>LEAF_LEVEL. l' \<noteq> LEAF_LEVEL - Suc n \<longrightarrow> table_index va l' = table_index va0 l'"
      using index_path [OF i(1), of "LEAF_LEVEL - Suc n"] by auto
    have "lookup_from n m (frame_of (read_entry m t i)) va0 = lookup_from n m (frame_of (read_entry m t i)) va"
      using va(2) Suc.prems(3) by (intro lookup_from_path) auto
    also have "\<dots> = lookup_from (Suc n) m t va" using va(1) i Suc.prems(2) by (simp add: Let_def)
    finally show "owned_of (lookup_from n m (frame_of (read_entry m t i)) va0) = {}" using Suc.prems(1) by simp
  qed (use Suc.prems i in auto)
  then show ?case by simp
qed

lemma free_stage2_frames:
  assumes "no_owned n m t" "pwords v = m"
  shows "free_stage2_level n t v = v\<lparr>vpool := foldl pool_free (vpool v) (tree_frames n m t)\<rparr>"
  using assms
proof (induction n arbitrary: t v)
  case 0
  have e: "map (\<lambda>i. if owned_desc (read_entry m t i) then [frame_of (read_entry m t i)] else []) [0..<ENTRIES] = map (\<lambda>_. []) [0..<ENTRIES]"
    using 0(1) by (intro map_cong) auto
  have "tree_frames 0 m t = [t]" unfolding tree_frames.simps e by (simp add: concat_eq_Nil_conv)
  then show ?case by (simp del: tree_frames.simps)
next
  case (Suc n)
  let ?fs = "\<lambda>i. if valid_desc (read_entry m t i) then tree_frames n m (frame_of (read_entry m t i)) else []"
  let ?g = "\<lambda>v idx. let desc = read_entry (pwords v) t idx
                     in if descriptor_is_valid desc then free_stage2_level n (unat (desc AND S2_ADDR_MASK)) v else v"
  have step: "?g w i = w\<lparr>vpool := foldl pool_free (vpool w) (?fs i)\<rparr>" if "pwords w = m" "i < ENTRIES" for w i
    using Suc.IH [of "frame_of (read_entry m t i)" w] Suc.prems(1) that by (simp add: Let_def s2_table)
  have "foldl ?g v is = v\<lparr>vpool := foldl pool_free (vpool v) (concat (map ?fs is))\<rparr>" if "set is \<subseteq> {..<ENTRIES}" "pwords v = m" for v "is"
    using that
  proof (induction "is" arbitrary: v)
    case (Cons i "is")
    have "foldl ?g v (i # is) = foldl ?g (v\<lparr>vpool := foldl pool_free (vpool v) (?fs i)\<rparr>) is"
      using step [of v i] Cons.prems by simp
    then show ?case using Cons.IH [of "v\<lparr>vpool := foldl pool_free (vpool v) (?fs i)\<rparr>"] Cons.prems by simp
  qed simp
  then show ?case using Suc.prems(2) by (simp add: ENTRIES_def lessThan_atLeast0)
qed

lemma free_stage2:
  assumes "space_inv U (s2_space r) v" "r < 2 ^ 64" "\<forall>va. owned_of (lookup (s2_space r) va (pwords v)) = {}"
  shows "free_stage2_table r v = destroy (s2_space r) v"
proof -
  have u: "unat (root (s2_space r)) = r" using assms(2) by (simp add: s2_space_def unsigned_of_nat take_bit_nat_eq_self)
  have "vm_ok LEAF_LEVEL r v" using assms(1) u by (simp add: space_inv_def space_ok_def)
  then have "no_owned LEAF_LEVEL (pwords v) r"
    using assms(3) u vm_okD(5) by (intro no_ownedI) (auto simp: lookup_def)
  then show ?thesis using free_stage2_frames by (simp add: free_stage2_table_def destroy_def free_table_frames u s2_table)
qed

section \<open>Building the map\<close>

text \<open>One turn of the loop is one mapping; memory outside the tree's own frames and the fresh ones is not touched.\<close>

definition untouched :: "(nat \<times> nat) set \<Rightarrow> vm \<Rightarrow> vm \<Rightarrow> bool" where
  "untouched U v v' \<longleftrightarrow> (\<forall>b\<in>U. \<forall>a\<in>block b. pwords v' a = pwords v a)"

lemma untouched_refl [simp]: "untouched U v v"
  by (simp add: untouched_def)

lemma untouched_trans: "untouched U v1 v2 \<Longrightarrow> untouched U v2 v3 \<Longrightarrow> untouched U v1 v3"
  by (simp add: untouched_def)

lemma page_block: "page f = block (f, 1)"
  by (simp add: page_def block_def)

lemma map_page_untouched:
  assumes inv: "space_inv U sp v" and old: "owned_of (lookup sp va (pwords v)) = {}" and d: "\<not> owned_desc d"
    and m: "map_page sp va d v = Some (r, v')"
  shows "untouched U v v'" "space_inv U sp v'"
    "lookup sp va' (pwords v') = (if r \<and> same_page va va' then present d else lookup sp va' (pwords v))"
proof -
  have p: "owned_of (present d) = {}" using d by (simp add: owned_of_present)
  have I: "space_ok sp v" "set (pool_used (vpool v)) = U \<union> (\<lambda>f. (f, 1)) ` space_frames sp v" "\<forall>f\<in>space_frames sp v. (f, 1) \<notin> U"
    using inv by (auto simp: space_inv_def)
  obtain N where N: "set (pool_used (vpool v')) = set (pool_used (vpool v)) \<union> (\<lambda>f. (f, 1)) ` N" "\<forall>f\<in>N. \<not> owns (vpool v) f"
      "\<forall>a. (\<forall>f\<in>space_frames sp v \<union> N. a \<notin> page f) \<longrightarrow> pwords v' a = pwords v a" "space_ok sp v'"
    using map_page_spec [OF I(1), of d va] p m by auto
  show sp': "space_inv U sp v'" "lookup sp va' (pwords v') = (if r \<and> same_page va va' then present d else lookup sp va' (pwords v))"
    using map_foreign [OF inv old d] m by auto
  have wf: "pool_wf (vpool v')" using space_okD(1) [OF N(4)] .
  have "a \<notin> page f" if b: "b \<in> U" "a \<in> block b" "f \<in> space_frames sp v \<union> N" for a b f
  proof -
    have "(f, 1) \<in> set (pool_used (vpool v'))" "b \<in> set (pool_used (vpool v'))" using b N(1) I(2) by auto
    moreover have "(f, 1) \<noteq> b" using b(1,3) I N(2) by (auto simp: owns_def)
    ultimately have "block (f, 1) \<inter> block b = {}" using pool_blocks_disjoint [OF wf] by blast
    then show ?thesis using b(2) by (auto simp: page_block)
  qed
  then show "untouched U v v'" using N(3) unfolding untouched_def by blast
qed

lemma s2_turn:
  assumes "space_inv U (s2_space r) v" "r < 2 ^ 64"
  shows "map_page (s2_space r) va d v =
     (case s2_walk S2_LEAF_LEVEL r va v of
        None \<Rightarrow> None
      | Some (None, v1) \<Rightarrow> Some (False, v1)
      | Some (Some leaf, v1) \<Rightarrow> Some (True, v1\<lparr>pwords := write_entry leaf (s2_index va S2_LEAF_LEVEL) d (pwords v1)\<rparr>))"
proof -
  have u: "unat (root (s2_space r)) = r" using assms(2) by (simp add: s2_space_def unsigned_of_nat take_bit_nat_eq_self)
  have "vm_ok LEAF_LEVEL r v" using assms(1) u by (simp add: space_inv_def space_ok_def)
  then show ?thesis unfolding s2_table(3,4) by (simp add: map_page_def leaf_table_def u s2_walk_leaf)
qed

lemma checked_page:
  assumes "unat x + n * 4096 \<le> 2 ^ 48" "i < n"
  shows "checked_add x (of_nat (i * PAGE_SIZE)) = Some (run_page x i)" "unat (run_page x i) = unat x + i * 4096"
proof -
  have l: "unat x + i * 4096 < 2 ^ 48" using assms by simp
  then have w: "unat (of_nat (i * PAGE_SIZE) :: u64) = i * 4096" by (simp add: PAGE_SIZE_def unsigned_of_nat take_bit_nat_eq_self del: of_nat_mult)
  have r: "run_page x i = x + of_nat (i * PAGE_SIZE)" by (simp add: run_page_def PAGE_SIZE_def PAGE_4K_def)
  show "checked_add x (of_nat (i * PAGE_SIZE)) = Some (run_page x i)" unfolding r using l w by (simp add: checked_add_def del: of_nat_mult)
  show "unat (run_page x i) = unat x + i * 4096" unfolding r using l w by (subst unat_plus_exact) (simp_all del: of_nat_mult)
qed

lemma build_pages_spec:
  assumes "space_inv U (s2_space r) v" "r < 2 ^ 64" "\<forall>va. owned_of (lookup (s2_space r) va (pwords v)) = {}"
    "unat iova + (i + n) * 4096 \<le> 2 ^ 48" "unat pa + (i + n) * 4096 \<le> 2 ^ 48"
  shows "\<exists>ok v'. build_pages i n iova pa r v = Some (ok, v') \<and> untouched U v v' \<and>
    (if ok then space_inv U (s2_space r) v' \<and> (\<forall>va. owned_of (lookup (s2_space r) va (pwords v')) = {})
         \<and> (\<forall>j<n. lookup (s2_space r) (run_page iova (i + j)) (pwords v') = Some (stage2_page (run_page pa (i + j))))
         \<and> (\<forall>va. (\<forall>j<n. \<not> same_page (run_page iova (i + j)) va) \<longrightarrow>
               lookup (s2_space r) va (pwords v') = lookup (s2_space r) va (pwords v))
     else set (pool_used (vpool v')) = U \<and> pool_wf (vpool v') \<and> pool_low (vpool v'))"
  using assms
proof (induction n arbitrary: i v)
  case 0
  then show ?case by (intro exI [of _ True] exI [of _ v]) simp
next
  case (Suc n)
  let ?sp = "s2_space r" let ?in = "run_page iova i" let ?out = "run_page pa i"
  have c: "checked_add iova (of_nat (i * PAGE_SIZE)) = Some ?in" "checked_add pa (of_nat (i * PAGE_SIZE)) = Some ?out"
    using checked_page(1) [of iova "i + Suc n" i] checked_page(1) [of pa "i + Suc n" i] Suc.prems(4,5) by simp_all
  obtain ok v1 where m: "map_page ?sp ?in (stage2_page ?out) v = Some (ok, v1)"
    using map_foreign [OF Suc.prems(1) Suc.prems(3) [rule_format] stage2_page_desc(2)] by blast
  note M = map_page_untouched [OF Suc.prems(1) Suc.prems(3) [rule_format] stage2_page_desc(2) m]
  have lk: "\<forall>va. owned_of (lookup ?sp va (pwords v1)) = {}"
    using M(3) Suc.prems(3) stage2_page_desc(2) by (simp add: owned_of_present)
  note turn = m [unfolded s2_turn [OF Suc.prems(1,2)]]
  show ?case
  proof (cases ok)
    case False
    then have w: "s2_walk S2_LEAF_LEVEL r ?in v = Some (None, v1)" using turn by (auto split: option.splits prod.splits)
    define v' where "v' = free_stage2_table r v1"
    have d: "v' = destroy ?sp v1" unfolding v'_def by (rule free_stage2 [OF M(2) Suc.prems(2) lk])
    have "pwords v' = pwords v1" unfolding d by (simp add: destroy_def free_table_frames)
    then have "untouched U v v'" using M(1) by (simp add: untouched_def)
    moreover have "set (pool_used (vpool v')) = U" "pool_wf (vpool v')" unfolding d by (rule destroy_inv [OF M(2)])+
    moreover have "pool_low (vpool v')" unfolding d
      using M(2) by (auto simp: destroy_def free_table_frames space_inv_def dest!: space_okD(2) intro: pool_free_list_low)
    moreover have "build_pages i (Suc n) iova pa r v = Some (False, v')" using w by (simp add: c v'_def Let_def del: of_nat_mult)
    ultimately show ?thesis by auto
  next
    case True
    then obtain leaf v0 where w: "s2_walk S2_LEAF_LEVEL r ?in v = Some (Some leaf, v0)"
      "v1 = v0\<lparr>pwords := write_entry leaf (s2_index ?in S2_LEAF_LEVEL) (stage2_page ?out) (pwords v0)\<rparr>"
      using turn by (auto split: option.splits prod.splits)
    have step: "build_pages i (Suc n) iova pa r v = build_pages (Suc i) n iova pa r v1" using w by (simp add: c Let_def del: of_nat_mult)
    obtain ok' v' where I: "build_pages (Suc i) n iova pa r v1 = Some (ok', v')" "untouched U v1 v'"
      "if ok' then space_inv U ?sp v' \<and> (\<forall>va. owned_of (lookup ?sp va (pwords v')) = {})
         \<and> (\<forall>j<n. lookup ?sp (run_page iova (Suc i + j)) (pwords v') = Some (stage2_page (run_page pa (Suc i + j))))
         \<and> (\<forall>va. (\<forall>j<n. \<not> same_page (run_page iova (Suc i + j)) va) \<longrightarrow> lookup ?sp va (pwords v') = lookup ?sp va (pwords v1))
       else set (pool_used (vpool v')) = U \<and> pool_wf (vpool v') \<and> pool_low (vpool v')"
      using Suc.IH [OF M(2) Suc.prems(2) lk, of "Suc i"] Suc.prems(4,5) by (auto simp: algebra_simps)
    have "if ok' then space_inv U ?sp v' \<and> (\<forall>va. owned_of (lookup ?sp va (pwords v')) = {})
         \<and> (\<forall>j<Suc n. lookup ?sp (run_page iova (i + j)) (pwords v') = Some (stage2_page (run_page pa (i + j))))
         \<and> (\<forall>va. (\<forall>j<Suc n. \<not> same_page (run_page iova (i + j)) va) \<longrightarrow> lookup ?sp va (pwords v') = lookup ?sp va (pwords v))
       else set (pool_used (vpool v')) = U \<and> pool_wf (vpool v') \<and> pool_low (vpool v')"
    proof (cases ok')
      case ok': True
      have "lookup ?sp (run_page iova (i + j)) (pwords v') = Some (stage2_page (run_page pa (i + j)))" if "j < Suc n" for j
      proof (cases j)
        case 0
        have "i + Suc n \<le> 2 ^ 36" using Suc.prems(4) by simp
        then have "\<not> same_page (run_page iova (Suc i + j')) ?in" if "j' < n" for j'
          using run_pages_distinct [of iova "Suc i + j'" i] that by auto
        then have "lookup ?sp ?in (pwords v') = lookup ?sp ?in (pwords v1)" using I(3) ok' by simp
        then show ?thesis using 0 M(3) True stage2_page_desc(1) by (simp add: present_def)
      next
        case (Suc j')
        then show ?thesis using I(3) ok' that by auto
      qed
      moreover have "lookup ?sp va (pwords v') = lookup ?sp va (pwords v)" if "\<forall>j<Suc n. \<not> same_page (run_page iova (i + j)) va" for va
      proof -
        have "\<not> same_page (run_page iova (Suc i + j)) va" if "j < n" for j
          using \<open>\<forall>j<Suc n. \<not> same_page (run_page iova (i + j)) va\<close> [rule_format, of "Suc j"] that by simp
        moreover have "\<not> same_page ?in va" using that [rule_format, of 0] by simp
        ultimately show ?thesis using I(3) ok' M(3) by simp
      qed
      ultimately show ?thesis using I(3) ok' by simp
    qed (use I(3) in simp)
    then show ?thesis using I(1) untouched_trans [OF M(1) I(2)] step by auto
  qed
qed

lemma root_untouched:
  assumes "pool_wf (vpool v)" "pool_low (vpool v)" "alloc_table v = Some (Some r, v1)"
  shows "untouched (set (pool_used (vpool v))) v v1" "r < 2 ^ 48" "r mod 4096 = 0"
proof -
  from assms(1,2) obtain "pool_wf (vpool v1)" "pool_low (vpool v1)" "\<not> owns (vpool v) r"
      "set (pool_used (vpool v1)) = insert (r, 1) (set (pool_used (vpool v)))" "pwords v1 = zero_frame r (pwords v)"
    by (cases rule: alloc_table_cases) (use assms(3) in auto)
  note A = this
  show "r < 2 ^ 48" "r mod 4096 = 0" using owned_frame [OF A(1,2), of r] A(4) by (simp_all add: owns_def)
  have "a \<notin> page r" if "b \<in> set (pool_used (vpool v))" "a \<in> block b" for a b
    using that pool_blocks_disjoint [OF A(1), of b "(r, 1)"] A(3,4) by (auto simp: page_block owns_def)
  then show "untouched (set (pool_used (vpool v))) v v1" unfolding untouched_def A(5) zero_frame_page by simp
qed

lemma build_stage2_map_spec:
  assumes "pool_wf (vpool v)" "pool_low (vpool v)" "unat iova + n * 4096 \<le> 2 ^ 48" "unat pa + n * 4096 \<le> 2 ^ 48"
  defines "U \<equiv> set (pool_used (vpool v))"
  shows "\<exists>r v'. build_stage2_map iova pa n v = Some (r, v') \<and> untouched U v v' \<and> pool_wf (vpool v') \<and> pool_low (vpool v') \<and>
    (case r of
       None \<Rightarrow> set (pool_used (vpool v')) = U
     | Some r \<Rightarrow> r < 2 ^ 48 \<and> r mod 4096 = 0 \<and> space_inv U (s2_space r) v'
         \<and> (\<forall>va. owned_of (lookup (s2_space r) va (pwords v')) = {})
         \<and> (\<forall>j<n. lookup (s2_space r) (run_page iova j) (pwords v') = Some (stage2_page (run_page pa j)))
         \<and> (\<forall>va. (\<forall>j<n. \<not> same_page (run_page iova j) va) \<longrightarrow> lookup (s2_space r) va (pwords v') = None))"
  using assms(1,2)
proof (cases rule: alloc_table_cases)
  case full
  then show ?thesis using assms by (simp add: build_stage2_map_def)
next
  case (taken r v1)
  note R = root_untouched [OF assms(1,2) taken(1)]
  note S = root_space(1,2) [OF assms(1,2) taken(1), where dp = 0 and en = 0 and hn = 0, folded s2_space_def]
  have r64: "r < 2 ^ 64" using R(2) by simp
  have S': "space_inv U (s2_space r) v1" using S(1) by (simp add: U_def)
  have e: "\<forall>va. owned_of (lookup (s2_space r) va (pwords v1)) = {}" using S(2) by (simp add: owned_of_def)
  obtain ok v' where B: "build_pages 0 n iova pa r v1 = Some (ok, v')" "untouched U v1 v'"
    "if ok then space_inv U (s2_space r) v' \<and> (\<forall>va. owned_of (lookup (s2_space r) va (pwords v')) = {})
         \<and> (\<forall>j<n. lookup (s2_space r) (run_page iova (0 + j)) (pwords v') = Some (stage2_page (run_page pa (0 + j))))
         \<and> (\<forall>va. (\<forall>j<n. \<not> same_page (run_page iova (0 + j)) va) \<longrightarrow>
               lookup (s2_space r) va (pwords v') = lookup (s2_space r) va (pwords v1))
     else set (pool_used (vpool v')) = U \<and> pool_wf (vpool v') \<and> pool_low (vpool v')"
    using build_pages_spec [OF S' r64 e, of iova 0 n pa] assms(3,4) by auto
  have u: "untouched U v v'" using untouched_trans [OF _ B(2)] R(1) by (simp add: U_def)
  show ?thesis
  proof (cases ok)
    case True
    moreover from this have "pool_wf (vpool v')" "pool_low (vpool v')" using B(3) space_okD(1,2) by (auto simp: space_inv_def)
    ultimately show ?thesis using B u R(2,3) S(2) by (auto simp: build_stage2_map_def taken(1))
  next
    case False
    then show ?thesis using B u by (auto simp: build_stage2_map_def taken(1))
  qed
qed

section \<open>The stream table and the command queue\<close>

lemma write_words_outside: "a < x \<or> x + 8 * length ws \<le> a \<Longrightarrow> write_words x ws m a = m a"
  by (induction ws arbitrary: x m) auto

lemma write_words_at: "i < length ws \<Longrightarrow> write_words x ws m (x + 8 * i) = ws ! i"
proof (induction ws arbitrary: x m i)
  case (Cons w ws)
  show ?case
  proof (cases i)
    case 0
    then show ?thesis by (simp add: write_words_outside)
  next
    case (Suc j)
    then show ?thesis using Cons.IH [of j "x + 8" "m(x := w)"] Cons.prems by (simp add: add.assoc fun_upd_def)
  qed
qed simp

definition ste_at :: "(nat \<Rightarrow> u64) \<Rightarrow> smmu \<Rightarrow> u32 \<Rightarrow> u64 list" where
  "ste_at m s sid = map (\<lambda>i. m (unat (strtab_phys s) + 8 * (unat sid * STE_DWORDS) + 8 * i)) [0..<STE_DWORDS]"

definition strtab_block :: "smmu \<Rightarrow> nat \<times> nat" where
  "strtab_block s = (unat (strtab_phys s), 4)"

definition cmdq_block :: "smmu \<Rightarrow> nat \<times> nat" where
  "cmdq_block s = (unat (cmdq_phys s), 1)"

lemma write_ste_spec:
  assumes "unat sid < 256" "length ste = STE_DWORDS"
  shows "ste_at (pwords (write_ste (strtab_phys s) sid ste v)) s sid' = (if sid' = sid then ste else ste_at (pwords v) s sid')"
    "a \<notin> block (strtab_block s) \<Longrightarrow> pwords (write_ste (strtab_phys s) sid ste v) a = pwords v a"
    "vpool (write_ste (strtab_phys s) sid ste v) = vpool v"
proof -
  let ?x = "unat (strtab_phys s) + 8 * (unat sid * STE_DWORDS)"
  show "ste_at (pwords (write_ste (strtab_phys s) sid ste v)) s sid' = (if sid' = sid then ste else ste_at (pwords v) s sid')"
  proof (cases "sid' = sid")
    case True
    then show ?thesis using assms(2) by (intro nth_equalityI) (simp_all add: ste_at_def write_ste_def write_words_at)
  next
    case False
    then have "unat sid' \<noteq> unat sid" by (simp add: word_unat_eq_iff)
    then have "unat (strtab_phys s) + 8 * (unat sid' * STE_DWORDS) + 8 * i < ?x
        \<or> ?x + 8 * length ste \<le> unat (strtab_phys s) + 8 * (unat sid' * STE_DWORDS) + 8 * i" if "i < STE_DWORDS" for i
      using that assms(2) unfolding STE_DWORDS_def by linarith
    then show ?thesis using False by (simp add: ste_at_def write_ste_def write_words_outside)
  qed
  show "pwords (write_ste (strtab_phys s) sid ste v) a = pwords v a" if "a \<notin> block (strtab_block s)"
    unfolding write_ste_def using that assms
    by (simp add: strtab_block_def block_def PAGE_SIZE_def STE_DWORDS_def) (rule write_words_outside, auto)
  show "vpool (write_ste (strtab_phys s) sid ste v) = vpool v" by (simp add: write_ste_def)
qed

lemma push_cmd_spec:
  assumes "push_cmd cmd (s, v) = (s', v')" "length cmd = CMD_DWORDS"
  shows "s' = s\<lparr>cmdq_prod := cmdq_prod s + 1\<rparr>" "vpool v' = vpool v" "a \<notin> block (cmdq_block s) \<Longrightarrow> pwords v' a = pwords v a"
proof -
  let ?slot = "unat (cmdq_prod s AND (CMDQ_ENTRIES - 1))"
  have "?slot \<le> unat (CMDQ_ENTRIES - 1)" by (intro word_le_nat_alt [THEN iffD1] word_and_le1)
  then have slot: "?slot < 256" by (simp add: CMDQ_ENTRIES_def CMDQ_LOG2_def)
  show "s' = s\<lparr>cmdq_prod := cmdq_prod s + 1\<rparr>" "vpool v' = vpool v" using assms(1) by (auto simp: push_cmd_def Let_def)
  have "pwords v' = write_words (unat (cmdq_phys s) + 8 * (?slot * CMD_DWORDS)) cmd (pwords v)"
    using assms(1) by (auto simp: push_cmd_def Let_def)
  then show "pwords v' a = pwords v a" if "a \<notin> block (cmdq_block s)"
    using that slot assms(2) by (simp add: cmdq_block_def block_def PAGE_SIZE_def CMD_DWORDS_def) (rule write_words_outside, auto)
qed

lemma post_commands:
  assumes "push_cmd cmd_sync (push_cmd (cmd_cfgi_ste sid) (s, v)) = (s', v')"
  shows "s' = s\<lparr>cmdq_prod := cmdq_prod s + 2\<rparr>" "vpool v' = vpool v" "a \<notin> block (cmdq_block s) \<Longrightarrow> pwords v' a = pwords v a"
proof -
  obtain s1 v1 where p: "push_cmd (cmd_cfgi_ste sid) (s, v) = (s1, v1)" by fastforce
  note A = push_cmd_spec [OF p] and B = push_cmd_spec [OF assms [unfolded p]]
  have l: "length (cmd_cfgi_ste sid) = CMD_DWORDS" "length cmd_sync = CMD_DWORDS"
    by (simp_all add: cmd_cfgi_ste_def cmd_sync_def CMD_DWORDS_def)
  show "s' = s\<lparr>cmdq_prod := cmdq_prod s + 2\<rparr>" "vpool v' = vpool v" using A(1,2) B(1,2) l by simp_all
  show "pwords v' a = pwords v a" if "a \<notin> block (cmdq_block s)"
    using A(1,3) B(3) l that by (simp add: cmdq_block_def)
qed

end
