(* ===== verification/SmmuConfine.thy ===== *)
theory SmmuConfine
  imports SmmuProps
begin

unbundle bit_operations_syntax

text \<open>
  What binding promises: at every moment a device reaches exactly the buffer its stream is bound to. The device's
  side is the architecture's rule for a stream-table entry, on the words of memory; the kernel's side is every
  sequence of binds, unbinds and other kernel work.
\<close>

section \<open>What a device reaches\<close>

text \<open>SMMUv3: a stream past the table is aborted (\<open>GBPA\<close>); an entry that is invalid or configured to abort aborts; one
  configured for stage 2 only sends the address, if it is within the input size, through the table. Any other
  configuration is counted as reaching everything.\<close>

definition device_translate :: "(nat \<Rightarrow> u64) \<Rightarrow> smmu \<Rightarrow> u32 \<Rightarrow> u64 \<Rightarrow> u64 option" where
  "device_translate m s sid va =
     (if unat sid \<ge> 2 ^ STRTAB_LOG2 then None
      else let ste = ste_at m s sid; config = drop_bit 1 (ste ! 0) AND 0b111
        in if ste ! 0 AND 1 = 0 \<or> config = 0 then None
           else if config \<noteq> STE_CONFIG_S2_ONLY then Some va
           else if unat va \<ge> 2 ^ (64 - unat (drop_bit 32 (ste ! 2) AND 0x3f)) then None
           else (case lookup_from LEAF_LEVEL m (unat (ste ! 3 AND S2TTB_MASK)) va of
                   None \<Rightarrow> None
                 | Some d \<Rightarrow> if d AND S2_AF = 0 \<or> d AND S2AP_RW \<noteq> S2AP_RW then None
                             else Some ((d AND ADDR_MASK) OR (va AND 0xFFF))))"

text \<open>A binding: the root of its tree, the first input address, the buffer and its pages.\<close>

type_synonym binding = "nat \<times> u64 \<times> u64 \<times> nat"

definition regime_ok :: "u64 \<Rightarrow> u64 \<Rightarrow> nat \<Rightarrow> bool" where
  "regime_ok iova pa n \<longleftrightarrow> unat iova mod 4096 = 0 \<and> unat pa mod 4096 = 0 \<and> unat iova + n * 4096 \<le> 2 ^ 40 \<and> unat pa + n * 4096 \<le> 2 ^ 48"

definition ste_of :: "binding option \<Rightarrow> u64 list" where
  "ste_of b = (case b of None \<Rightarrow> abort_ste | Some (r, _) \<Rightarrow> stage2_ste (of_nat r) (stage2 DMA_VMID))"

definition tree_ok :: "vm \<Rightarrow> binding option \<Rightarrow> bool" where
  "tree_ok v b \<longleftrightarrow>
     (case b of
        None \<Rightarrow> True
      | Some (r, iova, pa, n) \<Rightarrow>
          r < 2 ^ 48 \<and> r mod 4096 = 0 \<and> regime_ok iova pa n
          \<and> space_ok (s2_space r) v \<and> (\<forall>va. owned_of (lookup (s2_space r) va (pwords v)) = {})
          \<and> (\<forall>j<n. lookup (s2_space r) (run_page iova j) (pwords v) = Some (stage2_page (run_page pa j)))
          \<and> (\<forall>va. (\<forall>j<n. \<not> same_page (run_page iova j) va) \<longrightarrow> lookup (s2_space r) va (pwords v) = None))"

definition stream_ok :: "smmu \<Rightarrow> vm \<Rightarrow> u32 \<Rightarrow> binding option \<Rightarrow> bool" where
  "stream_ok s v sid b \<longleftrightarrow> ste_at (pwords v) s sid = ste_of b \<and> tree_ok v b"

lemmas stream_defs = stream_ok_def ste_of_def tree_ok_def

text \<open>What a binding lets a device reach: the pages of the buffer, in order, from the first input address on.\<close>

definition granted :: "binding option \<Rightarrow> u64 \<Rightarrow> u64 option" where
  "granted b va =
     (case b of
        None \<Rightarrow> None
      | Some (r, iova, pa, n) \<Rightarrow> if iova \<le> va \<and> unat va < unat iova + n * 4096 then Some (pa + (va - iova)) else None)"

lemma abort_reaches_nothing: "ste_at m s sid = abort_ste \<Longrightarrow> device_translate m s sid va = None"
  by (simp add: device_translate_def abort_ste_def STE_DWORDS_def)

lemma s2_root:
  assumes "r < 2 ^ 48" "r mod 4096 = 0"
  shows "unat ((of_nat r AND S2TTB_MASK :: u64) AND S2TTB_MASK) = r" "unat (of_nat r AND S2TTB_MASK :: u64) = r" "unat (root (s2_space r)) = r"
proof -
  have "(of_nat r :: u64) AND S2TTB_MASK = (of_nat r AND ADDR_MASK) AND S2TTB_MASK" using and_addr_mask [OF assms(2,1)] by simp
  also have "\<dots> = of_nat r AND ADDR_MASK" by (simp add: and.assoc ADDR_MASK_def S2TTB_MASK_def)
  also have "\<dots> = of_nat r" using and_addr_mask [OF assms(2,1)] .
  finally have e: "(of_nat r :: u64) AND S2TTB_MASK = of_nat r" .
  have "unat (of_nat r :: u64) = r" using assms(1) by (simp add: unsigned_of_nat take_bit_nat_eq_self)
  then show "unat ((of_nat r AND S2TTB_MASK :: u64) AND S2TTB_MASK) = r" "unat (of_nat r AND S2TTB_MASK :: u64) = r" "unat (root (s2_space r)) = r" by (simp_all add: e s2_space_def)
qed

lemma ste_fields:
  "stage2_ste x (stage2 DMA_VMID) ! 0 AND 1 = 1" "drop_bit 1 (stage2_ste x (stage2 DMA_VMID) ! 0) AND 0b111 = STE_CONFIG_S2_ONLY"
  "drop_bit 32 (stage2_ste x (stage2 DMA_VMID) ! 2) AND 0x3f = 24" "stage2_ste x (stage2 DMA_VMID) ! 3 = x AND S2TTB_MASK"
  by (simp_all add: stage2_ste_def stage2_def DMA_VMID_def STE_CONFIG_S2_ONLY_def S2SL0_LEVEL0_def S2_XR0_WB_def S2SH0_INNER_def
      S2TG_4K_def STE_S2R_def)

lemma page_output:
  assumes "unat x mod 4096 = 0" "unat x < 2 ^ 48"
  shows "(stage2_page x AND ADDR_MASK) OR (va AND 0xFFF) = x + (va AND 0xFFF)"
proof -
  have x: "x AND ADDR_MASK = x" using and_addr_mask [OF assms] by simp
  have "x AND (va AND 0xFFF) = x AND (ADDR_MASK AND (va AND 0xFFF))" by (subst x [symmetric]) (simp only: and.assoc)
  also have "ADDR_MASK AND (va AND 0xFFF) = (ADDR_MASK AND 0xFFF) AND va" by (simp only: and.assoc and.commute and.left_commute)
  also have "ADDR_MASK AND 0xFFF = 0" by (simp add: ADDR_MASK_def)
  finally have "x AND (va AND 0xFFF) = 0" by simp
  then show ?thesis using word_plus_and_or [of x "va AND 0xFFF"] by (simp add: stage2_page_desc(5) x)
qed

lemma unat_offset: "unat (va AND 0xFFF :: u64) = unat va mod 4096"
proof -
  have "va AND 0xFFF = take_bit 12 va" by (simp add: take_bit_eq_mask mask_eq_exp_minus_1)
  then show ?thesis by (simp only: unsigned_take_bit_eq) (simp add: take_bit_eq_mod)
qed

lemma bound_stream_reaches:
  assumes "stream_ok s v sid (Some (r, iova, pa, n))" "unat sid < 256"
  shows "device_translate (pwords v) s sid va = granted (Some (r, iova, pa, n)) va"
proof -
  have ste: "ste_at (pwords v) s sid = stage2_ste (of_nat r) (stage2 DMA_VMID)" and r: "r < 2 ^ 48" "r mod 4096 = 0"
    and reg: "unat iova mod 4096 = 0" "unat pa mod 4096 = 0" "unat iova + n * 4096 \<le> 2 ^ 40" "unat pa + n * 4096 \<le> 2 ^ 48"
    and lk: "\<forall>j<n. lookup (s2_space r) (run_page iova j) (pwords v) = Some (stage2_page (run_page pa j))"
      "\<forall>va. (\<forall>j<n. \<not> same_page (run_page iova j) va) \<longrightarrow> lookup (s2_space r) va (pwords v) = None"
    using assms(1) by (simp_all add: stream_defs regime_ok_def)
  have tr: "device_translate (pwords v) s sid va =
     (if unat va \<ge> 2 ^ 40 then None
      else case lookup (s2_space r) va (pwords v) of
             None \<Rightarrow> None
           | Some d \<Rightarrow> if d AND S2_AF = 0 \<or> d AND S2AP_RW \<noteq> S2AP_RW then None else Some ((d AND ADDR_MASK) OR (va AND 0xFFF)))"
    using assms(2) unfolding device_translate_def Let_def ste ste_fields by (simp add: STRTAB_LOG2_def s2_root [OF r] lookup_def STE_CONFIG_S2_ONLY_def)
  have pgs: "same_page (run_page iova j) va \<longleftrightarrow> unat va div 4096 = unat iova div 4096 + j" if "j < n" "unat va < 2 ^ 40" for j
  proof -
    have "unat iova div 4096 + j < 2 ^ 36" "unat va div 4096 < 2 ^ 36" using that reg(3) by auto
    then show ?thesis unfolding page_number run_page_number by auto
  qed
  show ?thesis
  proof (cases "iova \<le> va \<and> unat va < unat iova + n * 4096")
    case True
    define j where "j = (unat va - unat iova) div 4096"
    have le: "unat iova \<le> unat va" using True by (simp add: word_le_nat_alt)
    have "unat va - unat iova < n * 4096" using True le by linarith
    then have j: "j < n" unfolding j_def by (rule less_mult_imp_div_less)
    have lim: "unat va < 2 ^ 40" using True reg(3) by simp
    obtain c where c: "unat iova = 4096 * c" using reg(1) by auto
    obtain d where d: "unat va = unat iova + d" using le by (metis le_Suc_ex)
    have "same_page (run_page iova j) va" using pgs [OF j lim] by (simp add: d c j_def)
    then have l: "lookup (s2_space r) va (pwords v) = Some (stage2_page (run_page pa j))"
      using lk(1) j lookup_same_page by metis
    have rp: "unat (run_page pa j) = unat pa + j * 4096" using checked_page(2) [OF reg(4) j] .
    then have out: "(stage2_page (run_page pa j) AND ADDR_MASK) OR (va AND 0xFFF) = run_page pa j + (va AND 0xFFF)"
      using reg(2,4) j by (intro page_output) simp_all
    have off: "unat (va - iova) = d" using le d by (subst unat_sub) (simp_all add: word_le_nat_alt)
    have dn: "d < n * 4096" using True d by simp
    have "run_page pa j + (va AND 0xFFF) = pa + (va - iova)"
    proof (rule word_unat_eq_iff [THEN iffD2])
      have "unat (run_page pa j + (va AND 0xFFF)) = unat pa + j * 4096 + d mod 4096"
        using reg(4) j rp by (subst unat_plus_exact) (simp_all add: unat_offset d c)
      also have "\<dots> = unat pa + d" by (simp add: j_def d)
      also have "\<dots> = unat (pa + (va - iova))" using reg(4) dn by (subst unat_plus_exact) (simp_all add: off)
      finally show "unat (run_page pa j + (va AND 0xFFF)) = unat (pa + (va - iova))" .
    qed
    moreover have "S2_AF \<noteq> 0" by (simp add: S2_AF_def)
    ultimately show ?thesis using True lim by (simp add: tr l stage2_page_desc(3,4) out granted_def)
  next
    case False
    have "lookup (s2_space r) va (pwords v) = None" if lim: "unat va < 2 ^ 40"
    proof -
      have "\<not> same_page (run_page iova j) va" if j: "j < n" for j
      proof
        assume "same_page (run_page iova j) va"
        then have e: "unat va div 4096 = unat iova div 4096 + j" using pgs [OF j lim] by simp
        have "unat iova = unat iova div 4096 * 4096" using reg(1) by auto
        moreover have "unat va = unat va div 4096 * 4096 + unat va mod 4096" "unat va mod 4096 < 4096" by simp_all
        ultimately have "unat iova + j * 4096 \<le> unat va" "unat va < unat iova + (j + 1) * 4096" unfolding e by (simp_all add: algebra_simps)
        moreover have "(j + 1) * 4096 \<le> n * 4096" using j by simp
        ultimately show False using False by (simp add: word_le_nat_alt)
      qed
      then show ?thesis using lk(2) by blast
    qed
    then show ?thesis using False by (auto simp: tr granted_def)
  qed
qed

section \<open>The kernel's side\<close>

text \<open>\<open>B\<close> records what each stream was bound to. Trees are built of pool frames, no two share one, and the stream table
  and the command queue are allocated blocks of their own.\<close>

definition tree_of :: "binding option \<Rightarrow> vm \<Rightarrow> nat set" where
  "tree_of b v = (case b of None \<Rightarrow> {} | Some (r, _) \<Rightarrow> space_frames (s2_space r) v)"

definition smmu_inv :: "smmu \<Rightarrow> vm \<Rightarrow> (u32 \<Rightarrow> binding option) \<Rightarrow> bool" where
  "smmu_inv s v B \<longleftrightarrow> pool_wf (vpool v) \<and> pool_low (vpool v)
     \<and> strtab_block s \<in> set (pool_used (vpool v)) \<and> cmdq_block s \<in> set (pool_used (vpool v))
     \<and> (\<forall>sid. unat sid < 256 \<longrightarrow> stream_ok s v sid (B sid)) \<and> (\<forall>sid. \<not> unat sid < 256 \<longrightarrow> B sid = None)
     \<and> (\<forall>sid. unat (cmdq_phys s) \<notin> tree_of (B sid) v)
     \<and> (\<forall>sid sid'. sid \<noteq> sid' \<longrightarrow> tree_of (B sid) v \<inter> tree_of (B sid') v = {})"

lemma smmu_invD:
  assumes "smmu_inv s v B"
  shows "pool_wf (vpool v)" "pool_low (vpool v)" "strtab_block s \<in> set (pool_used (vpool v))" "cmdq_block s \<in> set (pool_used (vpool v))"
    "unat sid < 256 \<Longrightarrow> stream_ok s v sid (B sid)" "\<not> unat sid < 256 \<Longrightarrow> B sid = None" "unat (cmdq_phys s) \<notin> tree_of (B sid) v"
    "sid \<noteq> sid' \<Longrightarrow> tree_of (B sid) v \<inter> tree_of (B sid') v = {}"
  using assms by (simp_all add: smmu_inv_def)

lemma confined:
  assumes "smmu_inv s v B"
  shows "device_translate (pwords v) s sid va = granted (B sid) va"
proof (cases "unat sid < 256")
  case True
  show ?thesis
  proof (cases "B sid")
    case None
    then have "ste_at (pwords v) s sid = abort_ste" using smmu_invD(5) [OF assms True] by (simp add: stream_defs)
    then show ?thesis using None abort_reaches_nothing by (simp add: granted_def)
  next
    case (Some b)
    obtain r iova pa n where b: "b = (r, iova, pa, n)" by (cases b)
    show ?thesis using bound_stream_reaches [OF _ True] smmu_invD(5) [OF assms True] by (simp add: Some b)
  qed
next
  case False
  then show ?thesis using smmu_invD(6) [OF assms False] by (simp add: device_translate_def STRTAB_LOG2_def granted_def)
qed

text \<open>A stream is not disturbed by work that leaves its entry and the frames of its tree alone.\<close>

lemma tree_owned: "tree_ok v b \<Longrightarrow> f \<in> tree_of b v \<Longrightarrow> owns (vpool v) f"
  by (auto simp: tree_ok_def tree_of_def split: option.splits prod.splits dest: space_okD(3))

lemma tree_kept:
  assumes "tree_ok v b" "\<And>f a. f \<in> tree_of b v \<Longrightarrow> a \<in> page f \<Longrightarrow> pwords v' a = pwords v a"
    "pool_wf (vpool v')" "pool_low (vpool v')" "\<And>f. f \<in> tree_of b v \<Longrightarrow> owns (vpool v') f"
  shows "tree_ok v' b" "tree_of b v' = tree_of b v"
proof -
  have "tree_ok v' b \<and> tree_of b v' = tree_of b v"
  proof (cases b)
    case None
    then show ?thesis by (simp add: tree_ok_def tree_of_def)
  next
    case (Some x)
    obtain r iova pa n where x: "x = (r, iova, pa, n)" by (cases x)
    have ok: "space_ok (s2_space r) v" using assms(1) by (simp add: Some x tree_ok_def)
    have "\<forall>f\<in>space_frames (s2_space r) v. \<forall>a\<in>page f. pwords v' a = pwords v a" "\<forall>f\<in>space_frames (s2_space r) v. owns (vpool v') f"
      using assms(2,5) by (simp_all add: Some x tree_of_def)
    note K = space_local [OF ok this(1) assms(3,4) this(2)]
    show ?thesis using assms(1) K by (simp add: Some x tree_ok_def tree_of_def)
  qed
  then show "tree_ok v' b" "tree_of b v' = tree_of b v" by simp_all
qed

lemma tree_block:
  assumes "unat sid < 256" "smmu_inv s v B" "f \<in> tree_of (B sid) v"
  shows "(f, 1) \<in> set (pool_used (vpool v))"
  using tree_owned [of v "B sid" f] smmu_invD(5) [OF assms(2,1)] assms(3) by (simp add: owns_def stream_ok_def)

lemma tree_sid: "smmu_inv s v B \<Longrightarrow> f \<in> tree_of (B sid) v \<Longrightarrow> unat sid < 256"
  using smmu_invD(6) [of s v B sid] by (cases "unat sid < 256") (auto simp: tree_of_def)

text \<open>Writes to the stream table and the command queue miss every tree.\<close>

lemma queue_writes_miss:
  assumes "smmu_inv s v B" "f \<in> tree_of (B sid) v" "a \<in> page f"
  shows "a \<notin> block (strtab_block s)" "a \<notin> block (cmdq_block s)"
proof -
  have f: "(f, 1) \<in> set (pool_used (vpool v))" using tree_block tree_sid assms(1,2) by blast
  have "(f, 1) \<noteq> strtab_block s" by (simp add: strtab_block_def)
  then show "a \<notin> block (strtab_block s)"
    using pool_blocks_disjoint [OF smmu_invD(1) [OF assms(1)] f smmu_invD(3) [OF assms(1)]] assms(3) by (auto simp: page_block)
  have "(f, 1) \<noteq> cmdq_block s" using smmu_invD(7) [OF assms(1), of sid] assms(2) by (auto simp: cmdq_block_def)
  then show "a \<notin> block (cmdq_block s)"
    using pool_blocks_disjoint [OF smmu_invD(1) [OF assms(1)] f smmu_invD(4) [OF assms(1)]] assms(3) by (auto simp: page_block)
qed

section \<open>Every operation keeps the invariant\<close>

lemma smmu_inv_kept:
  assumes inv: "smmu_inv s v B" and s': "strtab_phys s' = strtab_phys s" "cmdq_phys s' = cmdq_phys s"
    and pool: "pool_wf (vpool v')" "pool_low (vpool v')" "strtab_block s \<in> set (pool_used (vpool v'))" "cmdq_block s \<in> set (pool_used (vpool v'))"
    and same: "\<And>sid f a. f \<in> tree_of (B sid) v \<Longrightarrow> a \<in> page f \<Longrightarrow> pwords v' a = pwords v a"
    and own: "\<And>sid f. f \<in> tree_of (B sid) v \<Longrightarrow> owns (vpool v') f"
    and ste: "\<And>sid. unat sid < 256 \<Longrightarrow> ste_at (pwords v') s sid = ste_at (pwords v) s sid"
  shows "smmu_inv s' v' B" "tree_of (B sid) v' = tree_of (B sid) v"
proof -
  have ok: "tree_ok v (B sid)" for sid
    using smmu_invD(5,6) [OF inv, of sid] by (cases "unat sid < 256") (simp_all add: stream_ok_def tree_ok_def)
  have k: "tree_ok v' (B sid)" "tree_of (B sid) v' = tree_of (B sid) v" for sid
    using tree_kept [OF ok same pool(1,2) own] by auto
  show "tree_of (B sid) v' = tree_of (B sid) v" by (rule k(2))
  have "ste_at m s' sid = ste_at m s sid" for m sid by (simp add: ste_at_def s')
  then show "smmu_inv s' v' B"
    using inv pool ste k s' by (simp add: smmu_inv_def stream_ok_def strtab_block_def cmdq_block_def)
qed

lemma ste_in_block:
  assumes "unat sid < 256" "\<And>a. a \<in> block (strtab_block s) \<Longrightarrow> m' a = m a"
  shows "ste_at m' s sid = ste_at m s sid"
proof -
  have "unat (strtab_phys s) + 8 * (unat sid * STE_DWORDS) + 8 * i \<in> block (strtab_block s)" if "i < STE_DWORDS" for i
    using that assms(1) by (simp add: strtab_block_def block_def PAGE_SIZE_def STE_DWORDS_def)
  then show ?thesis using assms(2) by (simp add: ste_at_def)
qed

lemma commands_keep:
  assumes inv: "smmu_inv s v B" and p: "push_cmd cmd_sync (push_cmd (cmd_cfgi_ste sid) (s, v)) = (s', v')"
  shows "smmu_inv s' v' B" "vpool v' = vpool v" "strtab_phys s' = strtab_phys s" "cmdq_phys s' = cmdq_phys s"
    "tree_of (B x) v' = tree_of (B x) v"
proof -
  note P = post_commands [OF p]
  have d: "block (strtab_block s) \<inter> block (cmdq_block s) = {}"
    using smmu_invD(1,3,4) [OF inv] by (intro pool_blocks_disjoint [of "vpool v"]) (auto simp: strtab_block_def cmdq_block_def)
  have ste: "ste_at (pwords v') s x = ste_at (pwords v) s x" if "unat x < 256" for x
    using that d P(3) by (intro ste_in_block) blast+
  note K = smmu_inv_kept [OF inv, of s' v']
  have *: "strtab_phys s' = strtab_phys s" "cmdq_phys s' = cmdq_phys s" using P(1) by simp_all
  have own: "owns (vpool v') f" if "f \<in> tree_of (B sid) v" for sid f
    using tree_block [OF tree_sid [OF inv that] inv that] P(2) by (simp add: owns_def)
  have same: "pwords v' a = pwords v a" if "f \<in> tree_of (B sid) v" "a \<in> page f" for sid f a
    using P(3) queue_writes_miss(2) [OF inv that] by simp
  show "vpool v' = vpool v" "strtab_phys s' = strtab_phys s" "cmdq_phys s' = cmdq_phys s" using P(2) * by simp_all
  have pool: "pool_wf (vpool v')" "pool_low (vpool v')" "strtab_block s \<in> set (pool_used (vpool v'))" "cmdq_block s \<in> set (pool_used (vpool v'))"
    using smmu_invD(1-4) [OF inv] by (simp_all add: P(2))
  show "smmu_inv s' v' B" "tree_of (B x) v' = tree_of (B x) v"
    by (rule smmu_inv_kept [OF inv * pool same own ste]; assumption)+
qed

text \<open>A new entry for one stream, with the tree it points at.\<close>

lemma entry_set:
  assumes inv: "smmu_inv s v B" and sid: "unat sid < 256" and v': "v' = write_ste (strtab_phys s) sid (ste_of b) v"
    and b: "tree_ok v b" "unat (cmdq_phys s) \<notin> tree_of b v" "\<And>x. x \<noteq> sid \<Longrightarrow> tree_of b v \<inter> tree_of (B x) v = {}"
  shows "smmu_inv s v' (B(sid := b))" "vpool v' = vpool v" "tree_of b v' = tree_of b v" "\<And>x. tree_of (B x) v' = tree_of (B x) v"
proof -
  have len: "length (ste_of b) = STE_DWORDS"
    by (simp add: ste_of_def abort_ste_def stage2_ste_def STE_DWORDS_def split: option.split prod.split)
  note W = write_ste_spec [OF sid len, where s = s and v = v, folded v']
  have str: "block (f, 1) \<inter> block (strtab_block s) = {}" if "owns (vpool v) f" for f
    using that smmu_invD(1,3) [OF inv] by (intro pool_blocks_disjoint [of "vpool v"]) (auto simp: owns_def strtab_block_def)
  have ok: "tree_ok v (B x)" for x
    using smmu_invD(5,6) [OF inv, of x] by (cases "unat x < 256") (simp_all add: stream_ok_def tree_ok_def)
  have K: "tree_ok v' c \<and> tree_of c v' = tree_of c v" if "tree_ok v c" for c
    using tree_kept [OF that, of v'] W(2,3) str tree_owned [OF that] smmu_invD(1,2) [OF inv] by (fastforce simp: page_block)
  show "vpool v' = vpool v" "tree_of b v' = tree_of b v" "\<And>x. tree_of (B x) v' = tree_of (B x) v" using W(3) K b(1) ok by simp_all
  have sym: "tree_of (B x) v \<inter> tree_of b v = {}" if "x \<noteq> sid" for x using b(3) [OF that] by blast
  show "smmu_inv s v' (B(sid := b))"
    unfolding smmu_inv_def using smmu_invD(1-4) [OF inv] smmu_invD(5,6,7,8) [OF inv] sid W(1,3) K b sym ok
    by (auto simp: stream_ok_def)
qed

text \<open>A tree no stream is bound to any more is freed.\<close>

lemma free_keeps:
  assumes inv: "smmu_inv s v B" and b: "b = Some (r, iova, pa, n)" "tree_ok v b" "\<And>x. tree_of b v \<inter> tree_of (B x) v = {}"
    and v': "v' = free_stage2_table r v" and str: "strtab_block s \<notin> (\<lambda>f. (f, 1)) ` tree_of b v" "cmdq_block s \<notin> (\<lambda>f. (f, 1)) ` tree_of b v"
  shows "smmu_inv s v' B" "set (pool_used (vpool v')) = set (pool_used (vpool v)) - (\<lambda>f. (f, 1)) ` tree_of b v" "pwords v' = pwords v"
proof -
  let ?sp = "s2_space r" let ?U = "set (pool_used (vpool v)) - (\<lambda>f. (f, 1)) ` tree_of b v"
  have t: "tree_of b v = space_frames ?sp v" "space_ok ?sp v" "r < 2 ^ 48" "\<forall>va. owned_of (lookup ?sp va (pwords v)) = {}"
    using b(1,2) by (simp_all add: tree_of_def tree_ok_def)
  have sinv: "space_inv ?U ?sp v"
    using t(2) space_okD(3) [OF t(2)] by (auto simp: space_inv_def t(1) owns_def)
  have d: "v' = destroy ?sp v" unfolding v' using t(3) by (intro free_stage2 [OF sinv _ t(4)]) simp
  show u: "set (pool_used (vpool v')) = ?U" and w: "pwords v' = pwords v"
    unfolding d using destroy_inv [OF sinv] by (simp_all add: destroy_def free_table_frames)
  have pool: "pool_wf (vpool v')" "pool_low (vpool v')"
    unfolding d using destroy_inv [OF sinv] smmu_invD(2) [OF inv] by (simp_all add: destroy_def free_table_frames pool_free_list_low)
  have own: "owns (vpool v') f" if "f \<in> tree_of (B sid) v" for sid f
    using tree_block [OF tree_sid [OF inv that] inv that] b(3) [of sid] that by (auto simp: owns_def u)
  have blocks: "strtab_block s \<in> set (pool_used (vpool v'))" "cmdq_block s \<in> set (pool_used (vpool v'))"
    using smmu_invD(3,4) [OF inv] str by (simp_all add: u)
  show "smmu_inv s v' B" by (rule smmu_inv_kept(1) [OF inv refl refl pool blocks _ own]) (simp_all add: w)
qed

lemma build_keeps:
  assumes inv: "smmu_inv s v B" and reg: "regime_ok iova pa n" and m: "build_stage2_map iova pa n v = Some (x, v1)"
  shows "smmu_inv s v1 B"
    "x = None \<Longrightarrow> set (pool_used (vpool v1)) = set (pool_used (vpool v))"
    "x = Some r \<Longrightarrow> tree_ok v1 (Some (r, iova, pa, n)) \<and> unat (cmdq_phys s) \<notin> tree_of (Some (r, iova, pa, n)) v1
       \<and> (\<forall>sid. tree_of (Some (r, iova, pa, n)) v1 \<inter> tree_of (B sid) v1 = {})
       \<and> set (pool_used (vpool v1)) = set (pool_used (vpool v)) \<union> (\<lambda>f. (f, 1)) ` tree_of (Some (r, iova, pa, n)) v1
       \<and> (\<forall>f\<in>tree_of (Some (r, iova, pa, n)) v1. \<not> owns (vpool v) f)"
proof -
  let ?U = "set (pool_used (vpool v))"
  note P = smmu_invD(1-4) [OF inv]
  have rg: "unat iova + n * 4096 \<le> 2 ^ 48" "unat pa + n * 4096 \<le> 2 ^ 48" using reg by (simp_all add: regime_ok_def)
  obtain R where R: "untouched ?U v v1" "pool_wf (vpool v1)" "pool_low (vpool v1)"
    "x = None \<Longrightarrow> set (pool_used (vpool v1)) = ?U"
    "\<And>r. x = Some r \<Longrightarrow> r < 2 ^ 48 \<and> r mod 4096 = 0 \<and> space_inv ?U (s2_space r) v1
         \<and> (\<forall>va. owned_of (lookup (s2_space r) va (pwords v1)) = {})
         \<and> (\<forall>j<n. lookup (s2_space r) (run_page iova j) (pwords v1) = Some (stage2_page (run_page pa j)))
         \<and> (\<forall>va. (\<forall>j<n. \<not> same_page (run_page iova j) va) \<longrightarrow> lookup (s2_space r) va (pwords v1) = None)"
    using build_stage2_map_spec [OF P(1,2) rg] m by fastforce
  have sub: "?U \<subseteq> set (pool_used (vpool v1))" using R(4,5) by (cases x) (auto simp: space_inv_def)
  show "x = None \<Longrightarrow> set (pool_used (vpool v1)) = ?U" by (rule R(4))
  have fr: "(f, 1) \<in> ?U" if "f \<in> tree_of (B sid) v" for sid f using tree_block [OF tree_sid [OF inv that] inv that] .
  have same: "pwords v1 a = pwords v a" if "f \<in> tree_of (B sid) v" "a \<in> page f" for sid f a
    using fr [OF that(1)] R(1) that(2) by (auto simp: untouched_def page_block)
  have ste: "ste_at (pwords v1) s sid = ste_at (pwords v) s sid" if "unat sid < 256" for sid
    using that R(1) P(3) by (intro ste_in_block) (auto simp: untouched_def)
  have own: "owns (vpool v1) f" if "f \<in> tree_of (B sid) v" for sid f using fr [OF that] sub by (auto simp: owns_def)
  have blk: "strtab_block s \<in> set (pool_used (vpool v1))" "cmdq_block s \<in> set (pool_used (vpool v1))" using P(3,4) sub by blast+
  have K: "smmu_inv s v1 B" "tree_of (B y) v1 = tree_of (B y) v" for y
    by (rule smmu_inv_kept [OF inv refl refl R(2,3) blk same own ste]; assumption)+
  show "smmu_inv s v1 B" by (rule K(1))
  assume x: "x = Some r"
  note S = R(5) [OF x]
  let ?b = "Some (r, iova, pa, n)"
  have t: "tree_of ?b v1 = space_frames (s2_space r) v1" by (simp add: tree_of_def)
  have si: "set (pool_used (vpool v1)) = ?U \<union> (\<lambda>f. (f, 1)) ` tree_of ?b v1" "\<forall>f\<in>tree_of ?b v1. (f, 1) \<notin> ?U" "space_ok (s2_space r) v1"
    using S by (simp_all add: space_inv_def t)
  have "tree_ok v1 ?b" using S si(3) reg by (simp add: tree_ok_def)
  moreover have "unat (cmdq_phys s) \<notin> tree_of ?b v1" using si(2) P(4) by (auto simp: cmdq_block_def)
  moreover have "tree_of ?b v1 \<inter> tree_of (B sid) v1 = {}" for sid using si(2) fr [of _ sid] K(2) [of sid] by auto
  ultimately show "tree_ok v1 ?b \<and> unat (cmdq_phys s) \<notin> tree_of ?b v1 \<and> (\<forall>sid. tree_of ?b v1 \<inter> tree_of (B sid) v1 = {})
       \<and> set (pool_used (vpool v1)) = ?U \<union> (\<lambda>f. (f, 1)) ` tree_of ?b v1 \<and> (\<forall>f\<in>tree_of ?b v1. \<not> owns (vpool v) f)"
    using si by (simp add: owns_def)
qed

lemma bind_keeps:
  assumes inv: "smmu_inv s v B" and reg: "regime_ok iova pa n"
  shows "\<exists>res s' v' ws. bind_stream_at hw sid iova pa n s v = Some (res, s', v', ws) \<and>
    (case res of
       Inr r \<Rightarrow> unat sid < 256 \<and> smmu_inv s' v' (B(sid \<mapsto> (r, iova, pa, n)))
         \<and> set (pool_used (vpool v')) = set (pool_used (vpool v)) \<union> (\<lambda>f. (f, 1)) ` tree_of (Some (r, iova, pa, n)) v'
         \<and> (\<forall>f\<in>tree_of (Some (r, iova, pa, n)) v'. \<not> owns (vpool v) f)
     | Inl e \<Rightarrow> set (pool_used (vpool v')) = set (pool_used (vpool v))
         \<and> smmu_inv s' v' (if e = WouldBlock then B(sid := None) else B))"
proof (cases "n = 0 \<or> unat sid \<ge> 256")
  case True
  then show ?thesis using inv by (auto simp: bind_stream_at_def STRTAB_LOG2_def)
next
  case False
  then have sid: "unat sid < 256" "n \<noteq> 0" by simp_all
  have rg: "unat iova + n * 4096 \<le> 2 ^ 48" "unat pa + n * 4096 \<le> 2 ^ 48" using reg by (simp_all add: regime_ok_def)
  obtain x v1 where m: "build_stage2_map iova pa n v = Some (x, v1)"
    using build_stage2_map_spec [OF smmu_invD(1,2) [OF inv] rg] by blast
  note K = build_keeps [OF inv reg m]
  show ?thesis
  proof (cases x)
    case None
    then show ?thesis using sid K(1,2) by (simp add: bind_stream_at_def STRTAB_LOG2_def m)
  next
    case (Some r)
    let ?b = "Some (r, iova, pa, n)"
    note T = K(3) [OF Some]
    define v2 where "v2 = write_ste (strtab_phys s) sid (ste_of ?b) v1"
    have inv2: "smmu_inv s v2 (B(sid := ?b))" "vpool v2 = vpool v1" "tree_of ?b v2 = tree_of ?b v1"
      by (rule entry_set [OF K(1) sid(1) v2_def]; use T in simp)+
    obtain s3 v3 where p: "push_cmd cmd_sync (push_cmd (cmd_cfgi_ste sid) (s, v2)) = (s3, v3)" by fastforce
    note C = commands_keep [OF inv2(1) p]
    have t3: "tree_of ?b v3 = tree_of ?b v1" using C(5) [of sid] inv2(3) by simp
    have se: "ste_of ?b = stage2_ste (of_nat r) (stage2 DMA_VMID)" by (simp add: ste_of_def)
    let ?fail = "\<not> wait_consumed hw s3 \<or> global_error hw"
    define v4 where "v4 = write_ste (strtab_phys s3) sid abort_ste v3"
    have b: "bind_stream_at hw sid iova pa n s v = (if ?fail then Some (Inl WouldBlock, s3, free_stage2_table r v4, doorbell s3)
        else Some (Inr r, s3, v3, doorbell s3))"
      using sid p by (simp add: bind_stream_at_def STRTAB_LOG2_def m Some v2_def se v4_def)
    show ?thesis
    proof (cases ?fail)
      case False
      then show ?thesis using sid(1) C(1,2) inv2(2) t3 T by (auto simp: b)
    next
      case True
      have v4: "v4 = write_ste (strtab_phys s3) sid (ste_of None) v3" by (simp add: v4_def ste_of_def)
      have ok3: "tree_ok v3 ?b" using smmu_invD(5) [OF C(1) sid(1)] by (simp add: stream_ok_def)
      have inv4: "smmu_inv s3 v4 (B(sid := None))" "vpool v4 = vpool v3" "\<And>y. tree_of ((B(sid := ?b)) y) v4 = tree_of ((B(sid := ?b)) y) v3"
        using entry_set [OF C(1) sid(1) v4] by (simp_all add: tree_ok_def tree_of_def)
      have t4: "tree_of ?b v4 = tree_of ?b v1" using inv4(3) [of sid] t3 by simp
      have str: "a \<notin> block (strtab_block s3) \<Longrightarrow> pwords v4 a = pwords v3 a" for a
        using write_ste_spec(2) [OF sid(1), of abort_ste a s3 v3] by (simp add: v4_def abort_ste_def)
      have ok4: "tree_ok v4 ?b"
      proof (rule tree_kept(1) [OF ok3])
        fix f a assume f: "f \<in> tree_of ?b v3" "a \<in> page f"
        then show "pwords v4 a = pwords v3 a" using queue_writes_miss(1) [OF C(1), of f sid a] by (intro str) simp
      next
        fix f assume "f \<in> tree_of ?b v3"
        then show "owns (vpool v4) f" using tree_owned [OF ok3] inv4(2) by simp
      qed (use smmu_invD(1,2) [OF inv4(1)] in auto)
      have dis: "tree_of ?b v4 \<inter> tree_of ((B(sid := None)) y) v4 = {}" for y
      proof (cases "y = sid")
        case False
        have "tree_of (B y) v4 = tree_of (B y) v3" using inv4(3) [of y] False by simp
        then show ?thesis using smmu_invD(8) [OF C(1), of sid y] False t4 t3 by simp
      qed (simp add: tree_of_def)
      have new: "(f, 1) \<notin> set (pool_used (vpool v))" if "f \<in> tree_of ?b v4" for f using T that t4 by (auto simp: owns_def)
      have blk: "strtab_block s3 \<notin> (\<lambda>f. (f, 1)) ` tree_of ?b v4" "cmdq_block s3 \<notin> (\<lambda>f. (f, 1)) ` tree_of ?b v4"
        using new smmu_invD(4) [OF inv] C(3,4) by (auto simp: strtab_block_def cmdq_block_def)
      note F = free_keeps [OF inv4(1) refl ok4 dis refl blk]
      have "set (pool_used (vpool (free_stage2_table r v4))) = set (pool_used (vpool v))"
        using F(2) inv4(2) C(2) inv2(2) T t4 new by (auto simp: owns_def)
      then show ?thesis using F(1) True by (auto simp: b fun_upd_def)
    qed
  qed
qed

lemma unbind_keeps:
  assumes inv: "smmu_inv s v B" and b: "B sid = Some (r, iova, pa, n)" and u: "unbind_stream sid r s v = (s', v', ws)"
  shows "smmu_inv s' v' (B(sid := None))"
    "set (pool_used (vpool v')) = set (pool_used (vpool v)) - (\<lambda>f. (f, 1)) ` tree_of (B sid) v"
proof -
  have sid: "unat sid < 256" using smmu_invD(6) [OF inv, of sid] b by (cases "unat sid < 256") auto
  define v1 where "v1 = write_ste (strtab_phys s) sid abort_ste v"
  have v1: "v1 = write_ste (strtab_phys s) sid (ste_of None) v" by (simp add: v1_def ste_of_def)
  have inv1: "smmu_inv s v1 (B(sid := None))" "vpool v1 = vpool v" "\<And>y. tree_of (B y) v1 = tree_of (B y) v"
    using entry_set [OF inv sid v1] by (simp_all add: tree_ok_def tree_of_def)
  obtain s2 v2 where p: "push_cmd cmd_sync (push_cmd (cmd_cfgi_ste sid) (s, v1)) = (s2, v2)" by fastforce
  note C = commands_keep [OF inv1(1) p] and P = post_commands [OF p]
  have res: "s' = s2" "v' = free_stage2_table r v2"
    using u sid p by (auto simp: unbind_stream_def STRTAB_LOG2_def v1_def)
  have ok: "tree_ok v (B sid)" using smmu_invD(5) [OF inv sid] by (simp add: stream_ok_def)
  have w: "pwords v2 a = pwords v a" if "f \<in> tree_of (B sid) v" "a \<in> page f" for f a
  proof -
    have "a \<notin> block (strtab_block s)" "a \<notin> block (cmdq_block s)" using queue_writes_miss [OF inv that] by simp_all
    then show ?thesis using P(3) write_ste_spec(2) [OF sid, of abort_ste a s v] by (simp add: v1_def abort_ste_def)
  qed
  have own: "owns (vpool v2) f" if "f \<in> tree_of (B sid) v" for f
    using tree_owned [OF ok that] by (simp add: C(2) inv1(2))
  have K: "tree_ok v2 (B sid)" "tree_of (B sid) v2 = tree_of (B sid) v"
    by (rule tree_kept [OF ok w smmu_invD(1,2) [OF C(1)] own]; assumption)+
  have dis: "tree_of (B sid) v2 \<inter> tree_of ((B(sid := None)) y) v2 = {}" for y
  proof (cases "y = sid")
    case False
    have "tree_of (B y) v2 = tree_of (B y) v" using C(5) [of y] inv1(3) [of y] False by simp
    then show ?thesis using smmu_invD(8) [OF inv, of sid y] False K(2) by simp
  qed (simp add: tree_of_def)
  have blk: "strtab_block s2 \<notin> (\<lambda>f. (f, 1)) ` tree_of (B sid) v2" "cmdq_block s2 \<notin> (\<lambda>f. (f, 1)) ` tree_of (B sid) v2"
    using smmu_invD(7) [OF inv, of sid] K(2) C(3,4) by (auto simp: strtab_block_def cmdq_block_def)
  note F = free_keeps [OF C(1) b K(1) dis res(2) blk]
  show "smmu_inv s' v' (B(sid := None))" using F(1) res by (simp add: fun_upd_def)
  show "set (pool_used (vpool v')) = set (pool_used (vpool v)) - (\<lambda>f. (f, 1)) ` tree_of (B sid) v"
    using F(2) K(2) C(2) inv1(2) by simp
qed

end
