(* ===== verification/SmmuSafety.thy ===== *)
theory SmmuSafety
  imports SmmuConfine SpaceRoom
begin

unbundle bit_operations_syntax

text \<open>
  The promises of the SMMU driver over every sequence of its operations and of other kernel work, and a concrete
  machine they apply to: the stream table and the command queue in allocated frames, a free pool beside them, and a
  device that answers the first poll.
\<close>

section \<open>Operations over time\<close>

text \<open>What can happen to the driver and to memory. The rest of the kernel may do anything that respects ownership: it
  leaves the frames of the trees, the stream table and the command queue to the driver.\<close>

definition kernel_work :: "smmu \<Rightarrow> (u32 \<Rightarrow> binding option) \<Rightarrow> vm \<Rightarrow> vm \<Rightarrow> bool" where
  "kernel_work s B v v' \<longleftrightarrow> pool_wf (vpool v') \<and> pool_low (vpool v')
     \<and> (\<forall>b. b \<in> {strtab_block s, cmdq_block s} \<union> (\<Union>sid. (\<lambda>f. (f, 1)) ` tree_of (B sid) v) \<longrightarrow>
          b \<in> set (pool_used (vpool v')) \<and> (\<forall>a\<in>block b. pwords v' a = pwords v a))"

inductive smmu_step :: "smmu \<times> vm \<times> (u32 \<Rightarrow> binding option) \<Rightarrow> smmu \<times> vm \<times> (u32 \<Rightarrow> binding option) \<Rightarrow> bool" where
  bound: "\<lbrakk>regime_ok iova pa n; bind_stream_at hw sid iova pa n s v = Some (Inr r, s', v', ws)\<rbrakk> \<Longrightarrow>
     smmu_step (s, v, B) (s', v', B(sid \<mapsto> (r, iova, pa, n)))"
| bind_failed: "\<lbrakk>regime_ok iova pa n; bind_stream_at hw sid iova pa n s v = Some (Inl e, s', v', ws)\<rbrakk> \<Longrightarrow>
     smmu_step (s, v, B) (s', v', if e = WouldBlock then B(sid := None) else B)"
| unbound: "\<lbrakk>B sid = Some (r, iova, pa, n); unbind_stream sid r s v = (s', v', ws)\<rbrakk> \<Longrightarrow>
     smmu_step (s, v, B) (s', v', B(sid := None))"
| other_work: "kernel_work s B v v' \<Longrightarrow> smmu_step (s, v, B) (s, v', B)"
| event: "next_event hw (pwords v) s = (ev, s', ws) \<Longrightarrow> smmu_step (s, v, B) (s', v, B)"

text \<open>After bring-up every entry of the stream table is zero and nothing is bound.\<close>

definition smmu_start :: "smmu \<Rightarrow> vm \<Rightarrow> bool" where
  "smmu_start s v \<longleftrightarrow> pool_wf (vpool v) \<and> pool_low (vpool v) \<and> strtab_block s \<in> set (pool_used (vpool v))
     \<and> cmdq_block s \<in> set (pool_used (vpool v)) \<and> (\<forall>a\<in>block (strtab_block s). pwords v a = 0)"

inductive smmu_reach :: "smmu \<times> vm \<Rightarrow> smmu \<times> vm \<times> (u32 \<Rightarrow> binding option) \<Rightarrow> bool" where
  start: "smmu_start s v \<Longrightarrow> smmu_reach (s, v) (s, v, \<lambda>_. None)"
| step: "\<lbrakk>smmu_reach i c; smmu_step c c'\<rbrakk> \<Longrightarrow> smmu_reach i c'"

lemma start_inv: "smmu_start s v \<Longrightarrow> smmu_inv s v (\<lambda>_. None)"
proof -
  assume a: "smmu_start s v"
  have "ste_at (pwords v) s sid = abort_ste" if "unat sid < 256" for sid
  proof -
    have "ste_at (pwords v) s sid = ste_at (\<lambda>_. 0) s sid" using that a by (intro ste_in_block) (simp_all add: smmu_start_def)
    also have "\<dots> = abort_ste" by (simp add: ste_at_def abort_ste_def map_replicate_const)
    finally show ?thesis .
  qed
  then show "smmu_inv s v (\<lambda>_. None)" using a by (simp add: smmu_start_def smmu_inv_def stream_defs tree_of_def)
qed

lemma work_keeps:
  assumes inv: "smmu_inv s v B" and w: "kernel_work s B v v'"
  shows "smmu_inv s v' B"
proof -
  have t: "owns (vpool v') f" "a \<in> page f \<Longrightarrow> pwords v' a = pwords v a" if "f \<in> tree_of (B sid) v" for f a sid
    using w that unfolding kernel_work_def owns_def page_block by blast+
  have s: "b \<in> set (pool_used (vpool v'))" "a \<in> block b \<Longrightarrow> pwords v' a = pwords v a" if "b \<in> {strtab_block s, cmdq_block s}" for a b
    using w that unfolding kernel_work_def by blast+
  have "ste_at (pwords v') s sid = ste_at (pwords v) s sid" if "unat sid < 256" for sid
    by (rule ste_in_block [OF that s(2) [where b = "strtab_block s"]]) simp_all
  then show ?thesis
    using t s(1) w by (intro smmu_inv_kept(1) [OF inv refl refl]) (auto simp: kernel_work_def)
qed

lemma step_inv:
  assumes "smmu_step c c'" "smmu_inv (fst c) (fst (snd c)) (snd (snd c))"
  shows "smmu_inv (fst c') (fst (snd c')) (snd (snd c'))"
  using assms
proof (induction rule: smmu_step.induct)
  case (bound iova pa n hw sid s v r s' v' ws B)
  then show ?case using bind_keeps [of s v B iova pa n hw sid] by (auto simp: fun_upd_def)
next
  case (bind_failed iova pa n hw sid s v e s' v' ws B)
  then show ?case using bind_keeps [of s v B iova pa n hw sid] by (auto simp: fun_upd_def)
next
  case (unbound B sid r iova pa n s v s' v' ws)
  then show ?case using unbind_keeps(1) [of s v B sid r iova pa n s' v' ws] by (simp add: fun_upd_def)
next
  case (other_work s B v v')
  then show ?case using work_keeps by simp
next
  case (event hw v s ev s' ws B)
  have "strtab_phys s' = strtab_phys s" "cmdq_phys s' = cmdq_phys s"
    using event(1) by (auto simp: next_event_def Let_def split: if_splits)
  moreover have "ste_at m s' x = ste_at m s x" for m x by (simp add: ste_at_def calculation)
  ultimately show ?case using event(2) by (simp add: smmu_inv_def stream_ok_def strtab_block_def cmdq_block_def)
qed

lemma reach_inv: "smmu_reach i c \<Longrightarrow> smmu_inv (fst c) (fst (snd c)) (snd (snd c))"
  by (induction rule: smmu_reach.induct) (simp_all add: start_inv step_inv)


text \<open>C6. Binding never fails in a way that costs memory: a refusal leaves the allocated blocks as they were, a success adds
  the frames of one tree, and unbinding gives back exactly these.\<close>

theorem bind_unbind_restores:
  assumes "smmu_reach (s0, v0) (s, v, B)" "regime_ok iova pa n"
  shows "\<exists>res s' v' ws. bind_stream_at hw sid iova pa n s v = Some (res, s', v', ws) \<and>
    (case res of
       Inl e \<Rightarrow> set (pool_used (vpool v')) = set (pool_used (vpool v))
     | Inr r \<Rightarrow> set (pool_used (vpool v)) \<subseteq> set (pool_used (vpool v'))
         \<and> (\<forall>s'' v'' ws'. unbind_stream sid r s' v' = (s'', v'', ws') \<longrightarrow>
              set (pool_used (vpool v'')) = set (pool_used (vpool v)) \<and> (\<forall>va. device_translate (pwords v'') s'' sid va = None)))"
proof -
  have inv: "smmu_inv s v B" using reach_inv [OF assms(1)] by simp
  obtain res s' v' ws where b: "bind_stream_at hw sid iova pa n s v = Some (res, s', v', ws)"
    "case res of
       Inr r \<Rightarrow> unat sid < 256 \<and> smmu_inv s' v' (B(sid \<mapsto> (r, iova, pa, n)))
         \<and> set (pool_used (vpool v')) = set (pool_used (vpool v)) \<union> (\<lambda>f. (f, 1)) ` tree_of (Some (r, iova, pa, n)) v'
         \<and> (\<forall>f\<in>tree_of (Some (r, iova, pa, n)) v'. \<not> owns (vpool v) f)
     | Inl e \<Rightarrow> set (pool_used (vpool v')) = set (pool_used (vpool v)) \<and> smmu_inv s' v' (if e = WouldBlock then B(sid := None) else B)"
    using bind_keeps [OF inv assms(2), of hw sid] by blast
  show ?thesis
  proof (cases res)
    case (Inl e)
    then show ?thesis using b by auto
  next
    case (Inr r)
    let ?b = "(r, iova, pa, n)"
    have i: "smmu_inv s' v' (B(sid \<mapsto> ?b))" "set (pool_used (vpool v')) = set (pool_used (vpool v)) \<union> (\<lambda>f. (f, 1)) ` tree_of (Some ?b) v'"
      "\<forall>f\<in>tree_of (Some ?b) v'. \<not> owns (vpool v) f" using b(2) Inr by simp_all
    have "set (pool_used (vpool v'')) = set (pool_used (vpool v)) \<and> device_translate (pwords v'') s'' sid va = None"
      if u: "unbind_stream sid r s' v' = (s'', v'', ws')" for s'' v'' ws' va
    proof -
      have B': "(B(sid \<mapsto> ?b)) sid = Some ?b" by simp
      note U = unbind_keeps [OF i(1) B' u]
      show ?thesis using U(2) i(2,3) confined [OF U(1), of sid va] by (auto simp: granted_def owns_def)
    qed
    then show ?thesis using b(1) Inr i(2) by auto
  qed
qed

section \<open>A concrete machine\<close>

definition queue_frames :: buddy where
  "queue_frames = \<lparr>base = 0x50000000, frames = 8, longest = [2, 0, 2, 2, 2, 1, 2, 1, 1, 1, 1, 0, 1, 1, 1]\<rparr>"

definition smmu_vm :: vm where
  "smmu_vm = \<lparr>vpool = [big_pool, queue_frames], pwords = (\<lambda>_. 0)\<rparr>"

definition demo_smmu :: smmu where
  "demo_smmu = \<lparr>strtab_phys = 0x50000000, cmdq_phys = 0x50004000, cmdq_prod = 0, eventq_phys = 0, eventq_cons = 0\<rparr>"

definition demo_hw :: smmu_hw where
  "demo_hw = \<lparr>hw_idr0 = 1, hw_idr1 = 16, hw_aidr = 0, hw_cr0ack = (\<lambda>_ _. 0), hw_cons = (\<lambda>_. 2), hw_gerror = 0, hw_gerrorn = 0, hw_evt_prod = 0\<rparr>"

lemma queue_frames_ok: "buddy_wf queue_frames" "used queue_frames = [(0x50000000, 4), (0x50004000, 1)]"
proof -
  have w: "buddy_wf queue_frames" "buddy_tree queue_frames = Split Used (Split (Split Used Free) Free)" "order queue_frames = 3"
    using buddy_wfI [of queue_frames 3 "Split Used (Split (Split Used Free) Free)"]
    by (simp_all add: queue_frames_def is_page_aligned_def PAGE_SIZE_def numeral_3_eq_3)
  show "buddy_wf queue_frames" by (rule w(1))
  show "used queue_frames = [(0x50000000, 4), (0x50004000, 1)]"
    using w by (simp add: used_def queue_frames_def PAGE_SIZE_def)
qed

lemma room_Cons: "room k [b] \<Longrightarrow> room k (b # ts)"
proof (induction k arbitrary: b)
  case (Suc k)
  then obtain x b' where "alloc_pages b 1 = Some (Some x, b')" "room k [b']"
    by (auto simp: pool_allocate_def split: option.splits prod.splits)
  then show ?case using Suc.IH [of b'] by (simp add: pool_allocate_def)
qed simp

lemma room_less: "room (j + k) p \<Longrightarrow> room j p"
  by (induction j arbitrary: p) (auto split: option.splits)

lemma big_pool_span: "span big_pool \<subseteq> {0x40000000..<0x40020000}"
proof -
  obtain b where b: "buddy_new (\<lambda>_. True) 0x40000000 (32 * PAGE_SIZE) = Inr b" "base b = 0x40000000" "frames b \<le> 32"
    using buddy_new_spec [of "0x40000000" "32 * PAGE_SIZE" "\<lambda>_. True"]
    by (auto simp: is_page_aligned_def PAGE_SIZE_def)
  then have "big_pool = b" by (simp add: big_pool_def)
  then show ?thesis using b(2,3) by (auto simp: span_def PAGE_SIZE_def)
qed

lemma smmu_vm_ok: "smmu_start demo_smmu smmu_vm" "room 17 (vpool smmu_vm)"
proof -
  have b: "pool_wf [big_pool]" "pool_low [big_pool]" "used big_pool = []" "room 17 [big_pool]"
    using big_vm_ok by (simp_all add: big_vm_def pool_used_def del: room.simps)
  show "room 17 (vpool smmu_vm)" using room_Cons [OF b(4)] by (simp add: smmu_vm_def del: room.simps)
  have "span queue_frames = {0x50000000..<0x50008000}" by (simp add: span_def queue_frames_def PAGE_SIZE_def)
  then have "span big_pool \<inter> span queue_frames = {}" using big_pool_span by fastforce
  then show "smmu_start demo_smmu smmu_vm"
    using b queue_frames_ok
    by (simp add: smmu_start_def smmu_vm_def pool_wf_def pool_low_def pool_used_def strtab_block_def cmdq_block_def demo_smmu_def
        queue_frames_def PAGE_SIZE_def)
qed

lemma demo_errors: "hw_gerror demo_hw = hw_gerrorn demo_hw"
  by (simp add: demo_hw_def)

lemma polled_first: "ok i \<Longrightarrow> 0 < n \<Longrightarrow> polled ok i n"
  by (cases n) simp_all

lemma build_one:
  assumes "pool_wf (vpool v)" "pool_low (vpool v)" "room 4 (vpool v)" "unat iova + 4096 \<le> 2 ^ 48" "unat pa + 4096 \<le> 2 ^ 48"
  shows "\<exists>r v'. build_stage2_map iova pa 1 v = Some (Some r, v')"
proof -
  obtain r v1 where r: "alloc_table v = Some (Some r, v1)" "room (3 + 0) (vpool v1)"
    using alloc_table_room [of 3 v] assms(3) by (auto simp: eval_nat_numeral simp del: room.simps)
  note S = root_space(1) [OF assms(1,2) r(1), where dp = 0 and en = 0 and hn = 0, folded s2_space_def]
  have r64: "r < 2 ^ 64" using root_untouched(2) [OF assms(1,2) r(1)] by simp
  obtain v' where "map_page (s2_space r) iova (stage2_page pa) v1 = Some (True, v')" using map_page_room [OF r(2)] by blast
  then have "\<exists>leaf v0. s2_walk S2_LEAF_LEVEL r iova v1 = Some (Some leaf, v0)"
    unfolding s2_turn [OF S r64] by (auto split: option.splits prod.splits)
  moreover have "checked_add iova 0 = Some iova" "checked_add pa 0 = Some pa" using assms(4,5) by (simp_all add: checked_add_def)
  ultimately show ?thesis using r(1) by (auto simp: build_stage2_map_def Let_def)
qed

lemma demo_bind:
  obtains r s v ws where "bind_stream_at demo_hw 5 0x10000 0x20000 1 demo_smmu smmu_vm = Some (Inr r, s, v, ws)"
    "smmu_reach (demo_smmu, smmu_vm) (s, v, (\<lambda>_. None)(5 \<mapsto> (r, 0x10000, 0x20000, 1)))"
proof -
  have "room 4 (vpool smmu_vm)" using room_less [of 4 13] smmu_vm_ok(2) by (simp del: room.simps)
  then obtain r v1 where b: "build_stage2_map 0x10000 0x20000 1 smmu_vm = Some (Some r, v1)"
    using build_one [of smmu_vm "0x10000" "0x20000"] smmu_vm_ok(1) by (auto simp: smmu_start_def)
  obtain s3 v3 where p: "push_cmd cmd_sync (push_cmd (cmd_cfgi_ste 5) (demo_smmu,
      write_ste (strtab_phys demo_smmu) 5 (stage2_ste (of_nat r) (stage2 DMA_VMID)) v1)) = (s3, v3)" by fastforce
  have "cmdq_prod s3 = 2" using post_commands(1) [OF p] by (simp add: demo_smmu_def)
  then have "wait_consumed demo_hw s3" unfolding wait_consumed_def
    by (intro polled_first) (simp_all add: demo_hw_def SPINS_def)
  then have "bind_stream_at demo_hw 5 0x10000 0x20000 1 demo_smmu smmu_vm = Some (Inr r, s3, v3, doorbell s3)"
    using p b by (simp add: bind_stream_at_def STRTAB_LOG2_def global_error_def demo_errors)
  moreover from this have "smmu_reach (demo_smmu, smmu_vm) (s3, v3, (\<lambda>_. None)(5 \<mapsto> (r, 0x10000, 0x20000, 1)))"
    by (intro smmu_reach.step [OF smmu_reach.start [OF smmu_vm_ok(1)]] smmu_step.bound) (simp_all add: regime_ok_def)
  ultimately show ?thesis using that by blast
qed


theorem bind_unbind_restores_witness:
  "\<exists>r s' v' ws. bind_stream_at demo_hw 5 0x10000 0x20000 1 demo_smmu smmu_vm = Some (Inr r, s', v', ws)
     \<and> set (pool_used (vpool (fst (snd (unbind_stream 5 r s' v'))))) = {(0x50000000, 4), (0x50004000, 1)}"
proof -
  obtain r s v ws where b: "bind_stream_at demo_hw 5 0x10000 0x20000 1 demo_smmu smmu_vm = Some (Inr r, s, v, ws)"
    by (rule demo_bind)
  have reg: "regime_ok 0x10000 0x20000 1" by (simp add: regime_ok_def)
  obtain s2 v2 w2 where u: "unbind_stream 5 r s v = (s2, v2, w2)" by (cases "unbind_stream 5 r s v")
  have "set (pool_used (vpool v2)) = set (pool_used (vpool smmu_vm))"
    using bind_unbind_restores [OF smmu_reach.start [OF smmu_vm_ok(1)] reg, of demo_hw 5] b u by auto
  also have "\<dots> = {(0x50000000, 4), (0x50004000, 1)}"
    using big_vm_ok(3) queue_frames_ok(2) by (simp add: smmu_vm_def big_vm_def pool_used_def)
  finally show ?thesis using b u by (intro exI conjI) (assumption | simp)+
qed

end
