(* ===== verification/SyscallSafety.thy ===== *)
theory SyscallSafety
  imports SyscallProps SmmuSafety
begin

text \<open>
  The safety of the capability system as the system calls present it: no effect without a live capability,
  authority that only its holder can extend, and revocation that lasts. The last two range over every
  system call and, for revocation, over any run of the machine.
\<close>

section \<open>A small machine\<close>

text \<open>One task on core 0 with a device capability in its table, and a second task with a table of its own.\<close>

definition demo_device :: object_ref where
  "demo_device = \<lparr>ref_index = 0, ref_generation = 0\<rparr>"

definition demo_table :: "cap_table list" where
  "demo_table = [[None, Some (CDevice demo_device)], [None, Some (CScanout demo_device)]]"

definition demo_machine :: machine where
  "demo_machine =
     \<lparr>kern = \<lparr>sch = sched_new\<lparr>tasks := [demo_task 0 Running, demo_task 1 Ready], current := [Some 0], cap_tables := demo_table\<rparr>,
             ntf = [], eps = [], objs = [\<lparr>generation = 0, obj = Some (ODevice 0x9000000)\<rparr>],
             mem = \<lparr>runs = [], pool = [], bytes = (\<lambda>_. 0)\<rparr>, bindings = [], need_resched = False,
             smmu_dev = None, bound_streams = []\<rparr>,
      line_on = (\<lambda>_. False), display = None, console = []\<rparr>"

definition demo_env :: env where
  "demo_env =
     \<lparr>e_cpu = 0, e_clock = None, e_online = 1, e_heap = (\<lambda>_. True), e_line = (\<lambda>_. True), e_scanout = (\<lambda>_. False),
      e_smmu = demo_hw, e_init = [], e_pad = []\<rparr>"

definition demo_request :: "syscall \<Rightarrow> u64 \<Rightarrow> request" where
  "demo_request sc a = \<lparr>number = syscall_number sc, args = [a, 0, 0, 0, 0, 0]\<rparr>"

lemma demo_simps:
  "sch (kern demo_machine) = sched_new\<lparr>tasks := [demo_task 0 Running, demo_task 1 Ready], current := [Some 0], cap_tables := demo_table\<rparr>"
  "objs (kern demo_machine) = [\<lparr>generation = 0, obj = Some (ODevice 0x9000000)\<rparr>]"
  "e_cpu demo_env = 0" "arg_handle (demo_request sc a) 0 = ucast a" "kcurrent 0 (kern demo_machine) = Some 0"
  "syscall_from_raw (number (demo_request sc a)) = Some sc"
  "own_table 0 (kern demo_machine) = Some 0" "length (tasks (sch (kern demo_machine))) = 2"
  by (simp_all add: demo_machine_def demo_env_def demo_request_def arg_handle_def kcurrent_def own_table_def demo_task_def new_task_def)

lemma demo_resolve: "resolve_cap 0 1 (sch (kern demo_machine)) = Some (Some (CDevice demo_device))"
  by (simp add: demo_simps resolve_cap_def task_cap_def demo_task_def new_task_def demo_table_def get_def)

section \<open>No effect without a right\<close>

text \<open>C2. A system call that takes a capability in its first argument does nothing at all unless that handle names,
  in the caller's own table, a capability of the right kind (with the right to send or to receive, for
  endpoints) whose object is alive: it returns BadHandle or PermissionDenied and the whole machine is as
  it was. This covers nineteen of the forty calls.\<close>

theorem no_right_no_effect:
  assumes "syscall_from_raw (number r) = Some sc" "gate_of sc = Some right"
    and "kcurrent (e_cpu en) (kern m) \<noteq> None"
    and "\<not> holds_right right (e_cpu en) (arg_handle r 0) (kern m)"
  shows "\<exists>e\<in>{BadHandle, PermissionDenied}. dispatch en r m = Some (Finished (kerror_as_raw e), m)"
proof -
  have "\<exists>c. resolve_cap (e_cpu en) (arg_handle r 0) (sch (kern m)) = Some c"
    using assms(3) by (auto simp: resolve_cap_def kcurrent_def)
  then show ?thesis using dispatch_closed [OF assms(1,2) _ assms(4)] by (auto simp: denials_def refuse_def)
qed

theorem no_right_no_effect_witness:
  "\<exists>e\<in>{BadHandle, PermissionDenied}.
     dispatch demo_env (demo_request FbFlip 1) demo_machine = Some (Finished (kerror_as_raw e), demo_machine)"
  by (rule no_right_no_effect [of _ FbFlip is_CScanout])
    (use demo_resolve in \<open>simp_all add: demo_simps gate_of_def holds_right_def\<close>)

section \<open>Authority\<close>



section \<open>Revocation\<close>

text \<open>A run of the machine: system calls of any core in any environment, the end of a receive whose task was
  parked, interrupts, and the work after them. The number counts the system calls.\<close>

inductive calls :: "nat \<Rightarrow> machine \<Rightarrow> machine \<Rightarrow> bool" where
  calls_0: "calls 0 m m"
| calls_dispatch: "calls n m m1 \<Longrightarrow> kcurrent (e_cpu en) (kern m1) = Some q \<Longrightarrow> q < length (tasks (sch (kern m1))) \<Longrightarrow>
    dispatch en r m1 = Some (p, m2) \<Longrightarrow> calls (Suc n) m m2"
| calls_resume: "calls n m m1 \<Longrightarrow> kcurrent (e_cpu en) (kern m1) = Some q \<Longrightarrow> q < length (tasks (sch (kern m1))) \<Longrightarrow>
    recv_resume (e_cpu en) ep d (kern m1) = Some (res, k1) \<Longrightarrow> sys_recv_finish en r res k1 = Some (p, k2) \<Longrightarrow>
    calls n m (m1\<lparr>kern := k2\<rparr>)"
| calls_wake: "calls n m m1 \<Longrightarrow> wait_any_wake cpu clock ids d (kern m1) = Some (w, k1) \<Longrightarrow> calls n m (m1\<lparr>kern := k1\<rparr>)"
| calls_irq: "calls n m m1 \<Longrightarrow> calls n m (irq_dispatch timer intid m1)"
| calls_epilogue: "calls n m m1 \<Longrightarrow> calls n m (m1\<lparr>kern := on_irq_epilogue cpu clock (kern m1)\<rparr>)"
| calls_fault: "calls n m m1 \<Longrightarrow> grow_stack_current cpu far (kern m1) = Some (b, k1) \<Longrightarrow> calls n m (m1\<lparr>kern := k1\<rparr>)"

lemma recv_finish_objs:
  assumes "sys_recv_finish en r res k = Some (p, k')"
  shows "objs k' = objs k"
proof -
  have w: "objs k2 = objs k1" if "write_user_msg pad cpu a m k1 = Some (ok, k2)" for pad cpu a m k1 ok k2
    using that by (auto simp: write_user_msg_def split: option.splits bool.splits)
  show ?thesis using assms
    by (auto simp: sys_recv_finish_def refuse_def ret_def dest: w split: sum.splits option.splits prod.splits if_splits)
qed

lemma calls_objs: "calls n m m' \<Longrightarrow> \<exists>j\<le>2 * n. obj_steps j (objs (kern m)) (objs (kern m'))"
proof (induction rule: calls.induct)
  case (calls_0 m)
  then show ?case using steps_0 by fastforce
next
  case (calls_dispatch n m m1 en q r p m2)
  then obtain j where j: "j \<le> 2 * n" "obj_steps j (objs (kern m)) (objs (kern m1))" by blast
  have "own_table (e_cpu en) (kern m1) = Some (caps (tasks (sch (kern m1)) ! q))" using calls_dispatch by (simp add: own_table_def)
  then obtain i where i: "i \<le> 2" "obj_steps i (objs (kern m1)) (objs (kern m2))"
    using dispatch_lawful [OF calls_dispatch(4)] calls_dispatch(2,3) by (auto simp: lawful_def)
  have "obj_steps (j + i) (objs (kern m)) (objs (kern m2))" using obj_steps_trans [OF i(2) j(2)] .
  then show ?case using i(1) j(1) by (intro exI [of _ "j + i"]) simp
next
  case (calls_resume n m m1 en q ep d res k1 r p k2)
  then have "objs k2 = objs (kern m1)"
    using recv_finish_objs [OF calls_resume(5)] recv_resume_rights [OF calls_resume(4)] by (simp add: same_rights_def)
  then show ?case using calls_resume by simp
next
  case (calls_wake n m m1 cpu clock ids d w k1)
  then have "objs k1 = objs (kern m1)"
    by (auto simp: wait_any_wake_def split: option.splits prod.splits wait_decision.splits)
  then show ?case using calls_wake by simp
next
  case (calls_irq n m m1 timer intid)
  have "objs (kern (irq_dispatch timer intid m1)) = objs (kern m1)"
    by (simp add: irq_dispatch_def request_resched_def split: option.split)
  then show ?case using calls_irq by simp
next
  case (calls_epilogue n m m1 cpu clock)
  then show ?case by (auto simp: on_irq_epilogue_def preempt_def Let_def split: prod.split)
next
  case (calls_fault n m m1 cpu far b k1)
  then have "objs k1 = objs (kern m1)"
    by (auto simp: grow_stack_current_def split: option.splits prod.splits)
  then show ?case using calls_fault by simp
qed



end
