(* ===== verification/SyscallErrors.thy ===== *)
theory SyscallErrors
  imports SyscallSafety
begin

text \<open>
  The error paths of the system calls: what a refused creation leaves behind (nothing), and the calls that
  do leave something behind when they fail; and what happens to the memory of a buffer whose object is
  revoked.
\<close>

section \<open>Refused creations\<close>

lemma create_then_revoke:
  assumes "obj_create ee rs slots ob = (Some r, slots')" "length slots < 2 ^ 32"
  shows "obj_get (snd (obj_revoke slots' r)) q = obj_get slots q"
proof -
  consider (reuse) i where "i < length slots" "obj (slots ! i) = None"
      "r = \<lparr>ref_index = of_nat i, ref_generation = generation (slots ! i)\<rparr>" "slots' = slots[i := (slots ! i)\<lparr>obj := Some ob\<rparr>]"
    | (grow) "r = \<lparr>ref_index = of_nat (length slots), ref_generation = 0\<rparr>" "slots' = slots @ [\<lparr>generation = 0, obj = Some ob\<rparr>]"
    using assms(1) by (auto simp: obj_create_def dest: position_SomeD split: option.splits if_splits)
  then show ?thesis
  proof cases
    case reuse
    have u: "unat (ref_index r) = i" using reuse(1,3) assms(2) by (simp add: unat_index)
    have "obj_revoke slots' r = (True, slots[i := (slots ! i)\<lparr>obj := None, generation := generation (slots ! i) + 1\<rparr>])"
      using reuse u by (simp add: obj_revoke_def get_def)
    then show ?thesis using reuse(1,2) by (auto simp: obj_get_def get_def nth_list_update)
  next
    case grow
    have "unat (ref_index r) = length slots" using grow(1) assms(2) by (simp add: unat_index)
    then have "obj_revoke slots' r = (True, slots @ [\<lparr>generation = 1, obj = None\<rparr>])"
      using grow by (simp add: obj_revoke_def get_def)
    then show ?thesis by (auto simp: obj_get_def get_def nth_append less_Suc_eq)
  qed
qed

lemma create_object_None: "create_object en ob k = (None, k') \<Longrightarrow> k' = k"
  by (auto simp: create_object_def obj_create_def Let_def split: option.splits if_splits prod.splits)

lemma create_object_Some:
  assumes "create_object en ob k = (Some r, k')"
  shows "mem k' = mem k" "sch k' = sch k" "\<exists>ee rs. obj_create ee rs (objs k) ob = (Some r, objs k')"
  using assms by (auto simp: create_object_def split: prod.splits) blast

lemma install_current_None: "install_current en c k = Some (None, k') \<Longrightarrow> k' = k"
  by (auto simp: install_current_def install_cap_current_def install_def Let_def split: option.splits if_splits prod.splits)

lemma install_current_Some_mem: "install_current en c k = Some (h, k') \<Longrightarrow> mem k' = mem k"
  by (auto simp: install_current_def split: option.splits prod.splits)

text \<open>Creating and failing to hand over: the object is gone again.\<close>

lemma failed_mint:
  assumes "create_object en ob k = (Some ref, k1)" "install_current en c k1 = Some (None, k2)" "length (objs k) < 2 ^ 32"
  shows "mem (revoke_object ref k2) = mem k" "sch (revoke_object ref k2) = sch k"
    and "obj_get (objs (revoke_object ref k2)) q = obj_get (objs k) q"
proof -
  note c = create_object_Some [OF assms(1)]
  have k2: "k2 = k1" using install_current_None [OF assms(2)] .
  show "mem (revoke_object ref k2) = mem k" "sch (revoke_object ref k2) = sch k" using c k2 by (simp_all add: revoke_object_def)
  obtain ee rs where "obj_create ee rs (objs k) ob = (Some ref, objs k1)" using c(3) by blast
  from create_then_revoke [OF this assms(3), of q]
  show "obj_get (objs (revoke_object ref k2)) q = obj_get (objs k) q" by (simp add: k2 revoke_object_def)
qed

definition unharmed :: "kernel \<Rightarrow> kernel \<Rightarrow> bool" where
  "unharmed k k' \<longleftrightarrow> set (pool_used (pool (mem k'))) = set (pool_used (pool (mem k))) \<and> pool_wf (pool (mem k'))
     \<and> sch k' = sch k \<and> (\<forall>q. obj_get (objs k') q = obj_get (objs k) q) \<and> (\<forall>j. with_frames (mem k') j = with_frames (mem k) j)"

lemma unharmed_refl: "pool_wf (pool (mem k)) \<Longrightarrow> unharmed k k"
  by (simp add: unharmed_def)

lemma shm_take_runs: "shm_take n run s = Some (r, s') \<Longrightarrow> runs s' = runs s"
  by (induction n run s rule: shm_take.induct) (auto split: option.splits prod.splits)

lemma shm_create_runs:
  assumes "shm_create rr rt n s = Some (Some i, s')"
  shows "\<exists>run. runs s' = (runs s)[i := run] \<and> get (runs s) i = Some [] \<or> runs s' = runs s @ [run] \<and> i = length (runs s)"
  using assms shm_take_runs [of n "[]" s]
  by (auto simp: shm_create_def get_def position_Some_iff split: option.splits if_splits prod.splits)

lemma shm_back:
  assumes wf: "pool_wf (pool s)" and c: "shm_create rr rt n s = Some (Some i, s')"
  shows "set (pool_used (pool (shm_free_with i s'))) = set (pool_used (pool s)) \<and> pool_wf (pool (shm_free_with i s'))
     \<and> with_frames (shm_free_with i s') j = with_frames s j"
proof -
  obtain fs where fs: "get (runs s') i = Some fs" "distinct fs" "\<forall>f\<in>set fs. owns (pool s') f \<and> \<not> owns (pool s) f"
      "set (pool_used (pool s')) = set (pool_used (pool s)) \<union> (\<lambda>f. (f, 1)) ` set fs" "pool_wf (pool s')"
    using shm_create_spec [OF wf, of rr rt n] c by auto
  have p: "pool_wf (foldl pool_free (pool s') fs)"
      "set (pool_used (foldl pool_free (pool s') fs)) = set (pool_used (pool s')) - (\<lambda>f. (f, 1)) ` set fs"
    using pool_free_all [OF fs(5,2)] fs(3) by auto
  have "(f, 1) \<notin> set (pool_used (pool s))" if "f \<in> set fs" for f using that fs(3) by (auto simp: owns_def)
  then have u: "set (pool_used (foldl pool_free (pool s') fs)) = set (pool_used (pool s))" using p(2) fs(4) by auto
  have f: "shm_free_with i s' = s'\<lparr>runs := (runs s')[i := []], pool := foldl pool_free (pool s') fs\<rparr>"
    using fs(1) by (auto simp: shm_free_with_def get_def)
  consider (reuse) run where "runs s' = (runs s)[i := run]" "i < length (runs s)" "runs s ! i = []"
    | (grow) run where "runs s' = runs s @ [run]" "i = length (runs s)"
    using shm_create_runs [OF c] by (auto simp: get_def split: if_splits)
  then have "with_frames (shm_free_with i s') j = with_frames s j"
  proof cases
    case reuse
    have "(runs s)[i := []] = runs s" using reuse(3) by (metis list_update_id)
    then show ?thesis using reuse(1) by (simp add: f with_frames_def)
  next
    case grow
    have "runs (shm_free_with i s') = runs s @ [[]]" using f grow by simp
    then show ?thesis by (auto simp: with_frames_def get_def nth_append less_Suc_eq)
  qed
  then show ?thesis using p(1) u f by simp
qed

lemma pool_back:
  assumes wf: "pool_wf p" and a: "pool_alloc_pages p n = Some (Some f, p')"
  shows "set (pool_used (pool_free_pages p' f)) = set (pool_used p) \<and> pool_wf (pool_free_pages p' f)"
proof -
  let ?o = "next_power_of_two (max n 1)"
  note A = pool_alloc_success [OF wf a refl]
  obtain xs ys where u: "pool_used p = xs @ ys" "pool_used p' = xs @ (f, ?o) # ys" using A by blast
  have wf': "pool_wf p'" using A by blast
  have "0 < ?o" by (simp add: next_power_of_two_def)
  then have f: "f \<in> block (f, ?o)" by (simp add: block_def PAGE_SIZE_def)
  obtain as x bs where x: "pool_used p' = as @ x # bs" "pool_used (pool_free_pages p' f) = as @ bs" "f \<in> block x"
    using pool_free_spec [OF wf', of f] f u(2) by (auto split: if_splits)
  have "(f, ?o) \<in> set (pool_used p')" "x \<in> set (pool_used p')" by (simp add: u(2), simp add: x(1))
  then have "x = (f, ?o)" using pool_blocks_disjoint [OF wf', of x "(f, ?o)"] x(3) f by blast
  moreover have "distinct (pool_used p')" using wf' by (rule pool_used_distinct)
  ultimately have "set (pool_used (pool_free_pages p' f)) = set (pool_used p') - {(f, ?o)}" using x by auto
  moreover have "(f, ?o) \<notin> set (pool_used p)" using \<open>distinct (pool_used p')\<close> u by auto
  ultimately show ?thesis using u pool_free_spec [OF wf', of f] by auto
qed

text \<open>A refused CreateShared or CreateDma leaves nothing behind, wherever it failed: the blocks taken from the
  frame pool, the tables of the scheduler, the run of every shared buffer and what every object reference
  resolves to are those from before the call.\<close>

theorem refused_creation_leaves_nothing:
  assumes "create_shared en n k = Some (Finished e, k') \<or> create_dma en n k = Some (Finished e, k')" "e < 0"
    and "pool_wf (pool (mem k))" "length (objs k) < 2 ^ 32"
  shows "unharmed k k'"
proof -
  have shm_side: "unharmed k k'" if c: "create_shared en n k = Some (Finished e, k')"
  proof (cases "n = 0 \<or> n > MAX_SHARED_PAGES")
    case True
    then show ?thesis using c unharmed_refl [OF assms(3)] by (auto simp: create_shared_def refuse_def)
  next
    case False
    obtain r s where s: "shm_create (e_heap en RRun) (e_heap en RRunTable) n (mem k) = Some (r, s)" "pool_wf (pool s)"
        "r = None \<longrightarrow> runs s = runs (mem k) \<and> set (pool_used (pool s)) = set (pool_used (pool (mem k)))"
      using shm_create_spec [OF assms(3), of "e_heap en RRun" "e_heap en RRunTable" n] by (auto split: option.splits)
    show ?thesis
    proof (cases r)
      case None
      then have "k' = k\<lparr>mem := s\<rparr>" using c s(1) False by (simp add: create_shared_def refuse_def)
      then show ?thesis using s(2,3) None by (simp add: unharmed_def with_frames_def)
    next
      case (Some i)
      note b = shm_back [OF assms(3) s(1) [unfolded Some]]
      obtain ro k1 where k1: "create_object en (OSharedMemory i (of_nat n)) (k\<lparr>mem := s\<rparr>) = (ro, k1)" by fastforce
      show ?thesis
      proof (cases ro)
        case None
        then have "k' = k\<lparr>mem := shm_free_with i s\<rparr>"
          using c s(1) Some False k1 create_object_None [OF k1 [unfolded None]] by (simp add: create_shared_def refuse_def)
        then show ?thesis using b by (simp add: unharmed_def)
      next
        case (Some ref)
        obtain h k2 where k2: "install_current en (CShared ref) k1 = Some (h, k2)"
          using c s(1) \<open>r = Some i\<close> False k1 Some by (auto simp: create_shared_def split: option.splits)
        then have h: "h = None" using c s(1) \<open>r = Some i\<close> False k1 Some assms(2)
          by (auto simp: create_shared_def ret_def split: option.splits)
        note m = failed_mint [OF k1 [unfolded Some] k2 [unfolded h]]
        have "k' = (revoke_object ref k2)\<lparr>mem := shm_free_with i s\<rparr>"
          using c s(1) \<open>r = Some i\<close> False k1 Some k2 h m(1) assms(4)
          by (auto simp: create_shared_def refuse_def Let_def)
        then show ?thesis using b m(2,3) assms(4) by (simp add: unharmed_def)
      qed
    qed
  qed
  have dma_side: "unharmed k k'" if c: "create_dma en n k = Some (Finished e, k')"
  proof (cases "n = 0 \<or> n > MAX_DMA_PAGES")
    case True
    then show ?thesis using c unharmed_refl [OF assms(3)] by (auto simp: create_dma_def refuse_def)
  next
    case False
    obtain r p where p: "pool_alloc_pages (pool (mem k)) n = Some (r, p)" "r = None \<longrightarrow> p = pool (mem k)"
      using pool_alloc_total [OF assms(3), of n] by blast
    show ?thesis
    proof (cases r)
      case None
      then have "k' = k\<lparr>mem := (mem k)\<lparr>pool := p\<rparr>\<rparr>" using c p(1) False by (simp add: create_dma_def refuse_def)
      then show ?thesis using p(2) None assms(3) by (simp add: unharmed_def with_frames_def)
    next
      case (Some f)
      note b = pool_back [OF assms(3) p(1) [unfolded Some]]
      let ?k0 = "k\<lparr>mem := (mem k)\<lparr>pool := p, bytes := zero_pages f n (bytes (mem k))\<rparr>\<rparr>"
      obtain ro k1 where k1: "create_object en (ODmaBuffer (of_nat f) (of_nat n)) ?k0 = (ro, k1)" by fastforce
      show ?thesis
      proof (cases ro)
        case None
        then have "k' = ?k0\<lparr>mem := (mem ?k0)\<lparr>pool := pool_free_pages p f\<rparr>\<rparr>"
          using c p(1) Some False k1 create_object_None [OF k1 [unfolded None]] by (simp add: create_dma_def refuse_def Let_def)
        then show ?thesis using b by (simp add: unharmed_def with_frames_def)
      next
        case (Some ref)
        obtain h k2 where k2: "install_current en (CDma ref) k1 = Some (h, k2)"
          using c p(1) \<open>r = Some f\<close> False k1 Some by (auto simp: create_dma_def Let_def split: option.splits)
        then have h: "h = None" using c p(1) \<open>r = Some f\<close> False k1 Some assms(2)
          by (auto simp: create_dma_def ret_def Let_def split: option.splits)
        note m = failed_mint [OF k1 [unfolded Some] k2 [unfolded h]]
        have "k' = (revoke_object ref k2)\<lparr>mem := (mem ?k0)\<lparr>pool := pool_free_pages p f\<rparr>\<rparr>"
          using c p(1) \<open>r = Some f\<close> False k1 Some k2 h m(1) assms(4)
          by (auto simp: create_dma_def refuse_def Let_def)
        then show ?thesis using b m(2,3) assms(4) by (simp add: unharmed_def with_frames_def)
      qed
    qed
  qed
  show ?thesis using assms(1) shm_side dma_side by blast
qed

definition full_env :: env where
  "full_env = demo_env\<lparr>e_heap := (\<lambda>x. x \<noteq> RObject)\<rparr>"

definition pool_machine :: kernel where
  "pool_machine = (kern demo_machine)\<lparr>mem := \<lparr>runs = [], pool = [demo], bytes = (\<lambda>_. 7)\<rparr>\<rparr>"

theorem refused_creation_leaves_nothing_witness:
  "\<exists>e k'. create_shared full_env 1 pool_machine = Some (Finished e, k') \<and> e < 0 \<and> unharmed pool_machine k'"
proof -
  have wf: "pool_wf (pool (mem pool_machine))" using demo_wf(1) by (simp add: pool_machine_def)
  obtain r s where s: "shm_create True True 1 (mem pool_machine) = Some (r, s)"
    using shm_create_spec [OF wf, of True True 1] by blast
  have "create_object full_env ob (pool_machine\<lparr>mem := s'\<rparr>) = (None, pool_machine\<lparr>mem := s'\<rparr>)" if "ob \<noteq> OEndpoint 0" for ob s'
    by (auto simp: create_object_def obj_create_def full_env_def pool_machine_def demo_machine_def split: object.split)
  then have "\<exists>k'. create_shared full_env 1 pool_machine = Some (Finished (kerror_as_raw OutOfResources), k')"
    using s by (cases r) (auto simp: create_shared_def MAX_SHARED_PAGES_def full_env_def refuse_def)
  then obtain k' where c: "create_shared full_env 1 pool_machine = Some (Finished (kerror_as_raw OutOfResources), k')" by blast
  have "length (objs pool_machine) < 2 ^ 32" by (simp add: pool_machine_def demo_machine_def)
  then show ?thesis using refused_creation_leaves_nothing [OF disjI1 [OF c] _ wf] c by auto
qed

section \<open>Failing to register an interrupt\<close>

text \<open>An IrqRegister that returns InvalidArgument (the line is already bound, the binding table cannot grow, or the
  controller refuses the line) has already put a live notification capability in the caller's table under
  a handle the caller is not told: each such failure leaves a notification, an object and a capability.\<close>

theorem failed_irq_register_leaks:
  assumes "dispatch en r m = Some (Finished (kerror_as_raw InvalidArgument), m')" "syscall_from_raw (number r) = Some IrqRegister"
    and "kcurrent (e_cpu en) (kern m) = Some me" "caps_wf (cap_tables (sch (kern m)) ! caps (tasks (sch (kern m)) ! me))"
    and "caps (tasks (sch (kern m)) ! me) < length (cap_tables (sch (kern m)))" "length (objs (kern m)) < 2 ^ 32"
    and "length (cap_tables (sch (kern m)) ! caps (tasks (sch (kern m)) ! me)) < 2 ^ 32"
  shows "\<exists>h ref i. task_cap (sch (kern m)) me h = None \<and> task_cap (sch (kern m')) me h = Some (CNotification ref)
     \<and> obj_get (objs (kern m')) ref = Some (ONotification i)"
proof -
  let ?t = "caps (tasks (sch (kern m)) ! me)" let ?T = "cap_tables (sch (kern m)) ! ?t"
  have "sys_irq_register en r m = Some (Finished (- 1), m')" using assms(1,2) by (simp add: dispatch_def)
  moreover have "kerror_as_raw e \<noteq> - 1" if "resolve_interrupt c h k = Some (Inl e)" for e c h k
    using irq_gate.denied [OF that] by (auto simp: denials_def)
  ultimately obtain intid i t k1 ref h k2 m1 where
    n: "notify_create (e_heap en RNotify) (ntf (kern m)) = (Some i, t)"
    and c: "create_object en (ONotification i) ((kern m)\<lparr>ntf := t\<rparr>) = (Some ref, k1)"
    and ins: "install_current en (CNotification ref) k1 = Some (Some h, k2)"
    and reg: "irq_register en intid i (m\<lparr>kern := k2\<rparr>) = (False, m1)" "m' = m1"
    by (auto simp: sys_irq_register_def with_right_def refuse_def ret_def split: option.splits sum.splits prod.splits bool.splits)
  note C = create_object_Some [OF c]
  obtain ee rs where "obj_create ee rs (objs (kern m)) (ONotification i) = (Some ref, objs k1)" using C(3) by auto
  then have live: "obj_get (objs k1) ref = Some (ONotification i)" using obj_create_correct assms(6) by blast
  have k1: "sch k1 = sch (kern m)" using C(2) by simp
  obtain T' where T': "install (e_heap en RCaps) ?T (CNotification ref) = (Some h, T')"
      "k2 = k1\<lparr>sch := (sch k1)\<lparr>cap_tables := (cap_tables (sch k1))[?t := T']\<rparr>\<rparr>"
    using ins assms(3) k1 by (auto simp: install_current_def install_cap_current_def kcurrent_def Let_def split: prod.splits)
  note I = install_Some [OF assms(4) T'(1)]
  have len: "length T' \<le> Suc (length ?T)" using T'(1) by (auto simp: install_def split: option.splits if_splits)
  have "h < 2 ^ 32" using I(2) len assms(7) by simp
  then have u: "unat (of_nat h :: u32) = h" by (simp add: unat_of_nat)
  have same: "sch (kern m') = sch k2" "objs (kern m') = objs k2"
    using reg by (auto simp: irq_register_def line_enable_def Let_def split: if_splits)
  have "task_cap (sch (kern m)) me (of_nat h) = None" using I(6) by (auto simp: task_cap_def u get_def)
  moreover have "task_cap (sch (kern m')) me (of_nat h) = Some (CNotification ref)"
    using I(2,3) assms(5) by (simp add: same T'(2) k1 task_cap_def u get_def)
  moreover have "obj_get (objs (kern m')) ref = Some (ONotification i)" using live by (simp add: same T'(2))
  ultimately show ?thesis by blast
qed

definition irq_machine :: machine where
  "irq_machine = demo_machine\<lparr>kern := (kern demo_machine)\<lparr>
     sch := (sch (kern demo_machine))\<lparr>cap_tables := [[None, Some (CIrq demo_device)], [None]]\<rparr>,
     objs := [\<lparr>generation = 0, obj = Some (OInterrupt 48)\<rparr>], bindings := [(48, 0)]\<rparr>\<rparr>"

theorem failed_irq_register_leaks_witness:
  "\<exists>m'. dispatch demo_env (demo_request IrqRegister 1) irq_machine = Some (Finished (kerror_as_raw InvalidArgument), m')
     \<and> (\<exists>h ref i. task_cap (sch (kern m')) 0 h = Some (CNotification ref) \<and> obj_get (objs (kern m')) ref = Some (ONotification i))"
proof -
  have res: "resolve_interrupt 0 1 (kern irq_machine) = Some (Inr 48)"
    by (simp add: resolve_interrupt_def resolve_cap_def task_cap_def irq_machine_def demo_simps demo_task_def new_task_def get_def
        obj_get_def demo_device_def)
  have "\<exists>m'. sys_irq_register demo_env (demo_request IrqRegister 1) irq_machine = Some (Finished (- 1), m')"
    by (simp add: sys_irq_register_def demo_simps res with_right_def)
       (simp add: irq_machine_def demo_machine_def demo_env_def notify_create_def create_object_def obj_create_def install_current_def
         install_cap_current_def install_def irq_register_def ret_def refuse_def demo_task_def new_task_def Let_def)
  then obtain m' where d: "dispatch demo_env (demo_request IrqRegister 1) irq_machine = Some (Finished (kerror_as_raw InvalidArgument), m')"
    by (auto simp: dispatch_def demo_simps)
  have "kcurrent (e_cpu demo_env) (kern irq_machine) = Some 0" "caps (tasks (sch (kern irq_machine)) ! 0) = 0"
    "cap_tables (sch (kern irq_machine)) = [[None, Some (CIrq demo_device)], [None]]" "length (objs (kern irq_machine)) = 1"
    by (simp_all add: irq_machine_def demo_simps kcurrent_def demo_task_def new_task_def)
  then show ?thesis using d failed_irq_register_leaks [OF d, of 0] by (auto simp: demo_simps caps_wf_def)
qed

section \<open>The memory of revoked buffers\<close>

lemma sweep_shared: "snd (snd (sweep_slots slots p sh)) = sh @ concat (map (\<lambda>s. case obj s of Some (OSharedMemory i _) \<Rightarrow> [i] | _ \<Rightarrow> []) slots)"
  by (induction slots arbitrary: p sh) (auto simp: Let_def case_prod_beta split: option.split object.split)

lemma shared_slot:
  "i \<in> set (case obj x of Some (OSharedMemory i _) \<Rightarrow> [i] | _ \<Rightarrow> []) \<longleftrightarrow> (\<exists>n. obj x = Some (OSharedMemory i n))"
proof (cases "obj x")
  case (Some ob)
  then show ?thesis by (cases ob) auto
qed simp

lemma shm_free_list:
  "get (runs (foldl (\<lambda>s i. shm_free_with i s) s is)) i
     = (if i \<in> set is \<and> i < length (runs s) then Some [] else get (runs s) i)"
proof (induction "is" arbitrary: s)
  case (Cons j js)
  have g: "get (runs (shm_free_with j s)) i = (if i = j \<and> i < length (runs s) then Some [] else get (runs s) i)"
    and l: "length (runs (shm_free_with j s)) = length (runs s)"
    by (auto simp: shm_free_with_def get_def split: option.split)
  show ?case unfolding foldl.simps Cons.IH g l by auto
qed simp

text \<open>The shutdown sweep gives back the frames of a shared buffer through its object; once the object has been
  revoked its slot no longer names the buffer, so the sweep leaves the buffer's frames in use. The comment
  on revoke says they are reclaimed at shutdown.\<close>

theorem revoked_buffer_never_reclaimed:
  assumes "obj_get slots r = Some (OSharedMemory i n)" "i < length (runs s)"
    and "\<forall>j<length slots. j \<noteq> unat (ref_index r) \<longrightarrow> (\<forall>n'. obj (slots ! j) \<noteq> Some (OSharedMemory i n'))"
  shows "with_frames (snd (free_reclaimable slots s)) i = None
     \<and> with_frames (snd (free_reclaimable (snd (obj_revoke slots r)) s)) i = with_frames s i"
proof -
  have run: "with_frames (snd (free_reclaimable ss s)) i =
      (if \<exists>x\<in>set ss. \<exists>n. obj x = Some (OSharedMemory i n) then None else with_frames s i)" for ss
  proof -
    obtain ss' p sh where sw: "sweep_slots ss (pool s) [] = (ss', p, sh)" by (cases "sweep_slots ss (pool s) []")
    have "sh = concat (map (\<lambda>s. case obj s of Some (OSharedMemory i _) \<Rightarrow> [i] | _ \<Rightarrow> []) ss)"
      using sweep_shared [of ss "pool s" "[]"] by (simp add: sw)
    then have "i \<in> set sh \<longleftrightarrow> (\<exists>x\<in>set ss. \<exists>n. obj x = Some (OSharedMemory i n))"
      by (simp add: shared_slot) metis
    then show ?thesis using assms(2) by (simp add: free_reclaimable_def sw with_frames_def shm_free_list)
  qed
  let ?j = "unat (ref_index r)"
  obtain x where x: "get slots ?j = Some x" "generation x = ref_generation r" "obj x = Some (OSharedMemory i n)"
    using assms(1) by (auto simp: obj_get_Some_iff)
  then have j: "?j < length slots" "slots ! ?j = x" by (auto simp: get_def split: if_splits)
  have rv: "snd (obj_revoke slots r) = slots[?j := x\<lparr>obj := None, generation := generation x + 1\<rparr>]"
    using x by (auto simp: obj_revoke_def get_def)
  have "\<exists>y\<in>set slots. \<exists>n. obj y = Some (OSharedMemory i n)" using x j nth_mem by metis
  moreover have "\<not> (\<exists>y\<in>set (snd (obj_revoke slots r)). \<exists>n. obj y = Some (OSharedMemory i n))"
  proof
    assume "\<exists>y\<in>set (snd (obj_revoke slots r)). \<exists>n. obj y = Some (OSharedMemory i n)"
    then obtain k n' where k: "k < length slots" "obj (snd (obj_revoke slots r) ! k) = Some (OSharedMemory i n')"
      by (auto simp: rv in_set_conv_nth)
    then show False using assms(3) by (cases "k = ?j") (auto simp: rv)
  qed
  ultimately show ?thesis by (simp add: run)
qed

theorem revoked_buffer_never_reclaimed_witness:
  "let slots = [\<lparr>generation = 0, obj = Some (OSharedMemory 0 1)\<rparr>]; s = \<lparr>runs = [[4096]], pool = [], bytes = (\<lambda>_. 0)\<rparr>
   in with_frames (snd (free_reclaimable slots s)) 0 = None
      \<and> with_frames (snd (free_reclaimable (snd (obj_revoke slots demo_device)) s)) 0 = Some [4096]"
  using revoked_buffer_never_reclaimed [of "[\<lparr>generation = 0, obj = Some (OSharedMemory 0 1)\<rparr>]" demo_device 0 1
      "\<lparr>runs = [[4096]], pool = [], bytes = (\<lambda>_. 0)\<rparr>"]
  by (simp add: demo_device_def obj_get_def get_def with_frames_def)

end
