(* ===== verification/Chunks.thy ===== *)
theory Chunks
  imports Machine
begin

text \<open>
  The chunked loops of \<^verbatim>\<open>map_anon_current\<close> and \<^verbatim>\<open>unmap_current\<close>, which give interrupts a window every
  sixteen pages, do what one long loop would.
\<close>

lemma map_anon_from_add:
  "map_anon_from (a + b) pg sp v =
     (case map_anon_from a pg sp v of
        None \<Rightarrow> None
      | Some (False, v1) \<Rightarrow> Some (False, v1)
      | Some (True, v1) \<Rightarrow> map_anon_from b (pg + of_nat a * PAGE_4K) sp v1)"
proof (induction a arbitrary: pg v)
  case (Suc a)
  have e: "pg + of_nat (Suc a) * PAGE_4K = pg + PAGE_4K + of_nat a * PAGE_4K" by (simp add: algebra_simps)
  show ?case
    unfolding e by (simp add: Suc.IH split: option.split)
qed simp

lemma unmap_from_add:
  "unmap_from (a + b) pg sp v =
     (let (r1, v1) = unmap_from a pg sp v; (r2, v2) = unmap_from b (pg + of_nat a * PAGE_4K) sp v1 in (r1 + r2, v2))"
proof (induction a arbitrary: pg v)
  case (Suc a)
  have e: "pg + of_nat (Suc a) * PAGE_4K = pg + PAGE_4K + of_nat a * PAGE_4K" by (simp add: algebra_simps)
  show ?case
    unfolding e by (simp add: Suc.IH Let_def split: option.split prod.split)
qed simp

lemma chunk_unat: "unat (of_nat (min CHUNK n) :: u64) = min CHUNK n"
  by (simp add: unat_of_nat CHUNK_def min_def)

lemma anon_chunks_eq:
  assumes "mapped \<le> pages"
  shows "case map_anon_from (pages - mapped) (va + of_nat mapped * PAGE_4K) sp v of
           None \<Rightarrow> anon_chunks sp va pages mapped v = None
         | Some (ok, v') \<Rightarrow> \<exists>m\<le>pages. anon_chunks sp va pages mapped v = Some (m, v') \<and> (m = pages \<longleftrightarrow> ok)"
  using assms
proof (induction sp va pages mapped v rule: anon_chunks.induct)
  case (1 sp va pages mapped v)
  show ?case
  proof (cases "mapped < pages")
    case False
    then show ?thesis using "1.prems" by (simp add: anon_chunks.simps)
  next
    case True
    let ?c = "min CHUNK (pages - mapped)"
    have c: "0 < ?c" "?c \<le> pages - mapped" using True by (simp_all add: CHUNK_def)
    have split: "pages - mapped = ?c + (pages - (mapped + ?c))" using c by simp
    have at: "va + of_nat mapped * PAGE_4K + of_nat ?c * PAGE_4K = va + of_nat (mapped + ?c) * PAGE_4K" by (simp add: algebra_simps)
    have long: "map_anon_from (pages - mapped) (va + of_nat mapped * PAGE_4K) sp v =
        (case map_anon_from ?c (va + of_nat mapped * PAGE_4K) sp v of
           None \<Rightarrow> None | Some (False, v1) \<Rightarrow> Some (False, v1)
         | Some (True, v1) \<Rightarrow> map_anon_from (pages - (mapped + ?c)) (va + of_nat (mapped + ?c) * PAGE_4K) sp v1)"
      using map_anon_from_add [of ?c "pages - (mapped + ?c)" "va + of_nat mapped * PAGE_4K" sp v] unfolding split [symmetric] at .
    have step: "anon_chunks sp va pages mapped v =
        (case map_anon_from ?c (va + of_nat mapped * PAGE_4K) sp v of
           None \<Rightarrow> None | Some (False, v1) \<Rightarrow> Some (mapped, v1)
         | Some (True, v1) \<Rightarrow> anon_chunks sp va pages (mapped + ?c) v1)"
      using True by (simp add: anon_chunks.simps [of sp va pages mapped] map_anon_at_def chunk_unat Let_def)
    show ?thesis
    proof (cases "map_anon_from ?c (va + of_nat mapped * PAGE_4K) sp v")
      case None
      then show ?thesis by (simp add: long step)
    next
      case (Some q)
      obtain ok v1 where q: "q = (ok, v1)" by (cases q)
      show ?thesis
      proof (cases ok)
        case False
        then show ?thesis using Some q True by (simp add: long step)
      next
        case True
        have h: "map_anon_at sp (va + of_nat mapped * PAGE_4K) (of_nat ?c) v = Some (True, v1)"
          using Some q True by (simp add: map_anon_at_def chunk_unat)
        have "case map_anon_from (pages - (mapped + ?c)) (va + of_nat (mapped + ?c) * PAGE_4K) sp v1 of
            None \<Rightarrow> anon_chunks sp va pages (mapped + ?c) v1 = None
          | Some (ok, v') \<Rightarrow> \<exists>m\<le>pages. anon_chunks sp va pages (mapped + ?c) v1 = Some (m, v') \<and> (m = pages \<longleftrightarrow> ok)"
          by (rule "1.IH" [OF \<open>mapped < pages\<close> refl refl h refl]) (use c \<open>mapped < pages\<close> in simp_all)
        moreover have "anon_chunks sp va pages mapped v = anon_chunks sp va pages (mapped + ?c) v1"
          using Some q True by (simp add: step)
        moreover have "map_anon_from (pages - mapped) (va + of_nat mapped * PAGE_4K) sp v
            = map_anon_from (pages - (mapped + ?c)) (va + of_nat (mapped + ?c) * PAGE_4K) sp v1"
          using Some q True by (simp add: long)
        ultimately show ?thesis by (simp only:)
      qed
    qed
  qed
qed

lemma unmap_chunks_eq:
  assumes "fin \<le> pages"
  shows "unmap_chunks sp va pages fin removed v =
     (let (r, v') = unmap_from (pages - fin) (va + of_nat fin * PAGE_4K) sp v in (removed + r, v'))"
  using assms
proof (induction sp va pages fin removed v rule: unmap_chunks.induct)
  case (1 sp va pages fin removed v)
  show ?case
  proof (cases "fin < pages")
    case False
    then show ?thesis using "1.prems" by (simp add: unmap_chunks.simps)
  next
    case True
    let ?c = "min CHUNK (pages - fin)"
    have c: "0 < ?c" "?c \<le> pages - fin" using True by (simp_all add: CHUNK_def)
    have split: "pages - fin = ?c + (pages - (fin + ?c))" using c by simp
    obtain n v1 where n: "unmap_from ?c (va + of_nat fin * PAGE_4K) sp v = (n, v1)" by fastforce
    then have u: "unmap sp (va + of_nat fin * PAGE_4K) (of_nat ?c) v = (n, v1)" by (simp add: unmap_def chunk_unat)
    have at: "va + of_nat fin * PAGE_4K + of_nat ?c * PAGE_4K = va + of_nat (fin + ?c) * PAGE_4K" by (simp add: algebra_simps)
    have "unmap_chunks sp va pages (fin + ?c) (removed + n) v1 =
        (let (r, v') = unmap_from (pages - (fin + ?c)) (va + of_nat (fin + ?c) * PAGE_4K) sp v1 in (removed + n + r, v'))"
      by (rule "1.IH" [OF True refl refl u [symmetric] refl]) (use c True in simp_all)
    moreover have "unmap_chunks sp va pages fin removed v = unmap_chunks sp va pages (fin + ?c) (removed + n) v1"
      using True u by (simp add: unmap_chunks.simps [of sp va pages fin] Let_def)
    moreover have "unmap_from (pages - fin) (va + of_nat fin * PAGE_4K) sp v =
        (let (r2, v2) = unmap_from (pages - (fin + ?c)) (va + of_nat (fin + ?c) * PAGE_4K) sp v1 in (n + r2, v2))"
      using unmap_from_add [of ?c "pages - (fin + ?c)" "va + of_nat fin * PAGE_4K" sp v]
      unfolding split [symmetric] at n Let_def by simp
    ultimately show ?thesis by (simp add: Let_def case_prod_beta)
  qed
qed


end
