(* ===== verification/Region.thy ===== *)
theory Region
  imports Prelude
begin

unbundle bit_operations_syntax

text \<open>
  \<^verbatim>\<open>crates/mm/src/region.rs\<close>: half-open physical ranges and the search for the largest part of a memory bank
  that no reserved range touches. Addresses are 64-bit words; \<open>Region::new\<close> saturates.
\<close>

section \<open>Regions\<close>

record region =
  start :: u64
  stop :: u64

definition region_new :: "u64 \<Rightarrow> u64 \<Rightarrow> region" where
  "region_new s len = \<lparr>start = s, stop = saturating_add s len\<rparr>"

definition from_bounds :: "u64 \<Rightarrow> u64 \<Rightarrow> region" where
  "from_bounds s e = \<lparr>start = s, stop = e\<rparr>"

definition region_len :: "region \<Rightarrow> u64" where
  "region_len r = saturating_sub (stop r) (start r)"

definition is_empty :: "region \<Rightarrow> bool" where
  "is_empty r \<longleftrightarrow> stop r \<le> start r"

definition overlaps :: "region \<Rightarrow> region \<Rightarrow> bool" where
  "overlaps r q \<longleftrightarrow> start r < stop q \<and> start q < stop r"

definition page_align_inward :: "u64 \<Rightarrow> region \<Rightarrow> region" where
  "page_align_inward pg r =
     (case checked_add (start r) (pg - 1) of
        None \<Rightarrow> \<lparr>start = 0, stop = 0\<rparr>
      | Some v \<Rightarrow>
          let s = v AND NOT (pg - 1); e = stop r AND NOT (pg - 1)
          in if e \<le> s then \<lparr>start = 0, stop = 0\<rparr> else \<lparr>start = s, stop = e\<rparr>)"

definition split_at :: "u64 \<Rightarrow> region \<Rightarrow> (region \<times> region) option" where
  "split_at len r =
     (if region_len r < len then None
      else let mid = start r + len in Some (\<lparr>start = start r, stop = mid\<rparr>, \<lparr>start = mid, stop = stop r\<rparr>))"

text \<open>The inner loop of \<^verbatim>\<open>largest_free\<close>: the exclusion, clipped to the cursor, that blocks it soonest.\<close>

definition clip :: "u64 \<Rightarrow> region \<Rightarrow> region" where
  "clip cursor ex = \<lparr>start = max (start ex) cursor, stop = max (stop ex) cursor\<rparr>"

fun blocker :: "u64 \<Rightarrow> region \<Rightarrow> region list \<Rightarrow> region option \<Rightarrow> region option" where
  "blocker cursor bank [] b = b"
| "blocker cursor bank (ex # exs) b =
     (if is_empty ex \<or> stop ex \<le> cursor \<or> start ex \<ge> stop bank then blocker cursor bank exs b
      else let c = clip cursor ex
           in blocker cursor bank exs (case b of None \<Rightarrow> Some c | Some w \<Rightarrow> if start c < start w then Some c else b))"

lemma blocker_from:
  "blocker cursor bank exs b = Some r \<Longrightarrow>
     b = Some r \<or> (\<exists>ex\<in>set exs. \<not> is_empty ex \<and> cursor < stop ex \<and> start ex < stop bank \<and> r = clip cursor ex)"
  by (induction exs arbitrary: b) (fastforce simp: Let_def not_le split: if_splits option.splits)+

lemma blocker_first:
  "blocker cursor bank exs b = r \<Longrightarrow>
     (\<forall>w. b = Some w \<longrightarrow> (\<exists>q. r = Some q \<and> start q \<le> start w))
     \<and> (\<forall>ex\<in>set exs. \<not> is_empty ex \<and> cursor < stop ex \<and> start ex < stop bank \<longrightarrow>
          (\<exists>q. r = Some q \<and> start q \<le> start (clip cursor ex)))"
proof (induction exs arbitrary: b)
  case (Cons ex exs)
  show ?case
  proof (cases "is_empty ex \<or> stop ex \<le> cursor \<or> start ex \<ge> stop bank")
    case True
    then show ?thesis using Cons by (auto simp: not_le)
  next
    case False
    define b' where "b' = (case b of None \<Rightarrow> Some (clip cursor ex)
        | Some w \<Rightarrow> if start (clip cursor ex) < start w then Some (clip cursor ex) else b)"
    have "blocker cursor bank exs b' = r" using Cons.prems False by (auto simp: b'_def Let_def)
    note IH = Cons.IH [OF this]
    obtain w' where w': "b' = Some w'" "start w' \<le> start (clip cursor ex)" "\<And>w. b = Some w \<Longrightarrow> start w' \<le> start w"
    proof (cases b)
      case None
      then show ?thesis using that [of "clip cursor ex"] by (simp add: b'_def)
    next
      case (Some w)
      then show ?thesis using that [of "clip cursor ex"] that [of w]
        by (cases "start (clip cursor ex) < start w") (auto simp: b'_def)
    qed
    obtain q where "r = Some q" "start q \<le> start w'" using IH w'(1) by blast
    then show ?thesis using IH w' by (auto intro: order_trans)
  qed
qed simp

function largest_from :: "region \<Rightarrow> region list \<Rightarrow> u64 \<Rightarrow> region option \<Rightarrow> region option" where
  "largest_from bank exs cursor best =
     (if cursor < stop bank
      then let (gap, next) = (case blocker cursor bank exs None of
                                None \<Rightarrow> (from_bounds cursor (stop bank), stop bank)
                              | Some b \<Rightarrow> (from_bounds cursor (start b), stop b));
               best' = (if \<not> is_empty gap \<and> (case best of None \<Rightarrow> True | Some w \<Rightarrow> region_len gap > region_len w) then Some gap else best)
           in largest_from bank exs next best'
      else best)"
  by pat_completeness auto
termination
proof (relation "measure (\<lambda>(bank, _, cursor, _). unat (stop bank) - unat cursor)", goal_cases)
  case (2 bank exs cursor best x gap nxt best')
  have "cursor < nxt"
  proof (cases "blocker cursor bank exs None")
    case None
    then show ?thesis using 2 by simp
  next
    case (Some b)
    then have "stop b > cursor" using blocker_from [of cursor bank exs None b] by (auto simp: clip_def less_max_iff_disj)
    then show ?thesis using 2 Some by simp
  qed
  then show ?case using 2(1) by (simp add: word_less_nat_alt)
qed simp

declare largest_from.simps [simp del]

definition largest_free :: "region \<Rightarrow> region list \<Rightarrow> region option" where
  "largest_free bank exs =
     (case largest_from bank exs (start bank) None of None \<Rightarrow> None | Some r \<Rightarrow> if is_empty r then None else Some r)"

section \<open>The largest free run\<close>

text \<open>Addresses no exclusion covers, and the free runs of a bank.\<close>

definition free_at :: "region list \<Rightarrow> u64 \<Rightarrow> bool" where
  "free_at exs x \<longleftrightarrow> (\<forall>ex\<in>set exs. \<not> (start ex \<le> x \<and> x < stop ex))"

definition free_run :: "region \<Rightarrow> region list \<Rightarrow> region \<Rightarrow> bool" where
  "free_run bank exs r \<longleftrightarrow> start r < stop r \<and> start bank \<le> start r \<and> stop r \<le> stop bank \<and> (\<forall>x. start r \<le> x \<and> x < stop r \<longrightarrow> free_at exs x)"

lemma unat_len: "unat (region_len r) = unat (stop r) - unat (start r)"
  by (simp add: region_len_def)

lemma len_le: "start q \<le> start r \<Longrightarrow> stop r \<le> stop q \<Longrightarrow> region_len r \<le> region_len q"
  by (auto simp: word_le_nat_alt unat_len)

definition swept :: "region \<Rightarrow> region list \<Rightarrow> u64 \<Rightarrow> region option \<Rightarrow> bool" where
  "swept bank exs c best \<longleftrightarrow>
     start bank \<le> c
     \<and> (\<forall>r. free_run bank exs r \<longrightarrow> stop r \<le> c \<or> c \<le> start r)
     \<and> (\<forall>w. best = Some w \<longrightarrow> free_run bank exs w)
     \<and> (\<forall>r. free_run bank exs r \<and> stop r \<le> c \<longrightarrow> (\<exists>w. best = Some w \<and> region_len r \<le> region_len w))"

lemma swept_step:
  assumes inv: "swept bank exs c best"
    and gap: "\<forall>x. c \<le> x \<and> x < e \<longrightarrow> free_at exs x" "e \<le> stop bank"
    and after: "e \<le> c'" "c < c'" "e < c' \<or> e = stop bank" "\<forall>x. e \<le> x \<and> x < c' \<longrightarrow> \<not> free_at exs x"
    and best': "best' = (if \<not> is_empty (from_bounds c e) \<and> (case best of None \<Rightarrow> True | Some w \<Rightarrow> region_len (from_bounds c e) > region_len w)
                         then Some (from_bounds c e) else best)"
  shows "swept bank exs c' best'"
proof -
  let ?g = "from_bounds c e"
  have side: "stop r \<le> e \<or> c' \<le> start r" if r: "free_run bank exs r" for r
  proof (rule ccontr)
    assume n: "\<not> (stop r \<le> e \<or> c' \<le> start r)"
    then have "e < c'" using r after(3) by (auto simp: free_run_def)
    moreover have "free_at exs (max e (start r))" using n r by (auto simp: free_run_def)
    ultimately show False using after(4) n by (auto simp: max_def split: if_splits)
  qed
  have run: "free_run bank exs ?g" if "\<not> is_empty ?g"
    using that inv gap by (auto simp: free_run_def from_bounds_def is_empty_def swept_def)
  have longest: "\<exists>w. best' = Some w \<and> region_len r \<le> region_len w" if r: "free_run bank exs r" "stop r \<le> c'" for r
  proof (cases "stop r \<le> c")
    case True
    then obtain w where "best = Some w" "region_len r \<le> region_len w" using inv r(1) by (auto simp: swept_def)
    then show ?thesis by (auto simp: best')
  next
    case False
    then have "c \<le> start r" using inv r(1) by (auto simp: swept_def)
    moreover have "stop r \<le> e" using side [OF r(1)] r by (auto simp: free_run_def)
    ultimately have l: "region_len r \<le> region_len ?g" "\<not> is_empty ?g"
      using r(1) by (auto simp: from_bounds_def is_empty_def free_run_def intro!: len_le)
    then show ?thesis by (auto simp: best' split: option.split)
  qed
  have "start bank \<le> c'" using inv after(2) by (auto simp: swept_def)
  moreover have "stop r \<le> c' \<or> c' \<le> start r" if "free_run bank exs r" for r using side [OF that] after(1) by auto
  moreover have "free_run bank exs w" if "best' = Some w" for w
    using that run inv by (auto simp: best' swept_def split: if_splits)
  ultimately show ?thesis using longest by (simp add: swept_def)
qed

lemma largest_from_swept:
  "swept bank exs c best \<Longrightarrow> \<exists>c' b. largest_from bank exs c best = b \<and> swept bank exs c' b \<and> stop bank \<le> c'"
proof (induction bank exs c best rule: largest_from.induct)
  case (1 bank exs c best)
  show ?case
  proof (cases "c < stop bank")
    case False
    then show ?thesis using "1.prems" by (auto simp: largest_from.simps [of bank exs c] not_less)
  next
    case True
    obtain e c' where ec: "(case blocker c bank exs None of None \<Rightarrow> (from_bounds c (stop bank), stop bank)
        | Some b \<Rightarrow> (from_bounds c (start b), stop b)) = (from_bounds c e, c')"
      by (cases "blocker c bank exs None") auto
    define best' where "best' = (if \<not> is_empty (from_bounds c e) \<and> (case best of None \<Rightarrow> True
        | Some w \<Rightarrow> region_len (from_bounds c e) > region_len w) then Some (from_bounds c e) else best)"
    have step: "largest_from bank exs c best = largest_from bank exs c' best'"
      using True by (simp add: largest_from.simps [of bank exs c] ec best'_def)
    have first: "\<exists>q. blocker c bank exs None = Some q \<and> start q \<le> max (start ex) c"
      if "ex \<in> set exs" "start ex \<le> x" "x < stop ex" "c \<le> x" "x < stop bank" for ex x
      using blocker_first [where cursor = c and bank = bank and exs = exs and b = None, OF refl] that
      by (fastforce simp: clip_def is_empty_def not_le intro: le_less_trans order_trans)
    have "swept bank exs c' best'"
    proof (cases "blocker c bank exs None")
      case None
      then have e: "e = stop bank" "c' = stop bank" using ec by (auto simp: from_bounds_def)
      have "free_at exs x" if "c \<le> x" "x < e" for x
        using first [of _ x] None that e by (fastforce simp: free_at_def)
      then show ?thesis by (intro swept_step [OF "1.prems" _ _ _ _ _ _ best'_def]) (use True e in auto)
    next
      case (Some b)
      then have e: "e = start b" "c' = stop b" using ec by (auto simp: from_bounds_def)
      obtain ex where ex: "ex \<in> set exs" "\<not> is_empty ex" "c < stop ex" "start ex < stop bank" "b = clip c ex"
        using blocker_from [OF Some] by auto
      have b: "start b = max (start ex) c" "stop b = stop ex" using ex by (auto simp: clip_def)
      have "free_at exs x" if "c \<le> x" "x < e" for x
        unfolding free_at_def
      proof (intro ballI notI)
        fix ex' assume ex': "ex' \<in> set exs" "start ex' \<le> x \<and> x < stop ex'"
        have "x < stop bank" using that(2) e(1) b(1) ex(4) True by (simp add: less_max_iff_disj) (meson less_trans)
        then have "start b \<le> max (start ex') c" using first [OF ex'(1) _ _ that(1)] ex'(2) Some by simp
        moreover have "max (start ex') c \<le> x" using ex'(2) that(1) by simp
        ultimately have "start b \<le> x" by (rule order_trans)
        then show False using that(2) e(1) by simp
      qed
      moreover have "\<not> free_at exs x" if "e \<le> x" "x < c'" for x using that e b ex(1) by (auto simp: free_at_def)
      moreover have "e < c'" "c < c'" "e \<le> stop bank" using e b ex True by (auto simp: is_empty_def not_le)
      ultimately show ?thesis by (intro swept_step [OF "1.prems" _ _ _ _ _ _ best'_def]) auto
    qed
    then show ?thesis using "1.IH" [OF True refl ec [symmetric] best'_def] step by simp
  qed
qed

text \<open>The search finds a longest free run. Its result lies in the bank, is not empty, shares no address with any
  exclusion, and no run of the bank clear of every exclusion is longer; it finds nothing only when every
  address of the bank is covered. The exclusions may overlap, be empty, inverted, unsorted or lie outside.\<close>

theorem largest_free_correct:
  "case largest_free bank exs of
     Some w \<Rightarrow> free_run bank exs w \<and> (\<forall>r. free_run bank exs r \<longrightarrow> region_len r \<le> region_len w)
              \<and> (\<forall>ex\<in>set exs. \<not> is_empty ex \<longrightarrow> \<not> overlaps w ex)
   | None \<Rightarrow> \<forall>x. start bank \<le> x \<and> x < stop bank \<longrightarrow> \<not> free_at exs x"
proof -
  have "swept bank exs (start bank) None" by (auto simp: swept_def free_run_def)
  then obtain c' b where b: "largest_from bank exs (start bank) None = b" "swept bank exs c' b" "stop bank \<le> c'"
    using largest_from_swept by blast
  have all: "\<exists>w. b = Some w \<and> region_len r \<le> region_len w" if "free_run bank exs r" for r
    using b(2,3) that by (auto simp: swept_def free_run_def)
  show ?thesis
  proof (cases b)
    case None
    have "\<not> free_at exs x" if x: "start bank \<le> x" "x < stop bank" for x
    proof
      assume f: "free_at exs x"
      have "unat x < unat (stop bank)" using x(2) by (simp add: word_less_nat_alt)
      moreover have "unat (stop bank) < 2 ^ 64" using unsigned_less [of "stop bank"] by simp
      ultimately have u: "unat (x + 1) = Suc (unat x)" using unat_plus_exact [of x 1] by simp
      have "free_at exs y" if "x \<le> y" "y < x + 1" for y
      proof -
        have "y = x" using that u by (simp add: word_unat_eq_iff word_le_nat_alt word_less_nat_alt)
        then show ?thesis using f by simp
      qed
      moreover have "x < x + 1" "x + 1 \<le> stop bank"
        using u \<open>unat x < unat (stop bank)\<close> by (simp_all add: word_le_nat_alt word_less_nat_alt)
      ultimately have "free_run bank exs \<lparr>start = x, stop = x + 1\<rparr>" using x by (auto simp: free_run_def)
      then show False using all None by blast
    qed
    then show ?thesis using None b by (simp add: largest_free_def)
  next
    case (Some w)
    have w: "free_run bank exs w" using b(2) Some by (simp add: swept_def)
    have ne: "\<not> is_empty w" using w by (simp add: free_run_def is_empty_def not_le)
    have "\<not> overlaps w ex" if ex: "ex \<in> set exs" "\<not> is_empty ex" for ex
    proof
      assume o: "overlaps w ex"
      let ?x = "max (start w) (start ex)"
      have "free_at exs ?x" using w o ex(2) by (auto simp: free_run_def overlaps_def is_empty_def not_le)
      moreover have "\<not> free_at exs ?x" using o ex by (auto simp: free_at_def overlaps_def is_empty_def not_le)
      ultimately show False by blast
    qed
    then show ?thesis using Some b w ne all by (auto simp: largest_free_def)
  qed
qed

section \<open>Shrinking to pages\<close>

theorem largest_free_correct_witness:
  "largest_free (from_bounds 0x1000 0x5000) [from_bounds 0x1000 0x2000] = Some (from_bounds 0x2000 0x5000)
   \<and> free_run (from_bounds 0x1000 0x5000) [from_bounds 0x1000 0x2000] (from_bounds 0x2000 0x5000)"
proof -
  have "largest_free (from_bounds 0x1000 0x5000) [from_bounds 0x1000 0x2000] = Some (from_bounds 0x2000 0x5000)"
    by (simp add: largest_free_def largest_from.simps from_bounds_def is_empty_def clip_def region_len_def Let_def)
  then show ?thesis using largest_free_correct [of "from_bounds 0x1000 0x5000" "[from_bounds 0x1000 0x2000]"] by simp
qed

text \<open>A page size is a power of two.\<close>

lemma align_down:
  fixes x :: u64
  assumes "k < 64"
  shows "unat (x AND NOT (2 ^ k - 1)) = unat x - unat x mod 2 ^ k"
proof -
  have "x AND NOT (2 ^ k - 1) = push_bit k (drop_bit k x)"
    by (simp only: mask_eq_exp_minus_1 [symmetric]) (rule bit_eqI, auto simp: bit_simps)
  moreover have "unat (push_bit k (drop_bit k x)) = take_bit 64 (push_bit k (drop_bit k (unat x)))"
    by (simp only: unsigned_push_bit_eq unsigned_drop_bit_eq) (simp add: take_bit_nat_eq_self unsigned_less [of x, simplified])
  moreover have "push_bit k (drop_bit k (unat x)) = unat x - unat x mod 2 ^ k"
    by (simp add: push_bit_eq_mult drop_bit_eq_div minus_mod_eq_div_mult)
  moreover have "unat x < 2 ^ 64" using unsigned_less [of x] by simp
  ultimately show ?thesis by (simp add: take_bit_nat_eq_self)
qed

text \<open>Shrinking a range to whole pages never hands out a byte that was not offered: what is left lies inside the
  range, begins and ends on page boundaries, and contains every whole page of it; and a start so high that
  rounding it up would wrap gives an empty range.\<close>

theorem page_align_inward_correct:
  assumes "k < 64" "\<not> is_empty (page_align_inward (2 ^ k) r)"
  shows "start r \<le> start (page_align_inward (2 ^ k) r) \<and> stop (page_align_inward (2 ^ k) r) \<le> stop r
     \<and> 2 ^ k dvd unat (start (page_align_inward (2 ^ k) r)) \<and> 2 ^ k dvd unat (stop (page_align_inward (2 ^ k) r))
     \<and> (\<forall>p. unat (start r) \<le> p * 2 ^ k \<and> (p + 1) * 2 ^ k \<le> unat (stop r) \<longrightarrow>
          unat (start (page_align_inward (2 ^ k) r)) \<le> p * 2 ^ k \<and> (p + 1) * 2 ^ k \<le> unat (stop (page_align_inward (2 ^ k) r)))"
proof -
  let ?m = "2 ^ k - 1 :: u64" let ?K = "2 ^ k :: nat"
  have "?m = take_bit k (- 1)" by (simp add: mask_eq_exp_minus_1)
  then have "unat ?m = take_bit k (mask 64)" by (simp only: unsigned_take_bit_eq unsigned_minus_1_eq_mask) simp
  also have "\<dots> = mask k" unfolding take_bit_of_mask using assms(1) by simp
  finally have m: "unat ?m = ?K - 1" by (simp add: mask_eq_exp_minus_1)
  have K: "0 < ?K" by simp
  show ?thesis
  proof (cases "checked_add (start r) ?m")
    case None
    then show ?thesis using assms(2) by (simp add: page_align_inward_def is_empty_def)
  next
    case (Some v)
    have v: "unat v = unat (start r) + (?K - 1)" using checked_add_Some [OF Some] m by simp
    define s where "s = v AND NOT ?m"
    define e where "e = stop r AND NOT ?m"
    have us: "unat s = unat v - unat v mod ?K" and ue: "unat e = unat (stop r) - unat (stop r) mod ?K"
      unfolding s_def e_def using align_down [OF assms(1)] by simp_all
    have p: "page_align_inward (2 ^ k) r = \<lparr>start = s, stop = e\<rparr>"
      using assms(2) Some by (auto simp: page_align_inward_def s_def e_def Let_def is_empty_def split: if_splits)
    have low: "unat (start r) \<le> unat s"
    proof -
      have "unat v mod ?K < ?K" using K by simp
      then show ?thesis using us v by linarith
    qed
    have up: "unat s \<le> q * ?K" if "unat (start r) \<le> q * ?K" for q
    proof -
      have "unat v < unat (start r) + ?K" using v K by linarith
      also have "\<dots> \<le> (q + 1) * ?K" using that by simp
      finally have "unat v < (q + 1) * ?K" .
      then have "unat v div ?K \<le> q" by (simp add: less_mult_imp_div_less less_Suc_eq_le [symmetric])
      then have "unat v div ?K * ?K \<le> q * ?K" by simp
      then show ?thesis using us by (simp add: minus_mod_eq_div_mult)
    qed
    have down: "q * ?K \<le> unat e" if "q * ?K \<le> unat (stop r)" for q
    proof -
      have "q \<le> unat (stop r) div ?K" using that K by (simp add: less_eq_div_iff_mult_less_eq)
      then have "q * ?K \<le> unat (stop r) div ?K * ?K" by simp
      then show ?thesis using ue by (simp add: minus_mod_eq_div_mult)
    qed
    have "?K dvd unat s" "?K dvd unat e" using us ue by (simp_all add: minus_mod_eq_div_mult)
    moreover have "unat e \<le> unat (stop r)" using ue by simp
    moreover have "(q + 1) * ?K \<le> unat e" if "(q + 1) * ?K \<le> unat (stop r)" for q using down [OF that] .
    ultimately show ?thesis unfolding p using low up by (auto simp: word_le_nat_alt simp del: add_mult_distrib)
  qed
qed

theorem page_align_inward_correct_witness:
  "page_align_inward (2 ^ 12) (from_bounds 0x1001 0x3FFF) = from_bounds 0x2000 0x3000
   \<and> start (from_bounds 0x1001 0x3FFF) \<le> start (page_align_inward (2 ^ 12) (from_bounds 0x1001 0x3FFF))"
proof -
  have "page_align_inward (2 ^ 12) (from_bounds 0x1001 0x3FFF) = from_bounds 0x2000 0x3000"
    by (simp add: page_align_inward_def from_bounds_def checked_add_def Let_def)
  moreover have "\<not> is_empty (from_bounds 0x2000 0x3000)" by (simp add: is_empty_def from_bounds_def)
  ultimately show ?thesis using page_align_inward_correct [of 12 "from_bounds 0x1001 0x3FFF"] by (simp only:) simp
qed

text \<open>Splitting gives two adjoining ranges that make up the original, the first of exactly the length asked for, or
  nothing when the range is shorter; the mid address never wraps.\<close>

theorem split_at_correct:
  "case split_at len r of
     None \<Rightarrow> unat (stop r) - unat (start r) < unat len
   | Some (a, b) \<Rightarrow> start a = start r \<and> stop a = start b \<and> stop b = stop r
       \<and> unat (stop a) = unat (start r) + unat len"
proof (cases "region_len r < len")
  case True
  then show ?thesis by (simp add: split_at_def word_less_nat_alt unat_len)
next
  case False
  then have l: "unat len \<le> unat (stop r) - unat (start r)" by (simp add: not_less word_le_nat_alt unat_len)
  have "unat (start r + len) = unat (start r) + unat len"
  proof (cases "len = 0")
    case False
    then have "unat (start r) + unat len \<le> unat (stop r)" using l by (simp add: unat_eq_0 [symmetric] del: unat_eq_0)
    moreover have "unat (stop r) < 2 ^ 64" using unsigned_less [of "stop r"] by simp
    ultimately show ?thesis by (intro unat_plus_exact) simp
  qed simp
  then show ?thesis using False by (simp add: split_at_def Let_def)
qed

end
