(* ===== verification/KernelHeap.thy ===== *)
theory KernelHeap
  imports Prelude
begin

text \<open>
  \<^verbatim>\<open>crates/mm/src/heap.rs\<close>: the kernel's first-fit free-list heap. The header a free block keeps in its own first
  bytes is the entry of \<open>holes\<close> at the block's address; the list links are addresses. Following a link is a
  loop that could in principle not end, so \<^verbatim>\<open>alloc\<close> and \<^verbatim>\<open>dealloc\<close> are partial functions (\<open>None\<close> is not
  returning) and that they return is part of what is proved. Addresses and sizes are naturals: the heap
  lies far enough below the top of the address range for the rounding up not to wrap. An alignment is a
  power of two, so \<^verbatim>\<open>& !(align - 1)\<close> is rounding down to a multiple.
\<close>

section \<open>State\<close>

record hole =
  hole_size :: nat
  hole_next :: "nat option"

definition MIN_BLOCK :: nat where "MIN_BLOCK = 16"

record layout =
  lay_size :: nat
  lay_align :: nat

record heap =
  head :: "nat option"
  total :: nat
  used :: nat
  peak :: nat
  alloc_steps :: nat
  dealloc_steps :: nat
  calls :: nat
  refused :: nat
  holes :: "nat \<Rightarrow> hole"

definition align_up :: "nat \<Rightarrow> nat \<Rightarrow> nat" where
  "align_up v align = (v + align - 1) div align * align"

definition block_size :: "layout \<Rightarrow> nat" where
  "block_size l = align_up (max (lay_size l) MIN_BLOCK) MIN_BLOCK"

definition heap_new :: "(nat \<Rightarrow> hole) \<Rightarrow> heap" where
  "heap_new m = \<lparr>head = None, total = 0, used = 0, peak = 0, alloc_steps = 0, dealloc_steps = 0, calls = 0, refused = 0, holes = m\<rparr>"

definition heap_init :: "nat \<Rightarrow> nat \<Rightarrow> heap \<Rightarrow> heap" where
  "heap_init start sz st = st\<lparr>holes := (holes st)(start := \<lparr>hole_size = sz, hole_next = None\<rparr>), head := Some start, total := sz\<rparr>"

record heap_stats =
  st_used :: nat
  st_peak :: nat
  st_total :: nat
  st_refused :: nat
  st_alloc_steps :: nat
  st_dealloc_steps :: nat
  st_calls :: nat

definition stats :: "heap \<Rightarrow> heap_stats" where
  "stats st = \<lparr>st_used = used st, st_peak = peak st, st_total = total st, st_refused = refused st,
     st_alloc_steps = alloc_steps st, st_dealloc_steps = dealloc_steps st, st_calls = calls st\<rparr>"

section \<open>Allocation\<close>

definition set_next :: "nat option \<Rightarrow> nat option \<Rightarrow> heap \<Rightarrow> heap" where
  "set_next prev r st =
     (case prev of
        Some p \<Rightarrow> st\<lparr>holes := (holes st)(p := (holes st p)\<lparr>hole_next := r\<rparr>)\<rparr>
      | None \<Rightarrow> st\<lparr>head := r\<rparr>)"

text \<open>Carving a block of \<open>sz\<close> bytes at \<open>p\<close> out of the hole at \<open>a\<close>.\<close>

definition carve :: "nat option \<Rightarrow> nat \<Rightarrow> nat \<Rightarrow> nat \<Rightarrow> heap \<Rightarrow> heap" where
  "carve prev a p sz st =
     (let h = holes st a; front_pad = p - a; tail_addr = p + sz; tail_size = a + hole_size h - tail_addr;
          (r1, st1) = (if tail_size > 0
                       then (Some tail_addr, st\<lparr>holes := (holes st)(tail_addr := \<lparr>hole_size = tail_size, hole_next = hole_next h\<rparr>)\<rparr>)
                       else (hole_next h, st));
          (r2, st2) = (if front_pad > 0
                       then (Some a, st1\<lparr>holes := (holes st1)(a := \<lparr>hole_size = front_pad, hole_next = r1\<rparr>)\<rparr>)
                       else (r1, st1));
          st3 = set_next prev r2 st2
      in st3\<lparr>used := used st3 + sz, peak := max (peak st3) (used st3 + sz)\<rparr>)"

partial_function (option) alloc_from :: "nat \<Rightarrow> nat \<Rightarrow> nat option \<Rightarrow> nat option \<Rightarrow> heap \<Rightarrow> (nat option \<times> heap) option" where
  "alloc_from sz align prev cur st =
     (case cur of
        None \<Rightarrow> Some (None, st\<lparr>refused := refused st + 1\<rparr>)
      | Some a \<Rightarrow>
          let st = st\<lparr>alloc_steps := alloc_steps st + 1\<rparr>; h = holes st a; p = align_up a align
          in if p - a + sz \<le> hole_size h then Some (Some p, carve prev a p sz st)
             else alloc_from sz align cur (hole_next h) st)"

definition heap_alloc :: "layout \<Rightarrow> heap \<Rightarrow> (nat option \<times> heap) option" where
  "heap_alloc l st = alloc_from (block_size l) (max (lay_align l) MIN_BLOCK) None (head st) (st\<lparr>calls := calls st + 1\<rparr>)"

section \<open>Release\<close>

definition coalesce :: "nat \<Rightarrow> heap \<Rightarrow> heap" where
  "coalesce a st =
     (case hole_next (holes st a) of
        None \<Rightarrow> st
      | Some n \<Rightarrow>
          if a + hole_size (holes st a) = n
          then st\<lparr>holes := (holes st)(a := \<lparr>hole_size = hole_size (holes st a) + hole_size (holes st n), hole_next = hole_next (holes st n)\<rparr>)\<rparr>
          else st)"

partial_function (option) place_from :: "nat \<Rightarrow> nat option \<Rightarrow> nat option \<Rightarrow> heap \<Rightarrow> ((nat option \<times> nat option) \<times> heap) option" where
  "place_from addr prev cur st =
     (case cur of
        None \<Rightarrow> Some ((prev, None), st)
      | Some a \<Rightarrow>
          let st = st\<lparr>dealloc_steps := dealloc_steps st + 1\<rparr>
          in if a > addr then Some ((prev, cur), st) else place_from addr cur (hole_next (holes st a)) st)"

definition heap_dealloc :: "nat \<Rightarrow> layout \<Rightarrow> heap \<Rightarrow> heap option" where
  "heap_dealloc addr l st =
     (let sz = block_size l; st = st\<lparr>used := used st - sz, calls := calls st + 1\<rparr>
      in case place_from addr None (head st) st of
           None \<Rightarrow> None
         | Some ((prev, cur), st) \<Rightarrow>
             let st = st\<lparr>holes := (holes st)(addr := \<lparr>hole_size = sz, hole_next = cur\<rparr>)\<rparr>;
                 st = set_next prev (Some addr) st;
                 st = coalesce addr st
             in Some (case prev of Some p \<Rightarrow> coalesce p st | None \<Rightarrow> st))"

section \<open>The free list as a list\<close>

text \<open>\<open>lseg m cur hs nxt\<close>: from \<open>cur\<close>, the links of \<open>m\<close> lead through the holes \<open>hs\<close> (address and size) to \<open>nxt\<close>.\<close>

fun lseg :: "(nat \<Rightarrow> hole) \<Rightarrow> nat option \<Rightarrow> (nat \<times> nat) list \<Rightarrow> nat option \<Rightarrow> bool" where
  "lseg m cur [] nxt \<longleftrightarrow> cur = nxt"
| "lseg m cur ((a, s) # hs) nxt \<longleftrightarrow> cur = Some a \<and> hole_size (m a) = s \<and> lseg m (hole_next (m a)) hs nxt"

lemma lseg_append: "lseg m cur (xs @ ys) nxt \<longleftrightarrow> (\<exists>mid. lseg m cur xs mid \<and> lseg m mid ys nxt)"
  by (induction xs arbitrary: cur) auto

lemma lseg_cong: "(\<And>a. a \<in> fst ` set xs \<Longrightarrow> m' a = m a) \<Longrightarrow> lseg m' cur xs nxt = lseg m cur xs nxt"
  by (induction xs arbitrary: cur) auto

definition last_addr :: "(nat \<times> nat) list \<Rightarrow> nat option" where
  "last_addr xs = (if xs = [] then None else Some (fst (last xs)))"

lemma set_next_link:
  assumes "lseg (holes st) (head st) pre mid" "distinct (map fst pre)"
  shows "lseg (holes (set_next (last_addr pre) r st)) (head (set_next (last_addr pre) r st)) pre r"
proof (cases pre rule: rev_cases)
  case Nil
  then show ?thesis by (simp add: last_addr_def set_next_def)
next
  case (snoc xs x)
  obtain p s where x: "x = (p, s)" by (cases x)
  have pre: "pre = xs @ [(p, s)]" by (simp add: snoc x)
  have l: "last_addr (xs @ [(p, s)]) = Some p" by (simp add: last_addr_def)
  have "lseg (holes st) (head st) xs (Some p)" "hole_size (holes st p) = s"
    using assms(1) by (auto simp: snoc x lseg_append)
  moreover have "lseg ((holes st)(p := h)) (head st) xs (Some p) = lseg (holes st) (head st) xs (Some p)" for h
    using assms(2) by (intro lseg_cong) (auto simp: snoc x)
  ultimately show ?thesis unfolding pre l by (simp add: set_next_def lseg_append)
qed

lemma set_next_other: "x \<noteq> prev \<Longrightarrow> (case x of Some p \<Rightarrow> holes (set_next prev r st) p = holes st p | None \<Rightarrow> head (set_next prev r st) = head st)"
  by (auto simp: set_next_def split: option.split)

section \<open>Well-formed free lists\<close>

definition spaced :: "(nat \<times> nat) list \<Rightarrow> bool" where
  "spaced hs \<longleftrightarrow> sorted_wrt (\<lambda>x y. fst x + snd x < fst y) hs \<and> (\<forall>x\<in>set hs. 0 < snd x \<and> MIN_BLOCK dvd fst x \<and> MIN_BLOCK dvd snd x)"

definition cells :: "(nat \<times> nat) list \<Rightarrow> nat set" where
  "cells hs = (\<Union>x\<in>set hs. {fst x..<fst x + snd x})"

definition block :: "nat \<Rightarrow> nat \<Rightarrow> nat set" where
  "block p n = {p..<p + n}"

definition heap_ok :: "nat \<Rightarrow> heap \<Rightarrow> (nat \<times> nat) list \<Rightarrow> bool" where
  "heap_ok lo st hs \<longleftrightarrow>
     lseg (holes st) (head st) hs None \<and> spaced hs \<and> cells hs \<subseteq> {lo..<lo + total st}
     \<and> used st + sum_list (map snd hs) = total st \<and> used st \<le> peak st \<and> peak st \<le> total st"

lemma cells_simps [simp]: "cells [] = {}" "cells (x # hs) = {fst x..<fst x + snd x} \<union> cells hs" "cells (xs @ ys) = cells xs \<union> cells ys"
  by (auto simp: cells_def)

lemma spaced_Cons: "spaced (x # hs) \<longleftrightarrow> (\<forall>y\<in>set hs. fst x + snd x < fst y) \<and> 0 < snd x \<and> MIN_BLOCK dvd fst x \<and> MIN_BLOCK dvd snd x \<and> spaced hs"
  by (auto simp: spaced_def)

lemma spaced_append:
  "spaced (xs @ ys) \<longleftrightarrow> spaced xs \<and> spaced ys \<and> (\<forall>x\<in>set xs. \<forall>y\<in>set ys. fst x + snd x < fst y)"
  by (auto simp: spaced_def sorted_wrt_append)

lemma spaced_distinct: "spaced hs \<Longrightarrow> distinct (map fst hs)"
  by (induction hs) (fastforce simp: spaced_Cons spaced_def)+

lemma cells_above: "spaced (x # hs) \<Longrightarrow> c \<in> cells hs \<Longrightarrow> fst x + snd x < c"
  by (auto simp: spaced_Cons cells_def)

lemma cells_tail:
  assumes "spaced (x # us)"
  shows "cells us = cells (x # us) - {0..<fst x + snd x}"
proof
  show "cells us \<subseteq> cells (x # us) - {0..<fst x + snd x}" using cells_above [OF assms] by fastforce
qed auto

lemma card_cells: "spaced hs \<Longrightarrow> card (cells hs) = sum_list (map snd hs) \<and> finite (cells hs)"
proof (induction hs)
  case (Cons x hs)
  then have s: "spaced hs" by (simp add: spaced_Cons)
  have "{fst x..<fst x + snd x} \<inter> cells hs = {}" using cells_above [OF Cons.prems] by fastforce
  then show ?case using Cons.IH [OF s] by (simp add: card_Un_disjoint)
qed simp

text \<open>A contiguous run of free bytes lies in one hole.\<close>

lemma in_one_hole:
  assumes "spaced hs" "0 < n" "block p n \<subseteq> cells hs"
  shows "\<exists>x\<in>set hs. fst x \<le> p \<and> p + n \<le> fst x + snd x"
  using assms
proof (induction hs)
  case Nil
  then show ?case by (auto simp: block_def)
next
  case (Cons x hs)
  show ?case
  proof (cases "p < fst x + snd x")
    case True
    have "p \<in> block p n" using Cons.prems(2) by (simp add: block_def)
    then have "p \<in> {fst x..<fst x + snd x} \<union> cells hs" using Cons.prems(3) by (metis cells_simps(2) subsetD)
    then have p: "fst x \<le> p" using True cells_above [OF Cons.prems(1), of p] by auto
    have "p + n \<le> fst x + snd x"
    proof (rule ccontr)
      assume "\<not> p + n \<le> fst x + snd x"
      then have "fst x + snd x \<in> block p n" using True by (auto simp: block_def)
      then have "fst x + snd x \<in> {fst x..<fst x + snd x} \<union> cells hs" using Cons.prems(3) by (metis cells_simps(2) subsetD)
      then show False using cells_above [OF Cons.prems(1), of "fst x + snd x"] by auto
    qed
    then show ?thesis using p by auto
  next
    case False
    then have "block p n \<subseteq> cells hs" using Cons.prems(3) unfolding block_def cells_simps by fastforce
    then show ?thesis using Cons.IH Cons.prems(1,2) by (auto simp: spaced_Cons)
  qed
qed

lemma cells_first:
  assumes "spaced (u # us)" "spaced (v # vs)" "cells (u # us) = cells (v # vs)"
  shows "fst v \<le> fst u"
proof -
  have "fst u \<in> cells (u # us)" using assms(1) by (simp add: spaced_Cons)
  then have "fst u \<in> {fst v..<fst v + snd v} \<union> cells vs" using assms(3) by (metis cells_simps(2))
  then show ?thesis using cells_above [OF assms(2), of "fst u"] by auto
qed

lemma cells_first_size:
  assumes "spaced (u # us)" "spaced (v # vs)" "cells (u # us) = cells (v # vs)" "fst u = fst v"
  shows "snd v \<le> snd u"
proof (rule ccontr)
  assume "\<not> snd v \<le> snd u"
  then have "fst u + snd u \<in> cells (v # vs)" using assms(4) by simp
  then have "fst u + snd u \<in> {fst u..<fst u + snd u} \<union> cells us" using assms(3) by (metis cells_simps(2))
  then show False using cells_above [OF assms(1), of "fst u + snd u"] by auto
qed

text \<open>The list is determined by the bytes it covers.\<close>

lemma spaced_unique: "spaced hs \<Longrightarrow> spaced hs' \<Longrightarrow> cells hs = cells hs' \<Longrightarrow> hs = hs'"
proof (induction hs arbitrary: hs')
  case Nil
  then show ?case by (cases hs') (auto simp: spaced_Cons)
next
  case (Cons x hs)
  obtain y ys where hs': "hs' = y # ys" using Cons.prems by (cases hs') (auto simp: spaced_Cons)
  have s: "spaced (x # hs)" "spaced (y # ys)" and e: "cells (x # hs) = cells (y # ys)" using Cons.prems hs' by simp_all
  have "fst x = fst y" by (rule antisym [OF cells_first [OF s(2,1) e [symmetric]] cells_first [OF s e]])
  moreover have "snd x = snd y" using calculation
    by (intro antisym cells_first_size [OF s e] cells_first_size [OF s(2,1) e [symmetric]]) simp_all
  ultimately have xy: "x = y" by (simp add: prod_eq_iff)
  have "cells hs = cells (x # hs) - {0..<fst x + snd x}" by (rule cells_tail [OF Cons.prems(1)])
  also have "\<dots> = cells (x # ys) - {0..<fst x + snd x}" using Cons.prems(3) hs' xy by simp
  also have "\<dots> = cells ys" using cells_tail [of x ys] Cons.prems(2) hs' xy by simp
  finally have "cells hs = cells ys" .
  moreover have "spaced hs" "spaced ys" using Cons.prems(1,2) hs' by (simp_all add: spaced_Cons)
  ultimately have "hs = ys" by (intro Cons.IH)
  then show ?case using hs' xy by simp
qed

end
