(* ===== verification/HeapProps.thy ===== *)
theory HeapProps
  imports KernelHeap
begin

text \<open>
  What the kernel heap promises: an allocation is the lowest aligned run of free bytes that is long enough, a
  release gives exactly the block's bytes back, and both return with the free list ordered, coalesced and
  accounted for.
\<close>

section \<open>Alignment\<close>

lemma align_up_spec:
  assumes "0 < align"
  shows "v \<le> align_up v align" "align dvd align_up v align" "align dvd q \<Longrightarrow> v \<le> q \<Longrightarrow> align_up v align \<le> q"
proof -
  have "(v + align - 1) mod align < align" using assms by simp
  moreover have "(v + align - 1) div align * align = v + align - 1 - (v + align - 1) mod align"
    by (simp add: minus_mod_eq_div_mult)
  ultimately show "v \<le> align_up v align" unfolding align_up_def by linarith
  show "align dvd align_up v align" by (simp add: align_up_def)
next
  assume "align dvd q" "v \<le> q"
  then obtain c where q: "q = c * align" by (metis dvdE mult.commute)
  have "v + align - 1 < (c + 1) * align" using \<open>v \<le> q\<close> q assms by simp
  then have "(v + align - 1) div align \<le> c" by (simp add: less_mult_imp_div_less less_Suc_eq_le [symmetric])
  then show "align_up v align \<le> q" unfolding align_up_def q by (rule mult_le_mono1)
qed

lemma block_size_props: "0 < block_size l" "MIN_BLOCK dvd block_size l" "lay_size l \<le> block_size l"
proof -
  have "max (lay_size l) MIN_BLOCK \<le> block_size l" unfolding block_size_def by (rule align_up_spec) (simp add: MIN_BLOCK_def)
  then show "0 < block_size l" "lay_size l \<le> block_size l" by (simp_all add: MIN_BLOCK_def)
  show "MIN_BLOCK dvd block_size l" unfolding block_size_def by (rule align_up_spec) (simp add: MIN_BLOCK_def)
qed

lemma pow2_align: "MIN_BLOCK dvd max (2 ^ k) MIN_BLOCK" "2 ^ k dvd max (2 ^ k) MIN_BLOCK" "0 < max (2 ^ k) MIN_BLOCK"
proof -
  have sixteen: "(16::nat) = 2 ^ 4" by simp
  have "mono ((^) (2::nat))" by (simp add: mono_def power_increasing)
  then have m: "max (2 ^ k) MIN_BLOCK = 2 ^ max k 4" unfolding MIN_BLOCK_def sixteen by (rule max_of_mono)
  have "(2::nat) ^ 4 dvd 2 ^ max k 4" by (rule le_imp_power_dvd) simp
  with m show "MIN_BLOCK dvd max (2 ^ k) MIN_BLOCK" "2 ^ k dvd max (2 ^ k) MIN_BLOCK" "0 < max (2 ^ k) MIN_BLOCK"
    by (simp_all add: MIN_BLOCK_def le_imp_power_dvd)
qed

section \<open>The search for a hole\<close>

definition fits :: "nat \<Rightarrow> nat \<Rightarrow> nat \<times> nat \<Rightarrow> bool" where
  "fits sz align x \<longleftrightarrow> align_up (fst x) align - fst x + sz \<le> snd x"

lemma last_addr_snoc [simp]: "last_addr (xs @ [x]) = Some (fst x)" "last_addr [] = None"
  by (simp_all add: last_addr_def)

lemma alloc_from_none:
  assumes "lseg (holes st) cur rest None" "\<forall>x\<in>set rest. \<not> fits sz align x"
  shows "alloc_from sz align prev cur st
     = Some (None, st\<lparr>alloc_steps := alloc_steps st + length rest, refused := refused st + 1\<rparr>)"
  using assms
proof (induction rest arbitrary: prev cur st)
  case Nil
  then show ?case by (simp add: alloc_from.simps [of sz align prev None])
next
  case (Cons x rest)
  obtain a s where x: "x = (a, s)" by (cases x)
  have "\<not> align_up a align - a + sz \<le> hole_size (holes st a)" using Cons.prems by (simp add: x fits_def)
  moreover have "alloc_from sz align cur (hole_next (holes st a)) (st\<lparr>alloc_steps := alloc_steps st + 1\<rparr>)
     = Some (None, st\<lparr>alloc_steps := alloc_steps st + 1 + length rest, refused := refused st + 1\<rparr>)"
    by (subst Cons.IH) (use Cons.prems in \<open>simp_all add: x\<close>)
  ultimately show ?case using Cons.prems by (subst alloc_from.simps) (simp add: x Let_def)
qed

lemma alloc_from_some:
  assumes "lseg (holes st) cur (xs @ (a, s) # ys) None" "\<forall>x\<in>set xs. \<not> fits sz align x" "fits sz align (a, s)"
    "prev = last_addr pre"
  shows "alloc_from sz align prev cur st
     = Some (Some (align_up a align),
         carve (last_addr (pre @ xs)) a (align_up a align) sz (st\<lparr>alloc_steps := alloc_steps st + length xs + 1\<rparr>))"
  using assms
proof (induction xs arbitrary: prev cur st pre)
  case Nil
  then show ?case by (subst alloc_from.simps) (simp add: Let_def fits_def)
next
  case (Cons x xs)
  obtain b t where x: "x = (b, t)" by (cases x)
  have "\<not> align_up b align - b + sz \<le> hole_size (holes st b)" using Cons.prems by (simp add: x fits_def)
  moreover have "alloc_from sz align cur (hole_next (holes st b)) (st\<lparr>alloc_steps := alloc_steps st + 1\<rparr>)
     = Some (Some (align_up a align), carve (last_addr ((pre @ [x]) @ xs)) a (align_up a align) sz
         (st\<lparr>alloc_steps := alloc_steps st + 1 + length xs + 1\<rparr>))"
    by (subst Cons.IH [where pre = "pre @ [x]"]) (use Cons.prems in \<open>simp_all add: x\<close>)
  ultimately show ?case using Cons.prems by (subst alloc_from.simps) (simp add: x Let_def)
qed

section \<open>Splicing\<close>

lemma set_next_splice:
  assumes "lseg (holes st) (head st) pre mid" "lseg (holes st) r post None" "distinct (map fst (pre @ post))"
  shows "lseg (holes (set_next (last_addr pre) r st)) (head (set_next (last_addr pre) r st)) (pre @ post) None"
proof -
  have "lseg (holes (set_next (last_addr pre) r st)) r post None = lseg (holes st) r post None"
    using assms(3) by (intro lseg_cong) (cases pre rule: rev_cases; force simp: set_next_def)
  moreover have "lseg (holes (set_next (last_addr pre) r st)) (head (set_next (last_addr pre) r st)) pre r"
    using assms by (intro set_next_link) auto
  ultimately show ?thesis using assms(2) by (auto simp: lseg_append)
qed

lemma set_next_fields [simp]:
  "total (set_next prev r st) = total st" "used (set_next prev r st) = used st" "peak (set_next prev r st) = peak st"
  "refused (set_next prev r st) = refused st"
  by (auto simp: set_next_def split: option.splits)

text \<open>What is left of the hole \<open>(a, s)\<close> when \<open>sz\<close> bytes at \<open>p\<close> are taken.\<close>

definition pieces :: "nat \<Rightarrow> nat \<Rightarrow> nat \<Rightarrow> nat \<Rightarrow> (nat \<times> nat) list" where
  "pieces a s p sz = (if a < p then [(a, p - a)] else []) @ (if p + sz < a + s then [(p + sz, a + s - (p + sz))] else [])"

lemma pieces_cells:
  "a \<le> p \<Longrightarrow> p + sz \<le> a + s \<Longrightarrow> cells (pieces a s p sz) = {a..<a + s} - block p sz \<and> sum_list (map snd (pieces a s p sz)) + sz = s"
  by (auto simp: pieces_def block_def)

lemma pieces_spaced:
  "\<lbrakk>a \<le> p; p + sz \<le> a + s; 0 < sz; MIN_BLOCK dvd a; MIN_BLOCK dvd s; MIN_BLOCK dvd p; MIN_BLOCK dvd sz\<rbrakk> \<Longrightarrow>
   spaced (pieces a s p sz) \<and> (\<forall>x\<in>set (pieces a s p sz). a \<le> fst x \<and> fst x + snd x \<le> a + s)"
  by (auto simp: pieces_def spaced_def dvd_diff_nat)

lemma carve_ok:
  assumes ok: "heap_ok lo st (pre @ (a, s) # ys)"
    and fit: "a \<le> p" "p + sz \<le> a + s" "0 < sz" "MIN_BLOCK dvd p" "MIN_BLOCK dvd sz"
  shows "heap_ok lo (carve (last_addr pre) a p sz st) (pre @ pieces a s p sz @ ys)"
    "cells (pre @ pieces a s p sz @ ys) = cells (pre @ (a, s) # ys) - block p sz"
    "used (carve (last_addr pre) a p sz st) = used st + sz" "refused (carve (last_addr pre) a p sz st) = refused st"
proof -
  have l: "lseg (holes st) (head st) pre (Some a)" "hole_size (holes st a) = s" "lseg (holes st) (hole_next (holes st a)) ys None"
    using ok by (auto simp: heap_ok_def lseg_append)
  have sp: "spaced pre" "spaced ys" "MIN_BLOCK dvd a" "MIN_BLOCK dvd s"
    "\<forall>x\<in>set pre. fst x + snd x < a" "\<forall>y\<in>set ys. a + s < fst y" "\<forall>x\<in>set pre. \<forall>y\<in>set ys. fst x + snd x < fst y"
    using ok by (auto simp: heap_ok_def spaced_append spaced_Cons)
  have pc: "spaced (pieces a s p sz)" "\<forall>x\<in>set (pieces a s p sz). a \<le> fst x \<and> fst x + snd x \<le> a + s"
    using pieces_spaced [OF fit(1,2,3) sp(3,4) fit(4,5)] by simp_all
  have spaced: "spaced (pre @ pieces a s p sz @ ys)"
    unfolding spaced_append using sp pc by (auto; fastforce)
  define h where "h = holes st a"
  define r1 where "r1 = (if p + sz < a + s then Some (p + sz) else hole_next h)"
  define m1 where "m1 = (if p + sz < a + s then (holes st)(p + sz := \<lparr>hole_size = a + s - (p + sz), hole_next = hole_next h\<rparr>) else holes st)"
  define r2 where "r2 = (if a < p then Some a else r1)"
  define m2 where "m2 = (if a < p then m1(a := \<lparr>hole_size = p - a, hole_next = r1\<rparr>) else m1)"
  let ?c = "set_next (last_addr pre) r2 (st\<lparr>holes := m2\<rparr>)"
  have carve: "carve (last_addr pre) a p sz st = ?c\<lparr>used := used st + sz, peak := max (peak st) (used st + sz)\<rparr>"
    using fit(1,2) by (auto simp: carve_def Let_def l(2) h_def r1_def m1_def r2_def m2_def)
  have same: "m2 b = holes st b" if "b < a \<or> a + s \<le> b" for b using that fit by (auto simp: m2_def m1_def)
  have "lseg m2 (head st) pre (Some a) = lseg (holes st) (head st) pre (Some a)"
    using sp(5) same by (intro lseg_cong) (metis add_lessD1 image_iff)
  moreover have "lseg m2 (hole_next h) ys None = lseg (holes st) (hole_next h) ys None"
    using sp(6) same by (intro lseg_cong) (metis image_iff less_imp_le)
  then have "lseg m2 r2 (pieces a s p sz @ ys) None"
    using l(3) fit by (auto simp: h_def pieces_def r2_def m2_def r1_def m1_def)
  ultimately have "lseg (holes ?c) (head ?c) (pre @ pieces a s p sz @ ys) None"
    using l(1) spaced_distinct [OF spaced] by (intro set_next_splice) simp_all
  moreover have cells: "cells (pre @ pieces a s p sz @ ys) = cells (pre @ (a, s) # ys) - block p sz"
  proof -
    have "x \<notin> block p sz" if "x \<in> cells pre \<union> cells ys" for x
      using that sp(5,6) fit unfolding cells_def block_def by fastforce
    then show ?thesis using pieces_cells [OF fit(1,2)] by auto
  qed
  ultimately show "heap_ok lo (carve (last_addr pre) a p sz st) (pre @ pieces a s p sz @ ys)"
    using ok spaced pieces_cells [OF fit(1,2)] unfolding carve by (auto simp: heap_ok_def)
  show "cells (pre @ pieces a s p sz @ ys) = cells (pre @ (a, s) # ys) - block p sz" by (rule cells)
  show "used (carve (last_addr pre) a p sz st) = used st + sz" "refused (carve (last_addr pre) a p sz st) = refused st"
    unfolding carve by simp_all
qed

section \<open>Allocation\<close>

lemma alloc_state:
  "heap_ok lo (st\<lparr>calls := c, alloc_steps := n, refused := m\<rparr>) hs = heap_ok lo st hs"
  "heap_ok lo (st\<lparr>calls := c, alloc_steps := n\<rparr>) hs = heap_ok lo st hs"
  by (simp_all add: heap_ok_def)

lemma aligned_run_fits:
  assumes "0 < align" "align dvd q" "fst x \<le> q" "q + sz \<le> fst x + snd x"
  shows "fits sz align x" "align_up (fst x) align \<le> q"
  using align_up_spec [OF assms(1), of "fst x"] align_up_spec(3) [OF assms(1,2,3)] assms(4) by (auto simp: fits_def)

text \<open>The two outcomes of an allocation.\<close>

lemma heap_alloc_refuses:
  assumes "heap_ok lo st hs" "\<forall>x\<in>set hs. \<not> fits (block_size l) (max (lay_align l) MIN_BLOCK) x"
  shows "\<exists>st'. heap_alloc l st = Some (None, st') \<and> heap_ok lo st' hs \<and> refused st' = refused st + 1 \<and> used st' = used st"
  using assms alloc_from_none [of "st\<lparr>calls := calls st + 1\<rparr>" "head st" hs]
  by (auto simp: heap_alloc_def heap_ok_def)

lemma heap_alloc_takes:
  assumes ok: "heap_ok lo st (xs @ (a, s) # ys)" and al: "lay_align l = 2 ^ k"
    and f: "\<forall>x\<in>set xs. \<not> fits (block_size l) (max (lay_align l) MIN_BLOCK) x" "fits (block_size l) (max (lay_align l) MIN_BLOCK) (a, s)"
  defines "p \<equiv> align_up a (max (lay_align l) MIN_BLOCK)"
  shows "\<exists>st'. heap_alloc l st = Some (Some p, st') \<and> heap_ok lo st' (xs @ pieces a s p (block_size l) @ ys)
    \<and> cells (xs @ pieces a s p (block_size l) @ ys) = cells (xs @ (a, s) # ys) - block p (block_size l)
    \<and> block p (block_size l) \<subseteq> cells (xs @ (a, s) # ys) \<and> refused st' = refused st \<and> used st' = used st + block_size l"
proof -
  let ?st = "st\<lparr>calls := calls st + 1, alloc_steps := alloc_steps st + length xs + 1\<rparr>"
  have pos: "0 < max (lay_align l) MIN_BLOCK" by (simp add: MIN_BLOCK_def)
  have p: "a \<le> p" "p + block_size l \<le> a + s" using f(2) align_up_spec(1) [OF pos, of a] by (auto simp: fits_def p_def)
  have "max (lay_align l) MIN_BLOCK dvd p" unfolding p_def by (rule align_up_spec(2) [OF pos])
  then have d: "MIN_BLOCK dvd p" using pow2_align(1) [of k] al by (metis dvd_trans)
  have "heap_alloc l st = Some (Some p, carve (last_addr xs) a p (block_size l) ?st)"
    using alloc_from_some [of "st\<lparr>calls := calls st + 1\<rparr>" "head st" xs a s ys _ _ None "[]"] ok f
    by (simp add: heap_alloc_def heap_ok_def p_def)
  moreover have "heap_ok lo ?st (xs @ (a, s) # ys)" using ok by (simp add: heap_ok_def)
  note carve_ok [OF this p block_size_props(1) d block_size_props(2)]
  moreover have "block p (block_size l) \<subseteq> cells (xs @ (a, s) # ys)" using p by (auto simp: block_def)
  ultimately show ?thesis by auto
qed

text \<open>C20. Allocation always returns. It gives the lowest properly aligned address at which a whole block of free bytes
  begins, takes exactly that block out of the free bytes, and counts it; it refuses only when there is no such
  address, and then leaves the free list as it was and counts the refusal.\<close>

theorem heap_alloc_correct:
  assumes "heap_ok lo st hs" "lay_align l = 2 ^ k"
  shows "\<exists>r st' hs'. heap_alloc l st = Some (r, st') \<and> heap_ok lo st' hs' \<and>
    (case r of
       None \<Rightarrow> hs' = hs \<and> refused st' = refused st + 1 \<and> used st' = used st
         \<and> (\<forall>q. max (lay_align l) MIN_BLOCK dvd q \<longrightarrow> \<not> block q (block_size l) \<subseteq> cells hs)
     | Some p \<Rightarrow> max (lay_align l) MIN_BLOCK dvd p \<and> lay_align l dvd p \<and> lay_size l \<le> block_size l
         \<and> block p (block_size l) \<subseteq> cells hs \<and> cells hs' = cells hs - block p (block_size l)
         \<and> (\<forall>q<p. max (lay_align l) MIN_BLOCK dvd q \<longrightarrow> \<not> block q (block_size l) \<subseteq> cells hs)
         \<and> refused st' = refused st \<and> used st' = used st + block_size l)"
proof -
  let ?al = "max (lay_align l) MIN_BLOCK" let ?n = "block_size l"
  have sp: "spaced hs" using assms(1) by (simp add: heap_ok_def)
  have pos: "0 < ?al" by (simp add: MIN_BLOCK_def)
  have run: "\<exists>x\<in>set hs. fits ?n ?al x \<and> align_up (fst x) ?al \<le> q" if q: "?al dvd q" "block q ?n \<subseteq> cells hs" for q
    using in_one_hole [OF sp block_size_props(1) q(2)] aligned_run_fits [OF pos q(1)] by metis
  show ?thesis
  proof (cases "\<exists>x\<in>set hs. fits ?n ?al x")
    case False
    then show ?thesis using heap_alloc_refuses [OF assms(1), of l] run by fastforce
  next
    case True
    then obtain xs y ys where split: "hs = xs @ y # ys" "fits ?n ?al y" "\<forall>x\<in>set xs. \<not> fits ?n ?al x"
      by (metis split_list_first_prop)
    obtain a s where y: "y = (a, s)" by (cases y)
    let ?p = "align_up a ?al"
    have "\<not> block q ?n \<subseteq> cells hs" if q: "q < ?p" "?al dvd q" for q
    proof
      assume "block q ?n \<subseteq> cells hs"
      then obtain x where x: "x \<in> set hs" "fits ?n ?al x" "align_up (fst x) ?al \<le> q" using run q(2) by blast
      have "fst x \<le> q" using x(3) align_up_spec(1) [OF pos, of "fst x"] by simp
      moreover have "?p \<le> a + s" using split(2) align_up_spec(1) [OF pos, of a] by (simp add: y fits_def)
      ultimately have "x \<notin> set ys" using sp q(1) by (auto simp: split(1) y spaced_append spaced_Cons)
      then show False using x split(3) q(1) by (auto simp: split(1) y)
    qed
    moreover have "?al dvd ?p" by (rule align_up_spec(2) [OF pos])
    moreover from this have "lay_align l dvd ?p" using pow2_align(2) [of k] assms(2) by (metis dvd_trans)
    ultimately show ?thesis
      using heap_alloc_takes [OF assms(1) [unfolded split(1) y] assms(2) split(3) split(2) [unfolded y]] block_size_props(3) [of l]
      by (fastforce simp: split(1) y)
  qed
qed

section \<open>Release\<close>

lemma place_from_spec:
  assumes "lseg (holes st) cur (xs @ ys) None" "\<forall>x\<in>set xs. fst x \<le> addr" "ys \<noteq> [] \<Longrightarrow> addr < fst (hd ys)" "prev = last_addr pre"
  shows "\<exists>n. place_from addr prev cur st
     = Some ((last_addr (pre @ xs), if ys = [] then None else Some (fst (hd ys))), st\<lparr>dealloc_steps := n\<rparr>)"
  using assms
proof (induction xs arbitrary: prev cur st pre)
  case Nil
  show ?case
  proof (cases ys)
    case Nil
    then have "place_from addr prev cur st = Some ((last_addr (pre @ []), None), st\<lparr>dealloc_steps := dealloc_steps st\<rparr>)"
      using Nil.prems by (simp add: place_from.simps [of addr _ None])
    then show ?thesis using Nil by (intro exI [of _ "dealloc_steps st"]) simp
  next
    case (Cons y ys')
    then show ?thesis using Nil.prems by (cases y) (subst place_from.simps, auto simp: Let_def)
  qed
next
  case (Cons x xs)
  obtain b t where x: "x = (b, t)" by (cases x)
  have "\<exists>n. place_from addr cur (hole_next (holes st b)) (st\<lparr>dealloc_steps := dealloc_steps st + 1\<rparr>)
     = Some ((last_addr ((pre @ [x]) @ xs), if ys = [] then None else Some (fst (hd ys))),
         (st\<lparr>dealloc_steps := dealloc_steps st + 1\<rparr>)\<lparr>dealloc_steps := n\<rparr>)"
    by (rule Cons.IH [where pre = "pre @ [x]"]) (use Cons.prems in \<open>simp_all add: x\<close>)
  then show ?case using Cons.prems by (subst place_from.simps) (auto simp: x Let_def)
qed

text \<open>Merging a hole with the one after it when they touch.\<close>

fun join :: "nat \<times> nat \<Rightarrow> (nat \<times> nat) list \<Rightarrow> (nat \<times> nat) list" where
  "join x [] = [x]"
| "join x (y # ys) = (if fst x + snd x = fst y then (fst x, snd x + snd y) # ys else x # y # ys)"

lemma join_first: "fst (hd (join x ys)) = fst x" "join x ys \<noteq> []"
  by (cases ys; simp)+

lemma join_sum: "sum_list (map snd (join x ys)) = snd x + sum_list (map snd ys)"
  by (cases ys) auto

lemma join_cells: "cells (join x ys) = cells (x # ys)"
  by (cases ys) auto

lemma join_spaced:
  assumes "spaced ys" "\<forall>y\<in>set ys. fst x + snd x \<le> fst y" "0 < snd x" "MIN_BLOCK dvd fst x" "MIN_BLOCK dvd snd x"
  shows "spaced (join x ys)" "\<forall>y\<in>set (join x ys). fst x \<le> fst y"
proof -
  have "spaced (join x ys) \<and> (\<forall>y\<in>set (join x ys). fst x \<le> fst y)"
  proof (cases ys)
    case Nil
    then show ?thesis using assms(3-5) by (simp add: spaced_def)
  next
    case (Cons y zs)
    have y: "spaced zs" "MIN_BLOCK dvd snd y" and z: "\<forall>z\<in>set zs. fst y + snd y < fst z" and le: "fst x + snd x \<le> fst y"
      using assms(1,2) by (simp_all add: Cons spaced_Cons)
    show ?thesis
    proof (cases "fst x + snd x = fst y")
      case True
      then have "\<forall>z\<in>set zs. fst x + (snd x + snd y) < fst z" using z by (simp add: add.assoc [symmetric])
      then show ?thesis using True y assms(3-5) by (simp add: Cons spaced_Cons) (meson add_lessD1 less_imp_le)
    next
      case False
      then have lt: "fst x + snd x < fst y" using le by simp
      then have "\<forall>z\<in>set zs. fst x + snd x < fst z" using z by (meson add_lessD1 less_trans)
      then show ?thesis using False lt assms(1,3-5) by (simp add: Cons spaced_Cons) (meson add_lessD1 less_imp_le)
    qed
  qed
  then show "spaced (join x ys)" "\<forall>y\<in>set (join x ys). fst x \<le> fst y" by simp_all
qed

lemma join_append_spaced:
  assumes "spaced pre" "spaced ys" "\<forall>y\<in>set ys. fst x + snd x \<le> fst y" "0 < snd x" "MIN_BLOCK dvd fst x" "MIN_BLOCK dvd snd x"
    "\<forall>y\<in>set pre. fst y + snd y < fst x"
  shows "spaced (pre @ join x ys)"
  using assms(1,7) join_spaced [OF assms(2-6)] by (fastforce simp: spaced_append)

lemma coalesce_fields [simp]:
  "head (coalesce a st) = head st" "total (coalesce a st) = total st" "used (coalesce a st) = used st"
  "peak (coalesce a st) = peak st" "refused (coalesce a st) = refused st"
  by (auto simp: coalesce_def split: option.splits)

lemma coalesce_lseg:
  assumes "lseg (holes st) (head st) (pre @ x # ys) None" "distinct (map fst (pre @ x # ys))"
  shows "lseg (holes (coalesce (fst x) st)) (head st) (pre @ join x ys) None"
proof -
  obtain a s where x: "x = (a, s)" by (cases x)
  have other: "holes (coalesce a st) b = holes st b" if "b \<noteq> a" for b
    using that by (simp add: coalesce_def split: option.split)
  have l: "lseg (holes st) (head st) pre (Some a)" "hole_size (holes st a) = s" "lseg (holes st) (hole_next (holes st a)) ys None"
    using assms(1) by (auto simp: x lseg_append)
  have "lseg (holes (coalesce a st)) (head st) pre (Some a) = lseg (holes st) (head st) pre (Some a)"
    using assms(2) by (intro lseg_cong other) (auto simp: x)
  moreover have keep: "lseg (holes (coalesce a st)) c zs None = lseg (holes st) c zs None" if "set zs \<subseteq> set ys" for c zs
    using assms(2) that by (intro lseg_cong other) (auto simp: x)
  have "lseg (holes (coalesce a st)) (Some a) (join x ys) None"
  proof (cases ys)
    case Nil
    then show ?thesis using l by (simp add: x coalesce_def)
  next
    case (Cons y zs)
    obtain b t where y: "y = (b, t)" by (cases y)
    have n: "hole_next (holes st a) = Some b" "hole_size (holes st b) = t" "lseg (holes st) (hole_next (holes st b)) zs None"
      using l(3) by (simp_all add: Cons y)
    show ?thesis
    proof (cases "a + s = b")
      case True
      then have "holes (coalesce a st) a = \<lparr>hole_size = s + t, hole_next = hole_next (holes st b)\<rparr>"
        using n l(2) by (simp add: coalesce_def)
      then show ?thesis using True keep [of zs] n(3) by (auto simp: Cons x y)
    next
      case False
      then have "coalesce a st = st" using n l(2) by (simp add: coalesce_def)
      then show ?thesis using False l by (simp add: Cons x y n)
    qed
  qed
  ultimately show ?thesis using l(1) by (auto simp: x lseg_append)
qed

text \<open>The free list after a block is put back between \<open>xs\<close> and \<open>ys\<close>.\<close>

definition put_back :: "(nat \<times> nat) list \<Rightarrow> nat \<times> nat \<Rightarrow> (nat \<times> nat) list \<Rightarrow> (nat \<times> nat) list" where
  "put_back xs b ys = (if xs = [] then join b ys else butlast xs @ join (last xs) (join b ys))"

lemma put_back_spaced:
  assumes "spaced xs" "spaced ys" "\<forall>y\<in>set ys. fst b + snd b \<le> fst y" "\<forall>x\<in>set xs. fst x + snd x \<le> fst b"
    "0 < snd b" "MIN_BLOCK dvd fst b" "MIN_BLOCK dvd snd b"
  shows "spaced (put_back xs b ys)" "cells (put_back xs b ys) = cells xs \<union> {fst b..<fst b + snd b} \<union> cells ys"
    "sum_list (map snd (put_back xs b ys)) = sum_list (map snd xs) + snd b + sum_list (map snd ys)"
proof -
  have j: "spaced (join b ys)" "\<forall>y\<in>set (join b ys). fst b \<le> fst y"
    using join_spaced [OF assms(2,3,5-7)] by simp_all
  have "spaced (put_back xs b ys) \<and> cells (put_back xs b ys) = cells xs \<union> {fst b..<fst b + snd b} \<union> cells ys
    \<and> sum_list (map snd (put_back xs b ys)) = sum_list (map snd xs) + snd b + sum_list (map snd ys)"
  proof (cases xs rule: rev_cases)
    case Nil
    then show ?thesis using j by (simp add: put_back_def join_cells join_sum)
  next
    case (snoc ws w)
    have w: "spaced ws" "0 < snd w" "MIN_BLOCK dvd fst w" "MIN_BLOCK dvd snd w" "\<forall>x\<in>set ws. fst x + snd x < fst w" "fst w + snd w \<le> fst b"
      using assms(1,4) by (auto simp: snoc spaced_append spaced_Cons)
    have "\<forall>y\<in>set (join b ys). fst w + snd w \<le> fst y" using j(2) w(6) by (meson order_trans)
    then have "spaced (ws @ join w (join b ys))" using w j(1) by (intro join_append_spaced) auto
    then show ?thesis by (auto simp: put_back_def snoc join_cells join_sum)
  qed
  then show "spaced (put_back xs b ys)" "cells (put_back xs b ys) = cells xs \<union> {fst b..<fst b + snd b} \<union> cells ys"
    "sum_list (map snd (put_back xs b ys)) = sum_list (map snd xs) + snd b + sum_list (map snd ys)" by simp_all
qed

lemma spaced_split:
  assumes "spaced hs"
  shows "\<exists>xs ys. hs = xs @ ys \<and> (\<forall>x\<in>set xs. fst x \<le> addr) \<and> (\<forall>y\<in>set ys. addr < fst y)"
proof (intro exI conjI)
  show "hs = takeWhile (\<lambda>x. fst x \<le> addr) hs @ dropWhile (\<lambda>x. fst x \<le> addr) hs" by simp
  show "\<forall>x\<in>set (takeWhile (\<lambda>x. fst x \<le> addr) hs). fst x \<le> addr" using set_takeWhileD by fastforce
  have "sorted_wrt (\<lambda>x y. fst x < fst y) hs" using assms by (auto simp: spaced_def elim!: sorted_wrt_mono_rel [rotated])
  then show "\<forall>y\<in>set (dropWhile (\<lambda>x. fst x \<le> addr) hs). addr < fst y"
    by (induction hs) (auto simp: not_le intro: order.strict_trans)
qed

lemma heap_dealloc_spec:
  assumes ok: "heap_ok lo st hs" and a: "MIN_BLOCK dvd addr" "block addr (block_size l) \<subseteq> {lo..<lo + total st}"
    and free: "block addr (block_size l) \<inter> cells hs = {}"
  shows "\<exists>st' hs'. heap_dealloc addr l st = Some st' \<and> heap_ok lo st' hs' \<and> cells hs' = cells hs \<union> block addr (block_size l)
    \<and> used st' + block_size l = used st \<and> total st' = total st \<and> refused st' = refused st"
proof -
  let ?n = "block_size l"
  note bs = block_size_props [of l]
  have sp: "spaced hs" and seg: "lseg (holes st) (head st) hs None" using ok by (simp_all add: heap_ok_def)
  obtain xs ys where hs: "hs = xs @ ys" "\<forall>x\<in>set xs. fst x \<le> addr" "\<forall>y\<in>set ys. addr < fst y"
    using spaced_split [OF sp] by blast
  have s: "spaced xs" "spaced ys" using sp by (simp_all add: hs spaced_append)
  have below: "fst x + snd x \<le> addr" if "x \<in> set xs" for x
  proof (rule ccontr)
    assume "\<not> fst x + snd x \<le> addr"
    then have "addr \<in> cells hs" using hs(1,2) that by (fastforce simp: cells_def)
    moreover have "addr \<in> block addr ?n" using bs(1) by (simp add: block_def)
    ultimately show False using free by blast
  qed
  have above: "addr + ?n \<le> fst y" if "y \<in> set ys" for y
  proof (rule ccontr)
    assume "\<not> addr + ?n \<le> fst y"
    then have "fst y \<in> block addr ?n" using hs(3) that by (auto simp: block_def)
    moreover have "fst y \<in> cells hs" using that s(2) by (auto simp: hs(1) cells_def spaced_def)
    ultimately show False using free by blast
  qed
  have pb: "spaced (put_back xs (addr, ?n) ys)" "cells (put_back xs (addr, ?n) ys) = cells hs \<union> block addr ?n"
    "sum_list (map snd (put_back xs (addr, ?n) ys)) = sum_list (map snd hs) + ?n"
    using put_back_spaced [of xs ys "(addr, ?n)"] s below above bs a(1) by (auto simp: hs(1) block_def)
  have "sum_list (map snd hs) + ?n = card (cells hs \<union> block addr ?n)" using card_cells [OF pb(1)] pb by simp
  also have "\<dots> \<le> card {lo..<lo + total st}" using ok a(2) by (intro card_mono) (auto simp: heap_ok_def)
  finally have room: "?n \<le> used st" using ok by (simp add: heap_ok_def)
  define u where "u = st\<lparr>used := used st - ?n, calls := calls st + 1\<rparr>"
  have "lseg (holes u) (head u) (xs @ ys) None" using seg by (simp add: u_def hs(1))
  then obtain d where d: "place_from addr None (head u) u
     = Some ((last_addr xs, if ys = [] then None else Some (fst (hd ys))), u\<lparr>dealloc_steps := d\<rparr>)"
    using place_from_spec [of u "head u" xs ys addr None "[]"] hs(2,3) by auto
  define cur where "cur = (if ys = [] then None else Some (fst (hd ys)))"
  define v where "v = (u\<lparr>dealloc_steps := d\<rparr>)\<lparr>holes := (holes u)(addr := \<lparr>hole_size = ?n, hole_next = cur\<rparr>)\<rparr>"
  define w where "w = coalesce addr (set_next (last_addr xs) (Some addr) v)"
  define st' where "st' = (case last_addr xs of Some p \<Rightarrow> coalesce p w | None \<Rightarrow> w)"
  have d': "place_from addr None (head st) (st\<lparr>used := used st - ?n, calls := calls st + 1\<rparr>) = Some ((last_addr xs, cur), u\<lparr>dealloc_steps := d\<rparr>)"
    using d by (simp add: u_def cur_def)
  have eq: "heap_dealloc addr l st = Some st'"
    using d' by (cases "last_addr xs") (simp_all add: heap_dealloc_def Let_def v_def w_def st'_def u_def)
  obtain mid where mid: "lseg (holes st) (head st) xs mid" "lseg (holes st) mid ys None" using seg by (auto simp: hs(1) lseg_append)
  have "mid = cur" using mid(2) by (cases ys) (auto simp: cur_def)
  have notin: "addr \<notin> fst ` set xs" "addr \<notin> fst ` set ys"
    using below above bs(1) s(1) by (fastforce simp: spaced_def)+
  have dist: "distinct (map fst (xs @ (addr, ?n) # ys))" using spaced_distinct [OF sp] notin by (auto simp: hs(1))
  have "lseg (holes v) (head v) xs mid = lseg (holes st) (head st) xs mid"
    unfolding v_def u_def by simp (rule lseg_cong, use notin in auto)
  moreover have "lseg (holes v) mid ys None = lseg (holes st) mid ys None"
    unfolding v_def u_def by simp (rule lseg_cong, use notin in auto)
  then have "lseg (holes v) (Some addr) ((addr, ?n) # ys) None" using mid(2) \<open>mid = cur\<close> by (simp add: v_def)
  ultimately have "lseg (holes (set_next (last_addr xs) (Some addr) v)) (head (set_next (last_addr xs) (Some addr) v)) (xs @ (addr, ?n) # ys) None"
    using mid(1) dist by (intro set_next_splice) simp_all
  from coalesce_lseg [OF this dist] have w: "lseg (holes w) (head w) (xs @ join (addr, ?n) ys) None" by (simp add: w_def)
  have "lseg (holes st') (head st') (put_back xs (addr, ?n) ys) None"
  proof (cases xs rule: rev_cases)
    case Nil
    then show ?thesis using w by (simp add: st'_def put_back_def)
  next
    case (snoc ws z)
    have "distinct (map fst (ws @ z # join (addr, ?n) ys))" using dist by (cases ys) (auto simp: snoc)
    then show ?thesis using coalesce_lseg [of w ws z "join (addr, ?n) ys"] w by (simp add: st'_def put_back_def snoc)
  qed
  moreover have fields: "used st' = used st - ?n" "total st' = total st" "peak st' = peak st" "refused st' = refused st"
    by (auto simp: st'_def w_def v_def u_def split: option.split)
  ultimately have "heap_ok lo st' (put_back xs (addr, ?n) ys)"
    using pb ok a(2) room by (auto simp: heap_ok_def)
  then show ?thesis using eq pb(2) fields room by (intro exI [of _ st'] exI [of _ "put_back xs (addr, ?n) ys"]) simp
qed

text \<open>Releasing an allocated block always returns, gives back exactly the block's bytes and leaves a free list that is
  ordered, coalesced (no two free blocks touch) and accounted for.\<close>

theorem heap_dealloc_correct:
  assumes "heap_ok lo st hs" "MIN_BLOCK dvd addr" "block addr (block_size l) \<subseteq> {lo..<lo + total st}"
    "block addr (block_size l) \<inter> cells hs = {}"
  shows "\<exists>st' hs'. heap_dealloc addr l st = Some st' \<and> heap_ok lo st' hs' \<and> cells hs' = cells hs \<union> block addr (block_size l)
    \<and> used st' + block_size l = used st"
  using heap_dealloc_spec [OF assms] by blast

text \<open>C21. Releasing a block just allocated restores the free list hole for hole, and the count of bytes in use: splitting
  and coalescing are exact inverses.\<close>

theorem heap_alloc_dealloc_roundtrip:
  assumes "heap_ok lo st hs" "lay_align l = 2 ^ k" "heap_alloc l st = Some (Some p, st')"
  shows "\<exists>st''. heap_dealloc p l st' = Some st'' \<and> heap_ok lo st'' hs \<and> used st'' = used st \<and> total st'' = total st"
proof -
  let ?al = "max (lay_align l) MIN_BLOCK"
  have "\<exists>x\<in>set hs. fits (block_size l) ?al x" using heap_alloc_refuses [OF assms(1), of l] assms(3) by auto
  then obtain xs y ys where split: "hs = xs @ y # ys" "fits (block_size l) ?al y" "\<forall>x\<in>set xs. \<not> fits (block_size l) ?al x"
    by (metis split_list_first_prop)
  obtain a s where y: "y = (a, s)" by (cases y)
  let ?hs = "xs @ pieces a s p (block_size l) @ ys"
  have p: "p = align_up a ?al" and ok: "heap_ok lo st' ?hs" and c: "cells ?hs = cells hs - block p (block_size l)"
    "block p (block_size l) \<subseteq> cells hs" and u: "used st' = used st + block_size l"
    using heap_alloc_takes [OF assms(1) [unfolded split(1) y] assms(2) split(3) split(2) [unfolded y]] assms(3)
    by (auto simp: split(1) y)
  have "?al dvd p" unfolding p by (rule align_up_spec) (simp add: MIN_BLOCK_def)
  then have "MIN_BLOCK dvd p" using pow2_align(1) [of k] assms(2) by (metis dvd_trans)
  moreover have t: "total st' = total st"
  proof -
    have "used st' + sum_list (map snd ?hs) = total st'" "used st + sum_list (map snd hs) = total st"
      using ok assms(1) by (simp_all add: heap_ok_def)
    moreover have "a \<le> p \<and> p + block_size l \<le> a + s"
      using split(2) align_up_spec(1) [of ?al a] by (auto simp: y p fits_def MIN_BLOCK_def)
    then have "sum_list (map snd (pieces a s p (block_size l))) + block_size l = s" using pieces_cells by blast
    ultimately show ?thesis using u by (simp add: split(1) y)
  qed
  moreover have "cells hs \<subseteq> {lo..<lo + total st'}" using assms(1) t by (simp add: heap_ok_def)
  ultimately obtain st'' hs'' where d: "heap_dealloc p l st' = Some st''" "heap_ok lo st'' hs''"
    "cells hs'' = cells ?hs \<union> block p (block_size l)" "used st'' + block_size l = used st'" "total st'' = total st'"
    using heap_dealloc_spec [OF ok, of p l] c by blast
  have "hs'' = hs"
    using d(2,3) assms(1) c by (intro spaced_unique) (auto simp: heap_ok_def)
  then show ?thesis using d u t by auto
qed

section \<open>A concrete heap\<close>

definition demo_heap :: heap where
  "demo_heap = heap_init 4096 1024 (heap_new (\<lambda>_. \<lparr>hole_size = 0, hole_next = None\<rparr>))"

definition demo_layout :: layout where
  "demo_layout = \<lparr>lay_size = 24, lay_align = 8\<rparr>"

lemma demo_heap_ok: "heap_ok 4096 demo_heap [(4096, 1024)]" "lay_align demo_layout = 2 ^ 3" "block_size demo_layout = 32"
  by (simp_all add: heap_ok_def demo_heap_def heap_init_def heap_new_def spaced_def MIN_BLOCK_def demo_layout_def block_size_def align_up_def)

lemma demo_alloc: "\<exists>st'. heap_alloc demo_layout demo_heap = Some (Some 4096, st')"
  using heap_alloc_takes [of 4096 demo_heap "[]" 4096 1024 "[]" demo_layout 3] demo_heap_ok
  by (auto simp: fits_def align_up_def MIN_BLOCK_def demo_layout_def)

theorem heap_alloc_correct_witness:
  "heap_ok 4096 demo_heap [(4096, 1024)] \<and> (\<exists>st' hs'. heap_alloc demo_layout demo_heap = Some (Some 4096, st')
     \<and> heap_ok 4096 st' hs' \<and> cells hs' = {4096..<5120} - block 4096 32)"
proof -
  obtain st' where a: "heap_alloc demo_layout demo_heap = Some (Some 4096, st')" using demo_alloc by blast
  show ?thesis using heap_alloc_correct [OF demo_heap_ok(1,2)] demo_heap_ok(1,3) by (auto simp: a)
qed

theorem heap_alloc_dealloc_roundtrip_witness:
  "\<exists>st' st''. heap_alloc demo_layout demo_heap = Some (Some 4096, st') \<and> heap_dealloc 4096 demo_layout st' = Some st''
     \<and> heap_ok 4096 st'' [(4096, 1024)] \<and> used st'' = 0"
proof -
  obtain st' where a: "heap_alloc demo_layout demo_heap = Some (Some 4096, st')" using demo_alloc by blast
  moreover have "used demo_heap = 0" by (simp add: demo_heap_def heap_init_def heap_new_def)
  ultimately show ?thesis using heap_alloc_dealloc_roundtrip [OF demo_heap_ok(1,2) a] by auto
qed

theorem heap_dealloc_correct_witness:
  "\<exists>st st' hs'. heap_ok 4096 st [(4128, 992)] \<and> used st = 32 \<and> heap_dealloc 4096 demo_layout st = Some st'
     \<and> heap_ok 4096 st' hs' \<and> used st' = 0 \<and> cells hs' = {4096..<5120}"
proof -
  define st where "st = demo_heap\<lparr>used := 32, peak := 32, head := Some 4128, holes := (\<lambda>_. \<lparr>hole_size = 992, hole_next = None\<rparr>)\<rparr>"
  have ok: "heap_ok 4096 st [(4128, 992)]"
    by (simp add: st_def heap_ok_def demo_heap_def heap_init_def heap_new_def spaced_def MIN_BLOCK_def)
  moreover have "used st = 32" "total st = 1024" by (simp_all add: st_def demo_heap_def heap_init_def)
  moreover have "{4128..<5120::nat} \<union> {4096..<4128} = {4096..<5120}" by auto
  ultimately show ?thesis
    using heap_dealloc_correct [OF ok, of 4096 demo_layout] demo_heap_ok(3) by (fastforce simp: MIN_BLOCK_def block_def)
qed

end
