(* ===== verification/Utf8.thy ===== *)
theory Utf8
  imports Prelude
begin

text \<open>
  \<^verbatim>\<open>core::str::from_utf8\<close>: the byte sequences Rust accepts as text, the well-formed ones of the Unicode standard
  (shortest form, no surrogates, nothing above U+10FFFF).
\<close>

definition cont :: "u8 \<Rightarrow> bool" where
  "cont b \<longleftrightarrow> 0x80 \<le> b \<and> b \<le> 0xBF"

definition second_of_three :: "u8 \<Rightarrow> u8 \<Rightarrow> bool" where
  "second_of_three b c \<longleftrightarrow> cont c \<and> (b = 0xE0 \<longrightarrow> 0xA0 \<le> c) \<and> (b = 0xED \<longrightarrow> c \<le> 0x9F)"

definition second_of_four :: "u8 \<Rightarrow> u8 \<Rightarrow> bool" where
  "second_of_four b c \<longleftrightarrow> cont c \<and> (b = 0xF0 \<longrightarrow> 0x90 \<le> c) \<and> (b = 0xF4 \<longrightarrow> c \<le> 0x8F)"

fun utf8 :: "u8 list \<Rightarrow> bool" where
  "utf8 [] \<longleftrightarrow> True"
| "utf8 (b # bs) \<longleftrightarrow>
     (if b < 0x80 then utf8 bs
      else case bs of
             [] \<Rightarrow> False
           | c # cs \<Rightarrow>
               if 0xC2 \<le> b \<and> b \<le> 0xDF then cont c \<and> utf8 cs
               else (case cs of
                       [] \<Rightarrow> False
                     | d # ds \<Rightarrow>
                         if 0xE0 \<le> b \<and> b \<le> 0xEF then second_of_three b c \<and> cont d \<and> utf8 ds
                         else (case ds of
                                 [] \<Rightarrow> False
                               | e # es \<Rightarrow> 0xF0 \<le> b \<and> b \<le> 0xF4 \<and> second_of_four b c \<and> cont d \<and> cont e \<and> utf8 es)))"

lemma utf8_ascii: "\<forall>b\<in>set bs. b < 0x80 \<Longrightarrow> utf8 bs"
  by (induction bs) simp_all

end
