(* ===== verification/Cpio.thy ===== *)
theory Cpio
  imports Utf8
begin

text \<open>
  \<^verbatim>\<open>crates/cpio/src/lib.rs\<close>: the reader of the ``newc'' archives an initramfs comes as. A Rust slice has fewer than
  $2^{63}$ bytes and the fields of a header are 32-bit, so positions are naturals: no sum of the reader
  wraps. Text is its bytes.
\<close>

section \<open>Data\<close>

definition MAGIC :: "u8 list" where "MAGIC = [0x30, 0x37, 0x30, 0x37, 0x30, 0x31]"
definition HEADER_LEN :: nat where "HEADER_LEN = 110"
definition ALIGN :: nat where "ALIGN = 4"
definition TRAILER :: "u8 list" where "TRAILER = [0x54, 0x52, 0x41, 0x49, 0x4C, 0x45, 0x52, 0x21, 0x21, 0x21]"
definition OFF_MODE :: nat where "OFF_MODE = 14"
definition OFF_FILESIZE :: nat where "OFF_FILESIZE = 54"
definition OFF_NAMESIZE :: nat where "OFF_NAMESIZE = 94"

record cpio_entry =
  ent_name :: "u8 list"
  ent_mode :: u32
  ent_data :: "u8 list"

definition is_file :: "cpio_entry \<Rightarrow> bool" where
  "is_file e \<longleftrightarrow> ent_mode e AND 0xF000 = 0x8000"

section \<open>Headers\<close>

definition get_range :: "u8 list \<Rightarrow> nat \<Rightarrow> nat \<Rightarrow> u8 list option" where
  "get_range b off n = (if off + n \<le> length b then Some (take n (drop off b)) else None)"

definition align_up :: "nat \<Rightarrow> nat" where
  "align_up n = (n + ALIGN - 1) div ALIGN * ALIGN"

definition hex_digit :: "u8 \<Rightarrow> u32 option" where
  "hex_digit b =
     (if 0x30 \<le> b \<and> b \<le> 0x39 then Some (ucast (b - 0x30))
      else if 0x61 \<le> b \<and> b \<le> 0x66 then Some (ucast (b - 0x61 + 10))
      else if 0x41 \<le> b \<and> b \<le> 0x46 then Some (ucast (b - 0x41 + 10))
      else None)"

fun hex_value :: "u8 list \<Rightarrow> u32 \<Rightarrow> u32 option" where
  "hex_value [] v = Some v"
| "hex_value (b # bs) v = (case hex_digit b of None \<Rightarrow> None | Some d \<Rightarrow> hex_value bs (push_bit 4 v OR d))"

definition hex_field :: "u8 list \<Rightarrow> nat \<Rightarrow> u32 option" where
  "hex_field header off = (case get_range header off 8 of None \<Rightarrow> None | Some bs \<Rightarrow> hex_value bs 0)"

record parsed =
  p_name :: "u8 list"
  p_mode :: u32
  p_data :: "u8 list"
  p_namesize :: nat
  p_filesize :: nat

definition parse_at :: "u8 list \<Rightarrow> nat \<Rightarrow> parsed option" where
  "parse_at blob pos =
     (case get_range blob pos HEADER_LEN of
        None \<Rightarrow> None
      | Some header \<Rightarrow>
          if take (length MAGIC) header \<noteq> MAGIC then None
          else case hex_field header OFF_MODE of None \<Rightarrow> None | Some mode \<Rightarrow>
               case hex_field header OFF_FILESIZE of None \<Rightarrow> None | Some fs \<Rightarrow>
               case hex_field header OFF_NAMESIZE of None \<Rightarrow> None | Some ns \<Rightarrow>
               let filesize = unat fs; namesize = unat ns; name_start = pos + HEADER_LEN in
               case get_range blob name_start namesize of None \<Rightarrow> None | Some name_bytes \<Rightarrow>
               if name_bytes = [] then None
               else if \<not> utf8 (butlast name_bytes) then None
               else let data_start = align_up (name_start + namesize) in
                 case get_range blob data_start filesize of
                   None \<Rightarrow> None
                 | Some d \<Rightarrow> Some \<lparr>p_name = butlast name_bytes, p_mode = mode, p_data = d, p_namesize = namesize, p_filesize = filesize\<rparr>)"

section \<open>Iteration\<close>

text \<open>One call of the iterator: the entry, if any, and the position left behind.\<close>

definition next_entry :: "u8 list \<Rightarrow> nat \<Rightarrow> cpio_entry option \<times> nat" where
  "next_entry blob pos =
     (case parse_at blob pos of
        None \<Rightarrow> (None, pos)
      | Some e \<Rightarrow>
          let name_end = pos + HEADER_LEN + p_namesize e; data_start = align_up name_end; data_end = data_start + p_filesize e;
              pos' = align_up data_end
          in if p_name e = TRAILER then (None, pos')
             else (Some \<lparr>ent_name = p_name e, ent_mode = p_mode e, ent_data = p_data e\<rparr>, pos'))"

lemma align_up_bounds: "n \<le> align_up n" "align_up n < n + ALIGN" "ALIGN dvd align_up n"
proof -
  have "(n + ALIGN - 1) mod ALIGN < ALIGN" by (simp add: ALIGN_def)
  moreover have "align_up n = n + ALIGN - 1 - (n + ALIGN - 1) mod ALIGN" by (simp add: align_up_def minus_mod_eq_div_mult)
  ultimately show "n \<le> align_up n" "align_up n < n + ALIGN" by (simp_all add: ALIGN_def)
qed (simp add: align_up_def)

lemma get_range_Some: "get_range b off n = Some s \<longleftrightarrow> off + n \<le> length b \<and> s = take n (drop off b)"
  by (auto simp: get_range_def)

lemma parse_at_bounds:
  assumes "parse_at blob pos = Some e"
  shows "pos + HEADER_LEN + p_namesize e \<le> length blob"
    "align_up (pos + HEADER_LEN + p_namesize e) + p_filesize e \<le> length blob"
    "0 < p_namesize e" "p_name e = take (p_namesize e - 1) (drop (pos + HEADER_LEN) blob)"
    "p_data e = take (p_filesize e) (drop (align_up (pos + HEADER_LEN + p_namesize e)) blob)" "utf8 (p_name e)"
proof -
  show "pos + HEADER_LEN + p_namesize e \<le> length blob"
    "align_up (pos + HEADER_LEN + p_namesize e) + p_filesize e \<le> length blob"
    "0 < p_namesize e" "p_name e = take (p_namesize e - 1) (drop (pos + HEADER_LEN) blob)"
    "p_data e = take (p_filesize e) (drop (align_up (pos + HEADER_LEN + p_namesize e)) blob)" "utf8 (p_name e)"
    using assms by (auto simp: parse_at_def Let_def get_range_Some butlast_take split: option.splits if_splits)
qed

lemma next_entry_advances: "next_entry blob pos = (Some e, pos') \<Longrightarrow> pos < pos' \<and> pos < length blob"
proof -
  assume n: "next_entry blob pos = (Some e, pos')"
  then obtain x where x: "parse_at blob pos = Some x" by (auto simp: next_entry_def split: option.splits)
  let ?d = "align_up (pos + HEADER_LEN + p_namesize x)"
  have "pos' = align_up (?d + p_filesize x)" using n x by (auto simp: next_entry_def Let_def split: if_splits)
  moreover have "pos + HEADER_LEN + p_namesize x \<le> ?d" "?d + p_filesize x \<le> align_up (?d + p_filesize x)"
    by (rule align_up_bounds)+
  ultimately show ?thesis using parse_at_bounds(1) [OF x] by (simp add: HEADER_LEN_def)
qed

function entries_from :: "u8 list \<Rightarrow> nat \<Rightarrow> cpio_entry list" where
  "entries_from blob pos = (case next_entry blob pos of (None, _) \<Rightarrow> [] | (Some e, pos') \<Rightarrow> e # entries_from blob pos')"
  by pat_completeness auto
termination
  by (relation "measure (\<lambda>(blob, pos). length blob - pos)") (auto dest!: next_entry_advances [OF sym])

declare entries_from.simps [simp del]

definition entries :: "u8 list \<Rightarrow> cpio_entry list" where
  "entries blob = entries_from blob 0"

definition find_entry :: "u8 list \<Rightarrow> u8 list \<Rightarrow> cpio_entry option" where
  "find_entry blob name = find (\<lambda>e. ent_name e = name) (entries blob)"

end
