(* ===== verification/CpioProps.thy ===== *)
theory CpioProps
  imports Cpio
begin

unbundle bit_operations_syntax

text \<open>
  The archive format and what the reader promises about it: an archive written in the format is read back entry
  for entry, and on any bytes at all the reader returns only what lies inside them.
\<close>

section \<open>Hexadecimal fields\<close>

definition hex_char :: "nat \<Rightarrow> u8" where
  "hex_char d = (if d < 10 then 0x30 + of_nat d else 0x41 + of_nat (d - 10))"

fun hex_digits :: "nat \<Rightarrow> u32 \<Rightarrow> u8 list" where
  "hex_digits 0 v = []"
| "hex_digits (Suc k) v = hex_char (unat (take_bit 4 (drop_bit (4 * k) v))) # hex_digits k v"

lemma length_hex_digits [simp]: "length (hex_digits k v) = k"
  by (induction k) simp_all

lemma hex_digit_char: "n < 16 \<Longrightarrow> hex_digit (hex_char n) = Some (of_nat n)"
proof -
  have "\<forall>n\<in>set [0..<16]. hex_digit (hex_char n) = Some (of_nat n)"
    by (simp add: upt_rec hex_digit_def hex_char_def)
  then show "n < 16 \<Longrightarrow> hex_digit (hex_char n) = Some (of_nat n)" by simp
qed

lemma hex_value_digits: "hex_value (hex_digits k v) acc = Some (push_bit (4 * k) acc OR take_bit (4 * k) v)"
proof (induction k arbitrary: acc)
  case (Suc k)
  let ?d = "take_bit 4 (drop_bit (4 * k) v)"
  have "?d < 16" using take_bit_int_less_exp by (simp add: take_bit_eq_mod word_less_nat_alt unat_mod)
  then have "unat ?d < 16" by (simp add: word_less_nat_alt)
  then have "hex_value (hex_digits (Suc k) v) acc = hex_value (hex_digits k v) (push_bit 4 acc OR ?d)"
    by (simp add: hex_digit_char)
  also have "\<dots> = Some (push_bit (4 * k) (push_bit 4 acc OR ?d) OR take_bit (4 * k) v)" by (rule Suc.IH)
  also have "push_bit (4 * k) (push_bit 4 acc OR ?d) OR take_bit (4 * k) v = push_bit (4 * Suc k) acc OR take_bit (4 * Suc k) v"
    by (rule bit_word_eqI) (auto simp: bit_simps add.commute)
  finally show ?case .
qed simp

lemma hex_value_8: "hex_value (hex_digits 8 v) 0 = Some (v :: u32)"
  by (simp add: hex_value_digits take_bit_word_eq_self)

section \<open>The format\<close>

text \<open>The bytes of one member. The fields the reader skips, the byte that ends the name and the padding are arbitrary.\<close>

definition member_bytes :: "cpio_entry \<Rightarrow> u8 list \<Rightarrow> bool" where
  "member_bytes e bs \<longleftrightarrow>
     (\<exists>ino owner devs check nul pad1 pad2.
        length ino = 8 \<and> length owner = 32 \<and> length devs = 32 \<and> length check = 8 \<and> length nul = 1
        \<and> length pad1 < ALIGN \<and> ALIGN dvd HEADER_LEN + length (ent_name e) + 1 + length pad1
        \<and> length pad2 < ALIGN \<and> ALIGN dvd length (ent_data e) + length pad2
        \<and> bs = MAGIC @ ino @ hex_digits 8 (ent_mode e) @ owner @ hex_digits 8 (of_nat (length (ent_data e))) @ devs
            @ hex_digits 8 (of_nat (length (ent_name e) + 1)) @ check @ ent_name e @ nul @ pad1 @ ent_data e @ pad2)"

text \<open>What a member may be: its name is text, and its sizes fit the 32-bit fields.\<close>

definition member_ok :: "cpio_entry \<Rightarrow> bool" where
  "member_ok e \<longleftrightarrow> utf8 (ent_name e) \<and> length (ent_name e) + 1 < 2 ^ 32 \<and> length (ent_data e) < 2 ^ 32"

lemma align_up_unique: "n \<le> q \<Longrightarrow> q < n + ALIGN \<Longrightarrow> ALIGN dvd q \<Longrightarrow> align_up n = q"
proof -
  assume a: "n \<le> q" "q < n + ALIGN" "ALIGN dvd q"
  obtain c where c: "q = ALIGN * c" using a(3) by (elim dvdE)
  obtain d where d: "align_up n = ALIGN * d" using align_up_bounds(3) [of n] by (elim dvdE)
  show "align_up n = q" using a(1,2) align_up_bounds(1,2) [of n] unfolding c d by (simp add: ALIGN_def)
qed

lemma unat_u32: "n < 2 ^ 32 \<Longrightarrow> unat (of_nat n :: u32) = n"
  by (simp add: unsigned_of_nat take_bit_nat_eq_self)

lemma parse_member:
  assumes "member_bytes e bs" "member_ok e" "ALIGN dvd length pre"
  shows "\<exists>p. parse_at (pre @ bs @ rest) (length pre) = Some p \<and> p_name p = ent_name e \<and> p_mode p = ent_mode e
    \<and> p_data p = ent_data e \<and> align_up (align_up (length pre + HEADER_LEN + p_namesize p) + p_filesize p) = length pre + length bs"
proof -
  obtain ino owner devs check nul pad1 pad2 where
    l: "length ino = 8" "length owner = 32" "length devs = 32" "length check = 8" "length nul = 1" and
    pad: "length pad1 < ALIGN" "ALIGN dvd HEADER_LEN + length (ent_name e) + 1 + length pad1"
      "length pad2 < ALIGN" "ALIGN dvd length (ent_data e) + length pad2" and
    bs: "bs = MAGIC @ ino @ hex_digits 8 (ent_mode e) @ owner @ hex_digits 8 (of_nat (length (ent_data e))) @ devs
            @ hex_digits 8 (of_nat (length (ent_name e) + 1)) @ check @ ent_name e @ nul @ pad1 @ ent_data e @ pad2"
    using assms(1) unfolding member_bytes_def by blast
  define header where "header = MAGIC @ ino @ hex_digits 8 (ent_mode e) @ owner @ hex_digits 8 (of_nat (length (ent_data e))) @ devs
            @ hex_digits 8 (of_nat (length (ent_name e) + 1)) @ check"
  have bs': "bs = header @ ent_name e @ nul @ pad1 @ ent_data e @ pad2" by (simp add: bs header_def)
  have h: "length header = HEADER_LEN" by (simp add: header_def l MAGIC_def HEADER_LEN_def)
  let ?ns = "length (ent_name e) + 1" let ?fs = "length (ent_data e)"
  define ns fs where "ns = (of_nat ?ns :: u32)" and "fs = (of_nat ?fs :: u32)"
  have sizes: "unat ns = ?ns" "unat fs = ?fs" unfolding ns_def fs_def using assms(2) by (intro unat_u32; simp add: member_ok_def)+
  have fields: "take (length MAGIC) header = MAGIC" "hex_field header OFF_MODE = Some (ent_mode e)"
    "hex_field header OFF_FILESIZE = Some fs" "hex_field header OFF_NAMESIZE = Some ns"
    by (simp_all add: hex_field_def get_range_def header_def l MAGIC_def OFF_MODE_def OFF_FILESIZE_def OFF_NAMESIZE_def
        hex_value_8 ns_def fs_def del: of_nat_add of_nat_Suc)
  let ?b = "pre @ bs @ rest"
  define d where "d = length pre + HEADER_LEN + ?ns + length pad1"
  have ds: "align_up (length pre + HEADER_LEN + unat ns) = d" unfolding sizes d_def
    using dvd_add [OF assms(3) pad(2)] pad(1) by (intro align_up_unique) (simp_all add: add.assoc)
  have g1: "get_range ?b (length pre) HEADER_LEN = Some header" by (simp add: get_range_def bs' h)
  have g2: "get_range ?b (length pre + HEADER_LEN) (unat ns) = Some (ent_name e @ nul)"
    using l(5) by (simp add: get_range_def bs' h [symmetric] sizes)
  have g3: "get_range ?b d (unat fs) = Some (ent_data e)"
    using l(5) by (simp add: get_range_def bs' h [symmetric] sizes d_def)
  obtain z where z: "nul = [z]" using l(5) by (cases nul) simp_all
  have "parse_at ?b (length pre)
     = Some \<lparr>p_name = ent_name e, p_mode = ent_mode e, p_data = ent_data e, p_namesize = unat ns, p_filesize = unat fs\<rparr>"
    using assms(2) by (simp add: parse_at_def g1 fields g2 ds g3 z Let_def member_ok_def)
  moreover have "align_up (d + unat fs) = length pre + length bs" unfolding sizes d_def
    using dvd_add [OF dvd_add [OF assms(3) pad(2)] pad(4)] pad(3) l(5) by (intro align_up_unique) (simp_all add: bs' h add.assoc)
  ultimately show ?thesis using ds by simp
qed

section \<open>Reading an archive back\<close>

lemma member_length: "member_bytes e bs \<Longrightarrow> ALIGN dvd length bs"
proof -
  assume "member_bytes e bs"
  then obtain ino owner devs check nul pad1 pad2 where
    l: "length ino = 8" "length owner = 32" "length devs = 32" "length check = 8" "length nul = 1" and
    pad: "ALIGN dvd HEADER_LEN + length (ent_name e) + 1 + length pad1" "ALIGN dvd length (ent_data e) + length pad2" and
    bs: "bs = MAGIC @ ino @ hex_digits 8 (ent_mode e) @ owner @ hex_digits 8 (of_nat (length (ent_data e))) @ devs
            @ hex_digits 8 (of_nat (length (ent_name e) + 1)) @ check @ ent_name e @ nul @ pad1 @ ent_data e @ pad2"
    unfolding member_bytes_def by blast
  have "length bs = (HEADER_LEN + length (ent_name e) + 1 + length pad1) + (length (ent_data e) + length pad2)"
    using l by (simp add: bs MAGIC_def HEADER_LEN_def)
  then show ?thesis using dvd_add [OF pad] by simp
qed

lemma next_member:
  assumes "member_bytes e bs" "member_ok e" "ALIGN dvd length pre"
  shows "next_entry (pre @ bs @ rest) (length pre)
     = (if ent_name e = TRAILER then None else Some \<lparr>ent_name = ent_name e, ent_mode = ent_mode e, ent_data = ent_data e\<rparr>,
        length (pre @ bs))"
  using parse_member [OF assms, of rest] by (auto simp: next_entry_def Let_def)

lemma entries_members:
  assumes "list_all2 member_bytes es bss" "\<forall>e\<in>set es. member_ok e \<and> ent_name e \<noteq> TRAILER"
    "member_bytes t tb" "member_ok t" "ent_name t = TRAILER" "ALIGN dvd length pre"
  shows "entries_from (pre @ concat bss @ tb @ rest) (length pre) = es"
  using assms(1,2,6)
proof (induction es bss arbitrary: pre rule: list_all2_induct)
  case Nil
  then show ?case using next_member [OF assms(3,4), of pre rest] assms(5) by (simp add: entries_from.simps)
next
  case (Cons e es bs bss)
  have "entries_from ((pre @ bs) @ concat bss @ tb @ rest) (length (pre @ bs)) = es"
    using Cons.prems member_length [OF Cons.hyps(1)] by (intro Cons.IH) simp_all
  then show ?case
    using next_member [OF Cons.hyps(1), of pre "concat bss @ tb @ rest"] Cons.prems by (simp add: entries_from.simps [of _ "length pre"])
qed

text \<open>C22. An archive written in the format reads back as the members that were written, in order and with their
  contents, whatever follows the trailer; looking a name up gives the first member of that name.\<close>

theorem archive_roundtrip:
  assumes "list_all2 member_bytes es bss" "\<forall>e\<in>set es. member_ok e \<and> ent_name e \<noteq> TRAILER"
    "member_bytes t tb" "member_ok t" "ent_name t = TRAILER"
  shows "entries (concat bss @ tb @ rest) = es \<and> find_entry (concat bss @ tb @ rest) name = find (\<lambda>e. ent_name e = name) es"
  using entries_members [OF assms, of "[]" rest] by (simp add: entries_def find_entry_def)

definition demo_entry :: cpio_entry where
  "demo_entry = \<lparr>ent_name = [0x68, 0x69], ent_mode = 0x81A4, ent_data = [0x79, 0x6F]\<rparr>"

definition demo_trailer :: cpio_entry where
  "demo_trailer = \<lparr>ent_name = TRAILER, ent_mode = 0, ent_data = []\<rparr>"

text \<open>The bytes of a member as \<^verbatim>\<open>cpio -o -H newc\<close> writes them.\<close>

definition member_write :: "cpio_entry \<Rightarrow> u8 list" where
  "member_write e = MAGIC @ replicate 8 0x30 @ hex_digits 8 (ent_mode e) @ replicate 32 0x30
     @ hex_digits 8 (of_nat (length (ent_data e))) @ replicate 32 0x30 @ hex_digits 8 (of_nat (length (ent_name e) + 1))
     @ replicate 8 0x30 @ ent_name e @ [0] @ replicate ((4 - (length (ent_name e) + 111) mod 4) mod 4) 0
     @ ent_data e @ replicate ((4 - length (ent_data e) mod 4) mod 4) 0"

lemma pad_fills: "ALIGN dvd n + (4 - n mod 4) mod 4"
proof -
  have "n mod 4 < 4" by simp
  then have "n mod 4 = 0 \<or> n mod 4 = 1 \<or> n mod 4 = 2 \<or> n mod 4 = 3" by linarith
  then have "(n mod 4 + (4 - n mod 4) mod 4) mod 4 = 0" by auto
  then show ?thesis by (simp only: ALIGN_def dvd_eq_mod_eq_0 mod_add_left_eq)
qed

lemma member_bytesI:
  "\<lbrakk>length ino = 8; length owner = 32; length devs = 32; length check = 8; length nul = 1;
    length pad1 < ALIGN; ALIGN dvd HEADER_LEN + length (ent_name e) + 1 + length pad1;
    length pad2 < ALIGN; ALIGN dvd length (ent_data e) + length pad2\<rbrakk> \<Longrightarrow>
   member_bytes e (MAGIC @ ino @ hex_digits 8 (ent_mode e) @ owner @ hex_digits 8 (of_nat (length (ent_data e))) @ devs
            @ hex_digits 8 (of_nat (length (ent_name e) + 1)) @ check @ ent_name e @ nul @ pad1 @ ent_data e @ pad2)"
  unfolding member_bytes_def by blast

lemma member_write_bytes: "member_bytes e (member_write e)"
proof -
  let ?z = "replicate 32 0x30 :: u8 list" let ?w = "replicate 8 0x30 :: u8 list"
  let ?a = "(4 - (length (ent_name e) + 111) mod 4) mod 4" let ?b = "(4 - length (ent_data e) mod 4) mod 4"
  have "ALIGN dvd HEADER_LEN + length (ent_name e) + 1 + length (replicate ?a (0 :: u8))"
    "ALIGN dvd length (ent_data e) + length (replicate ?b (0 :: u8))"
    using pad_fills [of "length (ent_name e) + 111"] pad_fills [of "length (ent_data e)"] by (simp_all add: HEADER_LEN_def add.commute)
  moreover have "length (replicate ?a (0 :: u8)) < ALIGN" "length (replicate ?b (0 :: u8)) < ALIGN" by (simp_all add: ALIGN_def)
  ultimately show ?thesis unfolding member_write_def by (intro member_bytesI) simp_all
qed

lemma demo_text: "utf8 [0x68, 0x69]" "utf8 TRAILER"
  unfolding TRAILER_def by code_simp+

lemma demo_members: "member_ok demo_entry" "ent_name demo_entry \<noteq> TRAILER" "member_ok demo_trailer" "ent_name demo_trailer = TRAILER"
proof -
  have "length TRAILER = 10" by (simp add: TRAILER_def)
  then show "member_ok demo_entry" "ent_name demo_entry \<noteq> TRAILER" "member_ok demo_trailer" "ent_name demo_trailer = TRAILER"
    using demo_text unfolding member_ok_def demo_entry_def demo_trailer_def by (auto dest: arg_cong [of _ _ length])
qed

theorem archive_roundtrip_witness:
  "entries (concat [member_write demo_entry] @ member_write demo_trailer @ [1, 2, 3]) = [demo_entry]
   \<and> find_entry (concat [member_write demo_entry] @ member_write demo_trailer @ [1, 2, 3]) [0x68, 0x69]
       = find (\<lambda>e. ent_name e = [0x68, 0x69]) [demo_entry]"
proof (rule archive_roundtrip [OF _ _ member_write_bytes demo_members(3,4)])
  show "list_all2 member_bytes [demo_entry] [member_write demo_entry]" using member_write_bytes by simp
  show "\<forall>e\<in>set [demo_entry]. member_ok e \<and> ent_name e \<noteq> TRAILER" using demo_members by simp
qed

lemma next_entry_parsed:
  "next_entry blob pos = (Some e, pos') \<Longrightarrow>
     \<exists>p. parse_at blob pos = Some p \<and> ent_name e = p_name p \<and> ent_data e = p_data p \<and> p_name p \<noteq> TRAILER"
  by (auto simp: next_entry_def Let_def split: option.splits if_splits)

lemma entries_parsed:
  "e \<in> set (entries_from blob pos) \<Longrightarrow>
     \<exists>q p. parse_at blob q = Some p \<and> ent_name e = p_name p \<and> ent_data e = p_data p \<and> p_name p \<noteq> TRAILER"
proof (induction blob pos rule: entries_from.induct)
  case (1 blob pos)
  obtain x pos' where n: "next_entry blob pos = (x, pos')" by (cases "next_entry blob pos")
  show ?case
  proof (cases x)
    case None
    then show ?thesis using 1(2) n by (simp add: entries_from.simps)
  next
    case (Some y)
    then have "e = y \<or> e \<in> set (entries_from blob pos')" using 1(2) n by (subst (asm) entries_from.simps) simp
    then show ?thesis using next_entry_parsed [of blob pos y pos'] 1(1) [OF n [symmetric] Some] n Some by metis
  qed
qed

text \<open>On any bytes whatever, every entry the reader yields has a name that is text and is not the trailer, and name and
  contents are slices of the archive: nothing is read from outside it.\<close>

theorem entries_within:
  assumes "e \<in> set (entries blob)"
  shows "utf8 (ent_name e) \<and> ent_name e \<noteq> TRAILER
     \<and> (\<exists>a. a + length (ent_name e) \<le> length blob \<and> ent_name e = take (length (ent_name e)) (drop a blob))
     \<and> (\<exists>a. a + length (ent_data e) \<le> length blob \<and> ent_data e = take (length (ent_data e)) (drop a blob))"
proof -
  obtain q p where p: "parse_at blob q = Some p" "ent_name e = p_name p" "ent_data e = p_data p" "p_name p \<noteq> TRAILER"
    using entries_parsed assms unfolding entries_def by blast
  note b = parse_at_bounds [OF p(1)]
  have "length (p_name p) = p_namesize p - 1" "length (p_data p) = p_filesize p" using b by simp_all
  then show ?thesis using b p
    by (intro conjI exI [of _ "q + HEADER_LEN"] exI [of _ "align_up (q + HEADER_LEN + p_namesize p)"]) simp_all
qed

theorem entries_within_witness:
  "utf8 (ent_name demo_entry) \<and> (\<exists>blob. demo_entry \<in> set (entries blob) \<and>
     (\<exists>a. a + length (ent_data demo_entry) \<le> length blob \<and> ent_data demo_entry = take (length (ent_data demo_entry)) (drop a blob)))"
proof -
  let ?b = "concat [member_write demo_entry] @ member_write demo_trailer @ []"
  have "entries_from ([] @ ?b) (length ([] :: u8 list)) = [demo_entry]"
    using member_write_bytes demo_members by (intro entries_members) simp_all
  then have "demo_entry \<in> set (entries ?b)" unfolding entries_def by simp
  then show ?thesis using entries_within by blast
qed

end
