(* ===== verification/Fssrv.thy ===== *)
theory Fssrv
  imports Cpio Abi
begin

text \<open>
  \<^verbatim>\<open>services/fssrv/main.rs\<close> with the protocol numbers of \<^verbatim>\<open>crates/abi/src/fsproto.rs\<close>: the process that owns the
  archive and answers open, stat, read, close and list requests over IPC. The kernel's answers to the two
  calls a request makes (\<^verbatim>\<open>SharedPages\<close>, \<^verbatim>\<open>MapShared\<close>) and the bytes of the client's buffer come with the request;
  a release build's \<^verbatim>\<open>usize\<close> product wraps.
\<close>

section \<open>The protocol\<close>

definition TAG_OPEN :: u64 where "TAG_OPEN = 1"
definition TAG_READ :: u64 where "TAG_READ = 2"
definition TAG_STAT :: u64 where "TAG_STAT = 3"
definition TAG_CLOSE :: u64 where "TAG_CLOSE = 4"
definition TAG_LIST :: u64 where "TAG_LIST = 5"
definition TAG_BYE :: u64 where "TAG_BYE = 9"
definition TAG_ERROR :: u64 where "TAG_ERROR = 0"
definition ERR_NO_FILE :: u64 where "ERR_NO_FILE = 1"
definition ERR_BAD_HANDLE :: u64 where "ERR_BAD_HANDLE = 2"
definition ERR_MALFORMED :: u64 where "ERR_MALFORMED = 3"
definition MAX_PATH :: nat where "MAX_PATH = 128"

definition MAX_OPEN :: nat where "MAX_OPEN = 8"
definition MAX_REQUESTS :: nat where "MAX_REQUESTS = 2048"
definition MAX_REJECTED :: nat where "MAX_REJECTED = 8"
definition PAGE :: u64 where "PAGE = 4096"

lemmas fs_tags = TAG_OPEN_def TAG_READ_def TAG_STAT_def TAG_CLOSE_def TAG_LIST_def TAG_BYE_def TAG_ERROR_def
lemmas fs_errors = ERR_NO_FILE_def ERR_BAD_HANDLE_def ERR_MALFORMED_def

section \<open>The open-file table\<close>

record open_file =
  of_entry :: cpio_entry
  of_generation :: u32

record file_table =
  slots :: "open_file option list"
  next_generation :: u32

definition table_new :: file_table where
  "table_new = \<lparr>slots = replicate MAX_OPEN None, next_generation = 1\<rparr>"

definition table_insert :: "cpio_entry \<Rightarrow> file_table \<Rightarrow> u64 option \<times> file_table" where
  "table_insert e t =
     (case position (\<lambda>s. s = None) (slots t) of
        None \<Rightarrow> (None, t)
      | Some slot \<Rightarrow>
          let generation = next_generation t in
          (Some (push_bit 8 (ucast generation) OR (of_nat slot + 1)),
           t\<lparr>next_generation := max (generation + 1) 1,
             slots := (slots t)[slot := Some \<lparr>of_entry = e, of_generation = generation\<rparr>]\<rparr>))"

definition table_get :: "file_table \<Rightarrow> u64 \<Rightarrow> cpio_entry option" where
  "table_get t h =
     (if h AND 0xFF = 0 then None
      else case get (slots t) (unat ((h AND 0xFF) - 1)) of
             Some (Some f) \<Rightarrow> (if ucast (of_generation f) = drop_bit 8 h then Some (of_entry f) else None)
           | _ \<Rightarrow> None)"

definition table_remove :: "u64 \<Rightarrow> file_table \<Rightarrow> bool \<times> file_table" where
  "table_remove h t =
     (if table_get t h = None then (False, t)
      else (True, t\<lparr>slots := (slots t)[unat (h AND 0xFF) - 1 := None]\<rparr>))"

section \<open>A client's buffer\<close>

text \<open>What the kernel answers for a handle, signed: negative values are errors.\<close>

record fs_kernel =
  shared_pages :: "u32 \<Rightarrow> u64"
  map_shared :: "u32 \<Rightarrow> u64"

record client_buffer =
  buf_base :: u64
  buf_len :: nat

definition buffer_map :: "fs_kernel \<Rightarrow> u32 \<Rightarrow> client_buffer option" where
  "buffer_map k cap =
     (if cap = 0 then None
      else let pages = shared_pages k cap; va = map_shared k cap in
        if sint pages \<le> 0 \<or> sint va < 0 then None
        else Some \<lparr>buf_base = va, buf_len = unat (pages * PAGE)\<rparr>)"

type_synonym user_memory = "u64 \<Rightarrow> u8"

definition read_bytes :: "user_memory \<Rightarrow> u64 \<Rightarrow> nat \<Rightarrow> u8 list" where
  "read_bytes m at n = map (\<lambda>i. m (at + of_nat i)) [0..<n]"

definition buffer_path :: "user_memory \<Rightarrow> client_buffer \<Rightarrow> nat \<Rightarrow> u8 list option" where
  "buffer_path m b n =
     (if n = 0 \<or> MAX_PATH < n \<or> buf_len b < n then None
      else let bs = read_bytes m (buf_base b) n in if utf8 bs then Some bs else None)"

fun write_bytes :: "u8 list \<Rightarrow> u64 \<Rightarrow> user_memory \<Rightarrow> user_memory" where
  "write_bytes [] at m = m"
| "write_bytes (b # bs) at m = write_bytes bs (at + 1) (m(at := b))"

section \<open>One request\<close>

definition fs_error :: "u64 \<Rightarrow> message" where
  "fs_error code = (message_new TAG_ERROR)\<lparr>words := (words (message_new TAG_ERROR))[0 := code]\<rparr>"

definition fs_reply :: "u64 \<Rightarrow> u64 list \<Rightarrow> message" where
  "fs_reply t ws = (message_new t)\<lparr>words := ws @ replicate (MESSAGE_WORDS - length ws) 0\<rparr>"

record fs_state =
  fs_table :: file_table
  bytes_out :: u64
  fs_memory :: user_memory

definition serve_open :: "u8 list \<Rightarrow> fs_kernel \<Rightarrow> message \<Rightarrow> fs_state \<Rightarrow> message \<times> fs_state" where
  "serve_open blob k m s =
     (case buffer_map k (cap_handle m) of None \<Rightarrow> (fs_error ERR_MALFORMED, s) | Some b \<Rightarrow>
      case buffer_path (fs_memory s) b (unat (words m ! 0)) of None \<Rightarrow> (fs_error ERR_MALFORMED, s) | Some path \<Rightarrow>
      case find_entry blob path of None \<Rightarrow> (fs_error ERR_NO_FILE, s) | Some e \<Rightarrow>
      if \<not> is_file e then (fs_error ERR_NO_FILE, s)
      else if tag m = TAG_STAT then (fs_reply (tag m) [of_nat (length (ent_data e)), ucast (ent_mode e)], s)
      else case table_insert e (fs_table s) of
             (Some h, t) \<Rightarrow> (fs_reply (tag m) [h, of_nat (length (ent_data e))], s\<lparr>fs_table := t\<rparr>)
           | (None, t) \<Rightarrow> (fs_error ERR_BAD_HANDLE, s))"

definition serve_read :: "fs_kernel \<Rightarrow> message \<Rightarrow> fs_state \<Rightarrow> message \<times> fs_state" where
  "serve_read k m s =
     (case table_get (fs_table s) (words m ! 0) of None \<Rightarrow> (fs_error ERR_BAD_HANDLE, s) | Some e \<Rightarrow>
      case buffer_map k (cap_handle m) of None \<Rightarrow> (fs_error ERR_MALFORMED, s) | Some b \<Rightarrow>
      let offset = unat (min (words m ! 1) (of_nat (length (ent_data e))));
          available = length (ent_data e) - offset;
          len = min (min (unat (words m ! 2)) available) (buf_len b)
      in (fs_reply TAG_READ [of_nat len, of_nat (available - len)],
          s\<lparr>fs_memory := write_bytes (take len (drop offset (ent_data e))) (buf_base b) (fs_memory s),
            bytes_out := bytes_out s + of_nat len\<rparr>))"

definition serve_close :: "message \<Rightarrow> fs_state \<Rightarrow> message \<times> fs_state" where
  "serve_close m s =
     (case table_remove (words m ! 0) (fs_table s) of
        (False, _) \<Rightarrow> (fs_error ERR_BAD_HANDLE, s)
      | (True, t) \<Rightarrow> (fs_reply TAG_CLOSE [], s\<lparr>fs_table := t\<rparr>))"

definition serve_list :: "u8 list \<Rightarrow> fs_kernel \<Rightarrow> message \<Rightarrow> fs_state \<Rightarrow> message \<times> fs_state" where
  "serve_list blob k m s =
     (case buffer_map k (cap_handle m) of None \<Rightarrow> (fs_error ERR_MALFORMED, s) | Some b \<Rightarrow>
      case get (entries blob) (unat (words m ! 0)) of None \<Rightarrow> (fs_error ERR_NO_FILE, s) | Some e \<Rightarrow>
      let name = ent_name e; len = min (min (length name) MAX_PATH) (buf_len b)
      in (fs_reply TAG_LIST [of_nat len, of_nat (length (ent_data e)), ucast (ent_mode e)],
          s\<lparr>fs_memory := write_bytes (take len name) (buf_base b) (fs_memory s)\<rparr>))"

definition serve :: "u8 list \<Rightarrow> fs_kernel \<Rightarrow> message \<Rightarrow> fs_state \<Rightarrow> message \<times> fs_state" where
  "serve blob k m s =
     (if tag m = TAG_OPEN \<or> tag m = TAG_STAT then serve_open blob k m s
      else if tag m = TAG_READ then serve_read k m s
      else if tag m = TAG_CLOSE then serve_close m s
      else if tag m = TAG_LIST then serve_list blob k m s
      else (fs_error ERR_MALFORMED, s))"

section \<open>The server\<close>

text \<open>
  What the world does for one turn of the loop: the receive fails, or delivers a message with the bytes the
  server's mappings then hold and the kernel's answers; and the reply is taken or not.
\<close>

record fs_turn =
  received :: "message option"
  turn_kernel :: fs_kernel
  turn_memory :: user_memory
  reply_taken :: bool

record fs_server =
  sv_table :: file_table
  sv_bytes :: u64
  sv_served :: nat
  sv_refused :: nat
  sv_rejected :: nat

text \<open>One turn: the reply, if one was owed, and the server left behind; \<open>False\<close> ends the loop.\<close>

definition fs_turn_step :: "u8 list \<Rightarrow> fs_turn \<Rightarrow> fs_server \<Rightarrow> (message \<times> message) option \<times> bool \<times> fs_server" where
  "fs_turn_step blob w v =
     (case received w of
        None \<Rightarrow> (None, False, v)
      | Some m \<Rightarrow>
          if tag m = TAG_BYE then (None, False, v)
          else let (reply, s) = serve blob (turn_kernel w) m \<lparr>fs_table = sv_table v, bytes_out = sv_bytes v, fs_memory = turn_memory w\<rparr>;
                   err = (tag reply = TAG_ERROR)
               in (Some (m, reply), reply_taken w,
                   \<lparr>sv_table = fs_table s, sv_bytes = bytes_out s, sv_served = sv_served v + 1,
                    sv_refused = sv_refused v + of_bool err,
                    sv_rejected = sv_rejected v + of_bool (err \<and> words reply ! 0 = ERR_MALFORMED)\<rparr>))"

lemma turn_counts: "fs_turn_step blob w v = (Some x, go, v') \<Longrightarrow> sv_served v' = Suc (sv_served v)"
  by (auto simp: fs_turn_step_def Let_def split: option.splits if_splits prod.splits)

function fs_loop :: "u8 list \<Rightarrow> (nat \<Rightarrow> fs_turn) \<Rightarrow> fs_server \<Rightarrow> (message \<times> message) list \<times> fs_server" where
  "fs_loop blob w v =
     (if sv_served v < MAX_REQUESTS \<and> sv_rejected v < MAX_REJECTED
      then case fs_turn_step blob (w (sv_served v)) v of
             (None, _, v') \<Rightarrow> ([], v')
           | (Some x, go, v') \<Rightarrow> (if go then let (xs, v'') = fs_loop blob w v' in (x # xs, v'') else ([x], v'))
      else ([], v))"
  by pat_completeness auto

termination
  by (relation "measure (\<lambda>(blob, w, v). MAX_REQUESTS - sv_served v)") (auto dest!: turn_counts [OF sym])

declare fs_loop.simps [simp del]

definition fs_boot :: fs_server where
  "fs_boot = \<lparr>sv_table = table_new, sv_bytes = 0, sv_served = 0, sv_refused = 0, sv_rejected = 0\<rparr>"

section \<open>Its reports\<close>

definition LINE_LEN :: nat where "LINE_LEN = 192"

record text_line =
  ln_buf :: "u8 list"
  ln_n :: nat

definition line_new :: text_line where
  "line_new = \<lparr>ln_buf = replicate LINE_LEN 0, ln_n = 0\<rparr>"

fun line_put :: "u8 list \<Rightarrow> text_line \<Rightarrow> text_line" where
  "line_put [] l = l"
| "line_put (b # bs) l =
     line_put bs (if ln_n l < length (ln_buf l) then l\<lparr>ln_buf := (ln_buf l)[ln_n l := b], ln_n := ln_n l + 1\<rparr> else l)"

text \<open>The loop over the digits, least first.\<close>

fun line_digits :: "nat \<Rightarrow> u8 list" where
  "line_digits left = (0x30 + of_nat (left mod 10)) # (if left div 10 = 0 then [] else line_digits (left div 10))"

declare line_digits.simps [simp del]

fun line_fill :: "nat \<Rightarrow> u8 list \<Rightarrow> text_line \<Rightarrow> text_line" where
  "line_fill at [] l = l"
| "line_fill at (d # ds) l = line_fill (at + 1) ds (l\<lparr>ln_buf := (ln_buf l)[at := d]\<rparr>)"

definition line_num :: "u64 \<Rightarrow> text_line \<Rightarrow> text_line" where
  "line_num value l =
     (let digits = line_digits (unat value); count = length digits in
      if length (ln_buf l) - ln_n l < count then l
      else (line_fill (ln_n l) (rev digits) l)\<lparr>ln_n := ln_n l + count\<rparr>)"

definition line_flush :: "text_line \<Rightarrow> u8 list \<times> text_line" where
  "line_flush l = (take (ln_n l) (ln_buf l), l\<lparr>ln_n := 0\<rparr>)"

end
