(* ===== verification/FssrvProps.thy ===== *)
theory FssrvProps
  imports Fssrv CpioProps
begin

unbundle bit_operations_syntax

text \<open>
  The file server's guarantees: its table is a map from handles to files whose handles are never used twice,
  a read copies exactly the bytes of the file, and a run of the server answers every message it accepts.
\<close>

section \<open>Handles\<close>

definition handle_of :: "u32 \<Rightarrow> nat \<Rightarrow> u64" where
  "handle_of g slot = push_bit 8 (ucast g) OR (of_nat slot + 1)"

lemma handle_parts:
  assumes "slot < 8"
  shows "handle_of g slot AND 0xFF = of_nat (slot + 1)" "drop_bit 8 (handle_of g slot) = ucast g"
proof -
  have s: "of_nat slot + 1 = (of_nat (slot + 1) :: u64)" by simp
  have "slot = 0 \<or> slot = 1 \<or> slot = 2 \<or> slot = 3 \<or> slot = 4 \<or> slot = 5 \<or> slot = 6 \<or> slot = 7" using assms by linarith
  then have t: "take_bit 8 (of_nat (slot + 1) :: u64) = of_nat (slot + 1)" by (elim disjE) simp_all
  have m: "(0xFF :: u64) = mask 8" by (simp add: mask_eq_exp_minus_1)
  show "handle_of g slot AND 0xFF = of_nat (slot + 1)"
    unfolding handle_of_def s m take_bit_eq_mask [symmetric] using t by (simp add: take_bit_or take_bit_push_bit)
  have "drop_bit 8 (of_nat (slot + 1) :: u64) = 0"
    using drop_bit_take_bit [of 8 8 "of_nat (slot + 1) :: u64"] t by simp
  moreover have "drop_bit 8 (push_bit 8 (ucast g :: u64)) = ucast g"
    by (rule bit_word_eqI) (auto simp: bit_simps dest: bit_imp_le_length)
  ultimately show "drop_bit 8 (handle_of g slot) = ucast g"
    unfolding handle_of_def s by simp
qed


definition gen_of :: "u64 \<Rightarrow> nat" where
  "gen_of h = unat (drop_bit 8 h)"

text \<open>Eight slots, every open file of a generation already given out, at most \<open>n\<close> of them.\<close>

definition table_ok :: "nat \<Rightarrow> file_table \<Rightarrow> bool" where
  "table_ok n t \<longleftrightarrow> length (slots t) = MAX_OPEN \<and> 0 < unat (next_generation t) \<and> unat (next_generation t) \<le> n + 1 \<and>
     (\<forall>f. Some f \<in> set (slots t) \<longrightarrow> of_generation f < next_generation t)"

lemma table_new_ok: "table_ok 0 table_new"
  by (auto simp: table_ok_def table_new_def MAX_OPEN_def)

lemma unat_slot: "slot < 8 \<Longrightarrow> unat (of_nat (slot + 1) :: u64) = slot + 1" "slot < 8 \<Longrightarrow> unat (of_nat slot :: u64) = slot"
  by (simp_all only: unsigned_of_nat of_nat_id) (rule take_bit_nat_eq_self, simp)+

text \<open>Looking a handle up: its slot, less one, and its generation.\<close>

lemma table_get_iff:
  "table_get t h = Some e \<longleftrightarrow>
     (\<exists>slot f. unat (h AND 0xFF) = slot + 1 \<and> slot < length (slots t) \<and> slots t ! slot = Some f \<and>
        ucast (of_generation f) = drop_bit 8 h \<and> of_entry f = e)"
proof (cases "h AND 0xFF = 0")
  case True
  then show ?thesis by (simp add: table_get_def)
next
  case False
  then have "unat ((h AND 0xFF) - 1) = unat (h AND 0xFF) - 1" by (simp add: unat_minus_one)
  moreover obtain s where "unat (h AND 0xFF) = Suc s" using False by (metis not0_implies_Suc unat_eq_zero)
  ultimately show ?thesis using False by (auto simp: table_get_def get_def split: option.splits)
qed

lemma table_insert_cases:
  assumes "table_insert e t = (Some h, t')"
  obtains slot where "slot < length (slots t)" "slots t ! slot = None" "h = handle_of (next_generation t) slot"
    "t' = t\<lparr>next_generation := max (next_generation t + 1) 1,
            slots := (slots t)[slot := Some \<lparr>of_entry = e, of_generation = next_generation t\<rparr>]\<rparr>"
  using assms by (auto simp: table_insert_def Let_def handle_of_def position_Some_iff split: option.splits)


lemma next_generation_max:
  assumes "unat (g :: u32) + 1 < 2 ^ 32"
  shows "unat (max (g + 1) 1) = unat g + 1"
proof -
  have u: "unat (g + 1) = unat g + 1" using assms by (subst unat_plus_exact) simp_all
  then have "1 \<le> g + 1" by (simp add: word_le_nat_alt)
  then show ?thesis using u by (simp add: max_def)
qed

lemma unat_ucast_u32: "unat (ucast (g :: u32) :: u64) = unat g"
  by (simp add: unsigned_ucast_eq take_bit_nat_eq_self less_le_trans [OF unsigned_less])

lemma option_eqI: "(\<And>x. a = Some x \<longleftrightarrow> b = Some x) \<Longrightarrow> a = b"
  by (cases a; cases b) auto

lemma table_get_generation:
  assumes "table_ok n t" "table_get t h = Some e"
  shows "gen_of h < unat (next_generation t)"
proof -
  obtain slot f where sf: "slot < length (slots t)" "slots t ! slot = Some f" "ucast (of_generation f) = drop_bit 8 h"
    using assms(2) by (auto simp: table_get_iff)
  then have "Some f \<in> set (slots t)" by (metis nth_mem)
  then have "of_generation f < next_generation t" using assms(1) by (simp add: table_ok_def)
  moreover have "gen_of h = unat (of_generation f)" unfolding gen_of_def sf(3) [symmetric] by (rule unat_ucast_u32)
  ultimately show ?thesis by (simp add: word_less_nat_alt)
qed

lemma handle_split: "x = push_bit 8 (drop_bit 8 x) OR (x AND 0xFF)" for x :: u64
proof -
  have "x AND 0xFF = take_bit 8 x" by (simp add: take_bit_eq_mask mask_eq_exp_minus_1)
  moreover have "x = push_bit 8 (drop_bit 8 x) OR take_bit 8 x" by (rule bit_word_eqI) (auto simp: bit_simps)
  ultimately show ?thesis by simp
qed

text \<open>The table is a map: inserting adds a handle never given out before, removing takes one away.\<close>

lemma table_insert_map:
  assumes ok: "table_ok n t" and n: "n + 2 < 2 ^ 32" and i: "table_insert e t = (Some h, t')"
  shows "table_ok (n + 1) t'" "table_get t' = (table_get t)(h \<mapsto> e)" "gen_of h = unat (next_generation t)"
    "unat (next_generation t') = unat (next_generation t) + 1"
proof -
  obtain slot where sl: "slot < length (slots t)" "slots t ! slot = None" "h = handle_of (next_generation t) slot"
    and t': "t' = t\<lparr>next_generation := max (next_generation t + 1) 1,
            slots := (slots t)[slot := Some \<lparr>of_entry = e, of_generation = next_generation t\<rparr>]\<rparr>"
    using i by (rule table_insert_cases)
  have len: "length (slots t) = 8" using ok by (simp add: table_ok_def MAX_OPEN_def)
  have s8: "slot < 8" using sl len by simp
  have h: "unat (h AND 0xFF) = slot + 1" "drop_bit 8 h = ucast (next_generation t)"
    using handle_parts [OF s8, of "next_generation t"] unat_slot(1) [OF s8] sl(3) by simp_all
  show ng: "unat (next_generation t') = unat (next_generation t) + 1"
    using ok n unfolding t' table_ok_def by (simp add: next_generation_max)
  show "gen_of h = unat (next_generation t)" using h by (simp add: gen_of_def unat_ucast_u32)
  have "\<forall>f. Some f \<in> set (slots t') \<longrightarrow> of_generation f < next_generation t'"
  proof (intro allI impI)
    fix f assume "Some f \<in> set (slots t')"
    then have "Some f \<in> set (slots t) \<or> of_generation f = next_generation t"
      using set_update_subset_insert [of "slots t" slot "Some \<lparr>of_entry = e, of_generation = next_generation t\<rparr>"] by (auto simp: t')
    then show "of_generation f < next_generation t'" using ok ng by (auto simp: table_ok_def word_less_nat_alt)
  qed
  then show "table_ok (n + 1) t'" using ok ng by (simp add: table_ok_def t')
  show "table_get t' = (table_get t)(h \<mapsto> e)"
  proof (rule ext)
    fix h'
    consider "h' = h" | "h' \<noteq> h" "unat (h' AND 0xFF) = slot + 1" | "unat (h' AND 0xFF) \<noteq> slot + 1" by blast
    then show "table_get t' h' = ((table_get t)(h \<mapsto> e)) h'"
    proof cases
      case 1
      then have "table_get t' h' = Some e" unfolding table_get_iff
        using h s8 len by (intro exI [of _ slot] exI [of _ "\<lparr>of_entry = e, of_generation = next_generation t\<rparr>"]) (simp add: t')
      then show ?thesis using 1 by simp
    next
      case 2
      have "drop_bit 8 h' \<noteq> drop_bit 8 h"
      proof
        assume d: "drop_bit 8 h' = drop_bit 8 h"
        have "h' AND 0xFF = h AND 0xFF" using 2 h by (simp add: word_unat_eq_iff)
        then show False using 2(1) d handle_split by metis
      qed
      then have "table_get t' h' = None" "table_get t h' = None"
        using 2 h sl s8 len by (auto simp: t' table_get_iff simp flip: not_Some_eq)
      then show ?thesis using 2 by simp
    next
      case 3
      then have "table_get t' h' = table_get t h'"
        by (intro option_eqI) (auto simp: t' table_get_iff)
      moreover have "h' \<noteq> h" using 3 h by auto
      ultimately show ?thesis by simp
    qed
  qed
qed


lemma table_remove_map:
  assumes ok: "table_ok n t" and r: "table_remove h t = (True, t')"
  shows "table_ok n t'" "table_get t' = (table_get t)(h := None)" "next_generation t' = next_generation t" "table_get t h \<noteq> None"
proof -
  show some: "table_get t h \<noteq> None" using r by (simp add: table_remove_def split: if_splits)
  then have t': "t' = t\<lparr>slots := (slots t)[unat (h AND 0xFF) - 1 := None]\<rparr>" using r by (auto simp: table_remove_def)
  show "next_generation t' = next_generation t" by (simp add: t')
  have "Some f \<in> set (slots t') \<Longrightarrow> Some f \<in> set (slots t)" for f
    using set_update_subset_insert [of "slots t" "unat (h AND 0xFF) - 1" None] by (auto simp: t')
  then show "table_ok n t'" using ok by (auto simp: table_ok_def t')
  obtain slot f where hs: "unat (h AND 0xFF) = slot + 1" "slots t ! slot = Some f" "ucast (of_generation f) = drop_bit 8 h"
    "slot < length (slots t)"
    using some by (auto simp: table_get_iff)
  show "table_get t' = (table_get t)(h := None)"
  proof (rule ext, rule option_eqI)
    fix h' e
    show "table_get t' h' = Some e \<longleftrightarrow> ((table_get t)(h := None)) h' = Some e"
    proof (cases "unat (h' AND 0xFF) = slot + 1")
      case True
      show ?thesis
      proof (cases "h' = h")
        case True
        then show ?thesis using hs by (simp add: t' table_get_iff)
      next
        case False
        have "drop_bit 8 h' \<noteq> drop_bit 8 h"
        proof
          assume d: "drop_bit 8 h' = drop_bit 8 h"
          have "h' AND 0xFF = h AND 0xFF" using True hs by (simp add: word_unat_eq_iff)
          then show False using False d handle_split by metis
        qed
        then have "table_get t' h' = None" "table_get t h' = None"
          using True hs by (auto simp: t' table_get_iff simp flip: not_Some_eq)
        then show ?thesis using False by simp
      qed
    next
      case False
      then have "h' \<noteq> h" using hs by auto
      then show ?thesis using False hs by (auto simp: t' table_get_iff)
    qed
  qed
qed

section \<open>Closed handles\<close>

text \<open>A handle that was given out and names nothing any more.\<close>

definition dead :: "u64 \<Rightarrow> nat \<Rightarrow> file_table \<Rightarrow> bool" where
  "dead h n t \<longleftrightarrow> table_ok n t \<and> gen_of h < unat (next_generation t) \<and> table_get t h = None"

lemma insert_None: "table_insert e t = (None, t') \<Longrightarrow> t' = t"
  by (simp add: table_insert_def Let_def split: option.splits)

lemma insert_table_ok:
  assumes "table_ok n t" "n + 2 < 2 ^ 32"
  shows "table_ok (n + 1) (snd (table_insert e t))"
proof (cases "table_insert e t")
  case (Pair r t')
  show ?thesis
  proof (cases r)
    case None
    then show ?thesis using Pair assms insert_None by (fastforce simp: table_ok_def)
  next
    case (Some h)
    then show ?thesis using Pair assms table_insert_map(1) by simp
  qed
qed

lemma insert_dead:
  assumes "dead h n t" "n + 2 < 2 ^ 32"
  shows "dead h (n + 1) (snd (table_insert e t))"
proof (cases "table_insert e t")
  case (Pair r t')
  have ok: "table_ok (n + 1) t'" using insert_table_ok assms Pair unfolding dead_def by (metis snd_conv)
  show ?thesis
  proof (cases r)
    case None
    then show ?thesis using Pair assms ok insert_None by (auto simp: dead_def)
  next
    case (Some h')
    then have i: "table_insert e t = (Some h', t')" using Pair by simp
    have ok0: "table_ok n t" using assms by (simp add: dead_def)
    note m = table_insert_map [OF ok0 assms(2) i]
    have "h \<noteq> h'" using m(3) assms by (auto simp: dead_def)
    then show ?thesis using m assms Pair ok by (simp add: dead_def)
  qed
qed

lemma remove_keeps:
  assumes "table_ok n t"
  shows "table_ok n (snd (table_remove h t))" "dead h' n t \<Longrightarrow> dead h' n (snd (table_remove h t))"
proof -
  obtain b t' where r: "table_remove h t = (b, t')" by fastforce
  have f: "\<not> b \<Longrightarrow> t' = t" using r by (auto simp: table_remove_def split: if_splits)
  show "table_ok n (snd (table_remove h t))"
    using assms r f table_remove_map(1) [OF assms] by (cases b) auto
  show "dead h' n t \<Longrightarrow> dead h' n (snd (table_remove h t))"
    using r f table_remove_map [OF assms, of h t'] by (cases b) (auto simp: dead_def)
qed


section \<open>One request\<close>

lemma serve_table_cases:
  obtains "fs_table (snd (serve blob k m s)) = fs_table s"
  | e where "tag m = TAG_OPEN" "fs_table (snd (serve blob k m s)) = snd (table_insert e (fs_table s))"
  | "tag m = TAG_CLOSE" "fs_table (snd (serve blob k m s)) = snd (table_remove (words m ! 0) (fs_table s))"
proof -
  have o: "fs_table (snd (serve_open blob k m s)) = fs_table s \<or>
      tag m \<noteq> TAG_STAT \<and> (\<exists>e. fs_table (snd (serve_open blob k m s)) = snd (table_insert e (fs_table s)))"
    by (auto simp: serve_open_def split: option.splits prod.splits) (metis snd_conv)
  have r: "fs_table (snd (serve_read k m s)) = fs_table s" "fs_table (snd (serve_list blob k m s)) = fs_table s"
    by (simp_all add: serve_read_def serve_list_def Let_def split: option.splits)
  have c: "fs_table (snd (serve_close m s)) = fs_table s \<or>
      fs_table (snd (serve_close m s)) = snd (table_remove (words m ! 0) (fs_table s))"
    by (simp add: serve_close_def split: prod.splits bool.splits)
  show ?thesis
  proof (cases "tag m = TAG_OPEN \<or> tag m = TAG_STAT")
    case True
    then show ?thesis using o that(1,2) by (auto simp: serve_def)
  next
    case False
    have "serve blob k m s = serve_read k m s \<or> tag m = TAG_CLOSE \<and> serve blob k m s = serve_close m s \<or>
        serve blob k m s = serve_list blob k m s \<or> serve blob k m s = (fs_error ERR_MALFORMED, s)"
      using False by (simp add: serve_def)
    then show ?thesis using r c that(1,3) by (metis snd_conv)
  qed
qed

lemma table_ok_mono: "table_ok n t \<Longrightarrow> n \<le> n' \<Longrightarrow> table_ok n' t"
  by (simp add: table_ok_def)

lemma dead_mono: "dead h n t \<Longrightarrow> n \<le> n' \<Longrightarrow> dead h n' t"
  by (auto simp: dead_def table_ok_mono)

lemma serve_table_ok:
  assumes "table_ok n (fs_table s)" "n + 2 < 2 ^ 32"
  shows "table_ok (n + 1) (fs_table (snd (serve blob k m s)))"
proof (cases rule: serve_table_cases [of blob k m s])
  case 1
  then show ?thesis using assms table_ok_mono by simp
next
  case (2 e)
  then show ?thesis using insert_table_ok [OF assms] by simp
next
  case 3
  then show ?thesis using table_ok_mono [OF remove_keeps(1) [OF assms(1)]] by simp
qed

lemma serve_dead:
  assumes d: "dead h n (fs_table s)" and n: "n + 2 < 2 ^ 32"
  shows "dead h (n + 1) (fs_table (snd (serve blob k m s)))"
proof -
  have ok: "table_ok n (fs_table s)" using d by (simp add: dead_def)
  show ?thesis
  proof (cases rule: serve_table_cases [of blob k m s])
    case 1
    then show ?thesis using dead_mono [OF d] by simp
  next
    case (2 e)
    then show ?thesis using insert_dead [OF d n] by simp
  next
    case 3
    then show ?thesis using dead_mono [OF remove_keeps(2) [OF ok d]] by simp
  qed
qed

lemma fs_error_words [simp]: "tag (fs_error c) = 0" "words (fs_error c) ! 0 = c"
  by (simp_all add: fs_error_def message_new_def MESSAGE_WORDS_def TAG_ERROR_def)

lemma fs_reply_tag [simp]: "tag (fs_reply t ws) = t" "ws \<noteq> [] \<Longrightarrow> words (fs_reply t ws) ! 0 = hd ws"
  by (simp_all add: fs_reply_def message_new_def nth_append hd_conv_nth)

text \<open>A dead handle is refused, and a close that succeeded leaves its handle dead.\<close>

lemma serve_dead_handle:
  assumes "dead (words m ! 0) n (fs_table s)" "tag m = TAG_READ \<or> tag m = TAG_CLOSE"
  shows "fst (serve blob k m s) = fs_error ERR_BAD_HANDLE"
proof -
  have "table_get (fs_table s) (words m ! 0) = None" using assms by (simp add: dead_def)
  then show ?thesis using assms(2)
    by (auto simp: serve_def fs_tags serve_read_def serve_close_def table_remove_def)
qed

lemma serve_close_dead:
  assumes "table_ok n (fs_table s)" "tag m = TAG_CLOSE" "tag (fst (serve blob k m s)) = TAG_CLOSE"
  shows "dead (words m ! 0) n (fs_table (snd (serve blob k m s)))"
proof -
  obtain b t' where r: "table_remove (words m ! 0) (fs_table s) = (b, t')" by fastforce
  have b: "b" using assms(2,3) r by (cases b) (simp_all add: serve_def fs_tags serve_close_def)
  note k = table_remove_map [OF assms(1), of "words m ! 0" t']
  have rm: "table_remove (words m ! 0) (fs_table s) = (True, t')" using r b by simp
  have "fs_table (snd (serve blob k m s)) = t'" using assms(2) rm by (simp add: serve_def fs_tags serve_close_def)
  moreover obtain e where "table_get (fs_table s) (words m ! 0) = Some e" using k(4) [OF rm] by auto
  then have "gen_of (words m ! 0) < unat (next_generation (fs_table s))" by (rule table_get_generation [OF assms(1)])
  ultimately show ?thesis using k(1-3) [OF rm] by (simp add: dead_def)
qed

text \<open>An open handle keeps naming its file until it is closed.\<close>

lemma serve_live:
  assumes ok: "table_ok n (fs_table s)" and n: "n + 2 < 2 ^ 32" and g: "table_get (fs_table s) h = Some e"
    and c: "\<not> (tag m = TAG_CLOSE \<and> words m ! 0 = h)"
  shows "table_get (fs_table (snd (serve blob k m s))) h = Some e"
proof (cases rule: serve_table_cases [of blob k m s])
  case 1
  then show ?thesis using g by simp
next
  case (2 e')
  obtain r t' where i: "table_insert e' (fs_table s) = (r, t')" by fastforce
  show ?thesis
  proof (cases r)
    case None
    then have "t' = fs_table s" using i insert_None by simp
    then show ?thesis using 2 i g by simp
  next
    case (Some h')
    then have i': "table_insert e' (fs_table s) = (Some h', t')" using i by simp
    have "h \<noteq> h'" using table_insert_map(3) [OF ok n i'] table_get_generation [OF ok g] by auto
    then show ?thesis using table_insert_map(2) [OF ok n i'] 2 i g by simp
  qed
next
  case 3
  obtain b t' where r: "table_remove (words m ! 0) (fs_table s) = (b, t')" by fastforce
  show ?thesis
  proof (cases b)
    case True
    then show ?thesis using table_remove_map(2) [OF ok, of "words m ! 0" t'] r 3 c g by simp
  next
    case False
    then have "t' = fs_table s" using r by (auto simp: table_remove_def split: if_splits)
    then show ?thesis using 3 r g by simp
  qed
qed

lemma serve_open_live:
  assumes ok: "table_ok n (fs_table s)" and n: "n + 2 < 2 ^ 32" and t: "tag m = TAG_OPEN"
    and r: "tag (fst (serve blob k m s)) = TAG_OPEN"
  obtains b path e where "buffer_map k (cap_handle m) = Some b" "buffer_path (fs_memory s) b (unat (words m ! 0)) = Some path"
    "find_entry blob path = Some e" "is_file e"
    "table_get (fs_table (snd (serve blob k m s))) (words (fst (serve blob k m s)) ! 0) = Some e"
proof -
  have so: "serve blob k m s = serve_open blob k m s" using t by (simp add: serve_def)
  obtain b path e h t' where x: "buffer_map k (cap_handle m) = Some b" "buffer_path (fs_memory s) b (unat (words m ! 0)) = Some path"
    "find_entry blob path = Some e" "is_file e" "table_insert e (fs_table s) = (Some h, t')"
    using t r unfolding so by (auto simp: serve_open_def fs_tags split: option.splits if_splits prod.splits)
  have "serve blob k m s = (fs_reply TAG_OPEN [h, of_nat (length (ent_data e))], s\<lparr>fs_table := t'\<rparr>)"
    using x t unfolding so by (simp add: serve_open_def fs_tags)
  then show ?thesis using that x table_insert_map(2) [OF ok n x(5)] by simp
qed


section \<open>A run of the server\<close>

definition server_ok :: "fs_server \<Rightarrow> bool" where
  "server_ok v \<longleftrightarrow> table_ok (sv_served v) (sv_table v)"

abbreviation turn_state :: "fs_turn \<Rightarrow> fs_server \<Rightarrow> fs_state" where
  "turn_state w v \<equiv> \<lparr>fs_table = sv_table v, bytes_out = sv_bytes v, fs_memory = turn_memory w\<rparr>"

lemma turn_serves:
  assumes "fs_turn_step blob w v = (Some (m, r), go, v')"
  shows "r = fst (serve blob (turn_kernel w) m (turn_state w v))"
    "sv_table v' = fs_table (snd (serve blob (turn_kernel w) m (turn_state w v)))" "sv_served v' = Suc (sv_served v)"
    "received w = Some m"
  using assms by (auto simp: fs_turn_step_def Let_def split: option.splits if_splits prod.splits)

text \<open>The first answered turn of a run, and the rest of it.\<close>

lemma loop_cases:
  assumes "fst (fs_loop blob w v) = (m, r) # xs"
  obtains go v' where "fs_turn_step blob (w (sv_served v)) v = (Some (m, r), go, v')" "sv_served v < MAX_REQUESTS"
    "xs = [] \<or> xs = fst (fs_loop blob w v')"
proof -
  have c: "sv_served v < MAX_REQUESTS \<and> sv_rejected v < MAX_REJECTED"
    using assms by (subst (asm) fs_loop.simps) (auto split: if_splits)
  obtain o' go v' where s: "fs_turn_step blob (w (sv_served v)) v = (o', go, v')" by (metis prod_cases3)
  have "o' = Some (m, r) \<and> (xs = [] \<or> xs = fst (fs_loop blob w v'))"
    using assms c s by (subst (asm) fs_loop.simps) (auto split: option.splits if_splits prod.splits)
  then show ?thesis using that s c by blast
qed

lemma turn_ok: "server_ok v \<Longrightarrow> sv_served v < MAX_REQUESTS \<Longrightarrow> fs_turn_step blob w v = (Some (m, r), go, v') \<Longrightarrow> server_ok v'"
  using serve_table_ok [of "sv_served v" "turn_state w v" blob "turn_kernel w" m] turn_serves [of blob w v m r go v']
  by (simp add: server_ok_def MAX_REQUESTS_def)

lemma loop_dead:
  assumes "fst (fs_loop blob w v) = xs" "dead h (sv_served v) (sv_table v)" "(m, r) \<in> set xs"
    "tag m = TAG_READ \<or> tag m = TAG_CLOSE" "words m ! 0 = h"
  shows "r = fs_error ERR_BAD_HANDLE"
  using assms
proof (induction xs arbitrary: v)
  case Nil
  then show ?case by simp
next
  case (Cons x xs)
  obtain m0 r0 where x: "x = (m0, r0)" by fastforce
  obtain go v' where t: "fs_turn_step blob (w (sv_served v)) v = (Some (m0, r0), go, v')" "sv_served v < MAX_REQUESTS"
    and xs: "xs = [] \<or> xs = fst (fs_loop blob w v')"
    using Cons.prems(1) unfolding x by (rule loop_cases)
  note ts = turn_serves [OF t(1)]
  show ?case
  proof (cases "(m, r) = x")
    case True
    then have "m = m0" "r = r0" using x by simp_all
    then show ?thesis using ts(1) serve_dead_handle [of m "sv_served v" "turn_state (w (sv_served v)) v" blob] Cons.prems(2,4,5) by simp
  next
    case False
    then have "(m, r) \<in> set xs" "xs = fst (fs_loop blob w v')" using Cons.prems(3) xs by auto
    moreover have "dead h (sv_served v') (sv_table v')"
      using serve_dead [of h "sv_served v" "turn_state (w (sv_served v)) v" blob "turn_kernel (w (sv_served v))" m0] Cons.prems(2) ts t(2)
      by (simp add: MAX_REQUESTS_def)
    ultimately show ?thesis using Cons.IH [of v'] Cons.prems(4,5) by simp
  qed
qed

lemma loop_close:
  assumes "fst (fs_loop blob w v) = us @ (m, r) # zs" "server_ok v" "tag m = TAG_CLOSE" "tag r = TAG_CLOSE"
    "(m', r') \<in> set zs" "tag m' = TAG_READ \<or> tag m' = TAG_CLOSE" "words m' ! 0 = words m ! 0"
  shows "r' = fs_error ERR_BAD_HANDLE"
  using assms
proof (induction us arbitrary: v)
  case Nil
  obtain go v' where t: "fs_turn_step blob (w (sv_served v)) v = (Some (m, r), go, v')" "sv_served v < MAX_REQUESTS"
    and zs: "zs = [] \<or> zs = fst (fs_loop blob w v')"
    using Nil.prems(1) unfolding append_Nil by (rule loop_cases)
  note ts = turn_serves [OF t(1)]
  have ok': "server_ok v'" using turn_ok [OF Nil.prems(2) t(2,1)] .
  have "dead (words m ! 0) (sv_served v) (sv_table v')"
    using serve_close_dead [of "sv_served v" "turn_state (w (sv_served v)) v" m blob "turn_kernel (w (sv_served v))"] Nil.prems(2-4) ts
    by (simp add: server_ok_def)
  then have "dead (words m ! 0) (sv_served v') (sv_table v')" using ts(3) dead_mono by simp
  moreover have "fst (fs_loop blob w v') = zs" using zs Nil.prems(5) by auto
  ultimately show ?case using loop_dead [of blob w v' zs "words m ! 0" m' r'] Nil.prems(5-7) by simp
next
  case (Cons x us)
  obtain m0 r0 where x: "x = (m0, r0)" by fastforce
  obtain go v' where t: "fs_turn_step blob (w (sv_served v)) v = (Some (m0, r0), go, v')" "sv_served v < MAX_REQUESTS"
    and xs: "us @ (m, r) # zs = [] \<or> us @ (m, r) # zs = fst (fs_loop blob w v')"
    using Cons.prems(1) unfolding x append_Cons by (rule loop_cases)
  have "fst (fs_loop blob w v') = us @ (m, r) # zs" using xs by auto
  then show ?case using Cons.IH turn_ok [OF Cons.prems(2) t(2,1)] Cons.prems(3-7) by blast
qed

lemma boot_ok: "server_ok fs_boot"
  using table_new_ok by (simp add: server_ok_def fs_boot_def)

text \<open>C23. 
  A closed handle is dead for good: in any run of the server, once a close succeeded, every later read or
  close of that handle is refused with the bad-handle error, whatever was opened in between; a client that
  uses a file after closing it never reads another file.
\<close>

theorem closed_handle_refused:
  assumes "fst (fs_loop blob w fs_boot) = us @ (m, r) # zs" "tag m = TAG_CLOSE" "tag r = TAG_CLOSE"
    and "(m', r') \<in> set zs" "tag m' = TAG_READ \<or> tag m' = TAG_CLOSE" "words m' ! 0 = words m ! 0"
  shows "r' = fs_error ERR_BAD_HANDLE"
  using loop_close [OF assms(1) boot_ok assms(2-6)] .


lemma loop_live:
  assumes "fst (fs_loop blob w v) = us @ (m, r) # zs" "server_ok v" "table_get (sv_table v) h = Some e"
    "\<forall>x\<in>set us. \<not> (tag (fst x) = TAG_CLOSE \<and> words (fst x) ! 0 = h)" "tag m = TAG_READ" "words m ! 0 = h"
    "buffer_map (turn_kernel (w (sv_served v + length us))) (cap_handle m) = Some b"
  shows "\<exists>s. table_get (fs_table s) h = Some e \<and> r = fst (serve_read (turn_kernel (w (sv_served v + length us))) m s)"
  using assms
proof (induction us arbitrary: v)
  case Nil
  obtain go v' where t: "fs_turn_step blob (w (sv_served v)) v = (Some (m, r), go, v')"
    using Nil.prems(1) unfolding append_Nil by (rule loop_cases)
  have "r = fst (serve_read (turn_kernel (w (sv_served v))) m (turn_state (w (sv_served v)) v))"
    using turn_serves(1) [OF t] Nil.prems(5) by (simp add: serve_def fs_tags)
  then show ?case using Nil.prems(3) by (auto intro: exI [of _ "turn_state (w (sv_served v)) v"])
next
  case (Cons x us)
  obtain m0 r0 where x: "x = (m0, r0)" by fastforce
  obtain go v' where t: "fs_turn_step blob (w (sv_served v)) v = (Some (m0, r0), go, v')" "sv_served v < MAX_REQUESTS"
    and xs: "us @ (m, r) # zs = [] \<or> us @ (m, r) # zs = fst (fs_loop blob w v')"
    using Cons.prems(1) unfolding x append_Cons by (rule loop_cases)
  note ts = turn_serves [OF t(1)]
  have "table_get (sv_table v') h = Some e"
    using serve_live [of "sv_served v" "turn_state (w (sv_served v)) v" h e m0 blob "turn_kernel (w (sv_served v))"]
      Cons.prems(2-4) ts(2) t(2) x by (simp add: server_ok_def MAX_REQUESTS_def)
  moreover have "fst (fs_loop blob w v') = us @ (m, r) # zs" using xs by auto
  moreover have "\<forall>x\<in>set us. \<not> (tag (fst x) = TAG_CLOSE \<and> words (fst x) ! 0 = h)" using Cons.prems(4) by simp
  ultimately show ?case
    using Cons.IH [of v'] turn_ok [OF Cons.prems(2) t(2,1)] Cons.prems(5-7) ts(3) by simp
qed

lemma loop_open_live:
  assumes "fst (fs_loop blob w v) = us @ (m, r) # vs @ (m', r') # zs" "server_ok v" "tag m = TAG_OPEN" "tag r = TAG_OPEN"
    "\<forall>x\<in>set vs. \<not> (tag (fst x) = TAG_CLOSE \<and> words (fst x) ! 0 = words r ! 0)" "tag m' = TAG_READ" "words m' ! 0 = words r ! 0"
    "buffer_map (turn_kernel (w (sv_served v + length us + 1 + length vs))) (cap_handle m') = Some b'"
  shows "\<exists>b path e s. buffer_map (turn_kernel (w (sv_served v + length us))) (cap_handle m) = Some b \<and>
     buffer_path (turn_memory (w (sv_served v + length us))) b (unat (words m ! 0)) = Some path \<and>
     find_entry blob path = Some e \<and> is_file e \<and> table_get (fs_table s) (words r ! 0) = Some e \<and>
     r' = fst (serve_read (turn_kernel (w (sv_served v + length us + 1 + length vs))) m' s)"
  using assms
proof (induction us arbitrary: v)
  case Nil
  obtain go v' where t: "fs_turn_step blob (w (sv_served v)) v = (Some (m, r), go, v')" "sv_served v < MAX_REQUESTS"
    and xs: "vs @ (m', r') # zs = [] \<or> vs @ (m', r') # zs = fst (fs_loop blob w v')"
    using Nil.prems(1) unfolding append_Nil by (rule loop_cases)
  note ts = turn_serves [OF t(1)]
  have ok: "table_ok (sv_served v) (fs_table (turn_state (w (sv_served v)) v))" using Nil.prems(2) by (simp add: server_ok_def)
  have n: "sv_served v + 2 < 2 ^ 32" using t(2) by (simp add: MAX_REQUESTS_def)
  obtain b path e where o: "buffer_map (turn_kernel (w (sv_served v))) (cap_handle m) = Some b"
    "buffer_path (turn_memory (w (sv_served v))) b (unat (words m ! 0)) = Some path"
    "find_entry blob path = Some e" "is_file e" "table_get (sv_table v') (words r ! 0) = Some e"
    using serve_open_live [OF ok n Nil.prems(3), of blob "turn_kernel (w (sv_served v))"] Nil.prems(4) ts by auto
  have "fst (fs_loop blob w v') = vs @ (m', r') # zs" using xs by auto
  then obtain s where "table_get (fs_table s) (words r ! 0) = Some e"
    "r' = fst (serve_read (turn_kernel (w (sv_served v' + length vs))) m' s)"
    using loop_live [of blob w v' vs m' r' zs "words r ! 0" e b'] turn_ok [OF Nil.prems(2) t(2,1)] o(5) Nil.prems(5-8) ts(3)
    by auto
  then show ?case using o ts(3) by auto
next
  case (Cons x us)
  obtain m0 r0 where x: "x = (m0, r0)" by fastforce
  obtain go v' where t: "fs_turn_step blob (w (sv_served v)) v = (Some (m0, r0), go, v')" "sv_served v < MAX_REQUESTS"
    and xs: "us @ (m, r) # vs @ (m', r') # zs = [] \<or> us @ (m, r) # vs @ (m', r') # zs = fst (fs_loop blob w v')"
    using Cons.prems(1) unfolding x append_Cons by (rule loop_cases)
  have "fst (fs_loop blob w v') = us @ (m, r) # vs @ (m', r') # zs" using xs by auto
  then show ?case
    using Cons.IH [of v'] turn_ok [OF Cons.prems(2) t(2,1)] Cons.prems(3-8) turn_serves(3) [OF t(1)] by simp
qed

section \<open>Reading\<close>

lemma entry_length:
  assumes "e \<in> set (entries blob)"
  shows "length (ent_data e) \<le> length blob"
proof -
  obtain q p where p: "parse_at blob q = Some p" "ent_data e = p_data p"
    using entries_parsed assms unfolding entries_def by blast
  show ?thesis using parse_at_bounds(2,5) [OF p(1)] p(2) by simp
qed

lemma write_bytes_other: "(\<And>i. i < length bs \<Longrightarrow> x \<noteq> at + of_nat i) \<Longrightarrow> write_bytes bs at m x = m x"
proof (induction bs arbitrary: at m)
  case Nil
  then show ?case by simp
next
  case (Cons b bs)
  have "x \<noteq> at" using Cons.prems [of 0] by simp
  moreover have "x \<noteq> at + 1 + of_nat i" if "i < length bs" for i using Cons.prems [of "Suc i"] that by (simp add: add.assoc)
  ultimately show ?case using Cons.IH [of "at + 1" "m(at := b)"] by (simp add: fun_upd_def)
qed

lemma offset_distinct: "i < 2 ^ 64 \<Longrightarrow> j < 2 ^ 64 \<Longrightarrow> (at :: u64) + of_nat i = at + of_nat j \<Longrightarrow> i = j"
  by (simp add: word_of_nat_eq_iff take_bit_nat_eq_self)

lemma write_bytes_nth: "length bs \<le> 2 ^ 64 \<Longrightarrow> i < length bs \<Longrightarrow> write_bytes bs at m (at + of_nat i) = bs ! i"
proof (induction bs arbitrary: at m i)
  case Nil
  then show ?case by simp
next
  case (Cons b bs)
  show ?case
  proof (cases i)
    case 0
    have "write_bytes bs (at + 1) (m(at := b)) at = (m(at := b)) at"
    proof (rule write_bytes_other)
      fix k assume "k < length bs"
      then show "at \<noteq> at + 1 + of_nat k" using offset_distinct [of 0 "Suc k" at] Cons.prems(1) by (auto simp: add.assoc)
    qed
    then show ?thesis using 0 by simp
  next
    case (Suc k)
    then show ?thesis using Cons.IH [of k "at + 1"] Cons.prems by (simp add: add.assoc)
  qed
qed

lemma write_read: "length bs \<le> 2 ^ 64 \<Longrightarrow> read_bytes (write_bytes bs at m) at (length bs) = bs"
  by (rule nth_equalityI) (simp_all add: read_bytes_def write_bytes_nth)


text \<open>How many bytes a read transfers: bounded by the request, by what is left of the file and by the buffer.\<close>

definition read_offset :: "message \<Rightarrow> cpio_entry \<Rightarrow> nat" where
  "read_offset m e = min (unat (words m ! 1)) (length (ent_data e))"

definition read_count :: "message \<Rightarrow> cpio_entry \<Rightarrow> client_buffer \<Rightarrow> nat" where
  "read_count m e b = min (min (unat (words m ! 2)) (length (ent_data e) - read_offset m e)) (buf_len b)"

lemma serve_read_eq:
  assumes "table_get (fs_table s) (words m ! 0) = Some e" "buffer_map k (cap_handle m) = Some b" "length (ent_data e) < 2 ^ 63"
  shows "serve_read k m s =
     (fs_reply TAG_READ [of_nat (read_count m e b), of_nat (length (ent_data e) - read_offset m e - read_count m e b)],
      s\<lparr>fs_memory := write_bytes (take (read_count m e b) (drop (read_offset m e) (ent_data e))) (buf_base b) (fs_memory s),
        bytes_out := bytes_out s + of_nat (read_count m e b)\<rparr>)"
proof -
  have "unat (min (words m ! 1) (of_nat (length (ent_data e)))) = read_offset m e"
    using assms(3) by (auto simp: read_offset_def min_def word_le_nat_alt unat_of_nat take_bit_nat_eq_self)
  then show ?thesis using assms(1,2) by (simp add: serve_read_def Let_def read_count_def del: of_nat_diff diff_diff_left)
qed

text \<open>
  A read through an open handle copies exactly the bytes of the file that the request asks for, the client's
  buffer has room for and the file still has, and nothing outside them is written: the bytes land at the
  start of the buffer, the reply says how many they are and how many are left, and no read passes the end of
  the buffer or of the file.
\<close>

theorem read_exact:
  fixes k :: fs_kernel
  assumes "table_get (fs_table s) (words m ! 0) = Some e" "buffer_map k (cap_handle m) = Some b" "tag m = TAG_READ"
    and "length (ent_data e) < 2 ^ 63" and "serve blob k m s = (r, s')"
  shows "r = fs_reply TAG_READ [of_nat (read_count m e b), of_nat (length (ent_data e) - read_offset m e - read_count m e b)]
     \<and> read_bytes (fs_memory s') (buf_base b) (read_count m e b) = take (read_count m e b) (drop (read_offset m e) (ent_data e))
     \<and> (\<forall>x. x \<notin> (\<lambda>i. buf_base b + of_nat i) ` {..<read_count m e b} \<longrightarrow> fs_memory s' x = fs_memory s x)
     \<and> read_count m e b \<le> buf_len b \<and> read_offset m e + read_count m e b \<le> length (ent_data e)
     \<and> fs_table s' = fs_table s"
proof -
  have sr: "serve blob k m s = serve_read k m s" using assms(3) by (simp add: serve_def fs_tags)
  note q = serve_read_eq [OF assms(1,2,4)]
  let ?bs = "take (read_count m e b) (drop (read_offset m e) (ent_data e))"
  have len: "length ?bs = read_count m e b" "read_offset m e \<le> length (ent_data e)"
    by (simp_all add: read_count_def read_offset_def)
  have "read_bytes (write_bytes ?bs (buf_base b) (fs_memory s)) (buf_base b) (length ?bs) = ?bs"
    by (rule write_read) (use assms(4) len in \<open>simp add: read_count_def\<close>)
  moreover have "x \<notin> (\<lambda>i. buf_base b + of_nat i) ` {..<read_count m e b} \<Longrightarrow>
      write_bytes ?bs (buf_base b) (fs_memory s) x = fs_memory s x" for x
    by (rule write_bytes_other) (use len(1) in auto)
  moreover have "read_count m e b \<le> buf_len b" "read_offset m e + read_count m e b \<le> length (ent_data e)"
    using len(2) by (simp_all add: read_count_def)
  ultimately show ?thesis using assms(5) unfolding sr q len(1) by auto
qed



definition demo_blob :: "u8 list" where
  "demo_blob = member_write demo_entry @ member_write demo_trailer"

definition demo_kernel :: fs_kernel where
  "demo_kernel = \<lparr>shared_pages = (\<lambda>_. 1), map_shared = (\<lambda>_. 0x1000)\<rparr>"

text \<open>A client that opens the file ``hi'', reads it, closes it and reads again.\<close>

definition demo_turn :: "nat \<Rightarrow> fs_turn" where
  "demo_turn i =
     \<lparr>received = (if i = 0 then Some \<lparr>tag = 1, words = [2, 0, 0, 0], cap_handle = 7\<rparr>
                  else if i = 1 then Some \<lparr>tag = 2, words = [0x101, 0, 64, 0], cap_handle = 7\<rparr>
                  else if i = 2 then Some \<lparr>tag = 4, words = [0x101, 0, 0, 0], cap_handle = 0\<rparr>
                  else if i = 3 then Some \<lparr>tag = 2, words = [0x101, 0, 64, 0], cap_handle = 7\<rparr> else None),
      turn_kernel = demo_kernel, turn_memory = (\<lambda>a. if a = 0x1000 then 0x68 else if a = 0x1001 then 0x69 else 0), reply_taken = True\<rparr>"

lemma demo_run:
  "fst (fs_loop demo_blob demo_turn fs_boot) =
     [(\<lparr>tag = 1, words = [2, 0, 0, 0], cap_handle = 7\<rparr>, \<lparr>tag = 1, words = [0x101, 2, 0, 0], cap_handle = 0\<rparr>),
      (\<lparr>tag = 2, words = [0x101, 0, 64, 0], cap_handle = 7\<rparr>, \<lparr>tag = 2, words = [2, 0, 0, 0], cap_handle = 0\<rparr>),
      (\<lparr>tag = 4, words = [0x101, 0, 0, 0], cap_handle = 0\<rparr>, \<lparr>tag = 4, words = [0, 0, 0, 0], cap_handle = 0\<rparr>),
      (\<lparr>tag = 2, words = [0x101, 0, 64, 0], cap_handle = 7\<rparr>, \<lparr>tag = 0, words = [2, 0, 0, 0], cap_handle = 0\<rparr>)]"
  by code_simp


theorem closed_handle_refused_witness:
  "\<lparr>tag = 0, words = [2, 0, 0, 0], cap_handle = 0\<rparr> = fs_error ERR_BAD_HANDLE"
  by (rule closed_handle_refused [where blob = demo_blob and w = demo_turn and us = "take 2 (fst (fs_loop demo_blob demo_turn fs_boot))"
      and m = "\<lparr>tag = 4, words = [0x101, 0, 0, 0], cap_handle = 0\<rparr>" and m' = "\<lparr>tag = 2, words = [0x101, 0, 64, 0], cap_handle = 7\<rparr>"
      and zs = "drop 3 (fst (fs_loop demo_blob demo_turn fs_boot))" and r = "\<lparr>tag = 4, words = [0, 0, 0, 0], cap_handle = 0\<rparr>"])
     (simp_all add: demo_run fs_tags)

lemma demo_buffer: "buffer_map demo_kernel 7 = Some \<lparr>buf_base = 0x1000, buf_len = 4096\<rparr>"
  by code_simp

lemma demo_length: "length demo_blob < 2 ^ 63"
proof -
  have "length demo_blob = 244" by code_simp
  then show ?thesis by simp
qed


definition demo_state :: fs_state where
  "demo_state = \<lparr>fs_table = snd (table_insert demo_entry table_new), bytes_out = 0, fs_memory = (\<lambda>_. 0)\<rparr>"

definition demo_read :: message where
  "demo_read = \<lparr>tag = 2, words = [0x101, 1, 64, 0], cap_handle = 7\<rparr>"

lemma demo_get: "table_get (fs_table demo_state) (words demo_read ! 0) = Some demo_entry" "length (ent_data demo_entry) < 2 ^ 63"
proof -
  have "table_get (fs_table demo_state) 0x101 = Some demo_entry" by code_simp
  then show "table_get (fs_table demo_state) (words demo_read ! 0) = Some demo_entry" by (simp add: demo_read_def)
qed (simp add: demo_entry_def)

theorem read_exact_witness:
  "read_bytes (fs_memory (snd (serve [] demo_kernel demo_read demo_state))) 0x1000 1 = [0x6F]"
proof -
  let ?b = "\<lparr>buf_base = 0x1000, buf_len = 4096\<rparr>"
  have c: "read_count demo_read demo_entry ?b = 1" "read_offset demo_read demo_entry = 1"
    by (simp_all add: read_count_def read_offset_def demo_read_def demo_entry_def)
  have m: "buffer_map demo_kernel (cap_handle demo_read) = Some ?b" "tag demo_read = TAG_READ"
    using demo_buffer by (simp_all add: demo_read_def fs_tags)
  show ?thesis
    using read_exact [OF demo_get(1) m demo_get(2) prod.collapse [symmetric, of "serve [] demo_kernel demo_read demo_state"]]
    by (simp add: c) (simp add: demo_entry_def)
qed

section \<open>The bounds of a run\<close>

definition malformed :: "message \<times> message \<Rightarrow> bool" where
  "malformed x \<longleftrightarrow> tag (snd x) = TAG_ERROR \<and> words (snd x) ! 0 = ERR_MALFORMED"

lemma turn_counters:
  "fs_turn_step blob w v = (Some x, go, v') \<Longrightarrow> sv_served v' = Suc (sv_served v) \<and> sv_rejected v' = sv_rejected v + of_bool (malformed x)"
  "fs_turn_step blob w v = (None, go, v') \<Longrightarrow> v' = v"
  by (auto simp: fs_turn_step_def Let_def malformed_def split: option.splits if_splits prod.splits)

lemma loop_counters:
  "fs_loop blob w v = (xs, v') \<Longrightarrow> sv_served v \<le> MAX_REQUESTS \<Longrightarrow> sv_rejected v \<le> MAX_REJECTED \<Longrightarrow>
     sv_served v' = sv_served v + length xs \<and> sv_served v' \<le> MAX_REQUESTS \<and>
     sv_rejected v' = sv_rejected v + length (filter malformed xs) \<and> sv_rejected v' \<le> MAX_REJECTED"
proof (induction blob w v arbitrary: xs v' rule: fs_loop.induct)
  case (1 blob w v)
  show ?case
  proof (cases "sv_served v < MAX_REQUESTS \<and> sv_rejected v < MAX_REJECTED")
    case False
    then show ?thesis using 1(2-4) by (subst (asm) fs_loop.simps) auto
  next
    case c: True
    obtain x go u where s: "fs_turn_step blob (w (sv_served v)) v = (x, go, u)" by (metis prod_cases3)
    show ?thesis
    proof (cases x)
      case None
      then have "u = v" using turn_counters(2) s by blast
      then show ?thesis using 1(2-4) c s None by (subst (asm) fs_loop.simps) auto
    next
      case (Some y)
      note t = turn_counters(1) [OF s [unfolded Some]]
      show ?thesis
      proof (cases go)
        case False
        then show ?thesis using 1(2) c s Some t by (subst (asm) fs_loop.simps) auto
      next
        case True
        obtain ys z where r: "fs_loop blob w u = (ys, z)" by fastforce
        have e: "xs = y # ys" "v' = z" using 1(2) c s Some True r by (subst (asm) fs_loop.simps; auto)+
        have "sv_served z = sv_served u + length ys \<and> sv_served z \<le> MAX_REQUESTS \<and>
          sv_rejected z = sv_rejected u + length (filter malformed ys) \<and> sv_rejected z \<le> MAX_REJECTED"
          using 1(1) [OF c s [symmetric] Some refl True r] t c by (simp add: of_bool_def split: if_splits)
        then show ?thesis using e t by simp
      qed
    qed
  qed
qed


text \<open>
  The server always comes to an end, whatever its clients do: from its start it answers at most 2048 requests
  and at most 8 malformed ones, and the tally it prints is the number of replies it owed.
\<close>

theorem server_bounded:
  "\<exists>xs v. fs_loop blob w fs_boot = (xs, v) \<and> length xs = sv_served v \<and> length xs \<le> 2048 \<and>
     length (filter malformed xs) = sv_rejected v \<and> sv_rejected v \<le> 8"
proof -
  obtain xs v where r: "fs_loop blob w fs_boot = (xs, v)" by fastforce
  then show ?thesis using loop_counters [OF r] by (simp add: fs_boot_def MAX_REQUESTS_def MAX_REJECTED_def)
qed

section \<open>Reports\<close>

definition line_ok :: "text_line \<Rightarrow> bool" where
  "line_ok l \<longleftrightarrow> length (ln_buf l) = LINE_LEN \<and> ln_n l \<le> LINE_LEN"

abbreviation line_text :: "text_line \<Rightarrow> u8 list" where
  "line_text l \<equiv> take (ln_n l) (ln_buf l)"

lemma line_put_text:
  "line_ok l \<Longrightarrow> line_ok (line_put bs l) \<and> line_text (line_put bs l) = take LINE_LEN (line_text l @ bs)"
proof (induction bs arbitrary: l)
  case Nil
  then show ?case by (simp add: line_ok_def)
next
  case (Cons b bs)
  show ?case
  proof (cases "ln_n l < LINE_LEN")
    case True
    let ?l = "l\<lparr>ln_buf := (ln_buf l)[ln_n l := b], ln_n := ln_n l + 1\<rparr>"
    have "line_ok ?l" "line_text ?l = line_text l @ [b]"
      using Cons.prems True by (simp_all add: line_ok_def take_Suc_conv_app_nth)
    then show ?thesis using Cons.IH [of ?l] Cons.prems True by (simp add: line_ok_def)
  next
    case False
    then show ?thesis using Cons by (simp add: line_ok_def)
  qed
qed

lemma line_fill_buf:
  "at + length ds \<le> length (ln_buf l) \<Longrightarrow>
     line_fill at ds l = l\<lparr>ln_buf := take at (ln_buf l) @ ds @ drop (at + length ds) (ln_buf l)\<rparr>"
proof (induction ds arbitrary: at l)
  case Nil
  then show ?case by simp
next
  case (Cons d ds)
  then show ?case
    by (simp add: take_Suc_conv_app_nth)
qed

fun decimal :: "u8 list \<Rightarrow> nat" where
  "decimal [] = 0"
| "decimal (d # ds) = unat (d - 0x30) + 10 * decimal ds"

lemma decimal_digits: "decimal (line_digits n) = n"
proof (induction n rule: line_digits.induct)
  case (1 n)
  have "n mod 10 < 2 ^ 8" by (rule less_trans [of _ 10]) simp_all
  then have "unat (of_nat (n mod 10) :: u8) = n mod 10" by (simp add: unat_of_nat take_bit_nat_eq_self)
  then show ?case using 1 by (subst line_digits.simps) auto
qed

text \<open>
  A report is whole or short, never wrong: a number is appended in decimal when all its digits fit and not at
  all when they do not, so no report ends in a truncated number, and the line never outgrows its buffer.
\<close>

theorem number_whole_or_absent:
  assumes "line_ok l"
  shows "line_ok (line_num v l) \<and>
     (\<exists>ds. decimal (rev ds) = unat v \<and>
       line_text (line_num v l) = (if ln_n l + length ds \<le> LINE_LEN then line_text l @ ds else line_text l))"
proof -
  let ?d = "rev (line_digits (unat v))"
  have f: "ln_n l + length ?d \<le> LINE_LEN \<Longrightarrow>
      line_fill (ln_n l) ?d l = l\<lparr>ln_buf := take (ln_n l) (ln_buf l) @ ?d @ drop (ln_n l + length ?d) (ln_buf l)\<rparr>"
    by (rule line_fill_buf) (use assms in \<open>simp add: line_ok_def\<close>)
  have "decimal (rev ?d) = unat v" by (simp add: decimal_digits)
  moreover have "line_ok (line_num v l) \<and>
      line_text (line_num v l) = (if ln_n l + length ?d \<le> LINE_LEN then line_text l @ ?d else line_text l)"
    using assms f by (auto simp: line_num_def Let_def line_ok_def)
  ultimately show ?thesis by blast
qed

theorem number_whole_or_absent_witness:
  "line_ok line_new \<and> line_ok (line_num 2048 line_new)"
  using number_whole_or_absent [of line_new 2048] by (simp add: line_ok_def line_new_def)

end
