(* ===== verification/Cbytes.thy ===== *)
theory Cbytes
  imports Prelude
begin

text \<open>
  \<^verbatim>\<open>crates/staros-libc/src/string.rs\<close>, the functions over byte slices: comparison, search, spans and the integer
  parsers. A C \<^verbatim>\<open>int\<close> or \<^verbatim>\<open>i64\<close> is an \<^typ>\<open>int\<close> with its range written out where an operation can leave it, a \<^verbatim>\<open>u64\<close> a
  \<^typ>\<open>nat\<close> reduced where the source wraps.
\<close>

section \<open>Comparison\<close>

text \<open>The difference of the first pair of bytes that differ, as unsigned values.\<close>

fun compare_bytes :: "u8 list \<Rightarrow> u8 list \<Rightarrow> int" where
  "compare_bytes (a # as) (b # bs) = (if a \<noteq> b then uint a - uint b else compare_bytes as bs)"
| "compare_bytes _ _ = 0"

definition memcmp :: "u8 list \<Rightarrow> u8 list \<Rightarrow> int" where
  "memcmp a b = compare_bytes a b"

definition strcmp :: "u8 list \<Rightarrow> u8 list \<Rightarrow> int" where
  "strcmp a b =
     (let d = compare_bytes a b in
      if d \<noteq> 0 then d
      else if length a < length b then - uint (b ! length a)
      else if length b < length a then uint (a ! length b)
      else 0)"

text \<open>The bytes of a C string, up to the first zero, and the exported \<^verbatim>\<open>strcmp\<close> on two of them.\<close>

definition as_bytes :: "u8 list \<Rightarrow> u8 list" where
  "as_bytes s = takeWhile (\<lambda>b. b \<noteq> 0) s"

definition c_strcmp :: "u8 list \<Rightarrow> u8 list \<Rightarrow> int" where
  "c_strcmp a b = strcmp (as_bytes a) (as_bytes b)"

definition strncmp :: "u8 list \<Rightarrow> u8 list \<Rightarrow> nat \<Rightarrow> int" where
  "strncmp a b n =
     (let a' = take (min (length a) n) a; b' = take (min (length b) n) b in
      if length a' = n \<and> length b' = n then compare_bytes a' b' else strcmp a' b')"

section \<open>Search\<close>

definition find_bytes :: "u8 list \<Rightarrow> u8 list \<Rightarrow> nat option" where
  "find_bytes h n =
     (if n = [] then Some 0
      else if length h < length n then None
      else List.find (\<lambda>i. take (length n) (drop i h) = n) [0..<length h - length n + 1])"

definition complement_span :: "u8 list \<Rightarrow> u8 list \<Rightarrow> nat" where
  "complement_span s reject = (case position (\<lambda>b. b \<in> set reject) s of Some i \<Rightarrow> i | None \<Rightarrow> length s)"

definition span_of :: "u8 list \<Rightarrow> u8 list \<Rightarrow> nat" where
  "span_of s accept = (case position (\<lambda>b. b \<notin> set accept) s of Some i \<Rightarrow> i | None \<Rightarrow> length s)"

section \<open>Integers\<close>

definition digit :: "u8 \<Rightarrow> int \<Rightarrow> nat option" where
  "digit c radix =
     (let v = (if 0x30 \<le> c \<and> c \<le> 0x39 then Some (unat (c - 0x30))
               else if 0x61 \<le> c \<and> c \<le> 0x7A then Some (unat (c - 0x61 + 10))
               else if 0x41 \<le> c \<and> c \<le> 0x5A then Some (unat (c - 0x41 + 10))
               else None)
      in case v of None \<Rightarrow> None | Some d \<Rightarrow> if int d < radix then Some d else None)"

definition is_space :: "u8 \<Rightarrow> bool" where
  "is_space b \<longleftrightarrow> b = 0x20 \<or> 0x09 \<le> b \<and> b \<le> 0x0D"

fun space_run :: "u8 list \<Rightarrow> nat" where
  "space_run [] = 0"
| "space_run (b # bs) = (if is_space b then Suc (space_run bs) else 0)"

text \<open>What stands before the digits: space, sign, prefix. The sign, the base in force and where the digits begin.\<close>

definition number_prefix :: "u8 list \<Rightarrow> int \<Rightarrow> bool \<times> int \<times> nat" where
  "number_prefix s radix =
     (let i = space_run s;
          (negative, i) = (if get s i = Some 0x2D then (True, i + 1) else if get s i = Some 0x2B then (False, i + 1) else (False, i))
      in if (radix = 0 \<or> radix = 16) \<and> get s i = Some 0x30 \<and> (get s (i + 1) = Some 0x78 \<or> get s (i + 1) = Some 0x58)
            \<and> (case get s (i + 2) of None \<Rightarrow> False | Some c \<Rightarrow> digit c 16 \<noteq> None)
         then (negative, 16, i + 2)
         else if radix = 0 then (negative, if get s i = Some 0x30 then 8 else 10, i)
         else (negative, radix, i))"

definition I64_MAX :: int where "I64_MAX = 2 ^ 63 - 1"
definition I64_MIN :: int where "I64_MIN = - (2 ^ 63)"
definition U64_MAX :: nat where "U64_MAX = 2 ^ 64 - 1"

definition checked_i64 :: "int \<Rightarrow> int option" where
  "checked_i64 x = (if I64_MIN \<le> x \<and> x \<le> I64_MAX then Some x else None)"

definition checked_u64 :: "nat \<Rightarrow> nat option" where
  "checked_u64 x = (if x \<le> U64_MAX then Some x else None)"

text \<open>The digit loops: the value, whether it saturated, and how many digits were taken.\<close>

fun signed_digits :: "int \<Rightarrow> u8 list \<Rightarrow> int \<Rightarrow> bool \<Rightarrow> int \<times> bool \<times> nat" where
  "signed_digits radix [] v sat = (v, sat, 0)"
| "signed_digits radix (c # cs) v sat =
     (case digit c radix of
        None \<Rightarrow> (v, sat, 0)
      | Some d \<Rightarrow>
          let (v', sat') = (case Option.bind (checked_i64 (v * radix)) (\<lambda>x. checked_i64 (x + int d)) of
                              Some x \<Rightarrow> (x, sat) | None \<Rightarrow> (I64_MAX, True));
              (r, s, n) = signed_digits radix cs v' sat'
          in (r, s, Suc n))"

fun unsigned_digits :: "int \<Rightarrow> u8 list \<Rightarrow> nat \<Rightarrow> bool \<Rightarrow> nat \<times> bool \<times> nat" where
  "unsigned_digits radix [] v sat = (v, sat, 0)"
| "unsigned_digits radix (c # cs) v sat =
     (case digit c radix of
        None \<Rightarrow> (v, sat, 0)
      | Some d \<Rightarrow>
          let (v', sat') = (case Option.bind (checked_u64 (v * nat (radix mod 2 ^ 64))) (\<lambda>x. checked_u64 (x + d)) of
                              Some x \<Rightarrow> (x, sat) | None \<Rightarrow> (U64_MAX, True));
              (r, s, n) = unsigned_digits radix cs v' sat'
          in (r, s, Suc n))"

definition strtol :: "u8 list \<Rightarrow> int \<Rightarrow> int \<times> nat" where
  "strtol s radix =
     (let (negative, radix', start) = number_prefix s radix;
          (v, sat, n) = signed_digits radix' (drop start s) 0 False
      in if n = 0 then (0, 0)
         else (if sat then if negative then I64_MIN else I64_MAX else if negative then - v else v, start + n))"

definition strtoul :: "u8 list \<Rightarrow> int \<Rightarrow> nat \<times> nat" where
  "strtoul s radix =
     (let (negative, radix', start) = number_prefix s radix;
          (v, sat, n) = unsigned_digits radix' (drop start s) 0 False
      in if n = 0 then (0, 0)
         else (if sat then U64_MAX else if negative then (2 ^ 64 - v) mod 2 ^ 64 else v, start + n))"

text \<open>\<^verbatim>\<open>atoi\<close>: the low 32 bits of the parsed value, as a signed number.\<close>

definition atoi :: "u8 list \<Rightarrow> int" where
  "atoi s = sint (word_of_int (fst (strtol s 10)) :: u32)"

end
