(* ===== verification/Cfmt.thy ===== *)
theory Cfmt
  imports Cbytes
begin

text \<open>
  \<^verbatim>\<open>crates/staros-libc/src/fmt.rs\<close>: the engine behind \<^verbatim>\<open>printf\<close>, with the argument source of \<^verbatim>\<open>stdio.rs\<close>. The arguments
  are the raw 64-bit slots of the variable list, in order; strings behind pointers and the operations of the processor's
  floating point unit that \<^verbatim>\<open>%f\<close> uses are given by the environment. The output is the list of the bytes pushed.
\<close>

section \<open>Arguments\<close>

datatype length_mod = LChar | LShort | LInt | LLong | LLongLong | LSize

definition narrow_signed :: "u64 \<Rightarrow> length_mod \<Rightarrow> int" where
  "narrow_signed v l =
     (case l of LChar \<Rightarrow> sint (ucast v :: u8) | LShort \<Rightarrow> sint (ucast v :: u16) | LInt \<Rightarrow> sint (ucast v :: u32)
      | _ \<Rightarrow> sint v)"

definition narrow_unsigned :: "u64 \<Rightarrow> length_mod \<Rightarrow> nat" where
  "narrow_unsigned v l =
     (case l of LChar \<Rightarrow> unat (ucast v :: u8) | LShort \<Rightarrow> unat (ucast v :: u16) | LInt \<Rightarrow> unat (ucast v :: u32)
      | _ \<Rightarrow> unat v)"

text \<open>A double, by what the source asks of it: its sign bit and class, and its magnitude cut to whole numbers.\<close>

record float_view =
  fv_negative :: bool
  fv_nan :: bool
  fv_infinite :: bool
  fv_large :: bool
  fv_whole :: nat
  fv_scaled :: "nat \<Rightarrow> nat"

record fmt_env =
  arg_slot :: "nat \<Rightarrow> u64"
  text_at :: "u64 \<Rightarrow> u8 list"
  float_at :: "u64 \<Rightarrow> float_view"

definition arg_int :: "fmt_env \<Rightarrow> length_mod \<Rightarrow> nat \<Rightarrow> int" where
  "arg_int env l k = (let raw = (if l \<in> {LChar, LShort, LInt} then scast (ucast (arg_slot env k) :: u32) else arg_slot env k)
                      in narrow_signed raw l)"

definition arg_uint :: "fmt_env \<Rightarrow> length_mod \<Rightarrow> nat \<Rightarrow> nat" where
  "arg_uint env l k = (let raw = (if l \<in> {LChar, LShort, LInt} then ucast (ucast (arg_slot env k) :: u32) else arg_slot env k)
                       in narrow_unsigned raw l)"

section \<open>Conversions\<close>

record fmt_spec =
  sp_left :: bool
  sp_zero :: bool
  sp_plus :: bool
  sp_space :: bool
  sp_alt :: bool
  sp_width :: nat
  sp_precision :: "nat option"
  sp_length :: "length_mod option"

definition spec_default :: fmt_spec where
  "spec_default = \<lparr>sp_left = False, sp_zero = False, sp_plus = False, sp_space = False, sp_alt = False, sp_width = 0,
                   sp_precision = None, sp_length = None\<rparr>"

definition pad_to :: "fmt_spec \<Rightarrow> u8 list \<Rightarrow> u8 list" where
  "pad_to sp body =
     (let fill = replicate (sp_width sp - length body) 0x20 in if sp_left sp then body @ fill else fill @ body)"

definition digit_char :: "bool \<Rightarrow> nat \<Rightarrow> u8" where
  "digit_char upper d = (if d < 10 then 0x30 + of_nat d else if upper then 0x41 + of_nat (d - 10) else 0x61 + of_nat (d - 10))"

text \<open>The digit loop, least digit first.\<close>

function digit_buf :: "bool \<Rightarrow> nat \<Rightarrow> nat \<Rightarrow> u8 list" where
  "digit_buf upper radix v =
     digit_char upper (v mod radix) # (if v div radix = 0 \<or> radix < 2 then [] else digit_buf upper radix (v div radix))"
  by pat_completeness auto
termination
  by (relation "measure (\<lambda>(_, _, v). v)") (auto intro: div_less_dividend simp: div_eq_0_iff not_less)

declare digit_buf.simps [simp del]

definition integer_out :: "fmt_spec \<Rightarrow> nat \<Rightarrow> nat \<Rightarrow> bool \<Rightarrow> u8 option \<Rightarrow> bool \<Rightarrow> u8 list" where
  "integer_out sp value radix upper sign prefix =
     (let buf = digit_buf upper radix value;
          digits = (if sp_precision sp = Some 0 \<and> value = 0 then [] else buf);
          n = length digits;
          zeros = (case sp_precision sp of None \<Rightarrow> 0 | Some p \<Rightarrow> p) - n;
          prefix_len = (if prefix \<and> value \<noteq> 0 then if radix = 16 then 2 else if radix = 8 then 1 else 0 else 0);
          body = n + zeros + prefix_len + (case sign of None \<Rightarrow> 0 | Some _ \<Rightarrow> 1);
          fill = sp_width sp - body
      in (if \<not> sp_left sp \<and> \<not> sp_zero sp then replicate fill 0x20 else [])
         @ (case sign of None \<Rightarrow> [] | Some c \<Rightarrow> [c])
         @ (if 0 < prefix_len then 0x30 # (if radix = 16 then [if upper then 0x58 else 0x78] else []) else [])
         @ (if \<not> sp_left sp \<and> sp_zero sp \<and> sp_precision sp = None then replicate fill 0x30 else [])
         @ replicate zeros 0x30 @ rev digits
         @ (if sp_left sp then replicate fill 0x20 else []))"

text \<open>The fraction of a fixed-point number, digit by digit; \<^verbatim>\<open>digits\<close> of the whole part is a buffer of 40.\<close>

fun fraction_out :: "nat \<Rightarrow> nat \<Rightarrow> u8 list" where
  "fraction_out 0 rest = []"
| "fraction_out (Suc p) rest = (0x30 + of_nat (rest div 10 ^ p)) # fraction_out p (rest mod 10 ^ p)"

definition emit_fixed :: "fmt_spec \<Rightarrow> u8 option \<Rightarrow> nat \<Rightarrow> nat \<Rightarrow> nat \<Rightarrow> u8 list" where
  "emit_fixed sp sign whole frac precision =
     (let digits = take 40 (digit_buf False 10 whole);
          body = length digits + (case sign of None \<Rightarrow> 0 | Some _ \<Rightarrow> 1) + (if 0 < precision then precision + 1 else 0);
          fill = sp_width sp - body
      in (if \<not> sp_left sp \<and> \<not> sp_zero sp then replicate fill 0x20 else [])
         @ (case sign of None \<Rightarrow> [] | Some c \<Rightarrow> [c])
         @ (if \<not> sp_left sp \<and> sp_zero sp then replicate fill 0x30 else [])
         @ rev digits
         @ (if 0 < precision then 0x2E # fraction_out precision frac else [])
         @ (if sp_left sp then replicate fill 0x20 else []))"

definition float_out :: "fmt_spec \<Rightarrow> float_view \<Rightarrow> u8 list" where
  "float_out sp v =
     (let precision = min (case sp_precision sp of None \<Rightarrow> 6 | Some p \<Rightarrow> p) 17;
          sign = (if fv_negative v then Some 0x2D else if sp_plus sp then Some 0x2B else if sp_space sp then Some 0x20 else None)
      in if fv_nan v \<or> fv_infinite v
         then pad_to sp ((if fv_nan v then [] else case sign of None \<Rightarrow> [] | Some c \<Rightarrow> [c])
                         @ (if fv_nan v then [0x6E, 0x61, 0x6E] else [0x69, 0x6E, 0x66]))
         else if fv_large v then emit_fixed sp sign (fv_whole v) 0 0
         else let scaled = fv_scaled v precision
              in emit_fixed sp sign (scaled div 10 ^ precision) (scaled mod 10 ^ precision) precision)"

section \<open>The format string\<close>

fun parse_flags :: "u8 list \<Rightarrow> fmt_spec \<Rightarrow> fmt_spec \<times> u8 list" where
  "parse_flags [] sp = (sp, [])"
| "parse_flags (c # cs) sp =
     (if c = 0x2D then parse_flags cs (sp\<lparr>sp_left := True\<rparr>)
      else if c = 0x30 then parse_flags cs (sp\<lparr>sp_zero := True\<rparr>)
      else if c = 0x2B then parse_flags cs (sp\<lparr>sp_plus := True\<rparr>)
      else if c = 0x20 then parse_flags cs (sp\<lparr>sp_space := True\<rparr>)
      else if c = 0x23 then parse_flags cs (sp\<lparr>sp_alt := True\<rparr>)
      else (sp, c # cs))"

definition is_ascii_digit :: "u8 \<Rightarrow> bool" where
  "is_ascii_digit c \<longleftrightarrow> 0x30 \<le> c \<and> c \<le> 0x39"

fun parse_number :: "u8 list \<Rightarrow> nat \<Rightarrow> nat \<times> u8 list" where
  "parse_number [] w = (w, [])"
| "parse_number (c # cs) w =
     (if is_ascii_digit c then parse_number cs ((w * 10 + unat (c - 0x30)) mod 2 ^ 64) else (w, c # cs))"

text \<open>Width and precision, with the index of the next argument.\<close>

definition parse_width :: "fmt_env \<Rightarrow> u8 list \<Rightarrow> nat \<Rightarrow> fmt_spec \<Rightarrow> fmt_spec \<times> nat \<times> u8 list" where
  "parse_width env cs k sp =
     (case cs of
        c # cs' \<Rightarrow>
          if c = 0x2A
          then let w = arg_int env LInt k
               in (if w < 0 then sp\<lparr>sp_left := True, sp_width := nat (- w)\<rparr> else sp\<lparr>sp_width := nat w\<rparr>, k + 1, cs')
          else let (w, rest) = parse_number cs (sp_width sp) in (sp\<lparr>sp_width := w\<rparr>, k, rest)
      | [] \<Rightarrow> (sp, k, []))"

definition parse_precision :: "fmt_env \<Rightarrow> u8 list \<Rightarrow> nat \<Rightarrow> fmt_spec \<Rightarrow> fmt_spec \<times> nat \<times> u8 list" where
  "parse_precision env cs k sp =
     (case cs of
        c # cs' \<Rightarrow>
          if c \<noteq> 0x2E then (sp, k, cs)
          else (case cs' of
                  d # ds \<Rightarrow>
                    if d = 0x2A then (sp\<lparr>sp_precision := Some (nat (max (arg_int env LInt k) 0))\<rparr>, k + 1, ds)
                    else let (p, rest) = parse_number cs' 0 in (sp\<lparr>sp_precision := Some p\<rparr>, k, rest)
                | [] \<Rightarrow> (sp\<lparr>sp_precision := Some 0\<rparr>, k, []))
      | [] \<Rightarrow> (sp, k, []))"

fun parse_length :: "u8 list \<Rightarrow> fmt_spec \<Rightarrow> fmt_spec \<times> u8 list" where
  "parse_length [] sp = (sp, [])"
| "parse_length (c # cs) sp =
     (if c = 0x68 then parse_length cs (sp\<lparr>sp_length := Some (if sp_length sp = Some LShort then LChar else LShort)\<rparr>)
      else if c = 0x6C then parse_length cs (sp\<lparr>sp_length := Some (if sp_length sp = Some LLong then LLongLong else LLong)\<rparr>)
      else if c = 0x7A \<or> c = 0x74 then parse_length cs (sp\<lparr>sp_length := Some LSize\<rparr>)
      else if c = 0x6A then parse_length cs (sp\<lparr>sp_length := Some LLongLong\<rparr>)
      else (sp, c # cs))"

definition null_text :: "u8 list" where
  "null_text = [0x28, 0x6E, 0x75, 0x6C, 0x6C, 0x29]"

text \<open>One conversion: what it prints and the next argument; \<open>None\<close> for a letter it does not know.\<close>

definition convert :: "fmt_env \<Rightarrow> u8 \<Rightarrow> nat \<Rightarrow> fmt_spec \<Rightarrow> (u8 list \<times> nat) option" where
  "convert env c k sp =
     (let len = (case sp_length sp of None \<Rightarrow> LInt | Some l \<Rightarrow> l) in
      if c = 0x63 then Some (pad_to sp [word_of_int (arg_int env LInt k)], k + 1)
      else if c = 0x73 then
        (let p = arg_slot env k; bs = (if p = 0 then null_text else text_at env p);
             n = (case sp_precision sp of None \<Rightarrow> length bs | Some q \<Rightarrow> min q (length bs))
         in Some (pad_to sp (take n bs), k + 1))
      else if c = 0x64 \<or> c = 0x69 then
        (let v = arg_int env len k;
             sign = (if v < 0 then Some 0x2D else if sp_plus sp then Some 0x2B else if sp_space sp then Some 0x20 else None)
         in Some (integer_out sp (nat \<bar>v\<bar>) 10 False sign False, k + 1))
      else if c = 0x75 then Some (integer_out sp (arg_uint env len k) 10 False None False, k + 1)
      else if c = 0x78 then Some (integer_out sp (arg_uint env len k) 16 False None (sp_alt sp), k + 1)
      else if c = 0x58 then Some (integer_out sp (arg_uint env len k) 16 True None (sp_alt sp), k + 1)
      else if c = 0x6F then Some (integer_out sp (arg_uint env len k) 8 False None (sp_alt sp), k + 1)
      else if c = 0x70 then Some (integer_out (sp\<lparr>sp_alt := True\<rparr>) (unat (arg_slot env k)) 16 False None True, k + 1)
      else if c = 0x66 \<or> c = 0x46 then Some (float_out sp (float_at env (arg_slot env k)), k + 1)
      else None)"

definition parse_spec :: "fmt_env \<Rightarrow> u8 list \<Rightarrow> nat \<Rightarrow> fmt_spec \<times> nat \<times> u8 list" where
  "parse_spec env cs k =
     (let (sp, cs) = parse_flags cs spec_default;
          (sp, k, cs) = parse_width env cs k sp;
          (sp, k, cs) = parse_precision env cs k sp;
          (sp, cs) = parse_length cs sp
      in (sp, k, cs))"

lemma parse_flags_length: "length (snd (parse_flags cs sp)) \<le> length cs"
  by (induction cs sp rule: parse_flags.induct) auto

lemma parse_number_length: "length (snd (parse_number cs w)) \<le> length cs"
  by (induction cs w rule: parse_number.induct) auto

lemma parse_width_length: "length (snd (snd (parse_width env cs k sp))) \<le> length cs"
  using parse_number_length [of cs "sp_width sp"] by (auto simp: parse_width_def Let_def split: list.splits prod.splits)

lemma parse_precision_length: "length (snd (snd (parse_precision env cs k sp))) \<le> length cs"
  using parse_number_length [of "tl cs" 0] by (auto simp: parse_precision_def Let_def split: list.splits prod.splits)

lemma parse_length_length: "length (snd (parse_length cs sp)) \<le> length cs"
  by (induction cs sp rule: parse_length.induct) auto

lemma parse_spec_length:
  assumes "parse_spec env cs k = (sp, k', rest)"
  shows "length rest \<le> length cs"
proof -
  obtain s1 c1 where 1: "parse_flags cs spec_default = (s1, c1)" by fastforce
  obtain s2 k2 c2 where 2: "parse_width env c1 k s1 = (s2, k2, c2)" by (metis prod_cases3)
  obtain s3 k3 c3 where 3: "parse_precision env c2 k2 s2 = (s3, k3, c3)" by (metis prod_cases3)
  obtain s4 c4 where 4: "parse_length c3 s3 = (s4, c4)" by fastforce
  have "rest = c4" using assms 1 2 3 4 by (simp add: parse_spec_def)
  then show ?thesis
    using parse_flags_length [of cs spec_default] parse_width_length [of env c1 k s1] parse_precision_length [of env c2 k2 s2]
      parse_length_length [of c3 s3] 1 2 3 4 by simp
qed

function format_from :: "fmt_env \<Rightarrow> u8 list \<Rightarrow> nat \<Rightarrow> u8 list" where
  "format_from env [] k = []"
| "format_from env (c # cs) k =
     (if c \<noteq> 0x25 then c # format_from env cs k
      else case cs of
             [] \<Rightarrow> [0x25]
           | d # ds \<Rightarrow>
               if d = 0x25 then 0x25 # format_from env ds k
               else (case parse_spec env cs k of
                       (sp, k', []) \<Rightarrow> []
                     | (sp, k', e # es) \<Rightarrow>
                         (case convert env e k' sp of
                            Some (t, k'') \<Rightarrow> t @ format_from env es k''
                          | None \<Rightarrow> take (length (c # cs) - length es) (c # cs) @ format_from env es k')))"
  by pat_completeness auto
termination
  by (relation "measure (\<lambda>(_, cs, _). length cs)") (auto dest!: parse_spec_length [OF sym])

declare format_from.simps [simp del]

definition format_all :: "fmt_env \<Rightarrow> u8 list \<Rightarrow> u8 list" where
  "format_all env fmt = format_from env fmt 0"

section \<open>Sinks\<close>

record buf_sink =
  bs_buf :: "u8 list"
  bs_written :: nat

definition sink_push :: "u8 \<Rightarrow> buf_sink \<Rightarrow> buf_sink" where
  "sink_push b s =
     (if bs_written s < length (bs_buf s) then s\<lparr>bs_buf := (bs_buf s)[bs_written s := b], bs_written := bs_written s + 1\<rparr>
      else s\<lparr>bs_written := bs_written s + 1\<rparr>)"

text \<open>\<^verbatim>\<open>snprintf\<close> into a buffer: the full length as a C \<^verbatim>\<open>int\<close>, and the buffer left behind.\<close>

definition snprintf :: "fmt_env \<Rightarrow> u8 list \<Rightarrow> u8 list \<Rightarrow> int \<times> u8 list" where
  "snprintf env fmt buf =
     (let s = fold sink_push (format_all env fmt) \<lparr>bs_buf = buf, bs_written = 0\<rparr>; n = length (format_all env fmt)
      in (sint (of_nat n :: u32), if buf = [] then bs_buf s else (bs_buf s)[min n (length buf - 1) := 0]))"

end
