(* ===== verification/CbytesProps.thy ===== *)
theory CbytesProps
  imports Cbytes
begin

text \<open>
  What the C string functions promise: \<^verbatim>\<open>strcmp\<close> is the sign of the dictionary order on unsigned bytes, a search
  finds the first occurrence, and the parsers give the number's value clamped to the type.
\<close>

section \<open>Comparison\<close>

lemma compare_bytes_swap: "compare_bytes b a = - compare_bytes a b"
  by (induction a b rule: compare_bytes.induct) auto

lemma uint_differ: "uint (x :: u8) = uint y \<longleftrightarrow> x = y" "uint (x :: u8) - uint y = 0 \<longleftrightarrow> x = y" "uint (x :: u8) - uint y < 0 \<longleftrightarrow> x < y"
  by (simp_all add: word_less_def word_uint_eq_iff)

lemma uint_pos: "uint (x :: u8) \<noteq> 0 \<longleftrightarrow> x \<noteq> 0" "0 < uint (x :: u8) \<longleftrightarrow> x \<noteq> 0"
  by (simp_all add: uint_0_iff less_le)

lemma strcmp_Cons:
  "strcmp (x # a) (y # b) = (if x \<noteq> y then uint x - uint y else strcmp a b)"
  by (simp add: strcmp_def Let_def uint_differ)

lemma strcmp_Nil: "strcmp [] [] = 0" "strcmp [] (y # b) = - uint y" "strcmp (x # a) [] = uint x"
  by (simp_all add: strcmp_def)

lemma strcmp_swap: "strcmp b a = - strcmp a b"
proof (induction a arbitrary: b)
  case Nil
  then show ?case by (cases b) (simp_all add: strcmp_Nil)
next
  case (Cons x a)
  then show ?case by (cases b) (simp_all add: strcmp_Cons strcmp_Nil)
qed

definition byte_order :: "(u8 \<times> u8) set" where
  "byte_order = {(x, y). x < y}"

lemma strcmp_order:
  assumes "0 \<notin> set a" "0 \<notin> set b"
  shows "strcmp a b = 0 \<longleftrightarrow> a = b" "strcmp a b < 0 \<longleftrightarrow> (a, b) \<in> lexord byte_order"
proof -
  have "(strcmp a b = 0 \<longleftrightarrow> a = b) \<and> (strcmp a b < 0 \<longleftrightarrow> (a, b) \<in> lexord byte_order)"
    using assms
  proof (induction a arbitrary: b)
    case Nil
    then show ?case by (cases b) (auto simp: strcmp_Nil uint_pos)
  next
    case (Cons x a)
    show ?case
    proof (cases b)
      case Nil
      then show ?thesis using Cons.prems uint_pos [of x] by (simp add: strcmp_Nil)
    next
      case (Cons y b')
      then show ?thesis using Cons.IH [of b'] Cons.prems uint_differ [of x y]
        by (auto simp: strcmp_Cons byte_order_def)
    qed
  qed
  then show "strcmp a b = 0 \<longleftrightarrow> a = b" "strcmp a b < 0 \<longleftrightarrow> (a, b) \<in> lexord byte_order" by simp_all
qed

text \<open>
  On C strings (no byte is zero) \<^verbatim>\<open>strcmp\<close> is zero exactly when they are equal and negative exactly when the first
  comes first in the dictionary order of their unsigned bytes; swapping the arguments flips the sign.
\<close>

theorem strcmp_dictionary:
  assumes "0 \<notin> set a" "0 \<notin> set b"
  shows "(strcmp a b = 0 \<longleftrightarrow> a = b) \<and> (strcmp a b < 0 \<longleftrightarrow> (a, b) \<in> lexord byte_order) \<and> strcmp b a = - strcmp a b"
  using strcmp_order [OF assms] strcmp_swap by blast

theorem strcmp_dictionary_witness:
  "(strcmp [0x61] [0xC3, 0xA9] = 0 \<longleftrightarrow> [0x61] = [0xC3 :: u8, 0xA9]) \<and> (strcmp [0x61] [0xC3, 0xA9] < 0 \<longleftrightarrow> ([0x61], [0xC3, 0xA9]) \<in> lexord byte_order)
     \<and> strcmp [0xC3, 0xA9] [0x61] = - strcmp [0x61] [0xC3, 0xA9]"
  by (rule strcmp_dictionary) simp_all

text \<open>\<^verbatim>\<open>strncmp\<close> is \<^verbatim>\<open>strcmp\<close> of the two strings cut to \<open>n\<close> bytes.\<close>

lemma compare_prefix: "length a = length b \<Longrightarrow> compare_bytes a b = strcmp a b"
  by (induction a b rule: list_induct2) (simp_all add: strcmp_Cons strcmp_Nil)

theorem strncmp_cut: "strncmp a b n = strcmp (take n a) (take n b)"
proof -
  have t: "take (min (length c) n) c = take n c" for c :: "u8 list" by (simp add: min_def)
  show ?thesis
    unfolding strncmp_def Let_def t by (cases "length (take n a) = n \<and> length (take n b) = n") (simp_all only: compare_prefix if_True if_False HOL.simp_thms)
qed

section \<open>Search\<close>

lemma List_find_upt: "List.find P [0..<k] = Some i \<longleftrightarrow> i < k \<and> P i \<and> (\<forall>j<i. \<not> P j)"
  by (auto simp: find_Some_iff)

definition occurs_at :: "u8 list \<Rightarrow> u8 list \<Rightarrow> nat \<Rightarrow> bool" where
  "occurs_at h n i \<longleftrightarrow> i + length n \<le> length h \<and> take (length n) (drop i h) = n"

text \<open>\<^verbatim>\<open>strstr\<close> and \<^verbatim>\<open>memmem\<close> find the first place the needle occurs at, and nothing exactly when it occurs nowhere.\<close>

theorem find_first:
  "(find_bytes h n = Some i \<longleftrightarrow> occurs_at h n i \<and> \<not> (\<exists>j<i. occurs_at h n j)) \<and> (find_bytes h n = None \<longleftrightarrow> \<not> (\<exists>j. occurs_at h n j))"
proof -
  have lt: "j < length h - length n + 1 \<longleftrightarrow> j + length n \<le> length h" if "length n \<le> length h" for j using that by auto
  show ?thesis
  proof (cases "n = []")
    case True
    then show ?thesis by (auto simp: find_bytes_def occurs_at_def intro: exI [of _ 0])
  next
    case n: False
    show ?thesis
    proof (cases "length h < length n")
      case True
      then show ?thesis using n by (auto simp: find_bytes_def occurs_at_def)
    next
      case False
      then have e: "find_bytes h n = List.find (\<lambda>i. take (length n) (drop i h) = n) [0..<length h - length n + 1]"
        using n by (simp add: find_bytes_def)
      have "find_bytes h n = Some i \<longleftrightarrow> occurs_at h n i \<and> \<not> (\<exists>j<i. occurs_at h n j)"
        unfolding e List_find_upt using lt False by (auto simp: occurs_at_def)
      moreover have "find_bytes h n = None \<longleftrightarrow> \<not> (\<exists>j. occurs_at h n j)"
      proof -
        have "find_bytes h n = None \<longleftrightarrow> (\<forall>j<length h - length n + 1. take (length n) (drop j h) \<noteq> n)"
          unfolding e by (auto simp: find_None_iff simp del: upt_Suc)
        then show ?thesis using lt False by (simp only: occurs_at_def) (metis not_less)
      qed
      ultimately show ?thesis by blast
    qed
  qed
qed

lemma position_takeWhile: "(case position p s of Some i \<Rightarrow> i | None \<Rightarrow> length s) = length (takeWhile (\<lambda>x. \<not> p x) s)"
  by (induction s) (auto split: option.splits)

lemma spans:
  "complement_span s r = length (takeWhile (\<lambda>b. b \<notin> set r) s)" "span_of s r = length (takeWhile (\<lambda>b. b \<in> set r) s)"
  by (simp_all add: complement_span_def span_of_def position_takeWhile)

section \<open>Numbers\<close>

text \<open>The value of the digits at the head of \<open>s\<close>, after a value \<open>v\<close>, and how many they are.\<close>

fun run_value :: "int \<Rightarrow> u8 list \<Rightarrow> int \<Rightarrow> int" where
  "run_value radix [] v = v"
| "run_value radix (c # cs) v = (case digit c radix of None \<Rightarrow> v | Some d \<Rightarrow> run_value radix cs (v * radix + int d))"

definition digit_run :: "int \<Rightarrow> u8 list \<Rightarrow> nat" where
  "digit_run radix s = length (takeWhile (\<lambda>c. digit c radix \<noteq> None) s)"

lemma digit_radix: "digit c radix = Some d \<Longrightarrow> int d < radix"
  by (auto simp: digit_def Let_def split: option.splits if_splits)

lemma run_value_ge: "0 \<le> v \<Longrightarrow> v \<le> run_value radix s v"
proof (induction s arbitrary: v)
  case Nil
  then show ?case by simp
next
  case (Cons c cs)
  show ?case
  proof (cases "digit c radix")
    case None
    then show ?thesis by simp
  next
    case (Some d)
    have r: "1 \<le> radix" using digit_radix [OF Some] by linarith
    then have "v \<le> v * radix" using Cons.prems by (simp add: mult_le_cancel_left1)
    then have "v \<le> v * radix + int d" by linarith
    moreover have "0 \<le> v * radix + int d" using Cons.prems r by simp
    ultimately show ?thesis using Cons.IH [of "v * radix + int d"] Some by simp
  qed
qed

lemma signed_digits_saturated: "signed_digits radix s v True = (r, b, n) \<Longrightarrow> b \<and> n = digit_run radix s"
  by (induction s arbitrary: v r b n)
     (auto simp: digit_run_def Let_def split: option.splits prod.splits)

lemma signed_digits_value:
  "0 \<le> v \<Longrightarrow> v \<le> I64_MAX \<Longrightarrow> signed_digits radix s v False = (r, b, n) \<Longrightarrow>
     n = digit_run radix s \<and> (b \<longleftrightarrow> I64_MAX < run_value radix s v) \<and> (\<not> b \<longrightarrow> r = run_value radix s v)"
proof (induction s arbitrary: v r b n)
  case Nil
  then show ?case by (simp add: digit_run_def)
next
  case (Cons c cs)
  show ?case
  proof (cases "digit c radix")
    case None
    then show ?thesis using Cons.prems by (simp add: digit_run_def)
  next
    case (Some d)
    have r: "1 \<le> radix" using digit_radix [OF Some] by linarith
    have nn: "0 \<le> v * radix" "0 \<le> v * radix + int d" using Cons.prems r by simp_all
    have step: "Option.bind (checked_i64 (v * radix)) (\<lambda>x. checked_i64 (x + int d))
        = (if v * radix + int d \<le> I64_MAX then Some (v * radix + int d) else None)"
      using nn by (auto simp: checked_i64_def I64_MIN_def)
    show ?thesis
    proof (cases "v * radix + int d \<le> I64_MAX")
      case True
      obtain r' b' n' where s: "signed_digits radix cs (v * radix + int d) False = (r', b', n')" by (metis prod_cases3)
      then have "r = r'" "b = b'" "n = Suc n'" using Cons.prems(3) Some step True by simp_all
      then show ?thesis using Cons.IH [OF nn(2) True s] Some by (simp add: digit_run_def)
    next
      case False
      obtain r' b' n' where s: "signed_digits radix cs I64_MAX True = (r', b', n')" by (metis prod_cases3)
      then have "r = r'" "b = b'" "n = Suc n'" using Cons.prems(3) Some step False by simp_all
      moreover have "I64_MAX < run_value radix (c # cs) v"
        using run_value_ge [OF nn(2), of radix cs] False Some by simp
      ultimately show ?thesis using signed_digits_saturated [OF s] Some by (simp add: digit_run_def)
    qed
  qed
qed

definition clamp :: "int \<Rightarrow> int" where
  "clamp v = max I64_MIN (min I64_MAX v)"

lemma strtol_eq:
  assumes p: "number_prefix s radix = (negative, radix', start)"
  shows "strtol s radix = (let ds = drop start s; v = run_value radix' ds 0 in
      if digit_run radix' ds = 0 then (0, 0) else (clamp (if negative then - v else v), start + digit_run radix' ds))"
proof -
  obtain r b n where d: "signed_digits radix' (drop start s) 0 False = (r, b, n)" by (metis prod_cases3)
  have f: "n = digit_run radix' (drop start s)" "b \<longleftrightarrow> I64_MAX < run_value radix' (drop start s) 0"
    "\<not> b \<longrightarrow> r = run_value radix' (drop start s) 0"
    using signed_digits_value [OF _ _ d] by (simp_all add: I64_MAX_def)
  have nn: "0 \<le> run_value radix' (drop start s) 0" by (rule run_value_ge) simp
  show ?thesis
    using f nn p d by (auto simp: strtol_def Let_def clamp_def I64_MIN_def I64_MAX_def)
qed

text \<open>
  \<^verbatim>\<open>strtol\<close> gives the value of the number written, clamped to the range of a 64-bit integer, and the number of bytes
  it took; a string with no digits after its prefix takes nothing and gives 0. Nothing wraps, whatever the length.
\<close>

theorem strtol_value:
  "\<exists>negative radix' start. number_prefix s radix = (negative, radix', start) \<and>
     strtol s radix = (let ds = drop start s; v = run_value radix' ds 0 in
      if digit_run radix' ds = 0 then (0, 0) else (clamp (if negative then - v else v), start + digit_run radix' ds))"
  using strtol_eq prod_cases3 by metis

text \<open>The unsigned parser reaches the whole range of the type before it saturates.\<close>

lemma unsigned_digits_saturated: "unsigned_digits radix s v True = (r, b, n) \<Longrightarrow> b \<and> n = digit_run radix s"
  by (induction s arbitrary: v r b n)
     (auto simp: digit_run_def Let_def split: option.splits prod.splits)

lemma unsigned_digits_value:
  assumes "radix < 2 ^ 64"
  shows "v \<le> U64_MAX \<Longrightarrow> unsigned_digits radix s v False = (r, b, n) \<Longrightarrow>
     n = digit_run radix s \<and> (b \<longleftrightarrow> int U64_MAX < run_value radix s (int v)) \<and> (\<not> b \<longrightarrow> int r = run_value radix s (int v))"
proof (induction s arbitrary: v r b n)
  case Nil
  then show ?case by (simp add: digit_run_def)
next
  case (Cons c cs)
  show ?case
  proof (cases "digit c radix")
    case None
    then show ?thesis using Cons.prems by (simp add: digit_run_def)
  next
    case (Some d)
    have r: "1 \<le> radix" using digit_radix [OF Some] by linarith
    let ?w = "v * nat (radix mod 2 ^ 64) + d"
    have m: "radix mod 2 ^ 64 = radix" using r assms by simp
    have w: "int ?w = int v * radix + int d" unfolding m using r by simp
    have step: "Option.bind (checked_u64 (v * nat (radix mod 2 ^ 64))) (\<lambda>x. checked_u64 (x + d))
        = (if ?w \<le> U64_MAX then Some ?w else None)"
      by (auto simp: checked_u64_def)
    show ?thesis
    proof (cases "?w \<le> U64_MAX")
      case True
      obtain r' b' n' where s: "unsigned_digits radix cs ?w False = (r', b', n')" by (metis prod_cases3)
      then have "r = r'" "b = b'" "n = Suc n'" using Cons.prems(2) Some step True by simp_all
      then show ?thesis using Cons.IH [OF True s, unfolded w] Some by (simp add: digit_run_def)
    next
      case False
      obtain r' b' n' where s: "unsigned_digits radix cs U64_MAX True = (r', b', n')" by (metis prod_cases3)
      then have "r = r'" "b = b'" "n = Suc n'" using Cons.prems(2) Some step False by simp_all
      moreover have "int U64_MAX < run_value radix (c # cs) (int v)"
      proof -
        have "int U64_MAX < int ?w" using False by linarith
        then show ?thesis using run_value_ge [of "int ?w" radix cs, unfolded w] Some unfolding w by simp
      qed
      ultimately show ?thesis using unsigned_digits_saturated [OF s] Some by (simp add: digit_run_def)
    qed
  qed
qed

end
