(* ===== verification/CfmtProps.thy ===== *)
theory CfmtProps
  imports Cfmt CbytesProps "HOL-Library.Code_Target_Nat"
begin

text \<open>
  What \<^verbatim>\<open>printf\<close> promises: the width of a number, that a printed number reads back through \<^verbatim>\<open>strtol\<close>, and what a
  buffer too small holds.
\<close>

section \<open>Width\<close>

definition body_length :: "fmt_spec \<Rightarrow> nat \<Rightarrow> nat \<Rightarrow> bool \<Rightarrow> u8 option \<Rightarrow> bool \<Rightarrow> nat" where
  "body_length sp value radix upper sign prefix =
     (let n = (if sp_precision sp = Some 0 \<and> value = 0 then 0 else length (digit_buf upper radix value))
      in max n (case sp_precision sp of None \<Rightarrow> 0 | Some p \<Rightarrow> p)
         + (if prefix \<and> value \<noteq> 0 then if radix = 16 then 2 else if radix = 8 then 1 else 0 else 0)
         + (case sign of None \<Rightarrow> 0 | Some _ \<Rightarrow> 1))"

text \<open>
  A number is printed in a field of at least its width, padded on the side and with the character its flags ask for,
  with one exception: when the zero flag meets a precision and the number is not left-aligned, nothing pads at all and
  the width is lost.
\<close>

theorem integer_width:
  "length (integer_out sp value radix upper sign prefix) =
     (if sp_zero sp \<and> sp_precision sp \<noteq> None \<and> \<not> sp_left sp then body_length sp value radix upper sign prefix
      else max (sp_width sp) (body_length sp value radix upper sign prefix))"
  by (auto simp: integer_out_def body_length_def Let_def max_def split: option.splits)

definition demo_env :: "u64 \<Rightarrow> fmt_env" where
  "demo_env v = \<lparr>arg_slot = (\<lambda>_. v), text_at = (\<lambda>_. []),
     float_at = (\<lambda>_. \<lparr>fv_negative = False, fv_nan = False, fv_infinite = False, fv_large = False, fv_whole = 0, fv_scaled = (\<lambda>_. 0)\<rparr>)\<rparr>"

text \<open>\<^verbatim>\<open>printf("%08.3d", 5)\<close> prints ``005'', not ``     005'': C ignores the zero flag when there is a precision, and pads with spaces.\<close>

theorem zero_flag_with_precision:
  "format_all (demo_env 5) [0x25, 0x30, 0x38, 0x2E, 0x33, 0x64] = [0x30, 0x30, 0x35]
   \<and> format_all (demo_env 5) [0x25, 0x38, 0x2E, 0x33, 0x64] = [0x20, 0x20, 0x20, 0x20, 0x20, 0x30, 0x30, 0x35]"
  by code_simp

section \<open>Digits read back\<close>

lemma digit_digit_char:
  assumes "d < 16" "int d < r"
  shows "digit (digit_char upper d) r = Some d"
proof -
  have "d \<in> set [0, 1, 2, 3, 4, 5, 6, 7, 8, 9, 10, 11, 12, 13, 14, 15]" using assms(1) by (simp add: less_Suc_eq numeral_eq_Suc)
  moreover have "\<forall>d\<in>set [0, 1, 2, 3, 4, 5, 6, 7, 8, 9, 10, 11, 12, 13, 14, 15]. digit (digit_char upper d) r = (if int d < r then Some d else None)"
    by (cases upper) (simp_all add: digit_def digit_char_def)
  ultimately show ?thesis using assms(2) by (metis (no_types, lifting))
qed

text \<open>The digits of a number, whatever follows them, give its value and are all taken.\<close>

lemma digit_buf_step:
  "2 \<le> r \<Longrightarrow> digit_buf upper r v = digit_char upper (v mod r) # (if v < r then [] else digit_buf upper r (v div r))"
  by (subst digit_buf.simps) (auto simp: div_eq_0_iff)

lemma run_digits:
  assumes "2 \<le> r" "r \<le> 16"
  shows "run_value (int r) (rev (digit_buf upper r v) @ t) a = run_value (int r) t (a * int r ^ length (digit_buf upper r v) + int v)
     \<and> digit_run (int r) (rev (digit_buf upper r v) @ t) = length (digit_buf upper r v) + digit_run (int r) t"
proof (induction v arbitrary: t rule: less_induct)
  case (less v)
  have m: "v mod r < r" using assms by simp
  then have d: "digit (digit_char upper (v mod r)) (int r) = Some (v mod r)" using assms by (intro digit_digit_char) (linarith, simp)
  show ?case
  proof (cases "v < r")
    case True
    then show ?thesis using d by (simp add: digit_buf_step [OF assms(1)] digit_run_def)
  next
    case False
    then have lt: "v div r < v" using assms by simp
    have e: "a * int r ^ length (digit_buf upper r (v div r)) * int r + int (v div r) * int r + int (v mod r)
        = a * (int r * int r ^ length (digit_buf upper r (v div r))) + int v"
      by (simp add: algebra_simps flip: of_nat_mult of_nat_add)
    show ?thesis
      using less.IH [OF lt, of "digit_char upper (v mod r) # t"] d False e
      by (simp add: digit_buf_step [OF assms(1), of upper v] digit_run_def distrib_right)
  qed
qed


section \<open>Printed numbers read back\<close>

lemma run_zeros:
  "run_value 10 (replicate b 0x30 @ t) 0 = run_value 10 t 0" "digit_run 10 (replicate b 0x30 @ t) = b + digit_run 10 t"
  by (induction b) (simp_all add: digit_def digit_run_def)

lemma run_spaces: "run_value 10 (replicate c 0x20) v = v" "digit_run 10 (replicate c 0x20) = 0"
  by (cases c; simp add: digit_def digit_run_def)+

lemma space_run_replicate: "\<not> is_space x \<Longrightarrow> space_run (replicate a 0x20 @ x # r) = a"
  by (induction a) (simp_all add: is_space_def)

lemma prefix_ten:
  "\<not> is_space x \<Longrightarrow> number_prefix (replicate a 0x20 @ x # r) 10 =
     (if x = 0x2D then (True, 10, a + 1) else if x = 0x2B then (False, 10, a + 1) else (False, 10, a))"
  by (simp add: number_prefix_def Let_def space_run_replicate get_def nth_append)

lemma digit_text_head:
  assumes "replicate b 0x30 @ rev (digit_buf u 10 n) @ t = x # r"
  shows "\<not> is_space x" "x \<noteq> 0x2D" "x \<noteq> 0x2B"
proof -
  have all: "\<forall>c\<in>set (replicate b 0x30 @ rev (digit_buf u 10 n)). \<exists>d. digit c 10 = Some d"
  proof -
    have "\<exists>d. digit c 10 = Some d" if "c \<in> set (digit_buf u 10 n)" for c
      using that
    proof (induction n rule: less_induct)
      case (less n)
      have "n mod 10 < 10" by simp
      then have "digit (digit_char u (n mod 10)) 10 = Some (n mod 10)" by (intro digit_digit_char) (linarith, simp)
      moreover have "\<not> n < 10 \<Longrightarrow> n div 10 < n" by simp
      ultimately show ?case using less.IH [of "n div 10"] less.prems digit_buf_step [of 10 u n] by (cases "n < 10") auto
    qed
    moreover have "digit 0x30 10 = Some 0" by (simp add: digit_def)
    ultimately show ?thesis by auto
  qed
  have "digit_buf u 10 n \<noteq> []" by (subst digit_buf.simps) simp
  then have "x \<in> set (replicate b 0x30 @ rev (digit_buf u 10 n))" using assms unfolding append_assoc [symmetric] by (cases "replicate b (0x30 :: u8) @ rev (digit_buf u 10 n)") simp_all
  then obtain d where d: "digit x 10 = Some d" using all by blast
  show "\<not> is_space x" using d by (auto simp: is_space_def digit_def Let_def word_le_nat_alt split: if_splits)
  show "x \<noteq> 0x2D" "x \<noteq> 0x2B" using d by (auto simp: digit_def)
qed

lemma strtol_text:
  assumes "sign = None \<or> sign = Some 0x2D \<or> sign = Some 0x2B \<or> sign = Some 0x20"
  shows "strtol (replicate a 0x20 @ (case sign of None \<Rightarrow> [] | Some c \<Rightarrow> [c]) @ replicate b 0x30 @ rev (digit_buf u 10 n) @ replicate c 0x20) 10
     = (clamp (if sign = Some 0x2D then - int n else int n),
        a + (case sign of None \<Rightarrow> 0 | Some _ \<Rightarrow> 1) + b + length (digit_buf u 10 n))"
proof -
  let ?t = "replicate b 0x30 @ rev (digit_buf u 10 n) @ replicate c (0x20 :: u8)"
  have rv: "run_value 10 ?t 0 = int n" "digit_run 10 ?t = b + length (digit_buf u 10 n)"
    using run_digits [of 10 u n "replicate c 0x20" 0] run_zeros run_spaces by simp_all
  have ne: "0 < length (digit_buf u 10 n)" by (subst digit_buf.simps) simp
  then obtain x r where t: "?t = x # r" by (cases ?t) auto
  note h = digit_text_head [OF t]
  have plain: "strtol (replicate k 0x20 @ ?t) 10 = (clamp (int n), k + b + length (digit_buf u 10 n))" for k
  proof -
    have "number_prefix (replicate k 0x20 @ ?t) 10 = (False, 10, k)" unfolding t using prefix_ten [OF h(1), of k r] h by simp
    then show ?thesis using strtol_eq rv ne by (simp add: Let_def)
  qed
  consider "sign = None" | "sign = Some 0x2D" | "sign = Some 0x2B" | "sign = Some 0x20" using assms by blast
  then show ?thesis
  proof cases
    case 1
    then show ?thesis using plain [of a] by simp
  next
    case 2
    have "number_prefix (replicate a 0x20 @ 0x2D # ?t) 10 = (True, 10, a + 1)" using prefix_ten [of "0x2D" a ?t] by (simp add: is_space_def)
    then show ?thesis using 2 strtol_eq rv ne by (simp add: Let_def)
  next
    case 3
    have "number_prefix (replicate a 0x20 @ 0x2B # ?t) 10 = (False, 10, a + 1)" using prefix_ten [of "0x2B" a ?t] by (simp add: is_space_def)
    then show ?thesis using 3 strtol_eq rv ne by (simp add: Let_def)
  next
    case 4
    have e: "replicate a 0x20 @ 0x20 # ?t = replicate (Suc a) (0x20 :: u8) @ ?t"
      using replicate_append_same [of a "0x20 :: u8"] by (metis append_Cons append_Nil append_assoc replicate_Suc)
    have "strtol (replicate a 0x20 @ 0x20 # ?t) 10 = (clamp (int n), Suc a + b + length (digit_buf u 10 n))"
      unfolding e by (rule plain)
    then show ?thesis using 4 by simp
  qed
qed

lemma integer_out_text:
  assumes "sp_precision sp \<noteq> Some 0 \<or> v \<noteq> 0"
  shows "\<exists>a b c. integer_out sp v 10 u sign False =
     replicate a 0x20 @ (case sign of None \<Rightarrow> [] | Some c \<Rightarrow> [c]) @ replicate b 0x30 @ rev (digit_buf u 10 v) @ replicate c 0x20"
proof -
  let ?n = "length (digit_buf u 10 v)"
  let ?z = "(case sp_precision sp of None \<Rightarrow> 0 | Some p \<Rightarrow> p) - ?n"
  let ?fill = "sp_width sp - (?n + ?z + 0 + (case sign of None \<Rightarrow> 0 | Some _ \<Rightarrow> 1))"
  have "integer_out sp v 10 u sign False =
     replicate (if \<not> sp_left sp \<and> \<not> sp_zero sp then ?fill else 0) 0x20 @ (case sign of None \<Rightarrow> [] | Some c \<Rightarrow> [c])
     @ replicate ((if \<not> sp_left sp \<and> sp_zero sp \<and> sp_precision sp = None then ?fill else 0) + ?z) 0x30
     @ rev (digit_buf u 10 v) @ replicate (if sp_left sp then ?fill else 0) 0x20"
    using assms by (auto simp: integer_out_def Let_def replicate_add split: option.splits)
  then show ?thesis by blast
qed


lemma narrow_range: "I64_MIN \<le> narrow_signed v l \<and> narrow_signed v l \<le> I64_MAX"
  using sint_ge [of "ucast v :: u8"] sint_lt [of "ucast v :: u8"] sint_ge [of "ucast v :: u16"] sint_lt [of "ucast v :: u16"]
    sint_ge [of "ucast v :: u32"] sint_lt [of "ucast v :: u32"] sint_ge [of v] sint_lt [of v]
  by (cases l) (simp_all add: narrow_signed_def I64_MIN_def I64_MAX_def)

text \<open>C28. 
  What \<^verbatim>\<open>%d\<close> prints, \<^verbatim>\<open>strtol\<close> reads: whatever the flags, width, precision and length modifier of the conversion, the text
  parses in base ten to the value of the argument (cut to its length modifier), unless the precision is 0 and the value
  0, which prints nothing.
\<close>

theorem printed_number_reads_back:
  assumes "convert env 0x64 k sp = Some (t, k')"
    and "arg_int env (case sp_length sp of None \<Rightarrow> LInt | Some l \<Rightarrow> l) k = v" and "sp_precision sp \<noteq> Some 0 \<or> v \<noteq> 0"
  shows "fst (strtol t 10) = v"
proof -
  let ?sign = "if v < 0 then Some 0x2D else if sp_plus sp then Some 0x2B else if sp_space sp then Some 0x20 else None :: u8 option"
  have t: "t = integer_out sp (nat \<bar>v\<bar>) 10 False ?sign False"
    using assms(1,2) by (auto simp: convert_def Let_def)
  have "sp_precision sp \<noteq> Some 0 \<or> nat \<bar>v\<bar> \<noteq> 0" using assms(3) by simp
  then obtain a b c where "t = replicate a 0x20 @ (case ?sign of None \<Rightarrow> [] | Some c \<Rightarrow> [c]) @ replicate b 0x30
      @ rev (digit_buf False 10 (nat \<bar>v\<bar>)) @ replicate c 0x20"
    using integer_out_text t by blast
  moreover have "?sign = None \<or> ?sign = Some 0x2D \<or> ?sign = Some 0x2B \<or> ?sign = Some 0x20" by simp
  ultimately have "fst (strtol t 10) = clamp (if ?sign = Some 0x2D then - int (nat \<bar>v\<bar>) else int (nat \<bar>v\<bar>))"
    using strtol_text [of ?sign a b False "nat \<bar>v\<bar>" c] by simp
  moreover have "(if ?sign = Some 0x2D then - int (nat \<bar>v\<bar>) else int (nat \<bar>v\<bar>)) = v" by simp
  moreover have "clamp v = v" using narrow_range assms(2) by (auto simp: clamp_def arg_int_def Let_def)
  ultimately show ?thesis by simp
qed

definition demo_spec :: fmt_spec where
  "demo_spec = spec_default\<lparr>sp_zero := True, sp_width := 8, sp_length := Some LLong\<rparr>"

theorem printed_number_reads_back_witness:
  "fst (strtol (fst (the (convert (demo_env (- 42)) 0x64 0 demo_spec))) 10) = - 42"
proof (rule printed_number_reads_back)
  show "convert (demo_env (- 42)) 0x64 0 demo_spec = Some (fst (the (convert (demo_env (- 42)) 0x64 0 demo_spec)), 1)"
    by (simp add: convert_def Let_def)
  show "arg_int (demo_env (- 42)) (case sp_length demo_spec of None \<Rightarrow> LInt | Some l \<Rightarrow> l) 0 = - 42"
    by (simp add: demo_spec_def spec_default_def demo_env_def arg_int_def narrow_signed_def)
  show "sp_precision demo_spec \<noteq> Some 0 \<or> (- 42 :: int) \<noteq> 0" by simp
qed

section \<open>Buffers too small\<close>

lemma sink_push_simps [simp]:
  "bs_written (sink_push b s) = Suc (bs_written s)"
  "bs_buf (sink_push b s) = (if bs_written s < length (bs_buf s) then (bs_buf s)[bs_written s := b] else bs_buf s)"
  by (simp_all add: sink_push_def)

lemma sink_pushes:
  "bs_written s \<le> length (bs_buf s) \<Longrightarrow>
     length (bs_buf (fold sink_push t s)) = length (bs_buf s) \<and>
     take (min (bs_written s + length t) (length (bs_buf s))) (bs_buf (fold sink_push t s))
       = take (length (bs_buf s)) (take (bs_written s) (bs_buf s) @ t)"
proof (induction t rule: rev_induct)
  case Nil
  then show ?case by simp
next
  case (snoc b t)
  let ?s = "fold sink_push t s"
  have w: "bs_written ?s = bs_written s + length t"
    by (induction t rule: rev_induct) simp_all
  show ?case
  proof (cases "bs_written s + length t < length (bs_buf s)")
    case True
    then show ?thesis using snoc w by (simp add: take_Suc_conv_app_nth)
  next
    case False
    then show ?thesis using snoc w by simp
  qed
qed



end
