(* ===== verification/Qsort.thy ===== *)
theory Qsort
  imports Cbytes
begin

text \<open>
  \<^verbatim>\<open>crates/staros-libc/src/sort.rs\<close>: \<^verbatim>\<open>qsort\<close> and \<^verbatim>\<open>bsearch\<close> over an array of \<open>count\<close> elements of \<open>sz\<close> bytes. The array
  is the bytes it occupies, an element is moved byte by byte, and the comparison is a function of the bytes of the two
  elements it is given.
\<close>

type_synonym comparator = "u8 list \<Rightarrow> u8 list \<Rightarrow> int"

definition elem :: "nat \<Rightarrow> u8 list \<Rightarrow> nat \<Rightarrow> u8 list" where
  "elem sz m i = take sz (drop (i * sz) m)"

section \<open>Sorting\<close>

text \<open>The byte loop of \<^verbatim>\<open>swap\<close>, from byte \<open>i\<close> on with \<open>n\<close> bytes to go.\<close>

fun swap_loop :: "nat \<Rightarrow> nat \<Rightarrow> nat \<Rightarrow> u8 list \<Rightarrow> u8 list" where
  "swap_loop a b 0 m = m"
| "swap_loop a b (Suc n) m = (let t = m ! a; m1 = m[a := m ! b]; m2 = m1[b := t] in swap_loop (a + 1) (b + 1) n m2)"

definition swap_elems :: "nat \<Rightarrow> nat \<Rightarrow> nat \<Rightarrow> u8 list \<Rightarrow> u8 list" where
  "swap_elems i j sz m = (if i * sz = j * sz then m else swap_loop (i * sz) (j * sz) sz m)"

text \<open>The larger child of \<open>root\<close>, or \<open>root\<close> when no child is greater.\<close>

definition largest_child :: "comparator \<Rightarrow> nat \<Rightarrow> nat \<Rightarrow> nat \<Rightarrow> u8 list \<Rightarrow> nat" where
  "largest_child cmp count sz root m =
     (let left = 2 * root + 1; right = left + 1;
          largest = (if 0 < cmp (elem sz m left) (elem sz m root) then left else root)
      in if right < count \<and> 0 < cmp (elem sz m right) (elem sz m largest) then right else largest)"

lemma largest_child_cases: "largest_child cmp count sz root m \<in> {root, 2 * root + 1, 2 * root + 2}"
  by (auto simp: largest_child_def Let_def)

lemma largest_child_below:
  "2 * root + 1 < count \<Longrightarrow> largest_child cmp count sz root m < count"
  by (auto simp: largest_child_def Let_def)

function sift_down :: "comparator \<Rightarrow> nat \<Rightarrow> nat \<Rightarrow> nat \<Rightarrow> u8 list \<Rightarrow> u8 list" where
  "sift_down cmp count sz root m =
     (if count \<le> 2 * root + 1 then m
      else let largest = largest_child cmp count sz root m in
           if largest = root then m else sift_down cmp count sz largest (swap_elems root largest sz m))"
  by pat_completeness auto
termination
proof (relation "measure (\<lambda>(cmp, count, sz, root, m). count - root)")
  fix cmp count sz root m largest
  assume a: "\<not> count \<le> 2 * root + 1" "largest = largest_child cmp count sz root m" "largest \<noteq> root"
  then have "root < largest" using largest_child_cases [of cmp count sz root m] by auto
  then show "((cmp, count, sz, largest, swap_elems root largest sz m), cmp, count, sz, root, m) \<in> measure (\<lambda>(cmp, count, sz, root, m). count - root)"
    using a by simp
qed simp

declare sift_down.simps [simp del]

definition build_heap :: "comparator \<Rightarrow> nat \<Rightarrow> nat \<Rightarrow> u8 list \<Rightarrow> u8 list" where
  "build_heap cmp count sz m = fold (\<lambda>start m. sift_down cmp count sz start m) (rev [0..<count div 2]) m"

definition drain_heap :: "comparator \<Rightarrow> nat \<Rightarrow> nat \<Rightarrow> u8 list \<Rightarrow> u8 list" where
  "drain_heap cmp count sz m = fold (\<lambda>last m. sift_down cmp last sz 0 (swap_elems 0 last sz m)) (rev [1..<count]) m"

definition sort_bytes :: "comparator \<Rightarrow> nat \<Rightarrow> nat \<Rightarrow> u8 list \<Rightarrow> u8 list" where
  "sort_bytes cmp count sz m =
     (if count < 2 \<or> sz = 0 then m else drain_heap cmp count sz (build_heap cmp count sz m))"

text \<open>The C entry point: no comparison or no array, no sorting.\<close>

definition qsort :: "comparator option \<Rightarrow> nat \<Rightarrow> nat \<Rightarrow> u8 list option \<Rightarrow> u8 list option" where
  "qsort cmp count sz m = (case (cmp, m) of (Some c, Some m) \<Rightarrow> Some (sort_bytes c count sz m) | _ \<Rightarrow> m)"

section \<open>Searching\<close>

function search_from :: "comparator \<Rightarrow> u8 list \<Rightarrow> u8 list \<Rightarrow> nat \<Rightarrow> nat \<Rightarrow> nat \<Rightarrow> nat option" where
  "search_from cmp key m sz lo hi =
     (if lo < hi
      then let mid = lo + (hi - lo) div 2; order = cmp key (elem sz m mid) in
           if order = 0 then Some mid
           else if order < 0 then search_from cmp key m sz lo mid
           else search_from cmp key m sz (mid + 1) hi
      else None)"
  by pat_completeness auto
termination
  by (relation "measure (\<lambda>(_, _, _, _, lo, hi). hi - lo)") auto

declare search_from.simps [simp del]

definition search_bytes :: "u8 list \<Rightarrow> u8 list \<Rightarrow> nat \<Rightarrow> nat \<Rightarrow> comparator \<Rightarrow> nat option" where
  "search_bytes key m count sz cmp = (if sz = 0 then None else search_from cmp key m sz 0 count)"

text \<open>\<^verbatim>\<open>bsearch\<close> gives the address of the element found, as its offset in the array.\<close>

definition bsearch :: "u8 list option \<Rightarrow> u8 list option \<Rightarrow> nat \<Rightarrow> nat \<Rightarrow> comparator option \<Rightarrow> nat option" where
  "bsearch key m count sz cmp =
     (case (key, m, cmp) of
        (Some k, Some b, Some c) \<Rightarrow> map_option (\<lambda>i. i * sz) (search_bytes k b count sz c)
      | _ \<Rightarrow> None)"

end
