(* ===== verification/QsortProps.thy ===== *)
theory QsortProps
  imports Qsort CbytesProps "HOL-Library.Multiset"
begin

text \<open>
  Heapsort and binary search. What a comparison function must be is a locale, met by the library's own \<^verbatim>\<open>memcmp\<close> and
  \<^verbatim>\<open>strcmp\<close>; the byte moves refine the exchange of two elements of a list, on which the heap argument runs.
\<close>

section \<open>Elements\<close>

definition elems :: "nat \<Rightarrow> nat \<Rightarrow> u8 list \<Rightarrow> u8 list list" where
  "elems sz cnt m = map (elem sz m) [0..<cnt]"

lemma length_elems [simp]: "length (elems sz cnt m) = cnt"
  by (simp add: elems_def)

lemma elems_nth [simp]: "i < cnt \<Longrightarrow> elems sz cnt m ! i = elem sz m i"
  by (simp add: elems_def)

lemma swap_loop_length [simp]: "length (swap_loop a b n m) = length m"
  by (induction a b n m rule: swap_loop.induct) (simp_all add: Let_def)

lemma swap_loop_nth:
  "a + n \<le> length m \<Longrightarrow> b + n \<le> length m \<Longrightarrow> a + n \<le> b \<or> b + n \<le> a \<Longrightarrow> k < length m \<Longrightarrow>
     swap_loop a b n m ! k =
       (if a \<le> k \<and> k < a + n then m ! (b + (k - a)) else if b \<le> k \<and> k < b + n then m ! (a + (k - b)) else m ! k)"
proof (induction a b n m rule: swap_loop.induct)
  case (1 a b m)
  then show ?case by auto
next
  case (2 a b n m)
  let ?m = "m[a := m ! b, b := m ! a]"
  have ih: "swap_loop (a + 1) (b + 1) n ?m ! k =
      (if a + 1 \<le> k \<and> k < a + 1 + n then ?m ! (b + 1 + (k - (a + 1)))
       else if b + 1 \<le> k \<and> k < b + 1 + n then ?m ! (a + 1 + (k - (b + 1))) else ?m ! k)"
    by (rule "2.IH" [OF refl refl refl]) (use "2.prems" in \<open>simp_all, linarith\<close>)
  have lt: "a < length m" "b < length m" "a \<noteq> b" using "2.prems" by linarith+
  have mm: "?m ! x = (if x = b then m ! a else if x = a then m ! b else m ! x)" for x
    using lt by (cases "x < length m") (auto simp: nth_list_update)
  have step: "swap_loop a b (Suc n) m ! k = swap_loop (a + 1) (b + 1) n ?m ! k" by (simp add: Let_def)
  consider "k = a" | "k = b" | "a < k" "k < a + Suc n" | "b < k" "k < b + Suc n"
    | "\<not> (a \<le> k \<and> k < a + Suc n)" "\<not> (b \<le> k \<and> k < b + Suc n)" by linarith
  then show ?case
  proof cases
    case 1
    then have e: "\<not> (b + 1 \<le> k \<and> k < b + 1 + n)" "\<not> (a + 1 \<le> k \<and> k < a + 1 + n)" using "2.prems"(3) by linarith+
    show ?thesis unfolding step ih mm if_not_P [OF e(1)] if_not_P [OF e(2)] using 1 lt(3) by simp
  next
    case 2
    then have e: "\<not> (a + 1 \<le> k \<and> k < a + 1 + n)" "\<not> (a \<le> k \<and> k < a + Suc n)" "\<not> (b + 1 \<le> k \<and> k < b + 1 + n)"
      using "2.prems"(3) lt(3) by linarith+
    show ?thesis unfolding step ih mm if_not_P [OF e(1)] if_not_P [OF e(2)] if_not_P [OF e(3)] using 2 lt(3) by simp
  next
    case 3
    then have e: "b + 1 + (k - (a + 1)) = b + (k - a)" "a + 1 \<le> k \<and> k < a + 1 + n" "a \<le> k \<and> k < a + Suc n" by linarith+
    have n: "b + (k - a) \<noteq> b" "b + (k - a) \<noteq> a" using 3 "2.prems"(3) by linarith+
    show ?thesis unfolding step ih if_P [OF e(2)] if_P [OF e(3)] e(1) mm if_not_P [OF n(1)] if_not_P [OF n(2)] by (rule refl)
  next
    case 4
    then have e: "a + 1 + (k - (b + 1)) = a + (k - b)" "\<not> (a + 1 \<le> k \<and> k < a + 1 + n)" "\<not> (a \<le> k \<and> k < a + Suc n)"
      "b + 1 \<le> k \<and> k < b + 1 + n" "b \<le> k \<and> k < b + Suc n" using "2.prems"(3) by linarith+
    have n: "a + (k - b) \<noteq> b" "a + (k - b) \<noteq> a" using 4 "2.prems"(3) by linarith+
    show ?thesis
      unfolding step ih if_not_P [OF e(2)] if_not_P [OF e(3)] if_P [OF e(4)] if_P [OF e(5)] e(1) mm if_not_P [OF n(1)] if_not_P [OF n(2)]
      by (rule refl)
  next
    case 5
    then have e: "\<not> (a + 1 \<le> k \<and> k < a + 1 + n)" "\<not> (b + 1 \<le> k \<and> k < b + 1 + n)" "k \<noteq> a" "k \<noteq> b" by linarith+
    show ?thesis
      unfolding step ih if_not_P [OF e(1)] if_not_P [OF e(2)] mm if_not_P [OF 5(1)] if_not_P [OF 5(2)] if_not_P [OF e(3)] if_not_P [OF e(4)]
      by (rule refl)
  qed
qed

lemma row_offset:
  fixes k sz i j :: nat
  assumes "k < sz" "i \<noteq> j"
  shows "\<not> (i * sz \<le> j * sz + k \<and> j * sz + k < i * sz + sz)"
proof (cases "i < j")
  case True
  then have "(i + 1) * sz \<le> j * sz" by (intro mult_le_mono) simp_all
  then show ?thesis by simp
next
  case False
  then have "(j + 1) * sz \<le> i * sz" using assms by (intro mult_le_mono) simp_all
  then show ?thesis using assms by simp
qed

lemma row_apart: "i \<noteq> j \<Longrightarrow> i * sz + sz \<le> j * sz \<or> j * sz + sz \<le> i * (sz :: nat)"
proof (cases "i < j")
  case True
  then have "(i + 1) * sz \<le> j * sz" by (intro mult_le_mono) simp_all
  then show ?thesis by simp
next
  case False
  assume "i \<noteq> j"
  then have "(j + 1) * sz \<le> i * sz" using False by (intro mult_le_mono) simp_all
  then show ?thesis by simp
qed

text \<open>The byte loop exchanges two elements and touches nothing else.\<close>

lemma elems_swap:
  assumes "length m = cnt * sz" "i < cnt" "j < cnt" "0 < sz"
  shows "elems sz cnt (swap_elems i j sz m) = (elems sz cnt m)[i := elems sz cnt m ! j, j := elems sz cnt m ! i]"
    "length (swap_elems i j sz m) = length m"
proof -
  show "length (swap_elems i j sz m) = length m" by (simp add: swap_elems_def)
  have row: "r < cnt \<Longrightarrow> r * sz + sz \<le> length m" for r
    using mult_le_mono1 [of "r + 1" cnt sz] assms(1) by simp
  show "elems sz cnt (swap_elems i j sz m) = (elems sz cnt m)[i := elems sz cnt m ! j, j := elems sz cnt m ! i]"
  proof (cases "i = j")
    case True
    then show ?thesis using list_update_id [of "elems sz cnt m" j] assms by (simp add: swap_elems_def)
  next
    case False
    have s: "swap_elems i j sz m = swap_loop (i * sz) (j * sz) sz m" using False assms(4) by (simp add: swap_elems_def)
    have lens: "length (swap_elems i j sz m) = length m" by (simp add: s)
    have nth: "k < length m \<Longrightarrow> swap_elems i j sz m ! k =
        (if i * sz \<le> k \<and> k < i * sz + sz then m ! (j * sz + (k - i * sz))
         else if j * sz \<le> k \<and> k < j * sz + sz then m ! (i * sz + (k - j * sz)) else m ! k)" for k
      unfolding s by (rule swap_loop_nth) (use row [OF assms(2)] row [OF assms(3)] row_apart [OF False, of sz] in simp_all)
    have e: "elem sz (swap_elems i j sz m) r = (if r = i then elem sz m j else if r = j then elem sz m i else elem sz m r)"
      if r: "r < cnt" for r
    proof (rule nth_equalityI)
      show "length (elem sz (swap_elems i j sz m) r) = length (if r = i then elem sz m j else if r = j then elem sz m i else elem sz m r)"
        using row [OF r] row [OF assms(2)] row [OF assms(3)] by (simp add: elem_def s)
      fix k assume "k < length (elem sz (swap_elems i j sz m) r)"
      then have k: "k < sz" by (simp add: elem_def)
      have get: "elem sz x q ! k = x ! (q * sz + k)" if "length x = length m" "q < cnt" for x q
        using k that row [of q] by (simp add: elem_def)
      have "r * sz + k < length m" using row [OF r] k by simp
      then show "elem sz (swap_elems i j sz m) r ! k = (if r = i then elem sz m j else if r = j then elem sz m i else elem sz m r) ! k"
        using get r assms k row_offset [OF k, of i r] row_offset [OF k, of j r] False
        by (auto simp: nth lens)
    qed
    show ?thesis
      by (rule nth_equalityI) (use e assms(2,3) in \<open>auto simp: nth_list_update\<close>)
  qed
qed


section \<open>The heap on lists\<close>

definition largest_idx :: "('a \<Rightarrow> 'a \<Rightarrow> int) \<Rightarrow> nat \<Rightarrow> nat \<Rightarrow> 'a list \<Rightarrow> nat" where
  "largest_idx cmp n root xs =
     (let left = 2 * root + 1; right = left + 1;
          largest = (if 0 < cmp (xs ! left) (xs ! root) then left else root)
      in if right < n \<and> 0 < cmp (xs ! right) (xs ! largest) then right else largest)"

lemma largest_idx_cases: "largest_idx cmp n root xs \<in> {root, 2 * root + 1, 2 * root + 2}"
  "2 * root + 1 < n \<Longrightarrow> largest_idx cmp n root xs < n"
  by (auto simp: largest_idx_def Let_def)

function sift_list :: "('a \<Rightarrow> 'a \<Rightarrow> int) \<Rightarrow> nat \<Rightarrow> nat \<Rightarrow> 'a list \<Rightarrow> 'a list" where
  "sift_list cmp n root xs =
     (if n \<le> 2 * root + 1 then xs
      else let largest = largest_idx cmp n root xs in
           if largest = root then xs else sift_list cmp n largest (xs[root := xs ! largest, largest := xs ! root]))"
  by pat_completeness auto
termination
proof (relation "measure (\<lambda>(cmp, n, root, xs). n - root)")
  fix cmp :: "'a \<Rightarrow> 'a \<Rightarrow> int" and n root and xs :: "'a list" and largest
  assume a: "\<not> n \<le> 2 * root + 1" "largest = largest_idx cmp n root xs" "largest \<noteq> root"
  then have "root < largest" using largest_idx_cases(1) [of cmp n root xs] by auto
  then show "((cmp, n, largest, xs[root := xs ! largest, largest := xs ! root]), cmp, n, root, xs) \<in> measure (\<lambda>(cmp, n, root, xs). n - root)"
    using a by simp
qed simp

declare sift_list.simps [simp del]

text \<open>Sifting permutes the first \<open>n\<close> elements among themselves.\<close>

lemma swap_take:
  assumes "i < n" "j < n" "n \<le> length xs"
  shows "mset (take n (xs[i := xs ! j, j := xs ! i])) = mset (take n xs)"
proof -
  have "take n (xs[i := xs ! j, j := xs ! i]) = (take n xs)[i := take n xs ! j, j := take n xs ! i]"
    using assms by (simp add: take_update_swap)
  then show ?thesis using assms mset_swap [of j "take n xs" i] by simp
qed

lemma sift_list_perm:
  "n \<le> length xs \<Longrightarrow> mset (take n (sift_list cmp n root xs)) = mset (take n xs) \<and> drop n (sift_list cmp n root xs) = drop n xs
     \<and> length (sift_list cmp n root xs) = length xs"
proof (induction cmp n root xs rule: sift_list.induct)
  case (1 cmp n root xs)
  show ?case
  proof (cases "n \<le> 2 * root + 1 \<or> largest_idx cmp n root xs = root")
    case True
    then show ?thesis by (subst (1 2 3) sift_list.simps) (auto simp: Let_def)
  next
    case False
    let ?l = "largest_idx cmp n root xs" let ?ys = "xs[root := xs ! ?l, ?l := xs ! root]"
    have lt: "root < n" "?l < n" using False largest_idx_cases(2) [of root n cmp xs] by auto
    have "sift_list cmp n root xs = sift_list cmp n ?l ?ys" using False by (subst sift_list.simps) (simp add: Let_def)
    moreover have "mset (take n (sift_list cmp n ?l ?ys)) = mset (take n ?ys) \<and> drop n (sift_list cmp n ?l ?ys) = drop n ?ys
        \<and> length (sift_list cmp n ?l ?ys) = length ?ys"
      using "1.IH" [OF _ refl] False "1.prems" by simp
    ultimately show ?thesis using swap_take [OF lt "1.prems"] lt by simp
  qed
qed

lemma sift_list_length: "n \<le> length xs \<Longrightarrow> length (sift_list cmp n root xs) = length xs"
  using sift_list_perm by blast

definition heap_from :: "('a \<Rightarrow> 'a \<Rightarrow> int) \<Rightarrow> nat \<Rightarrow> nat \<Rightarrow> 'a list \<Rightarrow> bool" where
  "heap_from cmp s n xs \<longleftrightarrow> (\<forall>p c. s \<le> p \<longrightarrow> c < n \<longrightarrow> c = 2 * p + 1 \<or> c = 2 * p + 2 \<longrightarrow> cmp (xs ! c) (xs ! p) \<le> 0)"

text \<open>A heap but for \<open>root\<close>: its own children may be greater, but not greater than its parent.\<close>

definition heap_but :: "('a \<Rightarrow> 'a \<Rightarrow> int) \<Rightarrow> nat \<Rightarrow> nat \<Rightarrow> nat \<Rightarrow> 'a list \<Rightarrow> bool" where
  "heap_but cmp s n root xs \<longleftrightarrow>
     (\<forall>p c. s \<le> p \<longrightarrow> p \<noteq> root \<longrightarrow> c < n \<longrightarrow> c = 2 * p + 1 \<or> c = 2 * p + 2 \<longrightarrow> cmp (xs ! c) (xs ! p) \<le> 0) \<and>
     (\<forall>q c. s \<le> q \<longrightarrow> root = 2 * q + 1 \<or> root = 2 * q + 2 \<longrightarrow> c < n \<longrightarrow> c = 2 * root + 1 \<or> c = 2 * root + 2 \<longrightarrow> cmp (xs ! c) (xs ! q) \<le> 0)"

section \<open>What a comparison must be\<close>

locale comparison =
  fixes cmp :: "'a \<Rightarrow> 'a \<Rightarrow> int"
  assumes cmp_swap: "0 < cmp x y \<longleftrightarrow> cmp y x < 0"
    and cmp_trans: "cmp x y \<le> 0 \<Longrightarrow> cmp y z \<le> 0 \<Longrightarrow> cmp x z \<le> 0"
begin

lemma cmp_refl: "cmp x x \<le> 0"
  using cmp_swap [of x x] by linarith

lemma cmp_total: "\<not> cmp x y \<le> 0 \<Longrightarrow> cmp y x \<le> 0"
  using cmp_swap [of x y] by linarith

lemma largest_idx_max:
  assumes "2 * root + 1 < n" "c < n" "c = root \<or> c = 2 * root + 1 \<or> c = 2 * root + 2"
  shows "cmp (xs ! c) (xs ! largest_idx cmp n root xs) \<le> 0"
proof -
  let ?b = "if 0 < cmp (xs ! (2 * root + 1)) (xs ! root) then 2 * root + 1 else root"
  have b: "cmp (xs ! root) (xs ! ?b) \<le> 0" "cmp (xs ! (2 * root + 1)) (xs ! ?b) \<le> 0"
    using cmp_refl cmp_total [of "xs ! (2 * root + 1)" "xs ! root"] by auto
  have l: "largest_idx cmp n root xs = (if 2 * root + 2 < n \<and> 0 < cmp (xs ! (2 * root + 2)) (xs ! ?b) then 2 * root + 2 else ?b)"
    by (simp add: largest_idx_def Let_def)
  show ?thesis
  proof (cases "2 * root + 2 < n \<and> 0 < cmp (xs ! (2 * root + 2)) (xs ! ?b)")
    case True
    then have "cmp (xs ! ?b) (xs ! (2 * root + 2)) \<le> 0" using cmp_total by force
    then show ?thesis using assms(3) b cmp_trans cmp_refl unfolding l if_P [OF True] by blast
  next
    case False
    then show ?thesis using assms b unfolding l if_not_P [OF False] by auto
  qed
qed

lemma sift_list_heap:
  "heap_but cmp s n root xs \<Longrightarrow> n \<le> length xs \<Longrightarrow> s \<le> root \<Longrightarrow> heap_from cmp s n (sift_list cmp n root xs)"
proof (induction "n - root" arbitrary: root xs rule: less_induct)
  case less
  have A: "s \<le> p \<Longrightarrow> p \<noteq> root \<Longrightarrow> c < n \<Longrightarrow> c = 2 * p + 1 \<or> c = 2 * p + 2 \<Longrightarrow> cmp (xs ! c) (xs ! p) \<le> 0"
    and B: "s \<le> q \<Longrightarrow> root = 2 * q + 1 \<or> root = 2 * q + 2 \<Longrightarrow> c < n \<Longrightarrow> c = 2 * root + 1 \<or> c = 2 * root + 2 \<Longrightarrow> cmp (xs ! c) (xs ! q) \<le> 0" for p c q
    using less.prems(1) by (auto simp: heap_but_def)
  let ?l = "largest_idx cmp n root xs"
  consider "n \<le> 2 * root + 1" | "2 * root + 1 < n" "?l = root" | "2 * root + 1 < n" "?l \<noteq> root" by linarith
  then show ?case
  proof cases
    case 1
    then have "sift_list cmp n root xs = xs" by (subst sift_list.simps) simp
    moreover have "cmp (xs ! c) (xs ! p) \<le> 0" if "s \<le> p" "c < n" "c = 2 * p + 1 \<or> c = 2 * p + 2" for p c
      using A [OF that(1) _ that(2,3)] 1 that by (cases "p = root") auto
    ultimately show ?thesis by (simp add: heap_from_def)
  next
    case 2
    then have "sift_list cmp n root xs = xs" by (subst sift_list.simps) (simp add: Let_def)
    moreover have "cmp (xs ! c) (xs ! p) \<le> 0" if "s \<le> p" "c < n" "c = 2 * p + 1 \<or> c = 2 * p + 2" for p c
      using A [OF that(1) _ that(2,3)] largest_idx_max [OF 2(1) that(2), of xs] 2(2) that(3) by (cases "p = root") auto
    ultimately show ?thesis by (simp add: heap_from_def)
  next
    case 3
    let ?ys = "xs[root := xs ! ?l, ?l := xs ! root]"
    have l: "?l = 2 * root + 1 \<or> ?l = 2 * root + 2" "?l < n" using largest_idx_cases(1) [of cmp n root xs] largest_idx_cases(2) [OF 3(1), of cmp xs] 3(2) by auto
    have len: "root < length xs" "?l < length xs" using less.prems(2) l 3(1) by linarith+
    have ys: "?ys ! i = (if i = root then xs ! ?l else if i = ?l then xs ! root else xs ! i)" for i
      using len 3(2) by (cases "i < length xs") (auto simp: nth_list_update)
    have max: "c < n \<Longrightarrow> c = root \<or> c = 2 * root + 1 \<or> c = 2 * root + 2 \<Longrightarrow> cmp (xs ! c) (xs ! ?l) \<le> 0" for c
      using largest_idx_max [OF 3(1)] by blast
    have "heap_but cmp s n ?l ?ys"
      unfolding heap_but_def
    proof (intro conjI allI impI)
      fix p c assume pc: "s \<le> p" "p \<noteq> ?l" "c < n" "c = 2 * p + 1 \<or> c = 2 * p + 2"
      show "cmp (?ys ! c) (?ys ! p) \<le> 0"
      proof (cases "p = root")
        case True
        then have "c \<noteq> root" using pc(4) by auto
        moreover have "cmp (xs ! c) (xs ! ?l) \<le> 0" using max [OF pc(3)] pc(4) True by auto
        moreover have "cmp (xs ! root) (xs ! ?l) \<le> 0" using max [of root] 3(1) by auto
        ultimately show ?thesis using True by (simp add: ys)
      next
        case False
        have "c \<noteq> ?l" using l pc(4) False by auto
        moreover have "cmp (xs ! ?l) (xs ! p) \<le> 0" if "c = root" using B [OF pc(1) _ l(2) l(1)] pc(4) that by auto
        ultimately show ?thesis using A [OF pc(1) False pc(3,4)] False pc(2) by (simp add: ys)
      qed
    next
      fix q c assume q: "s \<le> q" "?l = 2 * q + 1 \<or> ?l = 2 * q + 2" "c < n" "c = 2 * ?l + 1 \<or> c = 2 * ?l + 2"
      have "q = root" using q(2) l(1) by auto
      moreover have "c \<noteq> root" "c \<noteq> ?l" using q(4) l(1) by auto
      moreover have "s \<le> ?l" using less.prems(3) l(1) by auto
      ultimately show "cmp (?ys ! c) (?ys ! q) \<le> 0" using A [of ?l c] q 3(2) by (simp add: ys)
    qed
    moreover have "n - ?l < n - root" using l 3(1) by auto
    moreover have "s \<le> ?l" using less.prems(3) l(1) by auto
    ultimately have "heap_from cmp s n (sift_list cmp n ?l ?ys)" using less.hyps less.prems(2) by simp
    moreover have "sift_list cmp n root xs = sift_list cmp n ?l ?ys" using 3 by (subst sift_list.simps) (simp add: Let_def)
    ultimately show ?thesis by simp
  qed
qed

lemma heap_root_max: "heap_from cmp 0 n xs \<Longrightarrow> i < n \<Longrightarrow> cmp (xs ! i) (xs ! 0) \<le> 0"
proof (induction i rule: less_induct)
  case (less i)
  show ?case
  proof (cases i)
    case 0
    then show ?thesis using cmp_refl by simp
  next
    case (Suc j)
    let ?p = "j div 2"
    have "i = 2 * ?p + 1 \<or> i = 2 * ?p + 2" using Suc by presburger
    then have "cmp (xs ! i) (xs ! ?p) \<le> 0" using less.prems unfolding heap_from_def by blast
    moreover have "cmp (xs ! ?p) (xs ! 0) \<le> 0" using less Suc by simp
    ultimately show ?thesis using cmp_trans by blast
  qed
qed

text \<open>The two passes on lists.\<close>

lemma build_list_heap:
  "k \<le> n div 2 \<Longrightarrow> n \<le> length xs \<Longrightarrow> heap_from cmp k n xs \<Longrightarrow>
     heap_from cmp 0 n (fold (\<lambda>start xs. sift_list cmp n start xs) (rev [0..<k]) xs)"
proof (induction k arbitrary: xs)
  case 0
  then show ?case by simp
next
  case (Suc k)
  have "heap_but cmp k n k xs" using Suc.prems(3) by (auto simp: heap_but_def heap_from_def Suc_le_eq)
  then have "heap_from cmp k n (sift_list cmp n k xs)" using sift_list_heap Suc.prems(2) by blast
  then show ?case using Suc.IH [of "sift_list cmp n k xs"] Suc.prems sift_list_perm [OF Suc.prems(2), of cmp k] by simp
qed

lemma leaves_heap: "heap_from cmp (n div 2) n xs"
  unfolding heap_from_def by (intro allI impI) linarith

definition drained :: "nat \<Rightarrow> 'a list \<Rightarrow> bool" where
  "drained k xs \<longleftrightarrow> k \<le> length xs \<and> heap_from cmp 0 k xs \<and>
     (\<forall>i j. i < j \<longrightarrow> k \<le> j \<longrightarrow> j < length xs \<longrightarrow> cmp (xs ! i) (xs ! j) \<le> 0)"

lemma drain_step:
  assumes "drained (Suc k) xs" "1 \<le> k"
  shows "drained k (sift_list cmp k 0 (xs[0 := xs ! k, k := xs ! 0]))"
proof -
  let ?ys = "xs[0 := xs ! k, k := xs ! 0]" let ?zs = "sift_list cmp k 0 ?ys"
  have len: "Suc k \<le> length xs" and heap: "heap_from cmp 0 (Suc k) xs"
    and srt: "i < j \<Longrightarrow> Suc k \<le> j \<Longrightarrow> j < length xs \<Longrightarrow> cmp (xs ! i) (xs ! j) \<le> 0" for i j
    using assms(1) by (auto simp: drained_def)
  have ys: "?ys ! i = (if i = k then xs ! 0 else if i = 0 then xs ! k else xs ! i)" for i
    using len assms(2) by (cases "i < length xs") (auto simp: nth_list_update)
  have hp: "cmp (xs ! c) (xs ! p) \<le> 0" if "c < k" "c = 2 * p + 1 \<or> c = 2 * p + 2" for p c
    using heap that less_SucI [of c k] unfolding heap_from_def by blast
  have "cmp (?ys ! c) (?ys ! p) \<le> 0" if "p \<noteq> 0" "c < k" "c = 2 * p + 1 \<or> c = 2 * p + 2" for p c
  proof -
    have "c \<noteq> k" "c \<noteq> 0" "p \<noteq> k" using that by auto
    then show ?thesis using hp [OF that(2,3)] that(1) by (simp add: ys)
  qed
  then have "heap_but cmp 0 k 0 ?ys" unfolding heap_but_def by simp
  then have h: "heap_from cmp 0 k ?zs" using len by (intro sift_list_heap) simp_all
  have p: "mset (take k ?zs) = mset (take k ?ys)" "drop k ?zs = drop k ?ys" "length ?zs = length xs"
    using sift_list_perm [of k ?ys cmp 0] len by simp_all
  have tail: "?zs ! j = ?ys ! j" if "k \<le> j" "j < length xs" for j
  proof -
    have "?zs ! j = drop k ?zs ! (j - k)" "?ys ! j = drop k ?ys ! (j - k)" using that p(3) by simp_all
    then show ?thesis by (simp add: p(2))
  qed
  have front: "\<exists>i'\<le>k. ?zs ! i = xs ! i'" if "i < k" for i
  proof -
    have "?zs ! i \<in> set (take k ?zs)" using that p(3) len by (auto simp: in_set_conv_nth intro: exI [of _ i])
    then have "?zs ! i \<in> set (take k ?ys)" using p(1) by (metis set_mset_mset)
    then obtain i' where "i' < k" "?zs ! i = ?ys ! i'" by (auto simp: in_set_conv_nth)
    moreover have "?ys ! i' = xs ! (if i' = 0 then k else i')" using ys [of i'] \<open>i' < k\<close> by simp
    ultimately show ?thesis by (intro exI [of _ "if i' = 0 then k else i'"]) simp
  qed
  have "cmp (?zs ! i) (?zs ! j) \<le> 0" if ij: "i < j" "k \<le> j" "j < length xs" for i j
  proof (cases "j = k")
    case True
    then obtain i' where "i' \<le> k" "?zs ! i = xs ! i'" using front ij by blast
    then show ?thesis using heap_root_max [OF heap, of i'] tail [of j] ys [of j] True ij by simp
  next
    case False
    then have zj: "?zs ! j = xs ! j" using tail [of j] ys [of j] ij assms(2) by simp
    have "\<exists>i'<j. ?zs ! i = xs ! i'"
    proof (cases "i < k")
      case True
      then obtain i' where "i' \<le> k" "?zs ! i = xs ! i'" using front by blast
      moreover have "k < j" using ij(2) False by simp
      ultimately show ?thesis by (intro exI [of _ i']) simp
    next
      case False
      then have "?zs ! i = xs ! (if i = k then 0 else i)" using tail [of i] ys [of i] ij assms(2) by simp
      then show ?thesis using ij by (intro exI [of _ "if i = k then 0 else i"]) simp
    qed
    then show ?thesis using srt [OF _ _ ij(3)] zj False ij(2) by (metis Suc_leI le_neq_implies_less)
  qed
  then show ?thesis using h p(3) len by (auto simp: drained_def)
qed

lemma drain_list_sorted:
  "drained (Suc k) xs \<Longrightarrow>
     drained 1 (fold (\<lambda>last xs. sift_list cmp last 0 (xs[0 := xs ! last, last := xs ! 0])) (rev [1..<Suc k]) xs)"
proof (induction k arbitrary: xs)
  case 0
  then show ?case by simp
next
  case (Suc k)
  then show ?case using drain_step [of "Suc k" xs] by simp
qed

text \<open>Heapsort on lists: the result is in order.\<close>

lemma heap_sort_sorted:
  assumes "length xs = n" "2 \<le> n"
  shows "sorted_wrt (\<lambda>x y. cmp x y \<le> 0)
     (fold (\<lambda>last xs. sift_list cmp last 0 (xs[0 := xs ! last, last := xs ! 0])) (rev [1..<n])
       (fold (\<lambda>start xs. sift_list cmp n start xs) (rev [0..<n div 2]) xs))"
proof -
  let ?h = "fold (\<lambda>start xs. sift_list cmp n start xs) (rev [0..<n div 2]) xs"
  have lh: "length (fold (\<lambda>start xs. sift_list cmp n start xs) ks ys) = length ys" if "n \<le> length ys" for ks and ys :: "'a list"
    using that by (induction ks arbitrary: ys) (simp_all add: sift_list_length)
  have "heap_from cmp 0 n ?h" using build_list_heap leaves_heap assms(1) by simp
  then have "drained n ?h" using lh [of xs] assms(1) by (simp add: drained_def)
  then have "drained 1 (fold (\<lambda>last xs. sift_list cmp last 0 (xs[0 := xs ! last, last := xs ! 0])) (rev [1..<n]) ?h)"
    using drain_list_sorted [of "n - 1" ?h] assms(2) by simp
  then show ?thesis by (simp add: drained_def sorted_wrt_iff_nth_less Suc_le_eq)
qed

end

section \<open>The code refines the list algorithm\<close>

lemma sift_down_refines:
  fixes cmp :: comparator
  assumes "0 < sz" "length m = cnt * sz" "n \<le> cnt"
  shows "elems sz cnt (sift_down cmp n sz root m) = sift_list cmp n root (elems sz cnt m) \<and> length (sift_down cmp n sz root m) = length m"
  using assms
proof (induction "n - root" arbitrary: root m rule: less_induct)
  case less
  show ?case
  proof (cases "n \<le> 2 * root + 1")
    case True
    then show ?thesis by (subst (1 2) sift_down.simps, subst sift_list.simps) simp
  next
    case False
    have l: "largest_child cmp n sz root m = largest_idx cmp n root (elems sz cnt m)"
      using False less.prems(3) by (auto simp: largest_child_def largest_idx_def Let_def)
    let ?l = "largest_idx cmp n root (elems sz cnt m)" let ?m = "swap_elems root ?l sz m"
    show ?thesis
    proof (cases "?l = root")
      case True
      then show ?thesis using l by (subst (1 2) sift_down.simps, subst sift_list.simps) (simp add: Let_def)
    next
      case ne: False
      have lt: "root < cnt" "?l < cnt" using False less.prems(3) largest_idx_cases(2) [of root n cmp "elems sz cnt m"] by auto
      note sw = elems_swap [OF less.prems(2) lt less.prems(1)]
      have "n - ?l < n - root" using False ne largest_idx_cases(1) [of cmp n root "elems sz cnt m"] by auto
      then have "elems sz cnt (sift_down cmp n sz ?l ?m) = sift_list cmp n ?l (elems sz cnt ?m) \<and> length (sift_down cmp n sz ?l ?m) = length ?m"
        using less.hyps less.prems sw(2) by simp
      moreover have "sift_down cmp n sz root m = sift_down cmp n sz ?l ?m" using False ne l by (subst sift_down.simps) (simp add: Let_def)
      moreover have "sift_list cmp n root (elems sz cnt m) = sift_list cmp n ?l (elems sz cnt ?m)"
        using False ne sw(1) by (subst sift_list.simps) (simp add: Let_def)
      ultimately show ?thesis using sw(2) by simp
    qed
  qed
qed

lemma sort_refines:
  fixes cmp :: comparator
  assumes "0 < sz" "length m = cnt * sz" "2 \<le> cnt"
  shows "elems sz cnt (sort_bytes cmp cnt sz m) =
     fold (\<lambda>last xs. sift_list cmp last 0 (xs[0 := xs ! last, last := xs ! 0])) (rev [1..<cnt])
       (fold (\<lambda>start xs. sift_list cmp cnt start xs) (rev [0..<cnt div 2]) (elems sz cnt m))
     \<and> length (sort_bytes cmp cnt sz m) = length m"
proof -
  have b: "elems sz cnt (fold (\<lambda>start m. sift_down cmp cnt sz start m) ks x) = fold (\<lambda>start xs. sift_list cmp cnt start xs) ks (elems sz cnt x)
      \<and> length (fold (\<lambda>start m. sift_down cmp cnt sz start m) ks x) = length x"
    if "length x = cnt * sz" for ks x
    using that sift_down_refines [OF assms(1) _ le_refl] by (induction ks arbitrary: x) simp_all
  have d: "elems sz cnt (fold (\<lambda>last m. sift_down cmp last sz 0 (swap_elems 0 last sz m)) ks x)
        = fold (\<lambda>last xs. sift_list cmp last 0 (xs[0 := xs ! last, last := xs ! 0])) ks (elems sz cnt x)
      \<and> length (fold (\<lambda>last m. sift_down cmp last sz 0 (swap_elems 0 last sz m)) ks x) = length x"
    if "length x = cnt * sz" "\<forall>k\<in>set ks. 1 \<le> k \<and> k < cnt" for ks x
    using that
  proof (induction ks arbitrary: x)
    case Nil
    then show ?case by simp
  next
    case (Cons k ks)
    have k: "k < cnt" "0 < cnt" using Cons.prems by auto
    note sw = elems_swap [OF Cons.prems(1) k(2) k(1) assms(1)]
    have "length (swap_elems 0 k sz x) = cnt * sz" using sw Cons.prems by simp
    note sd = sift_down_refines [OF assms(1) this less_imp_le [OF k(1)], of cmp 0]
    show ?case using Cons.IH [of "sift_down cmp k sz 0 (swap_elems 0 k sz x)"] Cons.prems sd sw k by simp
  qed
  have "length (build_heap cmp cnt sz m) = cnt * sz" using b assms by (simp add: build_heap_def)
  then show ?thesis
    using b [OF assms(2)] d [of "build_heap cmp cnt sz m" "rev [1..<cnt]"] assms
    by (auto simp: sort_bytes_def drain_heap_def build_heap_def)
qed

lemma sift_list_mset: "n \<le> length xs \<Longrightarrow> mset (sift_list cmp n root xs) = mset xs"
  using sift_list_perm [of n xs cmp root] by (metis append_take_drop_id mset_append)

lemma sort_permutes:
  fixes cmp :: comparator
  assumes "0 < sz" "length m = cnt * sz" "2 \<le> cnt"
  shows "mset (elems sz cnt (sort_bytes cmp cnt sz m)) = mset (elems sz cnt m)"
proof -
  have b: "mset (fold (\<lambda>start xs. sift_list cmp cnt start xs) ks xs) = mset xs \<and> length (fold (\<lambda>start xs. sift_list cmp cnt start xs) ks xs) = cnt"
    if "length xs = cnt" for ks and xs :: "u8 list list"
    using that by (induction ks arbitrary: xs) (simp_all add: sift_list_mset sift_list_length)
  have d: "mset (fold (\<lambda>last xs. sift_list cmp last 0 (xs[0 := xs ! last, last := xs ! 0])) ks xs) = mset xs"
    if "length xs = cnt" "\<forall>k\<in>set ks. 1 \<le> k \<and> k < cnt" for ks and xs :: "u8 list list"
    using that
  proof (induction ks arbitrary: xs)
    case Nil
    then show ?case by simp
  next
    case (Cons k ks)
    let ?ys = "sift_list cmp k 0 (xs[0 := xs ! k, k := xs ! 0])"
    have k: "k < cnt" "0 < cnt" using Cons.prems by auto
    have "mset ?ys = mset xs" using Cons.prems k mset_swap [of k xs 0] by (simp add: sift_list_mset)
    moreover have "length ?ys = cnt" using Cons.prems k by (simp add: sift_list_length)
    ultimately show ?case using Cons.IH [of ?ys] Cons.prems by simp
  qed
  show ?thesis
    using sort_refines [OF assms] b [of "elems sz cnt m"] d [of _ "rev [1..<cnt]"] by simp
qed


section \<open>A comparison the library provides\<close>

lemma byte_order_trans: "trans byte_order"
  by (auto simp: trans_def byte_order_def)

lemma as_bytes_text: "0 \<notin> set (as_bytes x)"
  by (auto simp: as_bytes_def dest: set_takeWhileD)

lemma c_strcmp_le: "c_strcmp x y \<le> 0 \<longleftrightarrow> as_bytes x = as_bytes y \<or> (as_bytes x, as_bytes y) \<in> lexord byte_order"
  using strcmp_order [OF as_bytes_text as_bytes_text, of x y] by (auto simp: c_strcmp_def order_le_less)

interpretation cstr: comparison c_strcmp
proof
  show "0 < c_strcmp x y \<longleftrightarrow> c_strcmp y x < 0" for x y
    using strcmp_swap [of "as_bytes x" "as_bytes y"] by (simp add: c_strcmp_def)
  show "c_strcmp x z \<le> 0" if "c_strcmp x y \<le> 0" "c_strcmp y z \<le> 0" for x y z
    using that lexord_trans [OF _ _ byte_order_trans] unfolding c_strcmp_le by metis
qed

section \<open>The C functions\<close>

text \<open>C25. 
  \<^verbatim>\<open>qsort\<close> puts the elements in order and only moves them: for any comparison that is an order up to ties, every element
  of the sorted array is not greater than those after it, the elements are the ones the array had, each as often as before,
  and the array keeps its bytes. No input makes it recurse or loop: it is a total function.
\<close>

theorem qsort_sorts:
  assumes "comparison cmp" "0 < sz" "length m = cnt * sz"
  shows "\<exists>m'. qsort (Some cmp) cnt sz (Some m) = Some m' \<and> sorted_wrt (\<lambda>x y. cmp x y \<le> 0) (elems sz cnt m')
     \<and> mset (elems sz cnt m') = mset (elems sz cnt m) \<and> length m' = length m"
proof (cases "2 \<le> cnt")
  case True
  show ?thesis
    using sort_refines [OF assms(2,3) True] sort_permutes [OF assms(2,3) True]
      comparison.heap_sort_sorted [OF assms(1), of "elems sz cnt m" cnt] True
    by (simp add: qsort_def)
next
  case False
  then have "cnt = 0 \<or> cnt = 1" by linarith
  then have "sorted_wrt (\<lambda>x y. cmp x y \<le> 0) (elems sz cnt m)" by (auto simp: elems_def)
  then show ?thesis using False by (simp add: qsort_def sort_bytes_def)
qed


definition demo_words :: "u8 list" where
  "demo_words = [0x62, 0, 0x61, 0, 0x63, 0]"

theorem qsort_sorts_witness:
  "\<exists>m'. qsort (Some c_strcmp) 3 2 (Some demo_words) = Some m' \<and> sorted_wrt (\<lambda>x y. c_strcmp x y \<le> 0) (elems 2 3 m')
     \<and> mset (elems 2 3 m') = mset (elems 2 3 demo_words) \<and> length m' = length demo_words"
  by (rule qsort_sorts [OF cstr.comparison_axioms]) (simp_all add: demo_words_def)

lemma search_from_correct:
  assumes "comparison cmp" "sorted_wrt (\<lambda>x y. cmp x y \<le> 0) (elems sz cnt m)" "hi \<le> cnt"
    "\<And>i. i < lo \<Longrightarrow> 0 < cmp key (elem sz m i)" "\<And>i. hi \<le> i \<Longrightarrow> i < cnt \<Longrightarrow> cmp key (elem sz m i) < 0"
  shows "case search_from cmp key m sz lo hi of Some i \<Rightarrow> i < cnt \<and> cmp key (elem sz m i) = 0
      | None \<Rightarrow> \<forall>i<cnt. cmp key (elem sz m i) \<noteq> 0"
  using assms(3-5)
proof (induction "hi - lo" arbitrary: lo hi rule: less_induct)
  case less
  note swap = comparison.cmp_swap [OF assms(1)] and trans = comparison.cmp_trans [OF assms(1)]
  have srt: "i < j \<Longrightarrow> j < cnt \<Longrightarrow> cmp (elem sz m i) (elem sz m j) \<le> 0" for i j
    using assms(2) by (simp add: sorted_wrt_iff_nth_less)
  show ?case
  proof (cases "lo < hi")
    case False
    then have "cmp key (elem sz m i) \<noteq> 0" if "i < cnt" for i
      using less.prems(2,3) [of i] that by (cases "i < lo") auto
    then show ?thesis using False by (subst search_from.simps) simp
  next
    case lt: True
    let ?mid = "lo + (hi - lo) div 2" let ?o = "cmp key (elem sz m ?mid)"
    have mid: "lo \<le> ?mid" "?mid < hi" "?mid < cnt" using lt less.prems(1) by linarith+
    consider "?o = 0" | "?o < 0" | "0 < ?o" by linarith
    then show ?thesis
    proof cases
      case 1
      then show ?thesis using lt mid by (subst search_from.simps) (simp add: Let_def)
    next
      case 2
      have "cmp key (elem sz m i) < 0" if "?mid \<le> i" "i < cnt" for i
      proof (cases "i = ?mid")
        case False
        then have "cmp (elem sz m ?mid) (elem sz m i) \<le> 0" using srt that by simp
        then show ?thesis using trans [of "elem sz m ?mid" "elem sz m i" key] swap 2 by (meson not_le)
      qed (use 2 in simp)
      then have "case search_from cmp key m sz lo ?mid of Some i \<Rightarrow> i < cnt \<and> cmp key (elem sz m i) = 0
          | None \<Rightarrow> \<forall>i<cnt. cmp key (elem sz m i) \<noteq> 0"
        using less.hyps [of ?mid lo] less.prems(2) mid by simp
      then show ?thesis using lt 2 by (subst search_from.simps) (simp add: Let_def)
    next
      case 3
      have "0 < cmp key (elem sz m i)" if "i < ?mid + 1" for i
      proof (cases "i = ?mid")
        case False
        then have "cmp (elem sz m i) (elem sz m ?mid) \<le> 0" using srt that mid by simp
        then show ?thesis using trans [of key "elem sz m i" "elem sz m ?mid"] 3 by (meson not_le)
      qed (use 3 in simp)
      then have "case search_from cmp key m sz (?mid + 1) hi of Some i \<Rightarrow> i < cnt \<and> cmp key (elem sz m i) = 0
          | None \<Rightarrow> \<forall>i<cnt. cmp key (elem sz m i) \<noteq> 0"
        using less.hyps [of hi "?mid + 1"] less.prems(1,3) mid by simp
      then show ?thesis using lt 3 by (subst search_from.simps) (simp add: Let_def)
    qed
  qed
qed

text \<open>
  On an array in order \<^verbatim>\<open>bsearch\<close> gives the address of an element equal to the key when there is one, and null
  exactly when there is none.
\<close>

theorem bsearch_finds:
  assumes "comparison cmp" "sorted_wrt (\<lambda>x y. cmp x y \<le> 0) (elems sz cnt m)" "0 < sz"
  shows "case bsearch (Some key) (Some m) cnt sz (Some cmp) of
      Some off \<Rightarrow> \<exists>i<cnt. off = i * sz \<and> cmp key (elem sz m i) = 0
    | None \<Rightarrow> \<forall>i<cnt. cmp key (elem sz m i) \<noteq> 0"
  using search_from_correct [OF assms(1,2) le_refl, of 0 key] assms(3)
  by (auto simp: bsearch_def search_bytes_def split: option.splits)

theorem bsearch_finds_witness:
  "case bsearch (Some [0x62, 0]) (Some [0x61, 0, 0x62, 0]) 2 2 (Some c_strcmp) of
      Some off \<Rightarrow> \<exists>i<2. off = i * 2 \<and> c_strcmp [0x62, 0] (elem 2 [0x61, 0, 0x62, 0] i) = 0
    | None \<Rightarrow> False"
proof -
  have s: "sorted_wrt (\<lambda>x y. c_strcmp x y \<le> 0) (elems 2 2 [0x61, 0, 0x62, 0])"
    by (simp add: elems_def elem_def c_strcmp_def as_bytes_def strcmp_def upt_rec)
  have "c_strcmp [0x62, 0] (elem 2 [0x61, 0, 0x62, 0] 1) = 0" by (simp add: elem_def c_strcmp_def as_bytes_def strcmp_def)
  then show ?thesis using bsearch_finds [OF cstr.comparison_axioms s, of "[0x62, 0]"] by (auto split: option.splits)
qed

end
