(* ===== verification/Ctime.thy ===== *)
theory Ctime
  imports Cbytes "HOL-Library.Signed_Division"
begin

text \<open>
  \<^verbatim>\<open>crates/staros-libc/src/time.rs\<close>: the calendar, \<^verbatim>\<open>strftime\<close> and the splitting of nanoseconds. A Rust \<^verbatim>\<open>/\<close> on
  signed numbers is \<open>sdiv\<close>, \<^verbatim>\<open>div_euclid\<close> by a positive number is \<open>div\<close>; the \<^verbatim>\<open>i64\<close> intermediates are integers, the
  casts to the \<^verbatim>\<open>i32\<close> fields wrap.
\<close>

section \<open>Nanoseconds\<close>

definition NANOS :: nat where "NANOS = 1000000000"

definition split_nanos :: "u64 \<Rightarrow> int \<times> int" where
  "split_nanos n = (int (unat n div NANOS), int (unat n mod NANOS))"

definition join_nanos :: "int \<Rightarrow> int \<Rightarrow> nat" where
  "join_nanos sec nsec =
     (if sec < 0 \<or> nsec < 0 then 0
      else case checked_u64 (nat sec * NANOS) of Some n \<Rightarrow> min (n + nat nsec) U64_MAX | None \<Rightarrow> U64_MAX)"

definition timeval_nanos :: "int \<Rightarrow> int \<Rightarrow> nat" where
  "timeval_nanos sec usec =
     (if sec < 0 \<or> usec < 0 then 0
      else case checked_u64 (nat sec * NANOS) of Some n \<Rightarrow> min (n + min (nat usec * 1000) U64_MAX) U64_MAX | None \<Rightarrow> U64_MAX)"

section \<open>The calendar\<close>

definition days_from_civil :: "int \<Rightarrow> int \<Rightarrow> int \<Rightarrow> int" where
  "days_from_civil year month day =
     (let y = (if month \<le> 2 then year - 1 else year);
          era = (if 0 \<le> y then y else y - 399) sdiv 400;
          yoe = y - era * 400;
          mp = (month + 9) smod 12;
          doy = (153 * mp + 2) sdiv 5 + day - 1;
          doe = yoe * 365 + yoe sdiv 4 - yoe sdiv 100 + doy
      in era * 146097 + doe - 719468)"

definition civil_from_days :: "int \<Rightarrow> int \<times> int \<times> int" where
  "civil_from_days days =
     (let z = days + 719468;
          era = (if 0 \<le> z then z else z - 146096) sdiv 146097;
          doe = z - era * 146097;
          yoe = (doe - doe sdiv 1460 + doe sdiv 36524 - doe sdiv 146096) sdiv 365;
          y = yoe + era * 400;
          doy = doe - (365 * yoe + yoe sdiv 4 - yoe sdiv 100);
          mp = (5 * doy + 2) sdiv 153;
          d = doy - (153 * mp + 2) sdiv 5 + 1;
          m = (if mp < 10 then mp + 3 else mp - 9)
      in (if m \<le> 2 then y + 1 else y, m, d))"

definition as_i32 :: "int \<Rightarrow> int" where
  "as_i32 x = sint (word_of_int x :: u32)"

record tm =
  tm_sec :: int
  tm_min :: int
  tm_hour :: int
  tm_mday :: int
  tm_mon :: int
  tm_year :: int
  tm_wday :: int
  tm_yday :: int
  tm_isdst :: int
  tm_gmtoff :: int

definition tm_from_epoch :: "int \<Rightarrow> tm" where
  "tm_from_epoch seconds =
     (let days = seconds div 86400; rem = seconds mod 86400;
          (year, month, day) = civil_from_days days;
          wday = (days + 4) mod 7;
          yday = days - days_from_civil year 1 1
      in \<lparr>tm_sec = as_i32 (rem smod 60), tm_min = as_i32 ((rem sdiv 60) smod 60), tm_hour = as_i32 (rem sdiv 3600),
          tm_mday = as_i32 day, tm_mon = as_i32 (month - 1), tm_year = as_i32 (year - 1900), tm_wday = as_i32 wday,
          tm_yday = as_i32 yday, tm_isdst = 0, tm_gmtoff = 0\<rparr>)"

definition epoch_from_tm :: "tm \<Rightarrow> int" where
  "epoch_from_tm t =
     (let year = tm_year t + 1900; month = tm_mon t;
          year = year + month div 12; month = month mod 12 + 1;
          days = days_from_civil year month (tm_mday t)
      in days * 86400 + tm_hour t * 3600 + tm_min t * 60 + tm_sec t)"

text \<open>\<^verbatim>\<open>mktime\<close>: the seconds, and the structure normalised.\<close>

definition mktime :: "tm \<Rightarrow> int \<times> tm" where
  "mktime t = (epoch_from_tm t, tm_from_epoch (epoch_from_tm t))"

section \<open>Formatting\<close>

definition DAY_NAMES :: "u8 list list" where
  "DAY_NAMES =
     [[0x53, 0x75, 0x6E, 0x64, 0x61, 0x79], [0x4D, 0x6F, 0x6E, 0x64, 0x61, 0x79], [0x54, 0x75, 0x65, 0x73, 0x64, 0x61, 0x79],
      [0x57, 0x65, 0x64, 0x6E, 0x65, 0x73, 0x64, 0x61, 0x79], [0x54, 0x68, 0x75, 0x72, 0x73, 0x64, 0x61, 0x79],
      [0x46, 0x72, 0x69, 0x64, 0x61, 0x79], [0x53, 0x61, 0x74, 0x75, 0x72, 0x64, 0x61, 0x79]]"

definition MONTH_NAMES :: "u8 list list" where
  "MONTH_NAMES =
     [[0x4A, 0x61, 0x6E, 0x75, 0x61, 0x72, 0x79], [0x46, 0x65, 0x62, 0x72, 0x75, 0x61, 0x72, 0x79], [0x4D, 0x61, 0x72, 0x63, 0x68],
      [0x41, 0x70, 0x72, 0x69, 0x6C], [0x4D, 0x61, 0x79], [0x4A, 0x75, 0x6E, 0x65], [0x4A, 0x75, 0x6C, 0x79],
      [0x41, 0x75, 0x67, 0x75, 0x73, 0x74], [0x53, 0x65, 0x70, 0x74, 0x65, 0x6D, 0x62, 0x65, 0x72],
      [0x4F, 0x63, 0x74, 0x6F, 0x62, 0x65, 0x72], [0x4E, 0x6F, 0x76, 0x65, 0x6D, 0x62, 0x65, 0x72],
      [0x44, 0x65, 0x63, 0x65, 0x6D, 0x62, 0x65, 0x72]]"

text \<open>The text written so far, with \<open>room\<close> bytes of buffer in all; \<open>None\<close> when an append does not fit.\<close>

definition push_text :: "nat \<Rightarrow> u8 list \<Rightarrow> u8 list \<Rightarrow> u8 list option" where
  "push_text room t bs = (if room < length t + length bs then None else Some (t @ bs))"

fun low_digits :: "nat \<Rightarrow> u8 list" where
  "low_digits v = (0x30 + of_nat (v mod 10)) # (if v div 10 = 0 then [] else low_digits (v div 10))"

declare low_digits.simps [simp del]

definition number_text :: "int \<Rightarrow> nat \<Rightarrow> u8 \<Rightarrow> u8 list" where
  "number_text value width pad =
     (let digits = low_digits (nat \<bar>value\<bar>); sign = (if value < 0 then [0x2D] else [])
      in sign @ replicate (width - (length digits + length sign)) pad @ rev digits)"

definition wrap_index :: "int \<Rightarrow> nat \<Rightarrow> nat" where
  "wrap_index value len = nat (value mod int len)"

definition hour12 :: "int \<Rightarrow> int" where
  "hour12 hour = (let h = hour smod 12 in if h = 0 then 12 else h)"

text \<open>What one conversion writes, piece by piece: each piece is one append.\<close>

definition conversion :: "u8 \<Rightarrow> tm \<Rightarrow> u8 list list" where
  "conversion c t =
     (let year = tm_year t + 1900; mon = tm_mon t + 1; mday = tm_mday t; hour = tm_hour t; minute = tm_min t; sec = tm_sec t;
          day = DAY_NAMES ! wrap_index (tm_wday t) 7; month = MONTH_NAMES ! wrap_index (tm_mon t) 12
      in if c = 0x25 then [[0x25]]
         else if c = 0x6E then [[0x0A]]
         else if c = 0x74 then [[0x09]]
         else if c = 0x61 then [take 3 day]
         else if c = 0x41 then [day]
         else if c = 0x62 \<or> c = 0x68 then [take 3 month]
         else if c = 0x42 then [month]
         else if c = 0x43 then [number_text (year sdiv 100) 2 0x30]
         else if c = 0x64 then [number_text mday 2 0x30]
         else if c = 0x65 then [number_text mday 2 0x20]
         else if c = 0x48 then [number_text hour 2 0x30]
         else if c = 0x49 then [number_text (hour12 (tm_hour t)) 2 0x30]
         else if c = 0x6A then [number_text (tm_yday t + 1) 3 0x30]
         else if c = 0x6D then [number_text mon 2 0x30]
         else if c = 0x4D then [number_text minute 2 0x30]
         else if c = 0x70 then [if tm_hour t < 12 then [0x41, 0x4D] else [0x50, 0x4D]]
         else if c = 0x53 then [number_text sec 2 0x30]
         else if c = 0x75 then [number_text (if tm_wday t = 0 then 7 else tm_wday t) 1 0x30]
         else if c = 0x77 then [number_text (tm_wday t) 1 0x30]
         else if c = 0x79 then [number_text (year mod 100) 2 0x30]
         else if c = 0x59 then [number_text year 1 0x30]
         else if c = 0x5A then [[0x55, 0x54, 0x43]]
         else if c = 0x7A then [[0x2B, 0x30, 0x30, 0x30, 0x30]]
         else if c = 0x73 then [number_text (epoch_from_tm t) 1 0x30]
         else if c = 0x44 then [number_text mon 2 0x30, [0x2F], number_text mday 2 0x30, [0x2F], number_text (year mod 100) 2 0x30]
         else if c = 0x46 then [number_text year 4 0x30, [0x2D], number_text mon 2 0x30, [0x2D], number_text mday 2 0x30]
         else if c = 0x52 then [number_text hour 2 0x30, [0x3A], number_text minute 2 0x30]
         else if c = 0x54 then [number_text hour 2 0x30, [0x3A], number_text minute 2 0x30, [0x3A], number_text sec 2 0x30]
         else [[0x25], [c]])"

fun push_all :: "nat \<Rightarrow> u8 list \<Rightarrow> u8 list list \<Rightarrow> u8 list option" where
  "push_all room t [] = Some t"
| "push_all room t (b # bs) = (case push_text room t b of None \<Rightarrow> None | Some t' \<Rightarrow> push_all room t' bs)"

fun strftime_from :: "nat \<Rightarrow> tm \<Rightarrow> u8 list \<Rightarrow> u8 list \<Rightarrow> u8 list option" where
  "strftime_from room tm t [] = Some t"
| "strftime_from room tm t (c # cs) =
     (if c \<noteq> 0x25 then (case push_text room t [c] of None \<Rightarrow> None | Some t' \<Rightarrow> strftime_from room tm t' cs)
      else case cs of
             [] \<Rightarrow> Some t
           | d # ds \<Rightarrow> (case push_all room t (conversion d tm) of None \<Rightarrow> None | Some t' \<Rightarrow> strftime_from room tm t' ds))"

text \<open>The exported \<^verbatim>\<open>strftime\<close> into a buffer of \<open>max\<close> bytes: the count, and the text with its terminator.\<close>

definition strftime :: "nat \<Rightarrow> u8 list \<Rightarrow> tm \<Rightarrow> nat \<times> u8 list" where
  "strftime room fmt t =
     (if room = 0 then (0, [])
      else case strftime_from (room - 1) t [] (as_bytes fmt) of Some s \<Rightarrow> (length s, s @ [0]) | None \<Rightarrow> (0, [0]))"

end
