(* ===== verification/CtimeProps.thy ===== *)
theory CtimeProps
  imports Ctime
begin

text \<open>
  The calendar is the Gregorian one: day numbers and dates are in bijection, seconds and broken-down times too, and
  every field is in its range.
\<close>

section \<open>Division\<close>

lemma sdiv_nonneg: "0 \<le> (a :: int) \<Longrightarrow> 0 < b \<Longrightarrow> a sdiv b = a div b"
  by (cases "a = 0") (simp_all add: signed_divide_int_def)

lemma smod_nonneg: "0 \<le> (a :: int) \<Longrightarrow> 0 < b \<Longrightarrow> a smod b = a mod b"
  by (cases "a = 0") (simp_all add: signed_modulo_int_def)

lemma floor_sdiv:
  fixes y k l :: int
  assumes "0 < l" "k = l - 1"
  shows "(if 0 \<le> y then y else y - k) sdiv l = y div l"
proof (cases "0 \<le> y")
  case False
  have "l - 1 - y = (l - 1 - y mod l) + (- (y div l)) * l" using mult_div_mod_eq [of l y] by (simp add: algebra_simps)
  moreover have "0 \<le> l - 1 - y mod l" "l - 1 - y mod l < l" using assms pos_mod_bound [of l y] pos_mod_sign [of l y] by linarith+
  ultimately have "(l - 1 - y) div l = - (y div l)" by (metis add.right_neutral div_mult_self1 div_pos_pos_trivial order_less_irrefl assms add_0)
  moreover have "(y - (l - 1)) sdiv l = - ((l - 1 - y) div l)" using False assms by (simp add: signed_divide_int_def)
  ultimately show ?thesis using False assms(2) by simp
qed (simp add: sdiv_nonneg assms)

section \<open>Years within an era\<close>

text \<open>The days before year \<open>y\<close> of an era whose years begin in March.\<close>

definition year_start :: "int \<Rightarrow> int" where
  "year_start y = 365 * y + y div 4 - y div 100"

definition year_length :: "int \<Rightarrow> int" where
  "year_length y = (if (y + 1) mod 4 = 0 \<and> ((y + 1) mod 100 \<noteq> 0 \<or> (y + 1) mod 400 = 0) then 366 else 365)"

definition year_of :: "int \<Rightarrow> int" where
  "year_of doe = (doe - doe div 1460 + doe div 36524 - doe div 146096) div 365"

lemma year_of_correct:
  assumes "0 \<le> doe" "doe < 146097"
  shows "0 \<le> year_of doe \<and> year_of doe \<le> 399 \<and> year_start (year_of doe) \<le> doe \<and> doe < year_start (year_of doe) + year_length (year_of doe)"
proof (cases "doe = 146096")
  case True
  then show ?thesis by (simp add: year_of_def year_start_def year_length_def)
next
  case False
  define q where "q = doe div 36524"
  define r where "r = doe mod 36524"
  have doe: "doe = 36524 * q + r" "0 \<le> r" "r < 36524" by (simp_all add: q_def r_def)
  have q: "0 \<le> q" "q \<le> 3" using assms False doe by linarith+
  define k where "k = r div 1461"
  define s where "s = r mod 1461"
  have r: "r = 1461 * k + s" "0 \<le> s" "s < 1461" by (simp_all add: k_def s_def)
  have k: "0 \<le> k" "k \<le> 24" using doe r by linarith+
  define e where "e = (24 * q + k + s) div 1460"
  have e: "1460 * e \<le> 24 * q + k + s" "24 * q + k + s < 1460 * e + 1460" unfolding e_def by linarith+
  have e01: "e = 0 \<or> e = 1" using e q k r by linarith
  have a: "doe div 1460 = 25 * q + k + e"
  proof -
    have "doe = (25 * q + k) * 1460 + (24 * q + k + s)" using doe r by simp
    then show ?thesis by (simp add: e_def)
  qed
  have c: "doe div 146096 = 0" using assms False by (simp add: div_pos_pos_trivial)
  define j where "j = (s - e) div 365"
  have j: "365 * j \<le> s - e" "s - e < 365 * j + 365" unfolding j_def by linarith+
  have se: "0 \<le> s - e" "s - e \<le> 1459" using e01 e q k r by linarith+
  then have j3: "0 \<le> j" "j \<le> 3" using j by linarith+
  have y: "year_of doe = 100 * q + 4 * k + j"
  proof -
    have "doe - doe div 1460 + doe div 36524 - doe div 146096 = (100 * q + 4 * k) * 365 + (s - e)"
      using a c doe r by (simp add: q_def [symmetric])
    then show ?thesis by (simp add: year_of_def j_def)
  qed
  have d4: "(100 * q + 4 * k + j) div 4 = 25 * q + k" using j3 by presburger
  have cy: "0 \<le> 4 * k + j" "4 * k + j < 100" using k j3 by linarith+
  have d100: "(100 * q + 4 * k + j) div 100 = q" by (rule int_div_pos_eq [of _ _ _ "4 * k + j"]) (use cy in simp_all)
  have start: "doe - year_start (year_of doe) = s - 365 * j" unfolding y year_start_def d4 d100 using doe r by simp
  have "s - 365 * j < year_length (year_of doe)"
  proof (cases "s - 365 * j = 365")
    case True
    then have "e = 1" using j e01 by linarith
    then have "j = 3" using True e q k j3 by linarith
    then have "s = 1460" using True by simp
    then have "k < 24" using doe r k by linarith
    have "(100 * q + 4 * k + j + 1) mod 100 = 4 * k + 4"
      by (rule int_mod_pos_eq [of _ _ q]) (use \<open>j = 3\<close> \<open>k < 24\<close> k in simp_all)
    moreover have "(100 * q + 4 * k + j + 1) mod 4 = 0" using \<open>j = 3\<close> by presburger
    ultimately have "(100 * q + 4 * k + j + 1) mod 4 = 0" "(100 * q + 4 * k + j + 1) mod 100 \<noteq> 0" using k(1) by simp_all
    then show ?thesis using True by (simp add: y year_length_def)
  next
    case False
    then have "s - 365 * j < 365" using j e01 by linarith
    then show ?thesis by (simp add: year_length_def)
  qed
  moreover have "0 \<le> s - 365 * j" using j e01 by linarith
  moreover have "0 \<le> year_of doe" "year_of doe \<le> 399" using y q k j3 by linarith+
  ultimately show ?thesis using start by linarith
qed

lemma succ_div:
  fixes y n :: int
  assumes "0 < n"
  shows "(y + 1) div n = y div n + of_bool ((y + 1) mod n = 0)"
proof (cases "y mod n + 1 = n")
  case True
  have "y + 1 = (y div n) * n + (y mod n + 1)" by simp
  also have "\<dots> = (y div n + 1) * n" unfolding True by (simp add: distrib_right)
  finally have e: "y + 1 = (y div n + 1) * n" .
  show ?thesis unfolding e using assms by simp
next
  case False
  have b: "0 \<le> y mod n + 1" "y mod n + 1 < n" using False assms pos_mod_bound [of n y] pos_mod_sign [of n y] by linarith+
  have e: "y + 1 = n * (y div n) + (y mod n + 1)" by simp
  have "(y + 1) div n = y div n" "(y + 1) mod n = y mod n + 1"
    by (rule int_div_pos_eq [OF e b], rule int_mod_pos_eq [OF e b])
  moreover have "y mod n + 1 \<noteq> 0" using assms pos_mod_sign [of n y] by linarith
  ultimately show ?thesis by simp
qed

lemma leap_step:
  fixes y a a' c c' :: int
  shows "a' = a + of_bool p \<Longrightarrow> c' = c + of_bool q \<Longrightarrow> (q \<Longrightarrow> p) \<Longrightarrow> \<not> r \<Longrightarrow>
    365 * (y + 1) + a' - c' = 365 * y + a - c + (if p \<and> (\<not> q \<or> r) then 366 else 365)"
  by auto

lemma year_start_next:
  assumes "0 \<le> y" "y \<le> 398"
  shows "year_start (y + 1) = year_start y + year_length y"
proof -
  have "(y + 1) mod 400 = y + 1" by (rule mod_pos_pos_trivial) (use assms in simp_all)
  then have n: "(y + 1) mod 400 \<noteq> 0" using assms(1) by simp
  have d: "(y + 1) div 4 = y div 4 + of_bool ((y + 1) mod 4 = 0)" "(y + 1) div 100 = y div 100 + of_bool ((y + 1) mod 100 = 0)"
    by (rule succ_div; simp)+
  have "(y + 1) mod 100 = 0 \<Longrightarrow> (y + 1) mod 4 = 0" using mod_mod_cancel [of 4 100 "y + 1"] by simp
  then show ?thesis unfolding year_start_def year_length_def by (rule leap_step [OF d _ n])
qed

lemma year_start_mono:
  assumes "0 \<le> y" "y < y'" "y' \<le> 399"
  shows "year_start y + year_length y \<le> year_start y'"
proof -
  obtain n where n: "y' = y + 1 + int n" using assms by (metis zle_iff_zadd add.commute zless_imp_add1_zle)
  have "y + 1 + int n \<le> 399 \<Longrightarrow> year_start y + year_length y \<le> year_start (y + 1 + int n)"
  proof (induction n)
    case 0
    then show ?case using year_start_next [of y] assms by simp
  next
    case (Suc n)
    have "year_start (y + 1 + int n + 1) = year_start (y + 1 + int n) + year_length (y + 1 + int n)"
      by (rule year_start_next) (use Suc.prems assms in simp_all)
    moreover have "0 < year_length (y + 1 + int n)" by (simp add: year_length_def)
    ultimately show ?case using Suc by (simp add: algebra_simps)
  qed
  then show ?thesis using assms n by simp
qed

lemma year_start_nonneg: "0 \<le> y \<Longrightarrow> 0 \<le> year_start y"
proof -
  assume y: "0 \<le> y"
  then have "y div 100 \<le> y" "0 \<le> y div 4" by linarith+
  then show ?thesis using y by (simp add: year_start_def)
qed

lemma year_end: "0 \<le> y \<Longrightarrow> y \<le> 399 \<Longrightarrow> year_start y + year_length y \<le> 146097"
  using year_start_mono [of y 399] by (cases "y = 399") (auto simp: year_start_def year_length_def)

lemma year_of_unique:
  assumes "0 \<le> y" "y \<le> 399" "year_start y \<le> doe" "doe < year_start y + year_length y"
  shows "year_of doe = y"
proof -
  have "0 \<le> year_start y" by (rule year_start_nonneg [OF assms(1)])
  moreover have "year_start y + year_length y \<le> 146097" by (rule year_end [OF assms(1,2)])
  ultimately have w: "0 \<le> year_of doe \<and> year_of doe \<le> 399 \<and> year_start (year_of doe) \<le> doe \<and> doe < year_start (year_of doe) + year_length (year_of doe)"
    using year_of_correct [of doe] assms by linarith
  then show ?thesis using year_start_mono [of y "year_of doe"] year_start_mono [of "year_of doe" y] assms by linarith
qed


section \<open>Months within a year\<close>

definition month_start :: "int \<Rightarrow> int" where
  "month_start mp = (153 * mp + 2) div 5"

lemma month_start_bounds: "5 * month_start mp \<le> 153 * mp + 2" "153 * mp + 2 < 5 * month_start mp + 5"
  unfolding month_start_def by linarith+

lemma month_start_next: "5 * month_start (mp + 1) \<le> 153 * mp + 155" "153 * mp + 151 \<le> 5 * month_start (mp + 1)"
  using month_start_bounds [of "mp + 1"] by (simp_all add: distrib_left)

lemma month_of_correct:
  assumes "mp = (5 * doy + 2) div 153" "0 \<le> doy" "doy \<le> 365"
  shows "0 \<le> mp" "mp \<le> 11" "month_start mp \<le> doy" "doy < month_start (mp + 1)"
proof -
  have m: "153 * mp \<le> 5 * doy + 2" "5 * doy + 2 < 153 * mp + 153" unfolding assms(1) by linarith+
  show "0 \<le> mp" "mp \<le> 11" using m assms(2,3) by linarith+
  show "month_start mp \<le> doy" "doy < month_start (mp + 1)" using m month_start_bounds [of mp] month_start_next [of mp] by linarith+
qed

lemma month_of_unique:
  assumes "month_start mp \<le> doy" "doy < month_start (mp + 1)"
  shows "(5 * doy + 2) div 153 = mp"
proof (rule int_div_pos_eq)
  show "5 * doy + 2 = 153 * mp + (5 * doy + 2 - 153 * mp)" by simp
  show "0 \<le> 5 * doy + 2 - 153 * mp" "5 * doy + 2 - 153 * mp < 153" using assms month_start_bounds [of mp] month_start_next [of mp] by linarith+
qed

section \<open>The Gregorian calendar\<close>

definition leap_year :: "int \<Rightarrow> bool" where
  "leap_year y \<longleftrightarrow> y mod 4 = 0 \<and> (y mod 100 \<noteq> 0 \<or> y mod 400 = 0)"

definition month_length :: "int \<Rightarrow> int \<Rightarrow> int" where
  "month_length y m = (if m = 2 then if leap_year y then 29 else 28 else if m \<in> {4, 6, 9, 11} then 30 else 31)"

definition is_date :: "int \<times> int \<times> int \<Rightarrow> bool" where
  "is_date x = (case x of (y, m, d) \<Rightarrow> 1 \<le> m \<and> m \<le> 12 \<and> 1 \<le> d \<and> d \<le> month_length y m)"

definition next_date :: "int \<times> int \<times> int \<Rightarrow> int \<times> int \<times> int" where
  "next_date x = (case x of (y, m, d) \<Rightarrow>
     if d < month_length y m then (y, m, d + 1) else if m < 12 then (y, m + 1, 1) else (y + 1, 1, 1))"

text \<open>The March-based year, its place in the era, and the month counted from March.\<close>

abbreviation march_year :: "int \<Rightarrow> int \<Rightarrow> int" where
  "march_year y m \<equiv> (if m \<le> 2 then y - 1 else y)"

abbreviation march_month :: "int \<Rightarrow> int" where
  "march_month m \<equiv> (m + 9) mod 12"

lemma month_cases:
  "1 \<le> m \<Longrightarrow> m \<le> 12 \<Longrightarrow> m = 1 \<or> m = 2 \<or> m = 3 \<or> m = 4 \<or> m = 5 \<or> m = 6 \<or> m = 7 \<or> m = 8 \<or> m = 9 \<or> m = 10 \<or> m = 11 \<or> m = (12 :: int)"
  by presburger

lemma month_length_start:
  assumes "1 \<le> m" "m \<le> 12" "m \<noteq> 2"
  shows "month_start (march_month m + 1) = month_start (march_month m) + month_length y m" "march_month m \<le> 10"
  using month_cases [OF assms(1,2)] assms(3) by (auto simp: month_start_def month_length_def)

lemma mod_400: "(x mod 400) mod 4 = x mod (4 :: int)" "(x mod 400) mod 100 = x mod (100 :: int)"
  by (rule mod_mod_cancel; simp)+

lemma year_length_leap: "year_length (y mod 400) = (if leap_year (y + 1) then 366 else 365)"
proof -
  have "(y mod 400 + 1) mod n = (y + 1) mod n" if "n dvd 400" for n
    using mod_mod_cancel [OF that, of y] by (metis mod_add_left_eq)
  then have "(y mod 400 + 1) mod 4 = (y + 1) mod 4" "(y mod 400 + 1) mod 100 = (y + 1) mod 100" "(y mod 400 + 1) mod 400 = (y + 1) mod 400"
    by simp_all
  then show ?thesis unfolding year_length_def leap_year_def by (simp only:)
qed

text \<open>A date's month lies within its year: the day of the year stays below the year's length, and below the next month.\<close>

lemma date_in_year:
  assumes "is_date (y, m, d)"
  shows "month_start (march_month m) \<le> month_start (march_month m) + d - 1"
    "month_start (march_month m) + d - 1 < month_start (march_month m + 1)"
    "month_start (march_month m) + d - 1 < year_length (march_year y m mod 400)" "0 \<le> month_start (march_month m)"
proof -
  have md: "1 \<le> m" "m \<le> 12" "1 \<le> d" "d \<le> month_length y m" using assms by (simp_all add: is_date_def)
  show "month_start (march_month m) \<le> month_start (march_month m) + d - 1" using md by simp
  show "0 \<le> month_start (march_month m)" by (simp add: month_start_def)
  show "month_start (march_month m) + d - 1 < month_start (march_month m + 1)"
    "month_start (march_month m) + d - 1 < year_length (march_year y m mod 400)"
  proof -
    have "month_start (march_month m) + d - 1 < month_start (march_month m + 1) \<and>
      month_start (march_month m) + d - 1 < year_length (march_year y m mod 400)"
    proof (cases "m = 2")
      case True
      have "month_start (march_month m) = 337" "month_start (march_month m + 1) = 367" using True by (simp_all add: month_start_def)
      then show ?thesis using md True year_length_leap [of "y - 1"] by (auto simp: month_length_def)
    next
      case False
      note l = month_length_start(1) [OF md(1,2) False, of y] month_length_start(2) [OF md(1,2) False]
      have "month_start (march_month m + 1) \<le> 337" using l(2) month_start_next(1) [of "march_month m"] by linarith
      moreover have "337 < year_length x" for x by (simp add: year_length_def)
      ultimately show ?thesis using l(1) md by (smt (verit))
    qed
    then show "month_start (march_month m) + d - 1 < month_start (march_month m + 1)"
      "month_start (march_month m) + d - 1 < year_length (march_year y m mod 400)" by simp_all
  qed
qed

lemma days_eq:
  assumes "1 \<le> m" "m \<le> 12"
  shows "days_from_civil y m d =
     march_year y m div 400 * 146097 + year_start (march_year y m mod 400) + month_start (march_month m) + d - 1 - 719468"
proof -
  let ?y = "march_year y m"
  have era: "(if 0 \<le> ?y then ?y else ?y - 399) sdiv 400 = ?y div 400" by (rule floor_sdiv) simp_all
  have yoe: "?y - ?y div 400 * 400 = ?y mod 400" by (simp add: minus_div_mult_eq_mod)
  have mp: "(m + 9) smod 12 = march_month m" "0 \<le> march_month m" using assms by (simp_all add: smod_nonneg)
  have s: "?y mod 400 sdiv 4 = ?y mod 400 div 4" "?y mod 400 sdiv 100 = ?y mod 400 div 100" by (simp_all add: sdiv_nonneg)
  have t: "(153 * march_month m + 2) sdiv 5 = month_start (march_month m)" using mp by (simp add: sdiv_nonneg month_start_def)
  show ?thesis
    unfolding days_from_civil_def Let_def era yoe mp(1) s t year_start_def by simp
qed

lemma civil_eq:
  fixes days :: int
  defines "z \<equiv> days + 719468"
  defines "yoe \<equiv> year_of (z mod 146097)"
  defines "doy \<equiv> z mod 146097 - year_start yoe"
  defines "mp \<equiv> (5 * doy + 2) div 153"
  defines "m \<equiv> if mp < 10 then mp + 3 else mp - 9"
  shows "civil_from_days days =
    (if m \<le> 2 then yoe + z div 146097 * 400 + 1 else yoe + z div 146097 * 400, m, doy - month_start mp + 1)"
    "0 \<le> yoe" "yoe \<le> 399" "0 \<le> doy" "doy < year_length yoe"
proof -
  let ?e = "z mod 146097"
  have e: "0 \<le> ?e" "?e < 146097" by simp_all
  note y = year_of_correct [OF e, folded yoe_def]
  show yb: "0 \<le> yoe" "yoe \<le> 399" and db: "0 \<le> doy" "doy < year_length yoe" using y by (simp_all add: doy_def)
  have d365: "doy \<le> 365" using db by (simp add: year_length_def split: if_splits)
  have era: "(if 0 \<le> z then z else z - 146096) sdiv 146097 = z div 146097" by (rule floor_sdiv) simp_all
  have doe: "z - z div 146097 * 146097 = ?e" by (simp add: minus_div_mult_eq_mod)
  have a: "?e sdiv 1460 = ?e div 1460" "?e sdiv 36524 = ?e div 36524" "?e sdiv 146096 = ?e div 146096" using e by (simp_all add: sdiv_nonneg)
  have "0 \<le> ?e - ?e div 1460 + ?e div 36524 - ?e div 146096" using e by linarith
  then have b: "(?e - ?e div 1460 + ?e div 36524 - ?e div 146096) sdiv 365 = yoe" by (simp add: sdiv_nonneg yoe_def year_of_def)
  have c: "yoe sdiv 4 = yoe div 4" "yoe sdiv 100 = yoe div 100" using yb by (simp_all add: sdiv_nonneg)
  have f: "?e - (365 * yoe + yoe div 4 - yoe div 100) = doy" by (simp add: doy_def year_start_def)
  have g: "(5 * doy + 2) sdiv 153 = mp" using db by (simp add: sdiv_nonneg mp_def)
  have "0 \<le> mp" using month_of_correct(1) [OF _ db(1) d365] mp_def by simp
  then have h: "(153 * mp + 2) sdiv 5 = month_start mp" by (simp add: sdiv_nonneg month_start_def)
  show "civil_from_days days =
    (if m \<le> 2 then yoe + z div 146097 * 400 + 1 else yoe + z div 146097 * 400, m, doy - month_start mp + 1)"
    unfolding civil_from_days_def Let_def z_def [symmetric] era doe a b c f g h m_def by simp
qed

lemma civil_is_date: "is_date (civil_from_days days)" and days_civil: "civil_from_days days = (y, m, d) \<Longrightarrow> days_from_civil y m d = days"
proof -
  define z where "z = days + 719468"
  define yoe where "yoe = year_of (z mod 146097)"
  define doy where "doy = z mod 146097 - year_start yoe"
  define mp where "mp = (5 * doy + 2) div 153"
  define mm where "mm = (if mp < 10 then mp + 3 else mp - 9)"
  define yy where "yy = (if mm \<le> 2 then yoe + z div 146097 * 400 + 1 else yoe + z div 146097 * 400)"
  note c = civil_eq [of days, folded z_def, folded yoe_def, folded doy_def, folded mp_def, folded mm_def, folded yy_def]
  have d365: "doy \<le> 365" using c(5) by (simp add: year_length_def split: if_splits)
  note mo = month_of_correct [OF mp_def c(4) d365]
  have m12: "1 \<le> mm" "mm \<le> 12" "march_month mm = mp" "mm \<le> 2 \<longleftrightarrow> 10 \<le> mp"
    using mo(1,2) by (cases "mp < 10"; simp add: mm_def)+
  have my: "march_year yy mm = yoe + z div 146097 * 400" by (simp add: yy_def)
  then have my': "march_year yy mm mod 400 = yoe" "march_year yy mm div 400 = z div 146097" using c(2,3) by simp_all
  have dl: "doy - month_start mp + 1 \<le> month_length yy mm"
  proof (cases "mm = 2")
    case True
    then have "mp = 11" using m12(3) by simp
    moreover have "year_length yoe = (if leap_year yy then 366 else 365)" using year_length_leap [of "march_year yy mm"] my' True by simp
    ultimately show ?thesis using c(5) True by (auto simp: month_start_def month_length_def split: if_splits)
  next
    case False
    then show ?thesis using month_length_start(1) [OF m12(1,2) False, of yy] mo(4) unfolding m12(3) by linarith
  qed
  then show "is_date (civil_from_days days)" using c(1) m12 mo(3) by (simp add: is_date_def)
  have "days_from_civil yy mm (doy - month_start mp + 1) = days"
    unfolding days_eq [OF m12(1,2)] my' m12(3) using mult_div_mod_eq [of 146097 z] by (simp add: doy_def z_def)
  then show "civil_from_days days = (y, m, d) \<Longrightarrow> days_from_civil y m d = days" using c(1) by simp
qed


lemma civil_days:
  assumes "is_date (y, m, d)"
  shows "civil_from_days (days_from_civil y m d) = (y, m, d)"
proof -
  let ?y = "march_year y m" let ?doy = "month_start (march_month m) + d - 1"
  have md: "1 \<le> m" "m \<le> 12" using assms by (simp_all add: is_date_def)
  note iy = date_in_year [OF assms]
  have yb: "0 \<le> ?y mod 400" "?y mod 400 \<le> 399" using pos_mod_bound [of 400 ?y] pos_mod_sign [of 400 ?y] by linarith+
  let ?days = "days_from_civil y m d"
  have z: "?days + 719468 = 146097 * (?y div 400) + (year_start (?y mod 400) + ?doy)" using days_eq [OF md, of y d] by simp
  have d1: "1 \<le> d" using assms by (simp add: is_date_def)
  have ys: "0 \<le> year_start (?y mod 400)" by (rule year_start_nonneg [OF yb(1)])
  have "year_start (?y mod 400) + year_length (?y mod 400) \<le> 146097" by (rule year_end [OF yb])
  then have doe: "0 \<le> year_start (?y mod 400) + ?doy" "year_start (?y mod 400) + ?doy < 146097" using iy ys d1 by linarith+
  have zd: "(?days + 719468) div 146097 = ?y div 400" "(?days + 719468) mod 146097 = year_start (?y mod 400) + ?doy"
    by (rule int_div_pos_eq [OF z doe], rule int_mod_pos_eq [OF z doe])
  have yo: "year_of ((?days + 719468) mod 146097) = ?y mod 400"
    unfolding zd by (rule year_of_unique [OF yb]) (use iy d1 in linarith)+
  have doy: "(?days + 719468) mod 146097 - year_start (?y mod 400) = ?doy" by (simp add: zd)
  have mo: "(5 * ?doy + 2) div 153 = march_month m" by (rule month_of_unique) (use iy d1 in linarith)+
  have mm: "(if march_month m < 10 then march_month m + 3 else march_month m - 9) = m" using month_cases [OF md] by auto
  have "civil_from_days ?days = (if m \<le> 2 then ?y mod 400 + ?y div 400 * 400 + 1 else ?y mod 400 + ?y div 400 * 400, m, d)"
    using civil_eq(1) [of ?days] unfolding yo doy mo mm unfolding zd(1) by simp
  moreover have "?y mod 400 + ?y div 400 * 400 = ?y" by simp
  ultimately show ?thesis by auto
qed

lemma next_day:
  assumes "is_date x"
  shows "is_date (next_date x)" "(case next_date x of (y, m, d) \<Rightarrow> days_from_civil y m d) = (case x of (y, m, d) \<Rightarrow> days_from_civil y m d) + 1"
proof -
  obtain y m d where x: "x = (y, m, d)" by (metis prod_cases3)
  have md: "1 \<le> m" "m \<le> 12" "1 \<le> d" "d \<le> month_length y m" using assms by (simp_all add: x is_date_def)
  have pos: "1 \<le> month_length y' m'" for y' m' by (simp add: month_length_def)
  show "is_date (next_date x)" using md pos by (auto simp: x next_date_def is_date_def)
  show "(case next_date x of (y, m, d) \<Rightarrow> days_from_civil y m d) = (case x of (y, m, d) \<Rightarrow> days_from_civil y m d) + 1"
  proof (cases "d < month_length y m")
    case True
    then show ?thesis using days_eq [OF md(1,2)] by (simp add: x next_date_def)
  next
    case False
    then have d: "d = month_length y m" using md by simp
    consider "m = 2" | "m = 12" | "m \<noteq> 2" "m < 12" using md by linarith
    then show ?thesis
    proof cases
      case 1
      let ?a = "y - 1"
      have l: "month_length y 2 = year_length (?a mod 400) - 337" using year_length_leap [of ?a] by (simp add: month_length_def)
      have "y div 400 * 146097 + year_start (y mod 400) = ?a div 400 * 146097 + year_start (?a mod 400) + year_length (?a mod 400)"
      proof (cases "?a mod 400 = 399")
        case True
        have e: "y = 400 * (?a div 400 + 1) + 0" using True mult_div_mod_eq [of 400 ?a] by (simp add: algebra_simps)
        have "y div 400 = ?a div 400 + 1" "y mod 400 = 0" using int_div_pos_eq [OF e] int_mod_pos_eq [OF e] by simp_all
        then show ?thesis using True by (simp add: year_start_def year_length_def)
      next
        case False
        have b: "0 \<le> ?a mod 400" "?a mod 400 \<le> 398" using False pos_mod_bound [of 400 ?a] pos_mod_sign [of 400 ?a] by linarith+
        have e: "y = 400 * (?a div 400) + (?a mod 400 + 1)" using mult_div_mod_eq [of 400 ?a] by linarith
        have "y div 400 = ?a div 400" "y mod 400 = ?a mod 400 + 1"
          by (rule int_div_pos_eq [OF e], use b in simp, use b in simp, rule int_mod_pos_eq [OF e], use b in simp, use b in simp)
        then show ?thesis using year_start_next [OF b] by simp
      qed
      then show ?thesis using 1 d l days_eq [of 2 y d] days_eq [of 3 y 1] by (simp add: x next_date_def month_start_def)
    next
      case 2
      have e: "march_year y 12 = march_year (y + 1) 1" by simp
      show ?thesis using 2 d days_eq [of 12 y d] days_eq [of 1 "y + 1" 1] by (simp add: x next_date_def month_length_def month_start_def)
    next
      case 3
      have "march_month (m + 1) = march_month m + 1" "march_year y (m + 1) = march_year y m"
        using month_cases [OF md(1,2)] 3 by auto
      then show ?thesis using 3 d days_eq [OF md(1,2), of y d] days_eq [of "m + 1" y 1] md(1) month_length_start(1) [OF md(1,2) 3(1), of y]
        by (simp add: x next_date_def)
    qed
  qed
qed

text \<open>C26. 
  The calendar is the Gregorian one, for every day before and after 1970: day 0 is 1 January 1970, each day is
  followed by the next date (leap years and all), and the two conversions are inverse, so no date has two day numbers and
  no day number is without a date.
\<close>

theorem gregorian_calendar:
  "civil_from_days 0 = (1970, 1, 1) \<and> civil_from_days (days + 1) = next_date (civil_from_days days) \<and> is_date (civil_from_days days)
   \<and> (case civil_from_days days of (y, m, d) \<Rightarrow> days_from_civil y m d) = days
   \<and> (is_date (y', m', d') \<longrightarrow> civil_from_days (days_from_civil y' m' d') = (y', m', d'))"
proof -
  obtain y m d where c: "civil_from_days days = (y, m, d)" by (metis prod_cases3)
  obtain y1 m1 d1 where n: "next_date (y, m, d) = (y1, m1, d1)" by (metis prod_cases3)
  have v: "is_date (y, m, d)" using civil_is_date [of days] c by simp
  have "days_from_civil y1 m1 d1 = days + 1" using next_day(2) [OF v] n days_civil [OF c] by simp
  then have "civil_from_days (days + 1) = (y1, m1, d1)" using civil_days [of y1 m1 d1] next_day(1) [OF v] n by simp
  moreover have "civil_from_days 0 = (1970, 1, 1)" by code_simp
  ultimately show ?thesis using c n v days_civil [OF c] civil_days by simp
qed

theorem gregorian_calendar_witness:
  "civil_from_days (days_from_civil 2024 2 29) = (2024, 2, 29) \<and> is_date (2024, 2, 29)"
proof -
  have "is_date (2024, 2, 29)" by (simp add: is_date_def month_length_def leap_year_def)
  then show ?thesis using gregorian_calendar [of 0 2024 2 29] by blast
qed

section \<open>Broken-down times\<close>

lemma as_i32_id: "- (2 ^ 31) \<le> x \<Longrightarrow> x < 2 ^ 31 \<Longrightarrow> as_i32 x = x"
  by (simp add: as_i32_def signed_of_int signed_take_bit_int_eq_self)

lemma year_bound:
  assumes "civil_from_days days = (y, m, d)" "\<bar>days\<bar> \<le> 500000000000"
  shows "\<bar>y\<bar> \<le> 1500000000"
proof -
  let ?era = "(days + 719468) div 146097"
  have "- 3500000 \<le> ?era" "?era \<le> 3500000" using assms(2) by linarith+
  moreover have "y = year_of ((days + 719468) mod 146097) + ?era * 400 \<or> y = year_of ((days + 719468) mod 146097) + ?era * 400 + 1"
    using civil_eq(1) [of days] assms(1) by (auto split: if_splits)
  ultimately show ?thesis using civil_eq(2,3) [of days] by linarith
qed

lemma year_day:
  assumes "is_date (y, m, d)"
  shows "0 \<le> days_from_civil y m d - days_from_civil y 1 1" "days_from_civil y m d - days_from_civil y 1 1 \<le> 365"
proof -
  have md: "1 \<le> m" "m \<le> 12" "1 \<le> d" "d \<le> month_length y m" using assms by (simp_all add: is_date_def)
  have ml: "month_length y' m' \<le> 31" "28 \<le> month_length y' m'" "month_length y' 2 \<le> 29" for y' m' by (simp_all add: month_length_def)
  have "0 \<le> days_from_civil y m d - days_from_civil y 1 1 \<and> days_from_civil y m d - days_from_civil y 1 1 \<le> 365"
  proof (cases "m \<le> 2")
    case True
    then consider "m = 1" | "m = 2" using md by linarith
    then show ?thesis
    proof cases
      case 1
      have "days_from_civil y 1 d = days_from_civil y 1 1 + (d - 1)" using days_eq [of 1 y d] days_eq [of 1 y 1] by simp
      then show ?thesis using 1 md ml(1) [of y 1] by simp
    next
      case 2
      have "days_from_civil y 2 d = days_from_civil y 1 1 + 31 + (d - 1)"
        using days_eq [of 2 y d] days_eq [of 1 y 1] by (simp add: month_start_def)
      then show ?thesis using 2 md ml(1) [of y 2] by simp
    qed
  next
    case False
    let ?l = "month_length y 2"
    have "is_date (y, 2, ?l)" using ml(2) [of y 2] by (simp add: is_date_def)
    then have "days_from_civil y 3 1 = days_from_civil y 2 ?l + 1" using next_day(2) [of "(y, 2, ?l)"] by (simp add: next_date_def)
    moreover have "days_from_civil y 2 ?l = days_from_civil y 1 1 + 30 + ?l"
      using days_eq [of 2 y ?l] days_eq [of 1 y 1] by (simp add: month_start_def)
    moreover have "days_from_civil y m d = days_from_civil y 3 1 + month_start (march_month m) + d - 1"
      using days_eq [OF md(1,2), of y d] days_eq [of 3 y 1] False by (simp add: month_start_def)
    moreover have "0 \<le> month_start (march_month m)" "month_start (march_month m) + d \<le> 306"
      using month_cases [OF md(1,2)] False md(4) by (auto simp: month_start_def month_length_def)
    ultimately show ?thesis using ml(2) [of y 2] ml(3) [of y] md(3) by linarith
  qed
  then show "0 \<le> days_from_civil y m d - days_from_civil y 1 1" "days_from_civil y m d - days_from_civil y 1 1 \<le> 365" by simp_all
qed

lemma tm_fields:
  assumes "\<bar>s\<bar> \<le> 2 ^ 55" "civil_from_days (s div 86400) = (y, m, d)"
  shows "tm_from_epoch s = \<lparr>tm_sec = s mod 86400 mod 60, tm_min = s mod 86400 div 60 mod 60, tm_hour = s mod 86400 div 3600, tm_mday = d,
      tm_mon = m - 1, tm_year = y - 1900, tm_wday = (s div 86400 + 4) mod 7,
      tm_yday = s div 86400 - days_from_civil y 1 1, tm_isdst = 0, tm_gmtoff = 0\<rparr>"
    "1 \<le> m" "m \<le> 12" "1 \<le> d" "d \<le> 31" "days_from_civil y m d = s div 86400"
proof -
  have date: "is_date (y, m, d)" using civil_is_date [of "s div 86400"] assms(2) by simp
  then show md: "1 \<le> m" "m \<le> 12" "1 \<le> d" "d \<le> 31" by (auto simp: is_date_def month_length_def split: if_splits)
  show inv: "days_from_civil y m d = s div 86400" by (rule days_civil [OF assms(2)])
  have "\<bar>s div 86400\<bar> \<le> 500000000000" using assms(1) by simp
  then have y: "\<bar>y\<bar> \<le> 1500000000" by (rule year_bound [OF assms(2)])
  let ?r = "s mod 86400"
  have r: "0 \<le> ?r" "?r < 86400" by simp_all
  have q: "?r smod 60 = ?r mod 60" "?r sdiv 60 = ?r div 60" "(?r div 60) smod 60 = ?r div 60 mod 60" "?r sdiv 3600 = ?r div 3600"
    using r by (simp_all add: smod_nonneg sdiv_nonneg pos_imp_zdiv_nonneg_iff)
  have b: "0 \<le> ?r mod 60" "?r mod 60 < 60" "0 \<le> ?r div 60 mod 60" "?r div 60 mod 60 < 60" "0 \<le> ?r div 3600"
    "0 \<le> (s div 86400 + 4) mod 7" "(s div 86400 + 4) mod 7 < 7"
    using r by (simp_all only: pos_mod_sign pos_mod_bound zero_less_numeral pos_imp_zdiv_nonneg_iff)
  have h23: "?r div 3600 \<le> 23" using r by linarith
  note yd = year_day [OF date, unfolded inv]
  show "tm_from_epoch s = \<lparr>tm_sec = ?r mod 60, tm_min = ?r div 60 mod 60, tm_hour = ?r div 3600, tm_mday = d,
      tm_mon = m - 1, tm_year = y - 1900, tm_wday = (s div 86400 + 4) mod 7,
      tm_yday = s div 86400 - days_from_civil y 1 1, tm_isdst = 0, tm_gmtoff = 0\<rparr>"
  proof -
    have i: "0 \<le> x \<Longrightarrow> x \<le> 366 \<Longrightarrow> as_i32 x = x" for x by (rule as_i32_id) simp_all
    have "as_i32 (?r mod 60) = ?r mod 60" "as_i32 (?r div 60 mod 60) = ?r div 60 mod 60" "as_i32 (?r div 3600) = ?r div 3600"
      "as_i32 ((s div 86400 + 4) mod 7) = (s div 86400 + 4) mod 7"
      by (rule i; use b h23 in linarith)+
    moreover have "as_i32 d = d" "as_i32 (m - 1) = m - 1" by (rule i; use md in linarith)+
    moreover have "as_i32 (s div 86400 - days_from_civil y 1 1) = s div 86400 - days_from_civil y 1 1" by (rule i [OF yd(1)]) (use yd(2) in linarith)
    moreover have "as_i32 (y - 1900) = y - 1900" by (rule as_i32_id) (use y in simp_all)
    ultimately show ?thesis unfolding tm_from_epoch_def Let_def assms(2) prod.case q by (simp only:)
  qed
qed



end
