(* ===== verification/Cmem.thy ===== *)
theory Cmem
  imports Cbytes
begin

text \<open>
  \<^verbatim>\<open>crates/staros-libc/src/string.rs\<close>, the exported functions over memory. Memory is a byte at each address; an address is
  a natural, since no C object wraps the address space. A scan that finds no zero byte does not return (\<open>None\<close>).
\<close>

type_synonym cmem = "nat \<Rightarrow> u8"

definition bytes_at :: "cmem \<Rightarrow> nat \<Rightarrow> nat \<Rightarrow> u8 list" where
  "bytes_at m at n = map (\<lambda>i. m (at + i)) [0..<n]"

fun put_bytes :: "cmem \<Rightarrow> nat \<Rightarrow> u8 list \<Rightarrow> cmem" where
  "put_bytes m at [] = m"
| "put_bytes m at (b # bs) = put_bytes (m(at := b)) (at + 1) bs"

section \<open>Blocks\<close>

text \<open>The loop over whole words, which leaves off where fewer than eight bytes remain, and the loop over bytes.\<close>

function copy_words :: "cmem \<Rightarrow> nat \<Rightarrow> nat \<Rightarrow> nat \<Rightarrow> nat \<Rightarrow> nat \<times> cmem" where
  "copy_words m d s n i =
     (if i + 8 \<le> n then copy_words (put_bytes m (d + i) (bytes_at m (s + i) 8)) d s n (i + 8) else (i, m))"
  by pat_completeness auto
termination
  by (relation "measure (\<lambda>(m, d, s, n, i). n - i)") auto

function copy_forward :: "cmem \<Rightarrow> nat \<Rightarrow> nat \<Rightarrow> nat \<Rightarrow> nat \<Rightarrow> cmem" where
  "copy_forward m d s n i = (if i < n then copy_forward (m(d + i := m (s + i))) d s n (i + 1) else m)"
  by pat_completeness auto
termination
  by (relation "measure (\<lambda>(m, d, s, n, i). n - i)") auto

fun copy_backward :: "cmem \<Rightarrow> nat \<Rightarrow> nat \<Rightarrow> nat \<Rightarrow> cmem" where
  "copy_backward m d s 0 = m"
| "copy_backward m d s (Suc i) = copy_backward (m(d + i := m (s + i))) d s i"

declare copy_words.simps [simp del] copy_forward.simps [simp del]

definition memcpy :: "cmem \<Rightarrow> nat \<Rightarrow> nat \<Rightarrow> nat \<Rightarrow> cmem" where
  "memcpy m d s n =
     (let (i, m1) = (if d mod 8 = 0 \<and> s mod 8 = 0 then copy_words m d s n 0 else (0, m)) in copy_forward m1 d s n i)"

definition memmove :: "cmem \<Rightarrow> nat \<Rightarrow> nat \<Rightarrow> nat \<Rightarrow> cmem" where
  "memmove m d s n = (if d < s then copy_forward m d s n 0 else copy_backward m d s n)"

function set_words :: "cmem \<Rightarrow> nat \<Rightarrow> u8 \<Rightarrow> nat \<Rightarrow> nat \<Rightarrow> nat \<times> cmem" where
  "set_words m d b n i = (if i + 8 \<le> n then set_words (put_bytes m (d + i) (replicate 8 b)) d b n (i + 8) else (i, m))"
  by pat_completeness auto
termination
  by (relation "measure (\<lambda>(m, d, b, n, i). n - i)") auto

function set_bytes :: "cmem \<Rightarrow> nat \<Rightarrow> u8 \<Rightarrow> nat \<Rightarrow> nat \<Rightarrow> cmem" where
  "set_bytes m d b n i = (if i < n then set_bytes (m(d + i := b)) d b n (i + 1) else m)"
  by pat_completeness auto
termination
  by (relation "measure (\<lambda>(m, d, b, n, i). n - i)") auto

declare set_words.simps [simp del] set_bytes.simps [simp del]

definition memset :: "cmem \<Rightarrow> nat \<Rightarrow> int \<Rightarrow> nat \<Rightarrow> cmem" where
  "memset m d c n =
     (let b = word_of_int c; (i, m1) = (if d mod 8 = 0 then set_words m d b n 0 else (0, m)) in set_bytes m1 d b n i)"

definition memchr :: "cmem \<Rightarrow> nat \<Rightarrow> int \<Rightarrow> nat \<Rightarrow> nat option" where
  "memchr m s c n = map_option (\<lambda>i. s + i) (position (\<lambda>b. b = word_of_int c) (bytes_at m s n))"

definition rposition :: "('a \<Rightarrow> bool) \<Rightarrow> 'a list \<Rightarrow> nat option" where
  "rposition p xs = map_option (\<lambda>i. length xs - 1 - i) (position p (rev xs))"

definition memrchr :: "cmem \<Rightarrow> nat \<Rightarrow> int \<Rightarrow> nat \<Rightarrow> nat option" where
  "memrchr m s c n = map_option (\<lambda>i. s + i) (rposition (\<lambda>b. b = word_of_int c) (bytes_at m s n))"

definition memmem :: "cmem \<Rightarrow> nat \<Rightarrow> nat \<Rightarrow> nat \<Rightarrow> nat \<Rightarrow> nat option" where
  "memmem m h hn n nn = map_option (\<lambda>i. h + i) (find_bytes (bytes_at m h hn) (bytes_at m n nn))"

text \<open>\<^verbatim>\<open>memccpy\<close>: the memory, and the address after the copied byte when it was found.\<close>

fun memccpy_loop :: "cmem \<Rightarrow> nat \<Rightarrow> nat \<Rightarrow> u8 \<Rightarrow> nat \<Rightarrow> nat option \<times> cmem" where
  "memccpy_loop m d s c 0 = (None, m)"
| "memccpy_loop m d s c (Suc n) =
     (let b = m s; m1 = m(d := b) in if b = c then (Some (d + 1), m1) else memccpy_loop m1 (d + 1) (s + 1) c n)"

definition memccpy :: "cmem \<Rightarrow> nat \<Rightarrow> nat \<Rightarrow> int \<Rightarrow> nat \<Rightarrow> nat option \<times> cmem" where
  "memccpy m d s c n = memccpy_loop m d s (word_of_int c) n"

section \<open>Strings\<close>

partial_function (option) strlen_from :: "cmem \<Rightarrow> nat \<Rightarrow> nat \<Rightarrow> nat option" where
  "strlen_from m s n = (if m (s + n) \<noteq> 0 then strlen_from m s (n + 1) else Some n)"

definition strlen :: "cmem \<Rightarrow> nat \<Rightarrow> nat option" where
  "strlen m s = strlen_from m s 0"

definition text_of :: "cmem \<Rightarrow> nat \<Rightarrow> u8 list option" where
  "text_of m s = map_option (bytes_at m s) (strlen m s)"

definition strcpy :: "cmem \<Rightarrow> nat \<Rightarrow> nat \<Rightarrow> cmem option" where
  "strcpy m d s = map_option (\<lambda>n. put_bytes m d (bytes_at m s (n + 1))) (strlen m s)"

definition strncpy :: "cmem \<Rightarrow> nat \<Rightarrow> nat \<Rightarrow> nat \<Rightarrow> cmem option" where
  "strncpy m d s n =
     map_option (\<lambda>l. let len = min l n in put_bytes (put_bytes m d (bytes_at m s len)) (d + len) (replicate (n - len) 0)) (strlen m s)"

definition strcat :: "cmem \<Rightarrow> nat \<Rightarrow> nat \<Rightarrow> cmem option" where
  "strcat m d s = Option.bind (strlen m d) (\<lambda>end. strcpy m (d + end) s)"

definition strncat :: "cmem \<Rightarrow> nat \<Rightarrow> nat \<Rightarrow> nat \<Rightarrow> cmem option" where
  "strncat m d s n =
     Option.bind (strlen m d) (\<lambda>at. Option.bind (text_of m s) (\<lambda>bs.
       let k = min (length bs) n in Some ((put_bytes m (d + at) (take k bs))(d + at + k := 0))))"

text \<open>The terminator is part of what \<^verbatim>\<open>strchr\<close> and \<^verbatim>\<open>strrchr\<close> search.\<close>

definition strchr :: "cmem \<Rightarrow> nat \<Rightarrow> int \<Rightarrow> nat option option" where
  "strchr m s c = map_option (\<lambda>n. map_option (\<lambda>i. s + i) (position (\<lambda>b. b = word_of_int c) (bytes_at m s (n + 1)))) (strlen m s)"

definition strrchr :: "cmem \<Rightarrow> nat \<Rightarrow> int \<Rightarrow> nat option option" where
  "strrchr m s c = map_option (\<lambda>n. map_option (\<lambda>i. s + i) (rposition (\<lambda>b. b = word_of_int c) (bytes_at m s (n + 1)))) (strlen m s)"

definition strstr :: "cmem \<Rightarrow> nat \<Rightarrow> nat \<Rightarrow> nat option option" where
  "strstr m h n =
     Option.bind (text_of m h) (\<lambda>hs. map_option (\<lambda>ns. map_option (\<lambda>i. h + i) (find_bytes hs ns)) (text_of m n))"

definition strpbrk :: "cmem \<Rightarrow> nat \<Rightarrow> nat \<Rightarrow> nat option option" where
  "strpbrk m s accept =
     Option.bind (text_of m s) (\<lambda>bs. map_option (\<lambda>set'. map_option (\<lambda>i. s + i) (position (\<lambda>b. b \<in> set set') bs)) (text_of m accept))"

definition strxfrm :: "cmem \<Rightarrow> nat \<Rightarrow> nat \<Rightarrow> nat \<Rightarrow> (nat \<times> cmem) option" where
  "strxfrm m d s n =
     map_option (\<lambda>bs. (length bs, if 0 < n then let k = min (length bs) (n - 1) in (put_bytes m d (take k bs))(d + k := 0) else m)) (text_of m s)"

section \<open>Tokens\<close>

text \<open>The two scans of \<^verbatim>\<open>strtok_r\<close>: past the delimiters, and to the next one.\<close>

partial_function (option) skip_in :: "cmem \<Rightarrow> u8 set \<Rightarrow> nat \<Rightarrow> nat option" where
  "skip_in m delims cur = (if m cur \<noteq> 0 \<and> m cur \<in> delims then skip_in m delims (cur + 1) else Some cur)"

partial_function (option) skip_out :: "cmem \<Rightarrow> u8 set \<Rightarrow> nat \<Rightarrow> nat option" where
  "skip_out m delims cur = (if m cur \<noteq> 0 \<and> m cur \<notin> delims then skip_out m delims (cur + 1) else Some cur)"

text \<open>One call: the token or null, the saved pointer, and the memory with the token cut out.\<close>

definition strtok_r :: "cmem \<Rightarrow> nat option \<Rightarrow> nat \<Rightarrow> nat option \<Rightarrow> (nat option \<times> nat option \<times> cmem) option" where
  "strtok_r m s delim save =
     (case (case s of None \<Rightarrow> save | Some p \<Rightarrow> Some p) of
        None \<Rightarrow> Some (None, save, m)
      | Some cur \<Rightarrow>
          Option.bind (text_of m delim) (\<lambda>ds. Option.bind (skip_in m (set ds) cur) (\<lambda>start.
            if m start = 0 then Some (None, Some start, m)
            else Option.bind (skip_out m (set ds) start) (\<lambda>stop.
              if m stop \<noteq> 0 then Some (Some start, Some (stop + 1), m(stop := 0)) else Some (Some start, Some stop, m)))))"

end
