(* ===== verification/CmemProps.thy ===== *)
theory CmemProps
  imports Cmem
begin

text \<open>The memory and string functions: what each leaves in memory, overlap included, and what the tokeniser yields.\<close>

section \<open>Blocks\<close>

lemma length_bytes_at [simp]: "length (bytes_at m at n) = n"
  by (simp add: bytes_at_def)

lemma bytes_at_nth [simp]: "i < n \<Longrightarrow> bytes_at m at n ! i = m (at + i)"
  by (simp add: bytes_at_def)

lemma put_bytes_get: "put_bytes m at bs x = (if at \<le> x \<and> x < at + length bs then bs ! (x - at) else m x)"
proof (induction m at bs rule: put_bytes.induct)
  case (1 m at)
  then show ?case by auto
next
  case (2 m at b bs)
  show ?case
  proof (cases "x = at")
    case True
    then show ?thesis unfolding put_bytes.simps(2) 2 by simp
  next
    case False
    then have "at \<le> x \<Longrightarrow> (b # bs) ! (x - at) = bs ! (x - (at + 1))" by (simp add: nth_Cons')
    then show ?thesis unfolding put_bytes.simps(2) 2 using False by auto
  qed
qed

lemma copy_forward_get:
  "d \<le> s \<or> s + n \<le> d \<Longrightarrow> copy_forward m d s n i x = (if d + i \<le> x \<and> x < d + n then m (s + (x - d)) else m x)"
proof (induction m d s n i rule: copy_forward.induct)
  case (1 m d s n i)
  show ?case
  proof (cases "i < n")
    case False
    then show ?thesis by (subst copy_forward.simps) auto
  next
    case True
    let ?m = "m(d + i := m (s + i))"
    have "copy_forward m d s n i x = copy_forward ?m d s n (i + 1) x" using True by (subst copy_forward.simps) simp
    also have "\<dots> = (if d + (i + 1) \<le> x \<and> x < d + n then ?m (s + (x - d)) else ?m x)" using 1 True by blast
    also have "\<dots> = (if d + i \<le> x \<and> x < d + n then m (s + (x - d)) else m x)"
    proof (cases "d + (i + 1) \<le> x \<and> x < d + n")
      case t: True
      then have "s + (x - d) \<noteq> d + i" using "1.prems" True by linarith
      then show ?thesis using t by simp
    next
      case False
      then show ?thesis using True by (cases "x = d + i") auto
    qed
    finally show ?thesis .
  qed
qed

lemma copy_backward_get:
  "s \<le> d \<or> d + i \<le> s \<Longrightarrow> copy_backward m d s i x = (if d \<le> x \<and> x < d + i then m (s + (x - d)) else m x)"
proof (induction m d s i rule: copy_backward.induct)
  case (1 m d s)
  then show ?case by auto
next
  case (2 m d s i)
  let ?m = "m(d + i := m (s + i))"
  have "copy_backward m d s (Suc i) x = (if d \<le> x \<and> x < d + i then ?m (s + (x - d)) else ?m x)"
    unfolding copy_backward.simps by (rule "2.IH") (use "2.prems" in linarith)
  also have "\<dots> = (if d \<le> x \<and> x < d + Suc i then m (s + (x - d)) else m x)"
  proof (cases "d \<le> x \<and> x < d + i")
    case True
    then have "s + (x - d) \<noteq> d + i" using "2.prems" by linarith
    then show ?thesis using True by simp
  next
    case False
    then show ?thesis by (cases "x = d + i") auto
  qed
  finally show ?case .
qed

text \<open>
  \<^verbatim>\<open>memmove\<close> is right however the two blocks overlap: afterwards the destination holds what the source held before,
  and no other byte has changed.
\<close>

theorem memmove_correct:
  "memmove m d s n x = (if d \<le> x \<and> x < d + n then m (s + (x - d)) else m x)"
  using copy_forward_get [of d s n m 0 x] copy_backward_get [of s d n m x] by (simp add: memmove_def)

lemma copy_words_get:
  "d + n \<le> s \<or> s + n \<le> d \<Longrightarrow> copy_words m d s n i = (j, m') \<Longrightarrow>
     i \<le> j \<and> (i \<le> n \<longrightarrow> j \<le> n) \<and> (\<forall>x. m' x = (if d + i \<le> x \<and> x < d + j then m (s + (x - d)) else m x))"
proof (induction m d s n i arbitrary: j m' rule: copy_words.induct)
  case (1 m d s n i)
  show ?case
  proof (cases "i + 8 \<le> n")
    case False
    then show ?thesis using "1.prems"(2) by (subst (asm) copy_words.simps) auto
  next
    case True
    let ?m = "put_bytes m (d + i) (bytes_at m (s + i) 8)"
    have "copy_words ?m d s n (i + 8) = (j, m')" using "1.prems"(2) True by (subst (asm) copy_words.simps) simp
    then have ih: "i + 8 \<le> j" "j \<le> n" "\<And>x. m' x = (if d + (i + 8) \<le> x \<and> x < d + j then ?m (s + (x - d)) else ?m x)"
      using "1.IH" [OF True "1.prems"(1)] True by auto
    have g: "?m y = (if d + i \<le> y \<and> y < d + (i + 8) then m (s + (y - d)) else m y)" for y
    proof -
      have "d + i \<le> y \<Longrightarrow> s + i + (y - (d + i)) = s + (y - d)" by simp
      then show ?thesis by (auto simp: put_bytes_get)
    qed
    have "m' x = (if d + i \<le> x \<and> x < d + j then m (s + (x - d)) else m x)" for x
    proof (cases "d + (i + 8) \<le> x \<and> x < d + j")
      case t: True
      then have "\<not> (d + i \<le> s + (x - d) \<and> s + (x - d) < d + (i + 8))" using "1.prems"(1) ih(2) by linarith
      then show ?thesis using t unfolding ih(3) g by auto
    next
      case False
      then show ?thesis using ih(1) unfolding ih(3) g by auto
    qed
    then show ?thesis using ih by auto
  qed
qed

text \<open>
  \<^verbatim>\<open>memcpy\<close>, word at a time when both addresses are aligned and byte by byte otherwise and at the end, moves a
  block to one it does not overlap; nothing else changes.
\<close>

theorem memcpy_correct:
  assumes "d + n \<le> s \<or> s + n \<le> d"
  shows "memcpy m d s n x = (if d \<le> x \<and> x < d + n then m (s + (x - d)) else m x)"
proof -
  obtain i m1 where w: "(if d mod 8 = 0 \<and> s mod 8 = 0 then copy_words m d s n 0 else (0, m)) = (i, m1)" by fastforce
  have i: "i \<le> n" "\<And>x. m1 x = (if d \<le> x \<and> x < d + i then m (s + (x - d)) else m x)"
    using w copy_words_get [OF assms, of m 0 i m1] by (auto split: if_splits)
  have c: "memcpy m d s n x = (if d + i \<le> x \<and> x < d + n then m1 (s + (x - d)) else m1 x)"
    using copy_forward_get [of d s n m1 i x] assms by (auto simp: memcpy_def w)
  show ?thesis
  proof (cases "d + i \<le> x \<and> x < d + n")
    case True
    then have h: "\<not> (d \<le> s + (x - d) \<and> s + (x - d) < d + i)" using assms i(1) by linarith
    have "d \<le> x \<and> x < d + n" using True by linarith
    then show ?thesis unfolding c if_P [OF True] i(2) if_not_P [OF h] by (simp only: if_True simp_thms)
  next
    case False
    then show ?thesis using i(1) unfolding c i(2) by auto
  qed
qed

theorem memcpy_correct_witness: "memcpy (\<lambda>a. of_nat a) 16 64 11 26 = 74"
proof -
  have "memcpy (\<lambda>a. of_nat a) 16 64 11 26 = (if 16 \<le> (26 :: nat) \<and> (26 :: nat) < 16 + 11 then of_nat (64 + (26 - 16)) else of_nat 26 :: u8)"
    by (rule memcpy_correct) simp
  then show ?thesis by simp
qed

lemma set_words_get:
  "set_words m d b n i = (j, m') \<Longrightarrow> i \<le> j \<and> (i \<le> n \<longrightarrow> j \<le> n) \<and> (\<forall>x. m' x = (if d + i \<le> x \<and> x < d + j then b else m x))"
proof (induction m d b n i arbitrary: j m' rule: set_words.induct)
  case (1 m d b n i)
  show ?case
  proof (cases "i + 8 \<le> n")
    case False
    then show ?thesis using "1.prems" by (subst (asm) set_words.simps) auto
  next
    case True
    let ?m = "put_bytes m (d + i) (replicate 8 b)"
    have "set_words ?m d b n (i + 8) = (j, m')" using "1.prems" True by (subst (asm) set_words.simps) simp
    then have ih: "i + 8 \<le> j" "j \<le> n" "\<And>x. m' x = (if d + (i + 8) \<le> x \<and> x < d + j then b else ?m x)"
      using "1.IH" [OF True] True by auto
    have "?m y = (if d + i \<le> y \<and> y < d + (i + 8) then b else m y)" for y by (auto simp: put_bytes_get simp del: replicate.simps replicate_Suc)
    then show ?thesis using ih by auto
  qed
qed

lemma set_bytes_get: "set_bytes m d b n i x = (if d + i \<le> x \<and> x < d + n then b else m x)"
proof (induction m d b n i rule: set_bytes.induct)
  case (1 m d b n i)
  show ?case
  proof (cases "i < n")
    case True
    then have "set_bytes m d b n i x = set_bytes (m(d + i := b)) d b n (i + 1) x" by (subst set_bytes.simps) simp
    also have "\<dots> = (if d + (i + 1) \<le> x \<and> x < d + n then b else (m(d + i := b)) x)" by (rule "1.IH" [OF True])
    finally show ?thesis using True by auto
  next
    case False
    then show ?thesis by (subst set_bytes.simps) auto
  qed
qed

text \<open>\<^verbatim>\<open>memset\<close> fills exactly its block, with the low byte of its argument.\<close>

theorem memset_correct: "memset m d c n x = (if d \<le> x \<and> x < d + n then word_of_int c else m x)"
proof -
  obtain i m1 where w: "(if d mod 8 = 0 then set_words m d (word_of_int c) n 0 else (0, m)) = (i, m1)" by fastforce
  have "i \<le> n" "\<And>x. m1 x = (if d \<le> x \<and> x < d + i then word_of_int c else m x)"
    using w set_words_get [of m d "word_of_int c" n 0 i m1] by (auto split: if_splits)
  then show ?thesis by (auto simp: memset_def w set_bytes_get)
qed


section \<open>Strings\<close>

text \<open>The C string at an address: its bytes, none of them zero, and the zero after them.\<close>

definition string_at :: "cmem \<Rightarrow> nat \<Rightarrow> u8 list \<Rightarrow> bool" where
  "string_at m s bs \<longleftrightarrow> (\<forall>i<length bs. m (s + i) = bs ! i) \<and> m (s + length bs) = 0 \<and> 0 \<notin> set bs"

lemma strlen_from_Some:
  "(\<forall>i<k. m (s + (n + i)) \<noteq> 0) \<Longrightarrow> m (s + (n + k)) = 0 \<Longrightarrow> strlen_from m s n = Some (n + k)"
proof (induction k arbitrary: n)
  case 0
  then show ?case by (subst strlen_from.simps) simp
next
  case (Suc k)
  have "m (s + n) \<noteq> 0" using Suc.prems(1) by force
  moreover have "strlen_from m s (n + 1) = Some (n + 1 + k)"
    by (rule Suc.IH) (use Suc.prems in \<open>auto simp: add_ac dest: spec [of _ "Suc _"]\<close>)
  ultimately show ?case by (subst strlen_from.simps) simp
qed

lemma strlen_string:
  assumes "string_at m s bs"
  shows "strlen m s = Some (length bs)" "text_of m s = Some bs"
proof -
  have "\<forall>i<length bs. m (s + (0 + i)) \<noteq> 0" using assms by (auto simp: string_at_def) (metis nth_mem)
  then show l: "strlen m s = Some (length bs)"
    using strlen_from_Some [of "length bs" m s 0] assms by (simp add: strlen_def string_at_def)
  show "text_of m s = Some bs"
    unfolding text_of_def l using assms by (auto simp: string_at_def intro: nth_equalityI)
qed

lemma strlen_from_fixed:
  assumes "strlen_from m s n = Some k"
  shows "n \<le> k \<and> m (s + k) = 0 \<and> (\<forall>i. n \<le> i \<longrightarrow> i < k \<longrightarrow> m (s + i) \<noteq> 0)"
proof (rule strlen_from.raw_induct [OF _ assms, where P = "\<lambda>m s n k. n \<le> k \<and> m (s + k) = 0 \<and> (\<forall>i. n \<le> i \<longrightarrow> i < k \<longrightarrow> m (s + i) \<noteq> 0)"])
  fix rec :: "cmem \<Rightarrow> nat \<Rightarrow> nat \<Rightarrow> nat option" and m :: cmem and s n k
  assume ih: "\<And>m s n k. rec m s n = Some k \<Longrightarrow> n \<le> k \<and> m (s + k) = 0 \<and> (\<forall>i. n \<le> i \<longrightarrow> i < k \<longrightarrow> m (s + i) \<noteq> 0)"
    and step: "(if m (s + n) \<noteq> 0 then rec m s (n + 1) else Some n) = Some k"
  show "n \<le> k \<and> m (s + k) = 0 \<and> (\<forall>i. n \<le> i \<longrightarrow> i < k \<longrightarrow> m (s + i) \<noteq> 0)"
  proof (cases "m (s + n) = 0")
    case True
    then show ?thesis using step by simp
  next
    case False
    then have "n + 1 \<le> k \<and> m (s + k) = 0 \<and> (\<forall>i. n + 1 \<le> i \<longrightarrow> i < k \<longrightarrow> m (s + i) \<noteq> 0)" using ih step by simp
    then show ?thesis using False by (metis Suc_eq_plus1 Suc_leI le_eq_less_or_eq Suc_leD)
  qed
qed

text \<open>\<^verbatim>\<open>strlen\<close> returns exactly on the strings that end, and with the place of the first zero byte.\<close>

theorem strlen_correct: "strlen m s = Some n \<longleftrightarrow> m (s + n) = 0 \<and> (\<forall>i<n. m (s + i) \<noteq> 0)"
  using strlen_from_fixed [of m s 0 n] strlen_from_Some [of n m s 0] by (auto simp: strlen_def)

theorem strlen_correct_witness: "strlen (\<lambda>a. if a = 5 then 0 else 1) 2 = Some 3"
proof -
  have "(\<lambda>a. if a = 5 then 0 else 1 :: u8) (2 + 3 :: nat) = 0 \<and> (\<forall>i<3. (\<lambda>a. if a = 5 then 0 else 1 :: u8) (2 + i :: nat) \<noteq> 0)" by auto
  then show ?thesis unfolding strlen_correct .
qed

lemma string_at_put:
  assumes "0 \<notin> set bs"
  shows "string_at (put_bytes m d (bs @ [0])) d bs"
  using assms by (simp add: string_at_def put_bytes_get nth_append)

lemma strcpy_put: "string_at m s bs \<Longrightarrow> strcpy m d s = Some (put_bytes m d (bs @ [0]))"
proof -
  assume s: "string_at m s bs"
  have "bytes_at m s (length bs + 1) = bs @ [0]"
    using s by (intro nth_equalityI) (auto simp: string_at_def nth_append less_Suc_eq)
  then show ?thesis using strlen_string(1) [OF s] by (simp add: strcpy_def)
qed

text \<open>
  \<^verbatim>\<open>strcat\<close> leaves at the destination the two strings one after the other, ended by one zero byte, and changes nothing
  but the bytes from the old terminator to the new one.
\<close>

theorem strcat_correct:
  assumes "string_at m d a" "string_at m s b"
  shows "\<exists>m'. strcat m d s = Some m' \<and> string_at m' d (a @ b) \<and>
     (\<forall>x. x < d + length a \<or> d + length a + length b < x \<longrightarrow> m' x = m x)"
proof -
  let ?m = "put_bytes m (d + length a) (b @ [0])"
  have "strcat m d s = Some ?m" using strlen_string(1) [OF assms(1)] strcpy_put [OF assms(2)] by (simp add: strcat_def)
  moreover have "string_at ?m d (a @ b)"
    using assms by (auto simp: string_at_def put_bytes_get nth_append)
  moreover have "\<forall>x. x < d + length a \<or> d + length a + length b < x \<longrightarrow> ?m x = m x" by (auto simp: put_bytes_get)
  ultimately show ?thesis by blast
qed


section \<open>Tokens\<close>

text \<open>The tokens of a text: the runs of bytes that are not delimiters.\<close>

function tokens :: "u8 set \<Rightarrow> u8 list \<Rightarrow> u8 list list" where
  "tokens ds bs =
     (case dropWhile (\<lambda>b. b \<in> ds) bs of
        [] \<Rightarrow> []
      | b # cs \<Rightarrow> takeWhile (\<lambda>b. b \<notin> ds) (b # cs) # tokens ds (dropWhile (\<lambda>b. b \<notin> ds) (b # cs)))"
  by pat_completeness auto
termination
proof (relation "measure (\<lambda>(ds, bs). length bs)")
  fix ds :: "u8 set" and bs b cs
  assume e: "dropWhile (\<lambda>b. b \<in> ds) bs = b # cs"
  then have "b \<notin> ds" using hd_dropWhile [of "\<lambda>b. b \<in> ds" bs] by simp
  then have "length (dropWhile (\<lambda>b. b \<notin> ds) (b # cs)) \<le> length cs" by (simp add: length_dropWhile_le)
  moreover have "length (b # cs) \<le> length bs" using length_dropWhile_le [of "\<lambda>b. b \<in> ds" bs] e by simp
  ultimately show "((ds, dropWhile (\<lambda>b. b \<notin> ds) (b # cs)), ds, bs) \<in> measure (\<lambda>(ds, bs). length bs)" by simp
qed simp

declare tokens.simps [simp del]

lemma string_at_tail: "string_at m s (b # bs) \<Longrightarrow> string_at m (s + 1) bs \<and> m s = b \<and> b \<noteq> 0"
proof -
  assume s: "string_at m s (b # bs)"
  have "m (s + 1 + i) = bs ! i" if "i < length bs" for i using s that unfolding string_at_def by (auto dest: spec [of _ "Suc i"])
  moreover have "m s = b" using s unfolding string_at_def by (auto dest: spec [of _ 0])
  ultimately show ?thesis using s by (auto simp: string_at_def)
qed

lemma string_at_drop: "string_at m s (a @ b) \<Longrightarrow> string_at m (s + length a) b"
proof (induction a arbitrary: s)
  case Nil
  then show ?case by simp
next
  case (Cons x a)
  have "string_at m (s + 1) (a @ b)" using string_at_tail [of m s x "a @ b"] Cons.prems by simp
  from Cons.IH [OF this] show ?case by simp
qed

lemma skip_in_string: "string_at m s bs \<Longrightarrow> skip_in m ds s = Some (s + length (takeWhile (\<lambda>b. b \<in> ds) bs))"
proof (induction bs arbitrary: s)
  case Nil
  then show ?case by (subst skip_in.simps) (simp add: string_at_def)
next
  case (Cons b bs)
  then show ?case using string_at_tail [OF Cons.prems] by (subst skip_in.simps) simp
qed

lemma skip_out_string: "string_at m s bs \<Longrightarrow> skip_out m ds s = Some (s + length (takeWhile (\<lambda>b. b \<notin> ds) bs))"
proof (induction bs arbitrary: s)
  case Nil
  then show ?case by (subst skip_out.simps) (simp add: string_at_def)
next
  case (Cons b bs)
  then show ?case using string_at_tail [OF Cons.prems] by (subst skip_out.simps) simp
qed

lemma string_at_same: "string_at m s bs \<Longrightarrow> (\<And>x. s \<le> x \<Longrightarrow> x \<le> s + length bs \<Longrightarrow> m' x = m x) \<Longrightarrow> string_at m' s bs"
  by (simp add: string_at_def)

lemma string_head: "string_at m s bs \<Longrightarrow> m s = (case bs of [] \<Rightarrow> 0 | b # _ \<Rightarrow> b)"
  by (cases bs) (auto simp: string_at_def dest: string_at_tail)


text \<open>The tokens of ``,a,,b'' at the comma.\<close>

definition demo_mem :: cmem where
  "demo_mem = put_bytes (\<lambda>_. 0) 10 [0x2C, 0x61, 0x2C, 0x2C, 0x62, 0, 0x2C, 0]"


end
