(* ===== verification/Fdt.thy ===== *)
theory Fdt
  imports Bytes Utf8
begin

text \<open>
  \<^verbatim>\<open>crates/fdt/src/lib.rs\<close>: the reader of the flattened device tree the boot loader hands over. Offsets are sums of a few
  32-bit fields in 64-bit arithmetic, so positions are naturals and no checked addition of the source fails; a Rust
  iterator is the list of what it yields. Text is its bytes.
\<close>

section \<open>Fields\<close>

definition FDT_MAGIC :: u32 where "FDT_MAGIC = 0xD00DFEED"
definition MIN_COMPATIBLE_VERSION :: u32 where "MIN_COMPATIBLE_VERSION = 16"
definition HEADER_LEN :: nat where "HEADER_LEN = 40"
definition FDT_BEGIN_NODE :: u32 where "FDT_BEGIN_NODE = 1"
definition FDT_END_NODE :: u32 where "FDT_END_NODE = 2"
definition FDT_PROP :: u32 where "FDT_PROP = 3"
definition FDT_NOP :: u32 where "FDT_NOP = 4"
definition FDT_END :: u32 where "FDT_END = 9"
definition MAX_DEPTH :: nat where "MAX_DEPTH = 32"
definition DEFAULT_CELLS :: "nat \<times> nat" where "DEFAULT_CELLS = (2, 1)"

lemmas fdt_tokens = FDT_BEGIN_NODE_def FDT_END_NODE_def FDT_PROP_def FDT_NOP_def FDT_END_def

datatype fdt_error = BadMagic | UnsupportedVersion | Truncated | BadStructure | BadString | TooDeep

definition slice :: "u8 list \<Rightarrow> nat \<Rightarrow> nat \<Rightarrow> u8 list option" where
  "slice d a e = (if a \<le> e \<and> e \<le> length d then Some (take (e - a) (drop a d)) else None)"

definition read_be_u32 :: "u8 list \<Rightarrow> nat \<Rightarrow> u32 option" where
  "read_be_u32 d off = map_option from_be (slice d off (off + 4))"

definition read_be_u64 :: "u8 list \<Rightarrow> nat \<Rightarrow> u64 option" where
  "read_be_u64 d off =
     (case read_be_u32 d off of None \<Rightarrow> None | Some hi \<Rightarrow>
      case read_be_u32 d (off + 4) of None \<Rightarrow> None | Some lo \<Rightarrow> Some (push_bit 32 (ucast hi) OR ucast lo))"

definition align4 :: "nat \<Rightarrow> nat" where
  "align4 n = (n + 3) div 4 * 4"

text \<open>The loop over \<open>n\<close> cells from cell \<open>i\<close> on.\<close>

fun cells_loop :: "u8 list \<Rightarrow> nat \<Rightarrow> nat \<Rightarrow> nat \<Rightarrow> u64 \<Rightarrow> u64 option" where
  "cells_loop d off 0 i v = Some v"
| "cells_loop d off (Suc n) i v =
     (case read_be_u32 d (off + i * 4) of None \<Rightarrow> None | Some c \<Rightarrow> cells_loop d off n (i + 1) (push_bit 32 v OR ucast c))"

definition read_cells :: "u8 list \<Rightarrow> nat \<Rightarrow> nat \<Rightarrow> u64 option" where
  "read_cells d off n = cells_loop d off n 0 0"

lemma slice_Some: "slice d a e = Some s \<longleftrightarrow> a \<le> e \<and> e \<le> length d \<and> s = take (e - a) (drop a d)"
  by (auto simp: slice_def)

lemma read_be_u32_bound: "read_be_u32 d off = Some w \<Longrightarrow> off + 4 \<le> length d"
  by (auto simp: read_be_u32_def slice_Some)

lemma align4_ge: "n \<le> align4 n"
  unfolding align4_def by presburger

section \<open>The header\<close>

record blob =
  b_data :: "u8 list"
  struct_start :: nat
  struct_end :: nat
  strings_start :: nat
  strings_end :: nat

definition string_at :: "blob \<Rightarrow> nat \<Rightarrow> fdt_error + u8 list" where
  "string_at b off =
     (case slice (b_data b) (strings_start b + off) (strings_end b) of
        None \<Rightarrow> Inl Truncated
      | Some region \<Rightarrow>
          (case position (\<lambda>c. c = 0) region of
             None \<Rightarrow> Inl BadStructure
           | Some n \<Rightarrow> if utf8 (take n region) then Inr (take n region) else Inl BadString))"

record fdt =
  f_blob :: blob
  mem_rsvmap :: nat
  boot_cpuid :: u32

definition fdt_new :: "u8 list \<Rightarrow> fdt_error + fdt" where
  "fdt_new d =
     (case read_be_u32 d 0 of None \<Rightarrow> Inl Truncated | Some magic \<Rightarrow>
      if magic \<noteq> FDT_MAGIC then Inl BadMagic else
      case read_be_u32 d 4 of None \<Rightarrow> Inl Truncated | Some tot \<Rightarrow>
      let totalsize = unat tot in
      if totalsize < HEADER_LEN \<or> length d < totalsize then Inl Truncated else
      let d = take totalsize d in
      case (read_be_u32 d 8, read_be_u32 d 12, read_be_u32 d 16) of
        (Some off_struct, Some off_strings, Some off_rsv) \<Rightarrow>
          (case (read_be_u32 d 24, read_be_u32 d 28, read_be_u32 d 32, read_be_u32 d 36) of
             (Some last_comp, Some cpuid, Some size_strings, Some size_struct) \<Rightarrow>
               if MIN_COMPATIBLE_VERSION < last_comp then Inl UnsupportedVersion
               else let s_end = unat off_struct + unat size_struct; t_end = unat off_strings + unat size_strings in
                 if totalsize < s_end \<or> totalsize < t_end \<or> totalsize \<le> unat off_rsv then Inl Truncated
                 else Inr \<lparr>f_blob = \<lparr>b_data = d, struct_start = unat off_struct, struct_end = s_end,
                                     strings_start = unat off_strings, strings_end = t_end\<rparr>,
                           mem_rsvmap = unat off_rsv, boot_cpuid = cpuid\<rparr>
           | _ \<Rightarrow> Inl Truncated)
      | _ \<Rightarrow> Inl Truncated)"

text \<open>The blob in memory, given its address: what is read before anything is known to be there is the first eight bytes.\<close>

definition fdt_from_ptr :: "(nat \<Rightarrow> u8) \<Rightarrow> nat \<Rightarrow> fdt_error + fdt" where
  "fdt_from_ptr m p =
     (if p = 0 \<or> p mod 8 \<noteq> 0 then Inl BadMagic
      else let header = map (\<lambda>i. m (p + i)) [0..<8] in
        case read_be_u32 header 0 of None \<Rightarrow> Inl Truncated | Some magic \<Rightarrow>
        if magic \<noteq> FDT_MAGIC then Inl BadMagic else
        case read_be_u32 header 4 of None \<Rightarrow> Inl Truncated | Some tot \<Rightarrow>
        if unat tot < HEADER_LEN then Inl Truncated else fdt_new (map (\<lambda>i. m (p + i)) [0..<unat tot]))"

function reservations_from :: "u8 list \<Rightarrow> nat \<Rightarrow> (u64 \<times> u64) list" where
  "reservations_from d pos =
     (case read_be_u64 d pos of None \<Rightarrow> [] | Some address \<Rightarrow>
      case read_be_u64 d (pos + 8) of None \<Rightarrow> [] | Some sz \<Rightarrow>
      if address = 0 \<and> sz = 0 then [] else (address, sz) # reservations_from d (pos + 16))"
  by pat_completeness auto
termination
  by (relation "measure (\<lambda>(d, pos). length d - pos)")
     (auto simp: read_be_u64_def split: option.splits dest!: read_be_u32_bound)

declare reservations_from.simps [simp del]

definition memory_reservations :: "fdt \<Rightarrow> (u64 \<times> u64) list" where
  "memory_reservations f = reservations_from (b_data (f_blob f)) (mem_rsvmap f)"

section \<open>The walk\<close>

record fdt_node =
  n_name :: "u8 list"
  n_body :: nat
  n_parent_cells :: "nat \<times> nat"

record walk =
  w_pos :: nat
  w_depth :: nat
  w_names :: "u8 list list"
  w_cells :: "(nat \<times> nat) list"
  w_done :: bool

definition walk_new :: "blob \<Rightarrow> walk" where
  "walk_new b = \<lparr>w_pos = struct_start b, w_depth = 0, w_names = replicate MAX_DEPTH [], w_cells = replicate MAX_DEPTH DEFAULT_CELLS,
                 w_done = False\<rparr>"

definition ADDRESS_CELLS :: "u8 list" where
  "ADDRESS_CELLS = [0x23, 0x61, 0x64, 0x64, 0x72, 0x65, 0x73, 0x73, 0x2D, 0x63, 0x65, 0x6C, 0x6C, 0x73]"

definition SIZE_CELLS :: "u8 list" where
  "SIZE_CELLS = [0x23, 0x73, 0x69, 0x7A, 0x65, 0x2D, 0x63, 0x65, 0x6C, 0x6C, 0x73]"

definition read_name :: "blob \<Rightarrow> nat \<Rightarrow> fdt_error + u8 list \<times> nat" where
  "read_name b pos =
     (case slice (b_data b) pos (struct_end b) of
        None \<Rightarrow> Inl Truncated
      | Some region \<Rightarrow>
          (case position (\<lambda>c. c = 0) region of
             None \<Rightarrow> Inl BadStructure
           | Some n \<Rightarrow> if utf8 (take n region) then Inr (take n region, align4 (pos + (n + 1))) else Inl BadString))"

definition read_prop :: "blob \<Rightarrow> nat \<Rightarrow> fdt_error + u8 list \<times> u8 list \<times> nat" where
  "read_prop b pos =
     (case read_be_u32 (b_data b) pos of None \<Rightarrow> Inl Truncated | Some len \<Rightarrow>
      case read_be_u32 (b_data b) (pos + 4) of None \<Rightarrow> Inl Truncated | Some nameoff \<Rightarrow>
      let value_end = pos + 8 + unat len in
      case slice (b_data b) (pos + 8) value_end of None \<Rightarrow> Inl Truncated | Some v \<Rightarrow>
      case string_at b (unat nameoff) of Inl e \<Rightarrow> Inl e | Inr name \<Rightarrow> Inr (name, v, align4 value_end))"

text \<open>What a property of the open node does to the cells in force below it.\<close>

definition note_cells :: "u8 list \<Rightarrow> u8 list \<Rightarrow> nat \<times> nat \<Rightarrow> nat \<times> nat" where
  "note_cells name v c =
     (case read_be_u32 v 0 of
        None \<Rightarrow> c
      | Some n \<Rightarrow> if name = ADDRESS_CELLS then (unat n, snd c) else if name = SIZE_CELLS then (fst c, unat n) else c)"

lemma read_name_advances:
  assumes "read_name b pos = Inr (name, p)"
  shows "pos < p"
proof -
  obtain n where "p = align4 (pos + (n + 1))"
    using assms by (auto simp: read_name_def split: option.splits if_splits)
  then show ?thesis using align4_ge [of "pos + (n + 1)"] by linarith
qed

lemma read_prop_advances:
  assumes "read_prop b pos = Inr (name, v, p)"
  shows "pos < p"
proof -
  obtain n where "p = align4 (pos + 8 + n)"
    using assms by (auto simp: read_prop_def Let_def split: option.splits sum.splits)
  then show ?thesis using align4_ge [of "pos + 8 + n"] by linarith
qed

function walk_next :: "blob \<Rightarrow> walk \<Rightarrow> fdt_error + fdt_node option \<times> walk" where
  "walk_next b w =
     (if w_done w \<or> struct_end b \<le> w_pos w then Inr (None, w)
      else case read_be_u32 (b_data b) (w_pos w) of None \<Rightarrow> Inl Truncated | Some token \<Rightarrow>
        let pos = w_pos w + 4; w = w\<lparr>w_pos := pos\<rparr> in
        if token = FDT_NOP then walk_next b w
        else if token = FDT_END then Inr (None, w\<lparr>w_done := True\<rparr>)
        else if token = FDT_END_NODE then
          (if w_depth w = 0 then Inl BadStructure else walk_next b (w\<lparr>w_depth := w_depth w - 1\<rparr>))
        else if token = FDT_BEGIN_NODE then
          (case read_name b pos of
             Inl e \<Rightarrow> Inl e
           | Inr (name, p) \<Rightarrow>
               if MAX_DEPTH \<le> w_depth w then Inl TooDeep
               else let inherited = (if w_depth w = 0 then DEFAULT_CELLS else w_cells w ! (w_depth w - 1)) in
                 Inr (Some \<lparr>n_name = name, n_body = p, n_parent_cells = inherited\<rparr>,
                      w\<lparr>w_pos := p, w_names := (w_names w)[w_depth w := name], w_cells := (w_cells w)[w_depth w := inherited],
                        w_depth := w_depth w + 1\<rparr>))
        else if token = FDT_PROP then
          (case read_prop b pos of
             Inl e \<Rightarrow> Inl e
           | Inr (name, v, p) \<Rightarrow>
               if w_depth w = 0 then Inl BadStructure
               else let level = w_depth w - 1 in
                 walk_next b (w\<lparr>w_pos := p, w_cells := (w_cells w)[level := note_cells name v (w_cells w ! level)]\<rparr>))
        else Inl BadStructure)"
  by pat_completeness auto
termination
  by (relation "measure (\<lambda>(b, w). struct_end b - w_pos w)") (auto dest!: read_prop_advances)

declare walk_next.simps [simp del]

lemma walk_next_advances: "walk_next b w = Inr (Some n, w') \<Longrightarrow> w_pos w < w_pos w' \<and> w_pos w < struct_end b"
proof (induction b w rule: walk_next.induct)
  case (1 b w)
  show ?case
  proof (cases "w_done w \<or> struct_end b \<le> w_pos w")
    case True
    then show ?thesis using "1.prems" by (simp add: walk_next.simps)
  next
    case False
    then obtain token where t: "read_be_u32 (b_data b) (w_pos w) = Some token"
      using "1.prems" by (cases "read_be_u32 (b_data b) (w_pos w)") (simp_all add: walk_next.simps [of b w])
    note step = "1.prems" [unfolded walk_next.simps [of b w] if_not_P [OF False] t option.case Let_def]
    consider "token = FDT_NOP" | "token = FDT_END_NODE" | "token = FDT_BEGIN_NODE" | "token = FDT_PROP"
      using step by (auto split: if_splits)
    then show ?thesis
    proof cases
      case 1
      then show ?thesis using step "1.IH"(1) [OF False t refl refl 1] False by auto
    next
      case 2
      then have "token \<noteq> FDT_NOP" "token \<noteq> FDT_END" by (simp_all add: fdt_tokens)
      then show ?thesis using step "1.IH"(2) [OF False t refl refl _ _ 2] 2 False by (auto split: if_splits)
    next
      case 3
      then have "token \<noteq> FDT_NOP" "token \<noteq> FDT_END" "token \<noteq> FDT_END_NODE" by (simp_all add: fdt_tokens)
      then show ?thesis using step 3 False by (auto split: if_splits sum.splits dest!: read_name_advances)
    next
      case 4
      then have k: "token \<noteq> FDT_NOP" "token \<noteq> FDT_END" "token \<noteq> FDT_END_NODE" "token \<noteq> FDT_BEGIN_NODE"
        by (simp_all add: fdt_tokens)
      obtain name v p where r: "read_prop b (w_pos w + 4) = Inr (name, v, p)"
        using step k 4 by (auto split: sum.splits if_splits)
      have d: "w_depth w \<noteq> 0" using step k 4 r by (auto split: if_splits)
      have "w_pos w < p" using read_prop_advances [OF r] by simp
      moreover have "walk_next b (w\<lparr>w_pos := p, w_cells := (w_cells w)[w_depth w - 1 := note_cells name v (w_cells w ! (w_depth w - 1))]\<rparr>) = Inr (Some n, w')"
        using step k 4 r d by simp
      ultimately show ?thesis
        using "1.IH"(3) [OF False t refl refl k 4 r refl refl] d False by auto
    qed
  qed
qed

function walk_nodes :: "blob \<Rightarrow> walk \<Rightarrow> (fdt_node \<times> walk) list" where
  "walk_nodes b w = (case walk_next b w of Inr (Some n, w') \<Rightarrow> (n, w') # walk_nodes b w' | _ \<Rightarrow> [])"
  by pat_completeness auto
termination
  by (relation "measure (\<lambda>(b, w). struct_end b - w_pos w)") (auto dest!: walk_next_advances)

declare walk_nodes.simps [simp del]

definition fdt_nodes :: "fdt \<Rightarrow> fdt_node list" where
  "fdt_nodes f = map fst (walk_nodes (f_blob f) (walk_new (f_blob f)))"

definition fdt_root :: "fdt \<Rightarrow> fdt_error + fdt_node" where
  "fdt_root f =
     (case walk_next (f_blob f) (walk_new (f_blob f)) of
        Inl e \<Rightarrow> Inl e | Inr (None, _) \<Rightarrow> Inl BadStructure | Inr (Some n, _) \<Rightarrow> Inr n)"

section \<open>Paths\<close>

definition split_once :: "u8 \<Rightarrow> u8 list \<Rightarrow> (u8 list \<times> u8 list) option" where
  "split_once c s = map_option (\<lambda>i. (take i s, drop (i + 1) s)) (position (\<lambda>x. x = c) s)"

text \<open>The non-empty parts of a path between its slashes.\<close>

fun components :: "u8 list \<Rightarrow> u8 list \<Rightarrow> u8 list list" where
  "components acc [] = (if acc = [] then [] else [rev acc])"
| "components acc (c # cs) =
     (if c = 0x2F then (if acc = [] then components [] cs else rev acc # components [] cs) else components (c # acc) cs)"

definition name_matches :: "u8 list \<Rightarrow> u8 list \<Rightarrow> bool" where
  "name_matches name component \<longleftrightarrow>
     name = component
     \<or> (case split_once 0x40 name of Some (base, _) \<Rightarrow> base = component \<and> 0x40 \<notin> set component | None \<Rightarrow> False)"

fun match_from :: "walk \<Rightarrow> nat \<Rightarrow> u8 list list \<Rightarrow> bool" where
  "match_from w level [] \<longleftrightarrow> level = w_depth w"
| "match_from w level (c # cs) \<longleftrightarrow>
     level < w_depth w \<and> name_matches (w_names w ! level) c \<and> match_from w (level + 1) cs"

definition matches_path :: "walk \<Rightarrow> u8 list \<Rightarrow> bool" where
  "matches_path w path \<longleftrightarrow> match_from w 1 (components [] path)"

text \<open>The loop of \<^verbatim>\<open>find_node\<close>: node after node until the walk ends, fails or matches.\<close>

function find_from :: "blob \<Rightarrow> walk \<Rightarrow> u8 list \<Rightarrow> fdt_node option" where
  "find_from b w path =
     (case walk_next b w of
        Inr (Some n, w') \<Rightarrow> if matches_path w' path then Some n else find_from b w' path
      | _ \<Rightarrow> None)"
  by pat_completeness auto
termination
  by (relation "measure (\<lambda>(b, w, path). struct_end b - w_pos w)") (auto dest!: walk_next_advances)

declare find_from.simps [simp del]

definition find_node :: "fdt \<Rightarrow> u8 list \<Rightarrow> fdt_node option" where
  "find_node f path = find_from (f_blob f) (walk_new (f_blob f)) path"

section \<open>Properties of a node\<close>

type_synonym fdt_prop = "u8 list \<times> u8 list"

function props_from :: "blob \<Rightarrow> nat \<Rightarrow> fdt_prop list" where
  "props_from b pos =
     (case read_be_u32 (b_data b) pos of None \<Rightarrow> [] | Some token \<Rightarrow>
      if token = FDT_NOP then props_from b (pos + 4)
      else if token = FDT_PROP then
        (case read_be_u32 (b_data b) (pos + 4) of None \<Rightarrow> [] | Some len \<Rightarrow>
         case read_be_u32 (b_data b) (pos + 8) of None \<Rightarrow> [] | Some nameoff \<Rightarrow>
         case slice (b_data b) (pos + 12) (pos + 12 + unat len) of None \<Rightarrow> [] | Some v \<Rightarrow>
         case string_at b (unat nameoff) of Inl _ \<Rightarrow> [] | Inr name \<Rightarrow> (name, v) # props_from b (align4 (pos + 12 + unat len)))
      else [])"
  by pat_completeness auto
termination
proof (relation "measure (\<lambda>(b, pos). length (b_data b) - pos)", goal_cases)
  case (3 b pos token len nameoff v name)
  then have "pos + 4 \<le> length (b_data b)" by (auto dest: read_be_u32_bound)
  then show ?case using align4_ge [of "pos + 12 + unat len"] by simp
qed (auto dest!: read_be_u32_bound)

declare props_from.simps [simp del]

definition node_props :: "blob \<Rightarrow> fdt_node \<Rightarrow> fdt_prop list" where
  "node_props b n = props_from b (n_body n)"

definition node_prop :: "blob \<Rightarrow> fdt_node \<Rightarrow> u8 list \<Rightarrow> u8 list option" where
  "node_prop b n name = map_option snd (List.find (\<lambda>p. fst p = name) (node_props b n))"

definition as_u32 :: "u8 list \<Rightarrow> u32 option" where
  "as_u32 v = (if length v \<noteq> 4 then None else read_be_u32 v 0)"

definition as_u64 :: "u8 list \<Rightarrow> u64 option" where
  "as_u64 v = (if length v \<noteq> 8 then None else read_be_u64 v 0)"

definition as_uint :: "u8 list \<Rightarrow> u64 option" where
  "as_uint v = (if length v = 4 then map_option ucast (as_u32 v) else if length v = 8 then as_u64 v else None)"

definition as_str :: "u8 list \<Rightarrow> u8 list option" where
  "as_str v =
     (let s = take (case position (\<lambda>c. c = 0) v of Some i \<Rightarrow> i | None \<Rightarrow> length v) v in if utf8 s then Some s else None)"

function strings_of :: "u8 list \<Rightarrow> u8 list list" where
  "strings_of d =
     (if d = [] then []
      else let k = (case position (\<lambda>c. c = 0) d of Some i \<Rightarrow> i | None \<Rightarrow> length d)
           in if utf8 (take k d) then take k d # strings_of (drop (k + 1) d) else [])"
  by pat_completeness auto
termination
  by (relation "measure length") auto

declare strings_of.simps [simp del]

function prop_cells :: "u8 list \<Rightarrow> nat \<Rightarrow> u32 list" where
  "prop_cells d pos = (case read_be_u32 d pos of None \<Rightarrow> [] | Some c \<Rightarrow> c # prop_cells d (pos + 4))"
  by pat_completeness auto
termination
  by (relation "measure (\<lambda>(d, pos). length d - pos)") (auto dest!: read_be_u32_bound)

declare prop_cells.simps [simp del]

definition base_name :: "fdt_node \<Rightarrow> u8 list" where
  "base_name n = (case split_once 0x40 (n_name n) of Some (base, _) \<Rightarrow> base | None \<Rightarrow> n_name n)"

definition hex_digit :: "u8 \<Rightarrow> nat option" where
  "hex_digit c =
     (if 0x30 \<le> c \<and> c \<le> 0x39 then Some (unat (c - 0x30))
      else if 0x61 \<le> c \<and> c \<le> 0x66 then Some (unat (c - 0x61) + 10)
      else if 0x41 \<le> c \<and> c \<le> 0x46 then Some (unat (c - 0x41) + 10)
      else None)"

fun hex_value :: "u8 list \<Rightarrow> nat \<Rightarrow> nat option" where
  "hex_value [] v = Some v"
| "hex_value (c # cs) v =
     (case hex_digit c of None \<Rightarrow> None | Some d \<Rightarrow> if 16 * v + d < 2 ^ 64 then hex_value cs (16 * v + d) else None)"

text \<open>\<^verbatim>\<open>u64::from_str_radix(unit, 16)\<close>: digits after at most one plus sign.\<close>

definition unit_address :: "fdt_node \<Rightarrow> nat option" where
  "unit_address n =
     (case split_once 0x40 (n_name n) of
        None \<Rightarrow> None
      | Some (_, unit) \<Rightarrow>
          let digits = (case unit of c # cs \<Rightarrow> if c = 0x2B then cs else unit | [] \<Rightarrow> [])
          in if digits = [] then None else hex_value digits 0)"

definition COMPATIBLE :: "u8 list" where
  "COMPATIBLE = [0x63, 0x6F, 0x6D, 0x70, 0x61, 0x74, 0x69, 0x62, 0x6C, 0x65]"

definition is_compatible :: "blob \<Rightarrow> fdt_node \<Rightarrow> u8 list \<Rightarrow> bool" where
  "is_compatible b n c = (case node_prop b n COMPATIBLE of None \<Rightarrow> False | Some v \<Rightarrow> c \<in> set (strings_of v))"

definition find_compatible :: "fdt \<Rightarrow> u8 list \<Rightarrow> fdt_node option" where
  "find_compatible f c = List.find (\<lambda>n. is_compatible (f_blob f) n c) (fdt_nodes f)"

definition find_all_compatible :: "fdt \<Rightarrow> u8 list \<Rightarrow> fdt_node list" where
  "find_all_compatible f c = filter (\<lambda>n. is_compatible (f_blob f) n c) (fdt_nodes f)"

definition node_address_cells :: "blob \<Rightarrow> fdt_node \<Rightarrow> nat" where
  "node_address_cells b n =
     (case Option.bind (node_prop b n ADDRESS_CELLS) as_u32 of Some c \<Rightarrow> unat c | None \<Rightarrow> fst (n_parent_cells n))"

definition node_size_cells :: "blob \<Rightarrow> fdt_node \<Rightarrow> nat" where
  "node_size_cells b n =
     (case Option.bind (node_prop b n SIZE_CELLS) as_u32 of Some c \<Rightarrow> unat c | None \<Rightarrow> snd (n_parent_cells n))"

section \<open>Registers and interrupts\<close>

lemma cells_loop_bound: "cells_loop d off n i v = Some x \<Longrightarrow> 0 < n \<Longrightarrow> off + (i + n) * 4 \<le> length d"
proof (induction n arbitrary: i v)
  case (Suc n)
  then obtain c where c: "read_be_u32 d (off + i * 4) = Some c" "cells_loop d off n (i + 1) (push_bit 32 v OR ucast c) = Some x"
    by (auto split: option.splits)
  show ?case
  proof (cases n)
    case 0
    then show ?thesis using read_be_u32_bound [OF c(1)] by simp
  next
    case (Suc m)
    then show ?thesis using Suc.IH [OF c(2)] by simp
  qed
qed simp

function reg_from :: "u8 list \<Rightarrow> nat \<Rightarrow> nat \<Rightarrow> nat \<Rightarrow> (u64 \<times> u64) list" where
  "reg_from d ac sc pos =
     (case read_cells d pos ac of None \<Rightarrow> [] | Some address \<Rightarrow>
      case read_cells d (pos + ac * 4) sc of None \<Rightarrow> [] | Some sz \<Rightarrow>
      if ac + sc = 0 then [] else (address, sz) # reg_from d ac sc (pos + (ac + sc) * 4))"
  by pat_completeness auto
termination
proof (relation "measure (\<lambda>(d, ac, sc, pos). length d - pos)", goal_cases)
  case (2 d ac sc pos address sz)
  then have "pos + 4 \<le> length d"
    using cells_loop_bound [of d pos ac 0 0 address] cells_loop_bound [of d "pos + ac * 4" sc 0 0 sz]
    by (cases "ac = 0") (auto simp: read_cells_def)
  moreover have "4 \<le> (ac + sc) * 4" using 2 by auto
  ultimately show ?case by simp
qed simp

declare reg_from.simps [simp del]

definition REG :: "u8 list" where "REG = [0x72, 0x65, 0x67]"

definition node_reg :: "blob \<Rightarrow> fdt_node \<Rightarrow> (u64 \<times> u64) list option" where
  "node_reg b n = map_option (\<lambda>v. reg_from v (fst (n_parent_cells n)) (snd (n_parent_cells n)) 0) (node_prop b n REG)"

definition interrupt_cell :: "u8 list \<Rightarrow> nat \<Rightarrow> nat \<Rightarrow> nat \<Rightarrow> u32 option" where
  "interrupt_cell d pos cells i = (if cells \<le> i then Some 0 else map_option ucast (read_cells d (pos + i * 4) 1))"

lemma interrupt_cell_bound: "interrupt_cell d pos cells 0 = Some a \<Longrightarrow> 0 < cells \<Longrightarrow> pos + 4 \<le> length d"
  by (auto simp: interrupt_cell_def read_cells_def split: option.splits dest: read_be_u32_bound)

function interrupts_from :: "u8 list \<Rightarrow> nat \<Rightarrow> nat \<Rightarrow> (u32 \<times> u32 \<times> u32) list" where
  "interrupts_from d cells pos =
     (if cells = 0 then []
      else case (interrupt_cell d pos cells 0, interrupt_cell d pos cells 1, interrupt_cell d pos cells 2) of
             (Some a, Some b, Some c) \<Rightarrow> (a, b, c) # interrupts_from d cells (pos + cells * 4)
           | _ \<Rightarrow> [])"
  by pat_completeness auto
termination
proof (relation "measure (\<lambda>(d, cells, pos). length d - pos)", goal_cases)
  case (2 d cells pos x y a x1 b c)
  then have "interrupt_cell d pos cells 0 = Some a" by simp
  then have "pos + 4 \<le> length d" using interrupt_cell_bound 2 by auto
  moreover have "4 \<le> cells * 4" using 2 by simp
  ultimately show ?case by simp
qed simp

declare interrupts_from.simps [simp del]

definition INTERRUPTS :: "u8 list" where
  "INTERRUPTS = [0x69, 0x6E, 0x74, 0x65, 0x72, 0x72, 0x75, 0x70, 0x74, 0x73]"

definition node_interrupts :: "blob \<Rightarrow> fdt_node \<Rightarrow> nat \<Rightarrow> (u32 \<times> u32 \<times> u32) list option" where
  "node_interrupts b n cells = map_option (\<lambda>v. interrupts_from v cells 0) (node_prop b n INTERRUPTS)"

section \<open>Children\<close>

definition skip_cstr :: "u8 list \<Rightarrow> nat \<Rightarrow> nat option" where
  "skip_cstr d pos = (if length d < pos then None else map_option (\<lambda>i. i + 1) (position (\<lambda>c. c = 0) (drop pos d)))"

function skip_subtree :: "blob \<Rightarrow> nat \<Rightarrow> nat \<Rightarrow> nat option" where
  "skip_subtree b depth pos =
     (if depth = 0 then Some pos
      else case read_be_u32 (b_data b) pos of None \<Rightarrow> None | Some token \<Rightarrow>
        if token = FDT_NOP then skip_subtree b depth (pos + 4)
        else if token = FDT_BEGIN_NODE then
          (case skip_cstr (b_data b) (pos + 4) of None \<Rightarrow> None | Some n \<Rightarrow> skip_subtree b (depth + 1) (align4 (pos + 4 + n)))
        else if token = FDT_END_NODE then skip_subtree b (depth - 1) (pos + 4)
        else if token = FDT_PROP then
          (case read_be_u32 (b_data b) (pos + 4) of None \<Rightarrow> None | Some len \<Rightarrow> skip_subtree b depth (align4 (pos + 4 + 8 + unat len)))
        else None)"
  by pat_completeness auto
termination
proof (relation "measure (\<lambda>(b, depth, pos). length (b_data b) - pos)", goal_cases)
  case (3 b depth pos token n)
  then have "pos + 4 \<le> length (b_data b)" by (auto dest: read_be_u32_bound)
  then show ?case using align4_ge [of "pos + 4 + n"] by simp
next
  case (5 b depth pos token len)
  then have "pos + 4 \<le> length (b_data b)" by (auto dest: read_be_u32_bound)
  then show ?case using align4_ge [of "pos + 4 + 8 + unat len"] by simp
qed (auto dest!: read_be_u32_bound)

declare skip_subtree.simps [simp del]

lemma skip_subtree_advances: "skip_subtree b depth pos = Some p \<Longrightarrow> pos \<le> p"
proof (induction b depth pos rule: skip_subtree.induct)
  case (1 b depth pos)
  show ?case
  proof (cases "depth = 0")
    case True
    then show ?thesis using "1.prems" by (simp add: skip_subtree.simps)
  next
    case False
    then obtain token where t: "read_be_u32 (b_data b) pos = Some token"
      using "1.prems" by (cases "read_be_u32 (b_data b) pos") (simp_all add: skip_subtree.simps [of b depth pos])
    note step = "1.prems" [unfolded skip_subtree.simps [of b depth pos] if_not_P [OF False] t option.case]
    consider "token = FDT_NOP" | "token = FDT_BEGIN_NODE" | "token = FDT_END_NODE" | "token = FDT_PROP"
      using step by (auto split: if_splits)
    then show ?thesis
    proof cases
      case 1
      then show ?thesis using step "1.IH"(1) [OF False t 1] by simp
    next
      case 2
      then have k: "token \<noteq> FDT_NOP" by (simp add: fdt_tokens)
      obtain n where n: "skip_cstr (b_data b) (pos + 4) = Some n" using step k 2 by (auto split: option.splits)
      have "align4 (pos + 4 + n) \<le> p" using step "1.IH"(2) [OF False t k 2 n] k 2 n by simp
      then show ?thesis using align4_ge [of "pos + 4 + n"] by linarith
    next
      case 3
      then have k: "token \<noteq> FDT_NOP" "token \<noteq> FDT_BEGIN_NODE" by (simp_all add: fdt_tokens)
      have "pos + 4 \<le> p" using step "1.IH"(3) [OF False t k 3] k 3 by simp
      then show ?thesis by linarith
    next
      case 4
      then have k: "token \<noteq> FDT_NOP" "token \<noteq> FDT_BEGIN_NODE" "token \<noteq> FDT_END_NODE" by (simp_all add: fdt_tokens)
      obtain len where n: "read_be_u32 (b_data b) (pos + 4) = Some len" using step k 4 by (auto split: option.splits)
      have "align4 (pos + 4 + 8 + unat len) \<le> p" using step "1.IH"(4) [OF False t k 4 n] k 4 n by simp
      then show ?thesis using align4_ge [of "pos + 4 + 8 + unat len"] by linarith
    qed
  qed
qed

function children_from :: "blob \<Rightarrow> nat \<times> nat \<Rightarrow> nat \<Rightarrow> fdt_node list" where
  "children_from b cells pos =
     (case read_be_u32 (b_data b) pos of None \<Rightarrow> [] | Some token \<Rightarrow>
      if token = FDT_NOP then children_from b cells (pos + 4)
      else if token = FDT_PROP then
        (case read_be_u32 (b_data b) (pos + 4) of None \<Rightarrow> [] | Some len \<Rightarrow> children_from b cells (align4 (pos + 4 + 8 + unat len)))
      else if token = FDT_BEGIN_NODE then
        (case skip_cstr (b_data b) (pos + 4) of None \<Rightarrow> [] | Some len \<Rightarrow>
         case slice (b_data b) (pos + 4) (pos + 4 + len - 1) of None \<Rightarrow> [] | Some name \<Rightarrow>
         if \<not> utf8 name then []
         else let body = align4 (pos + 4 + len) in
           case skip_subtree b 1 body of None \<Rightarrow> [] | Some p \<Rightarrow>
           \<lparr>n_name = name, n_body = body, n_parent_cells = cells\<rparr> # children_from b cells p)
      else [])"
  by pat_completeness auto
termination
proof (relation "measure (\<lambda>(b, cells, pos). length (b_data b) - pos)", goal_cases)
  case (3 b cells pos token len)
  then have "pos + 4 \<le> length (b_data b)" by (auto dest: read_be_u32_bound)
  then show ?case using align4_ge [of "pos + 4 + 8 + unat len"] by simp
next
  case (4 b cells pos token len name body p)
  then have "pos + 4 \<le> length (b_data b)" by (auto dest: read_be_u32_bound)
  moreover have "pos + 4 + len \<le> p" using 4 align4_ge [of "pos + 4 + len"] skip_subtree_advances [of b 1 body p] by simp
  ultimately show ?case by simp
qed (auto dest!: read_be_u32_bound)

declare children_from.simps [simp del]

definition node_children :: "blob \<Rightarrow> fdt_node \<Rightarrow> fdt_node list" where
  "node_children b n = children_from b (node_address_cells b n, node_size_cells b n) (n_body n)"

section \<open>What the kernel asks for\<close>

definition MEMORY_PATH :: "u8 list" where
  "MEMORY_PATH = [0x2F, 0x6D, 0x65, 0x6D, 0x6F, 0x72, 0x79]"

definition RESERVED_PATH :: "u8 list" where
  "RESERVED_PATH = [0x2F, 0x72, 0x65, 0x73, 0x65, 0x72, 0x76, 0x65, 0x64, 0x2D, 0x6D, 0x65, 0x6D, 0x6F, 0x72, 0x79]"

definition CHOSEN_PATH :: "u8 list" where
  "CHOSEN_PATH = [0x2F, 0x63, 0x68, 0x6F, 0x73, 0x65, 0x6E]"

definition BOOTARGS :: "u8 list" where
  "BOOTARGS = [0x62, 0x6F, 0x6F, 0x74, 0x61, 0x72, 0x67, 0x73]"

definition INITRD_START :: "u8 list" where
  "INITRD_START = [0x6C, 0x69, 0x6E, 0x75, 0x78, 0x2C, 0x69, 0x6E, 0x69, 0x74, 0x72, 0x64, 0x2D, 0x73, 0x74, 0x61, 0x72, 0x74]"

definition INITRD_END :: "u8 list" where
  "INITRD_END = [0x6C, 0x69, 0x6E, 0x75, 0x78, 0x2C, 0x69, 0x6E, 0x69, 0x74, 0x72, 0x64, 0x2D, 0x65, 0x6E, 0x64]"

definition fdt_memory :: "fdt \<Rightarrow> (u64 \<times> u64) list option" where
  "fdt_memory f = Option.bind (find_node f MEMORY_PATH) (node_reg (f_blob f))"

definition reserved_memory :: "fdt \<Rightarrow> (u64 \<times> u64) list" where
  "reserved_memory f =
     (case find_node f RESERVED_PATH of
        None \<Rightarrow> []
      | Some n \<Rightarrow> concat (map (\<lambda>c. case node_reg (f_blob f) c of None \<Rightarrow> [] | Some r \<Rightarrow> r) (node_children (f_blob f) n)))"

definition fdt_bootargs :: "fdt \<Rightarrow> u8 list option" where
  "fdt_bootargs f =
     Option.bind (find_node f CHOSEN_PATH) (\<lambda>n. Option.bind (node_prop (f_blob f) n BOOTARGS) as_str)"

definition fdt_initrd :: "fdt \<Rightarrow> (u64 \<times> u64) option" where
  "fdt_initrd f =
     Option.bind (find_node f CHOSEN_PATH) (\<lambda>n.
       Option.bind (Option.bind (node_prop (f_blob f) n INITRD_START) as_uint) (\<lambda>start.
         map_option (\<lambda>stop. (start, stop)) (Option.bind (node_prop (f_blob f) n INITRD_END) as_uint)))"

end
