(* ===== verification/FdtProps.thy ===== *)
theory FdtProps
  imports Fdt "HOL-Library.Code_Target_Nat"
begin

text \<open>
  Facts of the device-tree reader: what \<^verbatim>\<open>new\<close> accepts lies inside the blob, the walk never leaves its fixed arrays, and a
  tree written out in the format of the specification is read back node by node, with its properties, its cells and its
  children.
\<close>

section \<open>The header\<close>

text \<open>The blocks of an accepted blob lie inside it, and nothing behind its declared size is looked at.\<close>

lemma fdt_new_bounds:
  assumes "fdt_new d = Inr f"
  shows "struct_start (f_blob f) \<le> struct_end (f_blob f) \<and> struct_end (f_blob f) \<le> length (b_data (f_blob f))
    \<and> strings_start (f_blob f) \<le> strings_end (f_blob f) \<and> strings_end (f_blob f) \<le> length (b_data (f_blob f))
    \<and> mem_rsvmap f < length (b_data (f_blob f)) \<and> HEADER_LEN \<le> length (b_data (f_blob f))
    \<and> length (b_data (f_blob f)) \<le> length d \<and> b_data (f_blob f) = take (length (b_data (f_blob f))) d"
proof -
  obtain magic tot where h: "read_be_u32 d 0 = Some magic" "magic = FDT_MAGIC" "read_be_u32 d 4 = Some tot"
      "\<not> (unat tot < HEADER_LEN \<or> length d < unat tot)"
    using assms unfolding fdt_new_def Let_def by (auto split: option.splits if_splits)
  let ?d = "take (unat tot) d"
  obtain a b c e g i j where "read_be_u32 ?d 8 = Some a" "read_be_u32 ?d 12 = Some b" "read_be_u32 ?d 16 = Some c"
      "read_be_u32 ?d 24 = Some e" "read_be_u32 ?d 28 = Some g" "read_be_u32 ?d 32 = Some i" "read_be_u32 ?d 36 = Some j"
    using assms h unfolding fdt_new_def Let_def by (auto split: option.splits if_splits)
  then have f: "f = \<lparr>f_blob = \<lparr>b_data = ?d, struct_start = unat a, struct_end = unat a + unat j,
                       strings_start = unat b, strings_end = unat b + unat i\<rparr>, mem_rsvmap = unat c, boot_cpuid = g\<rparr>"
      "\<not> (unat tot < unat a + unat j \<or> unat tot < unat b + unat i \<or> unat tot \<le> unat c)"
    using assms h unfolding fdt_new_def Let_def by (auto split: if_splits)
  have "length ?d = unat tot" using h(4) by simp
  then show ?thesis using f h(4) by (auto simp: not_le not_less)
qed

section \<open>The walk\<close>

definition walk_ok :: "walk \<Rightarrow> bool" where
  "walk_ok w \<longleftrightarrow> w_depth w \<le> MAX_DEPTH \<and> length (w_names w) = MAX_DEPTH \<and> length (w_cells w) = MAX_DEPTH"

lemma walk_ok_new: "walk_ok (walk_new b)"
  by (simp add: walk_ok_def walk_new_def)

lemma walk_next_ok: "walk_ok w \<Longrightarrow> walk_next b w = Inr (r, w') \<Longrightarrow> walk_ok w' \<and> (r \<noteq> None \<longrightarrow> 0 < w_depth w')"
proof (induction b w rule: walk_next.induct)
  case (1 b w)
  show ?case
  proof (cases "w_done w \<or> struct_end b \<le> w_pos w")
    case True
    then show ?thesis using "1.prems" by (auto simp: walk_next.simps)
  next
    case False
    then obtain token where t: "read_be_u32 (b_data b) (w_pos w) = Some token"
      using "1.prems" by (cases "read_be_u32 (b_data b) (w_pos w)") (simp_all add: walk_next.simps [of b w])
    note step = "1.prems"(2) [unfolded walk_next.simps [of b w] if_not_P [OF False] t option.case Let_def]
    have ok: "w_depth w \<le> MAX_DEPTH" "length (w_names w) = MAX_DEPTH" "length (w_cells w) = MAX_DEPTH"
      using "1.prems"(1) by (simp_all add: walk_ok_def)
    consider "token = FDT_NOP" | "token = FDT_END" | "token = FDT_END_NODE" | "token = FDT_BEGIN_NODE" | "token = FDT_PROP"
      using step by (auto split: if_splits)
    then show ?thesis
    proof cases
      case 1
      then show ?thesis using step "1.IH"(1) [OF False t refl refl 1] ok by (simp add: walk_ok_def)
    next
      case 2
      then show ?thesis using step ok by (auto simp: walk_ok_def fdt_tokens)
    next
      case 3
      then have k: "token \<noteq> FDT_NOP" "token \<noteq> FDT_END" by (simp_all add: fdt_tokens)
      have d: "w_depth w \<noteq> 0" using step k 3 by (auto split: if_splits)
      show ?thesis using step "1.IH"(2) [OF False t refl refl k 3] k 3 d ok by (simp add: walk_ok_def)
    next
      case 4
      then have k: "token \<noteq> FDT_NOP" "token \<noteq> FDT_END" "token \<noteq> FDT_END_NODE" by (simp_all add: fdt_tokens)
      then show ?thesis using step 4 ok by (auto simp: walk_ok_def split: if_splits sum.splits)
    next
      case 5
      then have k: "token \<noteq> FDT_NOP" "token \<noteq> FDT_END" "token \<noteq> FDT_END_NODE" "token \<noteq> FDT_BEGIN_NODE"
        by (simp_all add: fdt_tokens)
      obtain name v p where r: "read_prop b (w_pos w + 4) = Inr (name, v, p)"
        using step k 5 by (auto split: sum.splits if_splits)
      have d: "w_depth w \<noteq> 0" using step k 5 r by (auto split: if_splits)
      have "walk_next b (w\<lparr>w_pos := p, w_cells := (w_cells w)[w_depth w - 1 := note_cells name v (w_cells w ! (w_depth w - 1))]\<rparr>) = Inr (r, w')"
        using step k 5 r d by simp
      then show ?thesis
        using "1.IH"(3) [OF False t refl refl k 5 r refl refl] d ok by (simp add: walk_ok_def)
    qed
  qed
qed

lemma walk_nodes_ok: "walk_ok w0 \<Longrightarrow> (n, w) \<in> set (walk_nodes b w0) \<Longrightarrow> walk_ok w \<and> 0 < w_depth w"
proof (induction b w0 rule: walk_nodes.induct)
  case (1 b w0)
  from "1.prems"(2) obtain n' w' where s: "walk_next b w0 = Inr (Some n', w')"
    by (subst (asm) walk_nodes.simps) (auto split: sum.splits prod.splits option.splits dest: sym)
  have ok: "walk_ok w' \<and> 0 < w_depth w'" using walk_next_ok [OF "1.prems"(1) s] by simp
  have "(n, w) = (n', w') \<or> (n, w) \<in> set (walk_nodes b w')"
    using "1.prems"(2) by (subst (asm) walk_nodes.simps) (simp add: s)
  then show ?case using ok "1.IH" [OF s refl refl] by auto
qed

lemma walk_names_bound:
  "(n, w) \<in> set (walk_nodes b (walk_new b)) \<Longrightarrow> 1 \<le> w_depth w \<and> w_depth w \<le> length (w_names w)"
  by (auto simp: walk_ok_def dest!: walk_nodes_ok [OF walk_ok_new])

text \<open>
  Every state the walk reaches keeps its depth within \<^verbatim>\<open>MAX_DEPTH\<close>, so the two arrays it indexes by depth are never indexed
  outside, whatever bytes the firmware left: a deeper tree is refused.
\<close>

theorem walk_stays_in_bounds:
  assumes "(n, w) \<in> set (walk_nodes b (walk_new b))"
  shows "0 < w_depth w \<and> w_depth w \<le> length (w_names w) \<and> w_depth w \<le> length (w_cells w) \<and> w_depth w \<le> 32"
  using walk_nodes_ok [OF walk_ok_new assms] by (simp add: walk_ok_def MAX_DEPTH_def)

section \<open>A tree written out\<close>

datatype dtree = DNode (dt_name: "u8 list") (dt_props: "fdt_prop list") (dt_kids: "dtree list")

definition be4 :: "nat \<Rightarrow> u8 list" where
  "be4 n = be_bytes 4 (of_nat n :: u32)"

definition padded :: "u8 list \<Rightarrow> u8 list" where
  "padded xs = xs @ replicate (align4 (length xs) - length xs) 0"

fun enc_prop :: "(u8 list \<Rightarrow> nat) \<Rightarrow> fdt_prop \<Rightarrow> u8 list" where
  "enc_prop off (name, v) = be4 3 @ be4 (length v) @ be4 (off name) @ padded v"

definition enc_props :: "(u8 list \<Rightarrow> nat) \<Rightarrow> fdt_prop list \<Rightarrow> u8 list" where
  "enc_props off ps = concat (map (enc_prop off) ps)"

fun enc_node :: "(u8 list \<Rightarrow> nat) \<Rightarrow> dtree \<Rightarrow> u8 list" where
  "enc_node off (DNode nm ps ks) = be4 1 @ padded (nm @ [0]) @ enc_props off ps @ concat (map (enc_node off) ks) @ be4 2"

definition placed :: "u8 list \<Rightarrow> nat \<Rightarrow> u8 list \<Rightarrow> bool" where
  "placed d pos xs \<longleftrightarrow> pos + length xs \<le> length d \<and> take (length xs) (drop pos d) = xs"

lemma placed_append: "placed d pos (xs @ ys) \<longleftrightarrow> placed d pos xs \<and> placed d (pos + length xs) ys"
proof -
  have "take (length xs + length ys) (drop pos d) = take (length xs) (drop pos d) @ take (length ys) (drop (pos + length xs) d)"
    by (simp add: take_add add.commute)
  then show ?thesis by (auto simp: placed_def add.assoc)
qed

lemma length_be4 [simp]: "length (be4 n) = 4"
  by (simp add: be4_def be_bytes_def)

lemma length_padded [simp]: "length (padded xs) = align4 (length xs)"
  using align4_ge [of "length xs"] by (simp add: padded_def)

lemma align4_mod [simp]: "align4 n mod 4 = 0"
  by (simp add: align4_def)

lemma align4_add: "pos mod 4 = 0 \<Longrightarrow> align4 (pos + n) = pos + align4 n"
  unfolding align4_def by presburger

lemma read_placed: "placed d pos (be4 n) \<Longrightarrow> read_be_u32 d pos = Some (of_nat n)"
  by (simp add: placed_def read_be_u32_def slice_def be4_def be_bytes_def from_be_def from_le_bytes take_bit_word_eq_self)

lemma position_prefix: "0 \<notin> set xs \<Longrightarrow> position (\<lambda>c. c = (0::u8)) (xs @ 0 # ys) = Some (length xs)"
  by (auto simp: position_Some_iff nth_append in_set_conv_nth)

lemma region_prefix:
  assumes "placed d pos xs" "pos + length xs \<le> e" "e \<le> length d"
  shows "slice d pos e = Some (xs @ take (e - pos - length xs) (drop (pos + length xs) d))"
proof -
  have "take (e - pos) (drop pos d) = take (length xs) (drop pos d) @ take (e - pos - length xs) (drop (pos + length xs) d)"
    using assms(2) take_add [of "length xs" "e - pos - length xs" "drop pos d"] by (simp add: add.commute)
  then show ?thesis using assms by (simp add: slice_def placed_def)
qed

lemma placed_text:
  assumes "placed d pos (xs @ [0])" "pos + length xs < e" "e \<le> length d" "0 \<notin> set xs"
  obtains ys where "slice d pos e = Some (xs @ 0 # ys)" "position (\<lambda>c. c = 0) (xs @ 0 # ys) = Some (length xs)"
  using region_prefix [OF assms(1) _ assms(3)] assms(2) position_prefix [OF assms(4)] by simp

definition text_ok :: "blob \<Rightarrow> (u8 list \<Rightarrow> nat) \<Rightarrow> u8 list \<Rightarrow> bool" where
  "text_ok b off name \<longleftrightarrow> off name < 2 ^ 32 \<and> 0 \<notin> set name \<and> utf8 name \<and> placed (b_data b) (strings_start b + off name) (name @ [0])
     \<and> strings_start b + off name + length name < strings_end b \<and> strings_end b \<le> length (b_data b)"

definition prop_ok :: "blob \<Rightarrow> (u8 list \<Rightarrow> nat) \<Rightarrow> fdt_prop \<Rightarrow> bool" where
  "prop_ok b off p \<longleftrightarrow> text_ok b off (fst p) \<and> length (snd p) < 2 ^ 32 \<and> (fst p \<in> {ADDRESS_CELLS, SIZE_CELLS} \<longrightarrow> length (snd p) = 4)"

fun tree_ok :: "blob \<Rightarrow> (u8 list \<Rightarrow> nat) \<Rightarrow> dtree \<Rightarrow> bool" where
  "tree_ok b off (DNode nm ps ks) \<longleftrightarrow>
     0 \<notin> set nm \<and> utf8 nm \<and> distinct (map fst ps) \<and> (\<forall>p\<in>set ps. prop_ok b off p) \<and> (\<forall>k\<in>set ks. tree_ok b off k)"

fun height :: "dtree \<Rightarrow> nat" where
  "height (DNode nm ps ks) = Suc (Max (insert 0 (set (map height ks))))"

lemma string_at_ok: "text_ok b off name \<Longrightarrow> string_at b (off name) = Inr name"
proof -
  assume t: "text_ok b off name"
  obtain ys where "slice (b_data b) (strings_start b + off name) (strings_end b) = Some (name @ 0 # ys)"
      "position (\<lambda>c. c = 0) (name @ 0 # ys) = Some (length name)"
    using t by (auto simp: text_ok_def intro: placed_text)
  then show ?thesis using t by (simp add: string_at_def text_ok_def)
qed

lemma slice_placed: "placed d pos xs \<Longrightarrow> slice d pos (pos + length xs) = Some xs"
  by (simp add: placed_def slice_def)

lemma unat_field: "n < 2 ^ 32 \<Longrightarrow> unat (of_nat n :: u32) = n"
  by (simp add: unsigned_of_nat take_bit_nat_eq_self)

lemma read_name_placed:
  assumes "placed (b_data b) pos (padded (nm @ [0]))" "pos + length (padded (nm @ [0])) \<le> struct_end b"
    "struct_end b \<le> length (b_data b)" "0 \<notin> set nm" "utf8 nm" "pos mod 4 = 0"
  shows "read_name b pos = Inr (nm, pos + length (padded (nm @ [0])))"
proof -
  have p: "placed (b_data b) pos (nm @ [0])" using assms(1) unfolding padded_def placed_append by simp
  have "pos + length nm < struct_end b" using assms(2) align4_ge [of "length nm + 1"] by simp
  then obtain ys where "slice (b_data b) pos (struct_end b) = Some (nm @ 0 # ys)" "position (\<lambda>c. c = 0) (nm @ 0 # ys) = Some (length nm)"
    using placed_text [OF p _ assms(3,4)] by blast
  then show ?thesis using assms(5,6) align4_add [of pos "length nm + 1"] by (simp add: read_name_def)
qed

lemma prop_fields:
  assumes "placed (b_data b) pos (enc_prop off (name, v))" "prop_ok b off (name, v)"
  shows "read_be_u32 (b_data b) pos = Some FDT_PROP" "read_be_u32 (b_data b) (pos + 4) = Some (of_nat (length v))"
    "read_be_u32 (b_data b) (pos + 8) = Some (of_nat (off name))" "slice (b_data b) (pos + 12) (pos + 12 + length v) = Some v"
    "unat (of_nat (length v) :: u32) = length v" "unat (of_nat (off name) :: u32) = off name" "string_at b (off name) = Inr name"
proof -
  have p: "placed (b_data b) pos (be4 3)" "placed (b_data b) (pos + 4) (be4 (length v))" "placed (b_data b) (pos + 8) (be4 (off name))"
      "placed (b_data b) (pos + 12) v"
    using assms(1) by (simp_all add: placed_append padded_def add.assoc)
  then show "read_be_u32 (b_data b) pos = Some FDT_PROP" "read_be_u32 (b_data b) (pos + 4) = Some (of_nat (length v))"
    "read_be_u32 (b_data b) (pos + 8) = Some (of_nat (off name))" "slice (b_data b) (pos + 12) (pos + 12 + length v) = Some v"
    by (simp_all add: read_placed FDT_PROP_def slice_placed)
  show "unat (of_nat (length v) :: u32) = length v" "unat (of_nat (off name) :: u32) = off name" "string_at b (off name) = Inr name"
    using assms(2) by (simp_all add: prop_ok_def text_ok_def unat_field string_at_ok)
qed

lemma length_enc_prop: "length (enc_prop off (name, v)) = 12 + align4 (length v)"
  by simp

lemma mod4_add: "a mod 4 = 0 \<Longrightarrow> b mod 4 = 0 \<Longrightarrow> (a + b) mod 4 = (0 :: nat)"
  by presburger

lemma enc_prop_mod: "length (enc_prop off p) mod 4 = 0"
proof (cases p)
  case (Pair name v)
  have "(12 + align4 (length v)) mod 4 = 0" using align4_mod [of "length v"] by presburger
  then show ?thesis by (simp only: Pair length_enc_prop)
qed

lemma enc_props_mod: "length (enc_props off ps) mod 4 = 0"
proof (induction ps)
  case (Cons p ps)
  then show ?case using enc_prop_mod [of off p] by (simp add: enc_props_def mod_add_eq [symmetric, of _ _ 4])
qed (simp add: enc_props_def)

lemma enc_props_simps [simp]: "enc_props off [] = []" "enc_props off (p # ps) = enc_prop off p @ enc_props off ps"
  by (simp_all add: enc_props_def)

lemma enc_node_mod: "length (enc_node off t) mod 4 = 0"
proof (induction t)
  case (DNode nm ps ks)
  have "length (concat (map (enc_node off) ks)) mod 4 = 0" if "\<forall>k\<in>set ks. length (enc_node off k) mod 4 = 0" for ks
    using that by (induction ks) (auto simp: mod_add_eq [symmetric, of _ _ 4])
  moreover have "\<forall>k\<in>set ks. length (enc_node off k) mod 4 = 0" using DNode by simp
  ultimately have "length (concat (map (enc_node off) ks)) mod 4 = 0" by blast
  then show ?case using enc_props_mod [of off ps] align4_mod [of "Suc (length nm)"] unfolding enc_node.simps length_append length_be4 length_padded
    by (simp del: align4_mod) presburger
qed

section \<open>Properties read back\<close>

lemma enc_node_begin: "placed d pos (enc_node off t) \<Longrightarrow> read_be_u32 d pos = Some FDT_BEGIN_NODE"
  by (cases t) (auto simp: placed_append FDT_BEGIN_NODE_def dest!: read_placed)

lemma props_from_enc:
  "placed (b_data b) pos (enc_props off ps) \<Longrightarrow> \<forall>p\<in>set ps. prop_ok b off p \<Longrightarrow> pos mod 4 = 0 \<Longrightarrow>
     read_be_u32 (b_data b) (pos + length (enc_props off ps)) \<in> {Some FDT_BEGIN_NODE, Some FDT_END_NODE} \<Longrightarrow>
     props_from b pos = ps"
proof (induction ps arbitrary: pos)
  case Nil
  then show ?case by (subst props_from.simps) (auto simp: fdt_tokens)
next
  case (Cons p ps)
  obtain name v where p: "p = (name, v)" by fastforce
  have pl: "placed (b_data b) pos (enc_prop off (name, v))" "placed (b_data b) (pos + length (enc_prop off (name, v))) (enc_props off ps)"
    using Cons.prems(1) by (simp_all add: p placed_append del: enc_prop.simps)
  have ok: "prop_ok b off (name, v)" using Cons.prems(2) p by simp
  have next_pos: "align4 (pos + 12 + length v) = pos + length (enc_prop off (name, v))"
    using align4_add [of "pos + 12" "length v"] Cons.prems(3) by (simp add: mod_add_eq [symmetric, of pos 12])
  have "props_from b (pos + length (enc_prop off (name, v))) = ps"
  proof (rule Cons.IH [OF pl(2)])
    show "\<forall>p\<in>set ps. prop_ok b off p" using Cons.prems(2) by simp
    show "(pos + length (enc_prop off (name, v))) mod 4 = 0"
      using Cons.prems(3) enc_prop_mod [of off "(name, v)"] by (metis add_0 mod_add_left_eq)
    show "read_be_u32 (b_data b) (pos + length (enc_prop off (name, v)) + length (enc_props off ps)) \<in> {Some FDT_BEGIN_NODE, Some FDT_END_NODE}"
      using Cons.prems(4) by (simp add: p add.assoc del: enc_prop.simps)
  qed
  then show ?case unfolding p using prop_fields [OF pl(1) ok] next_pos
    by (subst props_from.simps) (simp add: fdt_tokens del: enc_prop.simps)
qed

text \<open>The cells a node's properties leave for its children.\<close>

definition cells_after :: "nat \<times> nat \<Rightarrow> fdt_prop list \<Rightarrow> nat \<times> nat" where
  "cells_after c ps = fold (\<lambda>p c. note_cells (fst p) (snd p) c) ps c"

lemma walk_prop:
  assumes "placed (b_data b) (w_pos w) (enc_prop off (name, v))" "prop_ok b off (name, v)" "w_pos w mod 4 = 0" "\<not> w_done w"
    "w_pos w + length (enc_prop off (name, v)) \<le> struct_end b" "0 < w_depth w"
  shows "walk_next b w =
    walk_next b (w\<lparr>w_pos := w_pos w + length (enc_prop off (name, v)),
                   w_cells := (w_cells w)[w_depth w - 1 := note_cells name v (w_cells w ! (w_depth w - 1))]\<rparr>)"
proof -
  note f = prop_fields [OF assms(1,2)]
  have "align4 (w_pos w + 12 + length v) = w_pos w + 12 + align4 (length v)"
    using assms(3) by (intro align4_add) presburger
  then have r: "read_prop b (w_pos w + 4) = Inr (name, v, w_pos w + 12 + align4 (length v))"
    using f by (simp add: read_prop_def Let_def add.assoc)
  have "\<not> (w_done w \<or> struct_end b \<le> w_pos w)" using assms(4,5) by simp
  then show ?thesis
    using f(1) r assms(6) by (subst walk_next.simps) (simp add: Let_def fdt_tokens add.assoc)
qed

lemma walk_props:
  "placed (b_data b) (w_pos w) (enc_props off ps) \<Longrightarrow> \<forall>p\<in>set ps. prop_ok b off p \<Longrightarrow> w_pos w mod 4 = 0 \<Longrightarrow> \<not> w_done w \<Longrightarrow>
     w_pos w + length (enc_props off ps) \<le> struct_end b \<Longrightarrow> 0 < w_depth w \<Longrightarrow> w_depth w \<le> length (w_cells w) \<Longrightarrow>
     walk_next b w =
       walk_next b (w\<lparr>w_pos := w_pos w + length (enc_props off ps),
                      w_cells := (w_cells w)[w_depth w - 1 := cells_after (w_cells w ! (w_depth w - 1)) ps]\<rparr>)"
proof (induction ps arbitrary: w)
  case Nil
  then show ?case by (simp add: cells_after_def)
next
  case (Cons p ps)
  obtain name v where p: "p = (name, v)" by fastforce
  let ?n = "length (enc_prop off (name, v))"
  let ?w = "w\<lparr>w_pos := w_pos w + ?n, w_cells := (w_cells w)[w_depth w - 1 := note_cells name v (w_cells w ! (w_depth w - 1))]\<rparr>"
  have pl: "placed (b_data b) (w_pos w) (enc_prop off (name, v))" "placed (b_data b) (w_pos w + ?n) (enc_props off ps)"
    using Cons.prems(1) by (simp_all add: p placed_append del: enc_prop.simps)
  have "walk_next b w = walk_next b ?w"
    by (rule walk_prop [OF pl(1)]) (use Cons.prems p in \<open>simp_all del: enc_prop.simps\<close>)
  also have "\<dots> = walk_next b (?w\<lparr>w_pos := w_pos ?w + length (enc_props off ps),
                      w_cells := (w_cells ?w)[w_depth ?w - 1 := cells_after (w_cells ?w ! (w_depth ?w - 1)) ps]\<rparr>)"
  proof (rule Cons.IH)
    show "w_pos ?w mod 4 = 0"
      using Cons.prems(3) enc_prop_mod [of off "(name, v)"] by (simp del: enc_prop.simps) presburger
  qed (use Cons.prems pl p in \<open>simp_all add: add.assoc del: enc_prop.simps\<close>)
  finally show ?case
    using Cons.prems(6,7) by (simp add: p cells_after_def add.assoc del: enc_prop.simps)
qed

lemma enc_props_end:
  assumes "placed d pos (enc_props off ps @ concat (map (enc_node off) ks) @ be4 2)"
  shows "read_be_u32 d (pos + length (enc_props off ps)) \<in> {Some FDT_BEGIN_NODE, Some FDT_END_NODE}"
proof (cases ks)
  case Nil
  then show ?thesis using assms by (auto simp: placed_append FDT_END_NODE_def dest!: read_placed)
next
  case (Cons k ks')
  then have "placed d (pos + length (enc_props off ps)) (enc_node off k)" using assms by (simp add: placed_append del: enc_node.simps)
  then show ?thesis using enc_node_begin by blast
qed

text \<open>The nodes of a tree in the order they are written, each with the names from the root down to it.\<close>

definition body_of :: "nat \<Rightarrow> u8 list \<Rightarrow> nat" where
  "body_of pos nm = pos + 4 + align4 (length nm + 1)"

fun nodes_at :: "(u8 list \<Rightarrow> nat) \<Rightarrow> u8 list list \<Rightarrow> nat \<times> nat \<Rightarrow> nat \<Rightarrow> dtree \<Rightarrow> (fdt_node \<times> u8 list list) list"
  and forest_at :: "(u8 list \<Rightarrow> nat) \<Rightarrow> u8 list list \<Rightarrow> nat \<times> nat \<Rightarrow> nat \<Rightarrow> dtree list \<Rightarrow> (fdt_node \<times> u8 list list) list" where
  "nodes_at off path cells pos (DNode nm ps ks) =
     (\<lparr>n_name = nm, n_body = body_of pos nm, n_parent_cells = cells\<rparr>, path @ [nm])
     # forest_at off (path @ [nm]) (cells_after cells ps) (body_of pos nm + length (enc_props off ps)) ks"
| "forest_at off path cells pos [] = []"
| "forest_at off path cells pos (k # ks) = nodes_at off path cells pos k @ forest_at off path cells (pos + length (enc_node off k)) ks"

definition entries_of :: "blob \<Rightarrow> walk \<Rightarrow> (fdt_node \<times> u8 list list) list" where
  "entries_of b w = map (\<lambda>(n, w'). (n, take (w_depth w') (w_names w'))) (walk_nodes b w)"

lemma entries_of_cong: "walk_next b w = walk_next b w' \<Longrightarrow> entries_of b w = entries_of b w'"
  by (simp add: entries_of_def walk_nodes.simps [of b w] walk_nodes.simps [of b w'])

text \<open>What the state of the walk says of the place it stands at.\<close>

definition stands :: "walk \<Rightarrow> nat \<Rightarrow> u8 list list \<Rightarrow> nat \<times> nat \<Rightarrow> bool" where
  "stands w pos path cells \<longleftrightarrow>
     walk_ok w \<and> \<not> w_done w \<and> w_pos w = pos \<and> pos mod 4 = 0 \<and> w_depth w = length path \<and> take (length path) (w_names w) = path
     \<and> cells = (if path = [] then DEFAULT_CELLS else w_cells w ! (length path - 1))"

lemma walk_begin:
  assumes "stands w pos path cells" "placed (b_data b) pos (be4 1 @ padded (nm @ [0]))" "body_of pos nm \<le> struct_end b"
    "struct_end b \<le> length (b_data b)" "0 \<notin> set nm" "utf8 nm" "length path < MAX_DEPTH"
  obtains w' where "walk_next b w = Inr (Some \<lparr>n_name = nm, n_body = body_of pos nm, n_parent_cells = cells\<rparr>, w')"
    "stands w' (body_of pos nm) (path @ [nm]) cells" "\<And>i. i < length path \<Longrightarrow> w_cells w' ! i = w_cells w ! i"
proof -
  note st = assms(1) [unfolded stands_def walk_ok_def]
  have p: "placed (b_data b) pos (be4 1)" "placed (b_data b) (pos + 4) (padded (nm @ [0]))"
    using assms(2) by (simp_all add: placed_append)
  have t: "read_be_u32 (b_data b) pos = Some FDT_BEGIN_NODE" using read_placed [OF p(1)] by (simp add: FDT_BEGIN_NODE_def)
  have "(pos + 4) mod 4 = 0" using st by simp
  then have r: "read_name b (pos + 4) = Inr (nm, body_of pos nm)"
    using read_name_placed [OF p(2) _ assms(4-6)] assms(3) by (simp add: body_of_def)
  have "pos < struct_end b" using assms(3) by (simp add: body_of_def)
  then have run: "\<not> (w_done w \<or> struct_end b \<le> w_pos w)" using st by simp
  let ?w = "w\<lparr>w_pos := body_of pos nm, w_names := (w_names w)[w_depth w := nm], w_cells := (w_cells w)[w_depth w := cells],
              w_depth := w_depth w + 1\<rparr>"
  have "walk_next b w = Inr (Some \<lparr>n_name = nm, n_body = body_of pos nm, n_parent_cells = cells\<rparr>, ?w)"
    using run t r st assms(7) by (subst walk_next.simps) (auto simp: Let_def fdt_tokens)
  moreover have "stands ?w (body_of pos nm) (path @ [nm]) cells"
  proof -
    have "body_of pos nm mod 4 = 0" unfolding body_of_def by (rule mod4_add) (use st in simp_all)
    moreover have "take (Suc (length path)) ((w_names w)[length path := nm]) = path @ [nm]"
      using st assms(7) by (simp add: take_Suc_conv_app_nth)
    ultimately show ?thesis using st assms(7) by (simp add: stands_def walk_ok_def)
  qed
  moreover have "w_cells ?w ! i = w_cells w ! i" if "i < length path" for i
    using st that by simp
  ultimately show ?thesis using that by blast
qed

lemma stands_props:
  assumes "stands w pos path cells" "placed (b_data b) pos (enc_props off ps)" "\<forall>p\<in>set ps. prop_ok b off p"
    "pos + length (enc_props off ps) \<le> struct_end b" "path \<noteq> []"
  obtains w' where "walk_next b w = walk_next b w'" "stands w' (pos + length (enc_props off ps)) path (cells_after cells ps)"
    "\<And>i. i < length path - 1 \<Longrightarrow> w_cells w' ! i = w_cells w ! i"
proof -
  note st = assms(1) [unfolded stands_def walk_ok_def]
  let ?w = "w\<lparr>w_pos := w_pos w + length (enc_props off ps),
              w_cells := (w_cells w)[w_depth w - 1 := cells_after (w_cells w ! (w_depth w - 1)) ps]\<rparr>"
  have step: "walk_next b w = walk_next b ?w"
    by (rule walk_props) (use st assms in \<open>simp_all\<close>)
  have "(pos + length (enc_props off ps)) mod 4 = 0" by (rule mod4_add) (use st enc_props_mod in simp_all)
  moreover have "length path - 1 < length (w_cells w)" using st assms(5) by (cases path) auto
  ultimately have "stands ?w (pos + length (enc_props off ps)) path (cells_after cells ps)"
    using st assms(5) by (simp add: stands_def walk_ok_def)
  moreover have "w_cells ?w ! i = w_cells w ! i" if "i < length path - 1" for i using st that by simp
  ultimately show ?thesis using that step by blast
qed

lemma stands_end:
  assumes "stands w pos (path @ [nm]) cells'" "placed (b_data b) pos (be4 2)" "pos < struct_end b"
    "cells = (if path = [] then DEFAULT_CELLS else w_cells w ! (length path - 1))"
  obtains w' where "walk_next b w = walk_next b w'" "stands w' (pos + 4) path cells" "w_cells w' = w_cells w"
proof -
  note st = assms(1) [unfolded stands_def walk_ok_def]
  have t: "read_be_u32 (b_data b) pos = Some FDT_END_NODE" using read_placed [OF assms(2)] by (simp add: FDT_END_NODE_def)
  have run: "\<not> (w_done w \<or> struct_end b \<le> w_pos w)" using st assms(3) by simp
  let ?w = "w\<lparr>w_pos := pos + 4, w_depth := w_depth w - 1\<rparr>"
  have "walk_next b w = walk_next b ?w" using run t st by (subst walk_next.simps) (simp add: Let_def fdt_tokens)
  moreover have e: "take (Suc (length path)) (w_names w) = path @ [nm]" using st by simp
  have "take (length path) (take (Suc (length path)) (w_names w)) = path" unfolding e by simp
  then have "take (length path) (w_names w) = path" by (simp add: min_def)
  then have "stands ?w (pos + 4) path cells" using st assms(4) by (simp add: stands_def walk_ok_def)
  ultimately show ?thesis using that [of ?w] by simp
qed

definition fits_depth :: "u8 list list \<Rightarrow> dtree \<Rightarrow> bool" where
  "fits_depth path t \<longleftrightarrow> length path + height t \<le> MAX_DEPTH"

lemma height_kid: "k \<in> set ks \<Longrightarrow> Suc (height k) \<le> height (DNode nm ps ks)"
  by (simp add: Max_ge)

lemma fits_kid: "fits_depth path (DNode nm ps ks) \<Longrightarrow> k \<in> set ks \<Longrightarrow> fits_depth (path @ [nm]) k"
  using height_kid [of k ks nm ps] by (simp add: fits_depth_def del: height.simps)

lemma walk_tree:
  fixes b off
  defines "reads \<equiv> \<lambda>pos path cells e ns. \<forall>w. stands w pos path cells \<longrightarrow>
      (\<exists>w'. entries_of b w = ns @ entries_of b w' \<and> stands w' e path cells \<and> (\<forall>i<length path. w_cells w' ! i = w_cells w ! i))"
  assumes "struct_end b \<le> length (b_data b)"
  shows "placed (b_data b) pos (enc_node off t) \<Longrightarrow> tree_ok b off t \<Longrightarrow> fits_depth path t \<Longrightarrow>
      pos + length (enc_node off t) \<le> struct_end b \<Longrightarrow>
      reads pos path cells (pos + length (enc_node off t)) (nodes_at off path cells pos t)"
    and "placed (b_data b) pos (concat (map (enc_node off) ks)) \<Longrightarrow> \<forall>k\<in>set ks. tree_ok b off k \<and> fits_depth path k \<Longrightarrow>
      pos + length (concat (map (enc_node off) ks)) \<le> struct_end b \<Longrightarrow>
      reads pos path cells (pos + length (concat (map (enc_node off) ks))) (forest_at off path cells pos ks)"
proof (induction off path cells pos t and off path cells pos ks rule: nodes_at_forest_at.induct)
  case (1 off path cells pos nm ps ks)
  let ?b = "body_of pos nm" let ?c = "cells_after cells ps" let ?p = "path @ [nm]"
  let ?q = "?b + length (enc_props off ps)" let ?F = "concat (map (enc_node off) ks)"
  have pl: "placed (b_data b) pos (be4 1 @ padded (nm @ [0]))" "placed (b_data b) ?b (enc_props off ps)"
      "placed (b_data b) ?q ?F" "placed (b_data b) (?q + length ?F) (be4 2)"
    using "1.prems"(1) by (simp_all add: placed_append body_of_def add.assoc)
  have e: "pos + length (enc_node off (DNode nm ps ks)) = ?q + length ?F + 4" by (simp add: body_of_def)
  have kids: "\<forall>k\<in>set ks. tree_ok b off k \<and> fits_depth ?p k"
    using "1.prems"(2,3) fits_kid [of path nm ps ks] by simp
  have room: "?q + length ?F + 4 \<le> struct_end b" using "1.prems"(4) e by simp
  have deep: "length path < MAX_DEPTH" using "1.prems"(3) by (simp add: fits_depth_def)
  show ?case unfolding reads_def
  proof (intro allI impI)
    fix w assume st: "stands w pos path cells"
    obtain w1 where w1: "walk_next b w = Inr (Some \<lparr>n_name = nm, n_body = ?b, n_parent_cells = cells\<rparr>, w1)" "stands w1 ?b ?p cells"
        "\<And>i. i < length path \<Longrightarrow> w_cells w1 ! i = w_cells w ! i"
      by (rule walk_begin [OF st pl(1) _ assms(2)]) (use room "1.prems"(2) deep in simp_all)
    obtain w2 where w2: "walk_next b w1 = walk_next b w2" "stands w2 ?q ?p ?c" "\<And>i. i < length path \<Longrightarrow> w_cells w2 ! i = w_cells w1 ! i"
      by (rule stands_props [OF w1(2) pl(2)]) (use room "1.prems"(2) in simp_all)
    obtain w3 where w3: "entries_of b w2 = forest_at off ?p ?c ?q ks @ entries_of b w3" "stands w3 (?q + length ?F) ?p ?c"
        "\<forall>i<length ?p. w_cells w3 ! i = w_cells w2 ! i"
      using "1.IH" [OF pl(3) kids] room w2(2) unfolding reads_def by auto
    have cells: "w_cells w3 ! i = w_cells w ! i" if "i < length path" for i using w1(3) w2(3) w3(3) that by simp
    obtain w4 where w4: "walk_next b w3 = walk_next b w4" "stands w4 (?q + length ?F + 4) path cells" "w_cells w4 = w_cells w3"
    proof (rule stands_end [OF w3(2) pl(4)])
      show "?q + length ?F < struct_end b" using room by simp
      show "cells = (if path = [] then DEFAULT_CELLS else w_cells w3 ! (length path - 1))"
        using st cells [of "length path - 1"] by (auto simp: stands_def)
    qed
    have "take (w_depth w1) (w_names w1) = ?p" using w1(2) by (simp add: stands_def)
    then have "entries_of b w = (\<lparr>n_name = nm, n_body = ?b, n_parent_cells = cells\<rparr>, ?p) # entries_of b w1"
      by (simp add: entries_of_def walk_nodes.simps [of b w] w1(1))
    also have "entries_of b w1 = forest_at off ?p ?c ?q ks @ entries_of b w4"
      using entries_of_cong [OF w2(1)] w3(1) entries_of_cong [OF w4(1)] by simp
    finally show "\<exists>w'. entries_of b w = nodes_at off path cells pos (DNode nm ps ks) @ entries_of b w' \<and>
        stands w' (pos + length (enc_node off (DNode nm ps ks))) path cells \<and> (\<forall>i<length path. w_cells w' ! i = w_cells w ! i)"
      using w4(2,3) cells unfolding e by (intro exI [of _ w4]) simp
  qed
next
  case (2 off path cells pos)
  then show ?case by (auto simp: reads_def)
next
  case (3 off path cells pos k ks)
  have pl: "placed (b_data b) pos (enc_node off k)" "placed (b_data b) (pos + length (enc_node off k)) (concat (map (enc_node off) ks))"
    using "3.prems"(1) by (simp_all add: placed_append)
  have room: "pos + length (enc_node off k) + length (concat (map (enc_node off) ks)) \<le> struct_end b" using "3.prems"(3) by simp
  show ?case unfolding reads_def
  proof (intro allI impI)
    fix w assume st: "stands w pos path cells"
    obtain w1 where w1: "entries_of b w = nodes_at off path cells pos k @ entries_of b w1" "stands w1 (pos + length (enc_node off k)) path cells"
        "\<forall>i<length path. w_cells w1 ! i = w_cells w ! i"
      using "3.IH"(1) [OF pl(1)] "3.prems"(2) room st unfolding reads_def by auto
    obtain w2 where w2: "entries_of b w1 = forest_at off path cells (pos + length (enc_node off k)) ks @ entries_of b w2"
        "stands w2 (pos + length (enc_node off k) + length (concat (map (enc_node off) ks))) path cells"
        "\<forall>i<length path. w_cells w2 ! i = w_cells w1 ! i"
      using "3.IH"(2) [OF pl(2) _ room] "3.prems"(2) w1(2) unfolding reads_def by auto
    show "\<exists>w'. entries_of b w = forest_at off path cells pos (k # ks) @ entries_of b w' \<and>
        stands w' (pos + length (concat (map (enc_node off) (k # ks)))) path cells \<and> (\<forall>i<length path. w_cells w' ! i = w_cells w ! i)"
      using w1 w2 by (intro exI [of _ w2]) (simp add: add.assoc)
  qed
qed

lemma entries_end:
  assumes "stands w pos path cells" "placed (b_data b) pos (be4 9)"
  shows "entries_of b w = []"
proof -
  have "walk_next b w = Inr (None, w) \<or> walk_next b w = Inr (None, w\<lparr>w_pos := pos + 4, w_done := True\<rparr>)"
    using assms(1) read_placed [OF assms(2)] by (subst (1 2) walk_next.simps) (auto simp: stands_def Let_def fdt_tokens)
  then show ?thesis by (auto simp: entries_of_def walk_nodes.simps [of b w])
qed

text \<open>The blob holds the tree, and nothing else, in its structure block.\<close>

definition holds_tree :: "blob \<Rightarrow> (u8 list \<Rightarrow> nat) \<Rightarrow> dtree \<Rightarrow> bool" where
  "holds_tree b off t \<longleftrightarrow>
     tree_ok b off t \<and> height t \<le> MAX_DEPTH \<and> struct_start b mod 4 = 0 \<and> struct_end b \<le> length (b_data b)
     \<and> placed (b_data b) (struct_start b) (enc_node off t @ be4 9) \<and> struct_start b + length (enc_node off t) + 4 \<le> struct_end b"

lemma entries_of_tree:
  assumes "holds_tree b off t"
  shows "entries_of b (walk_new b) = nodes_at off [] DEFAULT_CELLS (struct_start b) t"
proof -
  have "stands (walk_new b) (struct_start b) [] DEFAULT_CELLS"
    using assms by (simp add: stands_def walk_ok_new holds_tree_def) (simp add: walk_new_def)
  then obtain w where "entries_of b (walk_new b) = nodes_at off [] DEFAULT_CELLS (struct_start b) t @ entries_of b w"
      "stands w (struct_start b + length (enc_node off t)) [] DEFAULT_CELLS"
    using walk_tree(1) [of b "struct_start b" off t "[]" DEFAULT_CELLS] assms
    by (auto simp: holds_tree_def fits_depth_def placed_append)
  then show ?thesis using entries_end assms by (auto simp: holds_tree_def placed_append)
qed

section \<open>Children read back\<close>

lemma props_fields_next:
  assumes "pos mod 4 = 0"
  shows "align4 (pos + 12 + length v) = pos + length (enc_prop off (name, v))"
proof -
  have "(pos + 12) mod 4 = 0" by (rule mod4_add) (use assms in simp_all)
  then show ?thesis by (simp add: align4_add)
qed

lemma skip_props:
  "placed (b_data b) pos (enc_props off ps) \<Longrightarrow> \<forall>p\<in>set ps. prop_ok b off p \<Longrightarrow> pos mod 4 = 0 \<Longrightarrow> 0 < dep \<Longrightarrow>
     skip_subtree b dep pos = skip_subtree b dep (pos + length (enc_props off ps))
     \<and> children_from b cells pos = children_from b cells (pos + length (enc_props off ps))"
proof (induction ps arbitrary: pos)
  case (Cons p ps)
  obtain name v where p: "p = (name, v)" by fastforce
  have pl: "placed (b_data b) pos (enc_prop off (name, v))" "placed (b_data b) (pos + length (enc_prop off (name, v))) (enc_props off ps)"
    using Cons.prems(1) by (simp_all add: p placed_append del: enc_prop.simps)
  have ok: "prop_ok b off (name, v)" using Cons.prems(2) p by simp
  note f = prop_fields [OF pl(1) ok] and n = props_fields_next [OF Cons.prems(3), of v off name]
  have "skip_subtree b dep pos = skip_subtree b dep (pos + length (enc_prop off (name, v)))"
    using f n Cons.prems(4) by (subst skip_subtree.simps) (simp add: fdt_tokens add.assoc del: enc_prop.simps)
  moreover have "children_from b cells pos = children_from b cells (pos + length (enc_prop off (name, v)))"
    using f n by (subst children_from.simps) (simp add: fdt_tokens add.assoc del: enc_prop.simps)
  moreover have "(pos + length (enc_prop off (name, v))) mod 4 = 0" by (rule mod4_add) (use Cons.prems(3) enc_prop_mod in blast)+
  ultimately show ?case using Cons.IH [OF pl(2)] Cons.prems p by (simp add: add.assoc del: enc_prop.simps)
qed simp

lemma skip_cstr_placed:
  assumes "placed d pos (padded (nm @ [0]))" "0 \<notin> set nm"
  shows "skip_cstr d pos = Some (length nm + 1)"
proof -
  have p: "placed d pos (nm @ [0])" using assms(1) unfolding padded_def placed_append by simp
  then have "pos < length d" by (simp add: placed_def)
  then obtain ys where s: "slice d pos (length d) = Some (nm @ 0 # ys)" "position (\<lambda>c. c = 0) (nm @ 0 # ys) = Some (length nm)"
    using placed_text [OF p _ _ assms(2), of "length d"] p by (auto simp: placed_def)
  then have "drop pos d = nm @ 0 # ys" by (simp add: slice_Some)
  then show ?thesis using s(2) \<open>pos < length d\<close> by (simp add: skip_cstr_def)
qed

lemma body_mod: "pos mod 4 = 0 \<Longrightarrow> body_of pos nm mod 4 = 0"
  unfolding body_of_def by (intro mod4_add) simp_all

lemma body_eq: "pos mod 4 = 0 \<Longrightarrow> align4 (pos + 4 + (length nm + 1)) = body_of pos nm"
proof -
  assume "pos mod 4 = 0"
  then have "(pos + 4) mod 4 = 0" by (intro mod4_add) simp_all
  then show ?thesis by (simp only: align4_add body_of_def)
qed

lemma node_parts:
  assumes "placed d pos (enc_node off (DNode nm ps ks))"
  shows "placed d pos (be4 1)" "placed d (pos + 4) (padded (nm @ [0]))" "placed d (body_of pos nm) (enc_props off ps)"
    "placed d (body_of pos nm + length (enc_props off ps)) (concat (map (enc_node off) ks))"
    "placed d (body_of pos nm + length (enc_props off ps) + length (concat (map (enc_node off) ks))) (be4 2)"
    "pos + length (enc_node off (DNode nm ps ks)) = body_of pos nm + length (enc_props off ps) + length (concat (map (enc_node off) ks)) + 4"
    "placed d (body_of pos nm) (enc_props off ps @ concat (map (enc_node off) ks) @ be4 2)"
  using assms by (simp_all add: placed_append body_of_def add.assoc)

lemma skip_tree:
  fixes path :: "u8 list list" and cells :: "nat \<times> nat"
  shows "placed (b_data b) pos (enc_node off t) \<Longrightarrow> tree_ok b off t \<Longrightarrow> pos mod 4 = 0 \<Longrightarrow> 0 < dep \<Longrightarrow>
     skip_subtree b dep pos = skip_subtree b dep (pos + length (enc_node off t))"
  and "placed (b_data b) pos (concat (map (enc_node off) ks)) \<Longrightarrow> \<forall>k\<in>set ks. tree_ok b off k \<Longrightarrow> pos mod 4 = 0 \<Longrightarrow> 0 < dep \<Longrightarrow>
     skip_subtree b dep pos = skip_subtree b dep (pos + length (concat (map (enc_node off) ks)))"
proof (induction off path cells pos t and off path cells pos ks arbitrary: dep and dep rule: nodes_at_forest_at.induct)
  case (1 off path cells pos nm ps ks)
  note pl = node_parts [OF "1.prems"(1)]
  let ?q = "body_of pos nm + length (enc_props off ps)" let ?F = "concat (map (enc_node off) ks)"
  have ok: "0 \<notin> set nm" "\<forall>p\<in>set ps. prop_ok b off p" "\<forall>k\<in>set ks. tree_ok b off k" using "1.prems"(2) by simp_all
  have m: "body_of pos nm mod 4 = 0" by (rule body_mod [OF "1.prems"(3)])
  have q: "?q mod 4 = 0" by (rule mod4_add [OF m enc_props_mod])
  have t: "read_be_u32 (b_data b) pos = Some FDT_BEGIN_NODE" by (rule enc_node_begin [OF "1.prems"(1)])
  have c: "skip_cstr (b_data b) (pos + 4) = Some (length nm + 1)" by (rule skip_cstr_placed [OF pl(2) ok(1)])
  have "skip_subtree b dep pos = skip_subtree b (dep + 1) (body_of pos nm)"
    using t c body_eq [OF "1.prems"(3), of nm] "1.prems"(4) by (subst skip_subtree.simps) (simp add: fdt_tokens)
  also have "\<dots> = skip_subtree b (dep + 1) ?q" using skip_props [OF pl(3) ok(2) m, of "dep + 1"] by simp
  also have "\<dots> = skip_subtree b (dep + 1) (?q + length ?F)" using "1.IH" [OF pl(4) ok(3) q, of "dep + 1"] by simp
  also have "\<dots> = skip_subtree b dep (?q + length ?F + 4)"
    using read_placed [OF pl(5)] by (subst skip_subtree.simps) (simp add: fdt_tokens)
  finally show ?case unfolding pl(6) .
next
  case (3 off path cells pos k ks)
  have pl: "placed (b_data b) pos (enc_node off k)" "placed (b_data b) (pos + length (enc_node off k)) (concat (map (enc_node off) ks))"
    using "3.prems"(1) by (simp_all add: placed_append)
  have "(pos + length (enc_node off k)) mod 4 = 0" by (rule mod4_add [OF "3.prems"(3) enc_node_mod])
  then show ?case using "3.IH"(1) [OF pl(1) _ "3.prems"(3,4)] "3.IH"(2) [OF pl(2) _ _ "3.prems"(4)] "3.prems"(2) by (simp add: add.assoc)
qed simp

fun kids_at :: "(u8 list \<Rightarrow> nat) \<Rightarrow> nat \<times> nat \<Rightarrow> nat \<Rightarrow> dtree list \<Rightarrow> fdt_node list" where
  "kids_at off cells pos [] = []"
| "kids_at off cells pos (k # ks) =
     \<lparr>n_name = dt_name k, n_body = body_of pos (dt_name k), n_parent_cells = cells\<rparr> # kids_at off cells (pos + length (enc_node off k)) ks"

lemma children_forest:
  "placed (b_data b) pos (concat (map (enc_node off) ks) @ be4 2) \<Longrightarrow> \<forall>k\<in>set ks. tree_ok b off k \<Longrightarrow> pos mod 4 = 0 \<Longrightarrow>
     children_from b cells pos = kids_at off cells pos ks"
proof (induction ks arbitrary: pos)
  case Nil
  then have "read_be_u32 (b_data b) pos = Some FDT_END_NODE" using read_placed [of "b_data b" pos 2] by (simp add: FDT_END_NODE_def)
  then show ?case by (subst children_from.simps) (simp add: fdt_tokens)
next
  case (Cons k ks)
  obtain nm ps js where k: "k = DNode nm ps js" by (cases k)
  have pk: "placed (b_data b) pos (enc_node off (DNode nm ps js))"
      "placed (b_data b) (pos + length (enc_node off k)) (concat (map (enc_node off) ks) @ be4 2)"
    using Cons.prems(1) by (simp_all add: k placed_append add.assoc del: enc_node.simps)
  note pl = node_parts [OF pk(1)]
  let ?q = "body_of pos nm + length (enc_props off ps)" let ?F = "concat (map (enc_node off) js)"
  have ok: "0 \<notin> set nm" "utf8 nm" "\<forall>p\<in>set ps. prop_ok b off p" "\<forall>k\<in>set js. tree_ok b off k" using Cons.prems(2) by (simp_all add: k)
  have m: "body_of pos nm mod 4 = 0" by (rule body_mod [OF Cons.prems(3)])
  have q: "?q mod 4 = 0" by (rule mod4_add [OF m enc_props_mod])
  have t: "read_be_u32 (b_data b) pos = Some FDT_BEGIN_NODE" by (rule enc_node_begin [OF pk(1)])
  have c: "skip_cstr (b_data b) (pos + 4) = Some (length nm + 1)" by (rule skip_cstr_placed [OF pl(2) ok(1)])
  have "placed (b_data b) (pos + 4) nm" using pl(2) unfolding padded_def placed_append by simp
  then have n: "slice (b_data b) (pos + 4) (pos + 4 + (length nm + 1) - 1) = Some nm" by (auto dest!: slice_placed simp: ac_simps)
  have "skip_subtree b 1 (body_of pos nm) = skip_subtree b 1 ?q" using skip_props [OF pl(3) ok(3) m, of 1] by simp
  also have "\<dots> = skip_subtree b 1 (?q + length ?F)" by (rule skip_tree(2) [OF pl(4) ok(4) q]) simp
  also have "\<dots> = skip_subtree b 0 (?q + length ?F + 4)"
    using read_placed [OF pl(5)] by (subst skip_subtree.simps) (simp add: fdt_tokens)
  also have "\<dots> = Some (pos + length (enc_node off k))" unfolding pl(6) k by (simp add: skip_subtree.simps)
  finally have s: "skip_subtree b 1 (body_of pos nm) = Some (pos + length (enc_node off k))" .
  have "(pos + length (enc_node off k)) mod 4 = 0" by (rule mod4_add [OF Cons.prems(3) enc_node_mod])
  then have "children_from b cells (pos + length (enc_node off k)) = kids_at off cells (pos + length (enc_node off k)) ks"
    using Cons.IH [OF pk(2)] Cons.prems(2) by simp
  then show ?case
    using t c n s ok(2) body_eq [OF Cons.prems(3), of nm] unfolding children_from.simps [of b cells pos]
    by (simp add: fdt_tokens Let_def k del: enc_node.simps)
qed

section \<open>Nodes read back\<close>

lemma cells_after_Cons: "cells_after c (p # ps) = cells_after (note_cells (fst p) (snd p) c) ps"
  by (simp add: cells_after_def)

lemma cells_after_other:
  "ADDRESS_CELLS \<notin> fst ` set ps \<Longrightarrow> fst (cells_after c ps) = fst c"
  "SIZE_CELLS \<notin> fst ` set ps \<Longrightarrow> snd (cells_after c ps) = snd c"
  by (induction ps arbitrary: c)
     (auto simp: cells_after_Cons note_cells_def split: option.splits, simp add: cells_after_def, simp add: cells_after_def)

definition own_cells :: "fdt_prop list \<Rightarrow> u8 list \<Rightarrow> u32 option" where
  "own_cells ps name = Option.bind (map_option snd (List.find (\<lambda>p. fst p = name) ps)) as_u32"

lemma cells_names_differ: "ADDRESS_CELLS \<noteq> SIZE_CELLS"
  by (simp add: ADDRESS_CELLS_def SIZE_CELLS_def)

lemma four_bytes: "length v = 4 \<Longrightarrow> as_u32 v = read_be_u32 v 0 \<and> (\<exists>c. read_be_u32 v 0 = Some c)"
  by (simp add: as_u32_def read_be_u32_def slice_def)

text \<open>The walk and the accessors agree on the cells of a node whose cell properties are one cell long and given once.\<close>

lemma cells_agree:
  "distinct (map fst ps) \<Longrightarrow> \<forall>p\<in>set ps. prop_ok b off p \<Longrightarrow>
     (case own_cells ps ADDRESS_CELLS of Some c \<Rightarrow> unat c | None \<Rightarrow> fst pc) = fst (cells_after pc ps)
     \<and> (case own_cells ps SIZE_CELLS of Some c \<Rightarrow> unat c | None \<Rightarrow> snd pc) = snd (cells_after pc ps)"
proof (induction ps arbitrary: pc)
  case Nil
  then show ?case by (simp add: own_cells_def cells_after_def)
next
  case (Cons p ps)
  obtain name v where p: "p = (name, v)" by fastforce
  have IH: "(case own_cells ps ADDRESS_CELLS of Some c \<Rightarrow> unat c | None \<Rightarrow> fst pc) = fst (cells_after pc ps)"
      "(case own_cells ps SIZE_CELLS of Some c \<Rightarrow> unat c | None \<Rightarrow> snd pc) = snd (cells_after pc ps)" for pc
    using Cons by simp_all
  have other: "own_cells (p # ps) n = own_cells ps n" if "n \<noteq> name" for n using that by (simp add: own_cells_def p)
  have here: "own_cells (p # ps) name = as_u32 v" by (simp add: own_cells_def p)
  have new: "name \<notin> fst ` set ps" using Cons.prems(1) by (simp add: p)
  have four: "name \<in> {ADDRESS_CELLS, SIZE_CELLS} \<Longrightarrow> length v = 4" using Cons.prems(2) by (auto simp: p prop_ok_def)
  note d = cells_names_differ
  consider "name = ADDRESS_CELLS" | "name = SIZE_CELLS" | "name \<noteq> ADDRESS_CELLS" "name \<noteq> SIZE_CELLS" by blast
  then show ?case
  proof cases
    case 1
    then obtain c where c: "as_u32 v = Some c" "read_be_u32 v 0 = Some c" using four_bytes [of v] four by auto
    have n: "note_cells name v pc = (unat c, snd pc)" using 1 c by (simp add: note_cells_def)
    show ?thesis using here other [of SIZE_CELLS] c n 1 d new IH(2) [of "(unat c, snd pc)", unfolded snd_conv] cells_after_other(1) [of ps]
      by (simp add: cells_after_Cons p)
  next
    case 2
    then obtain c where c: "as_u32 v = Some c" "read_be_u32 v 0 = Some c" using four_bytes [of v] four by auto
    have n: "note_cells name v pc = (fst pc, unat c)" using 2 c d by (simp add: note_cells_def)
    show ?thesis using here other [of ADDRESS_CELLS] c n 2 d new IH(1) [of "(fst pc, unat c)", unfolded fst_conv] cells_after_other(2) [of ps]
      by (simp add: cells_after_Cons p)
  next
    case 3
    then have n: "note_cells name v pc = pc" by (simp add: note_cells_def split: option.split)
    show ?thesis using other [of ADDRESS_CELLS] other [of SIZE_CELLS] n 3 IH [of pc] by (simp add: cells_after_Cons p)
  qed
qed

text \<open>What the accessors say of a node: its name, its parent's cells, its properties and its children.\<close>

definition shape :: "blob \<Rightarrow> fdt_node \<Rightarrow> u8 list \<times> (nat \<times> nat) \<times> fdt_prop list" where
  "shape b n = (n_name n, n_parent_cells n, node_props b n)"

definition view :: "blob \<Rightarrow> fdt_node \<Rightarrow> (u8 list \<times> (nat \<times> nat) \<times> fdt_prop list) \<times> (u8 list \<times> (nat \<times> nat) \<times> fdt_prop list) list" where
  "view b n = (shape b n, map (shape b) (node_children b n))"

text \<open>The same, of the tree: every node with the path to it, parents before children.\<close>

fun tree_view ::
  "u8 list list \<Rightarrow> nat \<times> nat \<Rightarrow> dtree \<Rightarrow>
     (((u8 list \<times> (nat \<times> nat) \<times> fdt_prop list) \<times> (u8 list \<times> (nat \<times> nat) \<times> fdt_prop list) list) \<times> u8 list list) list" where
  "tree_view path cells (DNode nm ps ks) =
     (((nm, cells, ps), map (\<lambda>k. (dt_name k, cells_after cells ps, dt_props k)) ks), path @ [nm])
     # concat (map (tree_view (path @ [nm]) (cells_after cells ps)) ks)"

lemma shape_node:
  assumes "placed (b_data b) pos (enc_node off t)" "tree_ok b off t" "pos mod 4 = 0"
  shows "shape b \<lparr>n_name = dt_name t, n_body = body_of pos (dt_name t), n_parent_cells = cells\<rparr> = (dt_name t, cells, dt_props t)"
proof -
  obtain nm ps ks where t: "t = DNode nm ps ks" by (cases t)
  note pl = node_parts [OF assms(1) [unfolded t]]
  show ?thesis using props_from_enc [OF pl(3) _ body_mod [OF assms(3)] enc_props_end [OF pl(7)]] assms(2)
    by (simp add: t shape_def node_props_def)
qed

lemma shape_kids:
  "placed (b_data b) pos (concat (map (enc_node off) ks)) \<Longrightarrow> \<forall>k\<in>set ks. tree_ok b off k \<Longrightarrow> pos mod 4 = 0 \<Longrightarrow>
     map (shape b) (kids_at off cells pos ks) = map (\<lambda>k. (dt_name k, cells, dt_props k)) ks"
proof (induction ks arbitrary: pos)
  case (Cons k ks)
  have "placed (b_data b) pos (enc_node off k)" "placed (b_data b) (pos + length (enc_node off k)) (concat (map (enc_node off) ks))"
    using Cons.prems(1) by (simp_all add: placed_append)
  moreover have "(pos + length (enc_node off k)) mod 4 = 0" by (rule mod4_add [OF Cons.prems(3) enc_node_mod])
  ultimately show ?case using Cons.IH Cons.prems shape_node [of b pos off k cells] by simp
qed simp

lemma view_tree:
  "placed (b_data b) pos (enc_node off t) \<Longrightarrow> tree_ok b off t \<Longrightarrow> pos mod 4 = 0 \<Longrightarrow>
     map (\<lambda>(n, path). (view b n, path)) (nodes_at off path cells pos t) = tree_view path cells t"
  "placed (b_data b) pos (concat (map (enc_node off) ks)) \<Longrightarrow> \<forall>k\<in>set ks. tree_ok b off k \<Longrightarrow> pos mod 4 = 0 \<Longrightarrow>
     map (\<lambda>(n, path). (view b n, path)) (forest_at off path cells pos ks) = concat (map (tree_view path cells) ks)"
proof (induction off path cells pos t and off path cells pos ks rule: nodes_at_forest_at.induct)
  case (1 off path cells pos nm ps ks)
  note pl = node_parts [OF "1.prems"(1)]
  let ?n = "\<lparr>n_name = nm, n_body = body_of pos nm, n_parent_cells = cells\<rparr>"
  let ?q = "body_of pos nm + length (enc_props off ps)"
  have ok: "distinct (map fst ps)" "\<forall>p\<in>set ps. prop_ok b off p" "\<forall>k\<in>set ks. tree_ok b off k" using "1.prems"(2) by simp_all
  have m: "body_of pos nm mod 4 = 0" by (rule body_mod [OF "1.prems"(3)])
  have q: "?q mod 4 = 0" by (rule mod4_add [OF m enc_props_mod])
  have sh: "shape b ?n = (nm, cells, ps)" using shape_node [OF "1.prems"] by simp
  then have pr: "node_props b ?n = ps" by (simp add: shape_def)
  have "(node_address_cells b ?n, node_size_cells b ?n) = cells_after cells ps"
    using cells_agree [OF ok(1,2), of cells]
    unfolding node_address_cells_def node_size_cells_def node_prop_def pr own_cells_def [symmetric] fdt_node.select_convs
    by (simp add: prod_eq_iff)
  then have "node_children b ?n = children_from b (cells_after cells ps) ?q"
    using skip_props [OF pl(3) ok(2) m, of 1] by (simp add: node_children_def)
  also have "\<dots> = kids_at off (cells_after cells ps) ?q ks"
    using pl(7) by (intro children_forest [OF _ ok(3) q]) (simp add: placed_append)
  finally have "map (shape b) (node_children b ?n) = map (\<lambda>k. (dt_name k, cells_after cells ps, dt_props k)) ks"
    using shape_kids [OF pl(4) ok(3) q] by simp
  then have "view b ?n = ((nm, cells, ps), map (\<lambda>k. (dt_name k, cells_after cells ps, dt_props k)) ks)"
    by (simp add: view_def sh)
  then show ?case using "1.IH" [OF pl(4) ok(3) q] by simp
next
  case (3 off path cells pos k ks)
  have pl: "placed (b_data b) pos (enc_node off k)" "placed (b_data b) (pos + length (enc_node off k)) (concat (map (enc_node off) ks))"
    using "3.prems"(1) by (simp_all add: placed_append)
  have "(pos + length (enc_node off k)) mod 4 = 0" by (rule mod4_add [OF "3.prems"(3) enc_node_mod])
  then show ?case using "3.IH"(1) [OF pl(1) _ "3.prems"(3)] "3.IH"(2) [OF pl(2)] "3.prems"(2) by simp
qed simp

section \<open>Looking up\<close>

fun match_path :: "u8 list list \<Rightarrow> u8 list list \<Rightarrow> bool" where
  "match_path [] [] \<longleftrightarrow> True"
| "match_path (n # ns) (c # cs) \<longleftrightarrow> name_matches n c \<and> match_path ns cs"
| "match_path _ _ \<longleftrightarrow> False"

lemma match_from_take:
  "level \<le> w_depth w \<Longrightarrow> w_depth w \<le> length (w_names w) \<Longrightarrow>
     match_from w level cs = match_path (drop level (take (w_depth w) (w_names w))) cs"
proof (induction w level cs rule: match_from.induct)
  case (1 w level)
  then show ?case by (cases "drop level (take (w_depth w) (w_names w))") auto
next
  case (2 w level c cs)
  show ?case
  proof (cases "level < w_depth w")
    case True
    then have "drop level (take (w_depth w) (w_names w)) = w_names w ! level # drop (level + 1) (take (w_depth w) (w_names w))"
      using 2 Cons_nth_drop_Suc [of level "take (w_depth w) (w_names w)"] by simp
    then show ?thesis using 2 True by auto
  qed simp
qed

lemma find_from_find:
  "find_from b w path = map_option fst (List.find (\<lambda>(n, w'). matches_path w' path) (walk_nodes b w))"
  by (induction b w rule: walk_nodes.induct)
     (subst find_from.simps, subst walk_nodes.simps, auto split: sum.splits option.splits prod.splits)

lemma find_cong_map: "(\<And>x. x \<in> set xs \<Longrightarrow> P x = Q (f x)) \<Longrightarrow> map_option f (List.find P xs) = List.find Q (map f xs)"
  by (induction xs) auto

lemma device_entries:
  assumes "holds_tree (f_blob f) off t"
  shows "map (\<lambda>(n, w). (view (f_blob f) n, take (w_depth w) (w_names w))) (walk_nodes (f_blob f) (walk_new (f_blob f)))
    = tree_view [] DEFAULT_CELLS t"
proof -
  let ?b = "f_blob f" let ?w = "walk_new ?b"
  have h: "placed (b_data ?b) (struct_start ?b) (enc_node off t)" "tree_ok ?b off t" "struct_start ?b mod 4 = 0"
    using assms by (simp_all add: holds_tree_def placed_append)
  have "map (\<lambda>(n, path). (view ?b n, path)) (entries_of ?b ?w) = tree_view [] DEFAULT_CELLS t"
    unfolding entries_of_tree [OF assms] by (rule view_tree(1) [OF h])
  then show ?thesis by (simp add: entries_of_def split_def comp_def)
qed

lemma lookup_in_tree:
  assumes "holds_tree (f_blob f) off t"
  shows "map_option (view (f_blob f)) (find_node f path)
    = map_option fst (List.find (\<lambda>(v, names). match_path (tl names) (components [] path)) (tree_view [] DEFAULT_CELLS t))"
proof -
  let ?b = "f_blob f" let ?w = "walk_new ?b"
  let ?f = "\<lambda>(n, w'). (view ?b n, take (w_depth w') (w_names w'))"
  have m: "matches_path w' path = match_path (tl (take (w_depth w') (w_names w'))) (components [] path)"
    if "(n, w') \<in> set (walk_nodes ?b ?w)" for n w'
    using walk_names_bound [OF that] by (simp add: matches_path_def match_from_take drop_Suc)
  have "map_option (view ?b) (find_node f path)
      = map_option fst (map_option ?f (List.find (\<lambda>(n, w'). matches_path w' path) (walk_nodes ?b ?w)))"
    by (simp add: find_node_def find_from_find option.map_comp comp_def case_prod_beta)
  also have "map_option ?f (List.find (\<lambda>(n, w'). matches_path w' path) (walk_nodes ?b ?w))
      = List.find (\<lambda>(v, names). match_path (tl names) (components [] path)) (map ?f (walk_nodes ?b ?w))"
    by (rule find_cong_map) (auto simp: m)
  finally show ?thesis unfolding device_entries [OF assms] .
qed

lemma find_distinct: "distinct (map fst xs) \<Longrightarrow> (k, v) \<in> set xs \<Longrightarrow> List.find (\<lambda>p. fst p = k) xs = Some (k, v)"
  by (induction xs) (auto simp: image_iff)


text \<open>A cell property longer than one cell is where the walk and the accessors part: the walk takes its first cell, the accessors skip it.\<close>

lemma cells_part:
  "note_cells ADDRESS_CELLS [0, 0, 0, 3, 0, 0, 0, 0] (2, 1) = (3, 1)"
  "own_cells [(ADDRESS_CELLS, [0, 0, 0, 3, 0, 0, 0, 0])] ADDRESS_CELLS = None"
  by (simp_all add: note_cells_def own_cells_def as_u32_def read_be_u32_def slice_def from_be_def)

section \<open>Banks of memory\<close>

text \<open>A number in \<open>n\<close> cells, and a bank of memory in the cells in force.\<close>

definition enc_cells :: "nat \<Rightarrow> u64 \<Rightarrow> u8 list" where
  "enc_cells n w = be_bytes (4 * n) w"

definition enc_bank :: "nat \<times> nat \<Rightarrow> u64 \<times> u64 \<Rightarrow> u8 list" where
  "enc_bank c bank = enc_cells (fst c) (fst bank) @ enc_cells (snd c) (snd bank)"

lemma length_be_bytes [simp]: "length (be_bytes n w) = n"
  by (simp add: be_bytes_def)

lemma length_enc_cells [simp]: "length (enc_cells n w) = 4 * n"
  by (simp add: enc_cells_def)

lemma be4_ucast: "be_bytes 4 (w :: u64) = be_bytes 4 (ucast w :: u32)"
proof -
  have "le_bytes 4 w = le_bytes 4 (ucast w :: u32)"
    by (rule nth_equalityI, simp, rule bit_word_eqI) (auto simp: bit_le_bytes bit_simps)
  then show ?thesis by (simp add: be_bytes_def)
qed

lemma be8_split: "be_bytes 8 (w :: u64) = be_bytes 4 (drop_bit 32 w) @ be_bytes 4 w"
proof -
  have "le_bytes 8 w = le_bytes 4 w @ le_bytes 4 (drop_bit 32 w)" by (simp add: numeral_eq_Suc drop_bit_drop_bit)
  then show ?thesis by (simp add: be_bytes_def)
qed

lemma read_be_bytes: "placed d pos (be_bytes 4 (c :: u32)) \<Longrightarrow> read_be_u32 d pos = Some c"
  using read_placed [of d pos "unat c"] by (simp add: be4_def)

lemma read_cells_placed:
  assumes "placed d pos (enc_cells n w)" "n \<le> 2" "unat w < 2 ^ (32 * n)"
  shows "read_cells d pos n = Some w"
proof -
  consider "n = 0" | "n = 1" | "n = 2" using assms(2) by fastforce
  then show ?thesis
  proof cases
    case 1
    then show ?thesis using assms(3) by (simp add: read_cells_def unat_eq_0)
  next
    case 2
    then have "read_be_u32 d pos = Some (ucast w)" using assms(1) by (intro read_be_bytes) (simp add: enc_cells_def be4_ucast)
    moreover have "(ucast (ucast w :: u32) :: u64) = take_bit 32 w" by (rule bit_word_eqI) (auto simp: bit_simps)
    moreover have "take_bit 32 w = w"
      using assms(3) 2 by (simp add: word_unat_eq_iff unsigned_take_bit_eq take_bit_nat_eq_self)
    ultimately show ?thesis using 2 by (simp add: read_cells_def)
  next
    case 3
    then have "placed d pos (be_bytes 4 (ucast (drop_bit 32 w) :: u32))" "placed d (pos + 4) (be_bytes 4 (ucast w :: u32))"
      using assms(1) by (simp_all add: enc_cells_def be8_split be4_ucast placed_append)
    then have "read_be_u32 d pos = Some (ucast (drop_bit 32 w))" "read_be_u32 d (pos + 4) = Some (ucast w)"
      by (simp_all add: read_be_bytes)
    moreover have "push_bit 32 (ucast (ucast (drop_bit 32 w) :: u32)) OR ucast (ucast w :: u32) = w"
      by (rule bit_word_eqI) (auto simp: bit_simps)
    ultimately show ?thesis using 3 by (simp add: read_cells_def numeral_2_eq_2)
  qed
qed

definition bank_fits :: "nat \<times> nat \<Rightarrow> u64 \<times> u64 \<Rightarrow> bool" where
  "bank_fits c bank \<longleftrightarrow> unat (fst bank) < 2 ^ (32 * fst c) \<and> unat (snd bank) < 2 ^ (32 * snd c)"

lemma reg_from_banks:
  assumes "0 < fst c + snd c" "fst c \<le> 2" "snd c \<le> 2"
  shows "placed d pos (concat (map (enc_bank c) banks)) \<Longrightarrow> \<forall>k\<in>set banks. bank_fits c k \<Longrightarrow>
    pos + length (concat (map (enc_bank c) banks)) = length d \<Longrightarrow> reg_from d (fst c) (snd c) pos = banks"
proof (induction banks arbitrary: pos)
  case Nil
  have "read_cells d pos (fst c) = None \<or> read_cells d (pos + fst c * 4) (snd c) = None"
    using cells_loop_bound [of d pos "fst c" 0 0] cells_loop_bound [of d "pos + fst c * 4" "snd c" 0 0] Nil.prems(3) assms(1)
    by (cases "read_cells d pos (fst c)"; cases "read_cells d (pos + fst c * 4) (snd c)") (auto simp: read_cells_def)
  then show ?case by (subst reg_from.simps) (auto split: option.split)
next
  case (Cons bank banks)
  have pl: "placed d pos (enc_cells (fst c) (fst bank))" "placed d (pos + fst c * 4) (enc_cells (snd c) (snd bank))"
      "placed d (pos + (fst c + snd c) * 4) (concat (map (enc_bank c) banks))"
    using Cons.prems(1) by (simp_all add: enc_bank_def [of c bank] placed_append algebra_simps)
  have "reg_from d (fst c) (snd c) (pos + (fst c + snd c) * 4) = banks"
    using Cons.IH [OF pl(3)] Cons.prems(2,3) by (simp add: enc_bank_def [of c bank] algebra_simps)
  then show ?case
    using read_cells_placed [OF pl(1) assms(2)] read_cells_placed [OF pl(2) assms(3)] Cons.prems(2) assms(1)
    by (subst reg_from.simps) (simp add: bank_fits_def)
qed

lemma find_append: "List.find P (xs @ ys) = (case List.find P xs of None \<Rightarrow> List.find P ys | Some x \<Rightarrow> Some x)"
  by (induction xs) auto

lemma find_none: "(\<And>x. x \<in> set xs \<Longrightarrow> \<not> P x) \<Longrightarrow> List.find P xs = None"
  by (induction xs) auto

lemma tree_view_paths: "(v, names) \<in> set (tree_view path cells t) \<Longrightarrow> \<exists>q. names = path @ dt_name t # q"
proof (induction path cells t rule: tree_view.induct)
  case (1 path cells nm ps ks)
  then show ?case by auto
qed

lemma match_path_length: "match_path ns cs \<Longrightarrow> length ns = length cs"
  by (induction ns cs rule: match_path.induct) auto

lemma find_child:
  "List.find (\<lambda>(v, names). match_path (tl names) [m]) (concat (map (tree_view [r] c) ks))
   = map_option (\<lambda>k. hd (tree_view [r] c k)) (List.find (\<lambda>k. name_matches (dt_name k) m) ks)"
proof (induction ks)
  case (Cons k ks)
  obtain nm ps js where k: "k = DNode nm ps js" by (cases k)
  have "List.find (\<lambda>(v, names). match_path (tl names) [m]) (concat (map (tree_view [r, nm] (cells_after c ps)) js)) = None"
    by (rule find_none) (auto dest!: tree_view_paths match_path_length)
  then show ?case using Cons by (simp add: k find_append)
qed simp

definition MEMORY :: "u8 list" where "MEMORY = [0x6D, 0x65, 0x6D, 0x6F, 0x72, 0x79]"

lemma memory_components: "components [] MEMORY_PATH = [MEMORY]"
  by (simp add: MEMORY_PATH_def MEMORY_def)

text \<open>C31. 
  The banks of memory the kernel gets are the ones the tree describes: those of the first child of the root called
  ``memory'', with or without a unit address, in the cells the root declares.
\<close>

theorem memory_banks:
  assumes "holds_tree (f_blob f) off (DNode root ps ks)"
    "List.find (\<lambda>k. name_matches (dt_name k) MEMORY) ks = Some k"
    "(REG, concat (map (enc_bank (cells_after DEFAULT_CELLS ps)) banks)) \<in> set (dt_props k)"
    "\<forall>x\<in>set banks. bank_fits (cells_after DEFAULT_CELLS ps) x"
    "0 < fst (cells_after DEFAULT_CELLS ps) + snd (cells_after DEFAULT_CELLS ps)"
    "fst (cells_after DEFAULT_CELLS ps) \<le> 2" "snd (cells_after DEFAULT_CELLS ps) \<le> 2"
  shows "fdt_memory f = Some banks"
proof -
  let ?b = "f_blob f" let ?c = "cells_after DEFAULT_CELLS ps"
  obtain nm kp js where k: "k = DNode nm kp js" by (cases k)
  have "map_option (view ?b) (find_node f MEMORY_PATH)
      = map_option fst (List.find (\<lambda>(v, names). match_path (tl names) [MEMORY]) (tree_view [] DEFAULT_CELLS (DNode root ps ks)))"
    using lookup_in_tree [OF assms(1), of MEMORY_PATH] by (simp add: memory_components)
  also have "\<dots> = Some (fst (hd (tree_view [root] ?c k)))" using find_child [of MEMORY root ?c ks] assms(2) by simp
  finally obtain n where n: "find_node f MEMORY_PATH = Some n" "shape ?b n = (nm, ?c, kp)"
    by (auto simp: k view_def)
  have "k \<in> set ks" using find_SomeD [OF assms(2)] by simp
  then have "tree_ok ?b off k" using assms(1) by (auto simp: holds_tree_def)
  then have "distinct (map fst kp)" by (simp add: k)
  then have "List.find (\<lambda>p. fst p = REG) kp = Some (REG, concat (map (enc_bank ?c) banks))"
    using assms(3) by (intro find_distinct) (simp_all add: k)
  then have "node_prop ?b n REG = Some (concat (map (enc_bank ?c) banks))" using n(2) by (simp add: node_prop_def shape_def)
  moreover have "reg_from (concat (map (enc_bank ?c) banks)) (fst ?c) (snd ?c) 0 = banks"
    by (rule reg_from_banks [OF assms(5-7) _ assms(4)]) (simp_all add: placed_def)
  ultimately show ?thesis using n by (simp add: fdt_memory_def node_reg_def shape_def)
qed

section \<open>A small blob\<close>

text \<open>A root with two cells for addresses and two for sizes, and one bank of memory below it.\<close>

definition demo_tree :: dtree where
  "demo_tree = DNode [] [(ADDRESS_CELLS, [0, 0, 0, 2]), (SIZE_CELLS, [0, 0, 0, 2])]
     [DNode (MEMORY @ [0x40, 0x34]) [(REG, [0, 0, 0, 0, 0x40, 0, 0, 0, 0, 0, 0, 0, 0x08, 0, 0, 0])] []]"

definition demo_off :: "u8 list \<Rightarrow> nat" where
  "demo_off name = (if name = ADDRESS_CELLS then 0 else if name = SIZE_CELLS then 15 else 27)"

definition demo_strings :: "u8 list" where
  "demo_strings = ADDRESS_CELLS @ [0] @ SIZE_CELLS @ [0] @ REG @ [0]"

definition demo_struct :: "u8 list" where
  "demo_struct = enc_node demo_off demo_tree @ be4 9"

definition demo_blob :: "u8 list" where
  "demo_blob = be4 0xD00DFEED @ be4 (56 + length demo_struct + length demo_strings) @ be4 56 @ be4 (56 + length demo_struct) @ be4 40
     @ be4 17 @ be4 16 @ be4 0 @ be4 (length demo_strings) @ be4 (length demo_struct) @ replicate 16 0 @ demo_struct @ demo_strings"

definition demo_fdt :: fdt where
  "demo_fdt = \<lparr>f_blob = \<lparr>b_data = demo_blob, struct_start = 56, struct_end = 56 + length demo_struct,
     strings_start = 56 + length demo_struct, strings_end = 56 + length demo_struct + length demo_strings\<rparr>,
     mem_rsvmap = 40, boot_cpuid = 0\<rparr>"

lemma demo_new: "fdt_new demo_blob = Inr demo_fdt"
  by code_simp

lemma demo_holds: "holds_tree (f_blob demo_fdt) demo_off demo_tree"
  by code_simp


theorem memory_banks_witness: "fdt_memory demo_fdt = Some [(0x40000000, 0x08000000)]"
proof (rule memory_banks)
  show "holds_tree (f_blob demo_fdt) demo_off (DNode (dt_name demo_tree) (dt_props demo_tree) (dt_kids demo_tree))" using demo_holds by simp
  show "List.find (\<lambda>k. name_matches (dt_name k) MEMORY) (dt_kids demo_tree) = Some (hd (dt_kids demo_tree))" by code_simp
  show "(REG, concat (map (enc_bank (cells_after DEFAULT_CELLS (dt_props demo_tree))) [(0x40000000, 0x08000000)])) \<in> set (dt_props (hd (dt_kids demo_tree)))"
    by code_simp
  show "\<forall>x\<in>set [(0x40000000, 0x08000000)]. bank_fits (cells_after DEFAULT_CELLS (dt_props demo_tree)) x" by code_simp
  show "0 < fst (cells_after DEFAULT_CELLS (dt_props demo_tree)) + snd (cells_after DEFAULT_CELLS (dt_props demo_tree))" by code_simp
  show "fst (cells_after DEFAULT_CELLS (dt_props demo_tree)) \<le> 2" by code_simp
  show "snd (cells_after DEFAULT_CELLS (dt_props demo_tree)) \<le> 2" by code_simp
qed

text \<open>A node the walk reaches in it.\<close>

theorem walk_stays_in_bounds_witness: "w_depth (snd (hd (walk_nodes (f_blob demo_fdt) (walk_new (f_blob demo_fdt))))) \<le> 32"
proof -
  let ?l = "walk_nodes (f_blob demo_fdt) (walk_new (f_blob demo_fdt))"
  have "?l \<noteq> []" using device_entries [OF demo_holds] by (auto simp: demo_tree_def)
  then have "(fst (hd ?l), snd (hd ?l)) \<in> set ?l" by simp
  from walk_stays_in_bounds [OF this] show ?thesis by simp
qed

end
