(* ===== verification/Clock.thy ===== *)
theory Clock
  imports Prelude
begin

text \<open>
  \<^verbatim>\<open>crates/hal/src/clock.rs\<close>: counter ticks to nanoseconds and back, over a fraction reduced once. The products are formed
  in 128 bits, where two 64-bit factors cannot overflow, so they are naturals; a \<^verbatim>\<open>u64\<close> is a natural below $2^{64}$.
\<close>

definition NANOS_PER_SEC :: nat where "NANOS_PER_SEC = 1000000000"
definition U64_LAST :: nat where "U64_LAST = 2 ^ 64 - 1"

record tick_scale =
  scale_num :: nat
  scale_den :: nat

text \<open>The loop of \<^verbatim>\<open>gcd\<close>.\<close>

fun euclid :: "nat \<Rightarrow> nat \<Rightarrow> nat" where
  "euclid a b = (if b = 0 then a else euclid b (a mod b))"

declare euclid.simps [simp del]

definition from_hz :: "nat \<Rightarrow> tick_scale option" where
  "from_hz freq =
     (if freq = 0 then None
      else let g = euclid NANOS_PER_SEC freq in Some \<lparr>scale_num = NANOS_PER_SEC div g, scale_den = freq div g\<rparr>)"

definition from_parts :: "nat \<Rightarrow> nat \<Rightarrow> tick_scale option" where
  "from_parts num den = (if den = 0 then None else Some \<lparr>scale_num = num, scale_den = den\<rparr>)"

definition is_exact :: "tick_scale \<Rightarrow> bool" where
  "is_exact s \<longleftrightarrow> scale_den s = 1"

definition nanos :: "tick_scale \<Rightarrow> nat \<Rightarrow> nat" where
  "nanos s t = (let ns = t * scale_num s div scale_den s in if U64_LAST < ns then U64_LAST else ns)"

definition div_ceil :: "nat \<Rightarrow> nat \<Rightarrow> nat" where
  "div_ceil a b = (a + (b - 1)) div b"

definition ticks :: "tick_scale \<Rightarrow> nat \<Rightarrow> nat" where
  "ticks s n = (let t = div_ceil (n * scale_den s) (scale_num s) in if U64_LAST < t then U64_LAST else t)"

section \<open>The scale\<close>

lemma euclid_gcd: "euclid a b = gcd a b"
  by (induction a b rule: euclid.induct) (subst euclid.simps, auto simp: gcd_red_nat [symmetric])

lemma from_hz_scale:
  assumes "from_hz freq = Some s"
  shows "0 < scale_num s" "0 < scale_den s" "coprime (scale_num s) (scale_den s)" "scale_num s * freq = NANOS_PER_SEC * scale_den s" "0 < freq"
proof -
  let ?g = "gcd NANOS_PER_SEC freq"
  have f: "0 < freq" and s: "s = \<lparr>scale_num = NANOS_PER_SEC div ?g, scale_den = freq div ?g\<rparr>"
    using assms by (auto simp: from_hz_def euclid_gcd Let_def split: if_splits)
  have g: "0 < ?g" "?g dvd NANOS_PER_SEC" "?g dvd freq" using f by simp_all
  show "0 < freq" by (rule f)
  show "0 < scale_num s" using g by (simp add: s div_greater_zero_iff dvd_imp_le NANOS_PER_SEC_def)
  show "0 < scale_den s" using g f by (simp add: s div_greater_zero_iff dvd_imp_le)
  show "coprime (scale_num s) (scale_den s)" using f div_gcd_coprime [of NANOS_PER_SEC freq] by (simp add: s)
  show "scale_num s * freq = NANOS_PER_SEC * scale_den s"
    using div_mult_swap [OF g(2), of freq] div_mult_swap [OF g(3), of NANOS_PER_SEC] by (simp add: s mult.commute)
qed

lemma nanos_of_freq:
  assumes "from_hz freq = Some s"
  shows "t * scale_num s div scale_den s = t * NANOS_PER_SEC div freq"
proof -
  note s = from_hz_scale [OF assms]
  have "t * scale_num s div scale_den s = t * scale_num s * freq div (scale_den s * freq)" using s(5) by simp
  also have "\<dots> = t * (scale_num s * freq) div (scale_den s * freq)" by (simp add: ac_simps)
  also have "\<dots> = t * NANOS_PER_SEC * scale_den s div (freq * scale_den s)" unfolding s(4) by (simp add: ac_simps)
  also have "\<dots> = t * NANOS_PER_SEC div freq" using s(2) by simp
  finally show ?thesis .
qed

lemma div_ceil_le: "0 < b \<Longrightarrow> div_ceil a b \<le> k \<longleftrightarrow> a \<le> k * b"
proof -
  assume b: "0 < b"
  have "div_ceil a b \<le> k \<longleftrightarrow> a + (b - 1) < Suc k * b" unfolding div_ceil_def
    using b by (metis less_Suc_eq_le less_mult_imp_div_less div_less_iff_less_mult)
  also have "\<dots> \<longleftrightarrow> a \<le> k * b" using b by auto
  finally show ?thesis .
qed

lemma clock_monotone: "t \<le> t' \<Longrightarrow> nanos s t \<le> nanos s t'"
proof -
  assume "t \<le> t'"
  then have "t * scale_num s div scale_den s \<le> t' * scale_num s div scale_den s" by (intro div_le_mono mult_le_mono1)
  then show ?thesis by (simp add: nanos_def Let_def)
qed



end
