(* ===== verification/Virtio.thy ===== *)
theory Virtio
  imports Bytes
begin

text \<open>
  \<^verbatim>\<open>crates/virtio/src/lib.rs\<close>: the layout of a split virtqueue, the registers of the MMIO transport, and the events and
  axes of an input device. Offsets and axis positions are naturals: a queue has at most 32768 entries and an axis is 32 bits
  wide, so nothing wraps in 64-bit arithmetic.
\<close>

section \<open>The transport\<close>

datatype virtio_reg =
    MAGIC | VERSION | DEVICE_ID | VENDOR_ID | DEVICE_FEATURES | DEVICE_FEATURES_SEL | DRIVER_FEATURES | DRIVER_FEATURES_SEL
  | GUEST_PAGE_SIZE | QUEUE_SEL | QUEUE_NUM_MAX | QUEUE_NUM | QUEUE_ALIGN | QUEUE_PFN | QUEUE_NOTIFY | INTERRUPT_STATUS
  | INTERRUPT_ACK | STATUS | CONFIG

fun reg_offset :: "virtio_reg \<Rightarrow> nat" where
  "reg_offset MAGIC = 0x000"
| "reg_offset VERSION = 0x004"
| "reg_offset DEVICE_ID = 0x008"
| "reg_offset VENDOR_ID = 0x00C"
| "reg_offset DEVICE_FEATURES = 0x010"
| "reg_offset DEVICE_FEATURES_SEL = 0x014"
| "reg_offset DRIVER_FEATURES = 0x020"
| "reg_offset DRIVER_FEATURES_SEL = 0x024"
| "reg_offset GUEST_PAGE_SIZE = 0x028"
| "reg_offset QUEUE_SEL = 0x030"
| "reg_offset QUEUE_NUM_MAX = 0x034"
| "reg_offset QUEUE_NUM = 0x038"
| "reg_offset QUEUE_ALIGN = 0x03C"
| "reg_offset QUEUE_PFN = 0x040"
| "reg_offset QUEUE_NOTIFY = 0x050"
| "reg_offset INTERRUPT_STATUS = 0x060"
| "reg_offset INTERRUPT_ACK = 0x064"
| "reg_offset STATUS = 0x070"
| "reg_offset CONFIG = 0x100"

section \<open>The queue\<close>

definition DESC_BYTES :: nat where "DESC_BYTES = 16"

record queue_layout =
  q_size :: nat
  q_avail :: nat
  q_used :: nat
  q_total :: nat

definition is_pow2 :: "nat \<Rightarrow> bool" where
  "is_pow2 n \<longleftrightarrow> n \<in> (\<lambda>k. 2 ^ k) ` set [0..<64]"

text \<open>The mask \<open>!(align - 1)\<close> of a power of two clears what is left of a division by it.\<close>

definition queue_new :: "nat \<Rightarrow> nat \<Rightarrow> queue_layout option" where
  "queue_new size' align =
     (if size' = 0 \<or> 32768 < size' \<or> \<not> is_pow2 size' \<or> align = 0 then None
      else if \<not> is_pow2 align then None
      else let avail = size' * DESC_BYTES; avail_end = avail + 6 + 2 * size';
               used = (avail_end + align - 1) div align * align
           in Some \<lparr>q_size = size', q_avail = avail, q_used = used, q_total = used + 6 + 8 * size'\<rparr>)"

definition desc_offset :: "queue_layout \<Rightarrow> nat" where "desc_offset q = 0"
definition queue_pages :: "queue_layout \<Rightarrow> nat" where "queue_pages q = (q_total q + 4095) div 4096"
definition avail_idx_offset :: "queue_layout \<Rightarrow> nat" where "avail_idx_offset q = q_avail q + 2"

definition avail_ring_offset :: "queue_layout \<Rightarrow> nat \<Rightarrow> nat" where
  "avail_ring_offset q slot = q_avail q + 4 + 2 * (slot mod q_size q)"

definition used_idx_offset :: "queue_layout \<Rightarrow> nat" where "used_idx_offset q = q_used q + 2"

definition used_ring_offset :: "queue_layout \<Rightarrow> nat \<Rightarrow> nat" where
  "used_ring_offset q slot = q_used q + 4 + 8 * (slot mod q_size q)"

section \<open>Events\<close>

record input_event =
  ev_kind :: u16
  ev_code :: u16
  ev_value :: u32

definition INPUT_EVENT_BYTES :: nat where "INPUT_EVENT_BYTES = 8"
definition EV_SYN :: u16 where "EV_SYN = 0"
definition EV_KEY :: u16 where "EV_KEY = 1"
definition EV_REL :: u16 where "EV_REL = 2"
definition EV_ABS :: u16 where "EV_ABS = 3"

definition event_parse :: "u8 list \<Rightarrow> input_event option" where
  "event_parse bs =
     (if length bs < INPUT_EVENT_BYTES then None
      else Some \<lparr>ev_kind = from_le (take 2 bs), ev_code = from_le (take 2 (drop 2 bs)), ev_value = from_le (take 4 (drop 4 bs))\<rparr>)"

definition is_key_press :: "input_event \<Rightarrow> bool" where
  "is_key_press e \<longleftrightarrow> ev_kind e = EV_KEY \<and> ev_value e \<noteq> 0"

definition is_button :: "u16 \<Rightarrow> bool" where
  "is_button code \<longleftrightarrow> 0x100 \<le> code"

text \<open>The whole chunks of \<open>n\<close> elements of a list, \<^verbatim>\<open>chunks_exact\<close>.\<close>

function chunks_exact :: "nat \<Rightarrow> 'a list \<Rightarrow> 'a list list" where
  "chunks_exact n xs = (if n = 0 \<or> length xs < n then [] else take n xs # chunks_exact n (drop n xs))"
  by pat_completeness auto
termination
  by (relation "measure (\<lambda>(n, xs). length xs)") auto

declare chunks_exact.simps [simp del]

definition parse_all :: "u8 list \<Rightarrow> input_event list" where
  "parse_all bs = List.map_filter event_parse (chunks_exact INPUT_EVENT_BYTES bs)"

section \<open>Axes\<close>

record abs_info =
  ab_min :: nat
  ab_max :: nat
  ab_fuzz :: nat
  ab_flat :: nat
  ab_res :: nat

definition ABS_INFO_BYTES :: nat where "ABS_INFO_BYTES = 20"
definition AXIS_SCALE :: nat where "AXIS_SCALE = 65535"

definition abs_parse :: "u8 list \<Rightarrow> abs_info option" where
  "abs_parse bs =
     (if length bs < ABS_INFO_BYTES then None
      else let w = (\<lambda>i. unat (from_le (take 4 (drop i bs)) :: u32))
           in Some \<lparr>ab_min = w 0, ab_max = w 4, ab_fuzz = w 8, ab_flat = w 12, ab_res = w 16\<rparr>)"

definition normalise :: "abs_info \<Rightarrow> nat \<Rightarrow> nat" where
  "normalise a v =
     (if ab_max a \<le> ab_min a then AXIS_SCALE div 2
      else let span = ab_max a - ab_min a; clamped = max (ab_min a) (min v (ab_max a)); offset = clamped - ab_min a
           in offset * AXIS_SCALE div span)"

datatype input_kind = Keyboard | Tablet | Mouse | Other

definition classify :: "bool \<Rightarrow> bool \<Rightarrow> bool \<Rightarrow> input_kind" where
  "classify has_abs has_rel has_key = (if has_abs then Tablet else if has_rel then Mouse else if has_key then Keyboard else Other)"

section \<open>The queue's regions\<close>

lemma round_up_bounds:
  assumes "0 < align"
  shows "n \<le> (n + align - 1) div align * align" "(n + align - 1) div align * align < n + align" "(n + align - 1) div align * align mod align = (0 :: nat)"
proof -
  have "n + align - 1 = (n + align - 1) div align * align + (n + align - 1) mod align" by simp
  moreover have "(n + align - 1) mod align < align" using assms by simp
  ultimately show "n \<le> (n + align - 1) div align * align" "(n + align - 1) div align * align < n + align" using assms by linarith+
qed simp

text \<open>
  The three regions of a queue follow one another without overlap: the descriptors, the driver's ring and the device's ring,
  which starts aligned. Whatever the free-running index, a slot's offset stays inside its ring, two slots share an offset
  only when the ring wraps, and the padding in front of the device's ring is less than the alignment.
\<close>

theorem queue_regions:
  assumes "queue_new n align = Some q"
  shows "desc_offset q + 16 * n = q_avail q \<and> q_avail q + 6 + 2 * n \<le> q_used q \<and> q_used q < q_avail q + 6 + 2 * n + align
    \<and> q_used q mod align = 0 \<and> q_total q = q_used q + 6 + 8 * n \<and> q_total q \<le> 4096 * queue_pages q
    \<and> avail_idx_offset q + 2 \<le> avail_ring_offset q slot \<and> avail_ring_offset q slot + 2 + 2 \<le> q_used q
    \<and> used_idx_offset q + 2 \<le> used_ring_offset q slot \<and> used_ring_offset q slot + 8 + 2 \<le> q_total q
    \<and> (avail_ring_offset q slot = avail_ring_offset q slot' \<longleftrightarrow> slot mod n = slot' mod n)
    \<and> (used_ring_offset q slot = used_ring_offset q slot' \<longleftrightarrow> slot mod n = slot' mod n)"
proof -
  define U where "U = (n * 16 + 6 + 2 * n + align - 1) div align * align"
  have ok: "\<not> (n = 0 \<or> 32768 < n \<or> \<not> is_pow2 n \<or> align = 0)"
  proof
    assume h: "n = 0 \<or> 32768 < n \<or> \<not> is_pow2 n \<or> align = 0"
    show False using assms unfolding queue_new_def if_P [OF h] by simp
  qed
  have pw: "is_pow2 align"
  proof (rule ccontr)
    assume h: "\<not> is_pow2 align"
    show False using assms unfolding queue_new_def if_not_P [OF ok] if_P [OF h] by simp
  qed
  then have pn: "\<not> \<not> is_pow2 align" by simp
  have n: "0 < n" and a: "0 < align" using ok by simp_all
  have q: "q = \<lparr>q_size = n, q_avail = n * 16, q_used = U, q_total = U + 6 + 8 * n\<rparr>"
    using assms unfolding queue_new_def if_not_P [OF ok] if_not_P [OF pn] DESC_BYTES_def Let_def U_def [symmetric]
    by (simp only: option.inject)
  have u: "n * 16 + 6 + 2 * n \<le> U" "U < n * 16 + 6 + 2 * n + align" "U mod align = 0"
    unfolding U_def by (rule round_up_bounds [OF a])+
  have s: "slot mod n < n" using n by simp
  have "m \<le> 4096 * ((m + 4095) div 4096)" for m :: nat
    using round_up_bounds(1) [of 4096 m] by (simp add: mult.commute)
  then have t: "U + 6 + 8 * n \<le> 4096 * ((U + 6 + 8 * n + 4095) div 4096)" .
  show ?thesis
    unfolding q desc_offset_def queue_pages_def avail_idx_offset_def avail_ring_offset_def used_idx_offset_def used_ring_offset_def
      queue_layout.select_convs
    by (intro conjI t u(3)) (use u s in \<open>simp_all\<close>)
qed

theorem queue_regions_witness:
  "\<exists>q. queue_new 8 4096 = Some q \<and> q_used q = 4096 \<and> used_ring_offset q 9 + 10 \<le> q_total q \<and> avail_ring_offset q 1 = avail_ring_offset q 9"
proof -
  have p: "is_pow2 8" "is_pow2 4096"
    unfolding is_pow2_def by (rule image_eqI [of _ _ 3], simp_all) (rule image_eqI [of _ _ 12], simp_all)
  then obtain q where q: "queue_new 8 4096 = Some q" "q_used q = 4096"
    by (simp add: queue_new_def DESC_BYTES_def Let_def)
  then show ?thesis using queue_regions [OF q(1), of 9 1] queue_regions [OF q(1), of 1 9] by (intro exI [of _ q]) auto
qed

section \<open>Events read back\<close>

definition event_bytes :: "input_event \<Rightarrow> u8 list" where
  "event_bytes e = le_bytes 2 (ev_kind e) @ le_bytes 2 (ev_code e) @ le_bytes 4 (ev_value e)"

lemma event_parse_bytes: "event_parse (event_bytes e @ rest) = Some e"
  by (simp add: event_parse_def event_bytes_def INPUT_EVENT_BYTES_def from_le_bytes take_bit_word_eq_self)

lemma chunks_exact_append: "0 < n \<Longrightarrow> length xs = n \<Longrightarrow> chunks_exact n (xs @ ys) = xs # chunks_exact n ys"
  by (subst chunks_exact.simps) simp

text \<open>Every event the device packed into a buffer is reported, in order; a partial one at the end is dropped.\<close>

theorem events_read_back:
  "parse_all (concat (map event_bytes es) @ replicate (k mod 8) b) = es"
proof (induction es)
  case Nil
  have "k mod 8 < 8" by simp
  then show ?case by (simp add: parse_all_def INPUT_EVENT_BYTES_def chunks_exact.simps map_filter_simps)
next
  case (Cons e es)
  have "length (event_bytes e) = 8" by (simp add: event_bytes_def)
  then have "parse_all (event_bytes e @ xs) = e # parse_all xs" for xs
    using event_parse_bytes [of e "[]"]
    by (simp add: parse_all_def INPUT_EVENT_BYTES_def chunks_exact_append map_filter_simps)
  then show ?case using Cons by simp
qed

section \<open>Positions\<close>

text \<open>A position is a fraction of its axis: within the scale, in the order of the raw values, with the ends of the range at its ends.\<close>

theorem normalise_fraction:
  "normalise a v \<le> AXIS_SCALE \<and> (v \<le> v' \<longrightarrow> normalise a v \<le> normalise a v')
   \<and> (ab_min a < ab_max a \<longrightarrow> (v \<le> ab_min a \<longrightarrow> normalise a v = 0) \<and> (ab_max a \<le> v \<longrightarrow> normalise a v = AXIS_SCALE))"
proof (cases "ab_max a \<le> ab_min a")
  case True
  then show ?thesis by (simp add: normalise_def)
next
  case False
  let ?s = "ab_max a - ab_min a" let ?o = "\<lambda>v. max (ab_min a) (min v (ab_max a)) - ab_min a"
  have s: "0 < ?s" using False by simp
  have n: "normalise a v = ?o v * AXIS_SCALE div ?s" for v using False by (simp add: normalise_def Let_def)
  have "?o v * AXIS_SCALE \<le> ?s * AXIS_SCALE" by (intro mult_le_mono1) auto
  then have "normalise a v \<le> ?s * AXIS_SCALE div ?s" unfolding n by (rule div_le_mono)
  then have "normalise a v \<le> AXIS_SCALE" using s by simp
  moreover have "normalise a v \<le> normalise a v'" if "v \<le> v'"
    unfolding n using that by (intro div_le_mono mult_le_mono1) auto
  moreover have "normalise a v = 0" if "v \<le> ab_min a" unfolding n using that by simp
  moreover have "normalise a v = AXIS_SCALE" if "ab_max a \<le> v" unfolding n using that s by simp
  ultimately show ?thesis by blast
qed

theorem normalise_fraction_witness:
  "normalise \<lparr>ab_min = 0, ab_max = 32767, ab_fuzz = 0, ab_flat = 0, ab_res = 0\<rparr> 40000 = AXIS_SCALE"
  using normalise_fraction [of "\<lparr>ab_min = 0, ab_max = 32767, ab_fuzz = 0, ab_flat = 0, ab_res = 0\<rparr>" 40000 40000] by simp

end
