(* ===== verification/Videocore.thy ===== *)
theory Videocore
  imports Prelude
begin

text \<open>
  \<^verbatim>\<open>crates/videocore/src/lib.rs\<close>: the property messages a Raspberry Pi's firmware is asked for a framebuffer with, and the
  reading of its answers. A message is its 32-bit words.
\<close>

definition CODE_REQUEST :: u32 where "CODE_REQUEST = 0"
definition CODE_SUCCESS :: u32 where "CODE_SUCCESS = 0x80000000"
definition TAG_SET_PHYSICAL_WH :: u32 where "TAG_SET_PHYSICAL_WH = 0x48003"
definition TAG_SET_VIRTUAL_WH :: u32 where "TAG_SET_VIRTUAL_WH = 0x48004"
definition TAG_SET_VIRTUAL_OFFSET :: u32 where "TAG_SET_VIRTUAL_OFFSET = 0x48009"
definition TAG_SET_DEPTH :: u32 where "TAG_SET_DEPTH = 0x48005"
definition TAG_SET_PIXEL_ORDER :: u32 where "TAG_SET_PIXEL_ORDER = 0x48006"
definition TAG_ALLOCATE_BUFFER :: u32 where "TAG_ALLOCATE_BUFFER = 0x40001"
definition TAG_GET_PITCH :: u32 where "TAG_GET_PITCH = 0x40008"
definition TAG_END :: u32 where "TAG_END = 0"
definition RESPONSE_BIT :: u32 where "RESPONSE_BIT = 0x80000000"
definition FB_MSG_WORDS :: nat where "FB_MSG_WORDS = 36"
definition PAGE_ALIGN :: u32 where "PAGE_ALIGN = 4096"
definition OFFSET_MSG_WORDS :: nat where "OFFSET_MSG_WORDS = 8"

lemmas tag_defs = TAG_SET_PHYSICAL_WH_def TAG_SET_VIRTUAL_WH_def TAG_SET_VIRTUAL_OFFSET_def TAG_SET_DEPTH_def
  TAG_SET_PIXEL_ORDER_def TAG_ALLOCATE_BUFFER_def TAG_GET_PITCH_def TAG_END_def

record fb_request =
  rq_width :: u32
  rq_height :: u32
  rq_depth :: u32
  rq_pixel_order :: u32
  rq_buffers :: u32

record fb_allocation =
  fa_bus_base :: u32
  fa_size :: u32
  fa_pitch :: u32
  fa_width :: u32
  fa_height :: u32

section \<open>Requests\<close>

definition put_tag :: "u32 list \<Rightarrow> nat \<Rightarrow> u32 \<Rightarrow> u32 list \<Rightarrow> u32 list \<times> nat" where
  "put_tag buf at ident vs =
     (let buf = buf[at := ident]; buf = buf[at + 1 := of_nat (length vs * 4)]; buf = buf[at + 2 := CODE_REQUEST]; start = at + 3
      in (take start buf @ vs @ drop (start + length vs) buf, start + length vs))"

text \<open>The end of a message: the end tag, and the size rounded up to sixteen bytes.\<close>

definition finish_message :: "u32 list \<times> nat \<Rightarrow> u32 list \<times> nat" where
  "finish_message m =
     (let (buf, at) = m; buf = buf[at := TAG_END]; at = at + 1; n = (at + 3) div 4 * 4
      in (buf[0 := of_nat (n * 4)], n * 4))"

text \<open>The product of the rows is checked: \<open>None\<close> where it overflows.\<close>

definition build_fb_message :: "fb_request \<Rightarrow> (u32 list \<times> nat) option" where
  "build_fb_message r =
     (if 2 ^ 32 \<le> unat (rq_height r) * unat (max (rq_buffers r) 1) then None
      else let buf = (replicate FB_MSG_WORDS 0)[1 := CODE_REQUEST];
               (buf, at) = put_tag buf 2 TAG_SET_PHYSICAL_WH [rq_width r, rq_height r];
               (buf, at) = put_tag buf at TAG_SET_VIRTUAL_WH [rq_width r, rq_height r * max (rq_buffers r) 1];
               (buf, at) = put_tag buf at TAG_SET_VIRTUAL_OFFSET [0, 0];
               (buf, at) = put_tag buf at TAG_SET_DEPTH [rq_depth r];
               (buf, at) = put_tag buf at TAG_SET_PIXEL_ORDER [rq_pixel_order r];
               (buf, at) = put_tag buf at TAG_ALLOCATE_BUFFER [PAGE_ALIGN, 0]
           in Some (finish_message (put_tag buf at TAG_GET_PITCH [0])))"

definition build_offset_message :: "u32 \<Rightarrow> u32 \<Rightarrow> u32 list \<times> nat" where
  "build_offset_message x y =
     finish_message (put_tag ((replicate OFFSET_MSG_WORDS 0)[1 := CODE_REQUEST]) 2 TAG_SET_VIRTUAL_OFFSET [x, y])"

section \<open>Answers\<close>

record prop_tag =
  tag_id :: u32
  tag_code :: u32
  tag_values :: "u32 list"

text \<open>The tags from a cursor on; a tag that runs past the buffer ends them.\<close>

function tags_from :: "u32 list \<Rightarrow> nat \<Rightarrow> prop_tag list" where
  "tags_from buf at =
     (case get buf at of None \<Rightarrow> [] | Some ident \<Rightarrow>
      if ident = TAG_END then []
      else case get buf (at + 1) of None \<Rightarrow> [] | Some value_bytes \<Rightarrow>
      case get buf (at + 2) of None \<Rightarrow> [] | Some code \<Rightarrow>
      let start = at + 3; stop = start + unat value_bytes div 4 in
      if length buf < stop then []
      else \<lparr>tag_id = ident, tag_code = code, tag_values = take (stop - start) (drop start buf)\<rparr> # tags_from buf stop)"
  by pat_completeness auto
termination
  by (relation "measure (\<lambda>(buf, at). length buf - at)") (auto simp: get_Some_iff)

declare tags_from.simps [simp del]

definition tags_of :: "u32 list \<Rightarrow> prop_tag list" where
  "tags_of buf = tags_from buf (min 2 (length buf))"

definition overall_code :: "u32 list \<Rightarrow> u32 option" where
  "overall_code buf = get buf 1"

definition tag_values_of :: "u32 list \<Rightarrow> u32 \<Rightarrow> u32 list option" where
  "tag_values_of buf ident = map_option tag_values (List.find (\<lambda>t. tag_id t = ident) (tags_of buf))"

definition answered :: "u32 list \<Rightarrow> bool" where
  "answered buf = (case overall_code buf of None \<Rightarrow> False | Some c \<Rightarrow> c AND RESPONSE_BIT \<noteq> 0)"

definition parse_fb_response :: "u32 list \<Rightarrow> fb_allocation option" where
  "parse_fb_response buf =
     (if \<not> answered buf then None
      else case (tag_values_of buf TAG_ALLOCATE_BUFFER, tag_values_of buf TAG_GET_PITCH, tag_values_of buf TAG_SET_PHYSICAL_WH) of
        (Some (base # sz # _), Some (pitch # _), Some (w # h # _)) \<Rightarrow>
          if base = 0 \<or> sz = 0 \<or> pitch = 0 \<or> w = 0 \<or> h = 0 then None
          else Some \<lparr>fa_bus_base = base, fa_size = sz, fa_pitch = pitch, fa_width = w, fa_height = h\<rparr>
      | _ \<Rightarrow> None)"

definition parse_offset_response :: "u32 list \<Rightarrow> (u32 \<times> u32) option" where
  "parse_offset_response buf =
     (if \<not> answered buf then None
      else case tag_values_of buf TAG_SET_VIRTUAL_OFFSET of Some (x # y # _) \<Rightarrow> Some (x, y) | _ \<Rightarrow> None)"

definition bus_to_phys :: "u32 \<Rightarrow> u32" where
  "bus_to_phys b = b AND 0x3FFFFFFF"

section \<open>The message and its answer\<close>

text \<open>The words of the message, tag by tag.\<close>

definition fb_words :: "fb_request \<Rightarrow> u32 list" where
  "fb_words r =
     [144, 0,
      TAG_SET_PHYSICAL_WH, 8, 0, rq_width r, rq_height r,
      TAG_SET_VIRTUAL_WH, 8, 0, rq_width r, rq_height r * max (rq_buffers r) 1,
      TAG_SET_VIRTUAL_OFFSET, 8, 0, 0, 0,
      TAG_SET_DEPTH, 4, 0, rq_depth r,
      TAG_SET_PIXEL_ORDER, 4, 0, rq_pixel_order r,
      TAG_ALLOCATE_BUFFER, 8, 0, PAGE_ALIGN, 0,
      TAG_GET_PITCH, 4, 0, 0,
      TAG_END, 0]"

lemma put_tag_append:
  assumes "length vs = k" "length pre = at"
  shows "put_tag (pre @ replicate (3 + k + n) 0) at ident vs = (pre @ ident # of_nat (k * 4) # 0 # vs @ replicate n 0, at + 3 + k)"
proof -
  have r: "replicate (3 + k + n) (0 :: u32) = 0 # 0 # 0 # replicate k 0 @ replicate n 0" by (simp add: replicate_add numeral_3_eq_3)
  have u: "(pre @ xs)[at + i := x] = pre @ xs[i := x]" for xs i and x :: u32 using assms(2) by (simp add: list_update_append)
  have u': "(pre @ xs)[at := x] = pre @ xs[0 := x]" "(pre @ xs)[Suc at := x] = pre @ xs[1 := x]"
      "(pre @ xs)[Suc (Suc at) := x] = pre @ xs[2 := x]" for xs and x :: u32
    using u [of xs 0 x] u [of xs 1 x] u [of xs 2 x] by simp_all
  show ?thesis using assms by (simp add: put_tag_def Let_def r u' CODE_REQUEST_def numeral_2_eq_2 numeral_3_eq_3)
qed

lemma finish_append:
  "length pre = at \<Longrightarrow> finish_message (s # pre @ replicate (Suc n) 0, Suc at) = (of_nat ((at + 5) div 4 * 4 * 4) # pre @ TAG_END # replicate n 0, (at + 5) div 4 * 4 * 4)"
  by (simp add: finish_message_def Let_def list_update_append add.commute)

lemma build_fb_words:
  assumes "unat (rq_height r) * unat (max (rq_buffers r) 1) < 2 ^ 32"
  shows "build_fb_message r = Some (fb_words r, 144)"
proof -
  have h: "\<not> 2 ^ 32 \<le> unat (rq_height r) * unat (max (rq_buffers r) 1)" using assms by simp
  let ?v = "rq_height r * max (rq_buffers r) 1"
  let ?p0 = "[0, 0] :: u32 list"
  let ?p1 = "?p0 @ [TAG_SET_PHYSICAL_WH, 8, 0, rq_width r, rq_height r]"
  let ?p2 = "?p1 @ [TAG_SET_VIRTUAL_WH, 8, 0, rq_width r, ?v]"
  let ?p3 = "?p2 @ [TAG_SET_VIRTUAL_OFFSET, 8, 0, 0, 0]"
  let ?p4 = "?p3 @ [TAG_SET_DEPTH, 4, 0, rq_depth r]"
  let ?p5 = "?p4 @ [TAG_SET_PIXEL_ORDER, 4, 0, rq_pixel_order r]"
  let ?p6 = "?p5 @ [TAG_ALLOCATE_BUFFER, 8, 0, PAGE_ALIGN, 0]"
  let ?p7 = "?p6 @ [TAG_GET_PITCH, 4, 0, 0]"
  have rep: "(replicate FB_MSG_WORDS 0)[1 := CODE_REQUEST] = ?p0 @ replicate 34 0"
    using replicate_add [of 2 34 "0 :: u32"] by (simp add: FB_MSG_WORDS_def CODE_REQUEST_def numeral_2_eq_2)
  have 1: "put_tag (?p0 @ replicate 34 0) 2 TAG_SET_PHYSICAL_WH [rq_width r, rq_height r] = (?p1 @ replicate 29 0, 7)"
    using put_tag_append [of "[rq_width r, rq_height r]" 2 ?p0 2 29] by simp
  have 2: "put_tag (?p1 @ replicate 29 0) 7 TAG_SET_VIRTUAL_WH [rq_width r, ?v] = (?p2 @ replicate 24 0, 12)"
    using put_tag_append [of "[rq_width r, ?v]" 2 ?p1 7 24] by simp
  have 3: "put_tag (?p2 @ replicate 24 0) 12 TAG_SET_VIRTUAL_OFFSET [0, 0] = (?p3 @ replicate 19 0, 17)"
    using put_tag_append [of "[0, 0]" 2 ?p2 12 19] by simp
  have 4: "put_tag (?p3 @ replicate 19 0) 17 TAG_SET_DEPTH [rq_depth r] = (?p4 @ replicate 15 0, 21)"
    using put_tag_append [of "[rq_depth r]" 1 ?p3 17 15] by simp
  have 5: "put_tag (?p4 @ replicate 15 0) 21 TAG_SET_PIXEL_ORDER [rq_pixel_order r] = (?p5 @ replicate 11 0, 25)"
    using put_tag_append [of "[rq_pixel_order r]" 1 ?p4 21 11] by simp
  have 6: "put_tag (?p5 @ replicate 11 0) 25 TAG_ALLOCATE_BUFFER [PAGE_ALIGN, 0] = (?p6 @ replicate 6 0, 30)"
    using put_tag_append [of "[PAGE_ALIGN, 0]" 2 ?p5 25 6] by simp
  have 7: "put_tag (?p6 @ replicate 6 0) 30 TAG_GET_PITCH [0] = (?p7 @ replicate 2 0, 34)"
    using put_tag_append [of "[0]" 1 ?p6 30 2] by simp
  have 8: "finish_message (?p7 @ replicate 2 0, 34) = (fb_words r, 144)"
    using finish_append [of "tl ?p7" 33 0 1] by (simp add: fb_words_def numeral_2_eq_2)
  show ?thesis unfolding build_fb_message_def if_not_P [OF h] Let_def rep prod.case 1 2 3 4 5 6 7 8 ..
qed

text \<open>The words the firmware leaves as they are: the identifiers and sizes of the tags, and the end.\<close>

definition layout_words :: "nat list" where
  "layout_words = [2, 3, 7, 8, 12, 13, 17, 18, 21, 22, 25, 26, 30, 31, 34]"

definition same_layout :: "u32 list \<Rightarrow> u32 list \<Rightarrow> bool" where
  "same_layout a b \<longleftrightarrow> length a = length b \<and> (\<forall>i\<in>set layout_words. a ! i = b ! i)"

lemma tags_step:
  assumes "at + 3 + k \<le> length b" "b ! at = ident" "ident \<noteq> TAG_END" "unat (b ! (at + 1)) div 4 = k"
  shows "tags_from b at = \<lparr>tag_id = ident, tag_code = b ! (at + 2), tag_values = take k (drop (at + 3) b)\<rparr> # tags_from b (at + 3 + k)"
proof -
  have g: "get b at = Some ident" "get b (at + 1) = Some (b ! (at + 1))" "get b (at + 2) = Some (b ! (at + 2))"
    using assms(1,2) by (simp_all add: get_Some_iff)
  have "\<not> length b < at + 3 + k" using assms(1) by simp
  then show ?thesis unfolding tags_from.simps [of b at] g option.case Let_def assms(4) if_not_P [OF assms(3)] by simp
qed

lemma tags_stop:
  assumes "at < length b" "b ! at = TAG_END"
  shows "tags_from b at = []"
proof -
  have g: "get b at = Some TAG_END" using assms by (simp add: get_Some_iff)
  show ?thesis unfolding tags_from.simps [of b at] g by simp
qed

lemma two_words: "i + 2 \<le> length b \<Longrightarrow> take 2 (drop i b) = [b ! i, b ! (i + 1)]"
  using Cons_nth_drop_Suc [of i b, symmetric] Cons_nth_drop_Suc [of "Suc i" b, symmetric] by simp

lemma one_word: "i < length b \<Longrightarrow> take 1 (drop i b) = [b ! i]"
  by (simp add: take_Suc_conv_app_nth)

lemma reply_tags:
  assumes "same_layout b (fb_words r)"
  shows "tags_of b =
    [\<lparr>tag_id = TAG_SET_PHYSICAL_WH, tag_code = b ! 4, tag_values = [b ! 5, b ! 6]\<rparr>,
     \<lparr>tag_id = TAG_SET_VIRTUAL_WH, tag_code = b ! 9, tag_values = [b ! 10, b ! 11]\<rparr>,
     \<lparr>tag_id = TAG_SET_VIRTUAL_OFFSET, tag_code = b ! 14, tag_values = [b ! 15, b ! 16]\<rparr>,
     \<lparr>tag_id = TAG_SET_DEPTH, tag_code = b ! 19, tag_values = [b ! 20]\<rparr>,
     \<lparr>tag_id = TAG_SET_PIXEL_ORDER, tag_code = b ! 23, tag_values = [b ! 24]\<rparr>,
     \<lparr>tag_id = TAG_ALLOCATE_BUFFER, tag_code = b ! 27, tag_values = [b ! 28, b ! 29]\<rparr>,
     \<lparr>tag_id = TAG_GET_PITCH, tag_code = b ! 32, tag_values = [b ! 33]\<rparr>]"
proof -
  have len: "length b = 36" using assms by (simp add: same_layout_def fb_words_def)
  have at: "b ! 2 = TAG_SET_PHYSICAL_WH" "b ! 3 = 8" "b ! 7 = TAG_SET_VIRTUAL_WH" "b ! 8 = 8" "b ! 12 = TAG_SET_VIRTUAL_OFFSET" "b ! 13 = 8"
      "b ! 17 = TAG_SET_DEPTH" "b ! 18 = 4" "b ! 21 = TAG_SET_PIXEL_ORDER" "b ! 22 = 4" "b ! 25 = TAG_ALLOCATE_BUFFER" "b ! 26 = 8"
      "b ! 30 = TAG_GET_PITCH" "b ! 31 = 4" "b ! 34 = TAG_END"
    using assms by (simp_all add: same_layout_def layout_words_def fb_words_def)
  have ne: "TAG_SET_PHYSICAL_WH \<noteq> TAG_END" "TAG_SET_VIRTUAL_WH \<noteq> TAG_END" "TAG_SET_VIRTUAL_OFFSET \<noteq> TAG_END" "TAG_SET_DEPTH \<noteq> TAG_END"
      "TAG_SET_PIXEL_ORDER \<noteq> TAG_END" "TAG_ALLOCATE_BUFFER \<noteq> TAG_END" "TAG_GET_PITCH \<noteq> TAG_END"
    by (simp_all add: tag_defs)
  have w: "take 2 (drop 5 b) = [b ! 5, b ! 6]" "take 2 (drop 10 b) = [b ! 10, b ! 11]" "take 2 (drop 15 b) = [b ! 15, b ! 16]"
      "take 2 (drop 28 b) = [b ! 28, b ! 29]"
    using two_words [of 5 b] two_words [of 10 b] two_words [of 15 b] two_words [of 28 b] len by simp_all
  have w1: "take 1 (drop 20 b) = [b ! 20]" "take 1 (drop 24 b) = [b ! 24]" "take 1 (drop 33 b) = [b ! 33]"
    by (rule one_word, simp add: len)+
  have 7: "tags_from b 34 = []" by (rule tags_stop) (simp_all add: len at)
  have 6: "tags_from b 30 = \<lparr>tag_id = TAG_GET_PITCH, tag_code = b ! 32, tag_values = take 1 (drop 33 b)\<rparr> # tags_from b 34"
    using tags_step [of 30 1 b TAG_GET_PITCH] by (simp add: len at ne)
  have 5: "tags_from b 25 = \<lparr>tag_id = TAG_ALLOCATE_BUFFER, tag_code = b ! 27, tag_values = take 2 (drop 28 b)\<rparr> # tags_from b 30"
    using tags_step [of 25 2 b TAG_ALLOCATE_BUFFER] by (simp add: len at ne)
  have 4: "tags_from b 21 = \<lparr>tag_id = TAG_SET_PIXEL_ORDER, tag_code = b ! 23, tag_values = take 1 (drop 24 b)\<rparr> # tags_from b 25"
    using tags_step [of 21 1 b TAG_SET_PIXEL_ORDER] by (simp add: len at ne)
  have 3: "tags_from b 17 = \<lparr>tag_id = TAG_SET_DEPTH, tag_code = b ! 19, tag_values = take 1 (drop 20 b)\<rparr> # tags_from b 21"
    using tags_step [of 17 1 b TAG_SET_DEPTH] by (simp add: len at ne)
  have 2: "tags_from b 12 = \<lparr>tag_id = TAG_SET_VIRTUAL_OFFSET, tag_code = b ! 14, tag_values = take 2 (drop 15 b)\<rparr> # tags_from b 17"
    using tags_step [of 12 2 b TAG_SET_VIRTUAL_OFFSET] by (simp add: len at ne)
  have 1: "tags_from b 7 = \<lparr>tag_id = TAG_SET_VIRTUAL_WH, tag_code = b ! 9, tag_values = take 2 (drop 10 b)\<rparr> # tags_from b 12"
    using tags_step [of 7 2 b TAG_SET_VIRTUAL_WH] by (simp add: len at ne)
  have 0: "tags_from b 2 = \<lparr>tag_id = TAG_SET_PHYSICAL_WH, tag_code = b ! 4, tag_values = take 2 (drop 5 b)\<rparr> # tags_from b 7"
    using tags_step [of 2 2 b TAG_SET_PHYSICAL_WH] by (simp add: len at ne)
  show ?thesis by (simp only: tags_of_def len 0 1 2 3 4 5 6 7 w w1) (simp add: 0 [unfolded w] 1 [unfolded w] 2 [unfolded w] 3 [unfolded w1] 4 [unfolded w1] 5 [unfolded w] 6 [unfolded w1] 7)
qed

text \<open>
  The firmware answers in place: it keeps the tags and writes their values. Whatever it answers, the allocation read back is
  the base, the size, the pitch and the geometry it wrote, and there is one exactly when the answer is marked as one and none
  of these is zero.
\<close>

theorem framebuffer_answer:
  assumes "build_fb_message r = Some (m, n)" "same_layout b m"
  shows "n = 144 \<and> length m = FB_MSG_WORDS \<and>
    parse_fb_response b =
      (if b ! 1 AND RESPONSE_BIT = 0 \<or> 0 \<in> {b ! 28, b ! 29, b ! 33, b ! 5, b ! 6} then None
       else Some \<lparr>fa_bus_base = b ! 28, fa_size = b ! 29, fa_pitch = b ! 33, fa_width = b ! 5, fa_height = b ! 6\<rparr>)"
proof -
  have "unat (rq_height r) * unat (max (rq_buffers r) 1) < 2 ^ 32"
    using assms(1) by (rule contrapos_pp) (simp add: build_fb_message_def)
  then have m: "m = fb_words r" "n = 144" using assms(1) by (simp_all add: build_fb_words)
  have l: "same_layout b (fb_words r)" using assms(2) m by simp
  have "length b = 36" using l by (simp add: same_layout_def fb_words_def)
  then have "overall_code b = Some (b ! 1)" by (simp add: overall_code_def get_Some_iff)
  moreover have "tag_values_of b TAG_ALLOCATE_BUFFER = Some [b ! 28, b ! 29]" "tag_values_of b TAG_GET_PITCH = Some [b ! 33]"
      "tag_values_of b TAG_SET_PHYSICAL_WH = Some [b ! 5, b ! 6]"
    by (simp_all add: tag_values_of_def reply_tags [OF l] tag_defs)
  ultimately show ?thesis by (auto simp: parse_fb_response_def answered_def m fb_words_def FB_MSG_WORDS_def)
qed

definition demo_request :: fb_request where
  "demo_request = \<lparr>rq_width = 1920, rq_height = 1080, rq_depth = 32, rq_pixel_order = 1, rq_buffers = 2\<rparr>"

definition demo_reply :: "u32 list" where
  "demo_reply = (fb_words demo_request)[1 := CODE_SUCCESS, 28 := 0xFE000000, 29 := 16588800, 33 := 7680]"

theorem framebuffer_answer_witness:
  "map_option (\<lambda>a. (bus_to_phys (fa_bus_base a), fa_pitch a, fa_height a)) (parse_fb_response demo_reply) = Some (0x3E000000, 7680, 1080)"
proof -
  have b: "build_fb_message demo_request = Some (fb_words demo_request, 144)"
    by (rule build_fb_words) (simp add: demo_request_def max_def)
  have l: "same_layout demo_reply (fb_words demo_request)"
    by (simp add: same_layout_def demo_reply_def layout_words_def)
  have v: "demo_reply ! 1 = CODE_SUCCESS" "demo_reply ! 28 = 0xFE000000" "demo_reply ! 29 = 16588800" "demo_reply ! 33 = 7680"
      "demo_reply ! 5 = 1920" "demo_reply ! 6 = 1080"
    by (simp_all add: demo_reply_def fb_words_def demo_request_def)
  show ?thesis using framebuffer_answer [OF b l] by (simp add: v del: One_nat_def) (simp add: CODE_SUCCESS_def RESPONSE_BIT_def bus_to_phys_def)
qed

text \<open>The message that moves the window, and its answer.\<close>

theorem offset_message:
  "build_offset_message x y = ([32, 0, TAG_SET_VIRTUAL_OFFSET, 8, 0, x, y, TAG_END], 32)
   \<and> parse_offset_response ((fst (build_offset_message x y))[1 := CODE_SUCCESS, 5 := x', 6 := y']) = Some (x', y')"
proof -
  have rep: "(replicate OFFSET_MSG_WORDS 0)[1 := CODE_REQUEST] = [0, 0] @ replicate (3 + 2 + 1) (0 :: u32)"
    by (simp add: OFFSET_MSG_WORDS_def CODE_REQUEST_def numeral_eq_Suc)
  have b: "build_offset_message x y = ([32, 0, TAG_SET_VIRTUAL_OFFSET, 8, 0, x, y, TAG_END], 32)"
    using put_tag_append [of "[x, y]" 2 "[0, 0]" 2 1 TAG_SET_VIRTUAL_OFFSET] finish_append [of "[0, TAG_SET_VIRTUAL_OFFSET, 8, 0, x, y]" 6 0 0]
    unfolding build_offset_message_def rep by simp
  let ?b = "[32, CODE_SUCCESS, TAG_SET_VIRTUAL_OFFSET, 8, 0, x', y', TAG_END]"
  have "tags_from ?b 2 = [\<lparr>tag_id = TAG_SET_VIRTUAL_OFFSET, tag_code = 0, tag_values = [x', y']\<rparr>]"
    using tags_step [of 2 2 ?b TAG_SET_VIRTUAL_OFFSET] tags_stop [of 7 ?b] by (simp add: tag_defs)
  moreover have "tags_of ?b = tags_from ?b 2" by (simp add: tags_of_def numeral_2_eq_2)
  ultimately have "tag_values_of ?b TAG_SET_VIRTUAL_OFFSET = Some [x', y']" by (simp add: tag_values_of_def)
  moreover have "overall_code ?b = Some CODE_SUCCESS" by (simp add: overall_code_def get_Some_iff)
  then have "answered ?b" by (simp add: answered_def CODE_SUCCESS_def RESPONSE_BIT_def)
  ultimately show ?thesis by (simp add: b parse_offset_response_def)
qed

end
