(* ===== verification/Framebuffer.thy ===== *)
theory Framebuffer
  imports Bytes
begin

text \<open>
  \<^verbatim>\<open>crates/framebuffer/src\<close>: a linear framebuffer and the scrolling text console drawn on it. The buffer is the list of its
  bytes; coordinates and offsets are naturals, since a buffer that exists is smaller than $2^{63}$ bytes and \<^verbatim>\<open>new\<close> checks
  the products. Where the source would index outside the buffer and panic the result is a \<open>fault\<close>; the tab loop, which need
  not end, is a partial function.
\<close>

section \<open>Colours\<close>

record pixel_format =
  bytes_per_pixel :: nat
  red_shift :: nat
  red_bits :: nat
  green_shift :: nat
  green_bits :: nat
  blue_shift :: nat
  blue_bits :: nat

definition xrgb8888 :: pixel_format where
  "xrgb8888 = \<lparr>bytes_per_pixel = 4, red_shift = 16, red_bits = 8, green_shift = 8, green_bits = 8, blue_shift = 0, blue_bits = 8\<rparr>"

definition xbgr8888 :: pixel_format where
  "xbgr8888 = \<lparr>bytes_per_pixel = 4, red_shift = 0, red_bits = 8, green_shift = 8, green_bits = 8, blue_shift = 16, blue_bits = 8\<rparr>"

definition rgb565 :: pixel_format where
  "rgb565 = \<lparr>bytes_per_pixel = 2, red_shift = 11, red_bits = 5, green_shift = 5, green_bits = 6, blue_shift = 0, blue_bits = 5\<rparr>"

record rgb =
  red :: u8
  green :: u8
  blue :: u8

definition rgb_new :: "u8 \<Rightarrow> u8 \<Rightarrow> u8 \<Rightarrow> rgb" where
  "rgb_new r g b = \<lparr>red = r, green = g, blue = b\<rparr>"

definition BLACK :: rgb where "BLACK = rgb_new 0 0 0"
definition LIGHT_GREY :: rgb where "LIGHT_GREY = rgb_new 0xC0 0xC0 0xC0"
definition GREEN :: rgb where "GREEN = rgb_new 0x33 0xFF 0x66"
definition RED :: rgb where "RED = rgb_new 0xFF 0x33 0x33"

definition encode :: "pixel_format \<Rightarrow> rgb \<Rightarrow> u32" where
  "encode f c =
     (let r = drop_bit (8 - red_bits f) (ucast (red c)); g = drop_bit (8 - green_bits f) (ucast (green c));
          b = drop_bit (8 - blue_bits f) (ucast (blue c))
      in push_bit (red_shift f) r OR push_bit (green_shift f) g OR push_bit (blue_shift f) b)"

section \<open>The framebuffer\<close>

record framebuffer =
  fb_buf :: "u8 list"
  fb_width :: nat
  fb_height :: nat
  fb_pitch :: nat
  fb_format :: pixel_format

definition checked_usize :: "nat \<Rightarrow> nat option" where
  "checked_usize n = (if n < 2 ^ 64 then Some n else None)"

definition fb_new :: "u8 list \<Rightarrow> nat \<Rightarrow> nat \<Rightarrow> nat \<Rightarrow> pixel_format \<Rightarrow> framebuffer option" where
  "fb_new buf width height pitch f =
     (let bpp = bytes_per_pixel f in
      if bpp = 0 then None
      else case checked_usize (width * bpp) of None \<Rightarrow> None | Some span \<Rightarrow>
        if pitch < span \<or> height = 0 then None
        else case checked_usize ((height - 1) * pitch) of None \<Rightarrow> None | Some last_row \<Rightarrow>
          case checked_usize (last_row + span) of None \<Rightarrow> None | Some need \<Rightarrow>
            if length buf < need then None
            else Some \<lparr>fb_buf = buf, fb_width = width, fb_height = height, fb_pitch = pitch, fb_format = f\<rparr>)"

definition write_at :: "u8 list \<Rightarrow> nat \<Rightarrow> u8 list \<Rightarrow> u8 list" where
  "write_at buf off bs = take off buf @ bs @ drop (off + length bs) buf"

definition pixel_bytes :: "pixel_format \<Rightarrow> rgb \<Rightarrow> u8 list" where
  "pixel_bytes f c = take (bytes_per_pixel f) (le_bytes 4 (encode f c))"

definition put_pixel :: "nat \<Rightarrow> nat \<Rightarrow> rgb \<Rightarrow> framebuffer \<Rightarrow> framebuffer" where
  "put_pixel x y c fb =
     (if fb_width fb \<le> x \<or> fb_height fb \<le> y then fb
      else let bpp = bytes_per_pixel (fb_format fb); off = y * fb_pitch fb + x * bpp
           in if off + bpp \<le> length (fb_buf fb) then fb\<lparr>fb_buf := write_at (fb_buf fb) off (pixel_bytes (fb_format fb) c)\<rparr> else fb)"

text \<open>The loop over the rows to paint: a row that does not fit ends it.\<close>

fun fill_loop :: "u8 list \<Rightarrow> nat list \<Rightarrow> framebuffer \<Rightarrow> framebuffer" where
  "fill_loop px [] fb = fb"
| "fill_loop px (y # ys) fb =
     (let span = fb_width fb * bytes_per_pixel (fb_format fb); off = y * fb_pitch fb in
      if off + span \<le> length (fb_buf fb)
      then fill_loop px ys (fb\<lparr>fb_buf := write_at (fb_buf fb) off (concat (replicate (fb_width fb) px))\<rparr>)
      else fb)"

definition fill_rows :: "nat \<Rightarrow> nat \<Rightarrow> rgb \<Rightarrow> framebuffer \<Rightarrow> framebuffer" where
  "fill_rows first count c fb = fill_loop (pixel_bytes (fb_format fb) c) [first..<min (first + count) (fb_height fb)] fb"

definition clear :: "rgb \<Rightarrow> framebuffer \<Rightarrow> framebuffer" where
  "clear c fb = fill_rows 0 (fb_height fb) c fb"

definition GLYPH_WIDTH :: nat where "GLYPH_WIDTH = 8"
definition GLYPH_HEIGHT :: nat where "GLYPH_HEIGHT = 8"

definition draw_glyph :: "nat \<Rightarrow> nat \<Rightarrow> u8 list \<Rightarrow> rgb \<Rightarrow> rgb \<Rightarrow> framebuffer \<Rightarrow> framebuffer" where
  "draw_glyph ox oy rows fg bg fb =
     fold (\<lambda>(row, byte). fold (\<lambda>col. put_pixel (ox + col) (oy + row) (if byte AND push_bit col 1 \<noteq> 0 then fg else bg)) [0..<GLYPH_WIDTH])
          (enumerate 0 rows) fb"

datatype fault = Out_of_range

text \<open>\<^verbatim>\<open>copy_within\<close> checks its range against the buffer.\<close>

definition scroll_up :: "nat \<Rightarrow> rgb \<Rightarrow> framebuffer \<Rightarrow> fault + framebuffer" where
  "scroll_up rows bg fb =
     (if rows = 0 \<or> fb_height fb \<le> rows then Inr (clear bg fb)
      else let shift = rows * fb_pitch fb; stop = fb_height fb * fb_pitch fb in
        if length (fb_buf fb) < stop then Inl Out_of_range
        else Inr (fill_rows (fb_height fb - rows) rows bg (fb\<lparr>fb_buf := write_at (fb_buf fb) 0 (take (stop - shift) (drop shift (fb_buf fb)))\<rparr>)))"

section \<open>The font\<close>

definition BASIC :: "u8 list list" where
  "BASIC =
     [[0x00, 0x00, 0x00, 0x00, 0x00, 0x00, 0x00, 0x00],
      [0x18, 0x3C, 0x3C, 0x18, 0x18, 0x00, 0x18, 0x00],
      [0x36, 0x36, 0x00, 0x00, 0x00, 0x00, 0x00, 0x00],
      [0x36, 0x36, 0x7F, 0x36, 0x7F, 0x36, 0x36, 0x00],
      [0x0C, 0x3E, 0x03, 0x1E, 0x30, 0x1F, 0x0C, 0x00],
      [0x00, 0x63, 0x33, 0x18, 0x0C, 0x66, 0x63, 0x00],
      [0x1C, 0x36, 0x1C, 0x6E, 0x3B, 0x33, 0x6E, 0x00],
      [0x06, 0x06, 0x03, 0x00, 0x00, 0x00, 0x00, 0x00],
      [0x18, 0x0C, 0x06, 0x06, 0x06, 0x0C, 0x18, 0x00],
      [0x06, 0x0C, 0x18, 0x18, 0x18, 0x0C, 0x06, 0x00],
      [0x00, 0x66, 0x3C, 0xFF, 0x3C, 0x66, 0x00, 0x00],
      [0x00, 0x0C, 0x0C, 0x3F, 0x0C, 0x0C, 0x00, 0x00],
      [0x00, 0x00, 0x00, 0x00, 0x00, 0x0E, 0x0C, 0x06],
      [0x00, 0x00, 0x00, 0x3F, 0x00, 0x00, 0x00, 0x00],
      [0x00, 0x00, 0x00, 0x00, 0x00, 0x0C, 0x0C, 0x00],
      [0x60, 0x30, 0x18, 0x0C, 0x06, 0x03, 0x01, 0x00],
      [0x3E, 0x63, 0x73, 0x7B, 0x6F, 0x67, 0x3E, 0x00],
      [0x0C, 0x0E, 0x0C, 0x0C, 0x0C, 0x0C, 0x3F, 0x00],
      [0x1E, 0x33, 0x30, 0x1C, 0x06, 0x33, 0x3F, 0x00],
      [0x1E, 0x33, 0x30, 0x1C, 0x30, 0x33, 0x1E, 0x00],
      [0x38, 0x3C, 0x36, 0x33, 0x7F, 0x30, 0x78, 0x00],
      [0x3F, 0x03, 0x1F, 0x30, 0x30, 0x33, 0x1E, 0x00],
      [0x1C, 0x06, 0x03, 0x1F, 0x33, 0x33, 0x1E, 0x00],
      [0x3F, 0x33, 0x30, 0x18, 0x0C, 0x0C, 0x0C, 0x00],
      [0x1E, 0x33, 0x33, 0x1E, 0x33, 0x33, 0x1E, 0x00],
      [0x1E, 0x33, 0x33, 0x3E, 0x30, 0x18, 0x0E, 0x00],
      [0x00, 0x0C, 0x0C, 0x00, 0x00, 0x0C, 0x0C, 0x00],
      [0x00, 0x0C, 0x0C, 0x00, 0x00, 0x0C, 0x0C, 0x06],
      [0x18, 0x0C, 0x06, 0x03, 0x06, 0x0C, 0x18, 0x00],
      [0x00, 0x00, 0x3F, 0x00, 0x00, 0x3F, 0x00, 0x00],
      [0x06, 0x0C, 0x18, 0x30, 0x18, 0x0C, 0x06, 0x00],
      [0x1E, 0x33, 0x30, 0x18, 0x0C, 0x00, 0x0C, 0x00],
      [0x3E, 0x63, 0x7B, 0x7B, 0x7B, 0x03, 0x1E, 0x00],
      [0x0C, 0x1E, 0x33, 0x33, 0x3F, 0x33, 0x33, 0x00],
      [0x3F, 0x66, 0x66, 0x3E, 0x66, 0x66, 0x3F, 0x00],
      [0x3C, 0x66, 0x03, 0x03, 0x03, 0x66, 0x3C, 0x00],
      [0x1F, 0x36, 0x66, 0x66, 0x66, 0x36, 0x1F, 0x00],
      [0x7F, 0x46, 0x16, 0x1E, 0x16, 0x46, 0x7F, 0x00],
      [0x7F, 0x46, 0x16, 0x1E, 0x16, 0x06, 0x0F, 0x00],
      [0x3C, 0x66, 0x03, 0x03, 0x73, 0x66, 0x7C, 0x00],
      [0x33, 0x33, 0x33, 0x3F, 0x33, 0x33, 0x33, 0x00],
      [0x1E, 0x0C, 0x0C, 0x0C, 0x0C, 0x0C, 0x1E, 0x00],
      [0x78, 0x30, 0x30, 0x30, 0x33, 0x33, 0x1E, 0x00],
      [0x67, 0x66, 0x36, 0x1E, 0x36, 0x66, 0x67, 0x00],
      [0x0F, 0x06, 0x06, 0x06, 0x46, 0x66, 0x7F, 0x00],
      [0x63, 0x77, 0x7F, 0x7F, 0x6B, 0x63, 0x63, 0x00],
      [0x63, 0x67, 0x6F, 0x7B, 0x73, 0x63, 0x63, 0x00],
      [0x1C, 0x36, 0x63, 0x63, 0x63, 0x36, 0x1C, 0x00],
      [0x3F, 0x66, 0x66, 0x3E, 0x06, 0x06, 0x0F, 0x00],
      [0x1E, 0x33, 0x33, 0x33, 0x3B, 0x1E, 0x38, 0x00],
      [0x3F, 0x66, 0x66, 0x3E, 0x36, 0x66, 0x67, 0x00],
      [0x1E, 0x33, 0x07, 0x0E, 0x38, 0x33, 0x1E, 0x00],
      [0x3F, 0x2D, 0x0C, 0x0C, 0x0C, 0x0C, 0x1E, 0x00],
      [0x33, 0x33, 0x33, 0x33, 0x33, 0x33, 0x3F, 0x00],
      [0x33, 0x33, 0x33, 0x33, 0x33, 0x1E, 0x0C, 0x00],
      [0x63, 0x63, 0x63, 0x6B, 0x7F, 0x77, 0x63, 0x00],
      [0x63, 0x63, 0x36, 0x1C, 0x1C, 0x36, 0x63, 0x00],
      [0x33, 0x33, 0x33, 0x1E, 0x0C, 0x0C, 0x1E, 0x00],
      [0x7F, 0x63, 0x31, 0x18, 0x4C, 0x66, 0x7F, 0x00],
      [0x1E, 0x06, 0x06, 0x06, 0x06, 0x06, 0x1E, 0x00],
      [0x03, 0x06, 0x0C, 0x18, 0x30, 0x60, 0x40, 0x00],
      [0x1E, 0x18, 0x18, 0x18, 0x18, 0x18, 0x1E, 0x00],
      [0x08, 0x1C, 0x36, 0x63, 0x00, 0x00, 0x00, 0x00],
      [0x00, 0x00, 0x00, 0x00, 0x00, 0x00, 0x00, 0xFF],
      [0x0C, 0x0C, 0x18, 0x00, 0x00, 0x00, 0x00, 0x00],
      [0x00, 0x00, 0x1E, 0x30, 0x3E, 0x33, 0x6E, 0x00],
      [0x07, 0x06, 0x06, 0x3E, 0x66, 0x66, 0x3B, 0x00],
      [0x00, 0x00, 0x1E, 0x33, 0x03, 0x33, 0x1E, 0x00],
      [0x38, 0x30, 0x30, 0x3E, 0x33, 0x33, 0x6E, 0x00],
      [0x00, 0x00, 0x1E, 0x33, 0x3F, 0x03, 0x1E, 0x00],
      [0x1C, 0x36, 0x06, 0x0F, 0x06, 0x06, 0x0F, 0x00],
      [0x00, 0x00, 0x6E, 0x33, 0x33, 0x3E, 0x30, 0x1F],
      [0x07, 0x06, 0x36, 0x6E, 0x66, 0x66, 0x67, 0x00],
      [0x0C, 0x00, 0x0E, 0x0C, 0x0C, 0x0C, 0x1E, 0x00],
      [0x30, 0x00, 0x30, 0x30, 0x30, 0x33, 0x33, 0x1E],
      [0x07, 0x06, 0x66, 0x36, 0x1E, 0x36, 0x67, 0x00],
      [0x0E, 0x0C, 0x0C, 0x0C, 0x0C, 0x0C, 0x1E, 0x00],
      [0x00, 0x00, 0x33, 0x7F, 0x7F, 0x6B, 0x63, 0x00],
      [0x00, 0x00, 0x1F, 0x33, 0x33, 0x33, 0x33, 0x00],
      [0x00, 0x00, 0x1E, 0x33, 0x33, 0x33, 0x1E, 0x00],
      [0x00, 0x00, 0x3B, 0x66, 0x66, 0x3E, 0x06, 0x0F],
      [0x00, 0x00, 0x6E, 0x33, 0x33, 0x3E, 0x30, 0x78],
      [0x00, 0x00, 0x3B, 0x6E, 0x66, 0x06, 0x0F, 0x00],
      [0x00, 0x00, 0x3E, 0x03, 0x1E, 0x30, 0x1F, 0x00],
      [0x08, 0x0C, 0x3E, 0x0C, 0x0C, 0x2C, 0x18, 0x00],
      [0x00, 0x00, 0x33, 0x33, 0x33, 0x33, 0x6E, 0x00],
      [0x00, 0x00, 0x33, 0x33, 0x33, 0x1E, 0x0C, 0x00],
      [0x00, 0x00, 0x63, 0x6B, 0x7F, 0x7F, 0x36, 0x00],
      [0x00, 0x00, 0x63, 0x36, 0x1C, 0x36, 0x63, 0x00],
      [0x00, 0x00, 0x33, 0x33, 0x33, 0x3E, 0x30, 0x1F],
      [0x00, 0x00, 0x3F, 0x19, 0x0C, 0x26, 0x3F, 0x00],
      [0x38, 0x0C, 0x0C, 0x07, 0x0C, 0x0C, 0x38, 0x00],
      [0x18, 0x18, 0x18, 0x00, 0x18, 0x18, 0x18, 0x00],
      [0x07, 0x0C, 0x0C, 0x38, 0x0C, 0x0C, 0x07, 0x00],
      [0x6E, 0x3B, 0x00, 0x00, 0x00, 0x00, 0x00, 0x00]]"

definition MISSING :: "u8 list" where
  "MISSING = [0x00, 0x7E, 0x7E, 0x7E, 0x7E, 0x7E, 0x7E, 0x00]"

definition glyph :: "u8 \<Rightarrow> u8 list" where
  "glyph b = (if 0x20 \<le> b \<and> b \<le> 0x7E then BASIC ! unat (b - 0x20) else MISSING)"

section \<open>The console\<close>

record console =
  con_fb :: framebuffer
  con_cols :: nat
  con_rows :: nat
  con_col :: nat
  con_row :: nat
  con_fg :: rgb
  con_bg :: rgb
  con_written :: nat

definition console_new :: "framebuffer \<Rightarrow> rgb \<Rightarrow> rgb \<Rightarrow> console" where
  "console_new fb fg bg =
     \<lparr>con_fb = clear bg fb, con_cols = fb_width fb div GLYPH_WIDTH, con_rows = fb_height fb div GLYPH_HEIGHT, con_col = 0, con_row = 0,
      con_fg = fg, con_bg = bg, con_written = 0\<rparr>"

definition set_fg :: "rgb \<Rightarrow> console \<Rightarrow> console" where
  "set_fg fg c = c\<lparr>con_fg := fg\<rparr>"

definition newline :: "console \<Rightarrow> fault + console" where
  "newline c =
     (let c = c\<lparr>con_col := 0\<rparr> in
      if con_rows c \<le> con_row c + 1
      then case scroll_up GLYPH_HEIGHT (con_bg c) (con_fb c) of Inl e \<Rightarrow> Inl e | Inr fb \<Rightarrow> Inr (c\<lparr>con_fb := fb\<rparr>)
      else Inr (c\<lparr>con_row := con_row c + 1\<rparr>))"

definition draw_cell :: "nat \<Rightarrow> nat \<Rightarrow> u8 \<Rightarrow> console \<Rightarrow> console" where
  "draw_cell col row b c =
     c\<lparr>con_fb := draw_glyph (col * GLYPH_WIDTH) (row * GLYPH_HEIGHT) (glyph b) (con_fg c) (con_bg c) (con_fb c)\<rparr>"

definition put_glyph :: "u8 \<Rightarrow> console \<Rightarrow> fault + console" where
  "put_glyph b c =
     (if con_cols c = 0 \<or> con_rows c = 0 then Inr c
      else case (if con_cols c \<le> con_col c then newline c else Inr c) of
             Inl e \<Rightarrow> Inl e
           | Inr c \<Rightarrow> Inr ((draw_cell (con_col c) (con_row c) b c)\<lparr>con_col := con_col c + 1\<rparr>))"

text \<open>The loop of a tab: spaces until the column reaches the stop, or is zero.\<close>

partial_function (option) tab_loop :: "nat \<Rightarrow> console \<Rightarrow> (fault + console) option" where
  "tab_loop stop c =
     (if con_col c < stop
      then case put_glyph 0x20 c of
             Inl e \<Rightarrow> Some (Inl e)
           | Inr c \<Rightarrow> if con_col c = 0 then Some (Inr c) else tab_loop stop c
      else Some (Inr c))"

definition write_byte :: "u8 \<Rightarrow> console \<Rightarrow> (fault + console) option" where
  "write_byte b c =
     (let c = c\<lparr>con_written := con_written c + 1\<rparr> in
      if b = 0x0A then Some (newline c)
      else if b = 0x0D then Some (Inr (c\<lparr>con_col := 0\<rparr>))
      else if b = 0x09 then tab_loop (con_col c div 8 * 8 + 8) c
      else if b = 0x08 then
        (if 0 < con_col c then let c = c\<lparr>con_col := con_col c - 1\<rparr> in Some (Inr (draw_cell (con_col c) (con_row c) 0x20 c)) else Some (Inr c))
      else Some (put_glyph b c))"

fun write_text :: "u8 list \<Rightarrow> console \<Rightarrow> (fault + console) option" where
  "write_text [] c = Some (Inr c)"
| "write_text (b # bs) c = (case write_byte b c of None \<Rightarrow> None | Some (Inl e) \<Rightarrow> Some (Inl e) | Some (Inr c) \<Rightarrow> write_text bs c)"

end
