(* ===== verification/FramebufferProps.thy ===== *)
theory FramebufferProps
  imports Framebuffer
begin

text \<open>
  Facts of the framebuffer console: what a write changes, pixel by pixel; what scrolling moves, and on which accepted buffers
  it faults; where the cursor can stand; and the tab that never returns.
\<close>

section \<open>Pixels\<close>

definition fb_ok :: "framebuffer \<Rightarrow> bool" where
  "fb_ok fb \<longleftrightarrow> 0 < bytes_per_pixel (fb_format fb) \<and> bytes_per_pixel (fb_format fb) \<le> 4 \<and> 0 < fb_height fb
     \<and> fb_width fb * bytes_per_pixel (fb_format fb) \<le> fb_pitch fb
     \<and> (fb_height fb - 1) * fb_pitch fb + fb_width fb * bytes_per_pixel (fb_format fb) \<le> length (fb_buf fb)"

definition pixel_at :: "framebuffer \<Rightarrow> nat \<Rightarrow> nat \<Rightarrow> u8 list" where
  "pixel_at fb x y = take (bytes_per_pixel (fb_format fb)) (drop (y * fb_pitch fb + x * bytes_per_pixel (fb_format fb)) (fb_buf fb))"

definition geometry :: "framebuffer \<Rightarrow> nat \<times> nat \<times> nat \<times> pixel_format \<times> nat" where
  "geometry fb = (fb_width fb, fb_height fb, fb_pitch fb, fb_format fb, length (fb_buf fb))"

lemma geometry_ok: "geometry fb = geometry fb' \<Longrightarrow> fb_ok fb = fb_ok fb'"
  by (simp add: geometry_def fb_ok_def)

lemma fb_new_ok:
  assumes "fb_new buf w h p f = Some fb" "bytes_per_pixel f \<le> 4"
  shows "fb_ok fb"
  using assms by (auto simp: fb_new_def fb_ok_def checked_usize_def Let_def split: if_splits option.splits)

lemma length_write_at [simp]: "off + length bs \<le> length buf \<Longrightarrow> length (write_at buf off bs) = length buf"
  by (simp add: write_at_def)

lemma write_at_nth:
  "off + length bs \<le> length buf \<Longrightarrow> i < length buf \<Longrightarrow> write_at buf off bs ! i = (if off \<le> i \<and> i < off + length bs then bs ! (i - off) else buf ! i)"
  by (auto simp: write_at_def nth_append)

lemma write_at_same: "off + length bs \<le> length buf \<Longrightarrow> take (length bs) (drop off (write_at buf off bs)) = bs"
  by (simp add: write_at_def)

lemma write_at_inside:
  assumes "off + length bs \<le> length buf" "k + n \<le> length bs"
  shows "take n (drop (off + k) (write_at buf off bs)) = take n (drop k bs)"
  using assms by (intro nth_equalityI) (auto simp: write_at_nth)

lemma write_at_other:
  assumes "off + length bs \<le> length buf" "a + n \<le> off \<or> off + length bs \<le> a" "a + n \<le> length buf"
  shows "take n (drop a (write_at buf off bs)) = take n (drop a buf)"
  using assms by (intro nth_equalityI) (auto simp: write_at_nth)

lemma length_pixel [simp]: "bytes_per_pixel f \<le> 4 \<Longrightarrow> length (pixel_bytes f c) = bytes_per_pixel f"
  by (simp add: pixel_bytes_def)

lemma pixel_room:
  assumes "fb_ok fb" "x < fb_width fb" "y < fb_height fb"
  shows "y * fb_pitch fb + x * bytes_per_pixel (fb_format fb) + bytes_per_pixel (fb_format fb) \<le> length (fb_buf fb)"
proof -
  have "x * bytes_per_pixel (fb_format fb) + bytes_per_pixel (fb_format fb) = (x + 1) * bytes_per_pixel (fb_format fb)" by simp
  also have "\<dots> \<le> fb_width fb * bytes_per_pixel (fb_format fb)" using assms(2) by (intro mult_le_mono1) simp
  finally have x: "x * bytes_per_pixel (fb_format fb) + bytes_per_pixel (fb_format fb) \<le> fb_width fb * bytes_per_pixel (fb_format fb)" .
  have "y * fb_pitch fb \<le> (fb_height fb - 1) * fb_pitch fb" using assms(3) by (intro mult_le_mono1) simp
  then show ?thesis using x assms(1) unfolding fb_ok_def by linarith
qed

lemma pixels_apart:
  assumes "w * b \<le> p" "x < w" "x' < w" "(x, y) \<noteq> (x', y')" "0 < (b :: nat)"
  shows "y * p + x * b + b \<le> y' * p + x' * b \<or> y' * p + x' * b + b \<le> y * p + x * b"
proof -
  have step: "i * b + b \<le> j * b" if "i < j" for i j :: nat
    using mult_le_mono1 [of "Suc i" j b] that by simp
  have row: "y * p + x * b + b \<le> y' * p + x' * b" if "y < y'" "x < w" for x x' y y'
  proof -
    have "x * b + b \<le> p" using step [OF that(2)] assms(1) by simp
    moreover have "y * p + p \<le> y' * p" using mult_le_mono1 [of "Suc y" y' p] that(1) by simp
    ultimately show ?thesis by linarith
  qed
  consider "y < y'" | "y' < y" | "y = y'" "x < x'" | "y = y'" "x' < x" using assms(4) by force
  then show ?thesis
  proof cases
    case 1
    then show ?thesis using row assms(2) by simp
  next
    case 2
    then show ?thesis using row assms(3) by simp
  next
    case 3
    then show ?thesis using step by simp
  next
    case 4
    then show ?thesis using step by simp
  qed
qed

lemma put_pixel_geometry: "fb_ok fb \<Longrightarrow> geometry (put_pixel x y c fb) = geometry fb"
  by (auto simp: put_pixel_def geometry_def Let_def fb_ok_def)

lemma put_pixel_at:
  assumes "fb_ok fb" "x' < fb_width fb" "y' < fb_height fb"
  shows "pixel_at (put_pixel x y c fb) x' y' = (if x' = x \<and> y' = y then pixel_bytes (fb_format fb) c else pixel_at fb x' y')"
proof (cases "x < fb_width fb \<and> y < fb_height fb")
  case False
  then show ?thesis using assms by (auto simp: put_pixel_def)
next
  case True
  let ?b = "bytes_per_pixel (fb_format fb)" let ?o = "\<lambda>x y. y * fb_pitch fb + x * ?b"
  have ok: "0 < ?b" "?b \<le> 4" "fb_width fb * ?b \<le> fb_pitch fb" using assms(1) by (simp_all add: fb_ok_def)
  have r: "?o x y + ?b \<le> length (fb_buf fb)" "?o x' y' + ?b \<le> length (fb_buf fb)"
    using pixel_room [OF assms(1)] True assms(2,3) by simp_all
  have p: "put_pixel x y c fb = fb\<lparr>fb_buf := write_at (fb_buf fb) (?o x y) (pixel_bytes (fb_format fb) c)\<rparr>"
    using True r by (simp add: put_pixel_def Let_def)
  have l: "length (pixel_bytes (fb_format fb) c) = ?b" using ok by simp
  show ?thesis
  proof (cases "x' = x \<and> y' = y")
    case True
    then show ?thesis using write_at_same [of "?o x y" "pixel_bytes (fb_format fb) c"] r l by (simp add: p pixel_at_def)
  next
    case False
    then have "?o x' y' + ?b \<le> ?o x y \<or> ?o x y + ?b \<le> ?o x' y'"
      using pixels_apart [OF ok(3), of x' x y' y] assms(2) True ok(1) by auto
    then have "take ?b (drop (?o x' y') (write_at (fb_buf fb) (?o x y) (pixel_bytes (fb_format fb) c))) = take ?b (drop (?o x' y') (fb_buf fb))"
      using write_at_other r l by simp
    then show ?thesis using False by (auto simp: p pixel_at_def)
  qed
qed

lemma concat_replicate_part:
  "length px = b \<Longrightarrow> x < n \<Longrightarrow> take b (drop (x * b) (concat (replicate n px))) = px"
proof (induction n arbitrary: x)
  case (Suc n)
  then show ?case by (cases x) (simp_all add: add.commute)
qed simp

lemma length_concat_replicate: "length (concat (replicate n px)) = n * length px"
  by (induction n) simp_all

lemma fill_loop_at:
  "fb_ok fb \<Longrightarrow> \<forall>y\<in>set ys. y < fb_height fb \<Longrightarrow> length px = bytes_per_pixel (fb_format fb) \<Longrightarrow>
     geometry (fill_loop px ys fb) = geometry fb
     \<and> (\<forall>x<fb_width fb. \<forall>y<fb_height fb. pixel_at (fill_loop px ys fb) x y = (if y \<in> set ys then px else pixel_at fb x y))"
proof (induction px ys fb rule: fill_loop.induct)
  case (1 px fb)
  then show ?case by simp
next
  case (2 px y ys fb)
  let ?b = "bytes_per_pixel (fb_format fb)" let ?s = "fb_width fb * ?b" let ?o = "y * fb_pitch fb"
  let ?bs = "concat (replicate (fb_width fb) px)"
  let ?fb = "fb\<lparr>fb_buf := write_at (fb_buf fb) ?o ?bs\<rparr>"
  have ok: "0 < ?b" "?b \<le> 4" "?s \<le> fb_pitch fb" using "2.prems"(1) by (simp_all add: fb_ok_def)
  have y: "y < fb_height fb" using "2.prems"(2) by simp
  have "?o \<le> (fb_height fb - 1) * fb_pitch fb" using y by (intro mult_le_mono1) simp
  then have room: "?o + ?s \<le> length (fb_buf fb)" using "2.prems"(1) unfolding fb_ok_def by linarith
  have len: "length ?bs = ?s" using "2.prems"(3) by (simp add: length_concat_replicate)
  have g: "geometry ?fb = geometry fb" using room len by (simp add: geometry_def)
  then have okf: "fb_ok ?fb" using "2.prems"(1) geometry_ok by blast
  have step: "fill_loop px (y # ys) fb = fill_loop px ys ?fb" using room by (simp add: Let_def)
  have one: "pixel_at ?fb x' y' = (if y' = y then px else pixel_at fb x' y')" if x': "x' < fb_width fb" and y': "y' < fb_height fb" for x' y'
  proof -
    have x2: "x' * ?b + ?b \<le> ?s" using mult_le_mono1 [of "Suc x'" "fb_width fb" ?b] x' by simp
    show ?thesis
    proof (cases "y' = y")
      case True
      have "take ?b (drop (?o + x' * ?b) (write_at (fb_buf fb) ?o ?bs)) = take ?b (drop (x' * ?b) ?bs)"
        by (rule write_at_inside) (use room len x2 in simp_all)
      also have "\<dots> = px" by (rule concat_replicate_part [OF "2.prems"(3) x'])
      finally show ?thesis using True by (simp add: pixel_at_def)
    next
      case False
      then have "y' * fb_pitch fb + x' * ?b + ?b \<le> ?o \<or> ?o + ?s \<le> y' * fb_pitch fb + x' * ?b"
        using mult_le_mono1 [of "Suc y'" y "fb_pitch fb"] mult_le_mono1 [of "Suc y" y' "fb_pitch fb"] x2 ok(3) by (cases "y' < y") auto
      then have "take ?b (drop (y' * fb_pitch fb + x' * ?b) (write_at (fb_buf fb) ?o ?bs)) = take ?b (drop (y' * fb_pitch fb + x' * ?b) (fb_buf fb))"
        using pixel_room [OF "2.prems"(1) x' y'] room len by (intro write_at_other) simp_all
      then show ?thesis using False by (simp add: pixel_at_def)
    qed
  qed
  have IH: "geometry (fill_loop px ys ?fb) = geometry ?fb
      \<and> (\<forall>x<fb_width ?fb. \<forall>y<fb_height ?fb. pixel_at (fill_loop px ys ?fb) x y = (if y \<in> set ys then px else pixel_at ?fb x y))"
    by (rule "2.IH") (use room okf "2.prems" in simp_all)
  show ?case unfolding step using IH g one by auto
qed

lemma fill_rows_at:
  assumes "fb_ok fb"
  shows "geometry (fill_rows first count c fb) = geometry fb"
    "x < fb_width fb \<Longrightarrow> y < fb_height fb \<Longrightarrow>
       pixel_at (fill_rows first count c fb) x y = (if first \<le> y \<and> y < first + count then pixel_bytes (fb_format fb) c else pixel_at fb x y)"
  using fill_loop_at [OF assms, of "[first..<min (first + count) (fb_height fb)]" "pixel_bytes (fb_format fb) c"] assms
  by (auto simp: fill_rows_def fb_ok_def)

section \<open>Scrolling\<close>

lemma take_drop_take: "k + b \<le> n \<Longrightarrow> take b (drop k (take n xs)) = take b (drop k xs)"
  by (simp add: drop_take min_def)

lemma scroll_up_at:
  assumes "fb_ok fb" "0 < rows" "rows < fb_height fb" "fb_height fb * fb_pitch fb \<le> length (fb_buf fb)"
  obtains fb' where "scroll_up rows bg fb = Inr fb'" "geometry fb' = geometry fb"
    "\<And>x y. x < fb_width fb \<Longrightarrow> y < fb_height fb \<Longrightarrow>
       pixel_at fb' x y = (if y < fb_height fb - rows then pixel_at fb x (y + rows) else pixel_bytes (fb_format fb) bg)"
proof -
  let ?p = "fb_pitch fb" let ?h = "fb_height fb" let ?b = "bytes_per_pixel (fb_format fb)"
  let ?bs = "take (?h * ?p - rows * ?p) (drop (rows * ?p) (fb_buf fb))"
  let ?m = "fb\<lparr>fb_buf := write_at (fb_buf fb) 0 ?bs\<rparr>"
  have hp: "rows * ?p \<le> ?h * ?p" using assms(3) by (intro mult_le_mono1) simp
  have len: "length ?bs = ?h * ?p - rows * ?p" using assms(4) hp by simp
  have g: "geometry ?m = geometry fb" using len assms(4) by (simp add: geometry_def)
  then have ok: "fb_ok ?m" using assms(1) geometry_ok by blast
  have moved: "pixel_at ?m x y = pixel_at fb x (y + rows)" if x: "x < fb_width fb" and y: "y < ?h - rows" for x y
  proof -
    have yr: "y + rows < ?h" using y by simp
    have "x * ?b + ?b \<le> ?p" using mult_le_mono1 [of "Suc x" "fb_width fb" ?b] x assms(1) by (simp add: fb_ok_def)
    moreover have "y * ?p + ?p \<le> ?h * ?p - rows * ?p"
      using mult_le_mono1 [of "Suc y" "?h - rows" ?p] y by (simp add: diff_mult_distrib)
    ultimately have k: "y * ?p + x * ?b + ?b \<le> length ?bs" unfolding len by linarith
    have "take ?b (drop (0 + (y * ?p + x * ?b)) (write_at (fb_buf fb) 0 ?bs)) = take ?b (drop (y * ?p + x * ?b) ?bs)"
      by (rule write_at_inside) (use k len assms(4) in simp_all)
    also have "\<dots> = take ?b (drop (y * ?p + x * ?b) (drop (rows * ?p) (fb_buf fb)))"
      using k by (intro take_drop_take) (simp add: len)
    also have "\<dots> = take ?b (drop ((y + rows) * ?p + x * ?b) (fb_buf fb))" by (simp add: add_mult_distrib add.commute add.left_commute)
    finally show ?thesis by (simp add: pixel_at_def)
  qed
  have "scroll_up rows bg fb = Inr (fill_rows (?h - rows) rows bg ?m)"
    using assms(2-4) by (simp add: scroll_up_def Let_def)
  moreover have "geometry (fill_rows (?h - rows) rows bg ?m) = geometry fb" using fill_rows_at(1) [OF ok] g by simp
  moreover have "pixel_at (fill_rows (?h - rows) rows bg ?m) x y = (if y < ?h - rows then pixel_at fb x (y + rows) else pixel_bytes (fb_format fb) bg)"
    if "x < fb_width fb" "y < ?h" for x y
    using fill_rows_at(2) [OF ok, of x y "?h - rows" rows bg] that moved [of x y] assms(3) by auto
  ultimately show ?thesis using that by blast
qed

text \<open>C33. 
  Scrolling moves every visible pixel up and fills the rows it frees. It needs the buffer to hold whole rows, the last one
  included with its padding: on a buffer that ends with the last pixel, which \<^verbatim>\<open>new\<close> accepts, it is a fault.
\<close>

theorem scroll_correct:
  assumes "fb_new buf w h p f = Some fb" "bytes_per_pixel f \<le> 4" "0 < rows" "rows < h"
  shows "((\<exists>fb'. scroll_up rows bg fb = Inr fb') \<longleftrightarrow> h * p \<le> length buf)
    \<and> (\<forall>fb' x y. scroll_up rows bg fb = Inr fb' \<longrightarrow> x < w \<longrightarrow> y < h \<longrightarrow>
        pixel_at fb' x y = (if y < h - rows then pixel_at fb x (y + rows) else pixel_bytes f bg))"
proof -
  have fb: "fb_buf fb = buf" "fb_width fb = w" "fb_height fb = h" "fb_pitch fb = p" "fb_format fb = f"
    using assms(1) by (auto simp: fb_new_def Let_def split: if_splits option.splits)
  have ok: "fb_ok fb" by (rule fb_new_ok [OF assms(1,2)])
  have 1: "(\<exists>fb'. scroll_up rows bg fb = Inr fb') \<longleftrightarrow> h * p \<le> length buf"
    using assms(3,4) by (auto simp: scroll_up_def Let_def fb)
  have "pixel_at fb' x y = (if y < h - rows then pixel_at fb x (y + rows) else pixel_bytes f bg)"
    if s: "scroll_up rows bg fb = Inr fb'" and xy: "x < w" "y < h" for fb' x y
  proof (rule scroll_up_at [OF ok assms(3), of bg])
    show "rows < fb_height fb" "fb_height fb * fb_pitch fb \<le> length (fb_buf fb)" using 1 s assms(4) by (auto simp: fb)
    fix fb'' assume "scroll_up rows bg fb = Inr fb''"
      "\<And>x y. x < fb_width fb \<Longrightarrow> y < fb_height fb \<Longrightarrow>
        pixel_at fb'' x y = (if y < fb_height fb - rows then pixel_at fb x (y + rows) else pixel_bytes (fb_format fb) bg)"
    then show ?thesis using s xy by (simp add: fb)
  qed
  then show ?thesis using 1 by blast
qed

text \<open>A screen of two rows of one pixel whose last row lacks its padding: accepted, and one row of scrolling faults.\<close>

theorem scroll_correct_witness:
  "\<exists>fb. fb_new (replicate 12 0) 1 2 8 xrgb8888 = Some fb \<and> \<not> (\<exists>fb'. scroll_up 1 BLACK fb = Inr fb')"
proof -
  obtain fb where fb: "fb_new (replicate 12 0) 1 2 8 xrgb8888 = Some fb"
    by (simp add: fb_new_def checked_usize_def xrgb8888_def)
  then show ?thesis using scroll_correct [OF fb, of 1 BLACK] by (simp add: xrgb8888_def)
qed

section \<open>Glyphs\<close>

lemma fold_puts:
  "fb_ok fb \<Longrightarrow> distinct (map (\<lambda>(x, y, c). (x, y)) ps) \<Longrightarrow>
     geometry (fold (\<lambda>(x, y, c). put_pixel x y c) ps fb) = geometry fb
     \<and> (\<forall>x<fb_width fb. \<forall>y<fb_height fb.
          (\<forall>c. (x, y, c) \<in> set ps \<longrightarrow> pixel_at (fold (\<lambda>(x, y, c). put_pixel x y c) ps fb) x y = pixel_bytes (fb_format fb) c)
          \<and> ((\<forall>c. (x, y, c) \<notin> set ps) \<longrightarrow> pixel_at (fold (\<lambda>(x, y, c). put_pixel x y c) ps fb) x y = pixel_at fb x y))"
proof (induction ps arbitrary: fb)
  case (Cons p ps)
  obtain x0 y0 c0 where p: "p = (x0, y0, c0)" by (cases p)
  let ?fb = "put_pixel x0 y0 c0 fb"
  have g: "geometry ?fb = geometry fb" by (rule put_pixel_geometry [OF Cons.prems(1)])
  have ok: "fb_ok ?fb" using geometry_ok [OF g] Cons.prems(1) by simp
  have sel: "fb_width ?fb = fb_width fb" "fb_height ?fb = fb_height fb" "fb_format ?fb = fb_format fb"
    using g by (simp_all add: geometry_def)
  have new: "(x0, y0, c) \<notin> set ps" for c using Cons.prems(2) by (force simp: p)
  have d: "distinct (map (\<lambda>(x, y, c). (x, y)) ps)" using Cons.prems(2) by (simp add: p)
  let ?F = "fold (\<lambda>(x, y, c). put_pixel x y c) ps ?fb"
  have IH: "geometry ?F = geometry fb"
      "\<And>x y c. x < fb_width fb \<Longrightarrow> y < fb_height fb \<Longrightarrow> (x, y, c) \<in> set ps \<Longrightarrow> pixel_at ?F x y = pixel_bytes (fb_format fb) c"
      "\<And>x y. x < fb_width fb \<Longrightarrow> y < fb_height fb \<Longrightarrow> \<forall>c. (x, y, c) \<notin> set ps \<Longrightarrow> pixel_at ?F x y = pixel_at ?fb x y"
  proof -
    note H = Cons.IH [OF ok d, unfolded sel g]
    show "geometry ?F = geometry fb" by (rule conjunct1 [OF H])
    fix x y assume x: "x < fb_width fb" and y: "y < fb_height fb"
    note at = conjunct2 [OF H, THEN spec, THEN mp, OF x, THEN spec, THEN mp, OF y]
    show "(x, y, c) \<in> set ps \<Longrightarrow> pixel_at ?F x y = pixel_bytes (fb_format fb) c" for c by (rule conjunct1 [OF at, THEN spec, THEN mp])
    show "\<forall>c. (x, y, c) \<notin> set ps \<Longrightarrow> pixel_at ?F x y = pixel_at ?fb x y" by (rule conjunct2 [OF at, THEN mp])
  qed
  have F: "fold (\<lambda>(x, y, c). put_pixel x y c) (p # ps) fb = ?F" by (simp add: p)
  show ?case unfolding F
  proof (intro conjI allI impI)
    show "geometry ?F = geometry fb" by (rule IH(1))
    fix x y assume xy: "x < fb_width fb" "y < fb_height fb"
    show "pixel_at ?F x y = pixel_bytes (fb_format fb) c" if c: "(x, y, c) \<in> set (p # ps)" for c
    proof (cases "(x, y, c) \<in> set ps")
      case True
      then show ?thesis by (rule IH(2) [OF xy])
    next
      case False
      then have e: "x = x0" "y = y0" "c = c0" using c by (simp_all add: p)
      have "pixel_at ?F x y = pixel_at ?fb x y" using IH(3) [OF xy] new by (simp add: e)
      then show ?thesis using put_pixel_at [OF Cons.prems(1) xy, of x0 y0 c0] by (simp add: e)
    qed
    show "pixel_at ?F x y = pixel_at fb x y" if c: "\<forall>c. (x, y, c) \<notin> set (p # ps)"
    proof -
      have "\<not> (x = x0 \<and> y = y0)" using c by (auto simp: p)
      moreover have "pixel_at ?F x y = pixel_at ?fb x y" using IH(3) [OF xy] c by simp
      ultimately show ?thesis using put_pixel_at [OF Cons.prems(1) xy, of x0 y0 c0] by (simp only: if_False)
    qed
  qed
qed simp

definition glyph_pixels :: "nat \<Rightarrow> nat \<Rightarrow> u8 list \<Rightarrow> rgb \<Rightarrow> rgb \<Rightarrow> (nat \<times> nat \<times> rgb) list" where
  "glyph_pixels ox oy rows fg bg =
     concat (map (\<lambda>(row, byte). map (\<lambda>col. (ox + col, oy + row, if byte AND push_bit col 1 \<noteq> 0 then fg else bg)) [0..<8]) (enumerate 0 rows))"

lemma draw_glyph_pixels: "draw_glyph ox oy rows fg bg fb = fold (\<lambda>(x, y, c). put_pixel x y c) (glyph_pixels ox oy rows fg bg) fb"
proof -
  have "fold (\<lambda>(row, byte). fold (\<lambda>col. put_pixel (ox + col) (oy + row) (if byte AND push_bit col 1 \<noteq> 0 then fg else bg)) [0..<8]) ps fb
      = fold (\<lambda>(x, y, c). put_pixel x y c)
          (concat (map (\<lambda>(row, byte). map (\<lambda>col. (ox + col, oy + row, if byte AND push_bit col 1 \<noteq> 0 then fg else bg)) [0..<8]) ps)) fb" for ps
    by (induction ps arbitrary: fb) (auto simp: fold_map comp_def)
  then show ?thesis by (simp add: draw_glyph_def glyph_pixels_def GLYPH_WIDTH_def)
qed

lemma glyph_pixels_distinct: "distinct (map (\<lambda>(x, y, c). (x, y)) (glyph_pixels ox oy rows fg bg))"
proof -
  have "distinct (map (\<lambda>(x, y, c). (x, y))
      (concat (map (\<lambda>(row, byte). map (\<lambda>col. (ox + col, oy + row, if byte AND push_bit col 1 \<noteq> 0 then fg else bg)) [0..<8]) (enumerate k rows))))" for k
  proof (induction rows arbitrary: k)
    case (Cons r rows)
    have "oy + k \<notin> (fst \<circ> snd) ` set (concat (map (\<lambda>(row, byte). map (\<lambda>col. (ox + col, oy + row, if byte AND push_bit col 1 \<noteq> 0 then fg else bg)) [0..<8]) (enumerate (Suc k) rows)))"
      by (auto simp: in_set_enumerate_eq)
    moreover have "distinct (map ((\<lambda>(x, y, c). (x, y)) \<circ> (\<lambda>col. (ox + col, oy + k, if r AND push_bit col 1 \<noteq> 0 then fg else bg))) [0..<8])"
      by (simp add: distinct_map inj_on_def comp_def)
    ultimately show ?case using Cons by (force simp: comp_def)
  qed simp
  then show ?thesis by (simp add: glyph_pixels_def)
qed

lemma draw_glyph_geometry: "fb_ok fb \<Longrightarrow> geometry (draw_glyph ox oy rows fg bg fb) = geometry fb"
  unfolding draw_glyph_pixels by (rule conjunct1 [OF fold_puts [OF _ glyph_pixels_distinct]])

lemma draw_glyph_at:
  assumes "fb_ok fb" "i < 8" "j < length rows" "ox + i < fb_width fb" "oy + j < fb_height fb"
  shows "pixel_at (draw_glyph ox oy rows fg bg fb) (ox + i) (oy + j)
    = pixel_bytes (fb_format fb) (if rows ! j AND push_bit i 1 \<noteq> 0 then fg else bg)"
proof -
  let ?line = "\<lambda>(row, byte). map (\<lambda>col. (ox + col, oy + row, if byte AND push_bit col 1 \<noteq> 0 then fg else bg)) [0..<8]"
  have e: "(j, rows ! j) \<in> set (enumerate 0 rows)" using assms(3) by (simp add: in_set_enumerate_eq)
  have "(ox + i, oy + j, if rows ! j AND push_bit i 1 \<noteq> 0 then fg else bg) \<in> set (?line (j, rows ! j))"
    using assms(2) by (simp add: image_iff)
  then have "(ox + i, oy + j, if rows ! j AND push_bit i 1 \<noteq> 0 then fg else bg) \<in> set (glyph_pixels ox oy rows fg bg)"
    unfolding glyph_pixels_def set_concat set_map by (rule UN_I [OF imageI [OF e]])
  then show ?thesis unfolding draw_glyph_pixels
    by (rule conjunct2 [OF fold_puts [OF assms(1) glyph_pixels_distinct], THEN spec, THEN mp, OF assms(4), THEN spec, THEN mp, OF assms(5),
          THEN conjunct1, THEN spec, THEN mp])
qed

section \<open>The cursor\<close>

definition con_ok :: "console \<Rightarrow> bool" where
  "con_ok c \<longleftrightarrow> fb_ok (con_fb c) \<and> con_cols c = fb_width (con_fb c) div 8 \<and> con_rows c = fb_height (con_fb c) div 8
     \<and> con_col c \<le> con_cols c \<and> (0 < con_rows c \<longrightarrow> con_row c < con_rows c)"

text \<open>A buffer that holds whole rows, so that scrolling cannot fault, and a screen that holds a character.\<close>

definition whole :: "console \<Rightarrow> bool" where
  "whole c \<longleftrightarrow> fb_height (con_fb c) * fb_pitch (con_fb c) \<le> length (fb_buf (con_fb c)) \<and> 0 < con_cols c \<and> 0 < con_rows c"

lemma con_sel:
  assumes "con_ok c" "whole c" "geometry fb = geometry (con_fb c)"
  shows "fb_ok fb" "fb_width fb = fb_width (con_fb c)" "fb_height fb = fb_height (con_fb c)" "fb_pitch fb = fb_pitch (con_fb c)"
    "length (fb_buf fb) = length (fb_buf (con_fb c))"
  using geometry_ok [OF assms(3)] assms by (simp_all add: con_ok_def geometry_def)

lemma con_keeps:
  assumes "con_ok c" "whole c" "geometry (con_fb c') = geometry (con_fb c)" "con_cols c' = con_cols c" "con_rows c' = con_rows c"
    "con_col c' \<le> con_cols c" "con_row c' < con_rows c"
  shows "con_ok c'" "whole c'"
proof -
  note sel = con_sel [OF assms(1-3)]
  have "con_cols c = fb_width (con_fb c) div 8" "con_rows c = fb_height (con_fb c) div 8" using assms(1) by (simp_all add: con_ok_def)
  then show "con_ok c'" unfolding con_ok_def assms(4,5) sel(2,3) using sel(1) assms(6,7) by (intro conjI impI) assumption+
  show "whole c'" using assms(2) unfolding whole_def assms(4,5) sel(3-5) .
qed

lemma con_row_lt: "con_ok c \<Longrightarrow> whole c \<Longrightarrow> con_row c < con_rows c"
  unfolding con_ok_def whole_def by (elim conjE) (erule mp)

lemma newline_ok:
  assumes "con_ok c" "whole c"
  obtains c' where "newline c = Inr c'" "con_ok c'" "whole c'" "con_col c' = 0" "con_cols c' = con_cols c"
proof (cases "con_rows c \<le> con_row c + 1")
  case True
  have ok: "fb_ok (con_fb c)" using assms(1) by (simp add: con_ok_def)
  obtain fb where f: "scroll_up GLYPH_HEIGHT (con_bg c) (con_fb c) = Inr fb" "geometry fb = geometry (con_fb c)"
  proof (cases "fb_height (con_fb c) \<le> 8")
    case True
    then show ?thesis using that fill_rows_at(1) [OF ok] by (simp add: scroll_up_def GLYPH_HEIGHT_def clear_def)
  next
    case False
    show ?thesis
    proof (rule scroll_up_at [OF ok, of GLYPH_HEIGHT "con_bg c"])
      show "0 < GLYPH_HEIGHT" "GLYPH_HEIGHT < fb_height (con_fb c)" using False by (simp_all add: GLYPH_HEIGHT_def)
      show "fb_height (con_fb c) * fb_pitch (con_fb c) \<le> length (fb_buf (con_fb c))" using assms(2) by (simp add: whole_def)
    qed (rule that)
  qed
  let ?c = "c\<lparr>con_col := 0, con_fb := fb\<rparr>"
  have "newline c = Inr ?c" using True f(1) by (simp add: newline_def Let_def)
  moreover have "con_ok ?c" "whole ?c" using con_keeps [OF assms, of ?c] con_row_lt [OF assms] f(2) by simp_all
  ultimately show ?thesis using that [of ?c] by simp
next
  case False
  let ?c = "c\<lparr>con_col := 0, con_row := con_row c + 1\<rparr>"
  have "newline c = Inr ?c" using False by (simp add: newline_def Let_def)
  moreover have "con_ok ?c" "whole ?c" using con_keeps [OF assms, of ?c] False by simp_all
  ultimately show ?thesis using that [of ?c] by simp
qed

lemma put_glyph_ok:
  assumes "con_ok c" "whole c"
  obtains c' where "put_glyph b c = Inr c'" "con_ok c'" "whole c'" "con_cols c' = con_cols c"
    "con_col c' = (if con_col c = con_cols c then 1 else con_col c + 1)"
proof -
  obtain c1 where c1: "(if con_cols c \<le> con_col c then newline c else Inr c) = Inr c1" "con_ok c1" "whole c1" "con_cols c1 = con_cols c"
      "con_col c1 = (if con_col c = con_cols c then 0 else con_col c)" "con_col c1 < con_cols c"
  proof (cases "con_cols c \<le> con_col c")
    case True
    obtain c' where "newline c = Inr c'" "con_ok c'" "whole c'" "con_col c' = 0" "con_cols c' = con_cols c"
      by (rule newline_ok [OF assms])
    moreover have "con_col c = con_cols c" using True assms(1) by (simp add: con_ok_def)
    moreover have "0 < con_cols c" using assms(2) by (simp add: whole_def)
    ultimately show ?thesis using that [of c'] True by simp
  next
    case False
    then show ?thesis using that [of c] assms by simp
  qed
  let ?c = "(draw_cell (con_col c1) (con_row c1) b c1)\<lparr>con_col := con_col c1 + 1\<rparr>"
  have g: "geometry (con_fb ?c) = geometry (con_fb c1)"
    using c1(2) by (simp add: draw_cell_def draw_glyph_geometry con_ok_def)
  have same: "con_cols ?c = con_cols c1" "con_rows ?c = con_rows c1" "con_row ?c = con_row c1" "con_col ?c = con_col c1 + 1"
    by (simp_all add: draw_cell_def)
  have "\<not> (con_cols c = 0 \<or> con_rows c = 0)" using assms(2) by (simp add: whole_def)
  then have "put_glyph b c = Inr ?c" using c1(1) by (simp add: put_glyph_def)
  moreover have "con_ok ?c" "whole ?c"
    by (rule con_keeps [OF c1(2,3) g same(1,2)]; simp only: same; use c1(4,6) con_row_lt [OF c1(2,3)] in simp)+
  ultimately show ?thesis using that [of ?c] c1 same by simp
qed

lemma tab_loop_reaches:
  "con_ok c \<Longrightarrow> whole c \<Longrightarrow> con_col c \<le> stop \<Longrightarrow> stop \<le> con_cols c \<Longrightarrow>
     \<exists>c'. tab_loop stop c = Some (Inr c') \<and> con_col c' = stop \<and> con_ok c'"
proof (induction "stop - con_col c" arbitrary: c)
  case 0
  then show ?case by (subst tab_loop.simps) simp
next
  case (Suc n)
  obtain c1 where c1: "put_glyph 0x20 c = Inr c1" "con_ok c1" "whole c1" "con_cols c1 = con_cols c"
      "con_col c1 = (if con_col c = con_cols c then 1 else con_col c + 1)"
    by (rule put_glyph_ok [OF Suc.prems(1,2)])
  have lt: "con_col c < stop" using Suc.hyps(2) by simp
  then have col: "con_col c1 = con_col c + 1" using c1(5) Suc.prems(4) by simp
  have "tab_loop stop c = tab_loop stop c1" using lt c1(1) col by (subst tab_loop.simps) simp
  moreover have "\<exists>c'. tab_loop stop c1 = Some (Inr c') \<and> con_col c' = stop \<and> con_ok c'"
    by (rule Suc.hyps(1)) (use Suc col c1 lt in simp_all)
  ultimately show ?case by simp
qed

lemma tab_loop_never:
  assumes "tab_loop stop c = Some r"
  shows "\<not> (con_ok c \<and> whole c \<and> con_cols c < stop)"
proof (rule tab_loop.raw_induct [OF _ assms, where P = "\<lambda>stop c r. \<not> (con_ok c \<and> whole c \<and> con_cols c < stop)"])
  fix f stop c r
  assume IH: "\<And>stop c r. f stop c = Some r \<Longrightarrow> \<not> (con_ok c \<and> whole c \<and> con_cols c < stop)"
    and step: "(if con_col c < stop
       then case put_glyph 0x20 c of Inl e \<Rightarrow> Some (Inl e) | Inr c \<Rightarrow> if con_col c = 0 then Some (Inr c) else f stop c
       else Some (Inr c)) = Some r"
  show "\<not> (con_ok c \<and> whole c \<and> con_cols c < stop)"
  proof
    assume h: "con_ok c \<and> whole c \<and> con_cols c < stop"
    then have ok: "con_ok c" "whole c" by simp_all
    obtain c1 where c1: "put_glyph 0x20 c = Inr c1" "con_ok c1" "whole c1" "con_cols c1 = con_cols c"
        "con_col c1 = (if con_col c = con_cols c then 1 else con_col c + 1)"
      by (rule put_glyph_ok [OF ok])
    have "con_col c < stop" using h by (simp add: con_ok_def)
    then have "f stop c1 = Some r" using step c1(1,5) by (simp split: if_splits)
    from IH [OF this] show False using c1(2-4) h by simp
  qed
qed

text \<open>C34. 
  A tab moves the cursor to the next multiple of eight columns when there is one on the screen. When there is not (the
  cursor waits behind the last column, or the last stop lies past it) it never returns: after the wrap the column is one, not
  zero, so neither condition of the loop is ever met, and the console scrolls for good.
\<close>

theorem tab_moves_or_hangs:
  assumes "con_ok c" "whole c"
  shows "if con_col c div 8 * 8 + 8 \<le> con_cols c
    then \<exists>c'. write_byte 0x09 c = Some (Inr c') \<and> con_col c' = con_col c div 8 * 8 + 8 \<and> con_ok c'
    else write_byte 0x09 c = None"
proof -
  let ?c = "c\<lparr>con_written := con_written c + 1\<rparr>" let ?s = "con_col c div 8 * 8 + 8"
  have w: "write_byte 0x09 c = tab_loop ?s ?c" by (simp add: write_byte_def Let_def)
  have con_col: "con_col c \<le> con_cols c" using assms(1) by (simp add: con_ok_def)
  have ok: "con_ok ?c" "whole ?c" using con_keeps [OF assms, of ?c] con_col con_row_lt [OF assms] by simp_all
  have "con_col ?c \<le> ?s" by simp
  then show ?thesis unfolding w using tab_loop_reaches [OF ok, of ?s] tab_loop_never [of ?s ?c] ok by (cases "tab_loop ?s ?c") auto
qed

text \<open>On a screen of one character, the first tab hangs.\<close>

theorem tab_moves_or_hangs_witness:
  "\<exists>fb. fb_new (replicate 256 0) 8 8 32 xrgb8888 = Some fb \<and> write_byte 0x09 (console_new fb GREEN BLACK) = None"
proof -
  obtain fb where fb: "fb_new (replicate 256 0) 8 8 32 xrgb8888 = Some fb"
    by (simp add: fb_new_def checked_usize_def xrgb8888_def)
  then have sel: "fb_width fb = 8" "fb_height fb = 8" "fb_pitch fb = 32" "length (fb_buf fb) = 256"
    by (auto simp: fb_new_def checked_usize_def xrgb8888_def)
  have ok: "fb_ok fb" by (rule fb_new_ok [OF fb]) (simp add: xrgb8888_def)
  have g: "geometry (clear BLACK fb) = geometry fb" unfolding clear_def by (rule fill_rows_at(1) [OF ok])
  have "fb_ok (clear BLACK fb)" using geometry_ok [OF g] ok by simp
  then have "con_ok (console_new fb GREEN BLACK)" "whole (console_new fb GREEN BLACK)"
    using g sel by (simp_all add: con_ok_def whole_def console_new_def GLYPH_WIDTH_def GLYPH_HEIGHT_def geometry_def)
  from tab_moves_or_hangs [OF this] show ?thesis using fb sel by (simp add: console_new_def GLYPH_WIDTH_def)
qed

end
