(* ===== verification/Spec2Isabelle.thy ===== *)
theory Spec2Isabelle
  imports SyscallErrors Chunks Region HeapProps CpioProps FssrvProps CfmtProps QsortProps CtimeProps CmemProps FdtProps Clock Virtio Videocore FramebufferProps
begin

text \<open>
  StarOS-Aarch64: a verification library for the kernel policy, the portable crates, the file server and the C
  library core of the StarOS microkernel. This theory only collects the others; each component's theory opens with what
  it holds, and its definitions carry the names of the Rust items they are translated from.

  \<^bold>\<open>The system.\<close> The kernel runs on several cores under one lock per table. A task enters it through a system call
  (\<^verbatim>\<open>crates/kernel/src/syscall.rs\<close>), which resolves the handles it was given in the task's capability table (\<^verbatim>\<open>cap.rs\<close>,
  \<^verbatim>\<open>obj.rs\<close>) and then calls the component behind the object: endpoints (\<^verbatim>\<open>ipc.rs\<close>), notifications (\<^verbatim>\<open>notify.rs\<close>), shared
  memory (\<^verbatim>\<open>shm.rs\<close>), interrupts (\<^verbatim>\<open>irq.rs\<close>), the display (\<^verbatim>\<open>screen.rs\<close>), the SMMU (\<^verbatim>\<open>iommu.rs\<close>, \<^verbatim>\<open>smmu.rs\<close>) or process
  creation (\<^verbatim>\<open>main.rs\<close>, \<^verbatim>\<open>elf.rs\<close>). Blocking goes through the scheduler (\<^verbatim>\<open>sched.rs\<close>), whose choice of task is the policy of
  \<^verbatim>\<open>crates/abi/src/affinity.rs\<close> and \<^verbatim>\<open>class.rs\<close>. All memory comes from the frame pool (\<^verbatim>\<open>crates/mm\<close>), is mapped by
  \<^verbatim>\<open>crates/arch-aarch64/src/addrspace.rs\<close> and is read and written for the caller by \<^verbatim>\<open>usercopy.rs\<close>. User programs are
  linked against \<^verbatim>\<open>crates/staros-libc\<close>; files come from the file server (\<^verbatim>\<open>services/fssrv\<close>), which reads the
  CPIO archive the boot loader put in memory next to the device tree (\<^verbatim>\<open>crates/cpio\<close>, \<^verbatim>\<open>crates/fdt\<close>).

  \<^bold>\<open>Conventions.\<close> Prelude and Bytes hold the shared vocabulary. A machine integer is a word of its width where the
  source wraps, truncates or looks at bits, and a natural or an integer where the theory's opening text says why it
  cannot overflow. Rust's \<^verbatim>\<open>Option\<close> is \<open>option\<close>; \<^verbatim>\<open>Result\<close> is a sum with the error on the left. A panic is the outer
  \<open>None\<close> (or a \<open>fault\<close>), never a value. A definition is what one function does under its lock; where the source lets
  the lock go, to switch tasks or to give interrupts a window, the rest is a definition of its own and the interleavings
  are those of a step relation. What is not under \<^verbatim>\<open>src\<close> or not decided by the code (register reads, the clock, whether
  the kernel heap can grow, the floating point unit, the C comparison function) is a parameter.

  \<^bold>\<open>Numbers shared with user space.\<close> Abi: \<^verbatim>\<open>crates/abi/src/error.rs\<close>, \<^verbatim>\<open>lib.rs\<close>, \<^verbatim>\<open>syscall.rs\<close>, \<^verbatim>\<open>crates/ipc/src/lib.rs\<close>.

  \<^bold>\<open>Scheduling.\<close> Affinity and SchedClass are the picking policy; both scans meet the locale \<open>slot_picker\<close>, from which the
  band loop is proved once, and a class that has a runnable task is served within sixteen picks. Scheduler is
  \<^verbatim>\<open>sched.rs\<close>: the task table, picking, switching, parking, waking, exit. SchedulerInv proves the invariant of every
  interleaving (no task on two cores, none lost, no stack of a live task gone); SchedulerProps the hand-over between
  parking and waking, and the teardown with the last task of a space.

  \<^bold>\<open>Memory.\<close> Buddy is \<^verbatim>\<open>crates/mm/src/lib.rs\<close> as arrays, BuddyTree its refinement by a tree of blocks: what
  is allocated is aligned, free before and disjoint from the rest, and a request fails exactly when nothing fits.
  FramePool is \<^verbatim>\<open>pool.rs\<close>; the bump allocator, the buddy allocator and the pool meet one locale, \<open>frame_allocator\<close>. SharedMem is \<^verbatim>\<open>shm.rs\<close>. Region is
  \<^verbatim>\<open>region.rs\<close>; KernelHeap and HeapProps are \<^verbatim>\<open>heap.rs\<close>, the free list of the kernel's own heap.

  \<^bold>\<open>Address spaces.\<close> PageTable is \<^verbatim>\<open>addrspace.rs\<close> with the descriptors of \<^verbatim>\<open>mmu.rs\<close>, on physical memory as words.
  PageTableInv describes the tree of tables and the frames it owns, PageTableProps and AddressSpace prove mapping,
  unmapping, checking, teardown and write-xor-execute, SpaceRoom how many free frames an operation needs. UserMem is
  \<^verbatim>\<open>usercopy.rs\<close>, Elf is \<^verbatim>\<open>elf.rs\<close> with the loaders of \<^verbatim>\<open>main.rs\<close>, Machine the memory calls of \<^verbatim>\<open>sched.rs\<close>, and
  Chunks shows that their sixteen-page windows do not change what they compute.

  \<^bold>\<open>Capabilities and communication.\<close> Capability is \<^verbatim>\<open>cap.rs\<close> and \<^verbatim>\<open>obj.rs\<close>: generational references. Endpoint
  is the table, ring and queues of \<^verbatim>\<open>ipc.rs\<close>, refining queues of messages and waiters (locale \<open>rendezvous\<close>). Notification
  is \<^verbatim>\<open>notify.rs\<close>; KernelIpc runs both over the whole kernel state, with the waiting calls as the steps between which other
  cores run.

  \<^bold>\<open>Devices.\<close> Iommu is \<^verbatim>\<open>crates/iommu/src/lib.rs\<close>, the words of the SMMU; Smmu is the driver; SmmuProps, SmmuConfine and
  SmmuSafety show that in every sequence of binds, unbinds and other kernel work a device reaches exactly the buffer it
  is bound to. KernelIommu is the kernel's side. Virtio, Videocore, Framebuffer and Clock are the portable halves of the drivers
  (\<^verbatim>\<open>crates/virtio\<close>, \<^verbatim>\<open>crates/videocore\<close>, \<^verbatim>\<open>crates/framebuffer\<close>, \<^verbatim>\<open>crates/hal/src/clock.rs\<close>), FramebufferProps the pixels and
  the cursor of the boot console.

  \<^bold>\<open>System calls.\<close> Syscalls has one definition per arm of the dispatcher. SyscallGate states what a capability check is worth as a
  locale (\<open>cap_gate\<close>) met by all nine resolvers; SyscallFrame what each operation leaves alone; SyscallProps and SyscallSafety that no call
  has an effect without the right, that authority is extended only by its holder, and that a revocation lasts;
  SyscallErrors what a failed call leaves behind.

  \<^bold>\<open>Data the boot loader hands over.\<close> Cpio and CpioProps read the archive, Fdt and FdtProps the device tree: a tree
  or an archive written in its format is read back as it is. Utf8 is the test of \<^verbatim>\<open>core::str::from_utf8\<close>.

  \<^bold>\<open>User space.\<close> Fssrv and FssrvProps are the file server: handles that are never used twice, exact reads, an answer to
  every message. Cbytes, Cmem, Cfmt, Qsort and Ctime are \<^verbatim>\<open>string.rs\<close>, \<^verbatim>\<open>fmt.rs\<close> (with the arguments of \<^verbatim>\<open>stdio.rs\<close>),
  \<^verbatim>\<open>sort.rs\<close> and \<^verbatim>\<open>time.rs\<close> of the C library, with their properties in the theories of the same name followed by Props. What
  a comparison function must be is the locale \<open>comparison\<close>, met by the library's own \<^verbatim>\<open>strcmp\<close>.

  \<^bold>\<open>Bounds.\<close> A buddy allocator holds fewer than $2^{32}$ frames (its sizes are stored in 32 bits; nothing in the
  source checks it) and the pool lies below $2^{48}$. A run of user pages has at most $2^{36}$ of them, so no address is
  visited twice. A buffer given to a device ends below $2^{40}$, the input size the stream entry states, and the driver polls at
  most $10^6$ times. Object generations are 32-bit and the theorems on revocation assume that a slot is not reused often
  enough to wrap; the file server ends after 2048 requests, so its generations cannot wrap. The calendar is proved for
  $|s| \le 2^{54}$ seconds, where the year fits the \<^verbatim>\<open>i32\<close> field. The walk of the device tree keeps arrays for 32 levels;
  a deeper tree is an error value. A pixel has at most four bytes. The loops that are not structural have a measure. Two may fail to
  return and are partial: the scan of a C string without an end, and the console's tab, of which the theorem says when it
  returns. A wait on several notifications settles in two rounds of its
  loop; that fuel two is enough is a theorem.

  \<^bold>\<open>Not modelled.\<close> Registers and assembly (boot, exception entry, interrupt controller, timer, PSCI, UART, context switch,
  caches, TLBs and barriers) have no counterpart: the model is the memory they publish. Left out too are the kernel's
  boot sequence, its self-tests, counters and log lines; the threads, processes, files, streams and floating point of the
  C library; and the services other than the file server, which are clients of the interface modelled here.
\<close>

end
